(* ===== verification/Tor_Prelude.thy ===== *)
theory Tor_Prelude
  imports Main "HOL-Library.Word" "HOL-Library.Sublist" "HOL-Library.Multiset"
begin

text \<open>
  Shared vocabulary of the development: the limits of C's integer types that the sources
  test against, the decimal numbers that the sources print with \<open>%d\<close> / \<open>%i\<close> and read back
  with \<open>strtol\<close>, and generic facts on lists that several components use.

  Byte strings of the sources (a pointer with a length, or a NUL-terminated string) are
  values of type \<open>string\<close>, lists of 8-bit characters.
\<close>

unbundle bit_operations_syntax

named_theorems decimal_simps "printing and reading decimal numbers"

abbreviation INT32_MAX :: nat where "INT32_MAX \<equiv> 2147483647"

abbreviation INT_MAX :: int where "INT_MAX \<equiv> 2147483647"

text \<open>The NUL-terminated string that starts at the first byte of a buffer.\<close>

definition c_string :: "string \<Rightarrow> string" where
  "c_string s = takeWhile (\<lambda>c. c \<noteq> CHR 0x00) s"

lemma c_string_id [decimal_simps]: "CHR 0x00 \<notin> set s \<Longrightarrow> c_string s = s"
  unfolding c_string_def by (simp add: takeWhile_eq_all_conv) metis

section \<open>Decimal numbers\<close>

text \<open>\<open>TOR_ISDIGIT\<close> of compat_ctype.h, and the decimal digits that printf writes.\<close>

definition TOR_ISDIGIT :: "char \<Rightarrow> bool" where
  "TOR_ISDIGIT c \<longleftrightarrow> 48 \<le> (of_char c :: nat) \<and> (of_char c :: nat) \<le> 57"

definition digit_char :: "nat \<Rightarrow> char" where
  "digit_char d = char_of (48 + d)"

definition digit_value :: "char \<Rightarrow> nat" where
  "digit_value c = of_char c - 48"

fun show_dec :: "nat \<Rightarrow> string" where
  "show_dec n = (if n < 10 then [digit_char n] else show_dec (n div 10) @ [digit_char (n mod 10)])"

declare show_dec.simps [simp del]

definition read_dec :: "string \<Rightarrow> nat" where
  "read_dec s = foldl (\<lambda>a c. 10 * a + digit_value c) 0 s"

lemma digit_char_digit [decimal_simps]: "d < 10 \<Longrightarrow> TOR_ISDIGIT (digit_char d)"
  by (simp add: TOR_ISDIGIT_def digit_char_def)

lemma digit_char_value [decimal_simps]: "d < 10 \<Longrightarrow> digit_value (digit_char d) = d"
  by (simp add: digit_value_def digit_char_def)

lemma show_dec_nonempty [decimal_simps]: "show_dec n \<noteq> []"
  by (subst show_dec.simps) simp

lemma show_dec_digits [decimal_simps]: "c \<in> set (show_dec n) \<Longrightarrow> TOR_ISDIGIT c"
proof (induction n rule: show_dec.induct)
  case (1 n)
  show ?case
  proof (cases "n < 10")
    case True
    with 1 show ?thesis by (simp add: show_dec.simps [of n] digit_char_digit)
  next
    case False
    with 1 show ?thesis
      by (auto simp add: show_dec.simps [of n] digit_char_digit)
  qed
qed

lemma read_dec_show_dec [decimal_simps]: "read_dec (show_dec n) = n"
proof (induction n rule: show_dec.induct)
  case (1 n)
  show ?case
  proof (cases "n < 10")
    case True
    then show ?thesis
      by (simp add: show_dec.simps [of n] read_dec_def digit_char_value)
  next
    case False
    with 1 have "read_dec (show_dec (n div 10)) = n div 10" by simp
    then have "foldl (\<lambda>a c. 10 * a + digit_value c) 0 (show_dec (n div 10)) = n div 10"
      by (simp add: read_dec_def)
    with False show ?thesis
      by (subst show_dec.simps) (simp add: read_dec_def digit_char_value)
  qed
qed

lemma show_dec_length: "n < 10 ^ k \<Longrightarrow> 0 < k \<Longrightarrow> length (show_dec n) \<le> k"
proof (induction n arbitrary: k rule: show_dec.induct)
  case (1 n)
  show ?case
  proof (cases "n < 10")
    case True
    with 1 show ?thesis by (simp add: show_dec.simps [of n])
  next
    case False
    with "1.prems" obtain m where k: "k = Suc m" and m: "0 < m"
      by (cases k; cases "k - 1") auto
    from "1.prems"(1) k have "n div 10 < 10 ^ m"
      by (simp add: less_mult_imp_div_less mult.commute)
    with "1.IH" False m have "length (show_dec (n div 10)) \<le> m" by blast
    with False k show ?thesis by (subst show_dec.simps) simp
  qed
qed

lemma digit_not_special [decimal_simps]:
  "TOR_ISDIGIT c \<Longrightarrow> c \<noteq> CHR 0x00" "\<not> TOR_ISDIGIT CHR '',''" "\<not> TOR_ISDIGIT CHR ''a''"
  "\<not> TOR_ISDIGIT CHR ''c''" "\<not> TOR_ISDIGIT CHR ''d''" "\<not> TOR_ISDIGIT CHR ''$''"
  by (auto simp: TOR_ISDIGIT_def)

lemma takeWhile_show_dec [decimal_simps]:
  "(rest = [] \<or> \<not> TOR_ISDIGIT (hd rest)) \<Longrightarrow>
     takeWhile TOR_ISDIGIT (show_dec n @ rest) = show_dec n
   \<and> dropWhile TOR_ISDIGIT (show_dec n @ rest) = rest"
  by (cases rest) (auto simp: decimal_simps takeWhile_append dropWhile_append takeWhile_eq_all_conv)

lemma show_dec_hd_digit [decimal_simps]: "TOR_ISDIGIT (hd (show_dec n @ rest))"
  using show_dec_digits [of "hd (show_dec n)" n] show_dec_nonempty [of n] by simp

section \<open>Bits of natural numbers\<close>

lemma or_push_bit [simp]:
  fixes n b :: nat
  assumes "b < 2 ^ k"
  shows "push_bit k n OR b = n * 2 ^ k + b"
proof -
  have "take_bit k b = b" using assms by (simp add: take_bit_nat_eq_self_iff)
  then have "\<not> bit (push_bit k n) i \<or> \<not> bit b i" for i
    by (metis bit_push_bit_iff_nat bit_take_bit_iff not_le)
  then have "push_bit k n + b = push_bit k n OR b" by (intro disjunctive_add) blast
  then show ?thesis by (simp add: push_bit_eq_mult)
qed

lemma and_mask_mod: "(n :: nat) AND 15 = n mod 16" "(n :: nat) AND 31 = n mod 32"
  "(n :: nat) AND 63 = n mod 64" "(n :: nat) AND 255 = n mod 256" "(n :: nat) AND 7 = n mod 8"
  "(n :: nat) AND 3 = n mod 4"
  using take_bit_eq_mask [of 4 n] take_bit_eq_mask [of 5 n] take_bit_eq_mask [of 6 n]
    take_bit_eq_mask [of 8 n] take_bit_eq_mask [of 3 n] take_bit_eq_mask [of 2 n]
  by (simp_all add: take_bit_eq_mod mask_eq_exp_minus_1)

lemma of_char_less: "(of_char c :: nat) < 256"
  by (rule nat_of_char_less_256)

section \<open>Lists\<close>

lemma take_Suc_nth: "i < length xs \<Longrightarrow> take (Suc i) xs = take i xs @ [xs ! i]"
  by (rule take_Suc_conv_app_nth)

text \<open>The segment of a list between two positions, as index loops of the sources visit it.\<close>

definition segment :: "nat \<Rightarrow> nat \<Rightarrow> 'a list \<Rightarrow> 'a list" where
  "segment i j xs = take (j - i) (drop i xs)"

lemma segment_empty [simp]: "j \<le> i \<Longrightarrow> segment i j xs = []"
  by (simp add: segment_def)

lemma length_segment [simp]: "j \<le> length xs \<Longrightarrow> length (segment i j xs) = j - i"
  by (simp add: segment_def)

lemma segment_append:
  "i \<le> j \<Longrightarrow> j \<le> k \<Longrightarrow> segment i j xs @ segment j k xs = segment i k xs"
proof -
  assume a: "i \<le> j" "j \<le> k"
  have "take (k - i) (drop i xs) = take (j - i) (drop i xs) @ take (k - i - (j - i)) (drop (j - i) (drop i xs))"
    by (metis a diff_le_mono le_add_diff_inverse take_add)
  with a show ?thesis by (simp add: segment_def)
qed

lemma segment_snoc:
  "i \<le> j \<Longrightarrow> j < length xs \<Longrightarrow> segment i (Suc j) xs = segment i j xs @ [xs ! j]"
  by (simp add: segment_def Suc_diff_le take_Suc_nth)

lemma segment_Cons:
  "i < j \<Longrightarrow> i < length xs \<Longrightarrow> segment i j xs = xs ! i # segment (Suc i) j xs"
  by (simp add: segment_def Cons_nth_drop_Suc [symmetric] Suc_diff_Suc [symmetric] del: Suc_diff_Suc)

lemma segment_zero [simp]: "segment 0 j xs = take j xs"
  by (simp add: segment_def)

lemma segment_to_end [simp]: "segment i (length xs) xs = drop i xs"
  by (simp add: segment_def)

lemma set_segment: "set (segment i j xs) \<subseteq> set xs"
  unfolding segment_def by (meson order_trans set_take_subset set_drop_subset)

lemma nth_segment: "i + k < j \<Longrightarrow> j \<le> length xs \<Longrightarrow> segment i j xs ! k = xs ! (i + k)"
  by (simp add: segment_def)

end
