(* ===== verification/Smartlist.thy ===== *)
theory Smartlist
  imports Tor_Prelude
begin

text \<open>
  The resizeable array of src/lib/smartlist_core/smartlist_core.c, and \<open>smartlist_reverse\<close> of
  src/lib/container/smartlist.c.

  A smartlist is the list of its used slots \<open>list[0 .. num_used-1]\<close>; the spare capacity
  behind them is not observable and is not modelled. \<open>raw_assert\<close> / \<open>tor_assert\<close> abort the
  process: an operation that asserts something of its arguments returns an option, \<open>None\<close>
  when the assertion fails.
\<close>

section \<open>Arrays\<close>

definition smartlist_add :: "'a list \<Rightarrow> 'a \<Rightarrow> 'a list" where
  "smartlist_add sl element = sl @ [element]"

definition smartlist_add_all :: "'a list \<Rightarrow> 'a list \<Rightarrow> 'a list" where
  "smartlist_add_all s1 s2 = s1 @ s2"

definition smartlist_pop_last :: "'a list \<Rightarrow> 'a option \<times> 'a list" where
  "smartlist_pop_last sl = (if sl \<noteq> [] then (Some (last sl), butlast sl) else (None, sl))"

definition smartlist_del :: "'a list \<Rightarrow> nat \<Rightarrow> 'a list option" where
  "smartlist_del sl idx =
     (if idx < length sl
      then Some (butlast (sl[idx := sl ! (length sl - 1)]))
      else None)"

definition smartlist_del_keeporder :: "'a list \<Rightarrow> nat \<Rightarrow> 'a list option" where
  "smartlist_del_keeporder sl idx =
     (if idx < length sl then Some (take idx sl @ drop (idx + 1) sl) else None)"

definition smartlist_insert :: "'a list \<Rightarrow> nat \<Rightarrow> 'a \<Rightarrow> 'a list option" where
  "smartlist_insert sl idx val =
     (if idx > length sl then None
      else if idx = length sl then Some (smartlist_add sl val)
      else Some (take idx sl @ val # drop idx sl))"

text \<open>
  \<open>smartlist_remove\<close> overwrites each match with the last element and looks at the same
  index again; \<open>smartlist_remove_keeporder\<close> copies the other elements down.
\<close>

function smartlist_remove_loop :: "'a list \<Rightarrow> 'a \<Rightarrow> nat \<Rightarrow> 'a list" where
  "smartlist_remove_loop sl element i =
     (if i < length sl
      then if sl ! i = element
           then smartlist_remove_loop (butlast (sl[i := sl ! (length sl - 1)])) element i
           else smartlist_remove_loop sl element (i + 1)
      else sl)"
  by pat_completeness auto
termination
  by (relation "measure (\<lambda>(sl, e, i). length sl - i)") auto

declare smartlist_remove_loop.simps [simp del]

definition smartlist_remove :: "'a list \<Rightarrow> 'a \<Rightarrow> 'a list" where
  "smartlist_remove sl element = smartlist_remove_loop sl element 0"

fun remove_keeporder_loop :: "'a list \<Rightarrow> 'a \<Rightarrow> 'a list \<Rightarrow> 'a list" where
  "remove_keeporder_loop kept element [] = kept"
| "remove_keeporder_loop kept element (x # xs) =
     (if x = element then remove_keeporder_loop kept element xs
      else remove_keeporder_loop (kept @ [x]) element xs)"

definition smartlist_remove_keeporder :: "'a list \<Rightarrow> 'a \<Rightarrow> 'a list" where
  "smartlist_remove_keeporder sl element = remove_keeporder_loop [] element sl"

fun smartlist_contains :: "'a list \<Rightarrow> 'a \<Rightarrow> bool" where
  "smartlist_contains [] element = False"
| "smartlist_contains (x # xs) element = (if x = element then True else smartlist_contains xs element)"

text \<open>\<open>smartlist_reverse\<close> swaps from both ends; \<open>j\<close> starts at -1 for an empty list.\<close>

function smartlist_reverse_loop :: "'a list \<Rightarrow> int \<Rightarrow> int \<Rightarrow> 'a list" where
  "smartlist_reverse_loop sl i j =
     (if i < j
      then smartlist_reverse_loop (sl[nat i := sl ! nat j, nat j := sl ! nat i]) (i + 1) (j - 1)
      else sl)"
  by pat_completeness auto
termination
  by (relation "measure (\<lambda>(sl, i, j). nat (j - i))") auto

declare smartlist_reverse_loop.simps [simp del]

definition smartlist_reverse :: "'a list \<Rightarrow> 'a list" where
  "smartlist_reverse sl = smartlist_reverse_loop sl 0 (int (length sl) - 1)"

lemma smartlist_del_length: "smartlist_del sl i = Some sl' \<Longrightarrow> length sl' = length sl - 1"
  by (auto simp: smartlist_del_def split: if_splits)

lemma smartlist_del_take: "smartlist_del sl i = Some sl' \<Longrightarrow> take i sl' = take i sl"
  by (auto simp: smartlist_del_def butlast_conv_take min_def split: if_splits)

lemma butlast_update_mset:
  "i < length sl \<Longrightarrow> add_mset (sl ! i) (mset (butlast (sl[i := sl ! (length sl - Suc 0)]))) = mset sl"
proof -
  assume i: "i < length sl"
  let ?l = "sl[i := sl ! (length sl - Suc 0)]"
  from i have ne: "?l \<noteq> []" by auto
  have "last ?l = sl ! (length sl - Suc 0)"
    using i ne by (simp add: last_conv_nth nth_list_update)
  then have "?l = butlast ?l @ [sl ! (length sl - Suc 0)]"
    using append_butlast_last_id [OF ne] by simp
  then have "mset ?l = add_mset (sl ! (length sl - Suc 0)) (mset (butlast ?l))"
    by (metis mset_append mset.simps union_mset_add_mset_right add.right_neutral)
  moreover have "mset ?l = add_mset (sl ! (length sl - Suc 0)) (mset sl - {#sl ! i#})"
    using i by (simp add: mset_update)
  ultimately have "mset (butlast ?l) = mset sl - {#sl ! i#}" by simp
  with i show ?thesis by (simp add: nth_mem_mset)
qed

lemma smartlist_del_mset:
  "smartlist_del sl i = Some sl' \<Longrightarrow> add_mset (sl ! i) (mset sl') = mset sl"
  by (auto simp: smartlist_del_def butlast_update_mset split: if_splits)

lemma remove_loop_mset:
  "(\<forall>k<i. sl ! k \<noteq> e) \<Longrightarrow> i \<le> length sl \<Longrightarrow>
     mset (smartlist_remove_loop sl e i) = filter_mset (\<lambda>x. x \<noteq> e) (mset sl)"
proof (induction sl e i rule: smartlist_remove_loop.induct)
  case (1 sl e i)
  let ?l = "butlast (sl[i := sl ! (length sl - 1)])"
  show ?case
  proof (cases "i < length sl")
    case False
    with "1.prems" have "\<forall>x\<in>set sl. x \<noteq> e" by (auto simp: in_set_conv_nth)
    with False show ?thesis
      by (simp add: smartlist_remove_loop.simps [of sl] filter_mset_eq_conv eq_commute [of "mset sl"])
  next
    case True
    show ?thesis
    proof (cases "sl ! i = e")
      case eq: True
      have "\<forall>k<i. ?l ! k \<noteq> e" using "1.prems" True
        by (auto simp: nth_butlast nth_list_update)
      with "1.IH"(1) [OF True eq] True
      have "mset (smartlist_remove_loop ?l e i) = filter_mset (\<lambda>x. x \<noteq> e) (mset ?l)" by simp
      also have "\<dots> = filter_mset (\<lambda>x. x \<noteq> e) (add_mset (sl ! i) (mset ?l))" using eq by simp
      also have "add_mset (sl ! i) (mset ?l) = mset sl" using butlast_update_mset [OF True] by simp
      finally show ?thesis
        using True eq by (simp add: smartlist_remove_loop.simps [of sl])
    next
      case neq: False
      have "\<forall>k<i + 1. sl ! k \<noteq> e" using "1.prems" neq by (auto simp: less_Suc_eq)
      with "1.IH"(2) [OF True neq] True neq show ?thesis
        by (simp add: smartlist_remove_loop.simps [of sl])
    qed
  qed
qed

lemma smartlist_remove_mset:
  "mset (smartlist_remove sl e) = filter_mset (\<lambda>x. x \<noteq> e) (mset sl)"
  by (simp add: smartlist_remove_def remove_loop_mset)

lemma remove_keeporder_loop_filter:
  "remove_keeporder_loop kept e xs = kept @ filter (\<lambda>x. x \<noteq> e) xs"
  by (induction kept e xs rule: remove_keeporder_loop.induct) auto

lemma smartlist_remove_keeporder_filter:
  "smartlist_remove_keeporder sl e = filter (\<lambda>x. x \<noteq> e) sl"
  by (simp add: smartlist_remove_keeporder_def remove_keeporder_loop_filter)

lemma smartlist_contains_iff [simp]: "smartlist_contains sl e \<longleftrightarrow> e \<in> set sl"
  by (induction sl e rule: smartlist_contains.induct) auto

lemma smartlist_reverse_loop_nth:
  "0 \<le> i \<Longrightarrow> i + j = int (length sl) - 1 \<Longrightarrow> i \<le> j + 1 \<Longrightarrow> k < length sl \<Longrightarrow>
     smartlist_reverse_loop sl i j ! k =
       (if i \<le> int k \<and> int k \<le> j then sl ! (length sl - 1 - k) else sl ! k)
   \<and> length (smartlist_reverse_loop sl i j) = length sl"
proof (induction sl i j rule: smartlist_reverse_loop.induct)
  case (1 sl i j)
  show ?case
  proof (cases "i < j")
    case True
    let ?s = "sl[nat i := sl ! nat j, nat j := sl ! nat i]"
    have "smartlist_reverse_loop ?s (i + 1) (j - 1) ! k =
        (if i + 1 \<le> int k \<and> int k \<le> j - 1 then ?s ! (length ?s - 1 - k) else ?s ! k)
      \<and> length (smartlist_reverse_loop ?s (i + 1) (j - 1)) = length ?s"
      using "1.IH" [OF True] "1.prems" True by simp
    moreover have b: "nat i < length sl" "nat j < length sl" "nat j = length sl - 1 - nat i"
      using "1.prems" True by auto
    ultimately have k: "smartlist_reverse_loop sl i j ! k =
        (if i + 1 \<le> int k \<and> int k \<le> j - 1 then ?s ! (length sl - 1 - k) else ?s ! k)
      \<and> length (smartlist_reverse_loop sl i j) = length sl"
      using True by (simp add: smartlist_reverse_loop.simps [of sl])
    consider "k = nat i" | "k = nat j" | "k \<noteq> nat i" "k \<noteq> nat j" by blast
    then show ?thesis
    proof cases
      case 1
      with k b "1.prems" True show ?thesis by (simp add: nth_list_update)
    next
      case 2
      with k b "1.prems" True have "length sl - 1 - k = nat i" by auto
      with 2 k b "1.prems" True show ?thesis by (simp add: nth_list_update)
    next
      case 3
      with b have "length sl - 1 - k \<noteq> nat i" "length sl - 1 - k \<noteq> nat j"
        using "1.prems" by auto
      moreover from 3 "1.prems" True
      have "(i \<le> int k \<and> int k \<le> j) = (i + 1 \<le> int k \<and> int k \<le> j - 1)" by auto
      ultimately show ?thesis using k 3 by simp
    qed
  next
    case False
    with "1.prems" have "i \<le> int k \<and> int k \<le> j \<longrightarrow> length sl - 1 - k = k" by auto
    with False show ?thesis by (auto simp: smartlist_reverse_loop.simps [of sl])
  qed
qed

text \<open>The swapping loop computes the list reversal.\<close>

lemma smartlist_reverse_rev: "smartlist_reverse sl = rev sl"
proof (cases sl)
  case Nil
  then show ?thesis by (simp add: smartlist_reverse_def smartlist_reverse_loop.simps)
next
  case (Cons a as)
  then have len: "length (smartlist_reverse sl) = length sl"
    using smartlist_reverse_loop_nth [of 0 "int (length sl) - 1" sl 0]
    by (simp add: smartlist_reverse_def)
  show ?thesis
  proof (rule nth_equalityI)
    show "length (smartlist_reverse sl) = length (rev sl)" using len by simp
    fix k assume "k < length (smartlist_reverse sl)"
    with len have k: "k < length sl" by simp
    then show "smartlist_reverse sl ! k = rev sl ! k"
      using smartlist_reverse_loop_nth [of 0 "int (length sl) - 1" sl k]
      by (auto simp: smartlist_reverse_def rev_nth)
  qed
qed

end
