(* ===== verification/Pqueue.thy ===== *)
theory Pqueue
  imports Smartlist
begin

text \<open>
  The binary heap of src/lib/container/smartlist.c (\<open>smartlist_pqueue_add\<close>, \<open>_pop\<close>,
  \<open>_remove\<close>, \<open>_assert_ok\<close> and the helper \<open>smartlist_heapify\<close>).

  The operations take the comparison function as an argument, as the C code does, and write
  each item's position into a field of the item. The model keeps these fields in the map
  \<open>pq_idx\<close> from items to \<open>int\<close>, so the model's items are the code's pointers.

  The locale \<open>comparison\<close> states what a comparison function promises, the locale
  \<open>priority_queue\<close> what a queue promises to its clients; the heap is shown to give the second
  from the first.
\<close>

section \<open>The priority queue\<close>

record 'a pqueue =
  pq_list :: "'a list"
  pq_idx :: "'a \<Rightarrow> int"

abbreviation MAX_PARENT_IDX :: nat where
  "MAX_PARENT_IDX \<equiv> (INT32_MAX - 2) div 2"

definition LEFT_CHILD :: "nat \<Rightarrow> nat" where
  "LEFT_CHILD i = 2 * i + 1"

definition PARENT :: "nat \<Rightarrow> nat" where
  "PARENT i = (i - 1) div 2"

definition UPDATE_IDX :: "'a pqueue \<Rightarrow> nat \<Rightarrow> 'a pqueue" where
  "UPDATE_IDX q i = q\<lparr>pq_idx := (pq_idx q)(pq_list q ! i := int i)\<rparr>"

text \<open>Exchange two slots and store both new positions, in the order of the code.\<close>

definition pq_swap :: "'a pqueue \<Rightarrow> nat \<Rightarrow> nat \<Rightarrow> 'a pqueue" where
  "pq_swap q i j =
     UPDATE_IDX (UPDATE_IDX (q\<lparr>pq_list := (pq_list q)[i := pq_list q ! j, j := pq_list q ! i]\<rparr>) i) j"

text \<open>The child (or \<open>idx\<close> itself) that \<open>smartlist_heapify\<close> wants at position \<open>idx\<close>.\<close>

definition heapify_best :: "('a \<Rightarrow> 'a \<Rightarrow> int) \<Rightarrow> 'a list \<Rightarrow> nat \<Rightarrow> nat" where
  "heapify_best compare l idx =
     (let left_idx = LEFT_CHILD idx;
          best_idx = (if compare (l ! idx) (l ! left_idx) < 0 then idx else left_idx)
      in if left_idx + 1 < length l \<and> compare (l ! (left_idx + 1)) (l ! best_idx) < 0
         then left_idx + 1 else best_idx)"

lemma length_pq_swap [simp]: "length (pq_list (pq_swap q i j)) = length (pq_list q)"
  by (simp add: pq_swap_def UPDATE_IDX_def)

lemma heapify_best_cases:
  "heapify_best compare l idx \<in> {idx, 2 * idx + 1, 2 * idx + 2}"
  by (simp add: heapify_best_def LEFT_CHILD_def Let_def)

function smartlist_heapify :: "('a \<Rightarrow> 'a \<Rightarrow> int) \<Rightarrow> 'a pqueue \<Rightarrow> nat \<Rightarrow> 'a pqueue" where
  "smartlist_heapify compare q idx =
     (if \<not> idx \<le> MAX_PARENT_IDX then q
      else if LEFT_CHILD idx \<ge> length (pq_list q) then q
      else let best_idx = heapify_best compare (pq_list q) idx
           in if best_idx = idx then q
              else smartlist_heapify compare (pq_swap q idx best_idx) best_idx)"
  by pat_completeness auto
termination
proof (relation "measure (\<lambda>(c, q, idx). length (pq_list q) - idx)", goal_cases)
  case (2 compare q idx x)
  then have "x \<in> {2 * idx + 1, 2 * idx + 2}"
    using heapify_best_cases [of compare "pq_list q" idx] by auto
  with 2 show ?case by (auto simp: LEFT_CHILD_def)
qed simp

declare smartlist_heapify.simps [simp del]

text \<open>The sift-up loop of \<open>smartlist_pqueue_add\<close>.\<close>

function pqueue_sift_up :: "('a \<Rightarrow> 'a \<Rightarrow> int) \<Rightarrow> 'a pqueue \<Rightarrow> nat \<Rightarrow> 'a pqueue" where
  "pqueue_sift_up compare q idx =
     (if idx = 0 then q
      else let parent = PARENT idx
           in if compare (pq_list q ! idx) (pq_list q ! parent) < 0
              then pqueue_sift_up compare (pq_swap q parent idx) parent
              else q)"
  by pat_completeness auto
termination
  by (relation "measure (\<lambda>(c, q, idx). idx)") (auto simp: PARENT_def)

declare pqueue_sift_up.simps [simp del]

definition smartlist_pqueue_add :: "('a \<Rightarrow> 'a \<Rightarrow> int) \<Rightarrow> 'a pqueue \<Rightarrow> 'a \<Rightarrow> 'a pqueue" where
  "smartlist_pqueue_add compare q item =
     (let q1 = q\<lparr>pq_list := smartlist_add (pq_list q) item\<rparr>;
          last_idx = length (pq_list q1) - 1
      in pqueue_sift_up compare (UPDATE_IDX q1 last_idx) last_idx)"

text \<open>\<open>smartlist_pqueue_pop\<close> asserts that the queue is not empty.\<close>

definition smartlist_pqueue_pop :: "('a \<Rightarrow> 'a \<Rightarrow> int) \<Rightarrow> 'a pqueue \<Rightarrow> ('a \<times> 'a pqueue) option" where
  "smartlist_pqueue_pop compare q =
     (if pq_list q = [] then None
      else let top = pq_list q ! 0;
               q1 = q\<lparr>pq_idx := (pq_idx q)(top := -1)\<rparr>;
               num_used = length (pq_list q) - 1
           in if num_used \<noteq> 0
              then let q2 = q1\<lparr>pq_list := butlast ((pq_list q)[0 := pq_list q ! num_used])\<rparr>
                   in Some (top, smartlist_heapify compare (UPDATE_IDX q2 0) 0)
              else Some (top, q1\<lparr>pq_list := []\<rparr>))"

text \<open>
  \<open>smartlist_pqueue_remove\<close> reads the item's position from the item, asserts that the item is
  there, moves the last item into the hole and calls \<open>smartlist_heapify\<close> on it, which only
  ever moves an item down.
\<close>

definition smartlist_pqueue_remove :: "('a \<Rightarrow> 'a \<Rightarrow> int) \<Rightarrow> 'a pqueue \<Rightarrow> 'a \<Rightarrow> 'a pqueue option" where
  "smartlist_pqueue_remove compare q item =
     (let idx = pq_idx q item
      in if \<not> idx \<ge> 0 then None
         else if \<not> (nat idx < length (pq_list q) \<and> pq_list q ! nat idx = item) then None
         else let num_used = length (pq_list q) - 1;
                  q1 = q\<lparr>pq_idx := (pq_idx q)(item := -1)\<rparr>
              in if nat idx = num_used
                 then Some (q1\<lparr>pq_list := butlast (pq_list q)\<rparr>)
                 else let q2 = q1\<lparr>pq_list := butlast ((pq_list q)[nat idx := pq_list q ! num_used])\<rparr>
                      in Some (smartlist_heapify compare (UPDATE_IDX q2 (nat idx)) (nat idx)))"

text \<open>The checks of \<open>smartlist_pqueue_assert_ok\<close>: true when no assertion fails.\<close>

definition smartlist_pqueue_assert_ok :: "('a \<Rightarrow> 'a \<Rightarrow> int) \<Rightarrow> 'a pqueue \<Rightarrow> bool" where
  "smartlist_pqueue_assert_ok compare q \<longleftrightarrow>
     (\<forall>i \<in> set (rev [0..<length (pq_list q)]).
        (i > 0 \<longrightarrow> compare (pq_list q ! PARENT i) (pq_list q ! i) \<le> 0)
      \<and> pq_idx q (pq_list q ! i) = int i)"

subsection \<open>Every operation keeps the recorded positions and the items\<close>

definition index_ok :: "'a pqueue \<Rightarrow> bool" where
  "index_ok q \<longleftrightarrow> (\<forall>i < length (pq_list q). pq_idx q (pq_list q ! i) = int i)"

definition heap_order :: "('a \<Rightarrow> 'a \<Rightarrow> int) \<Rightarrow> 'a list \<Rightarrow> bool" where
  "heap_order compare l \<longleftrightarrow>
     (\<forall>i < length l. 0 < i \<longrightarrow> compare (l ! PARENT i) (l ! i) \<le> 0)"

lemma assert_ok_iff:
  "smartlist_pqueue_assert_ok compare q \<longleftrightarrow> heap_order compare (pq_list q) \<and> index_ok q"
  by (auto simp: smartlist_pqueue_assert_ok_def heap_order_def index_ok_def)

lemma index_ok_distinct: "index_ok q \<Longrightarrow> distinct (pq_list q)"
  by (metis index_ok_def distinct_conv_nth of_nat_eq_iff)

lemma pq_list_swap:
  "pq_list (pq_swap q i j) = (pq_list q)[i := pq_list q ! j, j := pq_list q ! i]"
  by (simp add: pq_swap_def UPDATE_IDX_def)

lemma mset_pq_swap [simp]:
  "i < length (pq_list q) \<Longrightarrow> j < length (pq_list q) \<Longrightarrow> mset (pq_list (pq_swap q i j)) = mset (pq_list q)"
  by (simp add: pq_list_swap mset_swap)

lemma index_ok_swap:
  assumes "index_ok q" "i < length (pq_list q)" "j < length (pq_list q)" "i \<noteq> j"
  shows "index_ok (pq_swap q i j)"
  using assms index_ok_distinct [OF assms(1)]
  by (auto simp: index_ok_def pq_swap_def UPDATE_IDX_def nth_list_update nth_eq_iff_index_eq)

lemma pq_idx_swap_other:
  "x \<notin> set (pq_list q) \<Longrightarrow> i < length (pq_list q) \<Longrightarrow> j < length (pq_list q) \<Longrightarrow>
     pq_idx (pq_swap q i j) x = pq_idx q x"
  by (auto simp: pq_swap_def UPDATE_IDX_def nth_list_update)

text \<open>For evaluation: the bound on the index compared as an integer.\<close>

lemma smartlist_heapify_code [code]:
  "smartlist_heapify compare q idx =
     (if \<not> int idx \<le> 1073741822 then q
      else if LEFT_CHILD idx \<ge> length (pq_list q) then q
      else let best_idx = heapify_best compare (pq_list q) idx
           in if best_idx = idx then q
              else smartlist_heapify compare (pq_swap q idx best_idx) best_idx)"
  by (subst smartlist_heapify.simps) simp

lemma heapify_step:
  "idx \<le> MAX_PARENT_IDX \<Longrightarrow> LEFT_CHILD idx < length (pq_list q) \<Longrightarrow>
   heapify_best compare (pq_list q) idx = b \<Longrightarrow> b \<noteq> idx \<Longrightarrow>
     smartlist_heapify compare q idx = smartlist_heapify compare (pq_swap q idx b) b"
  by (subst smartlist_heapify.simps) (simp add: Let_def)

lemma heapify_stop:
  "\<not> (idx \<le> MAX_PARENT_IDX \<and> LEFT_CHILD idx < length (pq_list q)
      \<and> heapify_best compare (pq_list q) idx \<noteq> idx) \<Longrightarrow> smartlist_heapify compare q idx = q"
  by (subst smartlist_heapify.simps) (auto simp: Let_def)

lemma sift_up_step:
  "idx \<noteq> 0 \<Longrightarrow> compare (pq_list q ! idx) (pq_list q ! PARENT idx) < 0 \<Longrightarrow>
     pqueue_sift_up compare q idx = pqueue_sift_up compare (pq_swap q (PARENT idx) idx) (PARENT idx)"
  by (subst pqueue_sift_up.simps) (simp add: Let_def)

lemma sift_up_stop:
  "\<not> (idx \<noteq> 0 \<and> compare (pq_list q ! idx) (pq_list q ! PARENT idx) < 0) \<Longrightarrow>
     pqueue_sift_up compare q idx = q"
  by (subst pqueue_sift_up.simps) (auto simp: Let_def)

lemma heapify_frame:
  "mset (pq_list (smartlist_heapify compare q idx)) = mset (pq_list q)
   \<and> (index_ok q \<longrightarrow> index_ok (smartlist_heapify compare q idx))
   \<and> (x \<notin> set (pq_list q) \<longrightarrow> pq_idx (smartlist_heapify compare q idx) x = pq_idx q x)"
proof (induction compare q idx rule: smartlist_heapify.induct)
  case (1 compare q idx)
  let ?b = "heapify_best compare (pq_list q) idx"
  show ?case
  proof (cases "idx \<le> MAX_PARENT_IDX \<and> LEFT_CHILD idx < length (pq_list q) \<and> ?b \<noteq> idx")
    case True
    then have b: "?b < length (pq_list q)" "idx < length (pq_list q)" "idx \<noteq> ?b"
      by (auto simp: heapify_best_def LEFT_CHILD_def Let_def split: if_splits)
    have set: "set (pq_list (pq_swap q idx ?b)) = set (pq_list q)"
      using b by (metis mset_pq_swap set_mset_mset)
    have "mset (pq_list (smartlist_heapify compare (pq_swap q idx ?b) ?b)) = mset (pq_list (pq_swap q idx ?b))
      \<and> (index_ok (pq_swap q idx ?b) \<longrightarrow> index_ok (smartlist_heapify compare (pq_swap q idx ?b) ?b))
      \<and> (x \<notin> set (pq_list (pq_swap q idx ?b)) \<longrightarrow>
           pq_idx (smartlist_heapify compare (pq_swap q idx ?b) ?b) x = pq_idx (pq_swap q idx ?b) x)"
      using "1.IH" [OF _ _ refl] True by simp
    with b set True show ?thesis
      by (simp add: heapify_step index_ok_swap pq_idx_swap_other)
  next
    case False
    with heapify_stop [of idx q compare] show ?thesis by auto
  qed
qed

lemma sift_up_frame:
  "idx < length (pq_list q) \<Longrightarrow>
     mset (pq_list (pqueue_sift_up compare q idx)) = mset (pq_list q)
   \<and> (index_ok q \<longrightarrow> index_ok (pqueue_sift_up compare q idx))
   \<and> (x \<notin> set (pq_list q) \<longrightarrow> pq_idx (pqueue_sift_up compare q idx) x = pq_idx q x)"
proof (induction compare q idx rule: pqueue_sift_up.induct)
  case (1 compare q idx)
  show ?case
  proof (cases "idx \<noteq> 0 \<and> compare (pq_list q ! idx) (pq_list q ! PARENT idx) < 0")
    case True
    then have p: "PARENT idx < idx" by (auto simp: PARENT_def)
    have set: "set (pq_list (pq_swap q (PARENT idx) idx)) = set (pq_list q)"
      using p "1.prems" by (metis mset_pq_swap set_mset_mset less_trans)
    have "mset (pq_list (pqueue_sift_up compare (pq_swap q (PARENT idx) idx) (PARENT idx)))
            = mset (pq_list (pq_swap q (PARENT idx) idx))
      \<and> (index_ok (pq_swap q (PARENT idx) idx) \<longrightarrow>
           index_ok (pqueue_sift_up compare (pq_swap q (PARENT idx) idx) (PARENT idx)))
      \<and> (x \<notin> set (pq_list (pq_swap q (PARENT idx) idx)) \<longrightarrow>
           pq_idx (pqueue_sift_up compare (pq_swap q (PARENT idx) idx) (PARENT idx)) x
             = pq_idx (pq_swap q (PARENT idx) idx) x)"
      using "1.IH" [OF _ refl] True p "1.prems" by simp
    with p set True "1.prems" show ?thesis
      by (simp add: sift_up_step index_ok_swap pq_idx_swap_other)
  next
    case False
    with sift_up_stop [of idx compare q] show ?thesis by auto
  qed
qed

subsection \<open>What a comparison function promises\<close>

lemma PARENT_children: "0 < k \<Longrightarrow> PARENT k = i \<longleftrightarrow> k = 2 * i + 1 \<or> k = 2 * i + 2"
  by (auto simp: PARENT_def)

lemma PARENT_less: "0 < k \<Longrightarrow> PARENT k < k"
  by (auto simp: PARENT_def)

text \<open>The heap property except between \<open>h\<close> and its children, and except above \<open>h\<close>.\<close>

definition heap_hole_down :: "('a \<Rightarrow> 'a \<Rightarrow> int) \<Rightarrow> 'a list \<Rightarrow> nat \<Rightarrow> bool" where
  "heap_hole_down compare l h \<longleftrightarrow>
     (\<forall>k < length l. 0 < k \<longrightarrow> PARENT k \<noteq> h \<longrightarrow> compare (l ! PARENT k) (l ! k) \<le> 0)
   \<and> (\<forall>k < length l. 0 < k \<longrightarrow> PARENT k = h \<longrightarrow> 0 < h \<longrightarrow> compare (l ! PARENT h) (l ! k) \<le> 0)"

definition heap_hole_up :: "('a \<Rightarrow> 'a \<Rightarrow> int) \<Rightarrow> 'a list \<Rightarrow> nat \<Rightarrow> bool" where
  "heap_hole_up compare l h \<longleftrightarrow>
     (\<forall>k < length l. 0 < k \<longrightarrow> k \<noteq> h \<longrightarrow> compare (l ! PARENT k) (l ! k) \<le> 0)
   \<and> (\<forall>k < length l. 0 < k \<longrightarrow> PARENT k = h \<longrightarrow> 0 < h \<longrightarrow> compare (l ! PARENT h) (l ! k) \<le> 0)"

locale comparison =
  fixes compare :: "'a \<Rightarrow> 'a \<Rightarrow> int"
  assumes compare_sign: "compare x y < 0 \<longleftrightarrow> 0 < compare y x"
    and compare_trans: "compare x y \<le> 0 \<Longrightarrow> compare y z \<le> 0 \<Longrightarrow> compare x z \<le> 0"
begin

lemma compare_total: "\<not> compare x y < 0 \<Longrightarrow> compare y x \<le> 0"
  using compare_sign [of x y] by linarith

lemma compare_refl [simp]: "compare x x = 0"
  using compare_sign [of x x] by linarith

lemma best_le:
  assumes "LEFT_CHILD idx < length l" "idx < length l"
  shows "heapify_best compare l idx < length l
   \<and> compare (l ! heapify_best compare l idx) (l ! idx) \<le> 0
   \<and> (\<forall>k < length l. 0 < k \<longrightarrow> PARENT k = idx \<longrightarrow>
        compare (l ! heapify_best compare l idx) (l ! k) \<le> 0)"
proof -
  define left where "left = 2 * idx + 1"
  define b where "b = (if compare (l ! idx) (l ! left) < 0 then idx else left)"
  have b1: "compare (l ! b) (l ! idx) \<le> 0" and b2: "compare (l ! b) (l ! left) \<le> 0"
    using compare_total by (auto simp: b_def)
  have best: "heapify_best compare l idx =
      (if left + 1 < length l \<and> compare (l ! (left + 1)) (l ! b) < 0 then left + 1 else b)"
    by (simp add: heapify_best_def LEFT_CHILD_def left_def b_def Let_def)
  show ?thesis
  proof (cases "left + 1 < length l \<and> compare (l ! (left + 1)) (l ! b) < 0")
    case True
    then have c: "compare (l ! (left + 1)) (l ! b) \<le> 0" by simp
    from True best have "heapify_best compare l idx = left + 1" by simp
    with True compare_trans [OF c b1] compare_trans [OF c b2] show ?thesis
      by (auto simp: PARENT_children left_def)
  next
    case False
    then have "left + 1 < length l \<Longrightarrow> compare (l ! b) (l ! (left + 1)) \<le> 0"
      using compare_total by blast
    moreover from False best have "heapify_best compare l idx = b" by (simp only: if_False)
    moreover have "b < length l" using assms by (auto simp: b_def left_def LEFT_CHILD_def)
    ultimately show ?thesis
      using b1 b2 by (auto simp: PARENT_children left_def)
  qed
qed

lemma swap_hole_down:
  assumes hole: "heap_hole_down compare l idx"
    and left: "LEFT_CHILD idx < length l"
    and b: "heapify_best compare l idx = b" "b \<noteq> idx"
  shows "heap_hole_down compare (l[idx := l ! b, b := l ! idx]) b"
proof -
  let ?l = "l[idx := l ! b, b := l ! idx]"
  have idx: "idx < length l" using left by (simp add: LEFT_CHILD_def)
  have pb: "PARENT b = idx" "0 < b" "idx < b"
    using heapify_best_cases [of compare l idx] b by (auto simp: PARENT_def)
  note best = best_le [OF left idx, unfolded b]
  show ?thesis
    unfolding heap_hole_down_def
  proof (intro conjI allI impI)
    fix k assume k: "k < length ?l" "0 < k" "PARENT k \<noteq> b"
    consider "k = b" | "k = idx" | "k \<noteq> b" "k \<noteq> idx" "PARENT k = idx"
      | "k \<noteq> b" "k \<noteq> idx" "PARENT k \<noteq> idx" by blast
    then show "compare (?l ! PARENT k) (?l ! k) \<le> 0"
    proof cases
      case 1
      then show ?thesis using best idx pb by (simp add: nth_list_update)
    next
      case 2
      have "PARENT idx \<noteq> idx" "PARENT idx \<noteq> b" using 2 k PARENT_less [of idx] pb by auto
      with 2 show ?thesis using hole best idx pb k
        by (simp add: nth_list_update heap_hole_down_def)
    next
      case 3
      then show ?thesis using best idx pb k by (simp add: nth_list_update)
    next
      case 4
      then show ?thesis using hole k by (simp add: nth_list_update heap_hole_down_def)
    qed
  next
    fix k assume k: "k < length ?l" "0 < k" "PARENT k = b" "0 < b"
    then have "k \<noteq> b" "k \<noteq> idx" "PARENT k \<noteq> idx" using PARENT_less [of k] pb by auto
    then show "compare (?l ! PARENT b) (?l ! k) \<le> 0"
      using hole k pb idx best by (auto simp: nth_list_update heap_hole_down_def)
  qed
qed

lemma heapify_order:
  "heap_hole_down compare (pq_list q) idx \<Longrightarrow> length (pq_list q) \<le> INT32_MAX \<Longrightarrow>
     idx < length (pq_list q) \<Longrightarrow> heap_order compare (pq_list (smartlist_heapify compare q idx))"
proof (induction "length (pq_list q) - idx" arbitrary: q idx rule: less_induct)
  case (less q idx)
  let ?b = "heapify_best compare (pq_list q) idx"
  have hole: "heap_hole_down compare (pq_list q) idx"
    and len: "length (pq_list q) \<le> INT32_MAX" and idx: "idx < length (pq_list q)"
    using less.prems by auto
  show "heap_order compare (pq_list (smartlist_heapify compare q idx))"
  proof (cases "LEFT_CHILD idx < length (pq_list q)")
    case False
    then have "heap_order compare (pq_list q)"
      using hole by (auto simp: heap_order_def heap_hole_down_def LEFT_CHILD_def PARENT_children)
    with False heapify_stop [of idx q compare] show ?thesis by simp
  next
    case left: True
    with len have max: "idx \<le> MAX_PARENT_IDX" by (simp add: LEFT_CHILD_def)
    note best = best_le [OF left idx]
    show ?thesis
    proof (cases "?b = idx")
      case True
      have "heap_order compare (pq_list q)"
        unfolding heap_order_def
      proof (intro allI impI)
        fix i assume "i < length (pq_list q)" "0 < i"
        with hole best True show "compare (pq_list q ! PARENT i) (pq_list q ! i) \<le> 0"
          by (cases "PARENT i = idx") (auto simp: heap_hole_down_def)
      qed
      with True heapify_stop [of idx q compare] show ?thesis by simp
    next
      case False
      have "idx < ?b" using heapify_best_cases [of compare "pq_list q" idx] False by auto
      then have "length (pq_list q) - ?b < length (pq_list q) - idx" using idx by simp
      then have "heap_order compare (pq_list (smartlist_heapify compare (pq_swap q idx ?b) ?b))"
        using less.hyps [of "pq_swap q idx ?b" ?b] best len idx swap_hole_down [OF hole left refl False]
        by (simp add: pq_list_swap)
      with heapify_step [OF max left refl False] show ?thesis by simp
    qed
  qed
qed

lemma swap_hole_up:
  assumes hole: "heap_hole_up compare l h" and h: "h < length l" "0 < h"
    and less: "compare (l ! h) (l ! PARENT h) < 0"
  shows "heap_hole_up compare (l[PARENT h := l ! h, h := l ! PARENT h]) (PARENT h)"
proof -
  let ?p = "PARENT h" and ?l = "l[PARENT h := l ! h, h := l ! PARENT h]"
  have p: "?p < h" using h by (simp add: PARENT_less)
  from less have le: "compare (l ! h) (l ! ?p) \<le> 0" by simp
  have first: "\<And>k. k < length l \<Longrightarrow> 0 < k \<Longrightarrow> k \<noteq> h \<Longrightarrow> compare (l ! PARENT k) (l ! k) \<le> 0"
    and second: "\<And>k. k < length l \<Longrightarrow> 0 < k \<Longrightarrow> PARENT k = h \<Longrightarrow> compare (l ! ?p) (l ! k) \<le> 0"
    using hole h by (auto simp: heap_hole_up_def)
  show ?thesis
    unfolding heap_hole_up_def
  proof (intro conjI allI impI)
    fix k assume k: "k < length ?l" "0 < k" "k \<noteq> ?p"
    consider "k = h" | "k \<noteq> h" "PARENT k = ?p" | "k \<noteq> h" "PARENT k = h"
      | "k \<noteq> h" "PARENT k \<noteq> h" "PARENT k \<noteq> ?p" by blast
    then show "compare (?l ! PARENT k) (?l ! k) \<le> 0"
    proof cases
      case 1
      with h p le show ?thesis by (simp add: nth_list_update)
    next
      case 2
      with k first [of k] compare_trans [OF le] h p show ?thesis by (simp add: nth_list_update)
    next
      case 3
      with k second [of k] h p show ?thesis by (simp add: nth_list_update)
    next
      case 4
      with k first [of k] h show ?thesis by (simp add: nth_list_update)
    qed
  next
    fix k assume k: "k < length ?l" "0 < k" "PARENT k = ?p" "0 < ?p"
    have pp: "PARENT ?p < ?p" using k by (simp add: PARENT_less)
    have up: "compare (l ! PARENT ?p) (l ! ?p) \<le> 0" using first [of ?p] k p h by simp
    have "k \<noteq> ?p" using k PARENT_less [of k] by auto
    then show "compare (?l ! PARENT ?p) (?l ! k) \<le> 0"
      using k pp p h up first [of k] compare_trans [OF up]
      by (cases "k = h") (simp_all add: nth_list_update)
  qed
qed

lemma sift_up_order:
  "heap_hole_up compare (pq_list q) idx \<Longrightarrow> idx < length (pq_list q) \<Longrightarrow>
     heap_order compare (pq_list (pqueue_sift_up compare q idx))"
proof (induction idx arbitrary: q rule: less_induct)
  case (less idx)
  have hole: "heap_hole_up compare (pq_list q) idx" and idx: "idx < length (pq_list q)"
    using less.prems by auto
  show "heap_order compare (pq_list (pqueue_sift_up compare q idx))"
  proof (cases "idx \<noteq> 0 \<and> compare (pq_list q ! idx) (pq_list q ! PARENT idx) < 0")
    case True
    then have "PARENT idx < length (pq_list q)" using idx PARENT_less [of idx] by simp
    moreover have "heap_hole_up compare (pq_list (pq_swap q (PARENT idx) idx)) (PARENT idx)"
      using swap_hole_up [OF hole idx] True by (simp add: pq_list_swap)
    ultimately have "heap_order compare (pq_list (pqueue_sift_up compare (pq_swap q (PARENT idx) idx) (PARENT idx)))"
      using less.IH [of "PARENT idx" "pq_swap q (PARENT idx) idx"] True PARENT_less [of idx] by simp
    with True sift_up_step [of idx compare q] show ?thesis by simp
  next
    case False
    have "heap_order compare (pq_list q)"
      unfolding heap_order_def
    proof (intro allI impI)
      fix i assume "i < length (pq_list q)" "0 < i"
      with hole False compare_total show "compare (pq_list q ! PARENT i) (pq_list q ! i) \<le> 0"
        by (cases "i = idx") (auto simp: heap_hole_up_def)
    qed
    with False sift_up_stop [of idx compare q] show ?thesis by simp
  qed
qed

lemma heap_root_least: "heap_order compare l \<Longrightarrow> i < length l \<Longrightarrow> compare (l ! 0) (l ! i) \<le> 0"
proof (induction i rule: less_induct)
  case (less i)
  show ?case
  proof (cases "i = 0")
    case False
    then have p: "PARENT i < i" by (simp add: PARENT_less)
    then have "compare (l ! 0) (l ! PARENT i) \<le> 0" using less by simp
    moreover have "compare (l ! PARENT i) (l ! i) \<le> 0"
      using less.prems False by (simp add: heap_order_def)
    ultimately show ?thesis by (rule compare_trans)
  qed simp
qed

text \<open>\<open>smartlist_pqueue_add\<close> keeps the heap and adds exactly the new item.\<close>

lemma pqueue_add_mset: "mset (pq_list (smartlist_pqueue_add compare q x)) = add_mset x (mset (pq_list q))"
  using sift_up_frame [of "length (pq_list q)" "UPDATE_IDX (q\<lparr>pq_list := pq_list q @ [x]\<rparr>) (length (pq_list q))"]
  by (simp add: smartlist_pqueue_add_def smartlist_add_def Let_def UPDATE_IDX_def)

lemma pqueue_add_ok:
  assumes ok: "smartlist_pqueue_assert_ok compare q" and new: "x \<notin> set (pq_list q)"
  shows "smartlist_pqueue_assert_ok compare (smartlist_pqueue_add compare q x)"
proof -
  let ?n = "length (pq_list q)"
  let ?q = "UPDATE_IDX (q\<lparr>pq_list := pq_list q @ [x]\<rparr>) ?n"
  have add: "smartlist_pqueue_add compare q x = pqueue_sift_up compare ?q ?n"
    by (simp add: smartlist_pqueue_add_def smartlist_add_def Let_def)
  have "index_ok ?q" using ok new
    by (auto simp: assert_ok_iff index_ok_def UPDATE_IDX_def nth_append less_Suc_eq)
  moreover have "heap_hole_up compare (pq_list ?q) ?n"
    using ok
    by (auto simp: assert_ok_iff heap_order_def heap_hole_up_def UPDATE_IDX_def nth_append PARENT_def)
  ultimately show ?thesis
    using sift_up_frame [of ?n ?q compare] sift_up_order [of ?q ?n] add
    by (simp add: assert_ok_iff UPDATE_IDX_def)
qed

text \<open>\<open>smartlist_pqueue_pop\<close> removes a least item and keeps the heap.\<close>

lemma pop_hole_down:
  assumes "heap_order compare l" "1 < length l"
  shows "heap_hole_down compare (butlast (l[0 := l ! (length l - 1)])) 0"
  using assms by (auto simp: heap_order_def heap_hole_down_def nth_butlast nth_list_update PARENT_def)

lemma pqueue_pop_spec:
  assumes ok: "smartlist_pqueue_assert_ok compare q" and len: "length (pq_list q) \<le> INT32_MAX"
    and pop: "smartlist_pqueue_pop compare q = Some (tp, q')"
  shows "smartlist_pqueue_assert_ok compare q'
    \<and> mset (pq_list q) = add_mset tp (mset (pq_list q'))
    \<and> (\<forall>x \<in> set (pq_list q). compare tp x \<le> 0)
    \<and> tp = pq_list q ! 0 \<and> pq_idx q' tp = -1"
proof -
  let ?l = "pq_list q" and ?n = "length (pq_list q) - 1"
  from pop have ne: "?l \<noteq> []" and tp: "tp = ?l ! 0"
    by (auto simp: smartlist_pqueue_pop_def Let_def split: if_splits)
  have least: "\<forall>x \<in> set ?l. compare tp x \<le> 0"
    using ok heap_root_least tp by (auto simp: assert_ok_iff in_set_conv_nth)
  show ?thesis
  proof (cases "?n = 0")
    case True
    with ne have "?l = [tp]" using tp by (cases ?l) auto
    moreover from True pop have "q' = q\<lparr>pq_idx := (pq_idx q)(tp := -1), pq_list := []\<rparr>"
      by (auto simp: smartlist_pqueue_pop_def Let_def split: if_splits)
    ultimately show ?thesis by (simp add: assert_ok_iff heap_order_def index_ok_def)
  next
    case False
    let ?q1 = "q\<lparr>pq_idx := (pq_idx q)(tp := -1), pq_list := butlast (?l[0 := ?l ! ?n])\<rparr>"
    let ?q2 = "UPDATE_IDX ?q1 0"
    have q': "q' = smartlist_heapify compare ?q2 0"
      using pop False tp by (auto simp: smartlist_pqueue_pop_def Let_def split: if_splits)
    have l2: "pq_list ?q2 = butlast (?l[0 := ?l ! ?n])" by (simp add: UPDATE_IDX_def)
    have dist: "distinct ?l" using ok index_ok_distinct by (auto simp: assert_ok_iff)
    have mset: "mset ?l = add_mset tp (mset (pq_list ?q2))"
      using ne tp l2 butlast_update_mset [of 0 ?l] by simp
    then have notin: "tp \<notin> set (pq_list ?q2)"
      using dist mset_eq_imp_distinct_iff [of ?l "tp # pq_list ?q2"] by simp
    have idx: "index_ok ?q2"
      using ok dist False ne tp
      by (auto simp: assert_ok_iff index_ok_def UPDATE_IDX_def nth_butlast nth_list_update nth_eq_iff_index_eq)
    have hole: "heap_hole_down compare (pq_list ?q2) 0"
      using ok False l2 pop_hole_down [of ?l] by (simp add: assert_ok_iff)
    have "heap_order compare (pq_list q')"
      unfolding q' using l2 len False by (intro heapify_order [OF hole]) (simp_all add: less_Suc_eq_0_disj)
    moreover have "index_ok q' \<and> mset (pq_list q') = mset (pq_list ?q2) \<and> pq_idx q' tp = pq_idx ?q2 tp"
      unfolding q' using heapify_frame [of compare ?q2 0 tp] idx notin by simp
    moreover have "pq_idx ?q2 tp = -1"
    proof -
      have "0 < length (pq_list ?q2)" using l2 False by simp
      then have "pq_list ?q2 ! 0 \<in> set (pq_list ?q2)" by (rule nth_mem)
      with notin have "pq_list ?q2 ! 0 \<noteq> tp" by metis
      then show ?thesis by (simp add: UPDATE_IDX_def)
    qed
    ultimately show ?thesis using mset least tp by (simp add: assert_ok_iff)
  qed
qed

end

section \<open>The interface that clients of the queue use\<close>

text \<open>
  \<open>inv\<close> is what the queue keeps true of itself, \<open>items\<close> its contents; \<open>bound\<close> is the largest
  number of items it can hold.
\<close>

locale priority_queue =
  fixes inv :: "'q \<Rightarrow> bool" and items :: "'q \<Rightarrow> 'a multiset"
    and le :: "'a \<Rightarrow> 'a \<Rightarrow> bool"
    and add :: "'q \<Rightarrow> 'a \<Rightarrow> 'q" and pop :: "'q \<Rightarrow> ('a \<times> 'q) option"
    and bound :: nat
  assumes items_add: "items (add q x) = add_mset x (items q)"
    and inv_add: "inv q \<Longrightarrow> x \<notin># items q \<Longrightarrow> size (items q) < bound \<Longrightarrow> inv (add q x)"
    and pop_None: "pop q = None \<longleftrightarrow> items q = {#}"
    and items_pop: "inv q \<Longrightarrow> pop q = Some (x, q') \<Longrightarrow> items q = add_mset x (items q')"
    and inv_pop: "inv q \<Longrightarrow> pop q = Some (x, q') \<Longrightarrow> inv q'"
    and least_pop: "inv q \<Longrightarrow> pop q = Some (x, q') \<Longrightarrow> y \<in># items q \<Longrightarrow> le x y"
begin

lemma pop_Some: "items q \<noteq> {#} \<Longrightarrow> \<exists>x q'. pop q = Some (x, q')"
  using pop_None [of q] by (cases "pop q") auto

lemma size_pop: "inv q \<Longrightarrow> pop q = Some (x, q') \<Longrightarrow> size (items q) = Suc (size (items q'))"
  by (simp add: items_pop)

end

text \<open>Adding a list of items, and popping as often as asked.\<close>

fun add_items :: "('q \<Rightarrow> 'a \<Rightarrow> 'q) \<Rightarrow> 'q \<Rightarrow> 'a list \<Rightarrow> 'q" where
  "add_items add q [] = q"
| "add_items add q (x # xs) = add_items add (add q x) xs"

fun pop_items :: "('q \<Rightarrow> ('a \<times> 'q) option) \<Rightarrow> nat \<Rightarrow> 'q \<Rightarrow> 'a list" where
  "pop_items pop 0 q = []"
| "pop_items pop (Suc n) q =
     (case pop q of None \<Rightarrow> [] | Some (x, q') \<Rightarrow> x # pop_items pop n q')"

context priority_queue
begin

lemma add_items_inv:
  "inv q \<Longrightarrow> distinct xs \<Longrightarrow> (\<forall>x \<in> set xs. x \<notin># items q) \<Longrightarrow> size (items q) + length xs \<le> bound \<Longrightarrow>
     inv (add_items add q xs) \<and> items (add_items add q xs) = items q + mset xs"
proof (induction xs arbitrary: q)
  case Nil
  then show ?case by simp
next
  case (Cons x xs)
  then have "inv (add q x)" by (simp add: inv_add)
  moreover have "\<forall>y \<in> set xs. y \<notin># items (add q x)" using Cons.prems by (auto simp: items_add)
  ultimately show ?case
    using Cons.IH [of "add q x"] Cons.prems by (simp add: items_add)
qed

lemma pop_items_sorted:
  "inv q \<Longrightarrow> size (items q) \<le> n \<Longrightarrow>
     mset (pop_items pop n q) = items q \<and> sorted_wrt le (pop_items pop n q)"
proof (induction n arbitrary: q)
  case 0
  then show ?case by simp
next
  case (Suc n)
  show ?case
  proof (cases "pop q")
    case None
    then show ?thesis using pop_None [of q] by simp
  next
    case (Some xq)
    then obtain x q' where p: "pop q = Some (x, q')" by (cases xq) auto
    have "mset (pop_items pop n q') = items q' \<and> sorted_wrt le (pop_items pop n q')"
      using Suc p size_pop inv_pop by fastforce
    moreover have "\<forall>y \<in># items q'. le x y"
      using least_pop [OF Suc.prems(1) p] items_pop [OF Suc.prems(1) p] by simp
    ultimately show ?thesis
      using p items_pop [OF Suc.prems(1) p] by (auto simp flip: set_mset_mset)
  qed
qed

end

text \<open>The heap keeps that contract for every comparison function.\<close>

sublocale comparison \<subseteq> heap: priority_queue
  "\<lambda>q. smartlist_pqueue_assert_ok compare q \<and> length (pq_list q) \<le> INT32_MAX"
  "\<lambda>q. mset (pq_list q)" "\<lambda>x y. compare x y \<le> 0"
  "smartlist_pqueue_add compare" "smartlist_pqueue_pop compare" INT32_MAX
proof (unfold_locales, goal_cases)
  case (1 q x)
  show ?case by (rule pqueue_add_mset)
next
  case (2 q x)
  then show ?case
    using pqueue_add_ok [of q x] arg_cong [OF pqueue_add_mset [of q x], of size] by auto
next
  case (3 q)
  show ?case by (simp add: smartlist_pqueue_pop_def Let_def)
next
  case (4 q x q')
  then show ?case using pqueue_pop_spec by blast
next
  case (5 q x q')
  then have "smartlist_pqueue_assert_ok compare q'" "mset (pq_list q) = add_mset x (mset (pq_list q'))"
    using pqueue_pop_spec by blast+
  moreover from this(2) have "length (pq_list q) = Suc (length (pq_list q'))"
    by (metis size_mset size_add_mset)
  ultimately show ?case using 5 by simp
next
  case (6 q x q' y)
  then have "\<forall>y \<in> set (pq_list q). compare x y \<le> 0" using pqueue_pop_spec by blast
  with 6(3) show ?case by simp
qed

subsection \<open>Removing an arbitrary item\<close>

lemma heapify_below: "j < idx \<Longrightarrow> pq_list (smartlist_heapify compare q idx) ! j = pq_list q ! j"
proof (induction compare q idx rule: smartlist_heapify.induct)
  case (1 compare q idx)
  let ?b = "heapify_best compare (pq_list q) idx"
  show ?case
  proof (cases "idx \<le> MAX_PARENT_IDX \<and> LEFT_CHILD idx < length (pq_list q) \<and> ?b \<noteq> idx")
    case True
    then have "idx < ?b" using heapify_best_cases [of compare "pq_list q" idx] by auto
    with 1 True show ?thesis
      by (simp add: heapify_step pq_list_swap nth_list_update)
  next
    case False
    with heapify_stop [of idx q compare] show ?thesis by auto
  qed
qed

context comparison
begin

lemma heapify_at:
  assumes "idx < length (pq_list q)"
  shows "compare (pq_list (smartlist_heapify compare q idx) ! idx) (pq_list q ! idx) \<le> 0"
proof (cases "idx \<le> MAX_PARENT_IDX \<and> LEFT_CHILD idx < length (pq_list q)
    \<and> heapify_best compare (pq_list q) idx \<noteq> idx")
  case True
  let ?b = "heapify_best compare (pq_list q) idx"
  have "idx < ?b" using True heapify_best_cases [of compare "pq_list q" idx] by auto
  moreover have "compare (pq_list q ! ?b) (pq_list q ! idx) \<le> 0"
    using best_le True assms by blast
  ultimately show ?thesis
    using True assms by (simp add: heapify_step heapify_below pq_list_swap nth_list_update)
next
  case False
  with heapify_stop [of idx q compare] show ?thesis by auto
qed

lemma remove_hole_down:
  assumes heap: "heap_order compare l" and idx: "Suc idx < length l"
    and up: "idx = 0 \<or> compare (l ! PARENT idx) (last l) \<le> 0"
  shows "heap_hole_down compare (butlast (l[idx := last l])) idx"
proof -
  have first: "\<And>k. k < length l \<Longrightarrow> 0 < k \<Longrightarrow> compare (l ! PARENT k) (l ! k) \<le> 0"
    using heap by (simp add: heap_order_def)
  have "\<And>k. k < length l - 1 \<Longrightarrow> 0 < k \<Longrightarrow> PARENT k < length l - 1"
    using PARENT_less less_trans by blast
  moreover have "compare (l ! PARENT idx) (l ! k) \<le> 0" if "k < length l" "0 < k" "PARENT k = idx" "0 < idx" for k
    using first [of k] first [of idx] that idx compare_trans by auto
  moreover have "PARENT idx \<noteq> idx" if "0 < idx" using PARENT_less [OF that] by simp
  moreover have "PARENT idx < length l - 1" if "0 < idx" using PARENT_less [OF that] idx by simp
  ultimately show ?thesis
    unfolding heap_hole_down_def
    using first up
    by (intro conjI allI impI; case_tac "k = idx") (simp_all add: nth_butlast nth_list_update)
qed

lemma pqueue_remove_spec:
  assumes ok: "smartlist_pqueue_assert_ok compare q" and len: "length (pq_list q) \<le> INT32_MAX"
    and mem: "idx < length (pq_list q)" and x: "x = pq_list q ! idx"
  shows "\<exists>q'. smartlist_pqueue_remove compare q x = Some q'
    \<and> add_mset x (mset (pq_list q')) = mset (pq_list q) \<and> index_ok q' \<and> pq_idx q' x = -1
    \<and> (smartlist_pqueue_assert_ok compare q' \<longleftrightarrow>
         Suc idx = length (pq_list q) \<or> idx = 0
         \<or> compare (pq_list q ! PARENT idx) (last (pq_list q)) \<le> 0)"
proof -
  let ?l = "pq_list q" and ?n = "length (pq_list q) - 1"
  have heap: "heap_order compare ?l" and index: "index_ok q" using ok by (auto simp: assert_ok_iff)
  have at: "pq_idx q x = int idx" using index mem x by (simp add: index_ok_def)
  have ne: "?l \<noteq> []" using mem by auto
  then have last: "?l ! ?n = last ?l" by (simp add: last_conv_nth)
  have dist: "distinct ?l" by (rule index_ok_distinct [OF index])
  have rem0: "smartlist_pqueue_remove compare q x =
      (if idx = ?n then Some (q\<lparr>pq_idx := (pq_idx q)(x := -1), pq_list := butlast ?l\<rparr>)
       else Some (smartlist_heapify compare
         (UPDATE_IDX (q\<lparr>pq_idx := (pq_idx q)(x := -1), pq_list := butlast (?l[idx := ?l ! ?n])\<rparr>) idx) idx))"
    using at mem x by (simp add: smartlist_pqueue_remove_def Let_def)
  show ?thesis
  proof (cases "idx = ?n")
    case True
    let ?q' = "q\<lparr>pq_idx := (pq_idx q)(x := -1), pq_list := butlast ?l\<rparr>"
    have rem: "smartlist_pqueue_remove compare q x = Some ?q'"
      using rem0 by (simp only: if_P [OF True])
    have "add_mset x (mset (butlast ?l)) = mset (butlast ?l @ [last ?l])" using x last True by simp
    then have mset: "add_mset x (mset (butlast ?l)) = mset ?l" using ne by simp
    have "heap_order compare (butlast ?l)"
      unfolding heap_order_def
    proof (intro allI impI)
      fix i assume i: "i < length (butlast ?l)" "0 < i"
      then have "PARENT i < length (butlast ?l)" using PARENT_less [of i] by simp
      with i heap show "compare (butlast ?l ! PARENT i) (butlast ?l ! i) \<le> 0"
        by (simp add: heap_order_def nth_butlast)
    qed
    moreover have "index_ok ?q'"
      using index dist True x mem by (auto simp: index_ok_def nth_butlast nth_eq_iff_index_eq)
    moreover have "Suc idx = length ?l" using True mem by simp
    ultimately show ?thesis using rem mset by (simp add: assert_ok_iff)
  next
    case False
    let ?q1 = "q\<lparr>pq_idx := (pq_idx q)(x := -1), pq_list := butlast (?l[idx := last ?l])\<rparr>"
    let ?q2 = "UPDATE_IDX ?q1 idx"
    let ?q' = "smartlist_heapify compare ?q2 idx"
    have lt: "Suc idx < length ?l" using False mem by simp
    have rem: "smartlist_pqueue_remove compare q x = Some ?q'"
      using rem0 by (simp only: if_not_P [OF False] last)
    have l2: "pq_list ?q2 = butlast (?l[idx := last ?l])" by (simp add: UPDATE_IDX_def)
    have mset: "mset ?l = add_mset x (mset (pq_list ?q2))"
      using x l2 last butlast_update_mset [OF mem] by simp
    then have notin: "x \<notin> set (pq_list ?q2)"
      using dist mset_eq_imp_distinct_iff [of ?l "x # pq_list ?q2"] by simp
    have "?l ! i \<noteq> last ?l" if "i < ?n" for i
      using dist last that nth_eq_iff_index_eq [OF dist, of i ?n] by simp
    then have idx2: "index_ok ?q2"
      using index dist lt x last mem
      by (auto simp: index_ok_def UPDATE_IDX_def nth_butlast nth_list_update nth_eq_iff_index_eq)
    have inl: "idx < length (pq_list ?q2)" using l2 lt by simp
    have frame: "mset (pq_list ?q') = mset (pq_list ?q2)" "index_ok ?q'" "pq_idx ?q' x = pq_idx ?q2 x"
      using heapify_frame [of compare ?q2 idx x] idx2 notin by simp_all
    have "pq_list ?q2 ! idx \<in> set (pq_list ?q2)" using inl by (rule nth_mem)
    with notin have "pq_list ?q2 ! idx \<noteq> x" by metis
    then have free: "pq_idx ?q2 x = -1" by (simp add: UPDATE_IDX_def)
    have "heap_order compare (pq_list ?q') \<longleftrightarrow> idx = 0 \<or> compare (?l ! PARENT idx) (last ?l) \<le> 0"
    proof
      assume "idx = 0 \<or> compare (?l ! PARENT idx) (last ?l) \<le> 0"
      then have "heap_hole_down compare (pq_list ?q2) idx" unfolding l2 using heap lt remove_hole_down by blast
      then show "heap_order compare (pq_list ?q')" using l2 len inl by (intro heapify_order) simp_all
    next
      assume h: "heap_order compare (pq_list ?q')"
      have "length (pq_list ?q') = length (pq_list ?q2)" using frame(1) mset_eq_length by blast
      with h inl have "0 < idx \<Longrightarrow> compare (pq_list ?q' ! PARENT idx) (pq_list ?q' ! idx) \<le> 0"
        by (simp add: heap_order_def)
      moreover have "0 < idx \<Longrightarrow> pq_list ?q' ! PARENT idx = ?l ! PARENT idx"
        using PARENT_less [of idx] lt by (simp add: heapify_below l2 nth_butlast nth_list_update)
      moreover have "compare (pq_list ?q' ! idx) (last ?l) \<le> 0"
        using heapify_at [OF inl] lt l2 by (simp add: nth_butlast)
      ultimately show "idx = 0 \<or> compare (?l ! PARENT idx) (last ?l) \<le> 0"
        using compare_trans by fastforce
    qed
    then show ?thesis using rem mset frame free lt by (simp add: assert_ok_iff)
  qed
qed

end

context comparison
begin

lemma heap_sorts:
  assumes "distinct xs" "length xs \<le> INT32_MAX"
  shows "mset (pop_items (smartlist_pqueue_pop compare) (length xs)
            (add_items (smartlist_pqueue_add compare) \<lparr>pq_list = [], pq_idx = f\<rparr> xs)) = mset xs
       \<and> sorted_wrt (\<lambda>x y. compare x y \<le> 0)
           (pop_items (smartlist_pqueue_pop compare) (length xs)
              (add_items (smartlist_pqueue_add compare) \<lparr>pq_list = [], pq_idx = f\<rparr> xs))"
proof -
  let ?q0 = "\<lparr>pq_list = [], pq_idx = f\<rparr>"
  have "smartlist_pqueue_assert_ok compare ?q0" by (simp add: smartlist_pqueue_assert_ok_def)
  with heap.add_items_inv [of ?q0 xs] assms
  show ?thesis
    using heap.pop_items_sorted [of "add_items (smartlist_pqueue_add compare) ?q0 xs" "length xs"]
    by (simp add: smartlist_pqueue_assert_ok_def)
qed

end

section \<open>Properties\<close>

text \<open>C30: Popping a heap that was filled with distinct items by \<open>smartlist_pqueue_add\<close> returns
  each item once, in the order of the comparison function, whatever that function is, as long
  as it is a total preorder.\<close>

theorem pqueue_pops_sorted:
  assumes "comparison compare" "distinct xs" "length xs \<le> INT32_MAX"
  shows "mset (pop_items (smartlist_pqueue_pop compare) (length xs)
            (add_items (smartlist_pqueue_add compare) \<lparr>pq_list = [], pq_idx = f\<rparr> xs)) = mset xs
       \<and> sorted_wrt (\<lambda>x y. compare x y \<le> 0)
           (pop_items (smartlist_pqueue_pop compare) (length xs)
              (add_items (smartlist_pqueue_add compare) \<lparr>pq_list = [], pq_idx = f\<rparr> xs))"
  using comparison.heap_sorts [OF assms] .

lemma comparison_of_difference: "comparison (\<lambda>x y :: nat. int x - int y)"
  by unfold_locales auto

theorem pqueue_pops_sorted_witness:
  "sorted_wrt (\<lambda>x y. int x - int y \<le> 0)
     (pop_items (smartlist_pqueue_pop (\<lambda>x y. int x - int y)) (length [3, 1, 2 :: nat])
        (add_items (smartlist_pqueue_add (\<lambda>x y. int x - int y)) \<lparr>pq_list = [], pq_idx = (\<lambda>_. 0)\<rparr> [3, 1, 2]))"
  using pqueue_pops_sorted [OF comparison_of_difference, of "[3, 1, 2]" "\<lambda>_. 0"] by simp

text \<open>C31: \<open>smartlist_pqueue_remove\<close> of an item in a sound heap removes exactly that item, marks it
  as in no heap (index -1) and keeps every other item's recorded position right; but the result
  is a heap only when the item that fills the hole is not less than the hole's parent, because
  the function moves that item down and never up.\<close>

theorem pqueue_remove_keeps_heap_iff:
  assumes "comparison compare" "smartlist_pqueue_assert_ok compare q"
    and "length (pq_list q) \<le> INT32_MAX" "idx < length (pq_list q)" "x = pq_list q ! idx"
  shows "\<exists>q'. smartlist_pqueue_remove compare q x = Some q'
    \<and> add_mset x (mset (pq_list q')) = mset (pq_list q) \<and> index_ok q' \<and> pq_idx q' x = -1
    \<and> (smartlist_pqueue_assert_ok compare q' \<longleftrightarrow>
         Suc idx = length (pq_list q) \<or> idx = 0
         \<or> compare (pq_list q ! PARENT idx) (last (pq_list q)) \<le> 0)"
  using comparison.pqueue_remove_spec [OF assms] .

theorem pqueue_remove_keeps_heap_iff_witness:
  "\<exists>q'. smartlist_pqueue_remove (\<lambda>x y. int x - int y)
          \<lparr>pq_list = [0, 1, 2 :: nat], pq_idx = int\<rparr> 1 = Some q'
      \<and> smartlist_pqueue_assert_ok (\<lambda>x y. int x - int y) q' \<and> pq_idx q' 1 = -1"
proof -
  let ?q = "\<lparr>pq_list = [0, 1, 2 :: nat], pq_idx = int\<rparr>"
  have ok: "smartlist_pqueue_assert_ok (\<lambda>x y. int x - int y) ?q"
    by (simp add: smartlist_pqueue_assert_ok_def PARENT_def)
  show ?thesis
    using pqueue_remove_keeps_heap_iff [OF comparison_of_difference ok, of 1 1]
    by (auto simp: PARENT_def)
qed

text \<open>The order is really lost: of seven numbers added to an empty queue one is removed, and
  the others then leave the queue as 0, 1, 3, 2, 4, 5.\<close>

theorem pqueue_remove_loses_order:
  "map_option (\<lambda>q. (pop_items (smartlist_pqueue_pop (\<lambda>x y. x - y)) 6 q,
                    smartlist_pqueue_assert_ok (\<lambda>x y. x - y) q))
     (smartlist_pqueue_remove (\<lambda>x y. x - y)
        (add_items (smartlist_pqueue_add (\<lambda>x y. x - y))
           \<lparr>pq_list = [], pq_idx = (\<lambda>_. -1)\<rparr> [5, 6, 4, 1, 3, 0, 2 :: int]) 6)
   = Some ([0, 1, 3, 2, 4, 5], False)"
  by code_simp

end
