(* ===== verification/Consdiff_Lines.thy ===== *)
theory Consdiff_Lines
  imports Smartlist
begin

text \<open>
  The line-level helpers of src/feature/dircommon/consdiff.c: comparing lines, cutting a
  document into lines and joining lines into a document, and reading a router's identity out of
  an \<open>r\<close> line.

  A \<open>cdline_t\<close> is a pointer into a document and a length. Its contents are what the code
  compares and copies, so the model's line is the byte string itself; the memory area that the
  lines are allocated in is not modelled.
\<close>

type_synonym cdline = string

definition fast_memeq :: "string \<Rightarrow> string \<Rightarrow> nat \<Rightarrow> bool" where
  "fast_memeq a b n \<longleftrightarrow> take n a = take n b"

definition lines_eq :: "cdline \<Rightarrow> cdline \<Rightarrow> bool" where
  "lines_eq a b \<longleftrightarrow> length a = length b \<and> fast_memeq a b (length a)"

definition line_str_eq :: "cdline \<Rightarrow> string \<Rightarrow> bool" where
  "line_str_eq a b \<longleftrightarrow> (let bline = b in lines_eq a bline)"

definition line_starts_with_str :: "cdline \<Rightarrow> string \<Rightarrow> bool" where
  "line_starts_with_str a b \<longleftrightarrow> length a \<ge> length b \<and> fast_memeq a b (length b)"

lemma lines_eq_iff [simp]: "lines_eq a b \<longleftrightarrow> a = b"
  by (auto simp: lines_eq_def fast_memeq_def)

lemma line_str_eq_iff [simp]: "line_str_eq a b \<longleftrightarrow> a = b"
  by (simp add: line_str_eq_def)

section \<open>Cutting and joining\<close>

abbreviation CONSENSUS_LINE_MAX_LEN :: int where
  "CONSENSUS_LINE_MAX_LEN \<equiv> 1048576"

text \<open>\<open>memchr\<close>: the position of the first occurrence of a byte.\<close>

fun memchr :: "string \<Rightarrow> char \<Rightarrow> nat option" where
  "memchr [] c = None"
| "memchr (x # xs) c = (if x = c then Some 0 else map_option Suc (memchr xs c))"

lemma memchr_Some: "memchr s c = Some i \<Longrightarrow> i < length s \<and> s ! i = c \<and> c \<notin> set (take i s)"
  by (induction s c arbitrary: i rule: memchr.induct) (auto split: if_splits)

lemma memchr_append: "c \<notin> set xs \<Longrightarrow> memchr (xs @ c # ys) c = Some (length xs)"
  by (induction xs) auto

lemma memchr_None: "memchr s c = None \<longleftrightarrow> c \<notin> set s"
  by (induction s c rule: memchr.induct) auto

function consensus_split_lines :: "cdline list \<Rightarrow> string \<Rightarrow> cdline list option" where
  "consensus_split_lines out s =
     (if s = [] then Some out
      else case memchr s (CHR 0x0A) of
             None \<Rightarrow> None
           | Some eol \<Rightarrow>
               if int eol > CONSENSUS_LINE_MAX_LEN then None
               else consensus_split_lines (smartlist_add out (take eol s)) (drop (eol + 1) s))"
  by pat_completeness auto
termination
  by (relation "measure (\<lambda>(out, s). length s)") (auto dest: memchr_Some)

declare consensus_split_lines.simps [simp del]

fun consensus_join_lines_loop :: "string \<Rightarrow> cdline list \<Rightarrow> string" where
  "consensus_join_lines_loop out [] = out"
| "consensus_join_lines_loop out (cdline # inp) =
     consensus_join_lines_loop (out @ cdline @ [CHR 0x0A]) inp"

definition consensus_join_lines :: "cdline list \<Rightarrow> string" where
  "consensus_join_lines inp = consensus_join_lines_loop [] inp"

text \<open>A list of lines that a document can hold.\<close>

definition document_lines :: "cdline list \<Rightarrow> bool" where
  "document_lines ls \<longleftrightarrow>
     (\<forall>l \<in> set ls. CHR 0x0A \<notin> set l \<and> int (length l) \<le> CONSENSUS_LINE_MAX_LEN)"

lemma join_loop_concat:
  "consensus_join_lines_loop out ls = out @ concat (map (\<lambda>l. l @ [CHR 0x0A]) ls)"
  by (induction ls arbitrary: out) auto

lemma consensus_join_concat:
  "consensus_join_lines ls = concat (map (\<lambda>l. l @ [CHR 0x0A]) ls)"
  by (simp add: consensus_join_lines_def join_loop_concat)

lemma consensus_join_Cons:
  "consensus_join_lines (l # ls) = l @ CHR 0x0A # consensus_join_lines ls"
  by (simp add: consensus_join_concat)

lemma split_join_loop:
  "document_lines ls \<Longrightarrow> consensus_split_lines out (consensus_join_lines ls) = Some (out @ ls)"
proof (induction ls arbitrary: out)
  case Nil
  then show ?case by (simp add: consensus_join_concat consensus_split_lines.simps)
next
  case (Cons l ls)
  then have l: "CHR 0x0A \<notin> set l" "int (length l) \<le> CONSENSUS_LINE_MAX_LEN" "document_lines ls"
    by (auto simp: document_lines_def)
  from memchr_append [OF l(1), of "consensus_join_lines ls"] l(2)
  have "consensus_split_lines out (consensus_join_lines (l # ls)) =
      consensus_split_lines (out @ [l]) (consensus_join_lines ls)"
    by (subst consensus_split_lines.simps) (simp add: consensus_join_Cons smartlist_add_def)
  with Cons.IH [OF l(3)] show ?case by simp
qed

lemma split_lines_inv:
  "consensus_split_lines out s = Some r \<Longrightarrow> document_lines out \<Longrightarrow>
     \<exists>ls. r = out @ ls \<and> s = consensus_join_lines ls \<and> document_lines r"
proof (induction out s rule: consensus_split_lines.induct)
  case (1 out s)
  show ?case
  proof (cases "s = []")
    case True
    with 1 show ?thesis by (auto simp: consensus_split_lines.simps consensus_join_concat intro: exI [of _ "[]"])
  next
    case False
    with "1.prems"(1) obtain eol where eol: "memchr s (CHR 0x0A) = Some eol"
      "\<not> int eol > CONSENSUS_LINE_MAX_LEN"
      "consensus_split_lines (smartlist_add out (take eol s)) (drop (eol + 1) s) = Some r"
      by (auto simp: consensus_split_lines.simps [of out s] split: option.splits if_splits)
    have m: "eol < length s" "s ! eol = CHR 0x0A" "CHR 0x0A \<notin> set (take eol s)"
      using memchr_Some [OF eol(1)] by auto
    have "document_lines (smartlist_add out (take eol s))"
      using "1.prems"(2) m eol(2) by (auto simp: smartlist_add_def document_lines_def)
    with "1.IH" [OF False eol(1,2)] eol(3) obtain ls where
      ls: "r = smartlist_add out (take eol s) @ ls" "drop (eol + 1) s = consensus_join_lines ls" "document_lines r"
      by blast
    have "s = take eol s @ CHR 0x0A # drop (eol + 1) s"
      using m id_take_nth_drop [of eol s] by simp
    with ls show ?thesis
      by (intro exI [of _ "take eol s # ls"]) (simp add: smartlist_add_def consensus_join_Cons)
  qed
qed

text \<open>Cutting a document into lines succeeds exactly on the documents that joining produces.\<close>

lemma consensus_split_join:
  "consensus_split_lines [] s = Some ls \<longleftrightarrow> document_lines ls \<and> s = consensus_join_lines ls"
proof
  assume "consensus_split_lines [] s = Some ls"
  with split_lines_inv [of "[]" s ls] show "document_lines ls \<and> s = consensus_join_lines ls"
    by (auto simp: document_lines_def)
next
  assume "document_lines ls \<and> s = consensus_join_lines ls"
  with split_join_loop [of ls "[]"] show "consensus_split_lines [] s = Some ls" by simp
qed

end
