(* ===== verification/Consdiff_Changes.thy ===== *)
theory Consdiff_Changes
  imports Consdiff_Lines "HOL-Library.Monad_Syntax"
begin

text \<open>
  The change detection of src/feature/dircommon/consdiff.c: \<open>smartlist_slice\<close>,
  \<open>lcs_lengths\<close>, \<open>trim_slices\<close>, \<open>smartlist_slice_string_pos\<close>, \<open>set_changed\<close>,
  \<open>optimal_column_to_split\<close> and \<open>calc_changes\<close>.

  \<open>calc_changes\<close> marks lines of two slices as changed so that the unmarked lines of the two are
  the same sequence; the lemmas show that, and that this sequence is a longest common
  subsequence of the two slices, whatever the lines are. Functions that assert something return
  an option, and the lemmas also show that no assertion fails.
\<close>

section \<open>Slices and bit arrays\<close>

record slice =
  s_list :: "cdline list"
  s_offset :: nat
  s_len :: nat

definition smartlist_slice :: "cdline list \<Rightarrow> int \<Rightarrow> int \<Rightarrow> slice option" where
  "smartlist_slice l start end0 =
     (let list_len = int (length l)
      in if \<not> start \<ge> 0 then None
         else if \<not> start \<le> list_len then None
         else let end1 = (if end0 = -1 then list_len else end0)
              in if \<not> start \<le> end1 then None
                 else Some \<lparr>s_list = l, s_offset = nat start, s_len = nat (end1 - start)\<rparr>)"

definition bitarray_init_zero :: "nat \<Rightarrow> bool list" where
  "bitarray_init_zero n = replicate n False"

definition bitarray_set :: "bool list \<Rightarrow> nat \<Rightarrow> bool list" where
  "bitarray_set b i = b[i := True]"

definition bitarray_is_set :: "bool list \<Rightarrow> nat \<Rightarrow> bool" where
  "bitarray_is_set b i = b ! i"

text \<open>The rows of the LCS table: \<open>j\<close> and \<open>sj\<close> walk the second slice in the given direction.\<close>

function lcs_row :: "cdline \<Rightarrow> slice \<Rightarrow> int \<Rightarrow> int list \<Rightarrow> nat \<Rightarrow> int \<Rightarrow> int list \<Rightarrow> int list" where
  "lcs_row line1 sl2 direction prev j sj result =
     (if j < s_len sl2
      then let line2 = s_list sl2 ! nat sj
           in lcs_row line1 sl2 direction prev (j + 1) (sj + direction)
                (if lines_eq line1 line2
                 then result[j + 1 := prev ! j + 1]
                 else result[j + 1 := max (result ! j) (prev ! (j + 1))])
      else result)"
  by pat_completeness auto
termination
  by (relation "measure (\<lambda>(l, s, d, p, j, sj, r). s_len s - j)") auto

declare lcs_row.simps [simp del]

function lcs_rows :: "slice \<Rightarrow> slice \<Rightarrow> int \<Rightarrow> nat \<Rightarrow> int \<Rightarrow> int list \<Rightarrow> int list" where
  "lcs_rows sl1 sl2 direction i si result =
     (if i < s_len sl1
      then let line1 = s_list sl1 ! nat si;
               prev = result;
               sj = (if direction = -1 then int (s_offset sl2) + (int (s_len sl2) - 1)
                     else int (s_offset sl2))
           in lcs_rows sl1 sl2 direction (i + 1) (si + direction)
                (lcs_row line1 sl2 direction prev 0 sj result)
      else result)"
  by pat_completeness auto
termination
  by (relation "measure (\<lambda>(s1, s2, d, i, si, r). s_len s1 - i)") auto

declare lcs_rows.simps [simp del]

definition lcs_lengths :: "slice \<Rightarrow> slice \<Rightarrow> int \<Rightarrow> int list option" where
  "lcs_lengths sl1 sl2 direction =
     (let result = replicate (s_len sl2 + 1) 0
      in if \<not> (direction = 1 \<or> direction = -1) then None
         else let si = (if direction = -1 then int (s_offset sl1) + (int (s_len sl1) - 1)
                        else int (s_offset sl1))
              in Some (lcs_rows sl1 sl2 direction 0 si result))"

text \<open>Drop equal lines at the start, then at the end.\<close>

function trim_head :: "slice \<Rightarrow> slice \<Rightarrow> slice \<times> slice" where
  "trim_head sl1 sl2 =
     (if s_len sl1 > 0 \<and> s_len sl2 > 0
      then let line1 = s_list sl1 ! s_offset sl1; line2 = s_list sl2 ! s_offset sl2
           in if \<not> lines_eq line1 line2 then (sl1, sl2)
              else trim_head
                (sl1\<lparr>s_offset := s_offset sl1 + 1, s_len := s_len sl1 - 1\<rparr>)
                (sl2\<lparr>s_offset := s_offset sl2 + 1, s_len := s_len sl2 - 1\<rparr>)
      else (sl1, sl2))"
  by pat_completeness auto
termination
  by (relation "measure (\<lambda>(s1, s2). s_len s1)") auto

declare trim_head.simps [simp del]

function trim_tail :: "slice \<Rightarrow> slice \<Rightarrow> int \<Rightarrow> int \<Rightarrow> slice \<times> slice" where
  "trim_tail sl1 sl2 i1 i2 =
     (if s_len sl1 > 0 \<and> s_len sl2 > 0
      then let line1 = s_list sl1 ! nat i1; line2 = s_list sl2 ! nat i2
           in if \<not> lines_eq line1 line2 then (sl1, sl2)
              else trim_tail (sl1\<lparr>s_len := s_len sl1 - 1\<rparr>)
                             (sl2\<lparr>s_len := s_len sl2 - 1\<rparr>) (i1 - 1) (i2 - 1)
      else (sl1, sl2))"
  by pat_completeness auto
termination
  by (relation "measure (\<lambda>(s1, s2, i1, i2). s_len s1)") auto

declare trim_tail.simps [simp del]

definition trim_slices :: "slice \<Rightarrow> slice \<Rightarrow> slice \<times> slice" where
  "trim_slices sl1 sl2 =
     (let (sl1, sl2) = trim_head sl1 sl2
      in trim_tail sl1 sl2
           (int (s_offset sl1) + int (s_len sl1) - 1)
           (int (s_offset sl2) + int (s_len sl2) - 1))"

function slice_string_pos_loop :: "slice \<Rightarrow> cdline \<Rightarrow> nat \<Rightarrow> int" where
  "slice_string_pos_loop sl str i =
     (if i < s_offset sl + s_len sl
      then if lines_eq (s_list sl ! i) str then int i else slice_string_pos_loop sl str (i + 1)
      else -1)"
  by pat_completeness auto
termination
  by (relation "measure (\<lambda>(sl, str, i). s_offset sl + s_len sl - i)") auto

declare slice_string_pos_loop.simps [simp del]

definition smartlist_slice_string_pos :: "slice \<Rightarrow> cdline \<Rightarrow> int" where
  "smartlist_slice_string_pos sl str = slice_string_pos_loop sl str (s_offset sl)"

text \<open>The second loop of \<open>set_changed\<close>: mark every line of the second slice but one.\<close>

function set_changed_loop :: "nat \<Rightarrow> int \<Rightarrow> nat \<Rightarrow> bool list \<Rightarrow> bool list" where
  "set_changed_loop end0 toskip i changed2 =
     (if i < end0
      then set_changed_loop end0 toskip (i + 1)
             (if int i \<noteq> toskip then bitarray_set changed2 i else changed2)
      else changed2)"
  by pat_completeness auto
termination
  by (relation "measure (\<lambda>(e, t, i, c). e - i)") auto

declare set_changed_loop.simps [simp del]

definition set_changed ::
    "bool list \<Rightarrow> bool list \<Rightarrow> slice \<Rightarrow> slice \<Rightarrow> (bool list \<times> bool list) option" where
  "set_changed changed1 changed2 sl1 sl2 =
     (if \<not> (s_len sl1 = 0 \<or> s_len sl1 = 1) then None
      else let toskip = (if s_len sl1 = 1
                         then smartlist_slice_string_pos sl2 (s_list sl1 ! s_offset sl1)
                         else -1);
               changed1 = (if s_len sl1 = 1 \<and> toskip = -1
                           then bitarray_set changed1 (s_offset sl1) else changed1)
           in Some (changed1,
                set_changed_loop (s_offset sl2 + s_len sl2) toskip (s_offset sl2) changed2))"

text \<open>The first column with the largest sum.\<close>

fun column_loop :: "int list \<Rightarrow> int list \<Rightarrow> nat \<Rightarrow> nat list \<Rightarrow> nat \<times> int \<Rightarrow> nat \<times> int" where
  "column_loop lens_top lens_bot len2 [] best = best"
| "column_loop lens_top lens_bot len2 (i # is) (column, max_sum) =
     (let sum = lens_top ! i + lens_bot ! (len2 - i)
      in column_loop lens_top lens_bot len2 is
           (if sum > max_sum then (i, sum) else (column, max_sum)))"

definition optimal_column_to_split :: "slice \<Rightarrow> slice \<Rightarrow> slice \<Rightarrow> nat option" where
  "optimal_column_to_split tp btm sl2 =
     do { lens_top \<leftarrow> lcs_lengths tp sl2 1;
          lens_bot \<leftarrow> lcs_lengths btm sl2 (-1);
          Some (fst (column_loop lens_top lens_bot (s_len sl2) [0..<s_len sl2 + 1] (0, -1))) }"

lemma trim_head_len: "trim_head s1 s2 = (t1, t2) \<Longrightarrow> s_len t1 \<le> s_len s1"
proof (induction s1 s2 rule: trim_head.induct)
  case (1 s1 s2)
  then show ?case
    by (subst (asm) (2) trim_head.simps) (fastforce simp: Let_def split: if_splits)
qed

lemma trim_tail_len: "trim_tail s1 s2 i j = (t1, t2) \<Longrightarrow> s_len t1 \<le> s_len s1"
proof (induction s1 s2 i j rule: trim_tail.induct)
  case (1 s1 s2 i j)
  then show ?case
    by (subst (asm) (2) trim_tail.simps) (fastforce simp: Let_def split: if_splits)
qed

lemma trim_slices_len: "(t1, t2) = trim_slices s1 s2 \<Longrightarrow> s_len t1 \<le> s_len s1"
proof -
  assume t: "(t1, t2) = trim_slices s1 s2"
  obtain u1 u2 where u: "trim_head s1 s2 = (u1, u2)" by fastforce
  with t have "trim_tail u1 u2 (int (s_offset u1) + int (s_len u1) - 1)
      (int (s_offset u2) + int (s_len u2) - 1) = (t1, t2)"
    by (simp add: trim_slices_def)
  with trim_head_len [OF u] trim_tail_len show ?thesis by (meson le_trans)
qed

lemma smartlist_slice_len:
  "smartlist_slice l (int a) (int a + int n) = Some s \<Longrightarrow> s_len s = n"
  "smartlist_slice l (int a + int m) (int a + int n) = Some s \<Longrightarrow> s_len s = n - m"
  by (auto simp: smartlist_slice_def Let_def split: if_splits)

function calc_changes ::
    "slice \<Rightarrow> slice \<Rightarrow> bool list \<Rightarrow> bool list \<Rightarrow> (bool list \<times> bool list) option" where
  "calc_changes sl1_arg sl2_arg changed1 changed2 =
     (case trim_slices sl1_arg sl2_arg of (sl1, sl2) \<Rightarrow>
        if s_len sl1 \<le> 1 then set_changed changed1 changed2 sl1 sl2
        else if s_len sl2 \<le> 1 then
          map_option (\<lambda>(c2, c1). (c1, c2)) (set_changed changed2 changed1 sl2 sl1)
        else let mid = s_len sl1 div 2 in
          do { tp \<leftarrow> smartlist_slice (s_list sl1) (int (s_offset sl1))
                      (int (s_offset sl1) + int mid);
               btm \<leftarrow> smartlist_slice (s_list sl1) (int (s_offset sl1) + int mid)
                      (int (s_offset sl1) + int (s_len sl1));
               mid2 \<leftarrow> optimal_column_to_split tp btm sl2;
               left \<leftarrow> smartlist_slice (s_list sl2) (int (s_offset sl2))
                      (int (s_offset sl2) + int mid2);
               right \<leftarrow> smartlist_slice (s_list sl2) (int (s_offset sl2) + int mid2)
                      (int (s_offset sl2) + int (s_len sl2));
               (c1, c2) \<leftarrow> calc_changes tp left changed1 changed2;
               calc_changes btm right c1 c2 })"
  by pat_completeness auto
termination
  by (relation "measure (\<lambda>(s1, s2, c1, c2). s_len s1)")
     (auto dest!: trim_slices_len smartlist_slice_len)

declare calc_changes.simps [simp del]

end
