(* ===== verification/Consdiff_Ed.thy ===== *)
theory Consdiff_Ed
  imports Consdiff_Changes
begin

text \<open>
  Generation and application of ed scripts in src/feature/dircommon/consdiff.c: walking the two
  consensuses router by router (\<open>get_id_hash\<close>, \<open>next_router\<close>, \<open>base64cmp\<close>,
  \<open>find_next_router_line\<close>), \<open>preprocess_consensus\<close>, \<open>gen_ed_diff\<close> and \<open>apply_ed_diff\<close>.

  Indices that the code decrements below zero or starts at -1 are integers. A function that
  returns NULL or -1 after a warning returns \<open>None\<close>, and so does one whose assertion fails.
  Logging, and the memory area, are left out.
\<close>

section \<open>Router lines\<close>

abbreviation NOT_VALID_BASE64 :: nat where "NOT_VALID_BASE64 \<equiv> 255"

definition base64_compare_table :: "nat list" where
  "base64_compare_table =
   [255, 255, 255, 255, 255, 255, 255, 255, 255, 255, 255, 255, 255, 255, 255, 255,
    255, 255, 255, 255, 255, 255, 255, 255, 255, 255, 255, 255, 255, 255, 255, 255,
    255, 255, 255, 255, 255, 255, 255, 255, 255, 255, 255, 62, 255, 255, 255, 63,
    52, 53, 54, 55, 56, 57, 58, 59, 60, 61, 255, 255, 255, 255, 255, 255,
    255, 0, 1, 2, 3, 4, 5, 6, 7, 8, 9, 10, 11, 12, 13, 14,
    15, 16, 17, 18, 19, 20, 21, 22, 23, 24, 25, 255, 255, 255, 255, 255,
    255, 26, 27, 28, 29, 30, 31, 32, 33, 34, 35, 36, 37, 38, 39, 40,
    41, 42, 43, 44, 45, 46, 47, 48, 49, 50, 51, 255, 255, 255, 255, 255,
    255, 255, 255, 255, 255, 255, 255, 255, 255, 255, 255, 255, 255, 255, 255, 255,
    255, 255, 255, 255, 255, 255, 255, 255, 255, 255, 255, 255, 255, 255, 255, 255,
    255, 255, 255, 255, 255, 255, 255, 255, 255, 255, 255, 255, 255, 255, 255, 255,
    255, 255, 255, 255, 255, 255, 255, 255, 255, 255, 255, 255, 255, 255, 255, 255,
    255, 255, 255, 255, 255, 255, 255, 255, 255, 255, 255, 255, 255, 255, 255, 255,
    255, 255, 255, 255, 255, 255, 255, 255, 255, 255, 255, 255, 255, 255, 255, 255,
    255, 255, 255, 255, 255, 255, 255, 255, 255, 255, 255, 255, 255, 255, 255, 255,
    255, 255, 255, 255, 255, 255, 255, 255, 255, 255, 255, 255, 255, 255, 255, 255]"

definition base64_value :: "char \<Rightarrow> nat" where
  "base64_value c = base64_compare_table ! of_char c"

text \<open>
  The bytes of the identity up to the first one that is not in base 64 or to the end of the line.
  The code looks at the byte behind the line before it compares pointers; the answer does not
  depend on that byte.
\<close>

definition get_id_hash :: "cdline \<Rightarrow> cdline option" where
  "get_id_hash line =
     (if length line < 2 then None
      else case memchr (drop 2 line) (CHR '' '') of
             None \<Rightarrow> None
           | Some k \<Rightarrow>
               let hash = drop (2 + k + 1) line;
                   id = takeWhile (\<lambda>c. base64_value c \<noteq> NOT_VALID_BASE64) hash
               in if id = [] then None else Some id)"

definition is_valid_router_entry :: "cdline \<Rightarrow> bool" where
  "is_valid_router_entry line =
     (if length line < 2 \<or> \<not> fast_memeq line ''r '' 2 then False
      else get_id_hash line \<noteq> None)"

function next_router_loop :: "cdline list \<Rightarrow> int \<Rightarrow> int" where
  "next_router_loop cons cur =
     (if cur \<ge> int (length cons) then int (length cons)
      else if \<not> is_valid_router_entry (cons ! nat cur) then next_router_loop cons (cur + 1)
      else cur)"
  by pat_completeness auto
termination
  by (relation "measure (\<lambda>(cons, cur). nat (int (length cons) - cur))") auto

declare next_router_loop.simps [simp del]

definition next_router :: "cdline list \<Rightarrow> int \<Rightarrow> int option" where
  "next_router cons cur =
     (if \<not> (cur \<ge> -1 \<and> cur < int (length cons)) then None
      else Some (next_router_loop cons (cur + 1)))"

text \<open>
  Comparing two identities; \<open>None\<close> is the NULL pointer. Both strings come from
  \<open>get_id_hash\<close>, so the byte behind each is not a base 64 digit: reading it gives
  \<open>NOT_VALID_BASE64\<close>.
\<close>

definition base64_at :: "string \<Rightarrow> nat" where
  "base64_at s = (case s of [] \<Rightarrow> NOT_VALID_BASE64 | c # _ \<Rightarrow> base64_value c)"

function base64cmp_loop :: "string \<Rightarrow> string \<Rightarrow> int" where
  "base64cmp_loop a b =
     (let av = base64_at a; bv = base64_at b
      in if av = NOT_VALID_BASE64 then (if bv = NOT_VALID_BASE64 then 0 else -1)
         else if bv = NOT_VALID_BASE64 then 1
         else if av < bv then -1
         else if av > bv then 1
         else if tl a = [] then (if tl b = [] then 0 else -1)
         else if tl b = [] then 1
         else base64cmp_loop (tl a) (tl b))"
  by pat_completeness auto
termination
  by (relation "measure (\<lambda>(a, b). length a)") (auto simp: base64_at_def split: list.splits)

declare base64cmp_loop.simps [simp del]

fun base64cmp :: "cdline option \<Rightarrow> cdline option \<Rightarrow> int" where
  "base64cmp None None = 0"
| "base64cmp None (Some _) = -1"
| "base64cmp (Some _) None = 1"
| "base64cmp (Some hash1) (Some hash2) = base64cmp_loop hash1 hash2"

record router_id_iterator =
  last_hash :: "cdline option"
  hash :: "cdline option"

definition ROUTER_ID_ITERATOR_INIT :: router_id_iterator where
  "ROUTER_ID_ITERATOR_INIT = \<lparr>last_hash = None, hash = None\<rparr>"

definition find_next_router_line ::
    "cdline list \<Rightarrow> int \<Rightarrow> router_id_iterator \<Rightarrow> (int \<times> router_id_iterator) option" where
  "find_next_router_line cons idx iter =
     do { idx \<leftarrow> next_router cons idx;
          if idx < int (length cons)
          then do { let iter = iter\<lparr>last_hash := hash iter\<rparr>;
                    h \<leftarrow> get_id_hash (cons ! nat idx);
                    let iter = iter\<lparr>hash := Some h\<rparr>;
                    if base64cmp (hash iter) (last_hash iter) \<le> 0 then None
                    else Some (idx, iter) }
          else Some (idx, iter) }"

section \<open>The signatures at the end\<close>

definition START_OF_SIGNATURES_SECTION :: string where
  "START_OF_SIGNATURES_SECTION = ''directory-signature ''"

fun dirsig_loop :: "nat \<Rightarrow> cdline list \<Rightarrow> int" where
  "dirsig_loop idx [] = -1"
| "dirsig_loop idx (line # cons) =
     (if line_starts_with_str line START_OF_SIGNATURES_SECTION then int idx
      else dirsig_loop (idx + 1) cons)"

function del_from :: "cdline list \<Rightarrow> nat \<Rightarrow> cdline list option" where
  "del_from cons dirsig_idx =
     (if length cons > dirsig_idx
      then case smartlist_del cons dirsig_idx of
             None \<Rightarrow> None
           | Some cons' \<Rightarrow> del_from cons' dirsig_idx
      else Some cons)"
  by pat_completeness auto
termination
  by (relation "measure (\<lambda>(cons, i). length cons)") (auto dest!: smartlist_del_length)

declare del_from.simps [simp del]

text \<open>The truncated consensus, and the delete command when there was a signature section.\<close>

definition preprocess_consensus :: "cdline list \<Rightarrow> (cdline list \<times> cdline option) option" where
  "preprocess_consensus cons =
     (let dirsig_idx = dirsig_loop 0 cons
      in if dirsig_idx \<ge> 0
         then map_option (\<lambda>cons'. (cons', Some (show_dec (nat dirsig_idx + 1) @ '',$d'')))
                (del_from cons (nat dirsig_idx))
         else Some (cons, None))"

section \<open>Finding the changes chunk by chunk\<close>

lemma next_router_loop_bounds:
  "cur \<le> int (length cons) \<Longrightarrow> cur \<le> next_router_loop cons cur \<and> next_router_loop cons cur \<le> int (length cons)"
proof (induction cons cur rule: next_router_loop.induct)
  case (1 cons cur)
  then show ?case by (auto simp: next_router_loop.simps [of cons cur])
qed

lemma find_next_bounds:
  "find_next_router_line cons i it = Some (j, it') \<Longrightarrow> -1 \<le> i \<and> i < j \<and> j \<le> int (length cons)"
  using next_router_loop_bounds [of "i + 1" cons]
  by (auto simp: find_next_router_line_def next_router_def Let_def split: if_splits option.splits
      bind_splits)

text \<open>The inner loop: advance the position with the lower identity until the two agree.\<close>

function align_loop ::
    "cdline list \<Rightarrow> cdline list \<Rightarrow> int \<Rightarrow> int \<Rightarrow> router_id_iterator \<Rightarrow> router_id_iterator \<Rightarrow> int \<Rightarrow>
     (int \<times> int \<times> router_id_iterator \<times> router_id_iterator) option" where
  "align_loop cons1 cons2 i1 i2 iter1 iter2 cmp =
     (let len1 = int (length cons1); len2 = int (length cons2)
      in if cmp \<noteq> 0
         then if i1 < len1 \<and> cmp < 0
              then case find_next_router_line cons1 i1 iter1 of
                     None \<Rightarrow> None
                   | Some (i1', iter1') \<Rightarrow>
                       if i1' = len1 then Some (i1', len2, iter1', iter2)
                       else align_loop cons1 cons2 i1' i2 iter1' iter2
                              (base64cmp (hash iter1') (hash iter2))
              else if i2 < len2 \<and> cmp > 0
              then case find_next_router_line cons2 i2 iter2 of
                     None \<Rightarrow> None
                   | Some (i2', iter2') \<Rightarrow>
                       if i2' = len2 then Some (len1, i2', iter1, iter2')
                       else align_loop cons1 cons2 i1 i2' iter1 iter2'
                              (base64cmp (hash iter1) (hash iter2'))
              else Some (len1, len2, iter1, iter2)
         else Some (i1, i2, iter1, iter2))"
  by pat_completeness auto
termination
  by (relation "measure (\<lambda>(c1, c2, i1, i2, _). nat (int (length c1) - i1) + nat (int (length c2) - i2))")
     (auto dest!: find_next_bounds)

declare align_loop.simps [simp del]

lemma align_loop_measure:
  "align_loop cons1 cons2 i1 i2 it1 it2 cmp = Some (j1, j2, jt1, jt2) \<Longrightarrow>
     nat (int (length cons1) - j1) \<le> nat (int (length cons1) - i1)
   \<and> nat (int (length cons2) - j2) \<le> nat (int (length cons2) - i2)"
proof (induction cons1 cons2 i1 i2 it1 it2 cmp rule: align_loop.induct)
  case (1 cons1 cons2 i1 i2 it1 it2 cmp)
  show ?case
  proof (cases "cmp \<noteq> 0 \<and> (i1 < int (length cons1) \<and> cmp < 0 \<or> i2 < int (length cons2) \<and> cmp > 0)")
    case False
    with "1.prems" show ?thesis
      by (auto simp: align_loop.simps [of cons1 cons2 i1 i2 it1 it2 cmp] Let_def split: if_splits)
  next
    case True
    show ?thesis
    proof (cases "cmp < 0")
      case neg: True
      with True "1.prems" obtain i1' it1' where f: "find_next_router_line cons1 i1 it1 = Some (i1', it1')"
        by (auto simp: align_loop.simps [of cons1 cons2 i1 i2 it1 it2 cmp] Let_def split: option.splits)
      note b = find_next_bounds [OF f]
      show ?thesis
      proof (cases "i1' = int (length cons1)")
        case True
        with f neg \<open>cmp \<noteq> 0 \<and> _\<close> "1.prems" show ?thesis
          by (auto simp: align_loop.simps [of cons1 cons2 i1 i2 it1 it2 cmp])
      next
        case False
        with f neg True "1.prems" have "align_loop cons1 cons2 i1' i2 it1' it2
            (base64cmp (hash it1') (hash it2)) = Some (j1, j2, jt1, jt2)"
          by (auto simp: align_loop.simps [of cons1 cons2 i1 i2 it1 it2 cmp])
        with "1.IH"(1) [OF refl refl _ _ f refl False] neg True b show ?thesis by fastforce
      qed
    next
      case pos: False
      with True "1.prems" obtain i2' it2' where f: "find_next_router_line cons2 i2 it2 = Some (i2', it2')"
        by (auto simp: align_loop.simps [of cons1 cons2 i1 i2 it1 it2 cmp] Let_def split: option.splits)
      note b = find_next_bounds [OF f]
      show ?thesis
      proof (cases "i2' = int (length cons2)")
        case True
        with f pos \<open>cmp \<noteq> 0 \<and> _\<close> "1.prems" show ?thesis
          by (auto simp: align_loop.simps [of cons1 cons2 i1 i2 it1 it2 cmp])
      next
        case False
        with f pos True "1.prems" have "align_loop cons1 cons2 i1 i2' it1 it2'
            (base64cmp (hash it1) (hash it2')) = Some (j1, j2, jt1, jt2)"
          by (auto simp: align_loop.simps [of cons1 cons2 i1 i2 it1 it2 cmp])
        with "1.IH"(2) [OF refl refl _ _ _ f refl False] pos True b show ?thesis by fastforce
      qed
    qed
  qed
qed

abbreviation MAX_LINE_COUNT :: int where "MAX_LINE_COUNT \<equiv> 10000"

text \<open>One position moves on by a router line unless it is at the end.\<close>

definition advance ::
    "cdline list \<Rightarrow> int \<Rightarrow> router_id_iterator \<Rightarrow> (int \<times> router_id_iterator) option" where
  "advance cons i iter =
     (if i < int (length cons) then find_next_router_line cons i iter else Some (i, iter))"

lemma advance_measure:
  "advance cons i it = Some (j, jt) \<Longrightarrow> nat (int (length cons) - j) \<le> nat (int (length cons) - i)"
  "advance cons i it = Some (j, jt) \<Longrightarrow> i < int (length cons) \<Longrightarrow>
     nat (int (length cons) - j) < nat (int (length cons) - i)"
  by (auto simp: advance_def dest!: find_next_bounds split: if_splits)

text \<open>The next pair of positions: both advance, then the lower one until the identities agree.\<close>

definition next_chunk ::
    "cdline list \<Rightarrow> cdline list \<Rightarrow> int \<Rightarrow> int \<Rightarrow> router_id_iterator \<Rightarrow> router_id_iterator \<Rightarrow>
     (int \<times> int \<times> router_id_iterator \<times> router_id_iterator) option" where
  "next_chunk cons1 cons2 i1 i2 iter1 iter2 =
     do { (i1, iter1) \<leftarrow> advance cons1 i1 iter1;
          (i2, iter2) \<leftarrow> advance cons2 i2 iter2;
          if i1 < int (length cons1) \<or> i2 < int (length cons2)
          then align_loop cons1 cons2 i1 i2 iter1 iter2 (base64cmp (hash iter1) (hash iter2))
          else Some (i1, i2, iter1, iter2) }"

lemma next_chunk_measure:
  assumes "next_chunk cons1 cons2 i1 i2 it1 it2 = Some (j1, j2, jt1, jt2)"
    and "i1 < int (length cons1) \<or> i2 < int (length cons2)"
  shows "nat (int (length cons1) - j1) + nat (int (length cons2) - j2)
    < nat (int (length cons1) - i1) + nat (int (length cons2) - i2)"
proof -
  from assms(1) obtain k1 kt1 k2 kt2 where
    a: "advance cons1 i1 it1 = Some (k1, kt1)" "advance cons2 i2 it2 = Some (k2, kt2)" and
    b: "(if k1 < int (length cons1) \<or> k2 < int (length cons2)
         then align_loop cons1 cons2 k1 k2 kt1 kt2 (base64cmp (hash kt1) (hash kt2))
         else Some (k1, k2, kt1, kt2)) = Some (j1, j2, jt1, jt2)"
    by (auto simp: next_chunk_def bind_eq_Some_conv)
  have "nat (int (length cons1) - j1) \<le> nat (int (length cons1) - k1)
      \<and> nat (int (length cons2) - j2) \<le> nat (int (length cons2) - k2)"
    using b align_loop_measure [of cons1 cons2 k1 k2 kt1 kt2] by (auto split: if_splits)
  moreover have "nat (int (length cons1) - k1) + nat (int (length cons2) - k2)
      < nat (int (length cons1) - i1) + nat (int (length cons2) - i2)"
    using assms(2) advance_measure [OF a(1)] advance_measure [OF a(2)] by auto
  ultimately show ?thesis by linarith
qed

text \<open>
  The main loop of \<open>gen_ed_diff\<close>: find the next pair of positions, cut the two slices up to
  there, and mark their changes.
\<close>

function chunk_loop ::
    "cdline list \<Rightarrow> cdline list \<Rightarrow> int \<Rightarrow> int \<Rightarrow> int \<Rightarrow> int \<Rightarrow>
     router_id_iterator \<Rightarrow> router_id_iterator \<Rightarrow> bool list \<Rightarrow> bool list \<Rightarrow>
     (bool list \<times> bool list) option" where
  "chunk_loop cons1 cons2 i1 i2 start1 start2 iter1 iter2 changed1 changed2 =
     (if i1 < int (length cons1) \<or> i2 < int (length cons2)
      then do { (i1, i2, iter1, iter2) \<leftarrow> next_chunk cons1 cons2 i1 i2 iter1 iter2;
                if i1 - start1 > MAX_LINE_COUNT \<or> i2 - start2 > MAX_LINE_COUNT then None
                else do { cons1_sl \<leftarrow> smartlist_slice cons1 start1 i1;
                          cons2_sl \<leftarrow> smartlist_slice cons2 start2 i2;
                          (c1, c2) \<leftarrow> calc_changes cons1_sl cons2_sl changed1 changed2;
                          chunk_loop cons1 cons2 i1 i2 i1 i2 iter1 iter2 c1 c2 } }
      else Some (changed1, changed2))"
  by pat_completeness auto
termination
  by (relation "measure (\<lambda>(c1, c2, i1, i2, _). nat (int (length c1) - i1) + nat (int (length c2) - i2))")
     (auto dest: next_chunk_measure)

declare chunk_loop.simps [simp del]

section \<open>Writing the script\<close>

text \<open>Walk down over contiguous changed lines.\<close>

function grab_changed :: "bool list \<Rightarrow> int \<Rightarrow> int" where
  "grab_changed changed i =
     (if i \<ge> 0 \<and> bitarray_is_set changed (nat i) then grab_changed changed (i - 1) else i)"
  by pat_completeness auto
termination
  by (relation "measure (\<lambda>(c, i). nat (i + 1))") auto

declare grab_changed.simps [simp del]

lemma grab_changed_le: "grab_changed changed i \<le> i"
proof (induction changed i rule: grab_changed.induct)
  case (1 changed i)
  then show ?case by (subst grab_changed.simps) auto
qed

lemma grab_changed_less:
  "i \<ge> 0 \<Longrightarrow> bitarray_is_set changed (nat i) \<Longrightarrow> grab_changed changed i < i"
  using grab_changed_le [of changed "i - 1"] by (subst grab_changed.simps) simp

text \<open>The line with the command: delete, append or change.\<close>

definition ed_command :: "nat \<Rightarrow> int \<Rightarrow> int \<Rightarrow> string" where
  "ed_command start1x deleted added =
     (if added = 0
      then if deleted = 1 then show_dec (start1x + 1) @ ''d''
           else show_dec (start1x + 1) @ '','' @ show_dec (start1x + nat deleted) @ ''d''
      else if deleted = 0 then show_dec start1x @ ''a''
           else if deleted = 1 then show_dec (start1x + 1) @ ''c''
           else show_dec (start1x + 1) @ '','' @ show_dec (start1x + nat deleted) @ ''c'')"

text \<open>The added lines; a line that is a single dot cannot be written.\<close>

function add_lines_loop :: "cdline list \<Rightarrow> int \<Rightarrow> int \<Rightarrow> cdline list \<Rightarrow> cdline list option" where
  "add_lines_loop cons2 i end2 result =
     (if i \<le> end2
      then let line = cons2 ! nat i
           in if line_str_eq line ''.'' then None
              else add_lines_loop cons2 (i + 1) end2 (smartlist_add result line)
      else Some result)"
  by pat_completeness auto
termination
  by (relation "measure (\<lambda>(c, i, e, r). nat (e - i + 1))") auto

declare add_lines_loop.simps [simp del]

function write_loop ::
    "cdline list \<Rightarrow> bool list \<Rightarrow> bool list \<Rightarrow> int \<Rightarrow> int \<Rightarrow> cdline list \<Rightarrow> cdline list option" where
  "write_loop cons2 changed1 changed2 i1 i2 result =
     (if i1 \<ge> 0 \<or> i2 \<ge> 0
      then if \<not> (i1 \<ge> 0 \<and> bitarray_is_set changed1 (nat i1))
              \<and> \<not> (i2 \<ge> 0 \<and> bitarray_is_set changed2 (nat i2))
           then write_loop cons2 changed1 changed2
                  (if i1 \<ge> 0 then i1 - 1 else i1) (if i2 \<ge> 0 then i2 - 1 else i2) result
           else let end1 = i1; end2 = i2;
                    i1 = grab_changed changed1 i1;
                    i2 = grab_changed changed2 i2;
                    start1x = i1 + 1; start2x = i2 + 1;
                    added = end2 - i2; deleted = end1 - i1;
                    result = smartlist_add result (ed_command (nat start1x) deleted added)
                in if added = 0
                   then write_loop cons2 changed1 changed2 i1 i2 result
                   else case add_lines_loop cons2 start2x end2 result of
                          None \<Rightarrow> None
                        | Some result \<Rightarrow>
                            write_loop cons2 changed1 changed2 i1 i2 (smartlist_add result ''.'')
      else Some result)"
  by pat_completeness auto
termination
proof (relation "measure (\<lambda>(c, f1, f2, i1, i2, r). nat (i1 + 1) + nat (i2 + 1))", goal_cases)
  case (3 c f1 f2 i1 i2 r)
  then show ?case
    using grab_changed_le [of f1 i1] grab_changed_le [of f2 i2]
      grab_changed_less [of i1 f1] grab_changed_less [of i2 f2] by auto
next
  case (4 c f1 f2 i1 i2 r)
  then show ?case
    using grab_changed_le [of f1 i1] grab_changed_le [of f2 i2]
      grab_changed_less [of i1 f1] grab_changed_less [of i2 f2] by auto
qed auto

declare write_loop.simps [simp del]

definition gen_ed_diff :: "cdline list \<Rightarrow> cdline list \<Rightarrow> cdline list option" where
  "gen_ed_diff cons1_orig cons2 =
     do { (cons1, remove_trailer) \<leftarrow> preprocess_consensus cons1_orig;
          let result = (case remove_trailer of None \<Rightarrow> [] | Some t \<Rightarrow> [t]);
          (changed1, changed2) \<leftarrow> chunk_loop cons1 cons2 (-1) (-1) 0 0
             ROUTER_ID_ITERATOR_INIT ROUTER_ID_ITERATOR_INIT
             (bitarray_init_zero (length cons1)) (bitarray_init_zero (length cons2));
          write_loop cons2 changed1 changed2
             (int (length cons1) - 1) (int (length cons2) - 1) result }"

section \<open>Applying a script\<close>

text \<open>
  \<open>get_linenum\<close>: \<open>strtol\<close> on a string that starts with a digit reads the digits; a value above
  \<open>INT32_MAX\<close> (or one that overflows a long) is an error.
\<close>

definition get_linenum :: "string \<Rightarrow> (int \<times> string) option" where
  "get_linenum s =
     (if s = [] \<or> \<not> TOR_ISDIGIT (hd s) then None
      else let num = int (read_dec (takeWhile TOR_ISDIGIT s))
           in if num > INT_MAX then None
              else Some (num, dropWhile TOR_ISDIGIT s))"

text \<open>
  The checks on one command: the result is the range and the action. \<open>len1\<close> is the length of the
  base consensus and \<open>j\<close> the number of its lines that are still to be handled.
\<close>

definition parse_ed_command :: "int \<Rightarrow> int \<Rightarrow> string \<Rightarrow> (int \<times> int \<times> char) option" where
  "parse_ed_command len1 j diff_line =
     do { (start, ptr) \<leftarrow> get_linenum diff_line;
          (end1, had_range, end_was_eof, ptr) \<leftarrow>
            (if ptr \<noteq> [] \<and> hd ptr = CHR '',''
             then do { let ptr = tl ptr;
                       (end1, end_was_eof, ptr) \<leftarrow>
                         (if ptr \<noteq> [] \<and> hd ptr = CHR ''$'' then Some (len1, True, tl ptr)
                          else map_option (\<lambda>(n, p). (n, False, p)) (get_linenum ptr));
                       if end1 \<le> start then None else Some (end1, True, end_was_eof, ptr) }
             else Some (start, False, False, ptr));
          if end1 > j then None
          else if ptr = [] then None
          else if tl ptr \<noteq> [] then None
          else let action = hd ptr
               in if \<not> (action = CHR ''a'' \<or> action = CHR ''c'' \<or> action = CHR ''d'') then None
                  else if end_was_eof \<and> action \<noteq> CHR ''d'' then None
                  else if had_range \<and> action = CHR ''a'' then None
                  else Some (start, end1, action) }"

function copy_unchanged :: "cdline list \<Rightarrow> int \<Rightarrow> int \<Rightarrow> cdline list \<Rightarrow> int \<times> cdline list" where
  "copy_unchanged cons1 end1 j cons2 =
     (if j \<noteq> 0 \<and> j > end1
      then copy_unchanged cons1 end1 (j - 1) (smartlist_add cons2 (cons1 ! nat (j - 1)))
      else (j, cons2))"
  by pat_completeness auto
termination
  by (relation "measure (\<lambda>(c, e, j, c2). nat (j - e))") auto

declare copy_unchanged.simps [simp del]

text \<open>\<open>while (--j >= start)\<close>\<close>

function skip_removed :: "int \<Rightarrow> int \<Rightarrow> int" where
  "skip_removed start j = (if j - 1 \<ge> start then skip_removed start (j - 1) else j - 1)"
  by pat_completeness auto
termination
  by (relation "measure (\<lambda>(s, j). nat (j - s))") auto

declare skip_removed.simps [simp del]

text \<open>
  The lines between a command and the next dot, and what follows the dot; \<open>None\<close> when the script
  ends before a dot.
\<close>

fun scan_added :: "cdline list \<Rightarrow> cdline list \<Rightarrow> (cdline list \<times> cdline list) option" where
  "scan_added added [] = Some (added, [])"
| "scan_added added (line # diff) =
     (if line_str_eq line ''.'' then Some (added, diff)
      else if diff = [] then None
      else scan_added (added @ [line]) diff)"

lemma scan_added_length: "scan_added a d = Some (a', d') \<Longrightarrow> length d' \<le> length d"
  by (induction a d rule: scan_added.induct) (auto split: if_splits)

text \<open>The main loop; its list argument is the part of the script from line \<open>i\<close> on.\<close>

function apply_loop ::
    "cdline list \<Rightarrow> cdline list \<Rightarrow> int \<Rightarrow> cdline list \<Rightarrow> (int \<times> cdline list) option" where
  "apply_loop cons1 [] j cons2 = Some (j, cons2)"
| "apply_loop cons1 (diff_cdline # diff) j cons2 =
     (if length diff_cdline > 127 then None
      else do {
        (start, end1, action) \<leftarrow> parse_ed_command (int (length cons1)) j (c_string diff_cdline);
        let (j, cons2) = copy_unchanged cons1 end1 j cons2;
        let j = (if action = CHR ''c'' \<or> action = CHR ''d'' then skip_removed start j else j);
        if action = CHR ''a'' \<or> action = CHR ''c''
        then do { (added, diff) \<leftarrow> scan_added [] diff;
                  if added = [] then None
                  else apply_loop cons1 diff j (fold (\<lambda>l c. smartlist_add c l) (rev added) cons2) }
        else apply_loop cons1 diff j cons2 })"
  by pat_completeness auto
termination
  by (relation "measure (\<lambda>(c, d, j, c2). length d)") (auto dest!: scan_added_length)

declare apply_loop.simps(2) [simp del]

definition apply_ed_diff :: "cdline list \<Rightarrow> cdline list \<Rightarrow> nat \<Rightarrow> cdline list option" where
  "apply_ed_diff cons1 diff diff_starting_line =
     do { (j, cons2) \<leftarrow> apply_loop cons1 (drop diff_starting_line diff) (int (length cons1)) [];
          let (j, cons2) = copy_unchanged cons1 0 j cons2;
          Some (smartlist_reverse cons2) }"

end
