(* ===== verification/Lcs.thy ===== *)
theory Lcs
  imports Tor_Prelude
begin

text \<open>
  The length of a longest common subsequence of two lists, as the textbook recursion, with the
  facts that characterise it: no common subsequence is longer, and one of that length exists.
  The equations for reversed, extended and split lists follow from that characterisation.
\<close>

fun lcs_len :: "'a list \<Rightarrow> 'a list \<Rightarrow> nat" where
  "lcs_len [] ys = 0"
| "lcs_len xs [] = 0"
| "lcs_len (x # xs) (y # ys) =
     (if x = y then Suc (lcs_len xs ys) else max (lcs_len (x # xs) ys) (lcs_len xs (y # ys)))"

lemma lcs_len_Nil2 [simp]: "lcs_len xs [] = 0"
  by (cases xs) auto

lemma subseq_Cons_neq: "subseq zs (y # ys) \<Longrightarrow> zs = [] \<or> hd zs \<noteq> y \<Longrightarrow> subseq zs ys"
  by (cases zs) (auto split: if_splits)

lemma subseq_tl: "subseq (z # zs) (y # ys) \<Longrightarrow> subseq zs ys"
  by (metis subseq_Cons2_iff subseq_Cons' )

lemma subseq_rev: "subseq xs ys \<Longrightarrow> subseq (rev xs) (rev ys)"
  by (induction rule: list_emb.induct) (auto intro: list_emb_append_mono subseq_rev_drop_many)

lemma lcs_len_upper: "subseq zs xs \<Longrightarrow> subseq zs ys \<Longrightarrow> length zs \<le> lcs_len xs ys"
proof (induction xs ys arbitrary: zs rule: lcs_len.induct)
  case (3 x xs y ys)
  show ?case
  proof (cases "x = y")
    case True
    show ?thesis
    proof (cases zs)
      case (Cons z zs')
      have "subseq (z # zs') (x # xs)" "subseq (z # zs') (y # ys)"
        using "3.prems" by (simp_all only: Cons)
      then have "subseq zs' xs" "subseq zs' ys" using subseq_tl [of z zs' x xs] subseq_tl [of z zs' y ys] by satx+
      then have "length zs' \<le> lcs_len xs ys" by (rule "3.IH"(1) [OF True])
      with True Cons show ?thesis by simp
    qed simp
  next
    case False
    show ?thesis
    proof (cases "zs = [] \<or> hd zs \<noteq> y")
      case True
      with "3.prems"(2) have "subseq zs ys" by (rule subseq_Cons_neq)
      then have "length zs \<le> lcs_len (x # xs) ys" by (rule "3.IH"(2) [OF False "3.prems"(1)])
      with False show ?thesis by simp
    next
      case eq: False
      with False have "zs = [] \<or> hd zs \<noteq> x" by auto
      with "3.prems"(1) have "subseq zs xs" by (rule subseq_Cons_neq)
      then have "length zs \<le> lcs_len xs (y # ys)" by (rule "3.IH"(3) [OF False _ "3.prems"(2)])
      with False show ?thesis by simp
    qed
  qed
qed auto

lemma lcs_len_attained: "\<exists>zs. subseq zs xs \<and> subseq zs ys \<and> length zs = lcs_len xs ys"
proof (induction xs ys rule: lcs_len.induct)
  case (3 x xs y ys)
  show ?case
  proof (cases "x = y")
    case True
    with 3 obtain zs where "subseq zs xs" "subseq zs ys" "length zs = lcs_len xs ys" by blast
    with True show ?thesis by (intro exI [of _ "x # zs"]) auto
  next
    case False
    from "3.IH"(2) [OF False] obtain zs1 where 1: "subseq zs1 (x # xs)" "subseq zs1 ys"
      "length zs1 = lcs_len (x # xs) ys" by blast
    from "3.IH"(3) [OF False] obtain zs2 where 2: "subseq zs2 xs" "subseq zs2 (y # ys)"
      "length zs2 = lcs_len xs (y # ys)" by blast
    have 3: "subseq zs1 (y # ys)" "subseq zs2 (x # xs)" using 1 2 by (auto intro: subseq_order.order_trans)
    show ?thesis
    proof (cases "lcs_len (x # xs) ys \<ge> lcs_len xs (y # ys)")
      case True
      then have "lcs_len (x # xs) (y # ys) = length zs1" using False 1 by (simp add: max_def)
      then show ?thesis using 1 3 by metis
    next
      case f: False
      then have "lcs_len (x # xs) (y # ys) = length zs2" using False 2 by (simp add: max_def)
      then show ?thesis using 2 3 by metis
    qed
  qed
qed auto

lemma lcs_len_eqI:
  assumes "\<And>zs. subseq zs xs \<Longrightarrow> subseq zs ys \<Longrightarrow> length zs \<le> n"
    and "subseq zs xs" "subseq zs ys" "length zs = n"
  shows "lcs_len xs ys = n"
  using assms lcs_len_upper lcs_len_attained [of xs ys] by (metis order_antisym)

lemma lcs_len_commute: "lcs_len xs ys = lcs_len ys xs"
  using lcs_len_attained [of ys xs] lcs_len_upper by (metis lcs_len_eqI)

lemma lcs_len_rev: "lcs_len (rev xs) (rev ys) = lcs_len xs ys"
proof -
  obtain zs where zs: "subseq zs xs" "subseq zs ys" "length zs = lcs_len xs ys"
    using lcs_len_attained by blast
  show ?thesis
  proof (rule lcs_len_eqI [of _ _ _ "rev zs"])
    fix ws assume "subseq ws (rev xs)" "subseq ws (rev ys)"
    then have "subseq (rev ws) xs" "subseq (rev ws) ys" using subseq_rev by fastforce+
    then show "length ws \<le> lcs_len xs ys" using lcs_len_upper by fastforce
  qed (use zs in \<open>auto intro: subseq_rev\<close>)
qed

lemma lcs_len_snoc:
  "lcs_len (xs @ [x]) (ys @ [y]) =
     (if x = y then Suc (lcs_len xs ys) else max (lcs_len (xs @ [x]) ys) (lcs_len xs (ys @ [y])))"
  using lcs_len_rev [of "xs @ [x]" "ys @ [y]"] lcs_len_rev [of xs ys]
    lcs_len_rev [of "xs @ [x]" ys] lcs_len_rev [of xs "ys @ [y]"]
  by (auto split: if_splits)

lemma lcs_len_prefix: "lcs_len (zs @ xs) (zs @ ys) = length zs + lcs_len xs ys"
  by (induction zs) auto

lemma lcs_len_suffix: "lcs_len (xs @ zs) (ys @ zs) = lcs_len xs ys + length zs"
  using lcs_len_prefix [of "rev zs" "rev xs" "rev ys"] lcs_len_rev [of "xs @ zs" "ys @ zs"]
    lcs_len_rev [of xs ys]
  by simp

lemma lcs_len_single: "lcs_len [x] ys = (if x \<in> set ys then 1 else 0)"
  by (induction ys) auto

text \<open>Splitting: every column gives a lower bound, and some column reaches the length.\<close>

lemma lcs_len_split_ge: "lcs_len as (take i ys) + lcs_len bs (drop i ys) \<le> lcs_len (as @ bs) ys"
proof -
  obtain us where us: "subseq us as" "subseq us (take i ys)" "length us = lcs_len as (take i ys)"
    using lcs_len_attained by blast
  obtain vs where vs: "subseq vs bs" "subseq vs (drop i ys)" "length vs = lcs_len bs (drop i ys)"
    using lcs_len_attained by blast
  have "subseq (us @ vs) (as @ bs)" using us vs by (simp add: list_emb_append_mono)
  moreover have "subseq (us @ vs) (take i ys @ drop i ys)" using us vs by (intro list_emb_append_mono)
  ultimately show ?thesis using lcs_len_upper [of "us @ vs" "as @ bs" ys] us vs by simp
qed

lemma subseq_split: "subseq (us @ vs) ys \<Longrightarrow> \<exists>i \<le> length ys. subseq us (take i ys) \<and> subseq vs (drop i ys)"
proof -
  assume "subseq (us @ vs) ys"
  then obtain as bs where "ys = as @ bs" "subseq us as" "subseq vs bs"
    using list_emb_appendD by blast
  then show ?thesis by (intro exI [of _ "length as"]) auto
qed

lemma lcs_len_split_le:
  "\<exists>i \<le> length ys. lcs_len (as @ bs) ys \<le> lcs_len as (take i ys) + lcs_len bs (drop i ys)"
proof -
  obtain zs where zs: "subseq zs (as @ bs)" "subseq zs ys" "length zs = lcs_len (as @ bs) ys"
    using lcs_len_attained by blast
  from zs(1) obtain us vs where uv: "zs = us @ vs" "subseq us as" "subseq vs bs"
    by (auto elim: subseq_appendE)
  with zs(2) obtain i where "i \<le> length ys" "subseq us (take i ys)" "subseq vs (drop i ys)"
    using subseq_split by blast
  with uv zs lcs_len_upper [of us as "take i ys"] lcs_len_upper [of vs bs "drop i ys"]
  show ?thesis by (intro exI [of _ i]) auto
qed

section \<open>The lines that a change mask keeps\<close>

definition kept :: "'a list \<Rightarrow> bool list \<Rightarrow> 'a list" where
  "kept ls fs = map fst (filter (\<lambda>p. \<not> snd p) (zip ls fs))"

lemma kept_Nil [simp]: "kept [] fs = []"
  by (simp add: kept_def)

lemma kept_append [simp]:
  "length ls = length fs \<Longrightarrow> kept (ls @ ls') (fs @ fs') = kept ls fs @ kept ls' fs'"
  by (simp add: kept_def)

lemma kept_Cons [simp]: "kept (l # ls) (f # fs) = (if f then kept ls fs else l # kept ls fs)"
  by (simp add: kept_def)

lemma kept_none [simp]: "kept ls (replicate (length ls) False) = ls"
  by (induction ls) auto

lemma kept_none_n: "n = length ls \<Longrightarrow> kept ls (replicate n False) = ls"
  by simp

lemma kept_all: "kept ls (replicate n True) = []"
  by (auto simp: kept_def set_zip filter_empty_conv)

lemma subseq_kept: "subseq (kept ls fs) ls"
proof (induction ls arbitrary: fs)
  case (Cons l ls)
  then show ?case by (cases fs) (auto simp: kept_def)
qed simp

end
