(* ===== verification/Consdiff_Changes_Correct.thy ===== *)
theory Consdiff_Changes_Correct
  imports Consdiff_Changes Lcs
begin

text \<open>
  Correctness of \<open>calc_changes\<close>: the lines it leaves unmarked are the same sequence in both
  slices, that sequence is as long as any common subsequence, marks outside the slices are left
  alone, and no assertion on the way fails.
\<close>

definition slice_wf :: "slice \<Rightarrow> bool" where
  "slice_wf s \<longleftrightarrow> s_offset s + s_len s \<le> length (s_list s)"

definition slice_lines :: "slice \<Rightarrow> cdline list" where
  "slice_lines s = take (s_len s) (drop (s_offset s) (s_list s))"

definition dir_lines :: "slice \<Rightarrow> int \<Rightarrow> cdline list" where
  "dir_lines s direction = (if direction = -1 then rev (slice_lines s) else slice_lines s)"

lemma length_slice_lines [simp]: "slice_wf s \<Longrightarrow> length (slice_lines s) = s_len s"
  by (simp add: slice_wf_def slice_lines_def)

lemma length_dir_lines [simp]: "slice_wf s \<Longrightarrow> length (dir_lines s d) = s_len s"
  by (simp add: dir_lines_def)

lemma slice_lines_nth: "slice_wf s \<Longrightarrow> k < s_len s \<Longrightarrow> slice_lines s ! k = s_list s ! (s_offset s + k)"
  by (simp add: slice_wf_def slice_lines_def)

lemma dir_lines_nth:
  assumes "slice_wf s" "j < s_len s" "direction = 1 \<or> direction = -1"
    and "sj = (if direction = -1 then int (s_offset s) + (int (s_len s) - 1) else int (s_offset s))
              + int j * direction"
  shows "s_list s ! nat sj = dir_lines s direction ! j"
proof (cases "direction = -1")
  case True
  with assms have "nat sj = s_offset s + (s_len s - Suc j)" by simp
  with True assms show ?thesis by (simp add: dir_lines_def rev_nth slice_lines_nth)
next
  case False
  with assms have "nat sj = s_offset s + j" by simp
  with False assms show ?thesis by (simp add: dir_lines_def slice_lines_nth)
qed

section \<open>The table rows\<close>

lemma lcs_row_correct:
  assumes wf: "slice_wf sl2" and dir: "direction = 1 \<or> direction = -1"
    and prev: "\<forall>k \<le> s_len sl2. prev ! k = int (lcs_len xs (take k (dir_lines sl2 direction)))"
  shows "j \<le> s_len sl2 \<Longrightarrow>
     sj = (if direction = -1 then int (s_offset sl2) + (int (s_len sl2) - 1)
           else int (s_offset sl2)) + int j * direction \<Longrightarrow>
     length result = s_len sl2 + 1 \<Longrightarrow>
     (\<forall>k \<le> j. result ! k = int (lcs_len (xs @ [x]) (take k (dir_lines sl2 direction)))) \<Longrightarrow>
     length (lcs_row x sl2 direction prev j sj result) = s_len sl2 + 1
   \<and> (\<forall>k \<le> s_len sl2. lcs_row x sl2 direction prev j sj result ! k
        = int (lcs_len (xs @ [x]) (take k (dir_lines sl2 direction))))"
proof (induction "s_len sl2 - j" arbitrary: j sj result)
  case 0
  then show ?case by (simp add: lcs_row.simps [of x sl2])
next
  case (Suc n)
  let ?L = "dir_lines sl2 direction"
  let ?r = "if lines_eq x (s_list sl2 ! nat sj) then result[j + 1 := prev ! j + 1]
            else result[j + 1 := max (result ! j) (prev ! (j + 1))]"
  from Suc.hyps have j: "j < s_len sl2" by simp
  have line: "s_list sl2 ! nat sj = ?L ! j"
    by (rule dir_lines_nth [OF wf j dir Suc.prems(2)])
  have take: "take (j + 1) ?L = take j ?L @ [?L ! j]"
    using j wf by (simp add: take_Suc_nth)
  have at: "?r ! (j + 1) = int (lcs_len (xs @ [x]) (take (j + 1) ?L))"
    using Suc.prems(3,4) prev j line take
    by (simp add: lcs_len_snoc del: take_Suc) (simp add: take [symmetric] of_nat_max)
  have "\<forall>k \<le> j + 1. ?r ! k = int (lcs_len (xs @ [x]) (take k ?L))"
    using at Suc.prems(4) by (auto simp: le_Suc_eq)
  moreover have "length ?r = s_len sl2 + 1" using Suc.prems(3) by simp
  moreover have "sj + direction = (if direction = -1 then int (s_offset sl2) + (int (s_len sl2) - 1)
           else int (s_offset sl2)) + int (j + 1) * direction"
    using Suc.prems(2) by (simp add: algebra_simps)
  ultimately have "length (lcs_row x sl2 direction prev (j + 1) (sj + direction) ?r) = s_len sl2 + 1
   \<and> (\<forall>k \<le> s_len sl2. lcs_row x sl2 direction prev (j + 1) (sj + direction) ?r ! k
        = int (lcs_len (xs @ [x]) (take k ?L)))"
    using Suc.hyps(1) [of "j + 1" "sj + direction" ?r] Suc.hyps(2) j by simp
  then show ?case using j by (subst (1 2) lcs_row.simps) (simp add: Let_def)
qed

lemma lcs_rows_correct:
  assumes wf: "slice_wf sl1" "slice_wf sl2" and dir: "direction = 1 \<or> direction = -1"
  shows "i \<le> s_len sl1 \<Longrightarrow>
     si = (if direction = -1 then int (s_offset sl1) + (int (s_len sl1) - 1)
           else int (s_offset sl1)) + int i * direction \<Longrightarrow>
     length result = s_len sl2 + 1 \<Longrightarrow>
     (\<forall>k \<le> s_len sl2. result ! k =
        int (lcs_len (take i (dir_lines sl1 direction)) (take k (dir_lines sl2 direction)))) \<Longrightarrow>
     length (lcs_rows sl1 sl2 direction i si result) = s_len sl2 + 1
   \<and> (\<forall>k \<le> s_len sl2. lcs_rows sl1 sl2 direction i si result ! k
        = int (lcs_len (dir_lines sl1 direction) (take k (dir_lines sl2 direction))))"
proof (induction "s_len sl1 - i" arbitrary: i si result)
  case 0
  with wf show ?case by (simp add: lcs_rows.simps [of sl1])
next
  case (Suc n)
  let ?L1 = "dir_lines sl1 direction" and ?L2 = "dir_lines sl2 direction"
  let ?sj = "if direction = -1 then int (s_offset sl2) + (int (s_len sl2) - 1) else int (s_offset sl2)"
  let ?r = "lcs_row (s_list sl1 ! nat si) sl2 direction result 0 ?sj result"
  from Suc.hyps have i: "i < s_len sl1" by simp
  have line: "s_list sl1 ! nat si = ?L1 ! i"
    by (rule dir_lines_nth [OF wf(1) i dir Suc.prems(2)])
  have take: "take (i + 1) ?L1 = take i ?L1 @ [?L1 ! i]"
    using i wf by (simp add: take_Suc_nth)
  have "\<forall>k \<le> 0. result ! k = int (lcs_len (take i ?L1 @ [?L1 ! i]) (take k ?L2))"
    using Suc.prems(4) by simp
  then have row: "length ?r = s_len sl2 + 1 \<and>
      (\<forall>k \<le> s_len sl2. ?r ! k = int (lcs_len (take (i + 1) ?L1) (take k ?L2)))"
    unfolding take line
    using lcs_row_correct [OF wf(2) dir Suc.prems(4), of 0 ?sj result "?L1 ! i"] Suc.prems(3) by simp
  have "si + direction = (if direction = -1 then int (s_offset sl1) + (int (s_len sl1) - 1)
           else int (s_offset sl1)) + int (i + 1) * direction"
    using Suc.prems(2) by (simp add: algebra_simps)
  with row have "length (lcs_rows sl1 sl2 direction (i + 1) (si + direction) ?r) = s_len sl2 + 1
   \<and> (\<forall>k \<le> s_len sl2. lcs_rows sl1 sl2 direction (i + 1) (si + direction) ?r ! k
        = int (lcs_len ?L1 (take k ?L2)))"
    using Suc.hyps(1) [of "i + 1" "si + direction" ?r] Suc.hyps(2) i by simp
  then show ?case using i by (subst (1 2) lcs_rows.simps) (simp add: Let_def)
qed

lemma lcs_lengths_correct:
  assumes "slice_wf sl1" "slice_wf sl2" "direction = 1 \<or> direction = -1"
  shows "\<exists>r. lcs_lengths sl1 sl2 direction = Some r \<and> length r = s_len sl2 + 1
    \<and> (\<forall>k \<le> s_len sl2. r ! k
         = int (lcs_len (dir_lines sl1 direction) (take k (dir_lines sl2 direction))))"
  using assms lcs_rows_correct [OF assms, of 0
      "if direction = -1 then int (s_offset sl1) + (int (s_len sl1) - 1) else int (s_offset sl1)"
      "replicate (s_len sl2 + 1) 0"]
  by (auto simp: lcs_lengths_def Let_def nth_Cons' simp del: replicate_Suc split: if_splits)

section \<open>The column\<close>

lemma column_loop_best:
  assumes "column_loop t b n is (c0, m0) = (c, m)"
  shows "m0 \<le> m \<and> (\<forall>i \<in> set is. t ! i + b ! (n - i) \<le> m)
    \<and> ((c, m) = (c0, m0) \<or> c \<in> set is \<and> m = t ! c + b ! (n - c))"
  using assms
proof (induction "is" arbitrary: c0 m0)
  case (Cons i "is")
  then show ?case by (fastforce simp: Let_def split: if_splits)
qed simp

lemma optimal_column_correct:
  assumes wf: "slice_wf tp" "slice_wf btm" "slice_wf sl2"
  shows "\<exists>c. optimal_column_to_split tp btm sl2 = Some c \<and> c \<le> s_len sl2
    \<and> lcs_len (slice_lines tp) (take c (slice_lines sl2))
      + lcs_len (slice_lines btm) (drop c (slice_lines sl2))
      = lcs_len (slice_lines tp @ slice_lines btm) (slice_lines sl2)"
proof -
  let ?T = "slice_lines tp" and ?B = "slice_lines btm" and ?L = "slice_lines sl2"
  let ?n = "s_len sl2"
  obtain t where t: "lcs_lengths tp sl2 1 = Some t"
    "\<And>k. k \<le> ?n \<Longrightarrow> t ! k = int (lcs_len ?T (take k ?L))"
    using lcs_lengths_correct [OF wf(1,3), of 1] by (auto simp: dir_lines_def)
  obtain b where b: "lcs_lengths btm sl2 (-1) = Some b"
    "\<And>k. k \<le> ?n \<Longrightarrow> b ! k = int (lcs_len (rev ?B) (take k (rev ?L)))"
    using lcs_lengths_correct [OF wf(2,3), of "-1"] by (auto simp: dir_lines_def)
  have b': "b ! (?n - i) = int (lcs_len ?B (drop i ?L))" if "i \<le> ?n" for i
    using b(2) [of "?n - i"] that wf(3) lcs_len_rev [of ?B "drop i ?L"] by (simp add: rev_drop)
  obtain c m where cm: "column_loop t b ?n [0..<?n + 1] (0, -1) = (c, m)" by fastforce
  note best = column_loop_best [OF cm]
  have m: "\<And>i. i \<le> ?n \<Longrightarrow> int (lcs_len ?T (take i ?L) + lcs_len ?B (drop i ?L)) \<le> m"
    using best t(2) b' by fastforce
  from m [of 0] have "m \<ge> 0" by simp
  with best have c: "c \<le> ?n" "m = t ! c + b ! (?n - c)" by auto
  obtain i where "i \<le> length ?L" "lcs_len (?T @ ?B) ?L \<le> lcs_len ?T (take i ?L) + lcs_len ?B (drop i ?L)"
    using lcs_len_split_le by blast
  with m [of i] c t(2) [of c] b' [of c] wf(3) lcs_len_split_ge [of ?T c ?L ?B]
  have "lcs_len ?T (take c ?L) + lcs_len ?B (drop c ?L) = lcs_len (?T @ ?B) ?L" by simp
  with c(1) t(1) b(1) cm show ?thesis
    by (simp add: optimal_column_to_split_def del: upt_Suc)
qed

section \<open>Trimming\<close>

text \<open>\<open>t1\<close>, \<open>t2\<close> are what is left of \<open>s1\<close>, \<open>s2\<close> without a common start and a common end.\<close>

definition trimmed :: "slice \<Rightarrow> slice \<Rightarrow> slice \<Rightarrow> slice \<Rightarrow> cdline list \<Rightarrow> cdline list \<Rightarrow> bool" where
  "trimmed s1 s2 t1 t2 pre suf \<longleftrightarrow>
     slice_lines s1 = pre @ slice_lines t1 @ suf \<and> slice_lines s2 = pre @ slice_lines t2 @ suf
   \<and> s_list t1 = s_list s1 \<and> s_list t2 = s_list s2
   \<and> s_offset t1 = s_offset s1 + length pre \<and> s_offset t2 = s_offset s2 + length pre
   \<and> s_len s1 = length pre + s_len t1 + length suf \<and> s_len s2 = length pre + s_len t2 + length suf
   \<and> slice_wf t1 \<and> slice_wf t2"

lemma slice_lines_Cons:
  "slice_wf s \<Longrightarrow> 0 < s_len s \<Longrightarrow> slice_lines s =
     s_list s ! s_offset s # slice_lines (s\<lparr>s_offset := s_offset s + 1, s_len := s_len s - 1\<rparr>)"
  unfolding slice_wf_def slice_lines_def
  by (cases "s_len s") (simp_all add: Cons_nth_drop_Suc [symmetric])

lemma slice_lines_snoc:
  assumes "slice_wf s" "0 < s_len s"
  shows "slice_lines s =
     slice_lines (s\<lparr>s_len := s_len s - 1\<rparr>) @ [s_list s ! (s_offset s + s_len s - 1)]"
proof (cases "s_len s")
  case (Suc n)
  with assms show ?thesis
    by (simp add: slice_wf_def slice_lines_def take_Suc_nth)
qed (use assms in simp)

lemma trim_head_correct:
  "trim_head s1 s2 = (t1, t2) \<Longrightarrow> slice_wf s1 \<Longrightarrow> slice_wf s2 \<Longrightarrow> \<exists>pre. trimmed s1 s2 t1 t2 pre []"
proof (induction s1 s2 rule: trim_head.induct)
  case (1 s1 s2)
  let ?l1 = "s_list s1 ! s_offset s1" and ?l2 = "s_list s2 ! s_offset s2"
  let ?n1 = "s1\<lparr>s_offset := s_offset s1 + 1, s_len := s_len s1 - 1\<rparr>"
  let ?n2 = "s2\<lparr>s_offset := s_offset s2 + 1, s_len := s_len s2 - 1\<rparr>"
  show ?case
  proof (cases "s_len s1 > 0 \<and> s_len s2 > 0 \<and> ?l1 = ?l2")
    case True
    with "1.prems"(1) have "trim_head ?n1 ?n2 = (t1, t2)"
      by (simp add: trim_head.simps [of s1 s2] Let_def)
    moreover have "slice_wf ?n1" "slice_wf ?n2" using "1.prems" True by (auto simp: slice_wf_def)
    ultimately obtain pre where "trimmed ?n1 ?n2 t1 t2 pre []"
      using "1.IH" [OF _ refl refl] True by auto
    with True slice_lines_Cons [OF "1.prems"(2)] slice_lines_Cons [OF "1.prems"(3)]
    have "trimmed s1 s2 t1 t2 (?l1 # pre) []" by (auto simp: trimmed_def)
    then show ?thesis ..
  next
    case False
    with "1.prems" have "t1 = s1" "t2 = s2"
      by (auto simp: trim_head.simps [of s1 s2] Let_def split: if_splits)
    with "1.prems" have "trimmed s1 s2 t1 t2 [] []" by (simp add: trimmed_def)
    then show ?thesis ..
  qed
qed

lemma trim_tail_correct:
  "trim_tail s1 s2 i1 i2 = (t1, t2) \<Longrightarrow> slice_wf s1 \<Longrightarrow> slice_wf s2 \<Longrightarrow>
   i1 = int (s_offset s1) + int (s_len s1) - 1 \<Longrightarrow> i2 = int (s_offset s2) + int (s_len s2) - 1 \<Longrightarrow>
     \<exists>suf. trimmed s1 s2 t1 t2 [] suf"
proof (induction s1 s2 i1 i2 rule: trim_tail.induct)
  case (1 s1 s2 i1 i2)
  let ?l1 = "s_list s1 ! nat i1" and ?l2 = "s_list s2 ! nat i2"
  let ?n1 = "s1\<lparr>s_len := s_len s1 - 1\<rparr>" and ?n2 = "s2\<lparr>s_len := s_len s2 - 1\<rparr>"
  show ?case
  proof (cases "s_len s1 > 0 \<and> s_len s2 > 0 \<and> ?l1 = ?l2")
    case True
    with "1.prems"(1) have "trim_tail ?n1 ?n2 (i1 - 1) (i2 - 1) = (t1, t2)"
      by (simp add: trim_tail.simps [of s1 s2] Let_def)
    moreover have "slice_wf ?n1" "slice_wf ?n2" using "1.prems" True by (auto simp: slice_wf_def)
    ultimately obtain suf where suf: "trimmed ?n1 ?n2 t1 t2 [] suf"
      using "1.IH" [OF _ refl refl] True "1.prems" by auto
    have "nat i1 = s_offset s1 + s_len s1 - 1" "nat i2 = s_offset s2 + s_len s2 - 1"
      using "1.prems" True by auto
    with suf True slice_lines_snoc [OF "1.prems"(2)] slice_lines_snoc [OF "1.prems"(3)]
    have "trimmed s1 s2 t1 t2 [] (suf @ [?l1])" by (auto simp: trimmed_def)
    then show ?thesis ..
  next
    case False
    with "1.prems" have "t1 = s1" "t2 = s2"
      by (auto simp: trim_tail.simps [of s1 s2] Let_def split: if_splits)
    with "1.prems" have "trimmed s1 s2 t1 t2 [] []" by (simp add: trimmed_def)
    then show ?thesis ..
  qed
qed

lemma trim_slices_correct:
  assumes "trim_slices s1 s2 = (t1, t2)" "slice_wf s1" "slice_wf s2"
  shows "\<exists>pre suf. trimmed s1 s2 t1 t2 pre suf"
proof -
  obtain u1 u2 where u: "trim_head s1 s2 = (u1, u2)" by fastforce
  then obtain pre where pre: "trimmed s1 s2 u1 u2 pre []"
    using trim_head_correct assms by blast
  have "trim_tail u1 u2 (int (s_offset u1) + int (s_len u1) - 1)
      (int (s_offset u2) + int (s_len u2) - 1) = (t1, t2)"
    using assms(1) u by (simp add: trim_slices_def)
  then obtain suf where "trimmed u1 u2 t1 t2 [] suf"
    using trim_tail_correct pre by (metis trimmed_def)
  with pre have "trimmed s1 s2 t1 t2 pre suf" by (auto simp: trimmed_def)
  then show ?thesis by blast
qed

section \<open>Marking\<close>

lemma slice_string_pos_correct:
  assumes wf: "slice_wf s"
  shows "smartlist_slice_string_pos s str = -1 \<and> str \<notin> set (slice_lines s)
   \<or> (\<exists>k < s_len s. smartlist_slice_string_pos s str = int (s_offset s + k) \<and> slice_lines s ! k = str)"
proof -
  have "s_offset s \<le> i \<Longrightarrow> i \<le> s_offset s + s_len s \<Longrightarrow> \<forall>k < i - s_offset s. slice_lines s ! k \<noteq> str \<Longrightarrow>
     slice_string_pos_loop s str i = -1 \<and> str \<notin> set (slice_lines s)
   \<or> (\<exists>k < s_len s. slice_string_pos_loop s str i = int (s_offset s + k) \<and> slice_lines s ! k = str)" for i
  proof (induction "s_offset s + s_len s - i" arbitrary: i)
    case 0
    with wf show ?case by (auto simp: slice_string_pos_loop.simps [of s] in_set_conv_nth)
  next
    case (Suc n)
    let ?k = "i - s_offset s"
    from Suc have i: "i < s_offset s + s_len s" by simp
    from Suc have k: "?k < s_len s" "s_list s ! i = slice_lines s ! ?k"
      using wf by (auto simp: slice_lines_nth)
    show ?case
    proof (cases "slice_lines s ! ?k = str")
      case True
      with k Suc.hyps(2) Suc.prems(1) show ?thesis
        by (intro disjI2 exI [of _ ?k]) (simp add: slice_string_pos_loop.simps [of s str i])
    next
      case False
      with Suc.prems have "\<forall>k < i + 1 - s_offset s. slice_lines s ! k \<noteq> str"
        by (auto simp: Suc_diff_le less_Suc_eq)
      with Suc.hyps(1) [of "i + 1"] Suc.hyps(2) Suc.prems
      have "slice_string_pos_loop s str (i + 1) = -1 \<and> str \<notin> set (slice_lines s)
   \<or> (\<exists>k < s_len s. slice_string_pos_loop s str (i + 1) = int (s_offset s + k) \<and> slice_lines s ! k = str)"
        by simp
      moreover have "slice_string_pos_loop s str i = slice_string_pos_loop s str (i + 1)"
        using i False k by (subst slice_string_pos_loop.simps) simp
      ultimately show ?thesis by simp
    qed
  qed
  from this [of "s_offset s"] show ?thesis by (simp add: smartlist_slice_string_pos_def)
qed

lemma set_changed_loop_nth:
  "e \<le> length ch \<Longrightarrow> length (set_changed_loop e t i ch) = length ch
   \<and> (\<forall>k < length ch. set_changed_loop e t i ch ! k = (if i \<le> k \<and> k < e \<and> int k \<noteq> t then True else ch ! k))"
proof (induction e t i ch rule: set_changed_loop.induct)
  case (1 e t i ch)
  show ?case
  proof (cases "i < e")
    case True
    with 1 show ?thesis
      by (auto simp: set_changed_loop.simps [of e t i ch] bitarray_set_def nth_list_update)
  next
    case False
    then show ?thesis by (auto simp: set_changed_loop.simps [of e t i ch])
  qed
qed

lemma set_changed_loop_flags:
  assumes "ch = p @ replicate n False @ q" "i = length p"
  shows "set_changed_loop (i + n) t i ch = p @ map (\<lambda>k. int (i + k) \<noteq> t) [0..<n] @ q"
proof (rule nth_equalityI)
  have e: "i + n \<le> length ch" using assms by simp
  note loop = set_changed_loop_nth [OF e, of t i]
  then show "length (set_changed_loop (i + n) t i ch) = length (p @ map (\<lambda>k. int (i + k) \<noteq> t) [0..<n] @ q)"
    using assms by simp
  fix k assume "k < length (set_changed_loop (i + n) t i ch)"
  with loop have "k < length ch" by simp
  with loop assms show "set_changed_loop (i + n) t i ch ! k = (p @ map (\<lambda>k. int (i + k) \<noteq> t) [0..<n] @ q) ! k"
    by (auto simp: nth_append)
qed

lemma kept_all_but_one:
  assumes "k0 < length ls"
  shows "kept ls (map (\<lambda>k. k \<noteq> k0) [0..<length ls]) = [ls ! k0]"
proof -
  have flags: "map (\<lambda>k. k \<noteq> k0) [0..<length ls]
      = replicate k0 True @ False # replicate (length ls - Suc k0) True"
    using assms by (intro nth_equalityI) (auto simp: nth_append nth_Cons')
  have "kept (take k0 ls @ ls ! k0 # drop (Suc k0) ls) (replicate k0 True @ False # replicate (length ls - Suc k0) True)
      = [ls ! k0]"
    using assms by (subst kept_append) (simp_all add: kept_all)
  with flags assms show ?thesis by (simp add: id_take_nth_drop [symmetric])
qed

text \<open>What a marking of two slices has to achieve.\<close>

definition marks ::
    "cdline list \<Rightarrow> cdline list \<Rightarrow> bool list \<Rightarrow> bool list \<Rightarrow> bool" where
  "marks l1 l2 f1 f2 \<longleftrightarrow> length f1 = length l1 \<and> length f2 = length l2
     \<and> kept l1 f1 = kept l2 f2 \<and> length (kept l1 f1) = lcs_len l1 l2"

lemma marks_commute: "marks l1 l2 f1 f2 \<longleftrightarrow> marks l2 l1 f2 f1"
  by (auto simp: marks_def lcs_len_commute)

lemma marks_one:
  "x \<notin> set l \<Longrightarrow> n = length l \<Longrightarrow> marks [x] l [True] (replicate n True)"
  "k < length l \<Longrightarrow> l ! k = x \<Longrightarrow> n = length l \<Longrightarrow> marks [x] l [False] (map (\<lambda>j. j \<noteq> k) [0..<n])"
  by (auto simp: marks_def kept_all kept_all_but_one lcs_len_single)

lemma set_changed_correct:
  assumes wf: "slice_wf s1" "slice_wf s2" and len: "s_len s1 \<le> 1"
    and c1: "ch1 = p1 @ replicate (s_len s1) False @ q1" "length p1 = s_offset s1"
    and c2: "ch2 = p2 @ replicate (s_len s2) False @ q2" "length p2 = s_offset s2"
  shows "\<exists>f1 f2. set_changed ch1 ch2 s1 s2 = Some (p1 @ f1 @ q1, p2 @ f2 @ q2)
    \<and> marks (slice_lines s1) (slice_lines s2) f1 f2"
proof (cases "s_len s1 = 0")
  case True
  have "map (\<lambda>k. int (s_offset s2 + k) \<noteq> -1) [0..<s_len s2] = replicate (s_len s2) True"
    by (rule nth_equalityI) auto
  with set_changed_loop_flags [OF c2(1) c2(2) [symmetric], of "-1"] True c1
  have "set_changed ch1 ch2 s1 s2 = Some (p1 @ [] @ q1, p2 @ replicate (s_len s2) True @ q2)"
    by (simp add: set_changed_def)
  moreover have "slice_lines s1 = []" using True by (simp add: slice_lines_def)
  then have "marks (slice_lines s1) (slice_lines s2) [] (replicate (s_len s2) True)"
    using wf by (simp add: marks_def kept_all)
  ultimately show ?thesis by (intro exI conjI)
next
  case False
  with len have one: "s_len s1 = 1" by simp
  let ?x = "s_list s1 ! s_offset s1"
  have l1: "slice_lines s1 = [?x]"
    using slice_lines_Cons [OF wf(1)] one by (simp add: slice_lines_def)
  let ?t = "smartlist_slice_string_pos s2 ?x"
  let ?f2 = "map (\<lambda>k. int (s_offset s2 + k) \<noteq> ?t) [0..<s_len s2]"
  have loop: "set_changed_loop (s_offset s2 + s_len s2) ?t (s_offset s2) ch2 = p2 @ ?f2 @ q2"
    by (rule set_changed_loop_flags [OF c2(1) c2(2) [symmetric]])
  from slice_string_pos_correct [OF wf(2), of ?x] show ?thesis
  proof (elim disjE exE conjE)
    assume t: "?t = -1" "?x \<notin> set (slice_lines s2)"
    have "?f2 = replicate (s_len s2) True"
      unfolding t(1) by (rule nth_equalityI) simp_all
    then have "marks (slice_lines s1) (slice_lines s2) [True] ?f2"
      unfolding l1 by (simp only:) (rule marks_one(1) [OF t(2) length_slice_lines [OF wf(2), symmetric]])
    moreover have "set_changed ch1 ch2 s1 s2 = Some (p1 @ [True] @ q1, p2 @ ?f2 @ q2)"
    proof -
      have "ch1[length p1 := True] = p1 @ [True] @ q1" using c1(1) one by simp
      then have "bitarray_set ch1 (s_offset s1) = p1 @ [True] @ q1"
        by (simp only: bitarray_set_def c1(2))
      with one t(1) loop show ?thesis by (simp add: set_changed_def)
    qed
    ultimately show ?thesis by (intro exI conjI)
  next
    fix k assume k: "k < s_len s2" "?t = int (s_offset s2 + k)" "slice_lines s2 ! k = ?x"
    have "?f2 = map (\<lambda>j. j \<noteq> k) [0..<s_len s2]"
      unfolding k(2) by simp
    then have "marks (slice_lines s1) (slice_lines s2) [False] ?f2"
      unfolding l1 using k(1) length_slice_lines [OF wf(2)]
      by (simp only:) (rule marks_one(2) [OF _ k(3)], simp_all only:)
    moreover have "set_changed ch1 ch2 s1 s2 = Some (p1 @ [False] @ q1, p2 @ ?f2 @ q2)"
    proof -
      have "ch1 = p1 @ [False] @ q1" using c1(1) one by simp
      with one k(2) loop show ?thesis by (simp add: set_changed_def)
    qed
    ultimately show ?thesis by (intro exI conjI)
  qed
qed

section \<open>The recursion\<close>

lemma marks_trim:
  "marks l1 l2 g1 g2 \<Longrightarrow> a = length pre \<Longrightarrow> b = length suf \<Longrightarrow>
     marks (pre @ l1 @ suf) (pre @ l2 @ suf)
       (replicate a False @ g1 @ replicate b False) (replicate a False @ g2 @ replicate b False)"
  by (auto simp: marks_def lcs_len_prefix lcs_len_suffix)

lemma marks_append:
  "marks a b f g \<Longrightarrow> marks a' b' f' g' \<Longrightarrow> lcs_len a b + lcs_len a' b' = lcs_len (a @ a') (b @ b') \<Longrightarrow>
     marks (a @ a') (b @ b') (f @ f') (g @ g')"
  by (auto simp: marks_def)

lemma smartlist_slice_sub:
  assumes "slice_wf t" "m \<le> n" "n \<le> s_len t"
  shows "smartlist_slice (s_list t) (int (s_offset t) + int m) (int (s_offset t) + int n)
    = Some \<lparr>s_list = s_list t, s_offset = s_offset t + m, s_len = n - m\<rparr>"
  using assms by (auto simp: smartlist_slice_def slice_wf_def nat_add_distrib)

lemma slice_lines_sub:
  assumes "n \<le> s_len t"
  shows "slice_lines \<lparr>s_list = s_list t, s_offset = s_offset t + m, s_len = n - m\<rparr>
    = take (n - m) (drop m (slice_lines t))"
  using assms by (simp add: slice_lines_def drop_take add.commute min_def)

lemma slice_wf_sub:
  "slice_wf t \<Longrightarrow> m \<le> n \<Longrightarrow> n \<le> s_len t \<Longrightarrow>
     slice_wf \<lparr>s_list = s_list t, s_offset = s_offset t + m, s_len = n - m\<rparr>"
  by (simp add: slice_wf_def)

lemma calc_changes_correct:
  "slice_wf s1 \<Longrightarrow> slice_wf s2 \<Longrightarrow>
   ch1 = p1 @ replicate (s_len s1) False @ q1 \<Longrightarrow> length p1 = s_offset s1 \<Longrightarrow>
   ch2 = p2 @ replicate (s_len s2) False @ q2 \<Longrightarrow> length p2 = s_offset s2 \<Longrightarrow>
     \<exists>f1 f2. calc_changes s1 s2 ch1 ch2 = Some (p1 @ f1 @ q1, p2 @ f2 @ q2)
       \<and> marks (slice_lines s1) (slice_lines s2) f1 f2"
proof (induction "s_len s1" arbitrary: s1 s2 ch1 ch2 p1 q1 p2 q2 rule: less_induct)
  case less
  obtain t1 t2 where t: "trim_slices s1 s2 = (t1, t2)" by fastforce
  obtain pre suf where trim: "trimmed s1 s2 t1 t2 pre suf"
    using trim_slices_correct [OF t less.prems(1,2)] by blast
  let ?a = "length pre" and ?b = "length suf"
  let ?p1 = "p1 @ replicate ?a False" and ?q1 = "replicate ?b False @ q1"
  let ?p2 = "p2 @ replicate ?a False" and ?q2 = "replicate ?b False @ q2"
  have wf: "slice_wf t1" "slice_wf t2" using trim by (simp_all add: trimmed_def)
  have ch1: "ch1 = ?p1 @ replicate (s_len t1) False @ ?q1" "length ?p1 = s_offset t1"
    and ch2: "ch2 = ?p2 @ replicate (s_len t2) False @ ?q2" "length ?p2 = s_offset t2"
    using less.prems trim by (simp_all add: trimmed_def replicate_add)
  have "\<exists>g1 g2. calc_changes s1 s2 ch1 ch2 = Some (?p1 @ g1 @ ?q1, ?p2 @ g2 @ ?q2)
       \<and> marks (slice_lines t1) (slice_lines t2) g1 g2"
  proof (cases "s_len t1 \<le> 1 \<or> s_len t2 \<le> 1")
    case True
    show ?thesis
    proof (cases "s_len t1 \<le> 1")
      case True
      with t have "calc_changes s1 s2 ch1 ch2 = set_changed ch1 ch2 t1 t2"
        by (simp add: calc_changes.simps [of s1])
      with set_changed_correct [OF wf True ch1 ch2] show ?thesis by simp
    next
      case False
      with \<open>s_len t1 \<le> 1 \<or> s_len t2 \<le> 1\<close> have two: "s_len t2 \<le> 1" by simp
      with t False have eq: "calc_changes s1 s2 ch1 ch2 =
          map_option (\<lambda>(c2, c1). (c1, c2)) (set_changed ch2 ch1 t2 t1)"
        by (simp add: calc_changes.simps [of s1])
      obtain f2 f1 where "set_changed ch2 ch1 t2 t1 = Some (?p2 @ f2 @ ?q2, ?p1 @ f1 @ ?q1)"
        "marks (slice_lines t2) (slice_lines t1) f2 f1"
        using set_changed_correct [OF wf(2,1) two ch2 ch1] by blast
      with eq marks_commute show ?thesis by (intro exI [of _ f1] exI [of _ f2]) simp
    qed
  next
    case False
    let ?mid = "s_len t1 div 2"
    let ?tp = "\<lparr>s_list = s_list t1, s_offset = s_offset t1, s_len = ?mid\<rparr>"
    let ?btm = "\<lparr>s_list = s_list t1, s_offset = s_offset t1 + ?mid, s_len = s_len t1 - ?mid\<rparr>"
    have tp: "smartlist_slice (s_list t1) (int (s_offset t1)) (int (s_offset t1) + int ?mid) = Some ?tp"
      using smartlist_slice_sub [OF wf(1), of 0 ?mid] by simp
    have btm: "smartlist_slice (s_list t1) (int (s_offset t1) + int ?mid)
        (int (s_offset t1) + int (s_len t1)) = Some ?btm"
      using smartlist_slice_sub [OF wf(1), of ?mid "s_len t1"] by simp
    have wt: "slice_wf ?tp" "slice_wf ?btm"
      using slice_wf_sub [OF wf(1), of 0 ?mid] slice_wf_sub [OF wf(1), of ?mid "s_len t1"] by simp_all
    have lt: "slice_lines ?tp = take ?mid (slice_lines t1)" "slice_lines ?btm = drop ?mid (slice_lines t1)"
      using slice_lines_sub [of ?mid t1 0] slice_lines_sub [of "s_len t1" t1 ?mid] wf(1) by simp_all
    obtain c where c: "optimal_column_to_split ?tp ?btm t2 = Some c" "c \<le> s_len t2"
      "lcs_len (slice_lines ?tp) (take c (slice_lines t2)) + lcs_len (slice_lines ?btm) (drop c (slice_lines t2))
       = lcs_len (slice_lines ?tp @ slice_lines ?btm) (slice_lines t2)"
      using optimal_column_correct [OF wt wf(2)] by blast
    let ?left = "\<lparr>s_list = s_list t2, s_offset = s_offset t2, s_len = c\<rparr>"
    let ?right = "\<lparr>s_list = s_list t2, s_offset = s_offset t2 + c, s_len = s_len t2 - c\<rparr>"
    have left: "smartlist_slice (s_list t2) (int (s_offset t2)) (int (s_offset t2) + int c) = Some ?left"
      using smartlist_slice_sub [OF wf(2), of 0 c] c(2) by simp
    have right: "smartlist_slice (s_list t2) (int (s_offset t2) + int c)
        (int (s_offset t2) + int (s_len t2)) = Some ?right"
      using smartlist_slice_sub [OF wf(2), of c "s_len t2"] c(2) by simp
    have wl: "slice_wf ?left" "slice_wf ?right"
      using slice_wf_sub [OF wf(2), of 0 c] slice_wf_sub [OF wf(2), of c "s_len t2"] c(2) by simp_all
    have ll: "slice_lines ?left = take c (slice_lines t2)" "slice_lines ?right = drop c (slice_lines t2)"
      using slice_lines_sub [of c t2 0] slice_lines_sub [of "s_len t2" t2 c] wf(2) c(2) by simp_all
    have len: "s_len t1 \<le> s_len s1" using trim by (simp add: trimmed_def)
    let ?r = "\<lambda>n. replicate n False"
    have "\<exists>f1 f2. calc_changes ?tp ?left ch1 ch2
        = Some (?p1 @ f1 @ (?r (s_len t1 - ?mid) @ ?q1), ?p2 @ f2 @ (?r (s_len t2 - c) @ ?q2))
        \<and> marks (slice_lines ?tp) (slice_lines ?left) f1 f2"
    proof (rule less.hyps)
      have "?mid < s_len t1" using False by (intro div_less_dividend) auto
      with len show "s_len ?tp < s_len s1" by simp
      show "ch1 = ?p1 @ ?r (s_len ?tp) @ (?r (s_len t1 - ?mid) @ ?q1)"
        using ch1(1) by (simp add: replicate_add [symmetric] flip: append_assoc)
      show "ch2 = ?p2 @ ?r (s_len ?left) @ (?r (s_len t2 - c) @ ?q2)"
        using ch2(1) c(2) by (simp add: replicate_add [symmetric] flip: append_assoc)
    qed (use wt wl ch1 ch2 in simp_all)
    then obtain f1 f2 where first: "calc_changes ?tp ?left ch1 ch2
        = Some (?p1 @ f1 @ (?r (s_len t1 - ?mid) @ ?q1), ?p2 @ f2 @ (?r (s_len t2 - c) @ ?q2))"
      and m1: "marks (slice_lines ?tp) (slice_lines ?left) f1 f2" by blast
    have fl: "length f1 = ?mid" "length f2 = c"
      using m1 lt ll wf c(2) by (simp_all add: marks_def)
    have "\<exists>g1 g2. calc_changes ?btm ?right (?p1 @ f1 @ (?r (s_len t1 - ?mid) @ ?q1))
           (?p2 @ f2 @ (?r (s_len t2 - c) @ ?q2))
        = Some ((?p1 @ f1) @ g1 @ ?q1, (?p2 @ f2) @ g2 @ ?q2)
        \<and> marks (slice_lines ?btm) (slice_lines ?right) g1 g2"
    proof (rule less.hyps)
      have "0 < ?mid" using False by (intro div_greater_zero_iff [THEN iffD2]) auto
      with False len show "s_len ?btm < s_len s1" by (simp del: div_greater_zero_iff) linarith
    qed (use wt wl ch1 ch2 fl in simp_all)
    then obtain g1 g2 where second: "calc_changes ?btm ?right (?p1 @ f1 @ (?r (s_len t1 - ?mid) @ ?q1))
           (?p2 @ f2 @ (?r (s_len t2 - c) @ ?q2))
        = Some ((?p1 @ f1) @ g1 @ ?q1, (?p2 @ f2) @ g2 @ ?q2)"
      and m2: "marks (slice_lines ?btm) (slice_lines ?right) g1 g2" by blast
    have "calc_changes s1 s2 ch1 ch2 = Some ((?p1 @ f1) @ g1 @ ?q1, (?p2 @ f2) @ g2 @ ?q2)"
      using t False tp btm c(1) left right first second
      by (subst calc_changes.simps) simp
    moreover have "marks (slice_lines t1) (slice_lines t2) (f1 @ g1) (f2 @ g2)"
      using marks_append [OF m1 m2] c(3) lt ll by simp
    ultimately show ?thesis by (intro exI [of _ "f1 @ g1"] exI [of _ "f2 @ g2"]) simp
  qed
  then obtain g1 g2 where g: "calc_changes s1 s2 ch1 ch2 = Some (?p1 @ g1 @ ?q1, ?p2 @ g2 @ ?q2)"
    "marks (slice_lines t1) (slice_lines t2) g1 g2" by blast
  from marks_trim [OF g(2) refl refl, of pre suf] trim
  have "marks (slice_lines s1) (slice_lines s2) (replicate ?a False @ g1 @ replicate ?b False)
      (replicate ?a False @ g2 @ replicate ?b False)"
    by (simp add: trimmed_def)
  with g(1) show ?case by (intro exI conjI) simp_all
qed

end
