(* ===== verification/Consdiff_Ed_Correct.thy ===== *)
theory Consdiff_Ed_Correct
  imports Consdiff_Ed Consdiff_Changes_Correct
begin

text \<open>
  A script that \<open>gen_ed_diff\<close> writes turns the base consensus into the target when
  \<open>apply_ed_diff\<close> runs it. First the commands are read back, then the loops of both functions
  are described on lists, and last the chunks of the two consensuses are put together.
\<close>

section \<open>Commands\<close>

lemma get_linenum_show:
  "n \<le> INT32_MAX \<Longrightarrow> rest = [] \<or> \<not> TOR_ISDIGIT (hd rest) \<Longrightarrow>
     get_linenum (show_dec n @ rest) = Some (int n, rest)"
  using takeWhile_show_dec [of rest n] show_dec_hd_digit [of n rest]
  by (simp add: get_linenum_def show_dec_nonempty read_dec_show_dec)

lemma get_linenum_command:
  "n \<le> INT32_MAX \<Longrightarrow> \<not> TOR_ISDIGIT c \<Longrightarrow> get_linenum (show_dec n @ c # rest) = Some (int n, c # rest)"
  by (rule get_linenum_show) simp_all

lemma parse_ed_command_show:
  assumes "b + d \<le> INT32_MAX" "int (b + d) \<le> j" "0 < d \<or> 0 < a"
  shows "parse_ed_command len1 j (ed_command b (int d) (int a)) =
    Some (if d = 0 then int b else int b + 1, int (b + d),
          if a = 0 then CHR ''d'' else if d = 0 then CHR ''a'' else CHR ''c'')"
proof (cases "d = 0")
  case True
  with assms show ?thesis
    by (simp add: parse_ed_command_def ed_command_def get_linenum_command decimal_simps)
next
  case False
  then consider "d = 1" | "d > 1" by linarith
  then show ?thesis
  proof cases
    case 1
    with assms have "get_linenum (show_dec (Suc b) @ c # rest) = Some (int (Suc b), c # rest)"
      if "\<not> TOR_ISDIGIT c" for c rest
      using that by (intro get_linenum_command) simp_all
    with 1 assms show ?thesis
      by (simp add: parse_ed_command_def ed_command_def decimal_simps)
  next
    case 2
    with assms have "get_linenum (show_dec (Suc b) @ c # rest) = Some (int (Suc b), c # rest)"
      and "get_linenum (show_dec (b + d) @ c # rest) = Some (int (b + d), c # rest)"
      if "\<not> TOR_ISDIGIT c" for c rest
      using that by (intro get_linenum_command; simp)+
    moreover have "hd (show_dec (b + d) @ rest) \<noteq> CHR ''$''" for rest
      using show_dec_hd_digit [of "b + d" rest] by (auto simp: TOR_ISDIGIT_def)
    ultimately show ?thesis using 2 assms
      by (simp add: parse_ed_command_def ed_command_def decimal_simps)
  qed
qed

lemma parse_delete_trailer:
  assumes "n + 1 \<le> INT32_MAX" "n + 1 < len1"
  shows "parse_ed_command (int len1) (int len1) (show_dec (n + 1) @ '',$d'')
    = Some (int n + 1, int len1, CHR ''d'')"
proof -
  from assms have "get_linenum (show_dec (n + 1) @ '',$d'') = Some (int (n + 1), '',$d'')"
    by (intro get_linenum_command) (simp_all add: decimal_simps)
  with assms show ?thesis by (simp add: parse_ed_command_def)
qed

lemma show_dec_no_NUL: "CHR 0x00 \<notin> set (show_dec n)"
  using show_dec_digits [of "CHR 0x00" n] digit_not_special(1) by blast

lemma show_dec_line_number: "n \<le> INT32_MAX \<Longrightarrow> length (show_dec n) \<le> 10"
  by (rule show_dec_length) simp_all

lemma ed_command_line:
  assumes "b + d \<le> INT32_MAX" "0 < d \<or> 0 < a"
  shows "length (ed_command b (int d) (int a)) \<le> 127"
    and "c_string (ed_command b (int d) (int a)) = ed_command b (int d) (int a)"
proof -
  have "length (show_dec b) \<le> 10" "length (show_dec (b + d)) \<le> 10"
    and "d \<noteq> 0 \<Longrightarrow> length (show_dec (Suc b)) \<le> 10"
    using assms by (intro show_dec_line_number; simp)+
  then show "length (ed_command b (int d) (int a)) \<le> 127"
    using assms(2) by (cases "d = 0"; cases "a = 0") (simp_all add: ed_command_def)
  show "c_string (ed_command b (int d) (int a)) = ed_command b (int d) (int a)"
    using show_dec_no_NUL by (intro c_string_id) (auto simp: ed_command_def)
qed

section \<open>The loops of \<open>apply_ed_diff\<close>\<close>

lemma copy_unchanged_segment:
  "0 \<le> e \<Longrightarrow> e \<le> j \<Longrightarrow> j \<le> int (length c) \<Longrightarrow>
     copy_unchanged c e j acc = (e, acc @ rev (segment (nat e) (nat j) c))"
proof (induction c e j acc rule: copy_unchanged.induct)
  case (1 c e j acc)
  show ?case
  proof (cases "j > e")
    case True
    with "1.prems" have j: "j \<noteq> 0 \<and> j > e" "nat j = Suc (nat (j - 1))" "nat (j - 1) < length c"
        and e: "nat e \<le> nat (j - 1)" by auto
    with "1.prems" have "segment (nat e) (nat j) c = segment (nat e) (nat (j - 1)) c @ [c ! nat (j - 1)]"
      using segment_snoc [OF e, of c] by simp
    with j "1.IH" "1.prems" show ?thesis
      by (simp add: copy_unchanged.simps [of c e j] smartlist_add_def)
  next
    case False
    with "1.prems" have "e = j" by simp
    then show ?thesis by (simp add: copy_unchanged.simps [of c j j])
  qed
qed

lemma skip_removed_eq: "start \<le> j \<Longrightarrow> skip_removed start j = start - 1"
proof (induction start j rule: skip_removed.induct)
  case (1 start j)
  then show ?case by (auto simp: skip_removed.simps [of start j])
qed

lemma scan_added_lines:
  "''.'' \<notin> set ls \<Longrightarrow> scan_added acc (ls @ ''.'' # rest) = Some (acc @ ls, rest)"
  by (induction ls arbitrary: acc) auto

lemma fold_smartlist_add: "fold (\<lambda>l c. smartlist_add c l) xs c = c @ xs"
  by (induction xs arbitrary: c) (simp_all add: smartlist_add_def)

text \<open>One command of a generated script, with its added lines.\<close>

lemma apply_command:
  assumes num: "b + d \<le> INT32_MAX" and j: "int (b + d) \<le> j" "j \<le> int (length c)"
    and some: "0 < d \<or> ls \<noteq> []" and dot: "''.'' \<notin> set ls"
  shows "apply_loop c (ed_command b (int d) (int (length ls)) #
           (if ls = [] then [] else ls @ [''.'']) @ ds) j acc
    = apply_loop c ds (int b) (acc @ rev (segment (b + d) (nat j) c) @ rev ls)"
proof -
  have some': "0 < d \<or> 0 < length ls" using some by simp
  note cmd = parse_ed_command_show [OF num j(1) some']
  note line = ed_command_line [OF num some']
  have copy: "copy_unchanged c (int (b + d)) j acc = (int (b + d), acc @ rev (segment (b + d) (nat j) c))"
    using copy_unchanged_segment [of "int (b + d)" j c acc] j by (simp add: nat_int_add)
  have skip: "d \<noteq> 0 \<Longrightarrow> skip_removed (int b + 1) (int b + int d) = int b"
    by (simp add: skip_removed_eq)
  show ?thesis
  proof (cases "ls = []")
    case True
    with cmd line copy skip some show ?thesis by (simp add: apply_loop.simps(2))
  next
    case False
    then have "scan_added [] (ls @ ''.'' # ds) = Some (ls, ds)" using dot by (simp add: scan_added_lines)
    with False cmd line copy skip show ?thesis
      by (simp add: apply_loop.simps(2) fold_smartlist_add)
  qed
qed

section \<open>The loops of \<open>gen_ed_diff\<close>\<close>

text \<open>Writing a script backwards: runs of changed lines end at an unchanged line.\<close>

lemma grab_changed_run:
  assumes "i < int (length f)" "-1 \<le> i"
  obtains k where "k \<le> nat (i + 1)" "grab_changed f i = int k - 1"
    "take (nat (i + 1)) f = take k f @ replicate (nat (i + 1) - k) True"
    "k = 0 \<or> \<not> f ! (k - 1)"
  using assms
proof (induction f i arbitrary: thesis rule: grab_changed.induct)
  case (1 f i)
  show ?case
  proof (cases "i \<ge> 0 \<and> bitarray_is_set f (nat i)")
    case True
    have "i - 1 < int (length f)" "-1 \<le> i - 1" using True "1.prems" by auto
    from "1.IH" [OF True _ this] obtain k where
      k: "k \<le> nat i" "grab_changed f (i - 1) = int k - 1"
        "take (nat i) f = take k f @ replicate (nat i - k) True" "k = 0 \<or> \<not> f ! (k - 1)"
      by auto
    have "nat (i + 1) = Suc (nat i)" "nat i < length f" "f ! nat i" using True "1.prems"
      by (auto simp: bitarray_is_set_def)
    then have "take (nat (i + 1)) f = take k f @ replicate (nat (i + 1) - k) True"
      using k(1,3) by (simp add: take_Suc_nth Suc_diff_le replicate_append_same)
    with k True show ?thesis by (intro "1.prems"(1) [of k]) (simp_all add: grab_changed.simps [of f i])
  next
    case False
    show ?thesis
    proof (rule "1.prems"(1))
      show "nat (i + 1) = 0 \<or> \<not> f ! (nat (i + 1) - 1)"
        using False "1.prems"(3) by (auto simp: bitarray_is_set_def nat_add_distrib)
    qed (use False "1.prems" in \<open>auto simp: grab_changed.simps [of f i]\<close>)
  qed
qed

lemma add_lines_loop_segment:
  assumes "add_lines_loop c i e r = Some r'" "0 \<le> i" "i \<le> e + 1" "e < int (length c)"
  shows "r' = r @ segment (nat i) (nat (e + 1)) c \<and> ''.'' \<notin> set (segment (nat i) (nat (e + 1)) c)"
  using assms
proof (induction c i e r rule: add_lines_loop.induct)
  case (1 c i e r)
  show ?case
  proof (cases "i \<le> e")
    case True
    then have "nat i < nat (e + 1)" "nat i < length c" "nat (i + 1) = Suc (nat i)"
      using "1.prems" by auto
    then have seg: "segment (nat i) (nat (e + 1)) c = c ! nat i # segment (nat (i + 1)) (nat (e + 1)) c"
      by (simp add: segment_Cons)
    from True "1.prems"(1) have dot: "c ! nat i \<noteq> ''.''"
      by (auto simp: add_lines_loop.simps [of c i e r] Let_def split: if_splits)
    with True "1.prems" have
      "add_lines_loop c (i + 1) e (smartlist_add r (c ! nat i)) = Some r'"
      by (simp add: add_lines_loop.simps [of c i e r])
    with "1.IH" [OF True refl] dot "1.prems" True seg show ?thesis
      by (simp add: smartlist_add_def)
  next
    case False
    with "1.prems" show ?thesis by (simp add: add_lines_loop.simps [of c i e r])
  qed
qed

lemma kept_take_unset:
  "k < length f \<Longrightarrow> k < length c \<Longrightarrow> \<not> f ! k \<Longrightarrow>
     kept (take (Suc k) c) (take (Suc k) f) = kept (take k c) (take k f) @ [c ! k]"
  by (simp add: take_Suc_nth)

lemma kept_take_run:
  assumes "k \<le> n" "n \<le> length c" "length f \<le> length c" "n \<le> length f"
    "take n f = take k f @ replicate (n - k) True"
  shows "kept (take n c) (take n f) = kept (take k c) (take k f)"
proof -
  from assms(1) have "take n c = take k c @ segment k n c"
    using segment_append [of 0 k n c] by simp
  then show ?thesis using assms by (simp add: kept_all)
qed

definition rebuilds :: "cdline list \<Rightarrow> cdline list \<Rightarrow> nat \<Rightarrow> cdline list \<Rightarrow> bool" where
  "rebuilds c ds n target \<longleftrightarrow>
     (\<forall>j acc. int n \<le> j \<longrightarrow> j \<le> int (length c) \<longrightarrow>
        (\<exists>j' acc'. apply_loop c ds j acc = Some (j', acc')
           \<and> snd (copy_unchanged c 0 j' acc') = acc @ rev (segment n (nat j) c) @ rev target))"

lemma rebuildsD:
  "rebuilds c ds n target \<Longrightarrow> int n \<le> j \<Longrightarrow> j \<le> int (length c) \<Longrightarrow>
     \<exists>j' acc'. apply_loop c ds j acc = Some (j', acc')
       \<and> snd (copy_unchanged c 0 j' acc') = acc @ rev (segment n (nat j) c) @ rev target"
  by (simp add: rebuilds_def)

lemma rebuilds_unchanged:
  assumes "rebuilds c ds n target" "n < length c"
  shows "rebuilds c ds (Suc n) (target @ [c ! n])"
  unfolding rebuilds_def
proof (intro allI impI)
  fix j acc
  assume j: "int (Suc n) \<le> j" "j \<le> int (length c)"
  then have "segment n (nat j) c = c ! n # segment (Suc n) (nat j) c"
    using assms(2) by (intro segment_Cons) auto
  moreover have "int n \<le> j" using j by simp
  note rebuildsD [OF assms(1) this j(2), of acc]
  ultimately show "\<exists>j' acc'. apply_loop c ds j acc = Some (j', acc')
      \<and> snd (copy_unchanged c 0 j' acc') = acc @ rev (segment (Suc n) (nat j) c) @ rev (target @ [c ! n])"
    by simp
qed

lemma rebuilds_command:
  assumes "rebuilds c ds b target" "b + d \<le> INT32_MAX" "b + d \<le> length c"
    and "0 < d \<or> ls \<noteq> []" "''.'' \<notin> set ls"
  shows "rebuilds c (ed_command b (int d) (int (length ls)) #
      (if ls = [] then [] else ls @ [''.'']) @ ds) (b + d) (target @ ls)"
  unfolding rebuilds_def
proof (intro allI impI)
  fix j acc
  assume j: "int (b + d) \<le> j" "j \<le> int (length c)"
  from assms(1,3) have "\<exists>j' acc'. apply_loop c ds (int b) (acc @ rev (segment (b + d) (nat j) c) @ rev ls)
      = Some (j', acc') \<and> snd (copy_unchanged c 0 j' acc')
          = acc @ rev (segment (b + d) (nat j) c) @ rev ls @ rev target"
    unfolding rebuilds_def by fastforce
  then show "\<exists>j' acc'. apply_loop c (ed_command b (int d) (int (length ls)) #
        (if ls = [] then [] else ls @ [''.'']) @ ds) j acc = Some (j', acc')
      \<and> snd (copy_unchanged c 0 j' acc') = acc @ rev (segment (b + d) (nat j) c) @ rev (target @ ls)"
    unfolding apply_command [OF assms(2) j assms(4,5)] by simp
qed

lemma rebuilds_done: "rebuilds c [] 0 []"
  by (auto simp: rebuilds_def copy_unchanged_segment)

lemma write_loop_set:
  assumes "i1 \<ge> 0 \<or> i2 \<ge> 0"
    "(i1 \<ge> 0 \<and> bitarray_is_set f1 (nat i1)) \<or> (i2 \<ge> 0 \<and> bitarray_is_set f2 (nat i2))"
  shows "write_loop c2 f1 f2 i1 i2 r =
    (let e1 = grab_changed f1 i1; e2 = grab_changed f2 i2;
         r1 = r @ [ed_command (nat (e1 + 1)) (i1 - e1) (i2 - e2)]
     in if i2 - e2 = 0 then write_loop c2 f1 f2 e1 e2 r1
        else case add_lines_loop c2 (e2 + 1) i2 r1 of
               None \<Rightarrow> None | Some r2 \<Rightarrow> write_loop c2 f1 f2 e1 e2 (r2 @ [''.'']))"
proof -
  from assms have "i1 \<ge> 0 \<or> i2 \<ge> 0 \<longleftrightarrow> True"
    "\<not> (i1 \<ge> 0 \<and> bitarray_is_set f1 (nat i1)) \<and> \<not> (i2 \<ge> 0 \<and> bitarray_is_set f2 (nat i2)) \<longleftrightarrow> False"
    by blast+
  then show ?thesis
    by (simp only: write_loop.simps [of c2 f1 f2 i1 i2 r] if_True if_False Let_def smartlist_add_def)
qed

text \<open>The lines that a script is made of, apart from the command that deletes the trailer.\<close>

definition script_lines :: "cdline list \<Rightarrow> cdline set" where
  "script_lines target = set target \<union> {''.''} \<union>
     {ed_command b (int d) (int a) |b d a. b + d \<le> INT32_MAX \<and> (0 < d \<or> 0 < a)}"

lemma script_lines_command:
  assumes "b + d \<le> INT32_MAX" "0 < d \<or> ls \<noteq> []" "set ls \<subseteq> set target" "set ds \<subseteq> script_lines target"
  shows "set (ed_command b (int d) (int (length ls)) # (if ls = [] then [] else ls @ [''.'']) @ ds)
    \<subseteq> script_lines target"
proof -
  have "0 < d \<or> 0 < length ls" using assms(2) by simp
  with assms(1) have "ed_command b (int d) (int (length ls)) \<in> script_lines target"
    unfolding script_lines_def by blast
  with assms(3,4) show ?thesis by (auto simp: script_lines_def)
qed

lemma write_loop_rebuilds:
  assumes "write_loop c2 f1 f2 i1 i2 r = Some r'"
    and "-1 \<le> i1" "i1 < int (length f1)" "-1 \<le> i2" "i2 < int (length f2)"
    and "length f1 \<le> length c" "length f2 = length c2" "length f1 \<le> INT32_MAX"
    and "kept (take (nat (i1 + 1)) c) (take (nat (i1 + 1)) f1)
       = kept (take (nat (i2 + 1)) c2) (take (nat (i2 + 1)) f2)"
  shows "\<exists>ds. r' = r @ ds \<and> rebuilds c ds (nat (i1 + 1)) (take (nat (i2 + 1)) c2)
    \<and> set ds \<subseteq> script_lines c2"
  using assms
proof (induction "nat (i1 + 1) + nat (i2 + 1)" arbitrary: i1 i2 r rule: less_induct)
  case less
  note p = less.prems
  let ?n1 = "nat (i1 + 1)" and ?n2 = "nat (i2 + 1)"
  let ?set = "(i1 \<ge> 0 \<and> bitarray_is_set f1 (nat i1)) \<or> (i2 \<ge> 0 \<and> bitarray_is_set f2 (nat i2))"
  consider "\<not> (i1 \<ge> 0 \<or> i2 \<ge> 0)" | "i1 \<ge> 0 \<or> i2 \<ge> 0" "\<not> ?set" | "i1 \<ge> 0 \<or> i2 \<ge> 0" "?set" by blast
  then show ?case
  proof cases
    case 1
    with p have "i1 = -1" "i2 = -1" "r' = r" by (auto simp: write_loop.simps [of c2 f1 f2 i1 i2 r])
    then show ?thesis using rebuilds_done by simp
  next
    case 2
    have k1: "i1 \<ge> 0 \<Longrightarrow> kept (take ?n1 c) (take ?n1 f1)
        = kept (take (nat i1) c) (take (nat i1) f1) @ [c ! nat i1]"
      using 2 p(3,6) kept_take_unset [of "nat i1" f1 c] by (simp add: bitarray_is_set_def nat_add_distrib)
    have k2: "i2 \<ge> 0 \<Longrightarrow> kept (take ?n2 c2) (take ?n2 f2)
        = kept (take (nat i2) c2) (take (nat i2) f2) @ [c2 ! nat i2]"
      using 2 p(5,7) kept_take_unset [of "nat i2" f2 c2] by (simp add: bitarray_is_set_def nat_add_distrib)
    have pos: "i1 \<ge> 0" "i2 \<ge> 0" using 2(1) k1 k2 p(2,4,9) by (cases "i1 \<ge> 0"; cases "i2 \<ge> 0"; simp)+
    have last: "kept (take (nat i1) c) (take (nat i1) f1) = kept (take (nat i2) c2) (take (nat i2) f2)"
      "c ! nat i1 = c2 ! nat i2" using k1 k2 pos p(9) by simp_all
    have "write_loop c2 f1 f2 (i1 - 1) (i2 - 1) r = Some r'"
      using p(1) 2 pos by (simp add: write_loop.simps [of c2 f1 f2 i1 i2 r])
    moreover have "nat i1 + nat i2 < ?n1 + ?n2" using pos by simp
    ultimately obtain ds where
      "r' = r @ ds" "rebuilds c ds (nat i1) (take (nat i2) c2)" "set ds \<subseteq> script_lines c2"
      using less.hyps [of "i1 - 1" "i2 - 1" r] pos p last by auto
    moreover have "?n1 = Suc (nat i1)" "?n2 = Suc (nat i2)" "nat i1 < length c" "nat i2 < length c2"
      using pos p by auto
    ultimately show ?thesis using rebuilds_unchanged [of c ds "nat i1" "take (nat i2) c2"] last(2)
      by (auto simp: take_Suc_nth)
  next
    case 3
    obtain b1 where b1: "b1 \<le> ?n1" "grab_changed f1 i1 = int b1 - 1"
      "take ?n1 f1 = take b1 f1 @ replicate (?n1 - b1) True" "b1 = 0 \<or> \<not> f1 ! (b1 - 1)"
      using grab_changed_run p(2,3) by blast
    obtain b2 where b2: "b2 \<le> ?n2" "grab_changed f2 i2 = int b2 - 1"
      "take ?n2 f2 = take b2 f2 @ replicate (?n2 - b2) True" "b2 = 0 \<or> \<not> f2 ! (b2 - 1)"
      using grab_changed_run p(4,5) by blast
    let ?d = "?n1 - b1" and ?ls = "segment b2 ?n2 c2"
    have len: "length ?ls = ?n2 - b2" using p(5,7) by simp
    have kept: "kept (take b1 c) (take b1 f1) = kept (take b2 c2) (take b2 f2)"
      using kept_take_run [OF b1(1) _ p(6) _ b1(3)] kept_take_run [OF b2(1) _ _ _ b2(3), of c2] p
      by simp
    have some: "0 < ?d \<or> ?ls \<noteq> []"
      using 3 grab_changed_less [of i1 f1] grab_changed_less [of i2 f2] b1(1,2) b2(1,2) len
      by (auto simp flip: length_greater_0_conv)
    have nums: "int b1 - 1 + 1 = int b1" "int b2 - 1 + 1 = int b2" "i1 - (int b1 - 1) = int ?d" "i2 - (int b2 - 1) = int (length ?ls)"
      using b1(1) b2(1) p(2,4) len by auto
    let ?cmd = "ed_command b1 (int ?d) (int (length ?ls))"
    have dn: "b1 + ?d = ?n1" "take b2 c2 @ ?ls = take ?n2 c2"
      using b1(1) segment_append [of 0 b2 ?n2 c2] b2(1) by simp_all
    have bounds: "-1 \<le> int b1 - 1" "int b1 - 1 < int (length f1)" "-1 \<le> int b2 - 1"
      "int b2 - 1 < int (length f2)" "b1 + ?d \<le> INT32_MAX" "b1 + ?d \<le> length c"
      using p b1(1) b2(1) by auto
    have "nat (int b1 - 1 + 1) + nat (int b2 - 1 + 1) < nat (i1 + 1) + nat (i2 + 1)"
      using some b1(1) b2(1) len by (auto simp flip: length_greater_0_conv)
    from less.hyps [OF this _ bounds(1-4) p(6-8)]
    have IH: "write_loop c2 f1 f2 (int b1 - 1) (int b2 - 1) r0 = Some r' \<Longrightarrow>
      \<exists>ds. r' = r0 @ ds \<and> rebuilds c ds b1 (take b2 c2) \<and> set ds \<subseteq> script_lines c2" for r0
      using kept by simp
    have w: "(if int (length ?ls) = 0
        then write_loop c2 f1 f2 (int b1 - 1) (int b2 - 1) (r @ [?cmd])
        else case add_lines_loop c2 (int b2) i2 (r @ [?cmd]) of None \<Rightarrow> None
             | Some r2 \<Rightarrow> write_loop c2 f1 f2 (int b1 - 1) (int b2 - 1) (r2 @ [''.''])) = Some r'"
      using p(1) by (simp only: write_loop_set [OF 3] b1(2) b2(2) nums Let_def nat_int)
    show ?thesis
    proof (cases "?ls = []")
      case True
      with w have "write_loop c2 f1 f2 (int b1 - 1) (int b2 - 1) (r @ [?cmd]) = Some r'" by simp
      from IH [OF this] obtain ds where "r' = (r @ [?cmd]) @ ds" "rebuilds c ds b1 (take b2 c2)"
        "set ds \<subseteq> script_lines c2" by blast
      with rebuilds_command [OF this(2) bounds(5,6) some] True dn
        script_lines_command [OF bounds(5) some set_segment this(3)]
      show ?thesis by (intro exI [of _ "?cmd # ds"]) auto
    next
      case False
      with w obtain r2 where r2: "add_lines_loop c2 (int b2) i2 (r @ [?cmd]) = Some r2"
        "write_loop c2 f1 f2 (int b1 - 1) (int b2 - 1) (r2 @ [''.'']) = Some r'"
        by (auto split: option.splits)
      have "int b2 \<le> i2 + 1" "i2 < int (length c2)" using b2(1) p(4,5,7) by auto
      with add_lines_loop_segment [OF r2(1)]
      have ls: "r2 = (r @ [?cmd]) @ ?ls" "''.'' \<notin> set ?ls" by auto
      from IH [OF r2(2)] obtain ds where "r' = (r2 @ [''.'']) @ ds" "rebuilds c ds b1 (take b2 c2)"
        "set ds \<subseteq> script_lines c2" by blast
      with rebuilds_command [OF this(2) bounds(5,6) some ls(2)] False dn ls(1)
        script_lines_command [OF bounds(5) some set_segment this(3)] show ?thesis
        by (intro exI [of _ "?cmd # (if ?ls = [] then [] else ?ls @ [''.'']) @ ds"]) simp
    qed
  qed
qed

section \<open>The chunks\<close>

lemma align_loop_le:
  "align_loop cons1 cons2 i1 i2 it1 it2 cmp = Some (j1, j2, jt1, jt2) \<Longrightarrow>
     i1 \<le> int (length cons1) \<Longrightarrow> i2 \<le> int (length cons2) \<Longrightarrow>
     j1 \<le> int (length cons1) \<and> j2 \<le> int (length cons2)"
proof (induction cons1 cons2 i1 i2 it1 it2 cmp rule: align_loop.induct)
  case (1 cons1 cons2 i1 i2 it1 it2 cmp)
  note u = align_loop.simps [of cons1 cons2 i1 i2 it1 it2 cmp]
  note q = "1.prems"(1) [unfolded u]
  consider "cmp = 0" | "cmp < 0" "i1 < int (length cons1)" | "cmp > 0" "i2 < int (length cons2)"
    | "cmp < 0" "\<not> i1 < int (length cons1)" | "cmp > 0" "\<not> i2 < int (length cons2)" by linarith
  then show ?case
  proof cases
    case 2
    with "1.prems"(1) obtain k kt where k: "find_next_router_line cons1 i1 it1 = Some (k, kt)"
      by (auto simp: u split: option.splits)
    show ?thesis
    proof (cases "k = int (length cons1)")
      case True
      with 2 k "1.prems" show ?thesis by (simp add: u)
    next
      case False
      with 2 k "1.prems" find_next_bounds [OF k] "1.IH"(1) [OF refl refl _ _ k refl False]
      show ?thesis by (simp add: u)
    qed
  next
    case 3
    with "1.prems"(1) obtain k kt where k: "find_next_router_line cons2 i2 it2 = Some (k, kt)"
      by (auto simp: u split: option.splits)
    show ?thesis
    proof (cases "k = int (length cons2)")
      case True
      with 3 k "1.prems" show ?thesis by (simp add: u)
    next
      case False
      with 3 k "1.prems" find_next_bounds [OF k] "1.IH"(2) [OF refl refl _ _ _ k refl False]
      show ?thesis by (simp add: u)
    qed
  qed (use q "1.prems"(2,3) in \<open>auto simp add: Let_def\<close>)
qed

lemma advance_bounds:
  "advance cons i it = Some (j, jt) \<Longrightarrow> -1 \<le> i \<Longrightarrow> i \<le> int (length cons) \<Longrightarrow>
     i \<le> j \<and> 0 \<le> j \<and> j \<le> int (length cons)"
  by (auto simp: advance_def dest!: find_next_bounds split: if_splits)

lemma next_chunk_bounds:
  assumes "next_chunk cons1 cons2 i1 i2 it1 it2 = Some (j1, j2, jt1, jt2)"
    and "-1 \<le> i1" "i1 \<le> int (length cons1)" "-1 \<le> i2" "i2 \<le> int (length cons2)"
  shows "i1 \<le> j1 \<and> 0 \<le> j1 \<and> j1 \<le> int (length cons1) \<and> i2 \<le> j2 \<and> 0 \<le> j2 \<and> j2 \<le> int (length cons2)"
proof -
  from assms(1) obtain k1 kt1 k2 kt2 where
    a: "advance cons1 i1 it1 = Some (k1, kt1)" "advance cons2 i2 it2 = Some (k2, kt2)" and
    b: "(if k1 < int (length cons1) \<or> k2 < int (length cons2)
         then align_loop cons1 cons2 k1 k2 kt1 kt2 (base64cmp (hash kt1) (hash kt2))
         else Some (k1, k2, kt1, kt2)) = Some (j1, j2, jt1, jt2)"
    by (auto simp: next_chunk_def bind_eq_Some_conv)
  note k = advance_bounds [OF a(1) assms(2,3)] advance_bounds [OF a(2) assms(4,5)]
  have "k1 \<le> j1 \<and> j1 \<le> int (length cons1) \<and> k2 \<le> j2 \<and> j2 \<le> int (length cons2)"
  proof (cases "k1 < int (length cons1) \<or> k2 < int (length cons2)")
    case True
    with b have al: "align_loop cons1 cons2 k1 k2 kt1 kt2 (base64cmp (hash kt1) (hash kt2))
      = Some (j1, j2, jt1, jt2)" by simp
    from align_loop_measure [OF al] align_loop_le [OF al] k show ?thesis by arith
  next
    case False
    with b k show ?thesis by auto
  qed
  with k show ?thesis by linarith
qed

text \<open>What the loop knows of the marks it has made up to a position.\<close>

definition marked_up_to :: "cdline list \<Rightarrow> int \<Rightarrow> bool list \<Rightarrow> bool list \<Rightarrow> bool" where
  "marked_up_to cons start ch f \<longleftrightarrow> 0 \<le> start \<and> start \<le> int (length cons) \<and> length f = nat start
     \<and> ch = f @ replicate (length cons - nat start) False"

lemma mark_chunk:
  assumes m1: "marked_up_to cons1 start1 ch1 f1" and m2: "marked_up_to cons2 start2 ch2 f2"
    and b1: "start1 \<le> j1" "j1 \<le> int (length cons1)" and b2: "start2 \<le> j2" "j2 \<le> int (length cons2)"
    and eq: "kept (take (nat start1) cons1) f1 = kept (take (nat start2) cons2) f2"
  obtains s1 s2 c1 c2 g1 g2 where
    "smartlist_slice cons1 start1 j1 = Some s1" "smartlist_slice cons2 start2 j2 = Some s2"
    "calc_changes s1 s2 ch1 ch2 = Some (c1, c2)"
    "marked_up_to cons1 j1 c1 (f1 @ g1)" "marked_up_to cons2 j2 c2 (f2 @ g2)"
    "kept (take (nat j1) cons1) (f1 @ g1) = kept (take (nat j2) cons2) (f2 @ g2)"
    "length (kept (take (nat j1) cons1) (f1 @ g1)) = length (kept (take (nat start1) cons1) f1)
       + lcs_len (segment (nat start1) (nat j1) cons1) (segment (nat start2) (nat j2) cons2)"
proof -
  define s1 where "s1 = \<lparr>s_list = cons1, s_offset = nat start1, s_len = nat (j1 - start1)\<rparr>"
  define s2 where "s2 = \<lparr>s_list = cons2, s_offset = nat start2, s_len = nat (j2 - start2)\<rparr>"
  have sl: "smartlist_slice cons1 start1 j1 = Some s1" "smartlist_slice cons2 start2 j2 = Some s2"
    using m1 m2 b1 b2 by (simp_all add: smartlist_slice_def marked_up_to_def s1_def s2_def)
  have wf: "slice_wf s1" "slice_wf s2"
    using m1 m2 b1 b2 by (auto simp: slice_wf_def marked_up_to_def s1_def s2_def)
  have rep: "replicate (length cons - nat start) False =
      replicate (nat (j - start)) False @ replicate (length cons - nat j) False"
    if "0 \<le> start" "start \<le> j" "j \<le> int (length cons)" for start j and cons :: "cdline list"
    using that by (simp flip: replicate_add)
  obtain g1 g2 where g: "calc_changes s1 s2 ch1 ch2 =
      Some (f1 @ g1 @ replicate (length cons1 - nat j1) False, f2 @ g2 @ replicate (length cons2 - nat j2) False)"
    "marks (slice_lines s1) (slice_lines s2) g1 g2"
    using calc_changes_correct [OF wf, of ch1 f1 "replicate (length cons1 - nat j1) False"
        ch2 f2 "replicate (length cons2 - nat j2) False"] m1 m2 b1 b2
    by (auto simp: marked_up_to_def rep s1_def s2_def)
  have ls: "slice_lines s1 = segment (nat start1) (nat j1) cons1"
    "slice_lines s2 = segment (nat start2) (nat j2) cons2"
    using m1 m2 b1(1) b2(1) by (auto simp: slice_lines_def segment_def s1_def s2_def marked_up_to_def nat_diff_distrib)
  have cut: "take (nat j) cons = take (nat start) cons @ segment (nat start) (nat j) cons"
    if "start \<le> j" for start j and cons :: "cdline list"
    using segment_append [of 0 "nat start" "nat j" cons] that by simp
  have gg: "kept (segment (nat start1) (nat j1) cons1) g1 = kept (segment (nat start2) (nat j2) cons2) g2"
    "length (kept (segment (nat start2) (nat j2) cons2) g2)
      = lcs_len (segment (nat start1) (nat j1) cons1) (segment (nat start2) (nat j2) cons2)"
    using g(2) ls by (auto simp: marks_def)
  have ll: "length (take (nat start1) cons1) = length f1" "length (take (nat start2) cons2) = length f2"
    using m1 m2 by (auto simp: marked_up_to_def)
  show ?thesis
  proof (rule that [OF sl g(1)])
    show "marked_up_to cons1 j1 (f1 @ g1 @ replicate (length cons1 - nat j1) False) (f1 @ g1)"
      "marked_up_to cons2 j2 (f2 @ g2 @ replicate (length cons2 - nat j2) False) (f2 @ g2)"
      using m1 m2 b1 b2 g(2) ls by (auto simp: marked_up_to_def marks_def)
    show "kept (take (nat j1) cons1) (f1 @ g1) = kept (take (nat j2) cons2) (f2 @ g2)"
      "length (kept (take (nat j1) cons1) (f1 @ g1)) = length (kept (take (nat start1) cons1) f1)
       + lcs_len (segment (nat start1) (nat j1) cons1) (segment (nat start2) (nat j2) cons2)"
      using eq gg kept_append [OF ll(1)] kept_append [OF ll(2)]
      by (simp_all add: cut [OF b1(1), of cons1] cut [OF b2(1), of cons2] del: kept_append)
  qed
qed

lemma chunk_loop_marks:
  assumes "chunk_loop cons1 cons2 i1 i2 start1 start2 it1 it2 ch1 ch2 = Some (c1, c2)"
    and "marked_up_to cons1 start1 ch1 f1" "marked_up_to cons2 start2 ch2 f2"
    and "-1 \<le> i1" "i1 \<le> int (length cons1)" "start1 = max 0 i1"
    and "-1 \<le> i2" "i2 \<le> int (length cons2)" "start2 = max 0 i2"
    and "kept (take (nat start1) cons1) f1 = kept (take (nat start2) cons2) f2"
  shows "length c1 = length cons1 \<and> length c2 = length cons2 \<and> kept cons1 c1 = kept cons2 c2"
  using assms
proof (induction "nat (int (length cons1) - i1) + nat (int (length cons2) - i2)"
    arbitrary: i1 i2 start1 start2 it1 it2 ch1 ch2 f1 f2 rule: less_induct)
  case less
  note p = less.prems
  show ?case
  proof (cases "i1 < int (length cons1) \<or> i2 < int (length cons2)")
    case True
    note u = p(1) [unfolded chunk_loop.simps [of cons1 cons2 i1 i2] if_P [OF True]]
    from u obtain j1 j2 jt1 jt2 where nc: "next_chunk cons1 cons2 i1 i2 it1 it2 = Some (j1, j2, jt1, jt2)"
      by (auto simp: bind_eq_Some_conv)
    have b: "start1 \<le> j1" "j1 \<le> int (length cons1)" "start2 \<le> j2" "j2 \<le> int (length cons2)"
      and j: "0 \<le> j1" "0 \<le> j2"
      using next_chunk_bounds [OF nc p(4,5,7,8)] p(6,9) by auto
    from p(2,3) b p(10) obtain s1 s2 d1 d2 g1 g2 where
      s: "smartlist_slice cons1 start1 j1 = Some s1" "smartlist_slice cons2 start2 j2 = Some s2"
        "calc_changes s1 s2 ch1 ch2 = Some (d1, d2)" and
      m: "marked_up_to cons1 j1 d1 (f1 @ g1)" "marked_up_to cons2 j2 d2 (f2 @ g2)"
        "kept (take (nat j1) cons1) (f1 @ g1) = kept (take (nat j2) cons2) (f2 @ g2)"
      by (rule mark_chunk) blast
    from u nc s have "chunk_loop cons1 cons2 j1 j2 j1 j2 jt1 jt2 d1 d2 = Some (c1, c2)"
      by (auto split: if_splits)
    from less.hyps [OF next_chunk_measure [OF nc True] this m(1,2) _ b(2) _ _ b(4) _ m(3)] j
    show ?thesis by simp
  next
    case False
    with p have e: "i1 = int (length cons1)" "i2 = int (length cons2)"
      "start1 = int (length cons1)" "start2 = int (length cons2)" by auto
    from p(1) False have "c1 = ch1" "c2 = ch2"
      by (auto simp: chunk_loop.simps [of cons1 cons2 i1 i2])
    with p(2,3,10) e show ?thesis by (auto simp: marked_up_to_def)
  qed
qed

lemma dirsig_loop_bounds:
  "dirsig_loop n cons = -1 \<or> int n \<le> dirsig_loop n cons \<and> dirsig_loop n cons < int (n + length cons)"
proof (induction n cons rule: dirsig_loop.induct)
  case (2 idx line cons)
  then show ?case by auto
qed simp

lemma del_from_take: "del_from cons n = Some (take n cons)"
proof (induction cons n rule: del_from.induct)
  case (1 cons n)
  show ?case
  proof (cases "length cons > n")
    case True
    then obtain cons' where c: "smartlist_del cons n = Some cons'" "take n cons' = take n cons"
      by (auto simp: smartlist_del_def take_butlast)
    with "1.IH" [OF True c(1)] True show ?thesis by (simp add: del_from.simps [of cons n])
  next
    case False
    then show ?thesis by (simp add: del_from.simps [of cons n])
  qed
qed

text \<open>The number of lines that the script deletes at the end of the base consensus.\<close>

definition trailer_length :: "cdline list \<Rightarrow> nat" where
  "trailer_length cons =
     (if dirsig_loop 0 cons = -1 then 0 else length cons - nat (dirsig_loop 0 cons))"

lemma preprocess_consensus_eq:
  "preprocess_consensus cons = Some (take (length cons - trailer_length cons) cons,
     if trailer_length cons = 0 then None
     else Some (show_dec (length cons - trailer_length cons + 1) @ '',$d''))"
  using dirsig_loop_bounds [of 0 cons]
  by (auto simp: preprocess_consensus_def trailer_length_def del_from_take Let_def)

text \<open>
  The script deletes the trailer first; on a trailer of a single line that command is not
  accepted.
\<close>

lemma apply_delete_trailer:
  assumes "n + 1 < length c" "length c \<le> INT32_MAX"
  shows "apply_loop c ((show_dec (n + 1) @ '',$d'') # ds) (int (length c)) [] = apply_loop c ds (int n) []"
proof -
  have "length (show_dec (n + 1)) \<le> 10" using assms by (intro show_dec_line_number) simp
  moreover have "c_string (show_dec (n + 1) @ '',$d'') = show_dec (n + 1) @ '',$d''"
    using show_dec_no_NUL by (intro c_string_id) auto
  moreover have "parse_ed_command (int (length c)) (int (length c)) (show_dec (n + 1) @ '',$d'')
      = Some (int n + 1, int (length c), CHR ''d'')"
    using assms by (intro parse_delete_trailer) simp_all
  moreover have "skip_removed (int n + 1) (int (length c)) = int n"
    using assms by (simp add: skip_removed_eq)
  ultimately show ?thesis by (simp add: apply_loop.simps(2) copy_unchanged_segment)
qed

lemma gen_ed_diff_marks:
  assumes "gen_ed_diff base target = Some d"
  obtains f1 f2 where
    "length f1 = length base - trailer_length base" "length f2 = length target"
    "kept (take (length f1) base) f1 = kept target f2"
    "write_loop target f1 f2 (int (length f1) - 1) (int (length target) - 1)
       (if trailer_length base = 0 then [] else [show_dec (length f1 + 1) @ '',$d'']) = Some d"
proof -
  let ?c1 = "take (length base - trailer_length base) base"
  from assms obtain f1 f2 where
    ch: "chunk_loop ?c1 target (-1) (-1) 0 0 ROUTER_ID_ITERATOR_INIT ROUTER_ID_ITERATOR_INIT
       (bitarray_init_zero (length ?c1)) (bitarray_init_zero (length target)) = Some (f1, f2)" and
    w: "write_loop target f1 f2 (int (length ?c1) - 1) (int (length target) - 1)
       (if trailer_length base = 0 then []
        else [show_dec (length base - trailer_length base + 1) @ '',$d'']) = Some d"
    by (auto simp: gen_ed_diff_def preprocess_consensus_eq bind_eq_Some_conv simp del: length_take
        split: if_splits)
  have m: "marked_up_to c 0 (bitarray_init_zero (length c)) []" for c
    by (simp add: marked_up_to_def bitarray_init_zero_def)
  from chunk_loop_marks [OF ch m m]
  have "length f1 = length ?c1" "length f2 = length target" "kept ?c1 f1 = kept target f2" by auto
  with w show thesis by (intro that [of f1 f2]) (auto split: if_splits)
qed

lemma gen_ed_diff_script:
  assumes "gen_ed_diff base target = Some d" "length base \<le> INT32_MAX"
  obtains n ds where "n = length base - trailer_length base"
    "d = (if trailer_length base = 0 then [] else [show_dec (n + 1) @ '',$d'']) @ ds"
    "rebuilds base ds n target" "set ds \<subseteq> script_lines target"
proof -
  from gen_ed_diff_marks [OF assms(1)] obtain f1 f2 where
    f: "length f1 = length base - trailer_length base" "length f2 = length target"
      "kept (take (length f1) base) f1 = kept target f2" and
    w: "write_loop target f1 f2 (int (length f1) - 1) (int (length target) - 1)
       (if trailer_length base = 0 then [] else [show_dec (length f1 + 1) @ '',$d'']) = Some d"
    by blast
  have "length f1 \<le> INT32_MAX" using f(1) assms(2) by linarith
  with write_loop_rebuilds [OF w, of base] f obtain ds where
    "d = (if trailer_length base = 0 then [] else [show_dec (length f1 + 1) @ '',$d'']) @ ds"
      "rebuilds base ds (length f1) target" "set ds \<subseteq> script_lines target" by auto
  with f(1) show thesis by (intro that [of "length f1"]) auto
qed

lemma gen_ed_diff_rebuilds:
  assumes "gen_ed_diff base target = Some d" "length base \<le> INT32_MAX" "trailer_length base \<noteq> 1"
  shows "apply_ed_diff base d 0 = Some target"
proof -
  from gen_ed_diff_script [OF assms(1,2)] obtain n ds where
    n: "n = length base - trailer_length base" and
    d: "d = (if trailer_length base = 0 then [] else [show_dec (n + 1) @ '',$d'']) @ ds"
      "rebuilds base ds n target" by blast
  have t: "trailer_length base \<le> length base" by (simp add: trailer_length_def)
  have "apply_loop base d (int (length base)) [] = apply_loop base ds (int (n)) []"
  proof (cases "trailer_length base = 0")
    case True
    with d n show ?thesis by simp
  next
    case False
    with assms(3) t n have "n + 1 < length base" by linarith
    from apply_delete_trailer [OF this assms(2)] d False show ?thesis by simp
  qed
  moreover obtain j' acc' where "apply_loop base ds (int (n)) [] = Some (j', acc')"
    "snd (copy_unchanged base 0 j' acc') = rev target"
    using rebuildsD [OF d(2), of "int (n)" "[]"] n by auto
  ultimately show ?thesis
    by (cases "copy_unchanged base 0 j' acc'") (simp add: apply_ed_diff_def smartlist_reverse_rev)
qed

end
