(* ===== verification/Util_String.thy ===== *)
theory Util_String
  imports Consdiff_Lines "HOL-Library.Monad_Syntax"
begin

text \<open>
  String helpers of src/lib: the character classes of src/lib/string/compat_ctype.c, searching and
  skipping in src/lib/string/util_string.c, and cutting and joining strings in
  src/lib/smartlist_core/smartlist_split.c and src/lib/container/smartlist.c.

  A pointer into a string is the rest of the string from there; a pointer that may be NULL is an
  option. A string that the code takes as NUL-terminated is a list without a NUL.
\<close>

section \<open>Character classes\<close>

definition TOR_ISSPACE_TABLE :: "32 word list" where
  "TOR_ISSPACE_TABLE = [0x3e00, 0x1, 0, 0, 0, 0, 0, 0]"

definition TOR_ISDIGIT_TABLE :: "32 word list" where
  "TOR_ISDIGIT_TABLE = [0, 0x3ff0000, 0, 0, 0, 0, 0, 0]"

text \<open>The function that \<open>DECLARE_CTYPE_FN\<close> makes from a table.\<close>

definition ctype_fn :: "32 word list \<Rightarrow> char \<Rightarrow> bool" where
  "ctype_fn table c =
     (let u = of_char c :: nat
      in table ! (drop_bit 5 u AND 7) AND push_bit (u AND 31) 1 \<noteq> 0)"

lemma digit_row: "v < 32 \<Longrightarrow> (0x3ff0000 :: 32 word) AND push_bit v 1 \<noteq> 0 \<longleftrightarrow> 16 \<le> v \<and> v \<le> 25"
proof -
  have "\<forall>v \<in> {..<32}. ((0x3ff0000 :: 32 word) AND push_bit v 1 \<noteq> 0) = (16 \<le> v \<and> v \<le> 25)"
    by (simp add: lessThan_nat_numeral lessThan_Suc push_bit_eq_mult)
  then show "v < 32 \<Longrightarrow> ?thesis" by simp
qed
text \<open>The prelude's \<open>TOR_ISDIGIT\<close> is the one of the table.\<close>

lemma TOR_ISDIGIT_table: "TOR_ISDIGIT c = ctype_fn TOR_ISDIGIT_TABLE c"
proof -
  let ?u = "of_char c :: nat"
  have u: "?u < 256" by simp
  have d: "?u div 32 < 8" using u by linarith
  then have m: "?u AND 31 = ?u mod 32" "drop_bit 5 ?u AND 7 = ?u div 32"
    by (simp_all add: drop_bit_eq_div and_mask_mod)
  have "?u div 32 \<in> {..<8}" using d by simp
  then consider "?u div 32 = 1" | "?u div 32 \<in> {0,2,3,4,5,6,7}"
    by (auto simp add: lessThan_nat_numeral lessThan_Suc)
  then show ?thesis
  proof cases
    case 1
    define v where "v = ?u mod 32"
    have v: "?u = 32 + v" "v < 32" "?u AND 31 = v"
      using 1 div_mult_mod_eq [of ?u 32] m(1) by (simp_all add: v_def)
    have "ctype_fn TOR_ISDIGIT_TABLE c \<longleftrightarrow> 16 \<le> v \<and> v \<le> 25"
      unfolding ctype_fn_def Let_def m(2) 1 v(3) using digit_row [OF v(2)]
      by (simp add: TOR_ISDIGIT_TABLE_def)
    with v(1) show ?thesis by (simp add: TOR_ISDIGIT_def)
  next
    case 2
    have "48 \<le> ?u \<Longrightarrow> ?u \<le> 57 \<Longrightarrow> ?u div 32 = 1" by (rule div_nat_eqI) simp_all
    with 2 have "\<not> TOR_ISDIGIT c" unfolding TOR_ISDIGIT_def by auto
    moreover from 2 have "TOR_ISDIGIT_TABLE ! (?u div 32) = 0"
      by (elim insertE emptyE) (simp_all add: TOR_ISDIGIT_TABLE_def)
    ultimately show ?thesis using m by (simp add: ctype_fn_def Let_def)
  qed
qed

abbreviation TOR_ISSPACE :: "char \<Rightarrow> bool" where
  "TOR_ISSPACE \<equiv> ctype_fn TOR_ISSPACE_TABLE"

section \<open>Searching\<close>

text \<open>\<open>strstr\<close> and \<open>memmem\<close>: the first place where the needle is a prefix.\<close>

fun first_match :: "string \<Rightarrow> string \<Rightarrow> nat option" where
  "first_match needle [] = (if needle = [] then Some 0 else None)"
| "first_match needle (c # s) =
     (if take (length needle) (c # s) = needle then Some 0
      else map_option Suc (first_match needle s))"

lemma first_match_Some:
  "first_match needle s = Some k \<Longrightarrow>
     k + length needle \<le> length s \<and> take (length needle) (drop k s) = needle
   \<and> (\<forall>i < k. take (length needle) (drop i s) \<noteq> needle)"
proof (induction needle s arbitrary: k rule: first_match.induct)
  case (1 needle)
  then show ?case by (auto split: if_splits)
next
  case (2 needle c s)
  show ?case
  proof (cases "take (length needle) (c # s) = needle")
    case True
    have "length (take (length needle) (c # s)) \<le> length (c # s)"
      by (simp only: length_take min.cobounded1)
    then have "length needle \<le> length (c # s)"  by (simp only: True)
    with True "2.prems" show ?thesis by simp
  next
    case False
    with "2.prems" obtain k' where k: "k = Suc k'" "first_match needle s = Some k'" by auto
    from "2.IH" [OF False k(2)] have IH: "k' + length needle \<le> length s"
      "take (length needle) (drop k' s) = needle"
      "\<forall>i < k'. take (length needle) (drop i s) \<noteq> needle" by auto
    have "take (length needle) (drop i (c # s)) \<noteq> needle" if "i < k" for i
      using that False IH(3) k(1) by (cases i) auto
    with IH k(1) show ?thesis by simp
  qed
qed

lemma first_match_None:
  "first_match needle s = None \<Longrightarrow> take (length needle) (drop i s) \<noteq> needle"
proof (induction needle s arbitrary: i rule: first_match.induct)
  case (1 needle)
  then show ?case by (auto split: if_splits)
next
  case (2 needle c s)
  then show ?case by (cases i) (auto split: if_splits)
qed

lemma first_match_char: "first_match [c] s = memchr s c"
  by (induction s) auto

text \<open>\<open>tor_memmem\<close> asserts that the needle is not empty; a NULL result is \<open>None\<close>.\<close>

definition tor_memmem :: "string \<Rightarrow> string \<Rightarrow> nat option" where
  "tor_memmem haystack needle =
     (if length needle > length haystack then None else first_match needle haystack)"

definition tor_memstr :: "string \<Rightarrow> string \<Rightarrow> nat option" where
  "tor_memstr haystack needle = tor_memmem haystack needle"

text \<open>\<open>tor_strstrip\<close>: drop every character that appears in \<open>strip\<close>.\<close>

fun tor_strstrip :: "string \<Rightarrow> string \<Rightarrow> string" where
  "tor_strstrip [] strip = []"
| "tor_strstrip (c # readp) strip =
     (if c \<in> set strip then tor_strstrip readp strip else c # tor_strstrip readp strip)"

section \<open>Cutting a string into words\<close>

definition SPLIT_SKIP_SPACE :: nat where "SPLIT_SKIP_SPACE = 0x01"
definition SPLIT_IGNORE_BLANK :: nat where "SPLIT_IGNORE_BLANK = 0x02"
definition SPLIT_STRIP_SPACE :: nat where "SPLIT_STRIP_SPACE = 0x04"

lemmas split_flags = SPLIT_SKIP_SPACE_def SPLIT_IGNORE_BLANK_def SPLIT_STRIP_SPACE_def

definition is_blank :: "char \<Rightarrow> bool" where
  "is_blank c \<longleftrightarrow> c = CHR 0x09 \<or> c = CHR '' ''"

text \<open>The end of the word that starts at \<open>cp\<close>, as an offset from it.\<close>

definition word_end :: "string option \<Rightarrow> int \<Rightarrow> int \<Rightarrow> string \<Rightarrow> nat" where
  "word_end sep maxn n cp =
     (if maxn > 0 \<and> n = maxn - 1 then length cp
      else case sep of
             Some sp \<Rightarrow> (case first_match sp cp of None \<Rightarrow> length cp | Some k \<Rightarrow> k)
           | None \<Rightarrow> length (takeWhile (\<lambda>c. \<not> is_blank c) cp))"

text \<open>Where the next word starts; \<open>None\<close> is NULL.\<close>

definition next_word :: "string option \<Rightarrow> nat \<Rightarrow> string \<Rightarrow> string option" where
  "next_word sep end cp =
     (if drop end cp = [] then None
      else case sep of
             Some sp \<Rightarrow> Some (drop (end + length sp) cp)
           | None \<Rightarrow> Some (dropWhile is_blank (drop (end + 1) cp)))"

text \<open>\<open>while (end > cp && TOR_ISSPACE(*(end-1))) --end\<close>\<close>

definition trim_end :: "string \<Rightarrow> string" where
  "trim_end w = rev (dropWhile TOR_ISSPACE (rev w))"

text \<open>With an empty separator the loop never ends, so the result is an option.\<close>

partial_function (option) split_loop ::
    "string option \<Rightarrow> nat \<Rightarrow> int \<Rightarrow> string list \<Rightarrow> string \<Rightarrow> int \<Rightarrow> (string list \<times> int) option" where
  "split_loop sep flags maxn sl cp n =
     (let cp = (if flags AND SPLIT_SKIP_SPACE \<noteq> 0 then dropWhile TOR_ISSPACE cp else cp);
          end = word_end sep maxn n cp;
          next = next_word sep end cp;
          w = take end cp;
          w = (if flags AND SPLIT_SKIP_SPACE \<noteq> 0 then trim_end w else w);
          (sl, n) = (if w \<noteq> [] \<or> flags AND SPLIT_IGNORE_BLANK = 0
                     then (smartlist_add sl
                             (if flags AND SPLIT_STRIP_SPACE \<noteq> 0 then tor_strstrip w '' '' else w), n + 1)
                     else (sl, n))
      in case next of None \<Rightarrow> Some (sl, n) | Some cp \<Rightarrow> split_loop sep flags maxn sl cp n)"

declare split_loop.simps [code]

definition smartlist_split_string ::
    "string list \<Rightarrow> string \<Rightarrow> string option \<Rightarrow> nat \<Rightarrow> int \<Rightarrow> (string list \<times> int) option" where
  "smartlist_split_string sl str sep flags maxn = split_loop sep flags maxn sl str 0"

text \<open>\<open>smartlist_join_strings2\<close> on NUL-terminated strings.\<close>

fun join_loop :: "string \<Rightarrow> string list \<Rightarrow> string \<Rightarrow> string" where
  "join_loop dst [] sep = dst"
| "join_loop dst [s] sep = dst @ s"
| "join_loop dst (s # t # sl) sep = join_loop ((dst @ s) @ sep) (t # sl) sep"

definition smartlist_join_strings2 :: "string list \<Rightarrow> string \<Rightarrow> bool \<Rightarrow> string" where
  "smartlist_join_strings2 sl sep terminate =
     (let dst = join_loop [] sl sep in if terminate then dst @ sep else dst)"

lemma join_loop_acc: "join_loop dst sl sep = dst @ join_loop [] sl sep"
proof (induction sl arbitrary: dst)
  case (Cons s sl)
  show ?case
  proof (cases sl)
    case Nil
    then show ?thesis by simp
  next
    case (Cons t tl)
    with Cons.IH [of "(dst @ s) @ sep"] Cons.IH [of "s @ sep"] show ?thesis by simp
  qed
qed simp

lemma join_loop_Cons: "sl \<noteq> [] \<Longrightarrow> join_loop [] (w # sl) sep = w @ sep @ join_loop [] sl sep"
  by (cases sl) (simp_all add: join_loop_acc [of "w @ sep"])

section \<open>Cutting with a separator\<close>

lemma split_loop_plain:
  "split_loop (Some sep) 0 0 sl cp n =
     (case first_match sep cp of
        None \<Rightarrow> Some (sl @ [cp], n + 1)
      | Some k \<Rightarrow> if k = length cp then Some (sl @ [cp], n + 1)
                  else split_loop (Some sep) 0 0 (sl @ [take k cp]) (drop (k + length sep) cp) (n + 1))"
  using first_match_Some [of sep cp]
  by (subst split_loop.simps)
     (auto simp: word_end_def next_word_def smartlist_add_def Let_def split_flags split: option.splits)

text \<open>No separator starts inside a piece.\<close>

definition contains_sub :: "string \<Rightarrow> string \<Rightarrow> bool" where
  "contains_sub sep w \<longleftrightarrow> first_match sep w \<noteq> None"

lemma split_loop_pieces:
  assumes "sep \<noteq> []"
  shows "\<exists>ws. split_loop (Some sep) 0 0 sl cp n = Some (sl @ ws, n + int (length ws))
    \<and> ws \<noteq> [] \<and> join_loop [] ws sep = cp \<and> (\<forall>w \<in> set ws. \<not> contains_sub sep w)"
proof (induction "length cp" arbitrary: cp sl n rule: less_induct)
  case less
  show ?case
  proof (cases "first_match sep cp")
    case None
    then show ?thesis
      by (intro exI [of _ "[cp]"]) (subst split_loop_plain, simp add: contains_sub_def)
  next
    case (Some k)
    note m = first_match_Some [OF Some]
    with assms have k: "k < length cp" 
      by (cases sep) auto
    have "length (drop (k + length sep) cp) < length cp" using assms k by (cases sep) auto
    from less.hyps [OF this, of "sl @ [take k cp]" "n + 1"] obtain ws where
      ws: "split_loop (Some sep) 0 0 (sl @ [take k cp]) (drop (k + length sep) cp) (n + 1)
          = Some ((sl @ [take k cp]) @ ws, n + 1 + int (length ws))"
        "ws \<noteq> []" "join_loop [] ws sep = drop (k + length sep) cp" "\<forall>w \<in> set ws. \<not> contains_sub sep w"
      by blast
    have "\<not> contains_sub sep (take k cp)"
    proof
      assume "contains_sub sep (take k cp)"
      then obtain i where i: "first_match sep (take k cp) = Some i" by (auto simp: contains_sub_def)
      note mi = first_match_Some [OF i]
      then have "i < k" using assms k by (cases sep) auto
      moreover have "take (length sep) (drop i cp) = sep"
        using mi k by (auto simp: drop_take min_def split: if_splits)
      ultimately show False using m by blast
    qed
    moreover have "cp = take k cp @ sep @ drop (k + length sep) cp"
      using m by (metis append_take_drop_id add.commute drop_drop)
    ultimately show ?thesis using Some k ws
      by (intro exI [of _ "take k cp # ws"])
         (subst split_loop_plain, simp add: join_loop_Cons)
  qed
qed

section \<open>Properties\<close>

text \<open>Cutting a string at a separator that is not empty, without flags or a limit, ends, counts
  the pieces, leaves no separator inside a piece, and joining the pieces with the separator gives
  back the string.\<close>

theorem split_join_strings:
  assumes "sep \<noteq> []"
  shows "\<exists>ws. smartlist_split_string [] s (Some sep) 0 0 = Some (ws, int (length ws)) \<and> ws \<noteq> []
    \<and> smartlist_join_strings2 ws sep False = s \<and> (\<forall>w \<in> set ws. tor_memstr w sep = None)"
proof -
  from split_loop_pieces [OF assms, of "[]" s 0] obtain ws where
    ws: "split_loop (Some sep) 0 0 [] s 0 = Some (ws, int (length ws))" "ws \<noteq> []"
      "join_loop [] ws sep = s" "\<forall>w \<in> set ws. \<not> contains_sub sep w" by auto
  then show ?thesis
    by (auto simp: smartlist_split_string_def smartlist_join_strings2_def contains_sub_def
        tor_memstr_def tor_memmem_def)
qed

lemma split_join_strings_witness:
  "\<exists>ws. smartlist_split_string [] ''a, b,, c'' (Some '','') 0 0 = Some (ws, int (length ws)) \<and> ws \<noteq> []
    \<and> smartlist_join_strings2 ws '','' False = ''a, b,, c'' \<and> (\<forall>w \<in> set ws. tor_memstr w '','' = None)"
  by (rule split_join_strings) simp

end
