(* ===== verification/Binascii.thy ===== *)
theory Binascii
  imports Tor_Prelude
begin

text \<open>
  The encodings of src/lib/encoding/binascii.c. A \<open>char *\<close> with a length is a \<open>string\<close>; the
  value of a byte is \<open>of_char c\<close>, a natural number below 256. Destination buffers are the
  returned strings; their size \<open>destlen\<close> stays an argument, because the sources check it.
  A function that returns -1 on failure returns \<open>None\<close>; an encoder whose arguments violate an
  assertion returns \<open>None\<close> as well.
\<close>

unbundle bit_operations_syntax

abbreviation SIZE_T_CEILING :: int where "SIZE_T_CEILING \<equiv> 9223372036854775791"

section \<open>Base 16\<close>

definition hex_digits :: string where
  "hex_digits = ''0123456789ABCDEF''"

fun base16_encode_loop :: "string \<Rightarrow> string \<Rightarrow> string" where
  "base16_encode_loop cp [] = cp"
| "base16_encode_loop cp (c # src) =
     base16_encode_loop
       (cp @ [hex_digits ! drop_bit 4 (of_char c), hex_digits ! (of_char c AND 15)]) src"

definition base16_encode :: "nat \<Rightarrow> string \<Rightarrow> string option" where
  "base16_encode destlen src =
     (if int (length src) < SIZE_T_CEILING div 2 - 1 \<and> destlen \<ge> length src * 2 + 1
         \<and> int destlen < SIZE_T_CEILING
      then Some (base16_encode_loop [] src) else None)"

text \<open>\<open>hex_decode_digit\<close> of compat_ctype.h; -1 for a character that is not a hexadecimal digit.\<close>

definition hex_decode_digit :: "char \<Rightarrow> int" where
  "hex_decode_digit c =
     (if c = CHR ''0'' then 0 else if c = CHR ''1'' then 1 else if c = CHR ''2'' then 2
      else if c = CHR ''3'' then 3 else if c = CHR ''4'' then 4 else if c = CHR ''5'' then 5
      else if c = CHR ''6'' then 6 else if c = CHR ''7'' then 7 else if c = CHR ''8'' then 8
      else if c = CHR ''9'' then 9
      else if c = CHR ''A'' \<or> c = CHR ''a'' then 10 else if c = CHR ''B'' \<or> c = CHR ''b'' then 11
      else if c = CHR ''C'' \<or> c = CHR ''c'' then 12 else if c = CHR ''D'' \<or> c = CHR ''d'' then 13
      else if c = CHR ''E'' \<or> c = CHR ''e'' then 14 else if c = CHR ''F'' \<or> c = CHR ''f'' then 15
      else -1)"

text \<open>The loop reads two digits at a time; the caller has checked that the length is even.\<close>

fun base16_decode_loop :: "string \<Rightarrow> string \<Rightarrow> string option" where
  "base16_decode_loop dest (c1 # c2 # src) =
     (let v1 = hex_decode_digit c1; v2 = hex_decode_digit c2
      in if v1 < 0 \<or> v2 < 0 then None
         else base16_decode_loop (dest @ [char_of (push_bit 4 (nat v1) OR nat v2)]) src)"
| "base16_decode_loop dest _ = Some dest"

definition base16_decode :: "nat \<Rightarrow> string \<Rightarrow> string option" where
  "base16_decode destlen src =
     (if length src mod 2 \<noteq> 0 then None
      else if destlen < length src div 2 \<or> int destlen > INT_MAX then None
      else base16_decode_loop [] src)"

lemma base16_encode_loop_app: "base16_encode_loop cp s = cp @ base16_encode_loop [] s"
proof (induction s arbitrary: cp)
  case (Cons c s)
  show ?case
    using Cons [of "cp @ [hex_digits ! drop_bit 4 (of_char c), hex_digits ! (of_char c AND 15)]"]
      Cons [of "[hex_digits ! drop_bit 4 (of_char c), hex_digits ! (of_char c AND 15)]"]
    by simp
qed simp

lemma base16_encode_length: "length (base16_encode_loop cp s) = length cp + 2 * length s"
  by (induction s arbitrary: cp) simp_all

lemma hex_digit_decode:
  assumes "v < 16"
  shows "hex_decode_digit (hex_digits ! v) = int v"
proof -
  have "\<forall>v \<in> {..<16}. hex_decode_digit (hex_digits ! v) = int v"
    by (simp add: lessThan_nat_numeral lessThan_Suc hex_digits_def hex_decode_digit_def)
  with assms show ?thesis by simp
qed

text \<open>Characters that neither end a string nor separate words or lines.\<close>

definition plain_char :: "char \<Rightarrow> bool" where
  "plain_char c \<longleftrightarrow> c \<noteq> CHR '' '' \<and> c \<noteq> CHR 0x0A \<and> c \<noteq> CHR 0x00"

lemma hex_digit_plain:
  assumes "v < 16"
  shows "plain_char (hex_digits ! v)"
proof -
  have "\<forall>v \<in> {..<16}. plain_char (hex_digits ! v)"
    by (simp add: lessThan_nat_numeral lessThan_Suc hex_digits_def plain_char_def)
  with assms show ?thesis by simp
qed

lemma nibbles: "drop_bit 4 (of_char c :: nat) < 16" "(of_char c :: nat) AND 15 < 16"
  using of_char_less [of c] by (simp_all add: drop_bit_eq_div and_mask_mod less_mult_imp_div_less)

lemma base16_encode_plain:
  "list_all plain_char cp \<Longrightarrow> list_all plain_char (base16_encode_loop cp s)"
proof (induction s arbitrary: cp)
  case (Cons c s)
  have "plain_char (hex_digits ! drop_bit 4 (of_char c))" "plain_char (hex_digits ! (of_char c AND 15))"
    using nibbles [of c] by (auto intro: hex_digit_plain)
  with Cons.prems have "list_all plain_char
      (cp @ [hex_digits ! drop_bit 4 (of_char c), hex_digits ! (of_char c AND 15)])"
    by (simp only: list_all_append list.pred_inject simp_thms)
  then show ?case by (simp only: base16_encode_loop.simps) (rule Cons.IH)
qed simp

lemma base16_loop_roundtrip: "base16_decode_loop dest (base16_encode_loop [] s) = Some (dest @ s)"
proof (induction s arbitrary: dest)
  case Nil
  then show ?case by simp
next
  case (Cons c s)
  have "(of_char c :: nat) AND 15 < 2 ^ 4" using nibbles(2) [of c] by simp
  then have "push_bit 4 (drop_bit 4 (of_char c :: nat)) OR (of_char c AND 15) = of_char c"
    by (simp only: or_push_bit) (simp add: drop_bit_eq_div and_mask_mod)
  then have step: "base16_decode_loop dest
      ([hex_digits ! drop_bit 4 (of_char c), hex_digits ! (of_char c AND 15)] @ t)
      = base16_decode_loop (dest @ [c]) t" for t
    using nibbles [of c] by (simp add: hex_digit_decode Let_def)
  have "base16_encode_loop [] (c # s) =
      [hex_digits ! drop_bit 4 (of_char c), hex_digits ! (of_char c AND 15)] @ base16_encode_loop [] s"
    by (simp only: base16_encode_loop.simps append_Nil) (rule base16_encode_loop_app)
  with step Cons.IH [of "dest @ [c]"] show ?case by simp
qed

lemma base16_roundtrip:
  "base16_encode n s = Some t \<Longrightarrow> length s \<le> m \<Longrightarrow> m \<le> INT32_MAX \<Longrightarrow> base16_decode m t = Some s"
  by (auto simp: base16_encode_def base16_decode_def base16_encode_length base16_loop_roundtrip
      split: if_splits)

end
