(* ===== verification/Consdiff.thy ===== *)
theory Consdiff
  imports Consdiff_Ed_Correct Util_String Binascii
begin

text \<open>
  The outer layer of src/feature/dircommon/consdiff.c: the header of a diff with the digests of
  the two consensuses, \<open>consensus_diff_generate\<close>, \<open>consensus_diff_apply\<close>, and the part of a
  consensus that its digest covers (src/feature/dirparse/sigcommon.c, ns_parse.c).

  \<open>crypto_digest256\<close> with SHA3-256 comes from a cryptographic library: it is an argument, a
  function from bytes to the digest, or to \<open>None\<close> when it fails. NULL and error codes are \<open>None\<close>.
\<close>

section \<open>What a digest covers\<close>

abbreviation DIGEST256_LEN :: nat where "DIGEST256_LEN \<equiv> 32"
abbreviation HEX_DIGEST256_LEN :: nat where "HEX_DIGEST256_LEN \<equiv> 64"

text \<open>Offsets of the first byte and behind the last byte of the material to be hashed.\<close>

definition router_get_hash_impl_helper ::
    "string \<Rightarrow> string \<Rightarrow> string \<Rightarrow> char \<Rightarrow> (nat \<times> nat) option" where
  "router_get_hash_impl_helper s start_str end_str end_c =
     do { start \<leftarrow> tor_memstr s start_str;
          if start \<noteq> 0 \<and> s ! (start - 1) \<noteq> CHR 0x0A then None
          else do {
            let after = start + length start_str;
            e \<leftarrow> tor_memstr (drop after s) end_str;
            let end1 = after + e + length end_str;
            eol \<leftarrow> memchr (drop end1 s) end_c;
            Some (start, end1 + eol + 1) } }"

definition router_get_networkstatus_v3_signed_boundaries :: "string \<Rightarrow> (nat \<times> nat) option" where
  "router_get_networkstatus_v3_signed_boundaries s =
     router_get_hash_impl_helper s ''network-status-version''
       (CHR 0x0A # ''directory-signature'') (CHR '' '')"

definition router_get_networkstatus_v3_sha3_as_signed ::
    "(string \<Rightarrow> string option) \<Rightarrow> string \<Rightarrow> string option" where
  "router_get_networkstatus_v3_sha3_as_signed crypto_digest256 s =
     (let (start, end1) = (case router_get_networkstatus_v3_signed_boundaries s of
                             None \<Rightarrow> (0, length s) | Some b \<Rightarrow> b)
      in crypto_digest256 (take (end1 - start) (drop start s)))"

record consensus_digest =
  sha3_256 :: string

definition consensus_compute_digest ::
    "(string \<Rightarrow> string option) \<Rightarrow> string \<Rightarrow> consensus_digest option" where
  "consensus_compute_digest crypto_digest256 cons =
     map_option (\<lambda>d. \<lparr>sha3_256 = d\<rparr>) (crypto_digest256 cons)"

definition consensus_compute_digest_as_signed ::
    "(string \<Rightarrow> string option) \<Rightarrow> string \<Rightarrow> consensus_digest option" where
  "consensus_compute_digest_as_signed crypto_digest256 cons =
     map_option (\<lambda>d. \<lparr>sha3_256 = d\<rparr>)
       (router_get_networkstatus_v3_sha3_as_signed crypto_digest256 cons)"

definition consensus_digest_eq :: "string \<Rightarrow> string \<Rightarrow> bool" where
  "consensus_digest_eq d1 d2 = fast_memeq d1 d2 DIGEST256_LEN"

section \<open>A diff with its header\<close>

definition ns_diff_version :: string where
  "ns_diff_version = ''network-status-diff-version 1''"

definition hash_token :: string where
  "hash_token = ''hash''"

text \<open>The check that the script makes the target: equal lengths, then line by line.\<close>

fun same_lines :: "cdline list \<Rightarrow> cdline list \<Rightarrow> bool" where
  "same_lines (line1 # cons2) (line2 # ed_cons2) =
     (if \<not> lines_eq line1 line2 then False else same_lines cons2 ed_cons2)"
| "same_lines _ _ = True"

definition consdiff_gen_diff ::
    "cdline list \<Rightarrow> cdline list \<Rightarrow> consensus_digest \<Rightarrow> consensus_digest \<Rightarrow> cdline list option" where
  "consdiff_gen_diff cons1 cons2 digests1 digests2 =
     do { ed_diff \<leftarrow> gen_ed_diff cons1 cons2;
          ed_cons2 \<leftarrow> apply_ed_diff cons1 ed_diff 0;
          if \<not> (if length cons2 = length ed_cons2 then same_lines cons2 ed_cons2 else False) then None
          else do {
            cons1_hash_hex \<leftarrow> base16_encode (HEX_DIGEST256_LEN + 1) (take DIGEST256_LEN (sha3_256 digests1));
            cons2_hash_hex \<leftarrow> base16_encode (HEX_DIGEST256_LEN + 1) (take DIGEST256_LEN (sha3_256 digests2));
            let result = smartlist_add [] ns_diff_version;
            let result = smartlist_add result
              (hash_token @ '' '' @ cons1_hash_hex @ '' '' @ cons2_hash_hex);
            Some (smartlist_add_all result ed_diff) } }"

text \<open>The digests in the header, or \<open>None\<close> where the code returns 1.\<close>

definition consdiff_get_digests :: "cdline list \<Rightarrow> (string \<times> string) option" where
  "consdiff_get_digests diff =
     (if length diff < 2 then None
      else if \<not> line_str_eq (diff ! 0) ns_diff_version then None
      else do {
        (hash_words, _) \<leftarrow> smartlist_split_string [] (c_string (diff ! 1)) (Some '' '') 0 4;
        if length hash_words \<noteq> 3 \<or> hash_words ! 0 \<noteq> hash_token then None
        else let cons1_hash_hex = hash_words ! 1; cons2_hash_hex = hash_words ! 2
             in if length cons1_hash_hex \<noteq> HEX_DIGEST256_LEN
                   \<or> length cons2_hash_hex \<noteq> HEX_DIGEST256_LEN then None
                else do {
                  cons1_hash \<leftarrow> base16_decode DIGEST256_LEN cons1_hash_hex;
                  cons2_hash \<leftarrow> base16_decode DIGEST256_LEN cons2_hash_hex;
                  if length cons1_hash \<noteq> DIGEST256_LEN \<or> length cons2_hash \<noteq> DIGEST256_LEN then None
                  else Some (cons1_hash, cons2_hash) } })"

definition consdiff_apply_diff ::
    "(string \<Rightarrow> string option) \<Rightarrow> cdline list \<Rightarrow> cdline list \<Rightarrow> consensus_digest \<Rightarrow> string option" where
  "consdiff_apply_diff crypto_digest256 cons1 diff digests1 =
     do { (e_cons1_hash, e_cons2_hash) \<leftarrow> consdiff_get_digests diff;
          if \<not> consensus_digest_eq (sha3_256 digests1) e_cons1_hash then None
          else do {
            cons2 \<leftarrow> apply_ed_diff cons1 diff 2;
            let cons2_str = consensus_join_lines cons2;
            cons2_digests \<leftarrow> consensus_compute_digest crypto_digest256 (c_string cons2_str);
            if \<not> consensus_digest_eq (sha3_256 cons2_digests) e_cons2_hash then None
            else Some cons2_str } }"

definition consensus_diff_generate ::
    "(string \<Rightarrow> string option) \<Rightarrow> string \<Rightarrow> string \<Rightarrow> string option" where
  "consensus_diff_generate crypto_digest256 cons1 cons2 =
     do { d1 \<leftarrow> consensus_compute_digest_as_signed crypto_digest256 cons1;
          d2 \<leftarrow> consensus_compute_digest crypto_digest256 cons2;
          lines1 \<leftarrow> consensus_split_lines [] cons1;
          lines2 \<leftarrow> consensus_split_lines [] cons2;
          result_lines \<leftarrow> consdiff_gen_diff lines1 lines2 d1 d2;
          Some (consensus_join_lines result_lines) }"

text \<open>
  The result is handed out as a NUL-terminated string: the text that its readers see ends at the
  first NUL.
\<close>

definition consensus_diff_apply ::
    "(string \<Rightarrow> string option) \<Rightarrow> string \<Rightarrow> string \<Rightarrow> string option" where
  "consensus_diff_apply crypto_digest256 consensus diff =
     do { d1 \<leftarrow> consensus_compute_digest_as_signed crypto_digest256 consensus;
          lines1 \<leftarrow> consensus_split_lines [] consensus;
          lines2 \<leftarrow> consensus_split_lines [] diff;
          consdiff_apply_diff crypto_digest256 lines1 lines2 d1 }"

definition looks_like_a_consensus_diff :: "string \<Rightarrow> bool" where
  "looks_like_a_consensus_diff document =
     (length document \<ge> length ns_diff_version
      \<and> fast_memeq document ns_diff_version (length ns_diff_version))"

section \<open>The header\<close>

lemma same_lines_iff: "length a = length b \<Longrightarrow> same_lines a b \<longleftrightarrow> a = b"
  by (induction a b rule: same_lines.induct) auto

text \<open>A string with one space cut at it; the limit on the number of words is not reached.\<close>

lemma split_space_last:
  "n \<noteq> 3 \<Longrightarrow> CHR '' '' \<notin> set w \<Longrightarrow> split_loop (Some '' '') 0 4 sl w n = Some (sl @ [w], n + 1)"
  using memchr_None [of w "CHR '' ''"]
  by (subst split_loop.simps)
     (simp add: word_end_def next_word_def smartlist_add_def split_flags first_match_char)

lemma split_space_step:
  "n \<noteq> 3 \<Longrightarrow> CHR '' '' \<notin> set w \<Longrightarrow>
     split_loop (Some '' '') 0 4 sl (w @ CHR '' '' # s) n = split_loop (Some '' '') 0 4 (sl @ [w]) s (n + 1)"
  by (subst split_loop.simps)
     (simp add: word_end_def next_word_def smartlist_add_def split_flags first_match_char memchr_append)

lemma split_three:
  assumes "CHR '' '' \<notin> set a" "CHR '' '' \<notin> set b" "CHR '' '' \<notin> set c"
  shows "smartlist_split_string [] (a @ CHR '' '' # b @ CHR '' '' # c) (Some '' '') 0 4 = Some ([a, b, c], 3)"
  using assms by (simp add: smartlist_split_string_def split_space_step split_space_last)

definition diff_header :: "string \<Rightarrow> string \<Rightarrow> cdline list" where
  "diff_header h1 h2 = [ns_diff_version, hash_token @ '' '' @ h1 @ '' '' @ h2]"

lemma plain_no_special:
  "list_all plain_char h \<Longrightarrow> CHR '' '' \<notin> set h \<and> CHR 0x0A \<notin> set h \<and> CHR 0x00 \<notin> set h"
  by (auto simp: list_all_iff plain_char_def)

lemma hex_digest:
  assumes "base16_encode (HEX_DIGEST256_LEN + 1) d = Some h" "length d = DIGEST256_LEN"
  shows "length h = HEX_DIGEST256_LEN" "list_all plain_char h" "base16_decode DIGEST256_LEN h = Some d"
proof -
  from assms(1) have h: "h = base16_encode_loop [] d"
    by (auto simp: base16_encode_def split: if_splits)
  show "length h = HEX_DIGEST256_LEN" using h assms(2) by (simp add: base16_encode_length)
  show "list_all plain_char h" using h base16_encode_plain [of "[]" d] by simp
  show "base16_decode DIGEST256_LEN h = Some d" by (rule base16_roundtrip [OF assms(1)]) (simp_all add: assms(2))
qed

lemma get_digests_header:
  assumes "base16_encode (HEX_DIGEST256_LEN + 1) d1 = Some h1" "length d1 = DIGEST256_LEN"
    and "base16_encode (HEX_DIGEST256_LEN + 1) d2 = Some h2" "length d2 = DIGEST256_LEN"
  shows "consdiff_get_digests (diff_header h1 h2 @ ed) = Some (d1, d2)"
proof -
  note h1 = hex_digest [OF assms(1,2)] and h2 = hex_digest [OF assms(3,4)]
  note p1 = plain_no_special [OF h1(2)] and p2 = plain_no_special [OF h2(2)]
  have c: "c_string (hash_token @ '' '' @ h1 @ '' '' @ h2) = hash_token @ CHR '' '' # h1 @ CHR '' '' # h2"
    using p1 p2 by (subst c_string_id) (auto simp: hash_token_def)
  have "smartlist_split_string [] (c_string (hash_token @ '' '' @ h1 @ '' '' @ h2)) (Some '' '') 0 4
      = Some ([hash_token, h1, h2], 3)"
    unfolding c using p1 p2 by (intro split_three) (simp_all add: hash_token_def)
  then show ?thesis using h1(1,3) h2(1,3) assms(2,4)
    by (simp add: consdiff_get_digests_def diff_header_def)
qed

section \<open>Generating and applying\<close>

lemma consdiff_gen_diff_Some:
  assumes "consdiff_gen_diff cons1 cons2 d1 d2 = Some r"
    and "length (sha3_256 d1) = DIGEST256_LEN" "length (sha3_256 d2) = DIGEST256_LEN"
  obtains ed h1 h2 where "gen_ed_diff cons1 cons2 = Some ed" "apply_ed_diff cons1 ed 0 = Some cons2"
    "base16_encode (HEX_DIGEST256_LEN + 1) (sha3_256 d1) = Some h1"
    "base16_encode (HEX_DIGEST256_LEN + 1) (sha3_256 d2) = Some h2"
    "r = diff_header h1 h2 @ ed"
  using assms
  by (auto simp: consdiff_gen_diff_def bind_eq_Some_conv diff_header_def smartlist_add_def
      smartlist_add_all_def same_lines_iff split: if_splits)

lemma apply_after_header: "apply_ed_diff cons (diff_header h1 h2 @ ed) 2 = apply_ed_diff cons ed 0"
  by (simp add: apply_ed_diff_def diff_header_def)

text \<open>The lines of a generated diff are lines that a document can hold.\<close>

lemma newline_not_digit: "CHR 0x0A \<notin> set (show_dec n)"
  using show_dec_digits [of "CHR 0x0A" n] by (auto simp: TOR_ISDIGIT_def)

lemma script_document_lines:
  assumes "document_lines target"
  shows "\<forall>l \<in> script_lines target. CHR 0x0A \<notin> set l \<and> int (length l) \<le> CONSENSUS_LINE_MAX_LEN"
proof
  fix l assume "l \<in> script_lines target"
  then consider "l \<in> set target" | "l = ''.''"
    | b d a where "l = ed_command b (int d) (int a)" "b + d \<le> INT32_MAX" "0 < d \<or> 0 < a"
    by (auto simp: script_lines_def)
  then show "CHR 0x0A \<notin> set l \<and> int (length l) \<le> CONSENSUS_LINE_MAX_LEN"
  proof cases
    case 3
    with ed_command_line(1) [OF 3(2,3)] newline_not_digit show ?thesis
      by (auto simp: ed_command_def)
  qed (use assms in \<open>auto simp: document_lines_def\<close>)
qed

lemma diff_document_lines:
  assumes "gen_ed_diff base target = Some ed" "length base \<le> INT32_MAX" "document_lines target"
    and "base16_encode (HEX_DIGEST256_LEN + 1) d1 = Some h1" "length d1 = DIGEST256_LEN"
    and "base16_encode (HEX_DIGEST256_LEN + 1) d2 = Some h2" "length d2 = DIGEST256_LEN"
  shows "document_lines (diff_header h1 h2 @ ed)"
proof -
  from gen_ed_diff_script [OF assms(1,2)] obtain n ds where
    d: "n = length base - trailer_length base"
      "ed = (if trailer_length base = 0 then [] else [show_dec (n + 1) @ '',$d'']) @ ds"
      "set ds \<subseteq> script_lines target" by blast
  have "document_lines ds"
    using script_document_lines [OF assms(3)] d(3) unfolding document_lines_def by blast
  moreover have "trailer_length base \<noteq> 0 \<Longrightarrow> length (show_dec (n + 1)) \<le> 10"
    using d(1) assms(2) by (intro show_dec_line_number) (auto simp: trailer_length_def split: if_splits)
  moreover have "document_lines (diff_header h1 h2)"
    using plain_no_special [OF hex_digest(2) [OF assms(4,5)]] plain_no_special [OF hex_digest(2) [OF assms(6,7)]]
      hex_digest(1) [OF assms(4,5)] hex_digest(1) [OF assms(6,7)]
    by (auto simp: document_lines_def diff_header_def ns_diff_version_def hash_token_def)
  ultimately show ?thesis using newline_not_digit [of "n + 1"]
    by (auto simp: document_lines_def d(2))
qed

lemma length_split_lines: "consensus_split_lines [] s = Some ls \<Longrightarrow> length ls \<le> length s"
proof -
  assume "consensus_split_lines [] s = Some ls"
  then have "s = concat (map (\<lambda>l. l @ [CHR 0x0A]) ls)"
    by (simp add: consensus_split_join consensus_join_concat)
  moreover have "length ls \<le> length (concat (map (\<lambda>l. l @ [CHR 0x0A]) ls))" by (induction ls) auto
  ultimately show ?thesis by simp
qed

lemma digest_eq_refl [simp]: "consensus_digest_eq d d"
  by (simp add: consensus_digest_eq_def fast_memeq_def)

lemma digest_eq_iff:
  "length a = DIGEST256_LEN \<Longrightarrow> length b = DIGEST256_LEN \<Longrightarrow> consensus_digest_eq a b \<longleftrightarrow> a = b"
  by (simp add: consensus_digest_eq_def fast_memeq_def)

section \<open>Properties\<close>

text \<open>A digest function for evaluating examples.\<close>

definition example_digest :: "string \<Rightarrow> string option" where
  "example_digest s = Some (take 32 (s @ replicate 32 (CHR ''A'')))"

definition example_base :: string where
  "example_base = ''a'' @ [CHR 0x0A] @ ''b'' @ [CHR 0x0A]"

definition example_target :: string where
  "example_target = ''a'' @ [CHR 0x0A] @ ''c'' @ [CHR 0x0A] @ ''d'' @ [CHR 0x0A]"

lemma example_digest_length: "example_digest s = Some d \<Longrightarrow> length d = 32"
  by (auto simp: example_digest_def)

text \<open>C13: A diff that is generated for two consensuses, applied to the first one, gives back the
  second one byte by byte, whatever digest function is used. (The target has no NUL; the length
  bound is that of an int.)\<close>

theorem consensus_diff_roundtrip:
  assumes gen: "consensus_diff_generate digest c1 c2 = Some diff"
    and nul: "CHR 0x00 \<notin> set c2" and len: "int (length c1) \<le> INT_MAX"
    and digest_len: "\<forall>s d. digest s = Some d \<longrightarrow> length d = 32"
  shows "consensus_diff_apply digest c1 diff = Some c2"
proof -
  from gen obtain d1 d2 l1 l2 r where
    d: "consensus_compute_digest_as_signed digest c1 = Some d1" "consensus_compute_digest digest c2 = Some d2" and
    l: "consensus_split_lines [] c1 = Some l1" "consensus_split_lines [] c2 = Some l2" and
    r: "consdiff_gen_diff l1 l2 d1 d2 = Some r" "diff = consensus_join_lines r"
    by (auto simp: consensus_diff_generate_def bind_eq_Some_conv)
  have dl: "length (sha3_256 d1) = 32" "length (sha3_256 d2) = 32"
    using d digest_len by (auto simp: consensus_compute_digest_as_signed_def consensus_compute_digest_def
        router_get_networkstatus_v3_sha3_as_signed_def Let_def split: prod.splits)
  from consdiff_gen_diff_Some [OF r(1) dl] obtain ed h1 h2 where
    e: "gen_ed_diff l1 l2 = Some ed" "apply_ed_diff l1 ed 0 = Some l2"
      "base16_encode (HEX_DIGEST256_LEN + 1) (sha3_256 d1) = Some h1"
      "base16_encode (HEX_DIGEST256_LEN + 1) (sha3_256 d2) = Some h2" "r = diff_header h1 h2 @ ed"
    by blast
  have n: "length l1 \<le> INT32_MAX" using length_split_lines [OF l(1)] len by simp
  have l2: "document_lines l2" "consensus_join_lines l2 = c2" using l(2) by (simp_all add: consensus_split_join)
  have "document_lines r" using diff_document_lines [OF e(1) n l2(1) e(3) dl(1) e(4) dl(2)] e(5) by simp
  then have "consensus_split_lines [] diff = Some r" using r(2) by (simp add: consensus_split_join)
  with d l e l2 nul show ?thesis
    by (simp add: consensus_diff_apply_def consdiff_apply_diff_def get_digests_header [OF e(3) dl(1) e(4) dl(2)]
        apply_after_header c_string_id)
qed

lemma consensus_diff_roundtrip_witness:
  "consensus_diff_apply example_digest example_base
     (the (consensus_diff_generate example_digest example_base example_target)) = Some example_target"
proof (rule consensus_diff_roundtrip)
  have "consensus_diff_generate example_digest example_base example_target \<noteq> None" by code_simp
  then show "consensus_diff_generate example_digest example_base example_target
      = Some (the (consensus_diff_generate example_digest example_base example_target))" by simp
  show "CHR 0x00 \<notin> set example_target" "int (length example_base) \<le> INT_MAX"
    by (simp_all add: example_target_def example_base_def)
  show "\<forall>s d. example_digest s = Some d \<longrightarrow> length d = 32" using example_digest_length by blast
qed

text \<open>C14: Applying a diff yields nothing that the digests in its header do not vouch for: the signed
  part of the base has the first digest, and the text that comes out has the second.\<close>

theorem consensus_diff_apply_authentic:
  assumes "consensus_diff_apply digest c1 diff = Some r"
    and digest_len: "\<forall>s d. digest s = Some d \<longrightarrow> length d = 32"
  shows "\<exists>lines h1 h2. consensus_split_lines [] diff = Some lines
    \<and> consdiff_get_digests lines = Some (h1, h2)
    \<and> router_get_networkstatus_v3_sha3_as_signed digest c1 = Some h1
    \<and> digest (c_string r) = Some h2"
proof -
  from assms(1) obtain d1 l1 l2 e1 e2 d2 where
    "consensus_compute_digest_as_signed digest c1 = Some d1" "consensus_split_lines [] diff = Some l2"
    "consdiff_get_digests l2 = Some (e1, e2)" "consensus_digest_eq (sha3_256 d1) e1"
    "consensus_compute_digest digest (c_string r) = Some d2" "consensus_digest_eq (sha3_256 d2) e2"
    by (auto simp: consensus_diff_apply_def consdiff_apply_diff_def bind_eq_Some_conv Let_def split: if_splits)
  moreover from this(3) have "length e1 = 32" "length e2 = 32"
    by (auto simp: consdiff_get_digests_def bind_eq_Some_conv Let_def split: if_splits)
  ultimately show ?thesis using digest_len
    by (auto simp: consensus_compute_digest_as_signed_def consensus_compute_digest_def digest_eq_iff
        router_get_networkstatus_v3_sha3_as_signed_def Let_def split: prod.splits)
qed

lemma consensus_diff_apply_authentic_witness:
  "\<exists>lines h1 h2. consensus_split_lines []
       (the (consensus_diff_generate example_digest example_base example_target)) = Some lines
    \<and> consdiff_get_digests lines = Some (h1, h2)
    \<and> router_get_networkstatus_v3_sha3_as_signed example_digest example_base = Some h1
    \<and> example_digest (c_string example_target) = Some h2"
proof (rule consensus_diff_apply_authentic)
  show "consensus_diff_apply example_digest example_base
      (the (consensus_diff_generate example_digest example_base example_target)) = Some example_target"
    by code_simp
  show "\<forall>s d. example_digest s = Some d \<longrightarrow> length d = 32" using example_digest_length by blast
qed

text \<open>The script that gen_ed_diff writes makes the target out of the base, so the check that
  consdiff_gen_diff makes afterwards cannot fail. The exception is a base whose signature section
  is one line long.\<close>

theorem gen_ed_diff_correct:
  assumes "gen_ed_diff base target = Some script" "int (length base) \<le> INT_MAX" "trailer_length base \<noteq> 1"
  shows "apply_ed_diff base script 0 = Some target"
  using gen_ed_diff_rebuilds [OF assms(1) _ assms(3)] assms(2) by simp

lemma gen_ed_diff_correct_witness:
  "apply_ed_diff [''a'', ''r x AAA'', ''b'', ''directory-signature q'', ''s''] [''4,$d'', ''3c'', ''c'', ''d'', ''.'', ''1d''] 0
     = Some [''r x AAA'', ''c'', ''d'']"
  by (rule gen_ed_diff_correct; code_simp)

text \<open>On a base whose signature section is one line long (its line N, the last) the script starts
  with the command N,$d, which apply_ed_diff rejects because the range is not increasing: no diff
  can be generated from such a base.\<close>

theorem one_line_trailer_no_diff:
  assumes "gen_ed_diff base target = Some script" "int (length base) \<le> INT_MAX" "trailer_length base = 1"
  shows "apply_ed_diff base script 0 = None \<and> consdiff_gen_diff base target d1 d2 = None"
proof -
  from gen_ed_diff_script [OF assms(1)] assms(2,3) obtain ds where
    d: "script = (show_dec (length base - 1 + 1) @ '',$d'') # ds" by auto
  have "length base \<noteq> 0" using assms(3) by (auto simp: trailer_length_def split: if_splits)
  with d have d: "script = (show_dec (length base) @ '',$d'') # ds" by simp
  have "get_linenum (show_dec (length base) @ '',$d'') = Some (int (length base), '',$d'')"
    using assms(2) by (intro get_linenum_command) (simp_all add: decimal_simps)
  then have "parse_ed_command (int (length base)) (int (length base)) (show_dec (length base) @ '',$d'') = None"
    by (simp add: parse_ed_command_def)
  moreover have "c_string (show_dec (length base) @ '',$d'') = show_dec (length base) @ '',$d''"
    using show_dec_no_NUL by (intro c_string_id) auto
  ultimately have "apply_ed_diff base script 0 = None"
    unfolding d by (simp add: apply_ed_diff_def apply_loop.simps(2))
  with assms(1) show ?thesis by (simp add: consdiff_gen_diff_def)
qed

lemma one_line_trailer_no_diff_witness:
  "apply_ed_diff [''a'', ''directory-signature q''] [''2,$d'', ''1a'', ''b'', ''.''] 0 = None
   \<and> consdiff_gen_diff [''a'', ''directory-signature q''] [''a'', ''b''] \<lparr>sha3_256 = []\<rparr> \<lparr>sha3_256 = []\<rparr> = None"
  by (rule one_line_trailer_no_diff; code_simp)

text \<open>C29: calc_changes marks lines so that the unmarked lines of the two slices are one and the same
  sequence, and no common subsequence of the two slices is longer: the diff is minimal. No
  assertion fails on the way, and flags outside the slices are left alone.\<close>

theorem calc_changes_longest:
  assumes "slice_wf s1" "slice_wf s2"
    and "ch1 = p1 @ replicate (s_len s1) False @ q1" "length p1 = s_offset s1"
    and "ch2 = p2 @ replicate (s_len s2) False @ q2" "length p2 = s_offset s2"
  shows "\<exists>f1 f2. calc_changes s1 s2 ch1 ch2 = Some (p1 @ f1 @ q1, p2 @ f2 @ q2)
    \<and> length f1 = s_len s1 \<and> length f2 = s_len s2
    \<and> kept (slice_lines s1) f1 = kept (slice_lines s2) f2
    \<and> (\<forall>zs. subseq zs (slice_lines s1) \<longrightarrow> subseq zs (slice_lines s2) \<longrightarrow>
           length zs \<le> length (kept (slice_lines s1) f1))"
proof -
  from calc_changes_correct [OF assms] obtain f1 f2 where
    f: "calc_changes s1 s2 ch1 ch2 = Some (p1 @ f1 @ q1, p2 @ f2 @ q2)"
      "marks (slice_lines s1) (slice_lines s2) f1 f2" by blast
  have "length zs \<le> length (kept (slice_lines s1) f1)"
    if "subseq zs (slice_lines s1)" "subseq zs (slice_lines s2)" for zs
    using f(2) lcs_len_upper [OF that] by (metis marks_def)
  with f assms(1,2) show ?thesis by (auto simp: marks_def)
qed

definition example_slice1 :: slice where
  "example_slice1 = \<lparr>s_list = [''a'', ''b'', ''c''], s_offset = 1, s_len = 2\<rparr>"

definition example_slice2 :: slice where
  "example_slice2 = \<lparr>s_list = [''c''], s_offset = 0, s_len = 1\<rparr>"

lemma calc_changes_longest_witness:
  "\<exists>f1 f2. calc_changes example_slice1 example_slice2 [False, False, False] [False]
      = Some ([False] @ f1 @ [], [] @ f2 @ [])
    \<and> length f1 = s_len example_slice1 \<and> length f2 = s_len example_slice2
    \<and> kept (slice_lines example_slice1) f1 = kept (slice_lines example_slice2) f2
    \<and> (\<forall>zs. subseq zs (slice_lines example_slice1) \<longrightarrow> subseq zs (slice_lines example_slice2) \<longrightarrow>
           length zs \<le> length (kept (slice_lines example_slice1) f1))"
  by (rule calc_changes_longest)
     (simp_all add: slice_wf_def example_slice1_def example_slice2_def numeral_2_eq_2)

text \<open>Cutting a document into lines and joining them are inverse to each other: cutting succeeds
  exactly on the documents made by joining lines that hold no newline and are not too long.\<close>

theorem consensus_lines_roundtrip:
  "consensus_split_lines [] s = Some ls \<longleftrightarrow>
     (\<forall>l \<in> set ls. CHR 0x0A \<notin> set l \<and> int (length l) \<le> CONSENSUS_LINE_MAX_LEN)
     \<and> s = consensus_join_lines ls"
  by (simp add: consensus_split_join document_lines_def)

lemma consensus_lines_roundtrip_witness:
  "consensus_split_lines [] example_base = Some [''a'', ''b'']"
  by (subst consensus_lines_roundtrip) (simp add: example_base_def consensus_join_concat)

end
