(* ===== verification/Base64.thy ===== *)
theory Base64
  imports Binascii
begin

text \<open>
  Base 64 of src/lib/encoding/binascii.c: \<open>base64_encode\<close> (with its multiline format),
  \<open>base64_encode_nopad\<close> and \<open>base64_decode\<close>. The accumulator \<open>n\<close> never holds more than 24 bits, so
  its width does not show and it is a natural number. The lemmas relate the encoder to a
  recursion over groups of three bytes and show that decoding undoes encoding.
\<close>

section \<open>Encoding\<close>

definition BASE64_ENCODE_MULTILINE :: nat where "BASE64_ENCODE_MULTILINE = 1"

abbreviation BASE64_OPENSSL_LINELEN :: nat where "BASE64_OPENSSL_LINELEN \<equiv> 64"

definition CEIL_DIV :: "nat \<Rightarrow> nat \<Rightarrow> nat" where
  "CEIL_DIV a b = (a + (b - 1)) div b"

definition base64_encode_size :: "nat \<Rightarrow> nat \<Rightarrow> nat option" where
  "base64_encode_size srclen flags =
     (if \<not> int srclen < INT_MAX then None
      else if \<not> int (CEIL_DIV srclen 3) < INT_MAX div 4 then None
      else let enclen = CEIL_DIV srclen 3 * 4;
               enclen = (if flags AND BASE64_ENCODE_MULTILINE \<noteq> 0
                         then enclen + CEIL_DIV enclen BASE64_OPENSSL_LINELEN else enclen)
           in if \<not> (int enclen < INT_MAX \<and> (enclen = 0 \<or> enclen > srclen)) then None
              else Some enclen)"

definition base64_encode_table :: string where
  "base64_encode_table = ''ABCDEFGHIJKLMNOPQRSTUVWXYZabcdefghijklmnopqrstuvwxyz0123456789+/''"

text \<open>The macros work on the text so far and the length of its last line.\<close>

definition ENCODE_CHAR :: "nat \<Rightarrow> char \<Rightarrow> string \<times> nat \<Rightarrow> string \<times> nat" where
  "ENCODE_CHAR flags ch = (\<lambda>(d, linelen).
     let d = d @ [ch]
     in if flags AND BASE64_ENCODE_MULTILINE \<noteq> 0
        then let linelen = linelen + 1
             in if linelen mod BASE64_OPENSSL_LINELEN = 0 then (d @ [CHR 0x0A], 0) else (d, linelen)
        else (d, linelen))"

definition ENCODE_N :: "nat \<Rightarrow> nat \<Rightarrow> nat \<Rightarrow> string \<times> nat \<Rightarrow> string \<times> nat" where
  "ENCODE_N flags n idx =
     ENCODE_CHAR flags (base64_encode_table ! (drop_bit ((3 - idx) * 6) n AND 0x3f))"

definition ENCODE_PAD :: "nat \<Rightarrow> string \<times> nat \<Rightarrow> string \<times> nat" where
  "ENCODE_PAD flags = ENCODE_CHAR flags (CHR ''='')"

fun base64_encode_loop ::
    "nat \<Rightarrow> string \<Rightarrow> nat \<Rightarrow> nat \<Rightarrow> string \<times> nat \<Rightarrow> nat \<times> nat \<times> string \<times> nat" where
  "base64_encode_loop flags [] n n_idx st = (n, n_idx, st)"
| "base64_encode_loop flags (c # usrc) n n_idx st =
     (let n = push_bit 8 n OR of_char c
      in if n_idx + 1 = 3
         then base64_encode_loop flags usrc 0 0
                (ENCODE_N flags n 3 (ENCODE_N flags n 2 (ENCODE_N flags n 1 (ENCODE_N flags n 0 st))))
         else base64_encode_loop flags usrc n (n_idx + 1) st)"

text \<open>The \<open>switch\<close> over the leftover bytes.\<close>

definition base64_encode_rest :: "nat \<Rightarrow> nat \<Rightarrow> nat \<Rightarrow> string \<times> nat \<Rightarrow> (string \<times> nat) option" where
  "base64_encode_rest flags n n_idx st =
     (if n_idx = 0 then Some st
      else if n_idx = 1 then
        let n = push_bit 4 n
        in Some (ENCODE_PAD flags (ENCODE_PAD flags (ENCODE_N flags n 3 (ENCODE_N flags n 2 st))))
      else if n_idx = 2 then
        let n = push_bit 2 n
        in Some (ENCODE_PAD flags (ENCODE_N flags n 3 (ENCODE_N flags n 2 (ENCODE_N flags n 1 st))))
      else None)"

definition base64_encode :: "nat \<Rightarrow> string \<Rightarrow> nat \<Rightarrow> string option" where
  "base64_encode destlen src flags =
     (case base64_encode_size (length src) flags of
        None \<Rightarrow> None
      | Some enclen \<Rightarrow>
          if destlen < enclen + 1 then None
          else if int destlen > SIZE_T_CEILING then None
          else if int enclen > INT_MAX then None
          else case base64_encode_loop flags src 0 0 ([], 0) of (n, n_idx, st) \<Rightarrow>
            case base64_encode_rest flags n n_idx st of
              None \<Rightarrow> None
            | Some (d, linelen) \<Rightarrow>
                let d = (if flags AND BASE64_ENCODE_MULTILINE \<noteq> 0 \<and> linelen \<noteq> 0
                         then d @ [CHR 0x0A] else d)
                in if length d = enclen then Some d else None)"

text \<open>Squeeze out padding and newlines.\<close>

fun strip_pad :: "string \<Rightarrow> string" where
  "strip_pad [] = []"
| "strip_pad (c # s) = (if c = CHR ''='' \<or> c = CHR 0x0A then strip_pad s else c # strip_pad s)"

definition base64_encode_nopad :: "nat \<Rightarrow> string \<Rightarrow> string option" where
  "base64_encode_nopad destlen src = map_option strip_pad (base64_encode destlen src 0)"

section \<open>Decoding\<close>

definition base64_decode_table :: "nat list" where
  "base64_decode_table =
   [255, 255, 255, 255, 255, 255, 255, 255, 255, 64, 64, 64, 255, 64, 255, 255,
    255, 255, 255, 255, 255, 255, 255, 255, 255, 255, 255, 255, 255, 255, 255, 255,
    64, 255, 255, 255, 255, 255, 255, 255, 255, 255, 255, 62, 255, 255, 255, 63,
    52, 53, 54, 55, 56, 57, 58, 59, 60, 61, 255, 255, 255, 65, 255, 255,
    255, 0, 1, 2, 3, 4, 5, 6, 7, 8, 9, 10, 11, 12, 13, 14,
    15, 16, 17, 18, 19, 20, 21, 22, 23, 24, 25, 255, 255, 255, 255, 255,
    255, 26, 27, 28, 29, 30, 31, 32, 33, 34, 35, 36, 37, 38, 39, 40,
    41, 42, 43, 44, 45, 46, 47, 48, 49, 50, 51, 255, 255, 255, 255, 255]
   @ replicate 128 255"

text \<open>The \<open>switch\<close> over the leftover bits; an assignment to a \<open>char\<close> keeps the low 8 bits.\<close>

definition base64_decode_rest :: "nat \<Rightarrow> string \<Rightarrow> nat \<Rightarrow> nat \<Rightarrow> string option" where
  "base64_decode_rest destlen dest n n_idx =
     (if n_idx = 1 then None
      else if n_idx = 2 then
        if destlen < 1 \<or> length dest > destlen - 1 then None
        else Some (dest @ [char_of (drop_bit 4 n)])
      else if n_idx = 3 then
        if destlen < 2 \<or> length dest > destlen - 2 then None
        else Some (dest @ [char_of (drop_bit 10 n), char_of (drop_bit 2 n)])
      else Some dest)"

fun base64_decode_loop :: "nat \<Rightarrow> string \<Rightarrow> string \<Rightarrow> nat \<Rightarrow> nat \<Rightarrow> string option" where
  "base64_decode_loop destlen [] dest n n_idx = base64_decode_rest destlen dest n n_idx"
| "base64_decode_loop destlen (c # src) dest n n_idx =
     (let v = base64_decode_table ! of_char c
      in if v = 255 then None
         else if v = 64 then base64_decode_loop destlen src dest n n_idx
         else if v = 65 then base64_decode_rest destlen dest n n_idx
         else let n = push_bit 6 n OR v
              in if n_idx + 1 = 4
                 then if destlen < 3 \<or> length dest > destlen - 3 then None
                      else base64_decode_loop destlen src
                             (dest @ [char_of (drop_bit 16 n), char_of (drop_bit 8 n AND 0xff),
                                      char_of (n AND 0xff)]) 0 0
                 else base64_decode_loop destlen src dest n (n_idx + 1))"

definition base64_decode :: "nat \<Rightarrow> string \<Rightarrow> string option" where
  "base64_decode destlen src =
     (if int destlen > INT_MAX then None
      else base64_decode_loop destlen src [] 0 0)"

section \<open>Groups of three bytes\<close>

abbreviation sextet :: "nat \<Rightarrow> char" where
  "sextet v \<equiv> base64_encode_table ! v"

definition three_byte_value :: "char \<Rightarrow> char \<Rightarrow> char \<Rightarrow> nat" where
  "three_byte_value a b c = 65536 * of_char a + of_char b * 256 + of_char c"

text \<open>The code without line breaks.\<close>

fun base64_groups :: "string \<Rightarrow> string" where
  "base64_groups [] = []"
| "base64_groups [a] =
     (let n = of_char a in [sextet (n div 4), sextet (n mod 4 * 16), CHR ''='', CHR ''=''])"
| "base64_groups [a, b] =
     (let n = of_char a * 256 + of_char b
      in [sextet (n div 1024), sextet (n div 16 mod 64), sextet (n mod 16 * 4), CHR ''=''])"
| "base64_groups (a # b # c # s) =
     (let n = three_byte_value a b c
      in sextet (n div 262144) # sextet (n div 4096 mod 64) # sextet (n div 64 mod 64)
         # sextet (n mod 64) # base64_groups s)"

abbreviation emit :: "nat \<Rightarrow> string \<Rightarrow> string \<times> nat \<Rightarrow> string \<times> nat" where
  "emit flags es st \<equiv> fold (ENCODE_CHAR flags) es st"

lemma ENCODE_N_emit: "ENCODE_N flags n i st = emit flags [sextet (n div 64 ^ (3 - i) mod 64)] st"
  by (simp add: ENCODE_N_def and_mask_mod drop_bit_eq_div mult.commute [of _ 6] power_mult)

lemma push_byte: "push_bit 8 n OR of_char c = n * 256 + (of_char c :: nat)"
  using or_push_bit [of "of_char c" 8 n] of_char_less [of c] by simp

lemma push_pad: "push_bit 4 (n :: nat) = n * 16" "push_bit 2 (n :: nat) = n * 4"
  by (simp_all add: push_bit_eq_mult)

lemma two_bytes: "of_char a * 256 + of_char b < (65536 :: nat)"
  using of_char_less [of a] of_char_less [of b] by linarith

lemma three_bytes: "three_byte_value a b c < 16777216"
  unfolding three_byte_value_def using of_char_less [of a] of_char_less [of b] of_char_less [of c]
  by linarith

lemma encode_loop_groups:
  "(case base64_encode_loop flags s 0 0 st of (n, n_idx, st') \<Rightarrow> base64_encode_rest flags n n_idx st')
     = Some (emit flags (base64_groups s) st)"
proof (induction s arbitrary: st rule: base64_groups.induct)
  case 1
  then show ?case by (simp add: base64_encode_rest_def)
next
  case (2 a)
  have "(of_char a :: nat) div 4 < 64" using of_char_less [of a] by linarith
  moreover have "of_char a * 16 mod 64 = of_char a mod (4::nat) * 16"
    using mod_mult_mult2 [of "of_char a :: nat" 16 4] by simp
  ultimately show ?case
    by (simp add: base64_encode_rest_def ENCODE_N_emit ENCODE_PAD_def push_pad push_byte Let_def)
next
  case (3 a b)
  define n where "n = of_char a * 256 + (of_char b :: nat)"
  have "n < 65536" unfolding n_def by (rule two_bytes)
  then have "n div 1024 < 64" by linarith
  moreover have "n * 4 div 4096 = n div 1024" "n * 4 div 64 = n div 16"
    by (simp_all add: div_mult2_eq [of _ 4 1024, simplified] div_mult2_eq [of _ 4 16, simplified])
  moreover have "n * 4 mod 64 = n mod 16 * 4" using mod_mult_mult2 [of n 4 16] by simp
  ultimately show ?case
    by (simp add: base64_encode_rest_def ENCODE_N_emit ENCODE_PAD_def push_pad push_byte Let_def
        flip: n_def)
next
  case (4 a b c s)
  define n where "n = three_byte_value a b c"
  have "n < 16777216" unfolding n_def by (rule three_bytes)
  then have "three_byte_value a b c div 262144 < 64" unfolding n_def by linarith
  then show ?case using "4.IH"
    by (simp add: ENCODE_N_emit push_byte Let_def n_def flip: three_byte_value_def)
qed

section \<open>Line breaks and lengths\<close>

lemma sextet_decode:
  assumes "v < 64"
  shows "base64_decode_table ! of_char (sextet v) = v" "sextet v \<noteq> CHR 0x0A" "sextet v \<noteq> CHR ''=''"
proof -
  have "\<forall>v \<in> {..<64}. base64_decode_table ! of_char (sextet v) = v \<and> sextet v \<noteq> CHR 0x0A
      \<and> sextet v \<noteq> CHR ''=''"
    by (simp add: lessThan_nat_numeral lessThan_Suc base64_encode_table_def base64_decode_table_def)
  with assms show "base64_decode_table ! of_char (sextet v) = v" "sextet v \<noteq> CHR 0x0A" "sextet v \<noteq> CHR ''=''"
    by auto
qed

lemma decode_newline: "base64_decode_table ! 10 = 64" "base64_decode_table ! 61 = 65"
  by (simp_all add: base64_decode_table_def)

text \<open>The decoder does not see newlines.\<close>

lemma decode_filter:
  "base64_decode_loop m (filter (\<lambda>c. c \<noteq> CHR 0x0A) s) dest n k = base64_decode_loop m s dest n k"
proof (induction s arbitrary: dest n k)
  case (Cons c s)
  show ?case
  proof (cases "c = CHR 0x0A")
    case True
    with Cons show ?thesis by (simp add: decode_newline)
  next
    case False
    with Cons show ?thesis by (simp add: Let_def)
  qed
qed simp

lemma groups_no_newline: "CHR 0x0A \<notin> set (base64_groups s)"
proof (induction s rule: base64_groups.induct)
  case (2 a)
  have "(of_char a :: nat) div 4 < 64" "(of_char a :: nat) mod 4 * 16 < 64"
    using of_char_less [of a] by linarith+
  from sextet_decode(2) [OF this(1)] sextet_decode(2) [OF this(2)] show ?case
    by (auto simp: Let_def)
next
  case (3 a b)
  define n where "n = of_char a * 256 + (of_char b :: nat)"
  have "n < 65536" unfolding n_def by (rule two_bytes)
  then have "n div 1024 < 64" "n div 16 mod 64 < 64" "n mod 16 * 4 < 64" by linarith+
  from sextet_decode(2) [OF this(1)] sextet_decode(2) [OF this(2)] sextet_decode(2) [OF this(3)]
  show ?case by (auto simp: Let_def simp flip: n_def)
next
  case (4 a b c s)
  define n where "n = three_byte_value a b c"
  have "n < 16777216" unfolding n_def by (rule three_bytes)
  then have "n div 262144 < 64" "n div 4096 mod 64 < 64" "n div 64 mod 64 < 64" "n mod 64 < 64" by linarith+
  from sextet_decode(2) [OF this(1)] sextet_decode(2) [OF this(2)] sextet_decode(2) [OF this(3)]
    sextet_decode(2) [OF this(4)] "4.IH"
  show ?case by (auto simp: Let_def simp flip: n_def)
qed simp

lemma length_groups: "length (base64_groups s) = CEIL_DIV (length s) 3 * 4"
proof (induction s rule: base64_groups.induct)
  case (4 a b c s)
  have "(length s + 3 + 2) div 3 = (length s + 2) div 3 + 1" by simp
  with 4 show ?case by (simp add: CEIL_DIV_def Let_def)
qed (simp_all add: CEIL_DIV_def Let_def)

lemma emit_filter:
  "CHR 0x0A \<notin> set es \<Longrightarrow>
     filter (\<lambda>c. c \<noteq> CHR 0x0A) (fst (emit flags es (d, l))) = filter (\<lambda>c. c \<noteq> CHR 0x0A) d @ es"
proof (induction es arbitrary: d l)
  case (Cons e es)
  then show ?case by (auto simp: ENCODE_CHAR_def Let_def)
qed simp

lemma emit_length:
  assumes "l < 64"
  shows "length (fst (emit flags es (d, l)) ) = length d + length es
      + (if flags AND BASE64_ENCODE_MULTILINE \<noteq> 0 then (l + length es) div 64 else 0)
    \<and> snd (emit flags es (d, l)) =
      (if flags AND BASE64_ENCODE_MULTILINE \<noteq> 0 then (l + length es) mod 64 else l)"
  using assms
proof (induction es arbitrary: d l)
  case (Cons e es)
  show ?case
  proof (cases "flags AND BASE64_ENCODE_MULTILINE \<noteq> 0 \<and> l = 63")
    case True
    have "(64 + length es) div 64 = Suc (length es div 64)" by simp
    with True Cons.IH [of 0 "d @ [e, CHR 0x0A]"] show ?thesis by (simp add: ENCODE_CHAR_def)
  next
    case False
    show ?thesis
    proof (cases "flags AND BASE64_ENCODE_MULTILINE \<noteq> 0")
      case True
      with False Cons.prems have "l + 1 < 64" by simp
      with True False Cons.prems Cons.IH [OF this, of "d @ [e]"] show ?thesis by (simp add: ENCODE_CHAR_def)
    next
      case False
      with Cons.prems Cons.IH [of l "d @ [e]"] show ?thesis by (simp add: ENCODE_CHAR_def)
    qed
  qed
qed simp

lemma ceil_div_64: "CEIL_DIV n 64 = n div 64 + (if n mod 64 = 0 then 0 else 1)"
proof -
  define q r where "q = n div 64" and "r = n mod 64"
  have n: "n = r + q * 64" "r < 64" by (simp_all add: q_def r_def)
  have "(r + 63) div 64 = (if r = 0 then 0 else 1)"
    using n(2) by (auto intro: div_nat_eqI)
  moreover have "CEIL_DIV n 64 = q + (r + 63) div 64"
    using div_mult_self1 [of 64 "r + 63" q] by (simp add: CEIL_DIV_def n(1) add.commute add.left_commute)
  ultimately show ?thesis by (simp add: q_def r_def)
qed

text \<open>The encoder succeeds exactly when the buffer and the sizes suffice; its assertion holds.\<close>

lemma base64_encode_eq:
  "base64_encode destlen src flags =
     (case base64_encode_size (length src) flags of
        None \<Rightarrow> None
      | Some enclen \<Rightarrow>
          if destlen < enclen + 1 \<or> int destlen > SIZE_T_CEILING then None
          else let (d, l) = emit flags (base64_groups src) ([], 0)
               in Some (if flags AND BASE64_ENCODE_MULTILINE \<noteq> 0 \<and> l \<noteq> 0 then d @ [CHR 0x0A] else d))"
proof (cases "base64_encode_size (length src) flags")
  case None
  then show ?thesis by (simp add: base64_encode_def)
next
  case (Some enclen)
  obtain d l where e: "emit flags (base64_groups src) ([], 0) = (d, l)" by fastforce
  obtain n k st where lp: "base64_encode_loop flags src 0 0 ([], 0) = (n, k, st)" by (metis prod_cases3)
  from encode_loop_groups [of flags src "([], 0)"] lp e
  have rest: "base64_encode_rest flags n k st = Some (d, l)" by simp
  have "length (if flags AND BASE64_ENCODE_MULTILINE \<noteq> 0 \<and> l \<noteq> 0 then d @ [CHR 0x0A] else d) = enclen"
    using Some emit_length [of 0 flags "base64_groups src" "[]"] e
    by (auto simp: base64_encode_size_def Let_def length_groups ceil_div_64 split: if_splits)
  moreover have "int enclen \<le> INT_MAX" using Some by (auto simp: base64_encode_size_def Let_def split: if_splits)
  ultimately show ?thesis using Some lp rest e by (simp add: base64_encode_def Let_def)
qed

section \<open>Decoding what was encoded\<close>

lemma decode_sextet:
  assumes "v < 64"
  shows "base64_decode_loop m (sextet v # s) dest n k =
    (if k = 3 then if m < 3 \<or> length dest > m - 3 then None
       else base64_decode_loop m s (dest @ [char_of ((n * 64 + v) div 65536),
              char_of ((n * 64 + v) div 256 mod 256), char_of ((n * 64 + v) mod 256)]) 0 0
     else base64_decode_loop m s dest (n * 64 + v) (k + 1))"
  using assms or_push_bit [of v 6 n] sextet_decode(1) [OF assms]
  by (simp add: Let_def drop_bit_eq_div and_mask_mod)

lemma join_sextets:
  "((n div 262144 * 64 + n div 4096 mod 64) * 64 + n div 64 mod 64) * 64 + n mod 64 = (n :: nat)"
proof -
  have "n div 262144 = n div 64 div 64 div 64" "n div 4096 = n div 64 div 64"
    by (simp_all add: div_mult2_eq [of n, symmetric])
  then show ?thesis by (simp only: div_mult_mod_eq)
qed

lemma low_byte: "x < 256 \<Longrightarrow> (m * 256 + x) div 256 = m \<and> (m * 256 + x) mod (256 :: nat) = x"
  by simp

lemma three_byte_value_bytes:
  "three_byte_value a b c div 65536 = of_char a"
  "three_byte_value a b c div 256 mod 256 = of_char b"
  "three_byte_value a b c mod 256 = of_char c"
proof -
  have "three_byte_value a b c = (of_char a * 256 + of_char b) * 256 + of_char c"
    by (simp add: three_byte_value_def)
  then have d: "three_byte_value a b c div 256 = of_char a * 256 + of_char b"
    and m: "three_byte_value a b c mod 256 = of_char c"
    using low_byte [OF of_char_less, of "of_char a * 256 + of_char b" c] by (simp_all only:)
  show "three_byte_value a b c mod 256 = of_char c" by (rule m)
  show "three_byte_value a b c div 256 mod 256 = of_char b" unfolding d by simp
  have "three_byte_value a b c div 65536 = three_byte_value a b c div 256 div 256"
    by (simp add: div_mult2_eq [symmetric])
  then show "three_byte_value a b c div 65536 = of_char a" unfolding d by simp
qed

lemma decode_groups:
  "length dest + length s \<le> m \<Longrightarrow> base64_decode_loop m (base64_groups s) dest 0 0 = Some (dest @ s)"
proof (induction s arbitrary: dest rule: base64_groups.induct)
  case 1
  then show ?case by (simp add: base64_decode_rest_def)
next
  case (2 a dest)
  define n where "n = (of_char a :: nat)"
  have l: "n div 4 < 64" "n mod 4 * 16 < 64" using of_char_less [of a] unfolding n_def by linarith+
  have v: "n div 4 * 64 + n mod 4 * 16 = n * 16" using div_mult_mod_eq [of n 4] by linarith
  from 2 show ?case
    unfolding base64_groups.simps Let_def n_def [symmetric] decode_sextet [OF l(1)] decode_sextet [OF l(2)]
    by (simp add: decode_newline base64_decode_rest_def drop_bit_eq_div v) (simp add: n_def)
next
  case (3 a b dest)
  define n where "n = of_char a * 256 + (of_char b :: nat)"
  have "n < 65536" unfolding n_def by (rule two_bytes)
  then have l: "n div 1024 < 64" "n div 16 mod 64 < 64" "n mod 16 * 4 < 64" by linarith+
  have e: "n div 1024 * 64 + n div 16 mod 64 = n div 16"
    using div_mult_mod_eq [of "n div 16" 64] by (simp add: div_mult2_eq [symmetric])
  have v: "(n div 1024 * 64 + n div 16 mod 64) * 64 + n mod 16 * 4 = n * 4"
    unfolding e using div_mult_mod_eq [of n 16] by linarith
  have "n div 256 = of_char a" "n mod 256 = of_char b"
    using low_byte [OF of_char_less, of "of_char a" b] by (simp_all only: n_def)
  moreover have "char_of n = (char_of (n mod 256) :: char)" by simp
  ultimately have w: "n * 4 div 1024 = of_char a" "n * 4 div 4 = n" "char_of n = b"
    by (simp_all add: div_mult2_eq [of _ 4 256, simplified])
  have "base64_decode_loop m (base64_groups [a, b]) dest 0 0
      = base64_decode_loop m ''='' dest ((n div 1024 * 64 + n div 16 mod 64) * 64 + n mod 16 * 4) 3"
    unfolding base64_groups.simps Let_def n_def [symmetric] decode_sextet [OF l(1)] decode_sextet [OF l(2)]
      decode_sextet [OF l(3)] by (simp add: numeral_3_eq_3 del: base64_decode_loop.simps)
  with 3 show ?case
    unfolding v by (simp add: decode_newline base64_decode_rest_def drop_bit_eq_div w)
next
  case (4 a b c s dest)
  define n where "n = three_byte_value a b c"
  have "n < 16777216" unfolding n_def by (rule three_bytes)
  then have l: "n div 262144 < 64" "n div 4096 mod 64 < 64" "n div 64 mod 64 < 64" "n mod 64 < 64" by linarith+
  have nb: "\<not> (m < 3 \<or> length dest > m - 3)" using "4.prems" by auto
  have "base64_decode_loop m (base64_groups (a # b # c # s)) dest 0 0
      = base64_decode_loop m (base64_groups s) (dest @ [a, b, c]) 0 0"
    using nb join_sextets [of n]
    unfolding base64_groups.simps Let_def n_def [symmetric] decode_sextet [OF l(1)] decode_sextet [OF l(2)]
      decode_sextet [OF l(3)] decode_sextet [OF l(4)]
    by (simp add: three_byte_value_bytes n_def)
  with "4.IH" [of _ "dest @ [a, b, c]"] "4.prems" show ?case by simp
qed

section \<open>Properties\<close>

text \<open>C34: What base64_encode writes, with or without line breaks, base64_decode reads back, given a
  buffer for the bytes.\<close>

theorem base64_roundtrip:
  assumes "base64_encode destlen src flags = Some t" "length src \<le> m" "int m \<le> INT_MAX"
  shows "base64_decode m t = Some src"
proof -
  obtain d l where e: "emit flags (base64_groups src) ([], 0) = (d, l)" by fastforce
  with assms(1) have t: "t = (if flags AND BASE64_ENCODE_MULTILINE \<noteq> 0 \<and> l \<noteq> 0 then d @ [CHR 0x0A] else d)"
    by (auto simp: base64_encode_eq Let_def split: option.splits if_splits)
  have "filter (\<lambda>c. c \<noteq> CHR 0x0A) d = base64_groups src"
    using emit_filter [OF groups_no_newline, of flags src "[]" 0] e by simp
  with t have "filter (\<lambda>c. c \<noteq> CHR 0x0A) t = base64_groups src" by simp
  then have "base64_decode_loop m t [] 0 0 = base64_decode_loop m (base64_groups src) [] 0 0"
    using decode_filter [of m t "[]" 0 0] by simp
  with decode_groups [of "[]" src m] assms(2,3) show ?thesis by (simp add: base64_decode_def)
qed

lemma base64_roundtrip_witness: "base64_decode 4 (''YWIAZA=='' @ [CHR 0x0A]) = Some [CHR ''a'', CHR ''b'', CHR 0x00, CHR ''d'']"
proof (rule base64_roundtrip)
  show "base64_encode 20 [CHR ''a'', CHR ''b'', CHR 0x00, CHR ''d''] 1 = Some (''YWIAZA=='' @ [CHR 0x0A])"
    by (simp add: base64_encode_eq base64_encode_size_def CEIL_DIV_def three_byte_value_def
        base64_encode_table_def ENCODE_CHAR_def BASE64_ENCODE_MULTILINE_def)
qed simp_all

text \<open>base64_encode succeeds exactly when the size computation accepts the length and the buffer
  holds that size and a NUL; the result then has exactly that size, so the assertion at its end
  cannot fail.\<close>

theorem base64_encode_size_exact:
  "(base64_encode destlen src flags \<noteq> None \<longleftrightarrow>
      (\<exists>n. base64_encode_size (length src) flags = Some n \<and> n + 1 \<le> destlen \<and> int destlen \<le> SIZE_T_CEILING))
   \<and> map_option length (base64_encode destlen src flags) \<in> {None, base64_encode_size (length src) flags}"
proof -
  have "base64_encode destlen src flags = Some t \<Longrightarrow> base64_encode_size (length src) flags = Some (length t)" for t
    by (auto simp: base64_encode_def Let_def split: option.splits if_splits prod.splits)
  then show ?thesis
    by (cases "base64_encode destlen src flags") (auto simp: base64_encode_eq Let_def split: option.splits if_splits prod.splits)
qed

end
