(* ===== verification/Token_Bucket.thy ===== *)
theory Token_Bucket
  imports Tor_Prelude
begin

text \<open>
  Token buckets of src/lib/evloop/token_bucket.c: the raw bucket, the read/write bucket on coarse
  time stamps and the counter bucket on seconds.

  A \<open>uint32_t\<close> is a 32-bit word; an \<open>int32_t\<close> is an integer, and an assignment to one wraps with
  \<open>to_int32\<close>; \<open>size_t\<close> and \<open>ssize_t\<close> are 64 bits wide. A refill with rate 0 divides by zero: it has
  no result (\<open>None\<close>). Coarse time stamps are those of the \<open>clock_gettime\<close> branch of
  src/lib/time/compat_time.c.
\<close>

section \<open>The raw bucket\<close>

definition to_int32 :: "int \<Rightarrow> int" where
  "to_int32 x = (x + 2 ^ 31) mod 2 ^ 32 - 2 ^ 31"

abbreviation TOKEN_BUCKET_MAX_BURST :: int where "TOKEN_BUCKET_MAX_BURST \<equiv> 2147483647"

record token_bucket_cfg =
  cfg_rate :: "32 word"
  cfg_burst :: int

record token_bucket_raw =
  level :: int

definition token_bucket_cfg_init :: "32 word \<Rightarrow> 32 word \<Rightarrow> token_bucket_cfg" where
  "token_bucket_cfg_init rate burst =
     (let burst = (if uint burst > TOKEN_BUCKET_MAX_BURST then TOKEN_BUCKET_MAX_BURST else uint burst)
      in \<lparr>cfg_rate = rate, cfg_burst = burst\<rparr>)"

definition token_bucket_raw_reset :: "token_bucket_raw \<Rightarrow> token_bucket_cfg \<Rightarrow> token_bucket_raw" where
  "token_bucket_raw_reset bucket cfg = bucket\<lparr>level := cfg_burst cfg\<rparr>"

definition token_bucket_raw_adjust :: "token_bucket_raw \<Rightarrow> token_bucket_cfg \<Rightarrow> token_bucket_raw" where
  "token_bucket_raw_adjust bucket cfg = bucket\<lparr>level := min (level bucket) (cfg_burst cfg)\<rparr>"

text \<open>The refilled bucket, and whether it was empty and no longer is.\<close>

definition token_bucket_raw_refill_steps ::
    "token_bucket_raw \<Rightarrow> token_bucket_cfg \<Rightarrow> 32 word \<Rightarrow> (token_bucket_raw \<times> bool) option" where
  "token_bucket_raw_refill_steps bucket cfg elapsed =
     (let was_empty = level bucket \<le> 0;
          gap = (word_of_int (cfg_burst cfg) - word_of_int (level bucket) :: 64 word)
      in if cfg_rate cfg = 0 then None
         else let bucket =
                (if uint elapsed > uint (gap div ucast (cfg_rate cfg))
                 then bucket\<lparr>level := cfg_burst cfg\<rparr>
                 else bucket\<lparr>level := to_int32 (uint (word_of_int (level bucket) + cfg_rate cfg * elapsed))\<rparr>)
              in Some (bucket, was_empty \<and> level bucket > 0))"

text \<open>The decremented bucket, and whether it becomes empty.\<close>

definition token_bucket_raw_dec :: "token_bucket_raw \<Rightarrow> int \<Rightarrow> token_bucket_raw \<times> bool" where
  "token_bucket_raw_dec bucket n =
     (if n < 0 then (bucket, False)
      else let becomes_empty = level bucket > 0 \<and> n \<ge> level bucket
           in (bucket\<lparr>level := to_int32 (level bucket - n)\<rparr>, becomes_empty))"

definition token_bucket_raw_get :: "token_bucket_raw \<Rightarrow> int" where
  "token_bucket_raw_get bucket = (if level bucket \<ge> 0 then level bucket else 0)"

section \<open>The read/write bucket\<close>

abbreviation TICKS_PER_STEP :: nat where "TICKS_PER_STEP \<equiv> 16"

definition STAMP_TICKS_PER_SECOND :: "64 word" where
  "STAMP_TICKS_PER_SECOND = 953"

definition monotime_coarse_stamp_units_to_approx_msec :: "64 word \<Rightarrow> 64 word" where
  "monotime_coarse_stamp_units_to_approx_msec units = (units * 1000) div STAMP_TICKS_PER_SECOND"

definition rate_per_sec_to_rate_per_step :: "32 word \<Rightarrow> 32 word" where
  "rate_per_sec_to_rate_per_step rate =
     (let units = (ucast rate :: 64 word) * of_nat TICKS_PER_STEP;
          val = ucast (monotime_coarse_stamp_units_to_approx_msec units div 1000)
      in if val \<noteq> 0 then val else 1)"

record token_bucket_rw =
  rw_cfg :: token_bucket_cfg
  read_bucket :: token_bucket_raw
  write_bucket :: token_bucket_raw
  rw_last_refilled :: "32 word"

definition TB_READ :: nat where "TB_READ = 1"
definition TB_WRITE :: nat where "TB_WRITE = 2"

definition token_bucket_rw_adjust :: "token_bucket_rw \<Rightarrow> 32 word \<Rightarrow> 32 word \<Rightarrow> token_bucket_rw" where
  "token_bucket_rw_adjust bucket rate burst =
     (let cfg = token_bucket_cfg_init (rate_per_sec_to_rate_per_step rate) burst
      in bucket\<lparr>rw_cfg := cfg,
                read_bucket := token_bucket_raw_adjust (read_bucket bucket) cfg,
                write_bucket := token_bucket_raw_adjust (write_bucket bucket) cfg\<rparr>)"

definition token_bucket_rw_reset :: "token_bucket_rw \<Rightarrow> 32 word \<Rightarrow> token_bucket_rw" where
  "token_bucket_rw_reset bucket now_ts_stamp =
     bucket\<lparr>read_bucket := token_bucket_raw_reset (read_bucket bucket) (rw_cfg bucket),
            write_bucket := token_bucket_raw_reset (write_bucket bucket) (rw_cfg bucket),
            rw_last_refilled := now_ts_stamp\<rparr>"

definition token_bucket_rw_zero :: token_bucket_rw where
  "token_bucket_rw_zero = \<lparr>rw_cfg = \<lparr>cfg_rate = 0, cfg_burst = 0\<rparr>, read_bucket = \<lparr>level = 0\<rparr>,
     write_bucket = \<lparr>level = 0\<rparr>, rw_last_refilled = 0\<rparr>"

definition token_bucket_rw_init :: "32 word \<Rightarrow> 32 word \<Rightarrow> 32 word \<Rightarrow> token_bucket_rw" where
  "token_bucket_rw_init rate burst now_ts_stamp =
     token_bucket_rw_reset (token_bucket_rw_adjust token_bucket_rw_zero rate burst) now_ts_stamp"

definition token_bucket_rw_refill :: "token_bucket_rw \<Rightarrow> 32 word \<Rightarrow> (token_bucket_rw \<times> nat) option" where
  "token_bucket_rw_refill bucket now_ts_stamp =
     (let elapsed_ticks = now_ts_stamp - rw_last_refilled bucket
      in if elapsed_ticks \<le> 0xffffffff div 4
         then let elapsed_steps = elapsed_ticks div of_nat TICKS_PER_STEP
              in if elapsed_steps = 0 then Some (bucket, 0)
                 else case token_bucket_raw_refill_steps (read_bucket bucket) (rw_cfg bucket) elapsed_steps of
                        None \<Rightarrow> None
                      | Some (rb, r) \<Rightarrow>
                          let flags = (if r then 0 OR TB_READ else 0)
                          in case token_bucket_raw_refill_steps (write_bucket bucket) (rw_cfg bucket) elapsed_steps of
                               None \<Rightarrow> None
                             | Some (wb, w) \<Rightarrow>
                                 let flags = (if w then flags OR TB_WRITE else flags)
                                 in Some (bucket\<lparr>read_bucket := rb, write_bucket := wb,
                                                 rw_last_refilled := now_ts_stamp\<rparr>, flags)
         else Some (bucket\<lparr>rw_last_refilled := now_ts_stamp\<rparr>, 0))"

definition token_bucket_rw_dec_read :: "token_bucket_rw \<Rightarrow> int \<Rightarrow> token_bucket_rw \<times> bool" where
  "token_bucket_rw_dec_read bucket n =
     (case token_bucket_raw_dec (read_bucket bucket) n of (rb, e) \<Rightarrow> (bucket\<lparr>read_bucket := rb\<rparr>, e))"

definition token_bucket_rw_dec_write :: "token_bucket_rw \<Rightarrow> int \<Rightarrow> token_bucket_rw \<times> bool" where
  "token_bucket_rw_dec_write bucket n =
     (case token_bucket_raw_dec (write_bucket bucket) n of (wb, e) \<Rightarrow> (bucket\<lparr>write_bucket := wb\<rparr>, e))"

definition token_bucket_rw_dec :: "token_bucket_rw \<Rightarrow> int \<Rightarrow> int \<Rightarrow> token_bucket_rw \<times> nat" where
  "token_bucket_rw_dec bucket n_read n_written =
     (let flags = 0;
          (bucket, r) = token_bucket_rw_dec_read bucket n_read;
          flags = (if r then flags OR TB_READ else flags);
          (bucket, w) = token_bucket_rw_dec_write bucket n_written;
          flags = (if w then flags OR TB_WRITE else flags)
      in (bucket, flags))"

definition token_bucket_rw_get_read :: "token_bucket_rw \<Rightarrow> int" where
  "token_bucket_rw_get_read bucket = token_bucket_raw_get (read_bucket bucket)"

definition token_bucket_rw_get_write :: "token_bucket_rw \<Rightarrow> int" where
  "token_bucket_rw_get_write bucket = token_bucket_raw_get (write_bucket bucket)"

section \<open>The counter bucket\<close>

record token_bucket_ctr =
  ctr_cfg :: token_bucket_cfg
  ctr_counter :: token_bucket_raw
  ctr_last_refilled :: "32 word"

definition token_bucket_ctr_adjust :: "token_bucket_ctr \<Rightarrow> 32 word \<Rightarrow> 32 word \<Rightarrow> token_bucket_ctr" where
  "token_bucket_ctr_adjust bucket rate burst =
     (let cfg = token_bucket_cfg_init rate burst
      in bucket\<lparr>ctr_cfg := cfg, ctr_counter := token_bucket_raw_adjust (ctr_counter bucket) cfg\<rparr>)"

definition token_bucket_ctr_reset :: "token_bucket_ctr \<Rightarrow> 32 word \<Rightarrow> token_bucket_ctr" where
  "token_bucket_ctr_reset bucket now_ts_sec =
     bucket\<lparr>ctr_counter := token_bucket_raw_reset (ctr_counter bucket) (ctr_cfg bucket),
            ctr_last_refilled := now_ts_sec\<rparr>"

definition token_bucket_ctr_init :: "32 word \<Rightarrow> 32 word \<Rightarrow> 32 word \<Rightarrow> token_bucket_ctr" where
  "token_bucket_ctr_init rate burst now_ts_sec =
     token_bucket_ctr_reset (token_bucket_ctr_adjust
       \<lparr>ctr_cfg = \<lparr>cfg_rate = 0, cfg_burst = 0\<rparr>, ctr_counter = \<lparr>level = 0\<rparr>, ctr_last_refilled = 0\<rparr>
       rate burst) now_ts_sec"

definition token_bucket_ctr_refill :: "token_bucket_ctr \<Rightarrow> 32 word \<Rightarrow> token_bucket_ctr option" where
  "token_bucket_ctr_refill bucket now_ts_sec =
     (let elapsed_sec = now_ts_sec - ctr_last_refilled bucket
      in if elapsed_sec \<le> 0xffffffff div 4
         then case token_bucket_raw_refill_steps (ctr_counter bucket) (ctr_cfg bucket) elapsed_sec of
                None \<Rightarrow> None
              | Some (c, _) \<Rightarrow> Some (bucket\<lparr>ctr_counter := c, ctr_last_refilled := now_ts_sec\<rparr>)
         else Some (bucket\<lparr>ctr_last_refilled := now_ts_sec\<rparr>))"

definition token_bucket_ctr_dec :: "token_bucket_ctr \<Rightarrow> int \<Rightarrow> token_bucket_ctr \<times> bool" where
  "token_bucket_ctr_dec bucket n =
     (case token_bucket_raw_dec (ctr_counter bucket) n of (c, e) \<Rightarrow> (bucket\<lparr>ctr_counter := c\<rparr>, e))"

definition token_bucket_ctr_get :: "token_bucket_ctr \<Rightarrow> int" where
  "token_bucket_ctr_get bucket = token_bucket_raw_get (ctr_counter bucket)"

section \<open>Refilling without overflow\<close>

definition bucket_ok :: "token_bucket_cfg \<Rightarrow> token_bucket_raw \<Rightarrow> bool" where
  "bucket_ok cfg b \<longleftrightarrow> 0 \<le> cfg_burst cfg \<and> cfg_burst cfg \<le> TOKEN_BUCKET_MAX_BURST
     \<and> - (2 ^ 31) \<le> level b \<and> level b \<le> cfg_burst cfg"

lemma to_int32_id: "- (2 ^ 31) \<le> x \<Longrightarrow> x < 2 ^ 31 \<Longrightarrow> to_int32 x = x"
  by (simp add: to_int32_def)

lemma to_int32_mod: "to_int32 (x mod 2 ^ 32) = to_int32 x"
  unfolding to_int32_def by (simp only: mod_add_left_eq)

lemma uint_level_plus:
  "to_int32 (uint (word_of_int l + r * e :: 32 word)) = to_int32 (l + uint r * uint e)"
proof -
  have "uint (word_of_int l + r * e :: 32 word) = (l + uint r * uint e) mod 2 ^ 32"
    by (simp add: uint_word_ariths uint_word_of_int mod_simps)
  then show ?thesis by (simp only: to_int32_mod)
qed

lemma refill_steps_spec:
  assumes ok: "bucket_ok cfg b" and rate: "cfg_rate cfg \<noteq> 0"
  shows "token_bucket_raw_refill_steps b cfg elapsed =
    (let l = min (cfg_burst cfg) (level b + uint (cfg_rate cfg) * uint elapsed)
     in Some (b\<lparr>level := l\<rparr>, level b \<le> 0 \<and> 0 < l))"
proof -
  let ?r = "uint (cfg_rate cfg)" and ?e = "uint elapsed" and ?gap = "cfg_burst cfg - level b"
  have gap: "0 \<le> ?gap" "?gap < 2 ^ 32" using ok by (auto simp: bucket_ok_def)
  have "uint (word_of_int (cfg_burst cfg) - word_of_int (level b) :: 64 word) = ?gap mod 2 ^ 64"
    by (simp only: wi_hom_sub uint_word_of_int) simp
  with gap have g: "uint (word_of_int (cfg_burst cfg) - word_of_int (level b) :: 64 word) = ?gap" by simp
  have r: "0 < ?r" using rate by (simp add: word_neq_0_conv word_less_def)
  have "uint (ucast (cfg_rate cfg) :: 64 word) = ?r" by (simp add: uint_up_ucast is_up)
  then have q: "uint ((word_of_int (cfg_burst cfg) - word_of_int (level b) :: 64 word) div ucast (cfg_rate cfg)) = ?gap div ?r"
    by (simp add: uint_div g)
  have div: "?r * (?gap div ?r) \<le> ?gap" "?gap < ?r * (?gap div ?r) + ?r"
    using r mult_div_mod_eq [of ?r ?gap] pos_mod_bound [of ?r ?gap] pos_mod_sign [of ?r ?gap] by linarith+
  show ?thesis
  proof (cases "?e > ?gap div ?r")
    case True
    then have "?r * (?gap div ?r + 1) \<le> ?r * ?e" using r by (intro mult_left_mono) auto
    then have "?gap < ?r * ?e" using div(2) by (simp add: distrib_left)
    then have "min (cfg_burst cfg) (level b + ?r * ?e) = cfg_burst cfg" by simp
    with True rate q show ?thesis by (simp add: token_bucket_raw_refill_steps_def Let_def)
  next
    case False
    then have "?r * ?e \<le> ?r * (?gap div ?r)" using r by (intro mult_left_mono) auto
    with div(1) have le: "level b + ?r * ?e \<le> cfg_burst cfg" by linarith
    have "0 \<le> ?r * ?e" by simp
    then have "- (2 ^ 31) \<le> level b + ?r * ?e" using ok unfolding bucket_ok_def by linarith
    with le ok have "to_int32 (level b + ?r * ?e) = level b + ?r * ?e"
      by (intro to_int32_id) (auto simp: bucket_ok_def)
    with False rate q le show ?thesis
      by (simp add: token_bucket_raw_refill_steps_def Let_def uint_level_plus)
  qed
qed

lemma cfg_init_burst: "0 \<le> cfg_burst (token_bucket_cfg_init rate burst)"
  "cfg_burst (token_bucket_cfg_init rate burst) \<le> TOKEN_BUCKET_MAX_BURST"
  "cfg_rate (token_bucket_cfg_init rate burst) = rate"
  by (simp_all add: token_bucket_cfg_init_def Let_def)

lemma rate_per_step_pos: "rate_per_sec_to_rate_per_step rate \<noteq> 0"
  by (simp add: rate_per_sec_to_rate_per_step_def Let_def)

section \<open>Runs of a read/write bucket\<close>

text \<open>The events a bucket sees; time stamps are the low 32 bits of the time.\<close>

datatype bucket_event = Refill nat | Dec_Read int | Dec_Write int

fun bucket_step :: "token_bucket_rw \<Rightarrow> bucket_event \<Rightarrow> token_bucket_rw option" where
  "bucket_step b (Refill t) = map_option fst (token_bucket_rw_refill b (of_nat t))"
| "bucket_step b (Dec_Read n) = Some (fst (token_bucket_rw_dec_read b n))"
| "bucket_step b (Dec_Write n) = Some (fst (token_bucket_rw_dec_write b n))"

text \<open>A decrement is of no more bytes than the level that is read beforehand.\<close>

fun event_ok :: "token_bucket_rw \<Rightarrow> bucket_event \<Rightarrow> bool" where
  "event_ok b (Refill t) = True"
| "event_ok b (Dec_Read n) = (0 \<le> n \<and> n \<le> token_bucket_rw_get_read b)"
| "event_ok b (Dec_Write n) = (0 \<le> n \<and> n \<le> token_bucket_rw_get_write b)"

fun run_bucket :: "token_bucket_rw \<Rightarrow> bucket_event list \<Rightarrow> token_bucket_rw option" where
  "run_bucket b [] = Some b"
| "run_bucket b (e # es) =
     (if event_ok b e then case bucket_step b e of None \<Rightarrow> None | Some b' \<Rightarrow> run_bucket b' es
      else None)"

fun read_total :: "bucket_event list \<Rightarrow> int" where
  "read_total [] = 0"
| "read_total (Dec_Read n # es) = n + read_total es"
| "read_total (_ # es) = read_total es"

fun written_total :: "bucket_event list \<Rightarrow> int" where
  "written_total [] = 0"
| "written_total (Dec_Write n # es) = n + written_total es"
| "written_total (_ # es) = written_total es"

text \<open>The time of the last refill, if times do not go back.\<close>

fun end_time :: "nat \<Rightarrow> bucket_event list \<Rightarrow> nat option" where
  "end_time t [] = Some t"
| "end_time t (Refill t' # es) = (if t \<le> t' then end_time t' es else None)"
| "end_time t (_ # es) = end_time t es"

definition rw_ok :: "token_bucket_rw \<Rightarrow> bool" where
  "rw_ok b \<longleftrightarrow> cfg_rate (rw_cfg b) \<noteq> 0 \<and> bucket_ok (rw_cfg b) (read_bucket b)
     \<and> bucket_ok (rw_cfg b) (write_bucket b)"

lemma rw_init_ok: "rw_ok (token_bucket_rw_init rate burst now)"
  by (simp add: rw_ok_def token_bucket_rw_init_def token_bucket_rw_reset_def token_bucket_rw_adjust_def
      Let_def bucket_ok_def token_bucket_raw_reset_def cfg_init_burst rate_per_step_pos
      order_trans [OF _ cfg_init_burst(1)])

lemma dec_spec:
  "0 \<le> n \<Longrightarrow> bucket_ok cfg b \<Longrightarrow> - (2 ^ 31) \<le> level b - n \<Longrightarrow>
     level (fst (token_bucket_raw_dec b n)) = level b - n \<and> bucket_ok cfg (fst (token_bucket_raw_dec b n))"
  using to_int32_id [of "level b - n"]
  by (auto simp: token_bucket_raw_dec_def bucket_ok_def Let_def)

text \<open>A decrement within what is there.\<close>

lemma dec_within:
  assumes "0 \<le> n" "n \<le> token_bucket_raw_get b" "bucket_ok cfg b"
  shows "level (fst (token_bucket_raw_dec b n)) = level b - n \<and> bucket_ok cfg (fst (token_bucket_raw_dec b n))
    \<and> (0 \<le> level b \<longrightarrow> n \<le> level b)"
proof -
  have "- (2 ^ 31) \<le> level b - n" using assms by (auto simp: token_bucket_raw_get_def bucket_ok_def split: if_splits)
  from dec_spec [OF assms(1,3) this] assms(2) show ?thesis by (auto simp: token_bucket_raw_get_def)
qed

definition filled :: "token_bucket_cfg \<Rightarrow> token_bucket_raw \<Rightarrow> 32 word \<Rightarrow> int" where
  "filled cfg b steps = min (cfg_burst cfg) (level b + uint (cfg_rate cfg) * uint steps)"

lemma filled_zero: "bucket_ok cfg b \<Longrightarrow> filled cfg b 0 = level b"
  by (simp add: filled_def bucket_ok_def)

lemma filled_ok:
  assumes "bucket_ok cfg b"
  shows "bucket_ok cfg (b\<lparr>level := filled cfg b s\<rparr>)"
proof -
  have "0 \<le> uint (cfg_rate cfg) * uint s" by simp
  with assms have "- (2 ^ 31) \<le> level b + uint (cfg_rate cfg) * uint s"
    unfolding bucket_ok_def by linarith
  with assms show ?thesis by (simp add: bucket_ok_def filled_def)
qed

definition elapsed_steps :: "token_bucket_rw \<Rightarrow> 32 word \<Rightarrow> 32 word" where
  "elapsed_steps b now =
     (if now - rw_last_refilled b \<le> 0xffffffff div 4
      then (now - rw_last_refilled b) div of_nat TICKS_PER_STEP else 0)"

lemma refill_eq:
  assumes "rw_ok b"
  shows "map_option fst (token_bucket_rw_refill b now) =
    Some (if elapsed_steps b now = 0
          then (if now - rw_last_refilled b \<le> 0xffffffff div 4 then b else b\<lparr>rw_last_refilled := now\<rparr>)
          else b\<lparr>read_bucket := (read_bucket b)\<lparr>level := filled (rw_cfg b) (read_bucket b) (elapsed_steps b now)\<rparr>,
                 write_bucket := (write_bucket b)\<lparr>level := filled (rw_cfg b) (write_bucket b) (elapsed_steps b now)\<rparr>,
                 rw_last_refilled := now\<rparr>)"
proof -
  note r = refill_steps_spec [of "rw_cfg b" "read_bucket b", unfolded Let_def, folded filled_def]
  note w = refill_steps_spec [of "rw_cfg b" "write_bucket b", unfolded Let_def, folded filled_def]
  from assms have ok: "bucket_ok (rw_cfg b) (read_bucket b)" "bucket_ok (rw_cfg b) (write_bucket b)"
    "cfg_rate (rw_cfg b) \<noteq> 0" by (simp_all add: rw_ok_def)
  show ?thesis
    by (simp add: token_bucket_rw_refill_def elapsed_steps_def Let_def r [OF ok(1,3)] w [OF ok(2,3)])
qed

lemma refill_spec:
  assumes ok: "rw_ok b" and step: "map_option fst (token_bucket_rw_refill b now) = Some b'"
  shows "rw_ok b'" "rw_cfg b' = rw_cfg b"
    "level (read_bucket b') = filled (rw_cfg b) (read_bucket b) (elapsed_steps b now)"
    "level (write_bucket b') = filled (rw_cfg b) (write_bucket b) (elapsed_steps b now)"
    "rw_last_refilled b' = now \<or> rw_last_refilled b' = rw_last_refilled b \<and> elapsed_steps b now = 0"
proof -
  have k: "bucket_ok (rw_cfg b) (read_bucket b)" "bucket_ok (rw_cfg b) (write_bucket b)"
    "cfg_rate (rw_cfg b) \<noteq> 0" using ok by (simp_all add: rw_ok_def)
  note z = filled_zero [OF k(1)] filled_zero [OF k(2)] filled_ok [OF k(1)] filled_ok [OF k(2)]
  have e: "b' = (if elapsed_steps b now = 0
          then (if now - rw_last_refilled b \<le> 0xffffffff div 4 then b else b\<lparr>rw_last_refilled := now\<rparr>)
          else b\<lparr>read_bucket := (read_bucket b)\<lparr>level := filled (rw_cfg b) (read_bucket b) (elapsed_steps b now)\<rparr>,
                 write_bucket := (write_bucket b)\<lparr>level := filled (rw_cfg b) (write_bucket b) (elapsed_steps b now)\<rparr>,
                 rw_last_refilled := now\<rparr>)" using step by (simp only: refill_eq [OF ok] option.inject)
  show "rw_ok b'" "rw_cfg b' = rw_cfg b"
    "level (read_bucket b') = filled (rw_cfg b) (read_bucket b) (elapsed_steps b now)"
    "level (write_bucket b') = filled (rw_cfg b) (write_bucket b) (elapsed_steps b now)"
    "rw_last_refilled b' = now \<or> rw_last_refilled b' = rw_last_refilled b \<and> elapsed_steps b now = 0"
    unfolding e using k z by (simp_all add: rw_ok_def)
qed

text \<open>Steps count no more than the time that has really passed, even when the stamps wrap.\<close>

lemma elapsed_steps_le:
  assumes "rw_last_refilled b = of_nat t0" "t0 \<le> t"
  shows "uint (elapsed_steps b (of_nat t)) \<le> int ((t - t0) div 16)"
proof -
  have d: "of_nat t - of_nat t0 = (of_nat (t - t0) :: 32 word)" using assms(2) by simp
  have u: "unat (of_nat (t - t0) :: 32 word) \<le> t - t0" by (simp add: unat_of_nat)
  have "unat (elapsed_steps b (of_nat t)) \<le> (t - t0) div 16"
    unfolding elapsed_steps_def assms(1) d using u by (simp add: unat_div div_le_mono)
  then show ?thesis by (metis uint_nat of_nat_le_iff)
qed

lemma end_time_mono: "end_time t es = Some te \<Longrightarrow> t \<le> te"
proof (induction t es rule: end_time.induct)
  case (2 t t' es)
  then show ?case by (simp split: if_splits)
qed simp_all

lemma run_bucket_bound:
  assumes "run_bucket b es = Some b'" "end_time t es = Some te"
    and "rw_ok b" "rw_last_refilled b = of_nat t0" "t0 \<le> t"
  shows "rw_ok b'" "rw_cfg b' = rw_cfg b"
    "level (read_bucket b') + read_total es
       \<le> level (read_bucket b) + uint (cfg_rate (rw_cfg b)) * int ((te - t0) div 16)"
    "level (write_bucket b') + written_total es
       \<le> level (write_bucket b) + uint (cfg_rate (rw_cfg b)) * int ((te - t0) div 16)"
    "0 \<le> level (read_bucket b) \<longrightarrow> 0 \<le> level (read_bucket b')"
    "0 \<le> level (write_bucket b) \<longrightarrow> 0 \<le> level (write_bucket b')"
  using assms
proof (atomize (full), induction es arbitrary: b t t0)
  case Nil
  then show ?case by simp
next
  case (Cons e es)
  let ?r = "uint (cfg_rate (rw_cfg b))"
  from Cons.prems obtain b1 where b1: "event_ok b e" "bucket_step b e = Some b1" "run_bucket b1 es = Some b'"
    by (auto split: if_splits option.splits)
  show ?case
  proof (cases e)
    case (Refill now)
    with Cons.prems have now: "t \<le> now" "end_time now es = Some te" by (auto split: if_splits)
    have t0: "t0 \<le> now" using now Cons.prems by simp
    note r = refill_spec [OF Cons.prems(3), of "of_nat now" b1]
    have st: "map_option fst (token_bucket_rw_refill b (of_nat now)) = Some b1" using b1(2) Refill by simp
    define s where "s = int (unat (elapsed_steps b (of_nat now)))"
    have s: "0 \<le> s" "s \<le> int ((now - t0) div 16)" "uint (elapsed_steps b (of_nat now)) = s"
      using elapsed_steps_le [OF Cons.prems(4) t0] by (simp_all add: s_def)
    obtain t1 where t1: "rw_last_refilled b1 = of_nat t1" "t1 = now \<or> t1 = t0 \<and> s = 0" "t1 \<le> now"
      using r(5) [OF st] Cons.prems(4) t0 by (auto simp: s_def)
    note IH = Cons.IH [OF b1(3) now(2) r(1) [OF st] t1(1,3)]
    have te: "now \<le> te" using now(2) by (rule end_time_mono)
    have steps: "?r * s + ?r * int ((te - t1) div 16) \<le> ?r * int ((te - t0) div 16)"
    proof -
      have "s + int ((te - t1) div 16) \<le> int ((te - t0) div 16)"
        using t1(2)
      proof
        assume "t1 = now"
        have "(now - t0) div 16 + (te - now) div 16 \<le> (te - t0) div 16"
          using t0 te by linarith
        with s(2) \<open>t1 = now\<close> show ?thesis by linarith
      qed simp
      then have "?r * (s + int ((te - t1) div 16)) \<le> ?r * int ((te - t0) div 16)"
        by (intro mult_left_mono) auto
      then show ?thesis by (simp add: distrib_left)
    qed
    have l: "level (read_bucket b1) \<le> level (read_bucket b) + ?r * s"
      "level (write_bucket b1) \<le> level (write_bucket b) + ?r * s"
      using r(3,4) [OF st] s(3) by (simp_all add: filled_def)
    have z: "0 \<le> level (read_bucket b) \<longrightarrow> 0 \<le> level (read_bucket b1)"
      "0 \<le> level (write_bucket b) \<longrightarrow> 0 \<le> level (write_bucket b1)"
      using r(3,4) [OF st] Cons.prems(3) by (simp_all add: filled_def rw_ok_def bucket_ok_def)
    show ?thesis using IH r(2) [OF st] steps l z Refill by auto
  next
    case (Dec_Read n)
    with b1 Cons.prems have n: "0 \<le> n" "n \<le> token_bucket_raw_get (read_bucket b)"
      "bucket_ok (rw_cfg b) (read_bucket b)" by (simp_all add: rw_ok_def token_bucket_rw_get_read_def)
    note d = dec_within [OF n]
    have b1': "b1 = b\<lparr>read_bucket := fst (token_bucket_raw_dec (read_bucket b) n)\<rparr>"
      using b1(2) Dec_Read by (auto simp: token_bucket_rw_dec_read_def split: prod.splits)
    have "rw_ok b1" using d Cons.prems(3) by (simp add: b1' rw_ok_def)
    moreover have "end_time t es = Some te" using Cons.prems(2) Dec_Read by simp
    ultimately show ?thesis using Cons.IH [OF b1(3), of t t0] Cons.prems(4,5) d Dec_Read by (auto simp: b1')
  next
    case (Dec_Write n)
    with b1 Cons.prems have n: "0 \<le> n" "n \<le> token_bucket_raw_get (write_bucket b)"
      "bucket_ok (rw_cfg b) (write_bucket b)" by (simp_all add: rw_ok_def token_bucket_rw_get_write_def)
    note d = dec_within [OF n]
    have b1': "b1 = b\<lparr>write_bucket := fst (token_bucket_raw_dec (write_bucket b) n)\<rparr>"
      using b1(2) Dec_Write by (auto simp: token_bucket_rw_dec_write_def split: prod.splits)
    have "rw_ok b1" using d Cons.prems(3) by (simp add: b1' rw_ok_def)
    moreover have "end_time t es = Some te" using Cons.prems(2) Dec_Write by simp
    ultimately show ?thesis using Cons.IH [OF b1(3), of t t0] Cons.prems(4,5) d Dec_Write by (auto simp: b1')
  qed
qed

section \<open>Properties\<close>

text \<open>C33: The overflow-avoiding arithmetic of a refill computes the unbounded one: the level grows by
  rate times steps and is cut at the burst, and the result tells whether an empty bucket became
  nonempty.\<close>

theorem refill_steps_equiv:
  assumes "0 \<le> cfg_burst cfg" "cfg_burst cfg \<le> 2 ^ 31 - 1" "- (2 ^ 31) \<le> level b" "level b \<le> cfg_burst cfg"
    and "cfg_rate cfg \<noteq> 0"
  shows "token_bucket_raw_refill_steps b cfg elapsed =
    Some (b\<lparr>level := min (cfg_burst cfg) (level b + uint (cfg_rate cfg) * uint elapsed)\<rparr>,
          level b \<le> 0 \<and> 0 < min (cfg_burst cfg) (level b + uint (cfg_rate cfg) * uint elapsed))"
  using refill_steps_spec [of cfg b elapsed] assms by (simp add: bucket_ok_def Let_def)

lemma refill_steps_equiv_witness:
  "token_bucket_raw_refill_steps \<lparr>level = - 2147483648\<rparr> \<lparr>cfg_rate = 0xffffffff, cfg_burst = 2147483647\<rparr> 2
     = Some (\<lparr>level = 2147483647\<rparr>, True)"
  using refill_steps_equiv [of "\<lparr>cfg_rate = 0xffffffff, cfg_burst = 2147483647\<rparr>" "\<lparr>level = - 2147483648\<rparr>" 2]
  by simp

text \<open>C32: What is read from a bucket is bounded by the burst and the rate: after any sequence of
  refills at times that do not go back and of decrements that keep to the level read beforehand, no more
  was read (and likewise written) than the burst plus the rate per step times the whole steps of time
  that have passed since the bucket was set up, less the level that is left, even if the 32-bit time
  stamps wrap; and both levels stay between zero and the burst.\<close>

theorem bucket_rate_limit:
  assumes "run_bucket (token_bucket_rw_init rate burst (of_nat t0)) es = Some b" "end_time t0 es = Some te"
  shows "read_total es + level (read_bucket b)
      \<le> min (2 ^ 31 - 1) (uint burst) + uint (rate_per_sec_to_rate_per_step rate) * int ((te - t0) div 16)
    \<and> written_total es + level (write_bucket b)
      \<le> min (2 ^ 31 - 1) (uint burst) + uint (rate_per_sec_to_rate_per_step rate) * int ((te - t0) div 16)
    \<and> read_total es
      \<le> min (2 ^ 31 - 1) (uint burst) + uint (rate_per_sec_to_rate_per_step rate) * int ((te - t0) div 16)
    \<and> written_total es
      \<le> min (2 ^ 31 - 1) (uint burst) + uint (rate_per_sec_to_rate_per_step rate) * int ((te - t0) div 16)
    \<and> level (read_bucket b) \<in> {0..cfg_burst (rw_cfg b)} \<and> level (write_bucket b) \<in> {0..cfg_burst (rw_cfg b)}"
proof -
  let ?b0 = "token_bucket_rw_init rate burst (of_nat t0)"
  have i: "rw_last_refilled ?b0 = of_nat t0" "cfg_rate (rw_cfg ?b0) = rate_per_sec_to_rate_per_step rate"
    "level (read_bucket ?b0) = min (2 ^ 31 - 1) (uint burst)"
    "level (write_bucket ?b0) = min (2 ^ 31 - 1) (uint burst)"
    by (simp_all add: token_bucket_rw_init_def token_bucket_rw_reset_def token_bucket_rw_adjust_def Let_def
        token_bucket_raw_reset_def token_bucket_cfg_init_def)
  note r = run_bucket_bound [OF assms rw_init_ok i(1) le_refl]
  have "0 \<le> level (read_bucket b)" "0 \<le> level (write_bucket b)" using r(5,6) i(3,4) by simp_all
  with r(1,3,4) i(2-4) show ?thesis by (simp add: rw_ok_def bucket_ok_def)
qed

lemma bucket_rate_limit_witness:
  "\<exists>b. run_bucket (token_bucket_rw_init 1000 500 (of_nat 10)) [Dec_Read 500, Refill 42, Dec_Read 20] = Some b
    \<and> 520 \<le> 500 + uint (rate_per_sec_to_rate_per_step 1000) * 2"
proof -
  have "run_bucket (token_bucket_rw_init 1000 500 (of_nat 10)) [Dec_Read 500, Refill 42, Dec_Read 20] \<noteq> None"
    by code_simp
  then obtain b where b: "run_bucket (token_bucket_rw_init 1000 500 (of_nat 10))
      [Dec_Read 500, Refill 42, Dec_Read 20] = Some b" by blast
  from bucket_rate_limit [OF this, of 42] show ?thesis using b by auto
qed

end
