(* ===== verification/Utf8.thy ===== *)
theory Utf8
  imports Tor_Prelude
begin

text \<open>
  UTF-8 validation of src/lib/string/util_string.c: the classes of leading and continuation bytes,
  the check of one character and the loop over a string. A byte is a character of the list; its
  value as a \<open>uint8_t\<close> is a natural number below 256. The specification at the end is the
  encoding of Unicode scalar values.
\<close>

section \<open>The validator\<close>

definition TOP_BITS :: "nat \<Rightarrow> nat" where
  "TOP_BITS x = push_bit (8 - x) 0xFF AND 0xFF"

definition LOW_BITS :: "nat \<Rightarrow> nat" where
  "LOW_BITS x = drop_bit (8 - x) 0xFF AND 0xFF"

definition bytes_in_char :: "nat \<Rightarrow> nat" where
  "bytes_in_char b =
     (if TOP_BITS 1 AND b = 0x00 then 1
      else if TOP_BITS 3 AND b = TOP_BITS 2 then 2
      else if TOP_BITS 4 AND b = TOP_BITS 3 then 3
      else if TOP_BITS 5 AND b = TOP_BITS 4 then 4
      else 0)"

definition is_continuation_byte :: "nat \<Rightarrow> bool" where
  "is_continuation_byte b = (let top2bits = b AND TOP_BITS 2 in top2bits = TOP_BITS 1)"

text \<open>The loop over the continuation bytes: the code point, or nothing where the code returns
  false.\<close>

fun codepoint_loop :: "string \<Rightarrow> nat \<Rightarrow> nat option" where
  "codepoint_loop [] codepoint = Some codepoint"
| "codepoint_loop (c # cs) codepoint =
     (if \<not> is_continuation_byte (of_char c) then None
      else codepoint_loop cs (push_bit 6 codepoint OR (of_char c AND LOW_BITS 6)))"

definition validate_char :: "string \<Rightarrow> nat \<Rightarrow> bool" where
  "validate_char c len =
     (if len = 1 then True
      else let mask = LOW_BITS (7 - len);
               codepoint = of_char (c ! 0) AND mask
           in case codepoint_loop (segment 1 len c) codepoint of
                None \<Rightarrow> False
              | Some codepoint \<Rightarrow>
                  if len = 2 \<and> codepoint \<le> 0x7f then False
                  else if len = 3 \<and> codepoint \<le> 0x7ff then False
                  else if len = 4 \<and> codepoint \<le> 0xffff then False
                  else if codepoint \<ge> 0xd800 \<and> codepoint \<le> 0xdfff then False
                  else codepoint \<le> 0x10ffff)"

function utf8_loop :: "string \<Rightarrow> nat \<Rightarrow> bool" where
  "utf8_loop str i =
     (if i < length str then
        let num_bytes = bytes_in_char (of_char (str ! i))
        in if num_bytes = 0 then False
           else let next_char = i + num_bytes
                in if next_char > length str then False
                   else if \<not> validate_char (drop i str) num_bytes then False
                   else utf8_loop str next_char
      else True)"
  by pat_completeness auto
termination by (relation "measure (\<lambda>(str, i). length str - i)") auto

declare utf8_loop.simps [simp del]

definition string_is_utf8 :: "string \<Rightarrow> bool" where
  "string_is_utf8 str = utf8_loop str 0"

text \<open>The byte order mark U+FEFF and U+FFFE, as the compiler encodes the literals of the source.\<close>

definition string_is_utf8_no_bom :: "string \<Rightarrow> bool" where
  "string_is_utf8_no_bom str =
     (if length str \<ge> 3 \<and> (take 3 str = [CHR 0xEF, CHR 0xBB, CHR 0xBF]
                           \<or> take 3 str = [CHR 0xEF, CHR 0xBF, CHR 0xBE])
      then False else string_is_utf8 str)"

section \<open>Specification\<close>

definition scalar_value :: "nat \<Rightarrow> bool" where
  "scalar_value n \<longleftrightarrow> n \<le> 0x10ffff \<and> \<not> (0xd800 \<le> n \<and> n \<le> 0xdfff)"

abbreviation byte :: "nat \<Rightarrow> char" where "byte \<equiv> char_of"

definition utf8_encode :: "nat \<Rightarrow> string" where
  "utf8_encode n =
     (if n < 0x80 then [byte n]
      else if n < 0x800 then [byte (0xC0 + n div 64), byte (0x80 + n mod 64)]
      else if n < 0x10000 then [byte (0xE0 + n div 4096), byte (0x80 + n div 64 mod 64), byte (0x80 + n mod 64)]
      else [byte (0xF0 + n div 262144), byte (0x80 + n div 4096 mod 64), byte (0x80 + n div 64 mod 64),
            byte (0x80 + n mod 64)])"

section \<open>Bytes\<close>


lemma top_bits: "TOP_BITS 1 = 128" "TOP_BITS 2 = 192" "TOP_BITS 3 = 224" "TOP_BITS 4 = 240" "TOP_BITS 5 = 248"
  by (simp_all add: TOP_BITS_def push_bit_eq_mult and_mask_mod)

lemma and_high:
  assumes "b < 256"
  shows "push_bit k (drop_bit k 255) AND b = b div 2 ^ k * (2 :: nat) ^ k"
proof -
  have h: "bit b n \<Longrightarrow> bit (255 :: nat) n" for n
  proof -
    assume "bit b n"
    moreover have "take_bit 8 b = b" using assms by (simp add: take_bit_nat_eq_self)
    ultimately have "n < 8" by (metis bit_take_bit_iff)
    moreover have "(255 :: nat) = mask 8" by (simp add: mask_eq_exp_minus_1)
    ultimately show ?thesis by (simp only: bit_mask_iff) simp
  qed
  have "push_bit k (drop_bit k 255) AND b = push_bit k (drop_bit k b)"
    by (rule bit_eqI) (auto simp: bit_and_iff bit_push_bit_iff bit_drop_bit_eq dest: h)
  then show ?thesis by (simp add: push_bit_eq_mult drop_bit_eq_div)
qed

lemma and_top:
  assumes "b < 256"
  shows "128 AND b = b div 128 * (128 :: nat)" "192 AND b = b div 64 * (64 :: nat)"
    "224 AND b = b div 32 * (32 :: nat)" "240 AND b = b div 16 * (16 :: nat)" "248 AND b = b div 8 * (8 :: nat)"
  using and_high [OF assms, of 7] and_high [OF assms, of 6] and_high [OF assms, of 5]
    and_high [OF assms, of 4] and_high [OF assms, of 3]
  by (simp_all add: push_bit_eq_mult drop_bit_eq_div)

lemma multiple_eq:
  assumes "0 < k"
  shows "(b :: nat) div k * k = q * k \<longleftrightarrow> q * k \<le> b \<and> b < q * k + k"
proof -
  have "b div k * k = q * k \<longleftrightarrow> b div k = q" using assms by simp
  also have "\<dots> \<longleftrightarrow> q * k \<le> b \<and> b < q * k + k"
    using assms div_nat_eqI [of k q b] div_times_less_eq_dividend [of b k] dividend_less_div_times [of k b]
    by (auto simp: algebra_simps)
  finally show ?thesis .
qed

lemma bytes_in_char_eq:
  assumes "b < 256"
  shows "bytes_in_char b = (if b < 0x80 then 1 else if b < 0xC0 then 0 else if b < 0xE0 then 2
    else if b < 0xF0 then 3 else if b < 0xF8 then 4 else 0)"
proof -
  have e: "b div 128 * 128 = 0 \<longleftrightarrow> b < 128" "b div 32 * 32 = 192 \<longleftrightarrow> 192 \<le> b \<and> b < 224"
    "b div 16 * 16 = 224 \<longleftrightarrow> 224 \<le> b \<and> b < 240" "b div 8 * 8 = 240 \<longleftrightarrow> 240 \<le> b \<and> b < 248"
    using multiple_eq [of 128 b 0] multiple_eq [of 32 b 6] multiple_eq [of 16 b 14] multiple_eq [of 8 b 30]
    by simp_all
  show ?thesis
    unfolding bytes_in_char_def top_bits and_top [OF assms] e by auto
qed

lemma is_continuation_byte_eq:
  assumes "b < 256"
  shows "is_continuation_byte b \<longleftrightarrow> 0x80 \<le> b \<and> b < 0xC0"
proof -
  have "b AND 192 = b div 64 * 64" using and_top(2) [OF assms] by (simp add: and.commute)
  then show ?thesis
    unfolding is_continuation_byte_def top_bits Let_def using multiple_eq [of 64 b 2] by simp
qed

lemma low_bits: "LOW_BITS 6 = 63" "LOW_BITS 5 = 31" "LOW_BITS 4 = 15" "LOW_BITS 3 = 7"
  by (simp_all add: LOW_BITS_def drop_bit_eq_div and_mask_mod)

lemma byte_eq: "byte n = c \<longleftrightarrow> of_char c = n mod 256"
  by (metis char_of_char nat_of_char of_char_of)

section \<open>One character\<close>

lemma mod_64: "0x80 \<le> n \<Longrightarrow> n < 0xC0 \<Longrightarrow> (n :: nat) mod 64 = n - 0x80"
  using mod_nat_eqI [of "n - 0x80" 64 n] by (simp add: dvd_diff_nat)

lemma continuation_step:
  "codepoint_loop (c # cs) n =
     (if 0x80 \<le> (of_char c :: nat) \<and> (of_char c :: nat) < 0xC0
      then codepoint_loop cs (n * 64 + (of_char c - 0x80)) else None)"
proof (cases "0x80 \<le> (of_char c :: nat) \<and> (of_char c :: nat) < 0xC0")
  case True
  then have "of_char c - 0x80 < (64 :: nat)" by linarith
  then have "push_bit 6 n OR (of_char c - 0x80) = n * 2 ^ 6 + (of_char c - 0x80)" by (intro or_push_bit) simp
  with True show ?thesis
    by (simp add: is_continuation_byte_eq of_char_less low_bits and_mask_mod mod_64)
next
  case False
  then show ?thesis by (auto simp add: is_continuation_byte_eq of_char_less)
qed

declare codepoint_loop.simps(2) [simp del]

lemma encode_length: "scalar_value m \<Longrightarrow>
    bytes_in_char (of_char (hd (utf8_encode m))) = length (utf8_encode m) \<and> utf8_encode m \<noteq> []"
  by (auto simp: utf8_encode_def scalar_value_def bytes_in_char_eq)

lemma lead_bits: "0xC0 \<le> n \<Longrightarrow> n < 0xE0 \<Longrightarrow> n AND 31 = (n :: nat) - 0xC0"
  "0xE0 \<le> n \<Longrightarrow> n < 0xF0 \<Longrightarrow> n AND 15 = (n :: nat) - 0xE0"
  "0xF0 \<le> n \<Longrightarrow> n < 0xF8 \<Longrightarrow> n AND 7 = (n :: nat) - 0xF0"
  by (simp_all add: and_mask_mod mod_nat_eqI dvd_diff_nat)

text \<open>The digits of a code point in base 64 are the values of its bytes.\<close>

lemma base_64: "b < 64 \<Longrightarrow> (a * 64 + b) div 64 = a" "b < 64 \<Longrightarrow> (a * 64 + b) mod 64 = (b :: nat)"
  by simp_all

lemma byte_offset:
  assumes "k \<le> (of_char c :: nat)" "(of_char c :: nat) < k + l"
  obtains a where "of_char c = k + a" "a < l"
  using assms by (metis add_less_cancel_left le_Suc_ex)

lemma char_valid2:
  assumes "of_char c = (0xC0 + a :: nat)" "a < 32"
  shows "validate_char (c # d # r) 2 \<longleftrightarrow> (\<exists>m. scalar_value m \<and> [c, d] = utf8_encode m)"
proof
  assume "validate_char (c # d # r) 2"
  then have v: "0x80 \<le> (of_char d :: nat)" "(of_char d :: nat) < 0x80 + 64" "0x7f < a * 64 + (of_char d - 0x80)"
    using assms by (auto simp: validate_char_def segment_def low_bits lead_bits continuation_step split: if_splits)
  from byte_offset [OF v(1,2)] obtain b where b: "of_char d = (0x80 + b :: nat)" "b < 64" by blast
  with v assms have "[c, d] = utf8_encode (a * 64 + b) \<and> scalar_value (a * 64 + b)"
    by (simp add: utf8_encode_def byte_eq scalar_value_def eq_commute [of c] eq_commute [of d])
  then show "\<exists>m. scalar_value m \<and> [c, d] = utf8_encode m" by blast
next
  assume "\<exists>m. scalar_value m \<and> [c, d] = utf8_encode m"
  then obtain m where m: "scalar_value m" "[c, d] = utf8_encode m" by blast
  then have b: "0x80 \<le> m" "m < 0x800" "c = byte (0xC0 + m div 64)" "d = byte (0x80 + m mod 64)"
    by (auto simp: utf8_encode_def split: if_splits)
  then have c: "of_char c = 0xC0 + m div 64" "of_char d = 0x80 + m mod 64" by simp_all
  have "m div 64 * 64 + m mod 64 = m" by simp
  with b(1,2) m(1) c assms show "validate_char (c # d # r) 2"
    by (simp add: validate_char_def segment_def low_bits lead_bits continuation_step scalar_value_def)
qed

lemma split_64: "n div 64 div 64 * 64 + n div 64 mod 64 = n div 64" "n div 4096 = n div 64 div (64 :: nat)"
  "n div 262144 = n div 64 div 64 div (64 :: nat)"
  by (simp, simp_all only: div_mult2_eq [symmetric]) simp_all

lemma char_valid3:
  assumes "of_char c = (0xE0 + a :: nat)" "a < 16"
  shows "validate_char (c # d # e # r) 3 \<longleftrightarrow> (\<exists>m. scalar_value m \<and> [c, d, e] = utf8_encode m)"
proof
  assume "validate_char (c # d # e # r) 3"
  then have v: "0x80 \<le> (of_char d :: nat)" "(of_char d :: nat) < 0x80 + 64"
      "0x80 \<le> (of_char e :: nat)" "(of_char e :: nat) < 0x80 + 64"
      "0x7ff < (a * 64 + (of_char d - 0x80)) * 64 + (of_char e - 0x80)"
      "scalar_value ((a * 64 + (of_char d - 0x80)) * 64 + (of_char e - 0x80))"
    using assms by (auto simp: validate_char_def segment_def low_bits lead_bits continuation_step scalar_value_def split: if_splits)
  from byte_offset [OF v(1,2)] obtain b where b: "of_char d = (0x80 + b :: nat)" "b < 64" by blast
  from byte_offset [OF v(3,4)] obtain b' where b': "of_char e = (0x80 + b' :: nat)" "b' < 64" by blast
  define m where "m = (a * 64 + b) * 64 + b'"
  have d: "m div 64 = a * 64 + b" "m mod 64 = b'" unfolding m_def by (rule base_64 [OF b'(2)])+
  have m: "0x7ff < m" "m < 0x10000" "scalar_value m"
    using v(5,6) b b' assms(2) unfolding m_def by simp_all
  have "m div 4096 = a" "m div 64 mod 64 = b" using b(2) d by (simp_all add: split_64)
  with m d b b' assms have "[c, d, e] = utf8_encode m"
    by (simp add: utf8_encode_def byte_eq eq_commute [of c] eq_commute [of d] eq_commute [of e])
  with m(3) show "\<exists>m. scalar_value m \<and> [c, d, e] = utf8_encode m" by auto
next
  assume "\<exists>m. scalar_value m \<and> [c, d, e] = utf8_encode m"
  then obtain m where m: "scalar_value m" "[c, d, e] = utf8_encode m" by blast
  then have b: "0x800 \<le> m" "m < 0x10000" "c = byte (0xE0 + m div 64 div 64)" "d = byte (0x80 + m div 64 mod 64)"
      "e = byte (0x80 + m mod 64)"
    by (auto simp: utf8_encode_def split_64 split: if_splits)
  then have "of_char c = 0xE0 + m div 64 div 64" "of_char d = 0x80 + m div 64 mod 64" "of_char e = 0x80 + m mod 64"
    by simp_all
  moreover have "(m div 64 div 64 * 64 + m div 64 mod 64) * 64 + m mod 64 = m" by (simp add: split_64)
  ultimately have "codepoint_loop [d, e] (of_char c AND 15) = Some m"
    using assms by (simp add: lead_bits continuation_step del: split_64)
  then show "validate_char (c # d # e # r) 3"
    using b(1,2) m(1) by (simp add: validate_char_def segment_def low_bits scalar_value_def)
qed

lemma char_valid4:
  assumes "of_char c = (0xF0 + a :: nat)" "a < 8"
  shows "validate_char (c # d # e # f # r) 4 \<longleftrightarrow> (\<exists>m. scalar_value m \<and> [c, d, e, f] = utf8_encode m)"
proof
  assume "validate_char (c # d # e # f # r) 4"
  then have v: "0x80 \<le> (of_char d :: nat)" "(of_char d :: nat) < 0x80 + 64"
      "0x80 \<le> (of_char e :: nat)" "(of_char e :: nat) < 0x80 + 64"
      "0x80 \<le> (of_char f :: nat)" "(of_char f :: nat) < 0x80 + 64"
      "0xffff < ((a * 64 + (of_char d - 0x80)) * 64 + (of_char e - 0x80)) * 64 + (of_char f - 0x80)"
      "scalar_value (((a * 64 + (of_char d - 0x80)) * 64 + (of_char e - 0x80)) * 64 + (of_char f - 0x80))"
    using assms by (auto simp: validate_char_def segment_def low_bits lead_bits continuation_step scalar_value_def split: if_splits)
  from byte_offset [OF v(1,2)] obtain b where b: "of_char d = (0x80 + b :: nat)" "b < 64" by blast
  from byte_offset [OF v(3,4)] obtain b' where b': "of_char e = (0x80 + b' :: nat)" "b' < 64" by blast
  from byte_offset [OF v(5,6)] obtain b'' where b'': "of_char f = (0x80 + b'' :: nat)" "b'' < 64" by blast
  define k where "k = (a * 64 + b) * 64 + b'"
  define m where "m = k * 64 + b''"
  have k: "k div 64 = a * 64 + b" "k mod 64 = b'" unfolding k_def by (rule base_64 [OF b'(2)])+
  have d: "m div 64 = k" "m mod 64 = b''" unfolding m_def by (rule base_64 [OF b''(2)])+
  have m: "0xffff < m" "scalar_value m" using v(7,8) b b' b'' unfolding m_def k_def by simp_all
  have "m div 262144 = a" "m div 4096 mod 64 = b" "m div 64 mod 64 = b'" using b(2) d k by (simp_all add: split_64)
  with m d b b' b'' assms have "[c, d, e, f] = utf8_encode m"
    by (simp add: utf8_encode_def byte_eq eq_commute [of c] eq_commute [of d] eq_commute [of e] eq_commute [of f])
  with m(2) show "\<exists>m. scalar_value m \<and> [c, d, e, f] = utf8_encode m" by auto
next
  assume "\<exists>m. scalar_value m \<and> [c, d, e, f] = utf8_encode m"
  then obtain m where m: "scalar_value m" "[c, d, e, f] = utf8_encode m" by blast
  then have b: "0x10000 \<le> m" "c = byte (0xF0 + m div 64 div 64 div 64)" "d = byte (0x80 + m div 64 div 64 mod 64)"
      "e = byte (0x80 + m div 64 mod 64)" "f = byte (0x80 + m mod 64)"
    by (auto simp: utf8_encode_def split_64 split: if_splits)
  define q x y z where "q = m div 64 div 64 div 64" and "x = m div 64 div 64 mod 64" and "y = m div 64 mod 64"
    and "z = m mod 64"
  note qs = q_def [symmetric] x_def [symmetric] y_def [symmetric] z_def [symmetric]
  have "q < 8"
    using div_le_mono [of m 1114111 262144] m(1) unfolding qs(1) [symmetric] split_64(3) [symmetric] scalar_value_def by simp
  moreover have x: "x < 64" "y < 64" "z < 64" by (simp_all add: x_def y_def z_def)
  ultimately have v: "of_char c = 0xF0 + q" "of_char d = 0x80 + x" "of_char e = 0x80 + y" "of_char f = 0x80 + z"
    unfolding b(2-5) qs by simp_all
  have "((q * 64 + x) * 64 + y) * 64 + z = m"
    unfolding q_def x_def y_def z_def by (simp only: div_mult_mod_eq)
  with v x assms have "codepoint_loop [d, e, f] (of_char c AND 7) = Some m"
    by (simp add: lead_bits continuation_step)
  then show "validate_char (c # d # e # f # r) 4"
    using b(1) m(1) by (simp add: validate_char_def segment_def low_bits scalar_value_def)
qed

lemma char_valid1:
  assumes "(of_char c :: nat) < 0x80"
  shows "validate_char (c # r) 1 \<longleftrightarrow> (\<exists>m. scalar_value m \<and> [c] = utf8_encode m)"
proof -
  have "scalar_value (of_char c) \<and> [c] = utf8_encode (of_char c)"
    using assms by (simp add: scalar_value_def utf8_encode_def)
  then show ?thesis by (auto simp: validate_char_def)
qed

lemma lead_cases:
  assumes "b < 256" "n = bytes_in_char b" "n \<noteq> 0"
  shows "b < 0x80 \<and> n = 1 \<or> 0xC0 \<le> b \<and> b < 0xC0 + 32 \<and> n = 2 \<or> 0xE0 \<le> b \<and> b < 0xE0 + 16 \<and> n = 3
    \<or> 0xF0 \<le> b \<and> b < 0xF0 + 8 \<and> n = 4"
  using assms(3) unfolding assms(2) bytes_in_char_eq [OF assms(1)] by (auto split: if_splits)

lemma char_valid:
  assumes n: "n = bytes_in_char (of_char (hd s))" "n \<noteq> 0" "n \<le> length s"
  shows "validate_char s n \<longleftrightarrow> (\<exists>m. scalar_value m \<and> take n s = utf8_encode m)"
proof -
  let ?b = "of_char (hd s) :: nat"
  have b: "?b < 256" by (rule of_char_less)
  from n consider (1) "?b < 0x80" "n = 1" | (2) "0xC0 \<le> ?b" "?b < 0xC0 + 32" "n = 2"
    | (3) "0xE0 \<le> ?b" "?b < 0xE0 + 16" "n = 3" | (4) "0xF0 \<le> ?b" "?b < 0xF0 + 8" "n = 4"
    using lead_cases [OF b n(1)] by blast
  then show ?thesis
  proof cases
    case 1
    then obtain c r where s: "s = c # r" using n(3) by (auto simp: Suc_le_length_iff)
    show ?thesis using 1 char_valid1 [of c r] unfolding s 1(2) by simp
  next
    case 2
    then obtain c d r where s: "s = c # d # r" using n(3) by (auto simp: Suc_le_length_iff numeral_eq_Suc)
    from byte_offset [OF 2(1,2)] obtain a where "of_char c = (0xC0 + a :: nat)" "a < 32" unfolding s by auto
    from char_valid2 [OF this] show ?thesis unfolding s 2(3) by (simp add: numeral_2_eq_2)
  next
    case 3
    then obtain c d e r where s: "s = c # d # e # r" using n(3) by (auto simp: Suc_le_length_iff numeral_eq_Suc)
    from byte_offset [OF 3(1,2)] obtain a where "of_char c = (0xE0 + a :: nat)" "a < 16" unfolding s by auto
    from char_valid3 [OF this] show ?thesis unfolding s 3(3) by (simp add: numeral_3_eq_3)
  next
    case 4
    then obtain c d e f r where s: "s = c # d # e # f # r" using n(3) by (auto simp: Suc_le_length_iff numeral_eq_Suc)
    from byte_offset [OF 4(1,2)] obtain a where "of_char c = (0xF0 + a :: nat)" "a < 8" unfolding s by auto
    from char_valid4 [OF this] show ?thesis unfolding s 4(3) by simp
  qed
qed

section \<open>The string\<close>

lemma utf8_loop_iff:
  "i \<le> length str \<Longrightarrow> utf8_loop str i \<longleftrightarrow>
     (\<exists>ms. (\<forall>m \<in> set ms. scalar_value m) \<and> drop i str = concat (map utf8_encode ms))"
proof (induction "length str - i" arbitrary: i rule: less_induct)
  case less
  show ?case
  proof (cases "i < length str")
    case False
    with less.prems show ?thesis
      by (subst utf8_loop.simps) (auto intro!: exI [of _ "[]"])
  next
    case True
    define n where "n = bytes_in_char (of_char (str ! i))"
    have hd: "hd (drop i str) = str ! i" using True by (rule hd_drop_conv_nth)
    show ?thesis
    proof
      assume l: "utf8_loop str i"
      then have v: "n \<noteq> 0" "i + n \<le> length str" "validate_char (drop i str) n" "utf8_loop str (i + n)"
        using True by (subst (asm) utf8_loop.simps, simp add: Let_def n_def split: if_splits)+
      have "length str - (i + n) < length str - i" using v(1,2) True by simp
      from less.hyps [OF this v(2)] v(4) obtain ms
        where ms: "\<forall>m \<in> set ms. scalar_value m" "drop (i + n) str = concat (map utf8_encode ms)" by blast
      have "n \<le> length (drop i str)" using v(2) by simp
      with v(1,3) char_valid [of n "drop i str"] obtain m
        where m: "scalar_value m" "take n (drop i str) = utf8_encode m" unfolding hd n_def by auto
      have "drop i str = take n (drop i str) @ drop (i + n) str"
        using append_take_drop_id [of n "drop i str"] by (simp add: add.commute)
      also have "\<dots> = concat (map utf8_encode (m # ms))" using m(2) ms(2) by simp
      finally show "\<exists>ms. (\<forall>m \<in> set ms. scalar_value m) \<and> drop i str = concat (map utf8_encode ms)"
        using m(1) ms(1) by (intro exI [of _ "m # ms"]) simp
    next
      assume "\<exists>ms. (\<forall>m \<in> set ms. scalar_value m) \<and> drop i str = concat (map utf8_encode ms)"
      then obtain ms where ms: "\<forall>m \<in> set ms. scalar_value m" "drop i str = concat (map utf8_encode ms)" by blast
      with True obtain m ms' where m: "ms = m # ms'" "scalar_value m" by (cases ms) auto
      note e = encode_length [OF m(2)]
      have d: "drop i str = utf8_encode m @ concat (map utf8_encode ms')" using ms(2) m(1) by simp
      then have n: "n = length (utf8_encode m)" using e hd unfolding n_def by simp
      then have "0 < n" using e by simp
      moreover have "length (drop i str) = n + length (concat (map utf8_encode ms'))" using d n by simp
      then have l: "i + n \<le> length str" using True by simp
      moreover have "take n (drop i str) = utf8_encode m" using d n by simp
      then have "validate_char (drop i str) n"
        using char_valid [of n "drop i str"] \<open>0 < n\<close> l m(2) unfolding hd n_def by auto
      moreover have "drop (i + n) str = concat (map utf8_encode ms')"
        using arg_cong [OF d, of "drop n"] n by (simp add: add.commute)
      then have "utf8_loop str (i + n)" using less.hyps [of "i + n"] l \<open>0 < n\<close> True ms(1) m(1) by auto
      ultimately show "utf8_loop str i"
        using True unfolding utf8_loop.simps [of str i] n_def by (simp add: Let_def)
    qed
  qed
qed

lemma byte_order_marks: "utf8_encode 0xFEFF = [CHR 0xEF, CHR 0xBB, CHR 0xBF]"
  "utf8_encode 0xFFFE = [CHR 0xEF, CHR 0xBF, CHR 0xBE]"
  by (simp_all add: utf8_encode_def byte_eq)

text \<open>C35: string_is_utf8 accepts exactly the concatenations of the UTF-8 encodings of Unicode scalar
  values: no overlong form, no surrogate and nothing above U+10FFFF is accepted, and every
  well-formed text is; the variant without a byte order mark also rejects the two marks.\<close>

theorem string_is_utf8_iff:
  "(string_is_utf8 str \<longleftrightarrow> (\<exists>ms. list_all scalar_value ms \<and> str = concat (map utf8_encode ms)))
   \<and> (string_is_utf8_no_bom str \<longleftrightarrow> string_is_utf8 str
        \<and> take 3 str \<noteq> utf8_encode 0xFEFF \<and> take 3 str \<noteq> utf8_encode 0xFFFE)"
proof (rule conjI)
  show "string_is_utf8 str \<longleftrightarrow> (\<exists>ms. list_all scalar_value ms \<and> str = concat (map utf8_encode ms))"
    using utf8_loop_iff [of 0 str] by (simp add: string_is_utf8_def list_all_iff)
  show "string_is_utf8_no_bom str \<longleftrightarrow> string_is_utf8 str
        \<and> take 3 str \<noteq> utf8_encode 0xFEFF \<and> take 3 str \<noteq> utf8_encode 0xFFFE"
  proof (cases "3 \<le> length str")
    case False
    then have "take 3 str \<noteq> [a, b, c]" for a b c by (auto dest: arg_cong [of _ _ length])
    with False show ?thesis unfolding string_is_utf8_no_bom_def byte_order_marks by simp
  next
    case True
    then show ?thesis unfolding string_is_utf8_no_bom_def byte_order_marks by (simp only: simp_thms split: if_split) blast
  qed
qed

end
