(* ===== verification/Circuit_State.thy ===== *)
theory Circuit_State
  imports Tor_Prelude
begin

text \<open>
  The data that the flow control of a circuit works on: \<open>congestion_control_t\<close> and
  \<open>vegas_params_t\<close> (src/core/or/congestion_control_st.h), the flow-control fields of a hop
  \<open>crypt_path_t\<close> and of a circuit \<open>circuit_t\<close> with its subtypes.

  Unsigned fields are words of their width, \<open>int\<close> fields are integers, a pointer that may be NULL
  is an option. The list of hops of an origin circuit is \<open>cpath\<close>; a pointer to a hop (the
  \<open>layer_hint\<close> of the sources) is its index, or none.
\<close>

datatype cc_alg = CC_ALG_SENDME | CC_ALG_WESTWOOD | CC_ALG_VEGAS | CC_ALG_NOLA

datatype cc_path = CC_PATH_EXIT | CC_PATH_ONION | CC_PATH_ONION_SOS | CC_PATH_ONION_VG | CC_PATH_SBWS

record vegas_params =
  ss_cwnd_cap :: "32 word"
  ss_cwnd_max :: "32 word"
  gamma :: "16 word"
  alpha :: "16 word"
  beta :: "16 word"
  delta :: "16 word"

record congestion_control =
  sendme_pending_timestamps :: "64 word list"
  ewma_rtt_usec :: "64 word"
  min_rtt_usec :: "64 word"
  max_rtt_usec :: "64 word"
  bdp :: "64 word"
  cwnd :: "64 word"
  inflight :: "64 word"
  next_cc_event :: "16 word"
  next_cwnd_event :: "16 word"
  in_slow_start :: bool
  cwnd_full :: bool
  blocked_chan :: bool
  cwnd_inc_pct_ss :: "16 word"
  cwnd_inc :: "16 word"
  cwnd_min :: "16 word"
  cwnd_inc_rate :: "8 word"
  sendme_inc :: "8 word"
  cc_cc_alg :: cc_alg
  cc_vegas :: vegas_params

text \<open>Of the cryptographic state of a layer only its kind and the tag of the most recent cell.\<close>

datatype relay_crypto = RCK_TOR1 string | RCK_CGO string

record crypt_path =
  cp_package_window :: int
  cp_deliver_window :: int
  cp_ccontrol :: "congestion_control option"
  cp_crypto :: relay_crypto

text \<open>\<open>n_chan_cells_n\<close> and \<open>p_chan_cells_n\<close> are the lengths of the cell queues of the two channels; the
  fields from \<open>or_crypto\<close> to \<open>used_obsolete_sendme\<close> are those of \<open>or_circuit_t\<close>, the next two those of
  \<open>origin_circuit_t\<close>. \<open>has_n_chan\<close> is whether \<open>n_chan\<close> is set, \<open>marked_for_close\<close> whether the line number
  of that name is not zero.\<close>

datatype circuit_magic = ORIGIN_CIRCUIT_MAGIC | OR_CIRCUIT_MAGIC

record circuit =
  magic :: circuit_magic
  purpose :: nat
  n_chan_cells_n :: int
  p_chan_cells_n :: int
  circuit_blocked_on_n_chan :: bool
  circuit_blocked_on_p_chan :: bool
  package_window :: int
  deliver_window :: int
  sendme_last_digests :: "string list option"
  ccontrol :: "congestion_control option"
  cpath :: "crypt_path list"
  has_conflux :: bool
  or_crypto :: relay_crypto
  used_legacy_circuit_handshake :: bool
  used_obsolete_sendme :: bool
  n_delivered_read_circ_bw :: "32 word"
  n_overhead_read_circ_bw :: "32 word"
  has_n_chan :: bool
  marked_for_close :: bool

definition CIRCUIT_PURPOSE_OR_MAX :: nat where "CIRCUIT_PURPOSE_OR_MAX = 4"

definition CIRCUIT_IS_ORIGIN :: "circuit \<Rightarrow> bool" where
  "CIRCUIT_IS_ORIGIN circ \<longleftrightarrow> purpose circ > CIRCUIT_PURPOSE_OR_MAX"

definition CIRCUIT_IS_ORCIRC :: "circuit \<Rightarrow> bool" where
  "CIRCUIT_IS_ORCIRC circ \<longleftrightarrow> magic circ = OR_CIRCUIT_MAGIC"

text \<open>Unsigned division; a zero divisor stops the program.\<close>

definition udiv :: "64 word \<Rightarrow> 64 word \<Rightarrow> 64 word option" where
  "udiv a b = (if b = 0 then None else Some (a div b))"

definition umod :: "64 word \<Rightarrow> 64 word \<Rightarrow> 64 word option" where
  "umod a b = (if b = 0 then None else Some (a mod b))"

section \<open>Numbers of words\<close>

named_theorems word_nat "words as natural numbers"

lemma unat_ucast64_32 [word_nat]: "unat (ucast (x :: 32 word) :: 64 word) = unat x"
  using unsigned_less [of x, where ?'a = nat] by (simp add: unsigned_ucast_eq take_bit_nat_eq_self)

lemma unat_ucast64_16 [word_nat]: "unat (ucast (x :: 16 word) :: 64 word) = unat x"
  using unsigned_less [of x, where ?'a = nat] by (simp add: unsigned_ucast_eq take_bit_nat_eq_self)

lemma unat_ucast64_8 [word_nat]: "unat (ucast (x :: 8 word) :: 64 word) = unat x"
  using unsigned_less [of x, where ?'a = nat] by (simp add: unsigned_ucast_eq take_bit_nat_eq_self)

lemma unat_lt16: "unat (x :: 16 word) < 65536"
  using unsigned_less [of x, where ?'a = nat] by simp

lemma unat_lt8: "unat (x :: 8 word) < 256"
  using unsigned_less [of x, where ?'a = nat] by simp

lemma unat_lt32: "unat (x :: 32 word) < 4294967296"
  using unsigned_less [of x, where ?'a = nat] by simp

lemma unat_lt64: "unat (x :: 64 word) < 18446744073709551616"
  using unsigned_less [of x, where ?'a = nat] by simp

lemma unat_add64: "unat a + unat b < 2 ^ 64 \<Longrightarrow> unat (a + b :: 64 word) = unat a + unat b"
  by (simp add: unat_word_ariths)

lemma unat_mult64: "unat a * unat b < 2 ^ 64 \<Longrightarrow> unat (a * b :: 64 word) = unat a * unat b"
  by (simp add: unat_word_ariths)

lemma unat_sub64: "b \<le> a \<Longrightarrow> unat (a - b :: 64 word) = unat a - unat b"
  by (rule unat_sub)

lemma unat_le64 [word_nat]: "(a :: 64 word) \<le> b \<longleftrightarrow> unat a \<le> unat b"
  by (rule word_le_nat_alt)

lemma unat_less64 [word_nat]: "(a :: 64 word) < b \<longleftrightarrow> unat a < unat b"
  by (rule word_less_nat_alt)

lemma unat_max64 [word_nat]: "unat (max a b :: 64 word) = max (unat a) (unat b)"
  by (simp add: max_def unat_le64)

lemma unat_min64 [word_nat]: "unat (min a b :: 64 word) = min (unat a) (unat b)"
  by (simp add: min_def unat_le64)

lemma unat_div64 [word_nat]: "unat (a div b :: 64 word) = unat a div unat b"
  by (rule unat_div)

lemma udiv_Some [simp]: "udiv a b = Some c \<longleftrightarrow> b \<noteq> 0 \<and> c = a div b"
  by (auto simp: udiv_def)

lemma udiv_None [simp]: "udiv a b = None \<longleftrightarrow> b = 0"
  by (simp add: udiv_def)

end
