(* ===== verification/Parse_Int.thy ===== *)
theory Parse_Int
  imports Util_String
begin

text \<open>
  Reading integers: \<open>tor_parse_long\<close>, \<open>tor_parse_ulong\<close> and \<open>tor_parse_uint64\<close> of
  src/lib/string/parse_int.c over the C library's \<open>strtol\<close> and \<open>strtoul\<close>, and the comparison of
  prefixes of src/lib/string/util_string.c.

  A string is the list of its characters without the terminating NUL; a pointer into it is the
  rest from there. \<open>long\<close> has 64 bits. The library functions are those of the C standard in the
  "C" locale: white space, a sign, the prefix \<open>0x\<close> for base 16, digits of the base.
\<close>

section \<open>The C library\<close>

abbreviation LONG_MAX :: int where "LONG_MAX \<equiv> 9223372036854775807"
abbreviation LONG_MIN :: int where "LONG_MIN \<equiv> - 9223372036854775808"
abbreviation ULONG_MAX :: int where "ULONG_MAX \<equiv> 18446744073709551615"

definition c_isspace :: "char \<Rightarrow> bool" where
  "c_isspace c \<longleftrightarrow> c \<in> {CHR '' '', CHR 0x09, CHR 0x0A, CHR 0x0B, CHR 0x0C, CHR 0x0D}"

definition digit_of :: "char \<Rightarrow> nat option" where
  "digit_of c =
     (let n = of_char c :: nat
      in if 48 \<le> n \<and> n \<le> 57 then Some (n - 48)
         else if 97 \<le> n \<and> n \<le> 122 then Some (n - 87)
         else if 65 \<le> n \<and> n \<le> 90 then Some (n - 55)
         else None)"

definition is_digit :: "int \<Rightarrow> char \<Rightarrow> bool" where
  "is_digit base c \<longleftrightarrow> (case digit_of c of None \<Rightarrow> False | Some d \<Rightarrow> int d < base)"

fun digits_value :: "int \<Rightarrow> string \<Rightarrow> int \<Rightarrow> int" where
  "digits_value base [] acc = acc"
| "digits_value base (c # s) acc = digits_value base s (acc * base + int (the (digit_of c)))"

definition number_sign :: "string \<Rightarrow> bool \<times> string" where
  "number_sign s = (case s of c # t \<Rightarrow> if c = CHR ''-'' then (True, t)
                                else if c = CHR ''+'' then (False, t) else (False, s)
                    | [] \<Rightarrow> (False, s))"

definition number_base :: "int \<Rightarrow> string \<Rightarrow> int \<times> string" where
  "number_base base s =
     (if (base = 0 \<or> base = 16) \<and> take 1 s = ''0'' \<and> (take 1 (drop 1 s) = ''x'' \<or> take 1 (drop 1 s) = ''X'')
         \<and> drop 2 s \<noteq> [] \<and> is_digit 16 (s ! 2)
      then (16, drop 2 s)
      else if base = 0 then (if take 1 s = ''0'' then (8, s) else (10, s))
      else (base, s))"

text \<open>The sign, the magnitude and the rest of the string; nothing when no number can be read.\<close>

definition strto :: "string \<Rightarrow> int \<Rightarrow> (bool \<times> int \<times> string) option" where
  "strto s base =
     (case number_sign (dropWhile c_isspace s) of (neg, t) \<Rightarrow>
        case number_base base t of (b, t) \<Rightarrow>
          if b < 2 \<or> 36 < b \<or> takeWhile (is_digit b) t = [] then None
          else Some (neg, digits_value b (takeWhile (is_digit b) t) 0, dropWhile (is_digit b) t))"

text \<open>The value, whether \<open>errno\<close> becomes \<open>ERANGE\<close>, and the end pointer.\<close>

definition strtol :: "string \<Rightarrow> int \<Rightarrow> int \<times> bool \<times> string" where
  "strtol s base =
     (case strto s base of
        None \<Rightarrow> (0, False, s)
      | Some (neg, m, rest) \<Rightarrow>
          if neg then (if - m < LONG_MIN then (LONG_MIN, True, rest) else (- m, False, rest))
          else if m > LONG_MAX then (LONG_MAX, True, rest) else (m, False, rest))"

definition strtoul :: "string \<Rightarrow> int \<Rightarrow> int \<times> bool \<times> string" where
  "strtoul s base =
     (case strto s base of
        None \<Rightarrow> (0, False, s)
      | Some (neg, m, rest) \<Rightarrow>
          if m > ULONG_MAX then (ULONG_MAX, True, rest)
          else ((if neg then - m else m) mod 2 ^ 64, False, rest))"

text \<open>The sign of \<open>strncmp\<close>: bytes compare as unsigned, and comparing ends at a NUL.\<close>

fun strncmp :: "string \<Rightarrow> string \<Rightarrow> nat \<Rightarrow> int" where
  "strncmp s1 s2 0 = 0"
| "strncmp [] [] (Suc n) = 0"
| "strncmp [] (d # t) (Suc n) = -1"
| "strncmp (c # s) [] (Suc n) = 1"
| "strncmp (c # s) (d # t) (Suc n) =
     (if (of_char c :: nat) < of_char d then -1 else if (of_char c :: nat) > of_char d then 1
      else strncmp s t n)"

section \<open>The parsers of the source\<close>

text \<open>The result, \<open>*ok\<close>, and what \<open>*next\<close> is set to.\<close>

definition CHECK_STRTOX_RESULT ::
    "int \<times> bool \<times> string \<Rightarrow> string \<Rightarrow> int \<Rightarrow> int \<Rightarrow> bool \<Rightarrow> int \<times> bool \<times> string option" where
  "CHECK_STRTOX_RESULT res s lo hi want_next =
     (case res of (r, erange, endptr) \<Rightarrow>
        let out = (if want_next then Some endptr else None);
            err = (0, False, out)
        in if erange then err
           else if endptr = s then err
           else if \<not> want_next \<and> endptr \<noteq> [] then err
           else if hi < lo then err
           else if r < lo \<or> r > hi then err
           else (r, True, out))"

definition tor_parse_long :: "string \<Rightarrow> int \<Rightarrow> int \<Rightarrow> int \<Rightarrow> bool \<Rightarrow> int \<times> bool \<times> string option" where
  "tor_parse_long s base lo hi want_next =
     (if base < 0 then (0, False, None) else CHECK_STRTOX_RESULT (strtol s base) s lo hi want_next)"

definition tor_parse_ulong :: "string \<Rightarrow> int \<Rightarrow> int \<Rightarrow> int \<Rightarrow> bool \<Rightarrow> int \<times> bool \<times> string option" where
  "tor_parse_ulong s base lo hi want_next =
     (if base < 0 then (0, False, None) else CHECK_STRTOX_RESULT (strtoul s base) s lo hi want_next)"

definition tor_parse_uint64 :: "string \<Rightarrow> int \<Rightarrow> int \<Rightarrow> int \<Rightarrow> bool \<Rightarrow> int \<times> bool \<times> string option" where
  "tor_parse_uint64 s base lo hi want_next =
     (if base < 0 then (0, False, None) else CHECK_STRTOX_RESULT (strtoul s base) s lo hi want_next)"

definition strcmpstart :: "string \<Rightarrow> string \<Rightarrow> int" where
  "strcmpstart s1 s2 = (let n = length s2 in strncmp s1 s2 n)"

definition strcmpend :: "string \<Rightarrow> string \<Rightarrow> int" where
  "strcmpend s1 s2 =
     (let n1 = length s1; n2 = length s2
      in if n2 > n1 then strncmp s1 s2 (n2 + 1) else strncmp (drop (n1 - n2) s1) s2 n2)"

section \<open>Facts\<close>

lemma strncmp_prefix: "strncmp s1 s2 (length s2) = 0 \<longleftrightarrow> prefix s2 s1"
proof (induction s2 arbitrary: s1)
  case (Cons d s2)
  then show ?case by (cases s1) auto
qed simp

lemma strcmpstart_0: "strcmpstart s1 s2 = 0 \<longleftrightarrow> prefix s2 s1"
  by (simp add: strcmpstart_def strncmp_prefix)

lemma strncmp_long: "length s1 < length s2 \<Longrightarrow> strncmp s1 s2 (Suc (length s2)) \<noteq> 0"
proof (induction s2 arbitrary: s1)
  case (Cons d s2)
  then show ?case by (cases s1) auto
qed simp

lemma strcmpend_0: "strcmpend s1 s2 = 0 \<longleftrightarrow> suffix s2 s1"
proof (cases "length s1 < length s2")
  case True
  then have "\<not> suffix s2 s1" using suffix_length_le by fastforce
  with True strncmp_long [OF True] show ?thesis by (simp add: strcmpend_def)
next
  case False
  have "prefix s2 (drop (length s1 - length s2) s1) \<longleftrightarrow> suffix s2 s1"
  proof
    assume "prefix s2 (drop (length s1 - length s2) s1)"
    then obtain r where r: "drop (length s1 - length s2) s1 = s2 @ r" by (auto simp: prefix_def)
    then have "length (drop (length s1 - length s2) s1) = length (s2 @ r)" by simp
    with False have "r = []" by simp
    with r suffix_drop [of "length s1 - length s2" s1] show "suffix s2 s1" by simp
  qed (auto simp: suffix_def)
  with False show ?thesis by (simp add: strcmpend_def Let_def strncmp_prefix)
qed

lemma digit_of_digit: "TOR_ISDIGIT c \<Longrightarrow> digit_of c = Some (digit_value c)"
  by (simp add: digit_of_def TOR_ISDIGIT_def digit_value_def)

lemma is_digit_10: "is_digit 10 c = TOR_ISDIGIT c"
  by (auto simp: is_digit_def digit_of_def TOR_ISDIGIT_def Let_def)

lemma digits_value_read:
  "\<forall>c \<in> set s. TOR_ISDIGIT c \<Longrightarrow> digits_value 10 s (int a) = int (foldl (\<lambda>a c. 10 * a + digit_value c) a s)"
proof (induction s arbitrary: a)
  case (Cons c s)
  then have "digits_value 10 (c # s) (int a) = digits_value 10 s (int (10 * a + digit_value c))"
    by (simp add: digit_of_digit algebra_simps)
  with Cons.IH [of "10 * a + digit_value c"] Cons.prems show ?case by simp
qed simp

lemma digits_value_show: "digits_value 10 (show_dec n) 0 = int n"
  using digits_value_read [of "show_dec n" 0] read_dec_show_dec [of n]
  by (simp add: decimal_simps read_dec_def)

lemma digit_not_space: "TOR_ISDIGIT c \<Longrightarrow> \<not> c_isspace c \<and> c \<noteq> CHR ''-'' \<and> c \<noteq> CHR ''+''"
  by (auto simp: TOR_ISDIGIT_def c_isspace_def)

text \<open>A printed decimal number.\<close>

definition show_int :: "int \<Rightarrow> string" where
  "show_int n = (if n < 0 then CHR ''-'' # show_dec (nat (- n)) else show_dec (nat n))"

lemma strto_show:
  assumes "rest = [] \<or> \<not> TOR_ISDIGIT (hd rest)"
  shows "strto (show_int n @ rest) 10 = Some (n < 0, \<bar>n\<bar>, rest)"
proof -
  have d: "takeWhile (is_digit 10) (show_dec m @ rest) = show_dec m"
    "dropWhile (is_digit 10) (show_dec m @ rest) = rest" for m
    using takeWhile_show_dec [OF assms, of m] by (simp_all add: is_digit_10 [abs_def])
  have h: "\<exists>c t. show_dec m @ rest = c # t \<and> TOR_ISDIGIT c" for m
    using show_dec_nonempty [of m] show_dec_hd_digit [of m rest] by (cases "show_dec m") auto
  have b: "number_base 10 t = (10, t)" for t by (simp add: number_base_def)
  show ?thesis
  proof (cases "n < 0")
    case True
    then have "number_sign (dropWhile c_isspace (show_int n @ rest)) = (True, show_dec (nat (- n)) @ rest)"
      by (simp add: show_int_def number_sign_def c_isspace_def)
    with True show ?thesis by (simp add: strto_def b d show_dec_nonempty digits_value_show)
  next
    case False
    obtain c t where c: "show_dec (nat n) @ rest = c # t" "TOR_ISDIGIT c" using h by blast
    then have "number_sign (dropWhile c_isspace (c # t)) = (False, c # t)"
      using digit_not_space [OF c(2)] by (simp add: number_sign_def)
    with False c(1) have "number_sign (dropWhile c_isspace (show_int n @ rest)) = (False, show_dec (nat n) @ rest)"
      by (simp add: show_int_def)
    with False show ?thesis by (simp add: strto_def b d show_dec_nonempty digits_value_show)
  qed
qed

lemma show_int_nonempty: "show_int n \<noteq> []"
  by (simp add: show_int_def show_dec_nonempty)

lemma check_result:
  "CHECK_STRTOX_RESULT (r, False, rest) (t @ rest) lo hi want_next =
     (if t \<noteq> [] \<and> (want_next \<or> rest = []) \<and> lo \<le> r \<and> r \<le> hi
      then (r, True, if want_next then Some rest else None)
      else (0, False, if want_next then Some rest else None))"
  by (auto simp: CHECK_STRTOX_RESULT_def Let_def)

lemma parse_long_show:
  assumes "rest = [] \<or> \<not> TOR_ISDIGIT (hd rest)" "LONG_MIN \<le> n" "n \<le> LONG_MAX"
  shows "tor_parse_long (show_int n @ rest) 10 lo hi want_next =
      (if (want_next \<or> rest = []) \<and> lo \<le> n \<and> n \<le> hi then (n, True, if want_next then Some rest else None)
       else (0, False, if want_next then Some rest else None))"
proof -
  have l: "strtol (show_int n @ rest) 10 = (n, False, rest)"
    using assms(2,3) by (simp add: strtol_def strto_show [OF assms(1)])
  show ?thesis using show_int_nonempty [of n] unfolding tor_parse_long_def l check_result by simp
qed

lemma check_in_range:
  "CHECK_STRTOX_RESULT res s lo hi want_next = (r, True, out) \<Longrightarrow> lo \<le> r \<and> r \<le> hi"
  by (auto simp: CHECK_STRTOX_RESULT_def Let_def split: prod.splits if_splits)

lemma ulong_show:
  assumes "rest = [] \<or> \<not> TOR_ISDIGIT (hd rest)" "int n \<le> ULONG_MAX"
  shows "tor_parse_ulong (show_dec n @ rest) 10 lo hi True =
     (if lo \<le> int n \<and> int n \<le> hi then (int n, True, Some rest) else (0, False, Some rest))"
proof -
  have s: "show_int (int n) = show_dec n" by (simp add: show_int_def)
  then have u: "strtoul (show_dec n @ rest) 10 = (int n, False, rest)"
    using assms(2) strto_show [OF assms(1), of "int n"] by (simp add: strtoul_def)
  then show ?thesis using show_int_nonempty [of "int n"]
    by (simp add: tor_parse_ulong_def u check_result s)
qed

lemma strto_suffix: "strto s base = Some (neg, m, rest) \<Longrightarrow> suffix rest s"
proof -
  assume s: "strto s base = Some (neg, m, rest)"
  have a: "suffix (snd (number_sign t)) t" for t by (auto simp: number_sign_def suffix_ConsI split: list.splits)
  have b: "suffix (snd (number_base base t)) t" for t by (simp add: number_base_def suffix_drop)
  obtain n1 t1 where 1: "number_sign (dropWhile c_isspace s) = (n1, t1)" by fastforce
  obtain b2 t2 where 2: "number_base base t1 = (b2, t2)" by fastforce
  have "rest = dropWhile (is_digit b2) t2" using s 1 2 by (simp add: strto_def split: if_splits)
  then have "suffix rest t2" by (simp add: suffix_dropWhile)
  moreover have "suffix t2 t1" using b [of t1] 2 by simp
  moreover have "suffix t1 s"
    using a [of "dropWhile c_isspace s"] 1 suffix_dropWhile [of c_isspace s] suffix_order.trans by fastforce
  ultimately show ?thesis using suffix_order.trans by blast
qed

lemma ulong_shorter:
  assumes "tor_parse_ulong s base lo hi True = (r, ok, out)" "0 \<le> base"
  shows "\<exists>rest. out = Some rest \<and> length rest \<le> length s \<and> (ok \<longrightarrow> length rest < length s)"
proof -
  obtain v er rest where u: "strtoul s base = (v, er, rest)" by (metis prod_cases3)
  have l: "suffix rest s" using u strto_suffix [of s base]
    by (auto simp: strtoul_def split: option.splits if_splits)
  have "out = Some rest \<and> (ok \<longrightarrow> rest \<noteq> s)" using assms u
    by (auto simp: tor_parse_ulong_def CHECK_STRTOX_RESULT_def Let_def split: if_splits)
  with l show ?thesis by (metis suffix_length_le suffix_length_less strict_suffix_def)
qed

section \<open>Properties\<close>

text \<open>What printf writes for an integer, the parsers read back when it lies between the bounds and
  in the range of the type, and refuse otherwise; the number ends at the first character that is no
  digit, and without a pointer for the rest nothing may follow it.\<close>

theorem parse_printed_int:
  assumes "rest = [] \<or> \<not> TOR_ISDIGIT (hd rest)" "LONG_MIN \<le> n" "n \<le> LONG_MAX"
  shows "tor_parse_long (show_int n @ rest) 10 lo hi want_next =
      (if (want_next \<or> rest = []) \<and> lo \<le> n \<and> n \<le> hi then (n, True, if want_next then Some rest else None)
       else (0, False, if want_next then Some rest else None))
    \<and> (0 \<le> n \<longrightarrow> tor_parse_uint64 (show_int n @ rest) 10 lo hi want_next = tor_parse_long (show_int n @ rest) 10 lo hi want_next)
    \<and> (n < 0 \<longrightarrow> hi < n + 2 ^ 64 \<longrightarrow> \<not> fst (snd (tor_parse_uint64 (show_int n @ rest) 10 lo hi want_next)))"
proof -
  have u: "strtoul (show_int n @ rest) 10 = (n mod 2 ^ 64, False, rest)"
    using assms(2,3) by (simp add: strtoul_def strto_show [OF assms(1)])
  have "n < 0 \<Longrightarrow> n mod 2 ^ 64 = n + 2 ^ 64" using assms(2) mod_pos_pos_trivial [of "n + 2 ^ 64" "2 ^ 64"] by simp
  moreover have "0 \<le> n \<Longrightarrow> n mod 2 ^ 64 = n" using assms(3) by simp
  ultimately show ?thesis
    using show_int_nonempty [of n]
    unfolding parse_long_show [OF assms] tor_parse_uint64_def u check_result by auto
qed

lemma parse_printed_int_witness:
  "tor_parse_long ''-42,'' 10 (-50) 50 True = (- 42, True, Some '','')"
proof -
  have "show_int (- 42) @ '','' = ''-42,''" by code_simp
  with parse_printed_int [of "'',''" "- 42" "- 50" 50 True] show ?thesis by (simp add: digit_not_special)
qed

text \<open>\<open>tor_parse_uint64\<close> and \<open>tor_parse_ulong\<close> accept a negative number and return it modulo 2^64,
  although it lies outside of every pair of unsigned bounds.\<close>

theorem parse_unsigned_accepts_negative:
  "tor_parse_uint64 ''-1'' 10 0 ULONG_MAX False = (ULONG_MAX, True, None)
   \<and> tor_parse_ulong ''-18446744073709551600'' 10 0 100 False = (16, True, None)
   \<and> \<not> fst (snd (tor_parse_long ''-1'' 10 0 LONG_MAX False))"
proof (intro conjI)
  show "tor_parse_uint64 ''-1'' 10 0 ULONG_MAX False = (ULONG_MAX, True, None)" by code_simp
  show "tor_parse_ulong ''-18446744073709551600'' 10 0 100 False = (16, True, None)" by code_simp
  show "\<not> fst (snd (tor_parse_long ''-1'' 10 0 LONG_MAX False))" by code_simp
qed

end
