(* ===== verification/Net_Params.thy ===== *)
theory Net_Params
  imports Parse_Int
begin

text \<open>
  Consensus parameters: \<open>networkstatus_get_param\<close> of src/feature/nodelist/networkstatus.c, which
  finds an entry \<open>name=value\<close> in the list of the consensus and clips the value. A consensus is
  reduced to its list of parameters; a failed assertion is \<open>None\<close>.
\<close>

record networkstatus =
  net_params :: "string list option"

fun find_param :: "string list \<Rightarrow> string \<Rightarrow> int \<Rightarrow> int" where
  "find_param [] param_name res = res"
| "find_param (p # ps) param_name res =
     (let name_len = length param_name
      in if strcmpstart p param_name = 0 \<and> name_len < length p \<and> p ! name_len = CHR ''=''
         then case tor_parse_long (drop (name_len + 1) p) 10 (- 2147483648) 2147483647 False of
                (v, ok, _) \<Rightarrow> if ok then v else find_param ps param_name res
         else find_param ps param_name res)"

definition get_net_param_from_list :: "string list \<Rightarrow> string \<Rightarrow> int \<Rightarrow> int \<Rightarrow> int \<Rightarrow> int option" where
  "get_net_param_from_list params param_name default_val min_val max_val =
     (if \<not> (max_val > min_val) \<or> \<not> (min_val \<le> default_val) \<or> \<not> (max_val \<ge> default_val) then None
      else let res = find_param params param_name default_val;
               res = (if res < min_val then min_val else if res > max_val then max_val else res)
           in Some res)"

text \<open>The second argument is the latest consensus, which the code loads when it is given none.\<close>

definition networkstatus_get_param ::
    "networkstatus option \<Rightarrow> networkstatus option \<Rightarrow> string \<Rightarrow> int \<Rightarrow> int \<Rightarrow> int \<Rightarrow> int option" where
  "networkstatus_get_param ns latest param_name default_val min_val max_val =
     (case (case ns of None \<Rightarrow> latest | Some n \<Rightarrow> Some n) of
        None \<Rightarrow> Some default_val
      | Some ns \<Rightarrow>
          (case net_params ns of
             None \<Rightarrow> Some default_val
           | Some ps \<Rightarrow> get_net_param_from_list ps param_name default_val min_val max_val))"

section \<open>Facts\<close>

lemma get_param_bounds:
  assumes "min_val < max_val" "min_val \<le> default_val" "default_val \<le> max_val"
  shows "\<exists>v. networkstatus_get_param ns latest name default_val min_val max_val = Some v \<and> min_val \<le> v \<and> v \<le> max_val"
  using assms by (auto simp: networkstatus_get_param_def get_net_param_from_list_def Let_def split: option.splits)

text \<open>An entry of another parameter.\<close>

definition param_entry :: "string \<Rightarrow> int \<Rightarrow> string" where
  "param_entry name v = name @ ''='' @ show_int v"

lemma find_param_other:
  assumes "CHR ''='' \<notin> set name" "CHR ''='' \<notin> set name'" "name \<noteq> name'"
  shows "find_param (param_entry name' v # ps) name res = find_param ps name res"
proof -
  have "\<not> (prefix name (param_entry name' v) \<and> length name < length (param_entry name' v)
      \<and> param_entry name' v ! length name = CHR ''='')"
  proof
    assume a: "prefix name (param_entry name' v) \<and> length name < length (param_entry name' v)
      \<and> param_entry name' v ! length name = CHR ''=''"
    then obtain r where r: "name' @ CHR ''='' # show_int v = name @ r" by (auto simp: prefix_def param_entry_def)
    from a have "takeWhile (\<lambda>c. c \<noteq> CHR ''='') (name @ r) = name"
      unfolding param_entry_def using assms(1) r
      by (cases r) (auto simp: takeWhile_append takeWhile_eq_all_conv nth_append)
    moreover have "takeWhile (\<lambda>c. c \<noteq> CHR ''='') (name' @ CHR ''='' # show_int v) = name'"
      using assms(2) by (auto simp: takeWhile_append takeWhile_eq_all_conv)
    ultimately show False using r assms(3) by simp
  qed
  then show ?thesis by (auto simp: Let_def strcmpstart_0)
qed

lemma find_param_here:
  assumes "- 2147483648 \<le> v" "v \<le> 2147483647"
  shows "find_param (param_entry name v # ps) name res = v"
proof -
  have "tor_parse_long (show_int v) 10 (- 2147483648) 2147483647 False = (v, True, None)"
    using parse_long_show [of "[]" v] assms by simp
  then show ?thesis by (simp add: param_entry_def strcmpstart_0 nth_append)
qed


definition param_names_ok :: "(string \<times> int) list \<Rightarrow> bool" where
  "param_names_ok kvs \<longleftrightarrow> (\<forall>(k, v) \<in> set kvs. CHR ''='' \<notin> set k \<and> - 2147483648 \<le> v \<and> v \<le> 2147483647)"

lemma find_param_map_of:
  assumes "param_names_ok kvs" "CHR ''='' \<notin> set name"
  shows "find_param (map (\<lambda>(k, v). param_entry k v) kvs) name d = (case map_of kvs name of None \<Rightarrow> d | Some v \<Rightarrow> v)"
  using assms(1)
proof (induction kvs)
  case (Cons kv kvs)
  obtain k v where kv: "kv = (k, v)" by fastforce
  from Cons.prems kv have o: "CHR ''='' \<notin> set k" "- 2147483648 \<le> v" "v \<le> 2147483647" "param_names_ok kvs"
    by (auto simp: param_names_ok_def)
  show ?case
  proof (cases "k = name")
    case True
    with kv find_param_here [OF o(2,3)] show ?thesis by simp
  next
    case False
    with kv Cons.IH [OF o(4)] find_param_other [OF assms(2) o(1)] show ?thesis by auto
  qed
qed simp

section \<open>Properties\<close>

text \<open>On a parameter list of entries name=value the first entry of the name decides, clipped to
  the bounds; without the name, or without a consensus, it is the default. The result always lies
  between the bounds when the default does.\<close>

theorem networkstatus_get_param_spec:
  assumes "min_val < max_val" "min_val \<le> default_val" "default_val \<le> max_val"
    and "param_names_ok kvs" "CHR ''='' \<notin> set name"
  shows "networkstatus_get_param (Some \<lparr>net_params = Some (map (\<lambda>(k, v). param_entry k v) kvs)\<rparr>) latest name
           default_val min_val max_val
         = Some (case map_of kvs name of None \<Rightarrow> default_val | Some v \<Rightarrow> max min_val (min max_val v))
       \<and> networkstatus_get_param None None name default_val min_val max_val = Some default_val
       \<and> (\<exists>v. networkstatus_get_param ns latest name default_val min_val max_val = Some v \<and> min_val \<le> v \<and> v \<le> max_val)"
  using assms(1-3) get_param_bounds [OF assms(1-3), of ns latest name]
  by (auto simp: networkstatus_get_param_def get_net_param_from_list_def find_param_map_of [OF assms(4,5)]
      split: option.splits)

lemma networkstatus_get_param_spec_witness:
  "networkstatus_get_param (Some \<lparr>net_params = Some [''cc_cwnd_inc_rate=7'', ''cc_cwnd_inc=5000'']\<rparr>) None
     ''cc_cwnd_inc'' 1 1 1000 = Some 1000"
proof -
  let ?kvs = "[(''cc_cwnd_inc_rate'', 7), (''cc_cwnd_inc'', 5000 :: int)]"
  have e: "map (\<lambda>(k, v). param_entry k v) ?kvs = [''cc_cwnd_inc_rate=7'', ''cc_cwnd_inc=5000'']"
    by (simp add: param_entry_def show_int_def show_dec.simps digit_char_def char_of_eq_iff)
  have "param_names_ok ?kvs" by (simp add: param_names_ok_def)
  from networkstatus_get_param_spec [THEN conjunct1, OF _ _ _ this, of 1 1000 1 "''cc_cwnd_inc''" None]
  show ?thesis unfolding e by simp
qed

end
