(* ===== verification/Congestion_Control.thy ===== *)
theory Congestion_Control
  imports Circuit_State Net_Params "HOL-Library.Monad_Syntax"
begin

text \<open>
  Congestion control, src/core/or/congestion_control_common.c and the inline functions of
  congestion_control_common.h and congestion_control_st.h: the consensus parameters, the package
  window, the count of cells in flight with the time stamps of the cells that the other end
  acknowledges, and the estimates of the round trip time and of the bandwidth-delay product.

  Static variables of the file are the record \<open>cc_globals\<close>; the clock is an argument. A failed
  assertion and a division by zero are \<open>None\<close>. Log messages and trace points are left out.
\<close>

section \<open>State and consensus parameters\<close>

record cc_globals =
  cwnd_max :: "32 word"
  cell_queue_high :: int
  cell_queue_low :: int
  or_conn_highwater :: "32 word"
  or_conn_lowwater :: "32 word"
  cc_sendme_inc :: "8 word"
  g_cc_alg :: cc_alg
  n_ewma_cwnd_pct :: "8 word"
  n_ewma_max :: "8 word"
  n_ewma_ss :: "8 word"
  bwe_sendme_min :: "8 word"
  rtt_reset_pct :: "8 word"
  is_monotime_clock_broken :: bool
  num_rtt_reset :: "64 word"
  num_clock_stalls :: "64 word"
  cc_stats_circs_created :: "64 word"
  cc_vegas_cwnd_full_gap :: int
  cc_vegas_cwnd_full_minpct :: int
  cc_cwnd_full_per_cwnd :: int
  cc_stats_vegas_above_delta :: "64 word"
  cc_stats_vegas_above_ss_cwnd_max :: "64 word"
  cc_stats_vegas_below_ss_inc_floor :: "64 word"
  cc_stats_vegas_circ_exited_ss :: "64 word"

abbreviation CELL_MAX_NETWORK_SIZE :: int where "CELL_MAX_NETWORK_SIZE \<equiv> 514"
abbreviation CELL_PAYLOAD_SIZE :: int where "CELL_PAYLOAD_SIZE \<equiv> 509"

definition TLS_RECORD_MAX_CELLS :: int where
  "TLS_RECORD_MAX_CELLS = (16 * 1024) div CELL_MAX_NETWORK_SIZE"

definition SENDME_INC_DFLT :: int where "SENDME_INC_DFLT = TLS_RECORD_MAX_CELLS"
definition CIRCWINDOW_INIT :: int where "CIRCWINDOW_INIT = 4 * SENDME_INC_DFLT"

definition cc_alg_of :: "int \<Rightarrow> cc_alg" where
  "cc_alg_of n = (if n = 0 then CC_ALG_SENDME else if n = 1 then CC_ALG_WESTWOOD
                  else if n = 2 then CC_ALG_VEGAS else CC_ALG_NOLA)"

text \<open>The initial values of the static variables.\<close>

definition cc_globals_init :: cc_globals where
  "cc_globals_init = \<lparr>cwnd_max = 2147483647, cell_queue_high = 256, cell_queue_low = 10,
     or_conn_highwater = 32 * 1024, or_conn_lowwater = 16 * 1024,
     cc_sendme_inc = word_of_int SENDME_INC_DFLT, g_cc_alg = CC_ALG_VEGAS,
     n_ewma_cwnd_pct = 50, n_ewma_max = 10, n_ewma_ss = 2, bwe_sendme_min = 5, rtt_reset_pct = 100,
     is_monotime_clock_broken = False, num_rtt_reset = 0, num_clock_stalls = 0, cc_stats_circs_created = 0,
     cc_vegas_cwnd_full_gap = 4, cc_vegas_cwnd_full_minpct = 25, cc_cwnd_full_per_cwnd = 1,
     cc_stats_vegas_above_delta = 0, cc_stats_vegas_above_ss_cwnd_max = 0,
     cc_stats_vegas_below_ss_inc_floor = 0, cc_stats_vegas_circ_exited_ss = 0\<rparr>"

definition congestion_control_new_consensus_params ::
    "cc_globals \<Rightarrow> networkstatus option \<Rightarrow> networkstatus option \<Rightarrow> cc_globals option" where
  "congestion_control_new_consensus_params g ns latest =
     do { v \<leftarrow> networkstatus_get_param ns latest ''cellq_high'' 256 1 1000;
          let g = g\<lparr>cell_queue_high := v\<rparr>;
          v \<leftarrow> networkstatus_get_param ns latest ''cellq_low'' 10 1 1000;
          let g = g\<lparr>cell_queue_low := v\<rparr>;
          v \<leftarrow> networkstatus_get_param ns latest ''orconn_high'' (32 * 1024) CELL_PAYLOAD_SIZE 2147483647;
          let g = g\<lparr>or_conn_highwater := word_of_int v\<rparr>;
          v \<leftarrow> networkstatus_get_param ns latest ''orconn_low'' (16 * 1024) CELL_PAYLOAD_SIZE 2147483647;
          let g = g\<lparr>or_conn_lowwater := word_of_int v\<rparr>;
          v \<leftarrow> networkstatus_get_param None latest ''cc_cwnd_max'' 2147483647 500 2147483647;
          let g = g\<lparr>cwnd_max := word_of_int v\<rparr>;
          v \<leftarrow> networkstatus_get_param None latest ''cc_rtt_reset_pct'' 100 0 100;
          let g = g\<lparr>rtt_reset_pct := word_of_int v\<rparr>;
          v \<leftarrow> networkstatus_get_param None latest ''cc_sendme_inc'' SENDME_INC_DFLT 1 254;
          let g = g\<lparr>cc_sendme_inc := word_of_int v\<rparr>;
          v \<leftarrow> networkstatus_get_param None latest ''cc_alg'' 2 0 3;
          let g = g\<lparr>g_cc_alg := cc_alg_of v\<rparr>;
          let g = (if g_cc_alg g \<noteq> CC_ALG_SENDME \<and> g_cc_alg g \<noteq> CC_ALG_VEGAS
                   then g\<lparr>g_cc_alg := CC_ALG_VEGAS\<rparr> else g);
          v \<leftarrow> networkstatus_get_param None latest ''cc_bwe_min'' 5 2 20;
          let g = g\<lparr>bwe_sendme_min := word_of_int v\<rparr>;
          v \<leftarrow> networkstatus_get_param None latest ''cc_ewma_cwnd_pct'' 50 1 255;
          let g = g\<lparr>n_ewma_cwnd_pct := word_of_int v\<rparr>;
          v \<leftarrow> networkstatus_get_param None latest ''cc_ewma_max'' 10 2 2147483647;
          let g = g\<lparr>n_ewma_max := word_of_int v\<rparr>;
          v \<leftarrow> networkstatus_get_param None latest ''cc_ewma_ss'' 2 2 2147483647;
          Some (g\<lparr>n_ewma_ss := word_of_int v\<rparr>) }"

definition congestion_control_enabled :: "cc_globals \<Rightarrow> bool \<Rightarrow> bool" where
  "congestion_control_enabled g AlwaysCongestionControl =
     (if AlwaysCongestionControl then True else g_cc_alg g \<noteq> CC_ALG_SENDME)"

definition is_monotime_clock_reliable :: "cc_globals \<Rightarrow> bool" where
  "is_monotime_clock_reliable g = (\<not> is_monotime_clock_broken g)"

text \<open>The arithmetic is on \<open>int\<close>, so the increment of 255 does not wrap.\<close>

definition congestion_control_validate_sendme_increment :: "cc_globals \<Rightarrow> 8 word \<Rightarrow> bool" where
  "congestion_control_validate_sendme_increment g inc =
     (if inc = 0 then False
      else if uint inc > uint (cc_sendme_inc g) + 1 \<or> uint inc < uint (cc_sendme_inc g) - 1 then False
      else True)"

section \<open>Rates of the congestion window\<close>

text \<open>Products of two bytes are computed as \<open>int\<close> and cannot wrap; here they are 64-bit words.\<close>

definition CWND_UPDATE_RATE :: "congestion_control \<Rightarrow> 64 word option" where
  "CWND_UPDATE_RATE cc =
     (if in_slow_start cc then Some 1
      else udiv (cwnd cc + (ucast (cwnd_inc_rate cc) * ucast (sendme_inc cc)) div 2)
                (ucast (cwnd_inc_rate cc) * ucast (sendme_inc cc)))"

definition SENDME_PER_CWND :: "congestion_control \<Rightarrow> 64 word option" where
  "SENDME_PER_CWND cc = udiv (cwnd cc + ucast (sendme_inc cc) div 2) (ucast (sendme_inc cc))"

definition CWND_INC :: "congestion_control \<Rightarrow> 64 word" where
  "CWND_INC cc = ucast (cwnd_inc cc)"

definition n_ewma_count :: "cc_globals \<Rightarrow> congestion_control \<Rightarrow> 64 word option" where
  "n_ewma_count g cc =
     do { ewma_cnt \<leftarrow>
            (if in_slow_start cc then Some (ucast (n_ewma_ss g))
             else do { r \<leftarrow> CWND_UPDATE_RATE cc;
                       Some (min (r * ucast (n_ewma_cwnd_pct g) div 100) (ucast (n_ewma_max g))) });
          Some (max ewma_cnt 2) }"

definition n_count_ewma :: "64 word \<Rightarrow> 64 word \<Rightarrow> 64 word \<Rightarrow> 64 word option" where
  "n_count_ewma cur prev N = (if prev = 0 then Some cur else udiv (2 * cur + (N - 1) * prev) (N + 1))"

definition percent_max_mix :: "64 word \<Rightarrow> 64 word \<Rightarrow> 8 word \<Rightarrow> 64 word" where
  "percent_max_mix a b pct_max =
     (let mx = max a b; mn = min a b
      in if pct_max > 100 then mx
         else ucast pct_max * mx div 100 + (100 - ucast pct_max) * mn div 100)"

section \<open>The package window\<close>

definition flow_of :: "circuit \<Rightarrow> nat option \<Rightarrow> int \<times> congestion_control option" where
  "flow_of circ layer_hint =
     (case layer_hint of
        Some h \<Rightarrow> (cp_package_window (cpath circ ! h), cp_ccontrol (cpath circ ! h))
      | None \<Rightarrow> (package_window circ, ccontrol circ))"

definition congestion_control_get_package_window :: "circuit \<Rightarrow> nat option \<Rightarrow> int" where
  "congestion_control_get_package_window circ layer_hint =
     (case flow_of circ layer_hint of
        (window, None) \<Rightarrow> window
      | (window, Some cc) \<Rightarrow>
          if inflight cc > cwnd cc then 0
          else if cwnd cc - inflight cc > 2147483647 then INT_MAX
          else uint (cwnd cc - inflight cc))"

abbreviation CIRCWINDOW_START :: int where "CIRCWINDOW_START \<equiv> 1000"
abbreviation CIRCWINDOW_INCREMENT :: int where "CIRCWINDOW_INCREMENT \<equiv> 100"

definition sendme_get_inc_count :: "circuit \<Rightarrow> nat option \<Rightarrow> int" where
  "sendme_get_inc_count circ layer_hint =
     (case snd (flow_of circ layer_hint) of
        Some cc \<Rightarrow> uint (sendme_inc cc)
      | None \<Rightarrow> CIRCWINDOW_INCREMENT)"

text \<open>C's remainder of an \<open>int\<close> is zero exactly when HOL's \<open>mod\<close> is.\<close>

definition circuit_sent_cell_for_sendme :: "circuit \<Rightarrow> nat option \<Rightarrow> bool option" where
  "circuit_sent_cell_for_sendme circ layer_hint =
     (case flow_of circ layer_hint of
        (window, Some cc) \<Rightarrow>
          if inflight cc = 0 then Some False
          else do { r \<leftarrow> umod (inflight cc + 1) (ucast (sendme_inc cc));
                    if r \<noteq> 0 then Some False else Some True }
      | (window, None) \<Rightarrow>
          if window = CIRCWINDOW_START then Some False
          else if (window - 1) mod CIRCWINDOW_INCREMENT \<noteq> 0 then Some False
          else Some True)"

definition enqueue_timestamp :: "64 word list \<Rightarrow> 64 word \<Rightarrow> 64 word list" where
  "enqueue_timestamp timestamps timestamp_usec = timestamps @ [timestamp_usec]"

text \<open>An empty list reads as NULL: the code takes the time stamp 0.\<close>

definition dequeue_timestamp :: "64 word list \<Rightarrow> 64 word \<times> 64 word list" where
  "dequeue_timestamp timestamps =
     (case timestamps of [] \<Rightarrow> (0, []) | t # ts \<Rightarrow> (t, ts))"

definition congestion_control_note_cell_sent ::
    "congestion_control \<Rightarrow> circuit \<Rightarrow> nat option \<Rightarrow> 64 word \<Rightarrow> congestion_control option" where
  "congestion_control_note_cell_sent cc circ layer_hint now_usec =
     do { s \<leftarrow> circuit_sent_cell_for_sendme circ layer_hint;
          if \<not> s then Some (cc\<lparr>inflight := inflight cc + 1\<rparr>)
          else do { let cc = cc\<lparr>inflight := inflight cc + 1\<rparr>;
                    Some (cc\<lparr>sendme_pending_timestamps :=
                               enqueue_timestamp (sendme_pending_timestamps cc) now_usec\<rparr>) } }"

section \<open>Estimates of the round trip time and the bandwidth-delay product\<close>

definition time_delta_should_use_heuristics :: "congestion_control \<Rightarrow> bool" where
  "time_delta_should_use_heuristics cc = (if \<not> in_slow_start cc \<and> ewma_rtt_usec cc \<noteq> 0 then True else False)"

definition time_delta_stalled_or_jumped ::
    "cc_globals \<Rightarrow> congestion_control \<Rightarrow> 64 word \<Rightarrow> 64 word \<Rightarrow> cc_globals \<times> bool" where
  "time_delta_stalled_or_jumped g cc old_delta new_delta =
     (if new_delta = 0 then (g\<lparr>is_monotime_clock_broken := True\<rparr>, True)
      else if \<not> time_delta_should_use_heuristics cc then (g, False)
      else if old_delta > new_delta * 5000 then (g, is_monotime_clock_broken g)
      else if new_delta > old_delta * 5000 then (g, True)
      else (g\<lparr>is_monotime_clock_broken := False\<rparr>, False))"

definition congestion_control_update_circuit_rtt ::
    "cc_globals \<Rightarrow> congestion_control \<Rightarrow> 64 word \<Rightarrow> (cc_globals \<times> congestion_control \<times> 64 word) option" where
  "congestion_control_update_circuit_rtt g cc now_usec =
     (case dequeue_timestamp (sendme_pending_timestamps cc) of
        (sent_at_timestamp, ts) \<Rightarrow>
          let cc = cc\<lparr>sendme_pending_timestamps := ts\<rparr>;
              rtt = now_usec - sent_at_timestamp
          in case time_delta_stalled_or_jumped g cc (ewma_rtt_usec cc) rtt of
               (g, True) \<Rightarrow> Some (g\<lparr>num_clock_stalls := num_clock_stalls g + 1\<rparr>, cc, 0)
             | (g, False) \<Rightarrow>
                 do { ewma_cnt \<leftarrow> n_ewma_count g cc;
                      ewma \<leftarrow> n_count_ewma rtt (ewma_rtt_usec cc) ewma_cnt;
                      let cc = cc\<lparr>ewma_rtt_usec := ewma\<rparr>;
                      let cc = (if rtt > max_rtt_usec cc then cc\<lparr>max_rtt_usec := rtt\<rparr> else cc);
                      if min_rtt_usec cc = 0 then
                        Some (g, cc\<lparr>min_rtt_usec := ewma_rtt_usec cc\<rparr>, rtt)
                      else if cwnd cc = ucast (cwnd_min cc) \<and> \<not> in_slow_start cc then
                        let new_rtt = percent_max_mix (ewma_rtt_usec cc) (min_rtt_usec cc) (rtt_reset_pct g)
                        in Some (g\<lparr>num_rtt_reset := num_rtt_reset g + 1\<rparr>, cc\<lparr>min_rtt_usec := new_rtt\<rparr>, rtt)
                      else if ewma_rtt_usec cc < min_rtt_usec cc then
                        Some (g, cc\<lparr>min_rtt_usec := ewma_rtt_usec cc\<rparr>, rtt)
                      else Some (g, cc, rtt) })"

text \<open>The comparison of \<open>chan_q\<close> with the window casts the window to a signed 64-bit number, the
  subtraction casts \<open>chan_q\<close> to an unsigned one.\<close>

definition congestion_control_update_circuit_bdp ::
    "congestion_control \<Rightarrow> circuit \<Rightarrow> 64 word \<Rightarrow> (congestion_control \<times> bool) option" where
  "congestion_control_update_circuit_bdp cc circ curr_rtt_usec =
     (case (if CIRCUIT_IS_ORIGIN circ then (n_chan_cells_n circ, circuit_blocked_on_n_chan circ)
            else (p_chan_cells_n circ, circuit_blocked_on_p_chan circ)) of
        (chan_q, blocked_on_chan) \<Rightarrow>
          if ewma_rtt_usec cc = 0 then
            let w = cwnd cc;
                w = (if blocked_on_chan then
                       (if chan_q \<ge> sint w then ucast (cwnd_min cc)
                        else max (w - word_of_int chan_q) (ucast (cwnd_min cc)))
                     else w)
            in Some (cc\<lparr>blocked_chan := blocked_on_chan, bdp := w\<rparr>, blocked_on_chan)
          else
            do { b \<leftarrow> udiv (cwnd cc * min_rtt_usec cc) (ewma_rtt_usec cc);
                 let cc = cc\<lparr>bdp := b\<rparr>;
                 let cc = (if blocked_on_chan then
                             (if \<not> blocked_chan cc then cc\<lparr>next_cc_event := 0, blocked_chan := True\<rparr> else cc)
                           else
                             (if blocked_chan cc then cc\<lparr>blocked_chan := False, next_cc_event := 0\<rparr> else cc));
                 Some (cc, blocked_on_chan \<or> curr_rtt_usec \<noteq> 0) })"

definition congestion_control_update_circuit_estimates ::
    "cc_globals \<Rightarrow> congestion_control \<Rightarrow> circuit \<Rightarrow> 64 word
       \<Rightarrow> (cc_globals \<times> congestion_control \<times> bool) option" where
  "congestion_control_update_circuit_estimates g cc circ now_usec =
     do { (g, cc, curr_rtt_usec) \<leftarrow> congestion_control_update_circuit_rtt g cc now_usec;
          (cc, r) \<leftarrow> congestion_control_update_circuit_bdp cc circ curr_rtt_usec;
          Some (g, cc, r) }"

end
