(* ===== verification/Congestion_Vegas.thy ===== *)
theory Congestion_Vegas
  imports Congestion_Control
begin

text \<open>
  The TOR_VEGAS algorithm of src/core/or/congestion_control_vegas.c, and the functions of
  src/core/or/congestion_control_common.c that set up a congestion control object and dispatch a
  SENDME to the algorithm.

  Left out are the running averages (\<open>double\<close>) of the metrics port and the text of log messages;
  the logging function divides, so its division stays. Calls into other subsystems are returned as
  a list of events.
\<close>

datatype cc_event = Circ_Bandwidth_Used | Conflux_Update_Rtt "64 word"

section \<open>Set-up\<close>

definition OUTBUF_CELLS :: int where "OUTBUF_CELLS = 2 * TLS_RECORD_MAX_CELLS"

text \<open>The suffix of the parameter names of a path, and the defaults of alpha, beta, gamma, delta and
  of the slow start cap.\<close>

definition vegas_defaults :: "cc_path \<Rightarrow> string \<times> int \<times> int \<times> int \<times> int \<times> int" where
  "vegas_defaults path =
     (case path of
        CC_PATH_SBWS \<Rightarrow> (''sbws'', 2 * OUTBUF_CELLS - TLS_RECORD_MAX_CELLS, 2 * OUTBUF_CELLS + TLS_RECORD_MAX_CELLS,
                         2 * OUTBUF_CELLS, 4 * OUTBUF_CELLS, 400)
      | CC_PATH_EXIT \<Rightarrow> (''exit'', 3 * OUTBUF_CELLS, 4 * OUTBUF_CELLS, 3 * OUTBUF_CELLS, 5 * OUTBUF_CELLS, 600)
      | CC_PATH_ONION_SOS \<Rightarrow> (''exit'', 3 * OUTBUF_CELLS, 4 * OUTBUF_CELLS, 3 * OUTBUF_CELLS, 5 * OUTBUF_CELLS, 600)
      | CC_PATH_ONION \<Rightarrow> (''onion'', 3 * OUTBUF_CELLS, 6 * OUTBUF_CELLS, 4 * OUTBUF_CELLS, 7 * OUTBUF_CELLS, 475)
      | CC_PATH_ONION_VG \<Rightarrow> (''onion'', 3 * OUTBUF_CELLS, 6 * OUTBUF_CELLS, 4 * OUTBUF_CELLS, 7 * OUTBUF_CELLS, 475))"

definition congestion_control_vegas_set_params ::
    "cc_globals \<Rightarrow> congestion_control \<Rightarrow> cc_path \<Rightarrow> networkstatus option
       \<Rightarrow> (cc_globals \<times> congestion_control) option" where
  "congestion_control_vegas_set_params g cc path latest =
     (if cc_cc_alg cc \<noteq> CC_ALG_VEGAS then None
      else case vegas_defaults path of (sfx, alpha_d, beta_d, gamma_d, delta_d, cap_d) \<Rightarrow>
        do { cap \<leftarrow> networkstatus_get_param None latest (''cc_sscap_'' @ sfx) cap_d 100 2147483647;
             mx \<leftarrow> networkstatus_get_param None latest ''cc_ss_max'' 5000 500 2147483647;
             a \<leftarrow> networkstatus_get_param None latest (''cc_vegas_alpha_'' @ sfx) alpha_d 0 1000;
             b \<leftarrow> networkstatus_get_param None latest (''cc_vegas_beta_'' @ sfx) beta_d 0 1000;
             c \<leftarrow> networkstatus_get_param None latest (''cc_vegas_gamma_'' @ sfx) gamma_d 0 1000;
             d \<leftarrow> networkstatus_get_param None latest (''cc_vegas_delta_'' @ sfx) delta_d 0 2147483647;
             minpct \<leftarrow> networkstatus_get_param None latest ''cc_cwnd_full_minpct'' 25 0 100;
             gap \<leftarrow> networkstatus_get_param None latest ''cc_cwnd_full_gap'' 4 0 32767;
             per \<leftarrow> networkstatus_get_param None latest ''cc_cwnd_full_per_cwnd'' 1 0 1;
             Some (g\<lparr>cc_vegas_cwnd_full_minpct := minpct, cc_vegas_cwnd_full_gap := gap,
                     cc_cwnd_full_per_cwnd := per\<rparr>,
                   cc\<lparr>cc_vegas := \<lparr>ss_cwnd_cap = word_of_int cap, ss_cwnd_max = word_of_int mx,
                        gamma = word_of_int c, alpha = word_of_int a, beta = word_of_int b,
                        delta = word_of_int d\<rparr>\<rparr>) })"

text \<open>\<open>circuit_params_t\<close>, reduced to the negotiated increment.\<close>

definition congestion_control_init_params ::
    "cc_globals \<Rightarrow> congestion_control \<Rightarrow> 8 word \<Rightarrow> cc_path \<Rightarrow> bool \<Rightarrow> networkstatus option
       \<Rightarrow> (cc_globals \<times> congestion_control) option" where
  "congestion_control_init_params g cc sendme_inc_cells path AlwaysCongestionControl latest =
     do { let cc = cc\<lparr>sendme_inc := sendme_inc_cells\<rparr>;
          v \<leftarrow> networkstatus_get_param None latest ''cc_cwnd_init'' CIRCWINDOW_INIT SENDME_INC_DFLT 10000;
          let cc = cc\<lparr>cwnd := word_of_int v\<rparr>;
          v \<leftarrow> networkstatus_get_param None latest ''cc_cwnd_inc_pct_ss'' 100 1 500;
          let cc = cc\<lparr>cwnd_inc_pct_ss := word_of_int v\<rparr>;
          v \<leftarrow> networkstatus_get_param None latest ''cc_cwnd_inc'' 1 1 1000;
          let cc = cc\<lparr>cwnd_inc := word_of_int v\<rparr>;
          v \<leftarrow> networkstatus_get_param None latest ''cc_cwnd_inc_rate'' SENDME_INC_DFLT 1 250;
          let cc = cc\<lparr>cwnd_inc_rate := word_of_int v\<rparr>;
          v \<leftarrow> networkstatus_get_param None latest ''cc_cwnd_min'' CIRCWINDOW_INIT SENDME_INC_DFLT 1000;
          let cc = cc\<lparr>cwnd_min := word_of_int v\<rparr>;
          let cc = (if g_cc_alg g = CC_ALG_SENDME \<and> AlwaysCongestionControl then cc\<lparr>cc_cc_alg := CC_ALG_VEGAS\<rparr>
                    else cc\<lparr>cc_cc_alg := g_cc_alg g\<rparr>);
          if cc_cc_alg cc = CC_ALG_VEGAS then congestion_control_vegas_set_params g cc path latest
          else Some (g, cc) }"

text \<open>The zeroed memory of \<open>tor_malloc_zero\<close>.\<close>

definition cc_zero :: congestion_control where
  "cc_zero = \<lparr>sendme_pending_timestamps = [], ewma_rtt_usec = 0, min_rtt_usec = 0, max_rtt_usec = 0, bdp = 0,
     cwnd = 0, inflight = 0, next_cc_event = 0, next_cwnd_event = 0, in_slow_start = False, cwnd_full = False,
     blocked_chan = False, cwnd_inc_pct_ss = 0, cwnd_inc = 0, cwnd_min = 0, cwnd_inc_rate = 0, sendme_inc = 0,
     cc_cc_alg = CC_ALG_SENDME,
     cc_vegas = \<lparr>ss_cwnd_cap = 0, ss_cwnd_max = 0, gamma = 0, alpha = 0, beta = 0, delta = 0\<rparr>\<rparr>"

definition congestion_control_init ::
    "cc_globals \<Rightarrow> congestion_control \<Rightarrow> 8 word \<Rightarrow> cc_path \<Rightarrow> bool \<Rightarrow> networkstatus option
       \<Rightarrow> (cc_globals \<times> congestion_control) option" where
  "congestion_control_init g cc sendme_inc_cells path AlwaysCongestionControl latest =
     do { let cc = cc\<lparr>sendme_pending_timestamps := [], in_slow_start := True\<rparr>;
          (g, cc) \<leftarrow> congestion_control_init_params g cc sendme_inc_cells path AlwaysCongestionControl latest;
          r \<leftarrow> CWND_UPDATE_RATE cc;
          Some (g, cc\<lparr>next_cc_event := ucast r\<rparr>) }"

definition congestion_control_new ::
    "cc_globals \<Rightarrow> 8 word \<Rightarrow> cc_path \<Rightarrow> bool \<Rightarrow> networkstatus option
       \<Rightarrow> (cc_globals \<times> congestion_control) option" where
  "congestion_control_new g sendme_inc_cells path AlwaysCongestionControl latest =
     do { (g, cc) \<leftarrow> congestion_control_init g cc_zero sendme_inc_cells path AlwaysCongestionControl latest;
          Some (g\<lparr>cc_stats_circs_created := cc_stats_circs_created g + 1\<rparr>, cc) }"

section \<open>Processing a SENDME\<close>

definition vegas_bdp :: "congestion_control \<Rightarrow> 64 word" where
  "vegas_bdp cc = bdp cc"

text \<open>The division of the bandwidth estimate in the log message.\<close>

definition congestion_control_vegas_log :: "congestion_control \<Rightarrow> unit option" where
  "congestion_control_vegas_log cc =
     do { udiv (cwnd cc * word_of_int CELL_MAX_NETWORK_SIZE * 1000) (max (min_rtt_usec cc) (ewma_rtt_usec cc));
          Some () }"

definition rfc3742_ss_inc :: "congestion_control \<Rightarrow> 64 word option" where
  "rfc3742_ss_inc cc =
     (if cwnd cc \<le> ucast (ss_cwnd_cap (cc_vegas cc))
      then Some ((ucast (cwnd_inc_pct_ss cc) * ucast (sendme_inc cc) + 50) div 100)
      else do { q \<leftarrow> udiv (ucast (sendme_inc cc) * ucast (ss_cwnd_cap (cc_vegas cc)) + cwnd cc) (2 * cwnd cc);
                Some (max q 1) })"

definition congestion_control_vegas_exit_slow_start ::
    "cc_globals \<Rightarrow> congestion_control \<Rightarrow> circuit \<Rightarrow> (cc_globals \<times> congestion_control \<times> cc_event list) option" where
  "congestion_control_vegas_exit_slow_start g cc circ =
     do { congestion_control_vegas_log cc;
          let cc = cc\<lparr>in_slow_start := False\<rparr>;
          congestion_control_vegas_log cc;
          rfc3742_ss_inc cc;
          Some (g\<lparr>cc_stats_vegas_circ_exited_ss := cc_stats_vegas_circ_exited_ss g + 1\<rparr>, cc,
                if CIRCUIT_IS_ORIGIN circ then [Circ_Bandwidth_Used] else []) }"

definition cwnd_became_full :: "cc_globals \<Rightarrow> congestion_control \<Rightarrow> bool" where
  "cwnd_became_full g cc =
     (if inflight cc + word_of_int (cc_vegas_cwnd_full_gap g * uint (sendme_inc cc)) \<ge> cwnd cc then True else False)"

definition cwnd_became_nonfull :: "cc_globals \<Rightarrow> congestion_control \<Rightarrow> bool" where
  "cwnd_became_nonfull g cc =
     (if 100 * inflight cc < word_of_int (cc_vegas_cwnd_full_minpct g) * cwnd cc then True else False)"

definition cwnd_full_reset :: "cc_globals \<Rightarrow> congestion_control \<Rightarrow> bool option" where
  "cwnd_full_reset g cc =
     (if cc_cwnd_full_per_cwnd g \<noteq> 0 then do { s \<leftarrow> SENDME_PER_CWND cc; Some (ucast (next_cwnd_event cc) = s) }
      else do { r \<leftarrow> CWND_UPDATE_RATE cc; Some (ucast (next_cc_event cc) = r) })"

definition vegas_update_full :: "cc_globals \<Rightarrow> congestion_control \<Rightarrow> congestion_control" where
  "vegas_update_full g cc =
     (if cwnd_became_full g cc then cc\<lparr>cwnd_full := True\<rparr>
      else if cwnd_became_nonfull g cc then cc\<lparr>cwnd_full := False\<rparr> else cc)"

definition vegas_slow_start ::
    "cc_globals \<Rightarrow> congestion_control \<Rightarrow> circuit \<Rightarrow> 64 word
       \<Rightarrow> (cc_globals \<times> congestion_control \<times> cc_event list) option" where
  "vegas_slow_start g cc circ queue_use =
     do { (g, cc, evs) \<leftarrow>
            (if queue_use < ucast (gamma (cc_vegas cc)) \<and> \<not> blocked_chan cc then
               (if cwnd_full cc then
                  do { inc \<leftarrow> rfc3742_ss_inc cc;
                       let cc = cc\<lparr>cwnd := cwnd cc + inc\<rparr>;
                       s \<leftarrow> SENDME_PER_CWND cc;
                       if inc * s \<le> CWND_INC cc * ucast (cwnd_inc_rate cc)
                       then do { (g, cc, evs) \<leftarrow> congestion_control_vegas_exit_slow_start g cc circ;
                                 Some (g\<lparr>cc_stats_vegas_below_ss_inc_floor := cc_stats_vegas_below_ss_inc_floor g + 1\<rparr>,
                                       cc, evs) }
                       else Some (g, cc, []) }
                else Some (g, cc, []))
             else congestion_control_vegas_exit_slow_start g
                    (cc\<lparr>cwnd := vegas_bdp cc + ucast (gamma (cc_vegas cc))\<rparr>) circ);
          if cwnd cc \<ge> ucast (ss_cwnd_max (cc_vegas cc))
          then do { let cc = cc\<lparr>cwnd := ucast (ss_cwnd_max (cc_vegas cc))\<rparr>;
                    (g, cc, evs') \<leftarrow> congestion_control_vegas_exit_slow_start g cc circ;
                    Some (g\<lparr>cc_stats_vegas_above_ss_cwnd_max := cc_stats_vegas_above_ss_cwnd_max g + 1\<rparr>,
                          cc, evs @ evs') }
          else Some (g, cc, evs) }"

definition vegas_steady_state ::
    "cc_globals \<Rightarrow> congestion_control \<Rightarrow> 64 word \<Rightarrow> (cc_globals \<times> congestion_control) option" where
  "vegas_steady_state g cc queue_use =
     (case (if queue_use > ucast (delta (cc_vegas cc)) then
              (g\<lparr>cc_stats_vegas_above_delta := cc_stats_vegas_above_delta g + 1\<rparr>,
               cc\<lparr>cwnd := vegas_bdp cc + ucast (delta (cc_vegas cc)) - CWND_INC cc\<rparr>)
            else if queue_use > ucast (beta (cc_vegas cc)) \<or> blocked_chan cc then
              (g, cc\<lparr>cwnd := cwnd cc - CWND_INC cc\<rparr>)
            else if cwnd_full cc \<and> queue_use < ucast (alpha (cc_vegas cc)) then
              (g, cc\<lparr>cwnd := cwnd cc + CWND_INC cc\<rparr>)
            else (g, cc)) of
        (g, cc) \<Rightarrow>
          do { let cc = cc\<lparr>cwnd := max (cwnd cc) (ucast (cwnd_min cc))\<rparr>;
               congestion_control_vegas_log cc;
               Some (g, cc) })"

text \<open>The end of a SENDME: the counters restart, the window may count as not full again, and the
  acknowledged cells are no longer in flight.\<close>

definition vegas_finish :: "cc_globals \<Rightarrow> congestion_control \<Rightarrow> congestion_control option" where
  "vegas_finish g cc =
     do { s \<leftarrow> (if next_cwnd_event cc = 0 then do { s \<leftarrow> SENDME_PER_CWND cc; Some (ucast s) }
                 else Some (next_cwnd_event cc));
          let cc = cc\<lparr>next_cwnd_event := s\<rparr>;
          r \<leftarrow> (if next_cc_event cc = 0 then do { r \<leftarrow> CWND_UPDATE_RATE cc; Some (ucast r) }
                 else Some (next_cc_event cc));
          let cc = cc\<lparr>next_cc_event := r\<rparr>;
          f \<leftarrow> cwnd_full_reset g cc;
          let cc = (if f then cc\<lparr>cwnd_full := False\<rparr> else cc);
          Some (cc\<lparr>inflight := inflight cc - ucast (sendme_inc cc)\<rparr>) }"

definition congestion_control_vegas_process_sendme ::
    "cc_globals \<Rightarrow> congestion_control \<Rightarrow> circuit \<Rightarrow> 64 word
       \<Rightarrow> (cc_globals \<times> congestion_control \<times> cc_event list \<times> int) option" where
  "congestion_control_vegas_process_sendme g cc circ now_usec =
     (if cc_cc_alg cc \<noteq> CC_ALG_VEGAS then None
      else
        do { let cc = (if next_cc_event cc \<noteq> 0 then cc\<lparr>next_cc_event := next_cc_event cc - 1\<rparr> else cc);
             let cc = (if next_cwnd_event cc \<noteq> 0 then cc\<lparr>next_cwnd_event := next_cwnd_event cc - 1\<rparr> else cc);
             (g, cc, updated) \<leftarrow> congestion_control_update_circuit_estimates g cc circ now_usec;
             if \<not> updated then Some (g, cc\<lparr>inflight := inflight cc - ucast (sendme_inc cc)\<rparr>, [], 0)
             else
               do { let queue_use = (if vegas_bdp cc > cwnd cc then 0 else cwnd cc - vegas_bdp cc);
                    let cc = vegas_update_full g cc;
                    (g, cc, evs) \<leftarrow>
                      (if in_slow_start cc then vegas_slow_start g cc circ queue_use
                       else if next_cc_event cc = 0 then
                         do { (g, cc) \<leftarrow> vegas_steady_state g cc queue_use; Some (g, cc, []) }
                       else Some (g, cc, []));
                    cc \<leftarrow> vegas_finish g cc;
                    Some (g, cc, evs, 0) } })"

definition congestion_control_dispatch_cc_alg ::
    "cc_globals \<Rightarrow> congestion_control \<Rightarrow> circuit \<Rightarrow> 64 word
       \<Rightarrow> (cc_globals \<times> congestion_control \<times> cc_event list \<times> int) option" where
  "congestion_control_dispatch_cc_alg g cc circ now_usec =
     do { (g, cc, evs, ret) \<leftarrow> congestion_control_vegas_process_sendme g cc circ now_usec;
          let cc = (if cwnd cc > ucast (cwnd_max g) then cc\<lparr>cwnd := ucast (cwnd_max g)\<rparr> else cc);
          let evs = (if has_conflux circ \<and> ewma_rtt_usec cc \<noteq> 0
                     then evs @ [Conflux_Update_Rtt (ewma_rtt_usec cc)] else evs);
          Some (g, cc, evs, ret) }"

end
