(* ===== verification/Congestion_Correct.thy ===== *)
theory Congestion_Correct
  imports Congestion_Vegas
begin

text \<open>
  What congestion control keeps: the estimates of the round trip time stay between the measured
  values, the window stays between its bounds, and the queue of time stamps has one entry for each
  acknowledgement that is still due. The window, times and counters are compared as natural
  numbers.
\<close>

section \<open>Arithmetic\<close>

lemma byte_product: "unat (ucast (a :: 8 word) * ucast (b :: 8 word) :: 64 word) = unat a * unat b"
proof -
  have "unat a * unat b \<le> 255 * 255" using unat_lt8 [of a] unat_lt8 [of b] by (intro mult_mono) auto
  then show ?thesis by (subst unat_mult64) (simp_all add: word_nat)
qed

lemma ucast64_eq_0: "(ucast (a :: 8 word) :: 64 word) = 0 \<longleftrightarrow> a = 0"
  by (simp add: unat_eq_zero [symmetric] word_nat del: unat_eq_zero)

lemma byte_product_0: "(ucast (a :: 8 word) * ucast (b :: 8 word) :: 64 word) = 0 \<longleftrightarrow> a = 0 \<or> b = 0"
  by (metis byte_product mult_eq_0_iff unat_eq_zero)

lemma update_rate:
  assumes "cwnd_inc_rate cc \<noteq> 0" "sendme_inc cc \<noteq> 0"
  shows "\<exists>r. CWND_UPDATE_RATE cc = Some r"
  using assms by (simp add: CWND_UPDATE_RATE_def byte_product_0 udiv_def)

lemma sendme_per_cwnd: "sendme_inc cc \<noteq> 0 \<Longrightarrow> \<exists>r. SENDME_PER_CWND cc = Some r"
  by (simp add: SENDME_PER_CWND_def udiv_def ucast64_eq_0)

lemma ewma_count:
  assumes "cwnd_inc_rate cc \<noteq> 0" "sendme_inc cc \<noteq> 0"
  shows "\<exists>N. n_ewma_count g cc = Some N \<and> 2 \<le> unat N \<and> unat N \<le> 255"
proof -
  obtain r where r: "CWND_UPDATE_RATE cc = Some r" using update_rate [OF assms] by blast
  have "unat (n_ewma_ss g) \<le> 255" "unat (n_ewma_max g) \<le> 255"
    using unat_lt8 [of "n_ewma_ss g"] unat_lt8 [of "n_ewma_max g"] by simp_all
  then show ?thesis by (auto simp: n_ewma_count_def r word_nat intro: min.coboundedI2)
qed

text \<open>The average lies between the two values.\<close>

lemma ewma_between:
  assumes "n_count_ewma cur prev N = Some e" "prev \<noteq> 0" "2 \<le> unat N" "unat N \<le> 255"
    and "unat cur < 2 ^ 54" "unat prev < 2 ^ 54"
  shows "min (unat cur) (unat prev) \<le> unat e \<and> unat e \<le> max (unat cur) (unat prev)"
proof -
  let ?c = "unat cur" and ?p = "unat prev" and ?n = "unat N"
  have "?n * ?p \<le> 255 * 2 ^ 54" using assms(4,6) by (intro mult_mono) auto
  moreover have "(?n - 1) * ?p + ?p = ?n * ?p" using assms(3) by (simp add: mult_eq_if)
  ultimately have b: "(?n - 1) * ?p \<le> 255 * 2 ^ 54" by linarith
  have 1: "unat (N - 1) = ?n - 1" using assms(3) by (subst unat_sub64) (simp_all add: unat_le64)
  have 2: "unat (N + 1) = ?n + 1" using assms(4) by (subst unat_add64) simp_all
  have 3: "unat ((N - 1) * prev) = (?n - 1) * ?p" using b by (subst unat_mult64) (simp_all add: 1)
  have 4: "unat (2 * cur) = 2 * ?c" using assms(5) by (subst unat_mult64) simp_all
  have "unat (2 * cur + (N - 1) * prev) = 2 * ?c + (?n - 1) * ?p"
    using b assms(5) by (subst unat_add64) (simp_all add: 3 4)
  then have e: "unat e = (2 * ?c + (?n - 1) * ?p) div (?n + 1)"
    using assms(1,2) by (simp add: n_count_ewma_def unat_div64 2)
  have m: "(?n + 1) * k = 2 * k + (?n - 1) * k" for k
    using assms(3) by (cases ?n) (simp_all add: algebra_simps)
  have "(?n + 1) * min ?c ?p \<le> 2 * ?c + (?n - 1) * ?p"
    unfolding m by (intro add_mono mult_mono) auto
  then have "min ?c ?p \<le> unat e" unfolding e by (subst less_eq_div_iff_mult_less_eq) (auto simp: mult.commute)
  moreover have "2 * ?c + (?n - 1) * ?p \<le> (?n + 1) * max ?c ?p"
    unfolding m by (intro add_mono mult_mono) auto
  then have "unat e \<le> max ?c ?p"
    unfolding e
    using div_le_mono [of "2 * ?c + (?n - 1) * ?p" "(?n + 1) * max ?c ?p" "?n + 1"]
      nonzero_mult_div_cancel_left [of "?n + 1" "max ?c ?p"] by simp
  ultimately show ?thesis by simp
qed

lemma percent_mix_le:
  assumes "unat a \<le> 2 ^ 54" "unat b \<le> 2 ^ 54"
  shows "unat (percent_max_mix a b p) \<le> max (unat a) (unat b)"
proof (cases "p > 100")
  case True
  then show ?thesis by (simp add: percent_max_mix_def Let_def unat_max64)
next
  case False
  let ?mx = "max (unat a) (unat b)" and ?mn = "min (unat a) (unat b)" and ?p = "unat p"
  from False have p: "?p \<le> 100" by (simp add: word_less_nat_alt)
  have mx: "?mx \<le> 2 ^ 54" "?mn \<le> ?mx" "?mn \<le> 2 ^ 54" using assms by (simp_all add: min.coboundedI1)
  have l: "?p * ?mx \<le> 100 * 2 ^ 54" "(100 - ?p) * ?mn \<le> 100 * 2 ^ 54"
    using p mx by (intro mult_mono; simp)+
  have u: "unat (100 - ucast p :: 64 word) = 100 - ?p" using p by (subst unat_sub64) (simp_all add: word_nat)
  have 1: "unat (ucast p * max a b) = ?p * ?mx" using l by (subst unat_mult64) (simp_all add: word_nat)
  have 2: "unat ((100 - ucast p) * min a b) = (100 - ?p) * ?mn"
    using l by (subst unat_mult64) (simp_all add: word_nat u)
  have 3: "unat (ucast p * max a b div 100) = ?p * ?mx div 100" "unat ((100 - ucast p) * min a b div 100) = (100 - ?p) * ?mn div 100"
    by (simp_all add: unat_div64 1 2)
  have "?p * ?mx div 100 \<le> 2 ^ 54" "(100 - ?p) * ?mn div 100 \<le> 2 ^ 54"
    using div_le_mono [OF l(1), of 100] div_le_mono [OF l(2), of 100] by simp_all
  then have "unat (percent_max_mix a b p) = ?p * ?mx div 100 + (100 - ?p) * ?mn div 100"
    using False by (simp add: percent_max_mix_def Let_def unat_add64 3)
  also have "\<dots> \<le> (?p * ?mx + (100 - ?p) * ?mn) div 100"
    by (subst div_add1_eq [of "?p * ?mx"]) (rule le_add1)
  also have "\<dots> \<le> (?p * ?mx + (100 - ?p) * ?mx) div 100"
    by (intro div_le_mono add_left_mono mult_left_mono mx(2)) (rule zero_le)
  also have "?p * ?mx + (100 - ?p) * ?mx = 100 * ?mx" using p by (simp only: add_mult_distrib [symmetric] le_add_diff_inverse)
  finally show ?thesis by simp
qed

lemma ss_inc:
  assumes "unat (cwnd cc) < 2 ^ 63"
  shows "\<exists>i. rfc3742_ss_inc cc = Some i \<and> unat i < 2 ^ 24"
proof (cases "cwnd cc \<le> ucast (ss_cwnd_cap (cc_vegas cc))")
  case True
  let ?a = "ucast (cwnd_inc_pct_ss cc) :: 64 word" and ?b = "ucast (sendme_inc cc) :: 64 word"
  have "unat (cwnd_inc_pct_ss cc) * unat (sendme_inc cc) \<le> 65535 * 255"
    using unat_lt16 [of "cwnd_inc_pct_ss cc"] unat_lt8 [of "sendme_inc cc"] by (intro mult_mono) simp_all
  then have m: "unat (?a * ?b) \<le> 65535 * 255" by (subst unat_mult64) (simp_all add: word_nat)
  then have "unat (?a * ?b + 50) \<le> 65535 * 255 + 50" by (subst unat_add64) simp_all
  then have "unat ((?a * ?b + 50) div 100) \<le> (65535 * 255 + 50) div 100"
    unfolding unat_div64 by (simp add: div_le_mono)
  with True show ?thesis by (simp add: rfc3742_ss_inc_def)
next
  case False
  let ?c = "unat (cwnd cc)" and ?cap = "unat (ss_cwnd_cap (cc_vegas cc))" and ?i = "unat (sendme_inc cc)"
  from False have c: "?cap < ?c" by (simp add: word_nat)
  have "?i \<le> 255" using unat_lt8 [of "sendme_inc cc"] by simp
  then have "?i * ?cap \<le> 255 * ?cap" by (rule mult_right_mono) simp
  moreover have "?cap < 4294967296" by (rule unat_lt32)
  ultimately have k: "?i * ?cap < 1099511627776" by linarith
  then have m: "unat (ucast (sendme_inc cc) * ucast (ss_cwnd_cap (cc_vegas cc)) :: 64 word) = ?i * ?cap"
    by (subst unat_mult64) (simp_all add: word_nat)
  have 2: "unat (2 * cwnd cc) = 2 * ?c" using assms by (subst unat_mult64) simp_all
  have s: "unat (ucast (sendme_inc cc) * ucast (ss_cwnd_cap (cc_vegas cc)) + cwnd cc) = ?i * ?cap + ?c"
    using m k assms by (subst unat_add64) simp_all
  have "(?i * ?cap + ?c) div (2 * ?c) \<le> (256 * ?c) div (2 * ?c)"
    using \<open>?i * ?cap \<le> 255 * ?cap\<close> c by (intro div_le_mono) linarith
  also have "\<dots> = 128" using c by simp
  finally have "unat ((ucast (sendme_inc cc) * ucast (ss_cwnd_cap (cc_vegas cc)) + cwnd cc) div (2 * cwnd cc)) \<le> 128"
    by (simp only: unat_div64 s 2)
  moreover have "2 * cwnd cc \<noteq> 0" using 2 c by (metis mult_is_0 less_nat_zero_code numeral_eq_Suc nat.distinct(1) unat_0)
  ultimately show ?thesis using False by (simp add: rfc3742_ss_inc_def word_nat udiv_def)
qed


section \<open>The estimates\<close>

abbreviation RTT_LIMIT :: nat where "RTT_LIMIT \<equiv> 2 ^ 30"

lemma update_rtt:
  assumes "cwnd_inc_rate cc \<noteq> 0" "sendme_inc cc \<noteq> 0" "sendme_pending_timestamps cc = t # ts"
    and "unat (now - t) \<le> RTT_LIMIT" "unat (ewma_rtt_usec cc) \<le> RTT_LIMIT" "unat (min_rtt_usec cc) \<le> RTT_LIMIT"
  shows "\<exists>g' e mx mn rtt. congestion_control_update_circuit_rtt g cc now =
      Some (g', cc\<lparr>sendme_pending_timestamps := ts, ewma_rtt_usec := e, max_rtt_usec := mx, min_rtt_usec := mn\<rparr>, rtt)
    \<and> unat e \<le> RTT_LIMIT \<and> unat mn \<le> RTT_LIMIT \<and> (rtt \<noteq> 0 \<longrightarrow> e \<noteq> 0)
    \<and> (ewma_rtt_usec cc \<noteq> 0 \<longrightarrow> e \<noteq> 0) \<and> (ewma_rtt_usec cc = 0 \<longrightarrow> now \<noteq> t \<longrightarrow> rtt \<noteq> 0)
    \<and> cwnd_max g' = cwnd_max g
    \<and> (min_rtt_usec cc \<le> ewma_rtt_usec cc \<longrightarrow> \<not> (cwnd cc = ucast (cwnd_min cc) \<and> \<not> in_slow_start cc) \<longrightarrow> mn \<le> e)"
proof -
  let ?cc = "cc\<lparr>sendme_pending_timestamps := ts\<rparr>"
  let ?rtt = "now - t"
  obtain g1 b where j: "time_delta_stalled_or_jumped g ?cc (ewma_rtt_usec cc) ?rtt = (g1, b)" by fastforce
  then have g1: "cwnd_max g1 = cwnd_max g"
    by (auto simp: time_delta_stalled_or_jumped_def split: if_splits)
  show ?thesis
  proof (cases b)
    case True
    have "now \<noteq> t \<Longrightarrow> ewma_rtt_usec cc \<noteq> 0"
      using j True by (auto simp: time_delta_stalled_or_jumped_def time_delta_should_use_heuristics_def split: if_splits)
    with True j g1 assms show ?thesis
      by (intro exI [of _ "g1\<lparr>num_clock_stalls := num_clock_stalls g1 + 1\<rparr>"] exI [of _ "ewma_rtt_usec cc"]
          exI [of _ "max_rtt_usec cc"] exI [of _ "min_rtt_usec cc"] exI [of _ 0])
        (auto simp: congestion_control_update_circuit_rtt_def dequeue_timestamp_def)
  next
    case False
    with j have r0: "?rtt \<noteq> 0" by (auto simp: time_delta_stalled_or_jumped_def split: if_splits)
    obtain N where N: "n_ewma_count g1 ?cc = Some N" "2 \<le> unat N" "unat N \<le> 255"
      using ewma_count [of ?cc g1] assms(1,2) by auto
    obtain e where e: "n_count_ewma ?rtt (ewma_rtt_usec cc) N = Some e"
    proof (cases "ewma_rtt_usec cc = 0")
      case False
      have "unat (N + 1) = unat N + 1" using N(3) by (subst unat_add64) simp_all
      then have "N + 1 \<noteq> 0" by (metis Suc_eq_plus1 nat.distinct(1) unat_0)
      with that False show ?thesis by (simp add: n_count_ewma_def udiv_def)
    qed (simp add: n_count_ewma_def that)
    have eb: "unat e \<le> RTT_LIMIT \<and> e \<noteq> 0"
    proof (cases "ewma_rtt_usec cc = 0")
      case True
      with e assms(4) r0 show ?thesis by (simp add: n_count_ewma_def)
    next
      case False
      have "1 \<le> unat ?rtt" "1 \<le> unat (ewma_rtt_usec cc)" using r0 False by (simp_all add: unat_gt_0 Suc_le_eq)
      moreover have "min (unat ?rtt) (unat (ewma_rtt_usec cc)) \<le> unat e
          \<and> unat e \<le> max (unat ?rtt) (unat (ewma_rtt_usec cc))"
        using assms(4,5) by (intro ewma_between [OF e False N(2,3)]) simp_all
      ultimately have "1 \<le> unat e" "unat e \<le> RTT_LIMIT" using assms(4,5) by linarith+
      then show ?thesis by auto
    qed
    define mx where "mx = (if ?rtt > max_rtt_usec cc then ?rtt else max_rtt_usec cc)"
    define mn where "mn = (if min_rtt_usec cc = 0 then e
       else if cwnd cc = ucast (cwnd_min cc) \<and> \<not> in_slow_start cc then percent_max_mix e (min_rtt_usec cc) (rtt_reset_pct g1)
       else if e < min_rtt_usec cc then e else min_rtt_usec cc)"
    define g2 where "g2 = (if min_rtt_usec cc \<noteq> 0 \<and> cwnd cc = ucast (cwnd_min cc) \<and> \<not> in_slow_start cc
       then g1\<lparr>num_rtt_reset := num_rtt_reset g1 + 1\<rparr> else g1)"
    have "congestion_control_update_circuit_rtt g cc now =
      Some (g2, cc\<lparr>sendme_pending_timestamps := ts, ewma_rtt_usec := e, max_rtt_usec := mx, min_rtt_usec := mn\<rparr>, ?rtt)"
      using j False N(1) e assms(3)
      by (auto simp: congestion_control_update_circuit_rtt_def dequeue_timestamp_def Let_def mx_def mn_def g2_def)
    moreover have "unat (percent_max_mix e (min_rtt_usec cc) (rtt_reset_pct g1)) \<le> max (unat e) (unat (min_rtt_usec cc))"
      using eb assms(6) by (intro percent_mix_le) simp_all
    then have "unat (percent_max_mix e (min_rtt_usec cc) (rtt_reset_pct g1)) \<le> RTT_LIMIT"
      using eb assms(6) by linarith
    then have "unat mn \<le> RTT_LIMIT" using eb assms(6) by (simp add: mn_def)
    moreover have "cwnd_max g2 = cwnd_max g" by (simp add: g2_def g1)
    moreover have "\<not> (cwnd cc = ucast (cwnd_min cc) \<and> \<not> in_slow_start cc) \<longrightarrow> mn \<le> e"
      by (auto simp: mn_def)
    ultimately show ?thesis using eb r0 by blast
  qed
qed


definition chan_state :: "circuit \<Rightarrow> int \<times> bool" where
  "chan_state circ = (if CIRCUIT_IS_ORIGIN circ then (n_chan_cells_n circ, circuit_blocked_on_n_chan circ)
     else (p_chan_cells_n circ, circuit_blocked_on_p_chan circ))"

lemma update_bdp:
  assumes "unat (cwnd cc) < 2 ^ 32" "unat (min_rtt_usec cc) \<le> RTT_LIMIT"
  shows "\<exists>b bl ne. congestion_control_update_circuit_bdp cc circ rtt =
      Some (cc\<lparr>bdp := b, blocked_chan := bl, next_cc_event := ne\<rparr>,
            snd (chan_state circ) \<or> (ewma_rtt_usec cc \<noteq> 0 \<and> rtt \<noteq> 0))
    \<and> bl = snd (chan_state circ) \<and> ne \<in> {0, next_cc_event cc}
    \<and> (ewma_rtt_usec cc \<noteq> 0 \<longrightarrow>
         unat b = unat (cwnd cc) * unat (min_rtt_usec cc) div unat (ewma_rtt_usec cc) \<and> unat b < 2 ^ 62)"
proof -
  obtain q bl where c: "chan_state circ = (q, bl)" by fastforce
  have "unat (cwnd cc) * unat (min_rtt_usec cc) \<le> (2 ^ 32 - 1) * 2 ^ 30"
    using assms by (intro mult_mono) simp_all
  then have m: "unat (cwnd cc) * unat (min_rtt_usec cc) < 2 ^ 62"
    "unat (cwnd cc * min_rtt_usec cc) = unat (cwnd cc) * unat (min_rtt_usec cc)"
    by (simp, subst unat_mult64) simp_all
  show ?thesis
  proof (cases "ewma_rtt_usec cc = 0")
    case True
    define w where "w = (if bl then (if q \<ge> sint (cwnd cc) then ucast (cwnd_min cc)
        else max (cwnd cc - word_of_int q) (ucast (cwnd_min cc))) else cwnd cc)"
    have "congestion_control_update_circuit_bdp cc circ rtt = Some (cc\<lparr>blocked_chan := bl, bdp := w\<rparr>, bl)"
      using c True by (simp add: congestion_control_update_circuit_bdp_def chan_state_def w_def)
    with True c show ?thesis
      by (intro exI [of _ w] exI [of _ bl] exI [of _ "next_cc_event cc"]) simp
  next
    case False
    let ?b = "cwnd cc * min_rtt_usec cc div ewma_rtt_usec cc"
    have "unat ?b = unat (cwnd cc) * unat (min_rtt_usec cc) div unat (ewma_rtt_usec cc)"
      by (simp add: unat_div64 m)
    moreover have "unat ?b < 2 ^ 62" unfolding calculation using m(1) div_le_dividend order_le_less_trans by blast
    ultimately show ?thesis using False c
      by (intro exI [of _ ?b] exI [of _ bl] exI [of _ "if bl = blocked_chan cc then next_cc_event cc else 0"])
        (auto simp: congestion_control_update_circuit_bdp_def chan_state_def Let_def udiv_def split: if_splits)
  qed
qed

lemma update_estimates:
  assumes "cwnd_inc_rate cc \<noteq> 0" "sendme_inc cc \<noteq> 0" "sendme_pending_timestamps cc = t # ts"
    and "unat (now - t) \<le> RTT_LIMIT" "unat (ewma_rtt_usec cc) \<le> RTT_LIMIT" "unat (min_rtt_usec cc) \<le> RTT_LIMIT"
    and "unat (cwnd cc) < 2 ^ 32"
  shows "\<exists>g' e mx mn b bl ne u. congestion_control_update_circuit_estimates g cc circ now =
      Some (g', cc\<lparr>sendme_pending_timestamps := ts, ewma_rtt_usec := e, max_rtt_usec := mx, min_rtt_usec := mn,
                   bdp := b, blocked_chan := bl, next_cc_event := ne\<rparr>, u)
    \<and> unat e \<le> RTT_LIMIT \<and> unat mn \<le> RTT_LIMIT \<and> (e \<noteq> 0 \<longrightarrow> unat b < 2 ^ 62)
    \<and> (u \<longrightarrow> e \<noteq> 0 \<or> snd (chan_state circ)) \<and> bl = snd (chan_state circ) \<and> ne \<in> {0, next_cc_event cc}
    \<and> (ewma_rtt_usec cc \<noteq> 0 \<or> now \<noteq> t \<longrightarrow> e \<noteq> 0) \<and> cwnd_max g' = cwnd_max g
    \<and> (min_rtt_usec cc \<le> ewma_rtt_usec cc \<longrightarrow> e \<noteq> 0
        \<longrightarrow> \<not> (cwnd cc = ucast (cwnd_min cc) \<and> \<not> in_slow_start cc) \<longrightarrow> b \<le> cwnd cc)"
proof -
  from update_rtt [OF assms(1-6), of g] obtain g' e mx mn rtt
    where r: "congestion_control_update_circuit_rtt g cc now =
      Some (g', cc\<lparr>sendme_pending_timestamps := ts, ewma_rtt_usec := e, max_rtt_usec := mx, min_rtt_usec := mn\<rparr>, rtt)"
    and f: "unat e \<le> RTT_LIMIT" "unat mn \<le> RTT_LIMIT" "rtt \<noteq> 0 \<longrightarrow> e \<noteq> 0" "ewma_rtt_usec cc \<noteq> 0 \<longrightarrow> e \<noteq> 0"
      "ewma_rtt_usec cc = 0 \<longrightarrow> now \<noteq> t \<longrightarrow> rtt \<noteq> 0" "cwnd_max g' = cwnd_max g"
      "min_rtt_usec cc \<le> ewma_rtt_usec cc \<longrightarrow> \<not> (cwnd cc = ucast (cwnd_min cc) \<and> \<not> in_slow_start cc) \<longrightarrow> mn \<le> e"
    by blast
  let ?cc = "cc\<lparr>sendme_pending_timestamps := ts, ewma_rtt_usec := e, max_rtt_usec := mx, min_rtt_usec := mn\<rparr>"
  from update_bdp [of ?cc circ rtt] assms(7) f(2) obtain b bl ne
    where b: "congestion_control_update_circuit_bdp ?cc circ rtt =
      Some (?cc\<lparr>bdp := b, blocked_chan := bl, next_cc_event := ne\<rparr>, snd (chan_state circ) \<or> (e \<noteq> 0 \<and> rtt \<noteq> 0))"
    and h: "bl = snd (chan_state circ)" "ne \<in> {0, next_cc_event cc}"
      "e \<noteq> 0 \<longrightarrow> unat b = unat (cwnd cc) * unat mn div unat e \<and> unat b < 2 ^ 62" by auto
  have "b \<le> cwnd cc" if "mn \<le> e" "e \<noteq> 0"
  proof -
    from that(1) have "unat (cwnd cc) * unat mn \<le> unat (cwnd cc) * unat e" by (simp add: unat_le64)
    then have "unat (cwnd cc) * unat mn div unat e \<le> unat (cwnd cc) * unat e div unat e" by (rule div_le_mono)
    with that(2) h(3) show ?thesis by (simp add: unat_le64 unat_eq_zero)
  qed
  then have o: "min_rtt_usec cc \<le> ewma_rtt_usec cc \<longrightarrow> e \<noteq> 0
        \<longrightarrow> \<not> (cwnd cc = ucast (cwnd_min cc) \<and> \<not> in_slow_start cc) \<longrightarrow> b \<le> cwnd cc" using f(7) by blast
  have u: "snd (chan_state circ) \<or> (e \<noteq> 0 \<and> rtt \<noteq> 0) \<longrightarrow> e \<noteq> 0 \<or> snd (chan_state circ)" by blast
  have n: "ewma_rtt_usec cc \<noteq> 0 \<or> now \<noteq> t \<longrightarrow> e \<noteq> 0" using f(3-5) by blast
  have e: "congestion_control_update_circuit_estimates g cc circ now =
     Some (g', cc\<lparr>sendme_pending_timestamps := ts, ewma_rtt_usec := e, max_rtt_usec := mx, min_rtt_usec := mn,
                   bdp := b, blocked_chan := bl, next_cc_event := ne\<rparr>, snd (chan_state circ) \<or> (e \<noteq> 0 \<and> rtt \<noteq> 0))"
    by (simp only: congestion_control_update_circuit_estimates_def r b bind.bind_lunit prod.case)
  from h(3) have b': "e \<noteq> 0 \<longrightarrow> unat b < 2 ^ 62" by blast
  show ?thesis by (intro exI conjI) (rule e f(1) f(2) b' u h(1) h(2) n f(6) o)+
qed


section \<open>The window\<close>

text \<open>A round trip time has been measured.\<close>

definition measured :: "congestion_control \<Rightarrow> bool" where
  "measured cc \<longleftrightarrow> min_rtt_usec cc \<noteq> 0 \<or> ewma_rtt_usec cc \<noteq> 0"

lemma log_defined: "congestion_control_vegas_log cc = (if measured cc then Some () else None)"
  by (auto simp: congestion_control_vegas_log_def measured_def udiv_def max_def word_le_nat_alt unat_eq_zero)

lemma exit_slow_start:
  assumes "measured cc" "unat (cwnd cc) < 2 ^ 63"
  shows "\<exists>g' evs. congestion_control_vegas_exit_slow_start g cc circ = Some (g', cc\<lparr>in_slow_start := False\<rparr>, evs)
    \<and> cwnd_max g' = cwnd_max g"
proof -
  obtain i where "rfc3742_ss_inc (cc\<lparr>in_slow_start := False\<rparr>) = Some i"
    using ss_inc [of "cc\<lparr>in_slow_start := False\<rparr>"] assms(2) by auto
  with assms(1) show ?thesis
    by (simp add: congestion_control_vegas_exit_slow_start_def log_defined measured_def)
qed

lemma slow_start:
  assumes "measured cc" "sendme_inc cc \<noteq> 0" "unat (cwnd cc) < 2 ^ 32" "unat (bdp cc) < 2 ^ 62"
    and "unat (cwnd_min cc) \<le> unat (cwnd cc)" "unat (cwnd_min cc) \<le> unat (gamma (cc_vegas cc))"
    and "unat (cwnd_min cc) \<le> unat (ss_cwnd_max (cc_vegas cc))"
  shows "\<exists>g' c ss evs. vegas_slow_start g cc circ q = Some (g', cc\<lparr>cwnd := c, in_slow_start := ss\<rparr>, evs)
    \<and> unat (cwnd_min cc) \<le> unat c \<and> unat c < 2 ^ 63 \<and> cwnd_max g' = cwnd_max g"
proof -
  have first: "\<exists>g' c ss evs.
      (if q < ucast (gamma (cc_vegas cc)) \<and> \<not> blocked_chan cc then
               (if cwnd_full cc then
                  do { inc \<leftarrow> rfc3742_ss_inc cc;
                       let cc = cc\<lparr>cwnd := cwnd cc + inc\<rparr>;
                       s \<leftarrow> SENDME_PER_CWND cc;
                       if inc * s \<le> CWND_INC cc * ucast (cwnd_inc_rate cc)
                       then do { (g, cc, evs) \<leftarrow> congestion_control_vegas_exit_slow_start g cc circ;
                                 Some (g\<lparr>cc_stats_vegas_below_ss_inc_floor := cc_stats_vegas_below_ss_inc_floor g + 1\<rparr>,
                                       cc, evs) }
                       else Some (g, cc, []) }
                else Some (g, cc, []))
             else congestion_control_vegas_exit_slow_start g
                    (cc\<lparr>cwnd := vegas_bdp cc + ucast (gamma (cc_vegas cc))\<rparr>) circ)
      = Some (g', cc\<lparr>cwnd := c, in_slow_start := ss\<rparr>, evs)
      \<and> unat (cwnd_min cc) \<le> unat c \<and> unat c < 2 ^ 63 \<and> cwnd_max g' = cwnd_max g"
    (is "\<exists>g' c ss evs. ?first = _ \<and> _")
  proof (cases "q < ucast (gamma (cc_vegas cc)) \<and> \<not> blocked_chan cc")
    case False
    let ?c = "vegas_bdp cc + ucast (gamma (cc_vegas cc))"
    have c: "unat ?c = unat (bdp cc) + unat (gamma (cc_vegas cc))"
      using assms(4) unat_lt16 [of "gamma (cc_vegas cc)"] by (subst unat_add64) (simp_all add: word_nat vegas_bdp_def)
    then have c': "unat ?c < 2 ^ 63" using assms(4) unat_lt16 [of "gamma (cc_vegas cc)"] by simp
    from exit_slow_start [of "cc\<lparr>cwnd := ?c\<rparr>" g circ] assms(1) c' obtain g' evs
      where "congestion_control_vegas_exit_slow_start g (cc\<lparr>cwnd := ?c\<rparr>) circ = Some (g', cc\<lparr>cwnd := ?c, in_slow_start := False\<rparr>, evs)"
        "cwnd_max g' = cwnd_max g" by (auto simp: measured_def)
    with False c c' assms(6) show ?thesis
      by (intro exI [of _ g'] exI [of _ ?c] exI [of _ False] exI [of _ evs]) auto
  next
    case True
    show ?thesis
    proof (cases "cwnd_full cc")
      case False
      with True assms(3,5) show ?thesis
        by (intro exI [of _ g] exI [of _ "cwnd cc"] exI [of _ "in_slow_start cc"] exI [of _ "[]"]) simp
    next
      case full: True
      obtain i where i: "rfc3742_ss_inc cc = Some i" "unat i < 2 ^ 24" using ss_inc [of cc] assms(3) by auto
      let ?cc = "cc\<lparr>cwnd := cwnd cc + i\<rparr>"
      have c: "unat (cwnd cc + i) = unat (cwnd cc) + unat i" using assms(3) i(2) by (subst unat_add64) simp_all
      obtain s where s: "SENDME_PER_CWND ?cc = Some s" using sendme_per_cwnd [of ?cc] assms(2) by auto
      from exit_slow_start [of ?cc g circ] assms(1,3) i(2) c obtain g' evs
        where x: "congestion_control_vegas_exit_slow_start g ?cc circ = Some (g', ?cc\<lparr>in_slow_start := False\<rparr>, evs)"
          "cwnd_max g' = cwnd_max g" by (auto simp: measured_def)
      show ?thesis
      proof (cases "i * s \<le> CWND_INC cc * ucast (cwnd_inc_rate cc)")
        case le: True
        with True full i(1) s x c assms(3,5) i(2) show ?thesis
          by (intro exI [of _ "g'\<lparr>cc_stats_vegas_below_ss_inc_floor := cc_stats_vegas_below_ss_inc_floor g' + 1\<rparr>"]
              exI [of _ "cwnd cc + i"] exI [of _ False] exI [of _ evs]) (simp add: CWND_INC_def)
      next
        case gt: False
        with True full i(1) s c assms(3,5) i(2) show ?thesis
          by (intro exI [of _ g] exI [of _ "cwnd cc + i"] exI [of _ "in_slow_start cc"] exI [of _ "[]"])
            (simp add: CWND_INC_def)
      qed
    qed
  qed
  then obtain g1 c ss evs where 1: "?first = Some (g1, cc\<lparr>cwnd := c, in_slow_start := ss\<rparr>, evs)"
    "unat (cwnd_min cc) \<le> unat c" "unat c < 2 ^ 63" "cwnd_max g1 = cwnd_max g" by blast
  let ?cc = "cc\<lparr>cwnd := c, in_slow_start := ss\<rparr>"
  show ?thesis
  proof (cases "c \<ge> ucast (ss_cwnd_max (cc_vegas cc))")
    case False
    with 1 show ?thesis unfolding vegas_slow_start_def 1(1) by auto
  next
    case True
    let ?m = "ucast (ss_cwnd_max (cc_vegas cc)) :: 64 word"
    have m: "unat ?m < 2 ^ 63" using unat_lt32 [of "ss_cwnd_max (cc_vegas cc)"] by (simp add: word_nat)
    from exit_slow_start [of "?cc\<lparr>cwnd := ?m\<rparr>" g1 circ] assms(1) m obtain g2 evs'
      where "congestion_control_vegas_exit_slow_start g1 (cc\<lparr>in_slow_start := ss, cwnd := ?m\<rparr>) circ
          = Some (g2, cc\<lparr>cwnd := ?m, in_slow_start := False\<rparr>, evs')"
        "cwnd_max g2 = cwnd_max g1" by (auto simp: measured_def)
    with True 1(4) m assms(7) show ?thesis
      unfolding vegas_slow_start_def 1(1)
      by (intro exI [of _ "g2\<lparr>cc_stats_vegas_above_ss_cwnd_max := cc_stats_vegas_above_ss_cwnd_max g2 + 1\<rparr>"]
          exI [of _ ?m] exI [of _ False] exI [of _ "evs @ evs'"]) (simp add: word_nat)
  qed
qed


lemma steady_state:
  assumes "measured cc"
  shows "\<exists>g' c. vegas_steady_state g cc q = Some (g', cc\<lparr>cwnd := c\<rparr>)
    \<and> unat (cwnd_min cc) \<le> unat c \<and> cwnd_max g' = cwnd_max g"
proof -
  define c where "c = max (if q > ucast (delta (cc_vegas cc)) then vegas_bdp cc + ucast (delta (cc_vegas cc)) - CWND_INC cc
     else if q > ucast (beta (cc_vegas cc)) \<or> blocked_chan cc then cwnd cc - CWND_INC cc
     else if cwnd_full cc \<and> q < ucast (alpha (cc_vegas cc)) then cwnd cc + CWND_INC cc else cwnd cc) (ucast (cwnd_min cc))"
  have "measured (cc\<lparr>cwnd := x\<rparr>)" for x using assms by (simp add: measured_def)
  then have "\<exists>g'. vegas_steady_state g cc q = Some (g', cc\<lparr>cwnd := c\<rparr>) \<and> cwnd_max g' = cwnd_max g"
    by (simp add: vegas_steady_state_def log_defined c_def)
  moreover have "unat (cwnd_min cc) \<le> unat c" by (simp add: c_def word_nat)
  ultimately show ?thesis by blast
qed

lemma finish:
  assumes "cwnd_inc_rate cc \<noteq> 0" "sendme_inc cc \<noteq> 0"
  shows "\<exists>a b f. vegas_finish g cc = Some (cc\<lparr>next_cwnd_event := a, next_cc_event := b, cwnd_full := f,
    inflight := inflight cc - ucast (sendme_inc cc)\<rparr>)"
proof -
  obtain s where s: "SENDME_PER_CWND cc = Some s" using sendme_per_cwnd [OF assms(2)] by blast
  obtain r where r: "CWND_UPDATE_RATE cc = Some r" using update_rate [OF assms] by blast
  define a where "a = (if next_cwnd_event cc = 0 then ucast s else next_cwnd_event cc)"
  define b where "b = (if next_cc_event cc = 0 then ucast r else next_cc_event cc)"
  have o: "SENDME_PER_CWND (cc\<lparr>next_cwnd_event := x, next_cc_event := y\<rparr>) = SENDME_PER_CWND cc"
    "CWND_UPDATE_RATE (cc\<lparr>next_cwnd_event := x\<rparr>) = CWND_UPDATE_RATE cc"
    "CWND_UPDATE_RATE (cc\<lparr>next_cwnd_event := x, next_cc_event := y\<rparr>) = CWND_UPDATE_RATE cc" for x y
    by (simp_all add: SENDME_PER_CWND_def CWND_UPDATE_RATE_def)
  obtain f where f: "cwnd_full_reset g (cc\<lparr>next_cwnd_event := a, next_cc_event := b\<rparr>) = Some f"
    unfolding cwnd_full_reset_def o s r by (cases "cc_cwnd_full_per_cwnd g \<noteq> 0") auto
  have "vegas_finish g cc = Some (cc\<lparr>next_cwnd_event := a, next_cc_event := b, cwnd_full := cwnd_full cc \<and> \<not> f,
    inflight := inflight cc - ucast (sendme_inc cc)\<rparr>)"
  proof -
    have 1: "(if next_cwnd_event cc = 0 then do { s \<leftarrow> SENDME_PER_CWND cc; Some (ucast s) }
                 else Some (next_cwnd_event cc)) = Some a" by (simp add: a_def s)
    show ?thesis
    proof (cases "next_cc_event cc = 0")
      case True
      then have "b = ucast r" by (simp add: b_def)
      with True f show ?thesis by (cases f) (simp_all add: vegas_finish_def 1 Let_def o r)
    next
      case False
      then have "b = next_cc_event cc" by (simp add: b_def)
      with False f show ?thesis by (cases f) (simp_all add: vegas_finish_def 1 Let_def o r)
    qed
  qed
  then show ?thesis by blast
qed

definition cc_inv :: "cc_globals \<Rightarrow> congestion_control \<Rightarrow> bool" where
  "cc_inv g cc \<longleftrightarrow>
     cc_cc_alg cc = CC_ALG_VEGAS \<and> 2 \<le> unat (sendme_inc cc) \<and> cwnd_inc_rate cc \<noteq> 0
   \<and> unat (cwnd_min cc) \<le> unat (gamma (cc_vegas cc)) \<and> unat (cwnd_min cc) \<le> unat (ss_cwnd_max (cc_vegas cc))
   \<and> unat (cwnd_min cc) \<le> unat (cwnd_max g)
   \<and> unat (cwnd_min cc) \<le> unat (cwnd cc) \<and> unat (cwnd cc) \<le> unat (cwnd_max g)
   \<and> unat (inflight cc) < 2 ^ 32
   \<and> length (sendme_pending_timestamps cc) = unat (inflight cc) div unat (sendme_inc cc)
   \<and> unat (ewma_rtt_usec cc) \<le> RTT_LIMIT \<and> unat (min_rtt_usec cc) \<le> RTT_LIMIT"

definition dec_events :: "congestion_control \<Rightarrow> congestion_control" where
  "dec_events cc =
     (let cc = (if next_cc_event cc \<noteq> 0 then cc\<lparr>next_cc_event := next_cc_event cc - 1\<rparr> else cc)
      in if next_cwnd_event cc \<noteq> 0 then cc\<lparr>next_cwnd_event := next_cwnd_event cc - 1\<rparr> else cc)"

lemma dec_events_eq: "\<exists>a b. dec_events cc = cc\<lparr>next_cc_event := a, next_cwnd_event := b\<rparr>"
proof -
  have "dec_events cc = cc\<lparr>next_cc_event := (if next_cc_event cc \<noteq> 0 then next_cc_event cc - 1 else next_cc_event cc),
     next_cwnd_event := (if next_cwnd_event cc \<noteq> 0 then next_cwnd_event cc - 1 else next_cwnd_event cc)\<rparr>"
    by (simp add: dec_events_def Let_def)
  then show ?thesis by blast
qed

lemma process_unfold:
  assumes "cc_cc_alg cc = CC_ALG_VEGAS"
    and "congestion_control_update_circuit_estimates g (dec_events cc) circ now = Some (g1, cc1, u)"
  shows "congestion_control_vegas_process_sendme g cc circ now =
    (if \<not> u then Some (g1, cc1\<lparr>inflight := inflight cc1 - ucast (sendme_inc cc1)\<rparr>, [], 0)
     else
       do { let queue_use = (if vegas_bdp cc1 > cwnd cc1 then 0 else cwnd cc1 - vegas_bdp cc1);
            let cc = vegas_update_full g1 cc1;
            (g, cc, evs) \<leftarrow>
              (if in_slow_start cc then vegas_slow_start g1 cc circ queue_use
               else if next_cc_event cc = 0 then
                 do { (g, cc) \<leftarrow> vegas_steady_state g1 cc queue_use; Some (g, cc, []) }
               else Some (g1, cc, []));
            cc \<leftarrow> vegas_finish g cc;
            Some (g, cc, evs, 0) })"
  using assms by (simp add: congestion_control_vegas_process_sendme_def dec_events_def Let_def)

lemma update_full_eq: "\<exists>f. vegas_update_full g cc = cc\<lparr>cwnd_full := f\<rparr>"
proof -
  have "vegas_update_full g cc
    = cc\<lparr>cwnd_full := (cwnd_became_full g cc \<or> \<not> cwnd_became_nonfull g cc \<and> cwnd_full cc)\<rparr>"
    by (simp add: vegas_update_full_def)
  then show ?thesis by blast
qed


text \<open>One SENDME keeps the invariant, unless the clock never moved and the channel is blocked.\<close>

lemma process_inv:
  assumes inv: "cc_inv g cc" and p: "sendme_pending_timestamps cc = t # ts"
    and rtt: "unat (now - t) \<le> RTT_LIMIT"
    and clock: "ewma_rtt_usec cc \<noteq> 0 \<or> now \<noteq> t \<or> \<not> snd (chan_state circ)"
  shows "\<exists>g' cc' evs. congestion_control_vegas_process_sendme g cc circ now = Some (g', cc', evs, 0)
    \<and> cwnd_max g' = cwnd_max g \<and> unat (cwnd_min cc') \<le> unat (cwnd cc')
    \<and> sendme_pending_timestamps cc' = ts \<and> inflight cc' = inflight cc - ucast (sendme_inc cc)
    \<and> unat (ewma_rtt_usec cc') \<le> RTT_LIMIT \<and> unat (min_rtt_usec cc') \<le> RTT_LIMIT
    \<and> cc_cc_alg cc' = cc_cc_alg cc \<and> sendme_inc cc' = sendme_inc cc \<and> cwnd_inc_rate cc' = cwnd_inc_rate cc
    \<and> cwnd_min cc' = cwnd_min cc \<and> cc_vegas cc' = cc_vegas cc"
proof -
  let ?max = "unat (cwnd_max g)"
  from inv have i: "cc_cc_alg cc = CC_ALG_VEGAS" "cwnd_inc_rate cc \<noteq> 0" "sendme_inc cc \<noteq> 0"
    "unat (cwnd_min cc) \<le> unat (gamma (cc_vegas cc))" "unat (cwnd_min cc) \<le> unat (ss_cwnd_max (cc_vegas cc))"
    "unat (cwnd_min cc) \<le> unat (cwnd cc)" "unat (cwnd cc) < 2 ^ 32"
    "unat (ewma_rtt_usec cc) \<le> RTT_LIMIT" "unat (min_rtt_usec cc) \<le> RTT_LIMIT"
    using unat_lt32 [of "cwnd_max g"] by (auto simp: cc_inv_def)
  from dec_events_eq obtain x y where d: "dec_events cc = cc\<lparr>next_cc_event := x, next_cwnd_event := y\<rparr>" by blast
  let ?cc = "cc\<lparr>next_cc_event := x, next_cwnd_event := y\<rparr>"
  have pr: "cwnd_inc_rate ?cc \<noteq> 0" "sendme_inc ?cc \<noteq> 0" "sendme_pending_timestamps ?cc = t # ts"
    "unat (now - t) \<le> RTT_LIMIT" "unat (ewma_rtt_usec ?cc) \<le> RTT_LIMIT" "unat (min_rtt_usec ?cc) \<le> RTT_LIMIT"
    "unat (cwnd ?cc) < 2 ^ 32" using i p rtt by simp_all
  from update_estimates [OF pr, of g circ] obtain g1 e mx mn b bl ne u
    where u: "congestion_control_update_circuit_estimates g ?cc circ now =
      Some (g1, ?cc\<lparr>sendme_pending_timestamps := ts, ewma_rtt_usec := e, max_rtt_usec := mx, min_rtt_usec := mn,
                   bdp := b, blocked_chan := bl, next_cc_event := ne\<rparr>, u)" (is "_ = Some (_, ?c1, _)")
    and f: "unat e \<le> RTT_LIMIT" "unat mn \<le> RTT_LIMIT" "e \<noteq> 0 \<longrightarrow> unat b < 2 ^ 62"
      "cwnd_max g1 = cwnd_max g"
    and e: "u \<longrightarrow> e \<noteq> 0 \<or> snd (chan_state circ)" "ewma_rtt_usec ?cc \<noteq> 0 \<or> now \<noteq> t \<longrightarrow> e \<noteq> 0"
    by (elim exE conjE) rule
  have ue: "u \<longrightarrow> e \<noteq> 0" using e clock by auto
  note pu = process_unfold [OF i(1), of g circ now, unfolded d, OF u]
  show ?thesis
  proof (cases u)
    case False
    then show ?thesis unfolding pu using f i by simp
  next
    case True
    obtain fl where fl: "vegas_update_full g1 ?c1 = ?c1\<lparr>cwnd_full := fl\<rparr>" using update_full_eq by blast
    let ?c2 = "?c1\<lparr>cwnd_full := fl\<rparr>"
    have m: "measured ?c2" using ue True by (simp add: measured_def)
    define q where "q = (if vegas_bdp ?c1 > cwnd ?c1 then 0 else cwnd ?c1 - vegas_bdp ?c1)"
    have "\<exists>g2 c ss evs. (if in_slow_start ?c2 then vegas_slow_start g1 ?c2 circ q
               else if next_cc_event ?c2 = 0 then
                 do { (g, cc) \<leftarrow> vegas_steady_state g1 ?c2 q; Some (g, cc, []) }
               else Some (g1, ?c2, [])) = Some (g2, ?c2\<lparr>cwnd := c, in_slow_start := ss\<rparr>, evs)
        \<and> unat (cwnd_min cc) \<le> unat c \<and> cwnd_max g2 = cwnd_max g"
    proof (cases "in_slow_start ?c2")
      case ss: True
      have b: "unat (bdp ?c2) < 2 ^ 62" using f ue True by simp
      have pr: "sendme_inc ?c2 \<noteq> 0" "unat (cwnd ?c2) < 2 ^ 32" "unat (cwnd_min ?c2) \<le> unat (cwnd ?c2)"
        "unat (cwnd_min ?c2) \<le> unat (gamma (cc_vegas ?c2))" "unat (cwnd_min ?c2) \<le> unat (ss_cwnd_max (cc_vegas ?c2))"
        using i by simp_all
      from slow_start [OF m pr(1,2) b pr(3-5), of g1 circ q] obtain g2 c ss' evs
        where "vegas_slow_start g1 ?c2 circ q = Some (g2, ?c2\<lparr>cwnd := c, in_slow_start := ss'\<rparr>, evs)"
          "unat (cwnd_min ?c2) \<le> unat c" "cwnd_max g2 = cwnd_max g1" by blast
      with ss f(4) show ?thesis
        by (intro exI [of _ g2] exI [of _ c] exI [of _ ss'] exI [of _ evs]) simp
    next
      case nss: False
      show ?thesis
      proof (cases "next_cc_event ?c2 = 0")
        case z: True
        from steady_state [OF m, of g1 q] obtain g2 c where
          "vegas_steady_state g1 ?c2 q = Some (g2, ?c2\<lparr>cwnd := c\<rparr>)" "unat (cwnd_min cc) \<le> unat c" "cwnd_max g2 = cwnd_max g1"
          by auto
        with z nss f(4) show ?thesis
          by (intro exI [of _ g2] exI [of _ c] exI [of _ "in_slow_start ?c2"] exI [of _ "[]"]) simp
      next
        case z: False
        with nss f(4) i(6) show ?thesis
          by (intro exI [of _ g1] exI [of _ "cwnd ?c2"] exI [of _ "in_slow_start ?c2"] exI [of _ "[]"]) simp
      qed
    qed
    then obtain g2 c ss evs where s: "(if in_slow_start ?c2 then vegas_slow_start g1 ?c2 circ q
               else if next_cc_event ?c2 = 0 then
                 do { (g, cc) \<leftarrow> vegas_steady_state g1 ?c2 q; Some (g, cc, []) }
               else Some (g1, ?c2, [])) = Some (g2, ?c2\<lparr>cwnd := c, in_slow_start := ss\<rparr>, evs)"
        "unat (cwnd_min cc) \<le> unat c" "cwnd_max g2 = cwnd_max g" by blast
    let ?c3 = "?c2\<lparr>cwnd := c, in_slow_start := ss\<rparr>"
    from finish [of ?c3 g2] i(2,3) obtain a a' f'
      where "vegas_finish g2 ?c3 = Some (?c3\<lparr>next_cwnd_event := a, next_cc_event := a', cwnd_full := f',
        inflight := inflight ?c3 - ucast (sendme_inc ?c3)\<rparr>)" by auto
    with s f have "congestion_control_vegas_process_sendme g cc circ now = Some (g2, ?c3\<lparr>next_cwnd_event := a, next_cc_event := a', cwnd_full := f',
        inflight := inflight ?c3 - ucast (sendme_inc ?c3)\<rparr>, evs, 0)"
      unfolding pu Let_def fl q_def [symmetric] s(1) using True by simp
    with s(2,3) f(1,2) show ?thesis by simp
  qed
qed

end
