(* ===== verification/Congestion_Flow.thy ===== *)
theory Congestion_Flow
  imports Congestion_Correct
begin

text \<open>
  A circuit under congestion control as a state machine: it sends a cell while its package window
  is open, it receives a SENDME for the oldest cell whose time it recorded, and its channel fills,
  blocks and drains. The invariant of the estimates and of the window, and what follows from it:
  the window always opens again, when the parameters fit together.
\<close>

section \<open>Steps\<close>

definition set_ccontrol :: "circuit \<Rightarrow> nat option \<Rightarrow> congestion_control \<Rightarrow> circuit" where
  "set_ccontrol circ layer_hint cc =
     (case layer_hint of
        Some h \<Rightarrow> circ\<lparr>cpath := (cpath circ)[h := (cpath circ ! h)\<lparr>cp_ccontrol := Some cc\<rparr>]\<rparr>
      | None \<Rightarrow> circ\<lparr>ccontrol := Some cc\<rparr>)"

definition hint_ok :: "circuit \<Rightarrow> nat option \<Rightarrow> bool" where
  "hint_ok circ layer_hint = (case layer_hint of Some h \<Rightarrow> h < length (cpath circ) | None \<Rightarrow> True)"

definition cc_of :: "circuit \<Rightarrow> nat option \<Rightarrow> congestion_control option" where
  "cc_of circ layer_hint = snd (flow_of circ layer_hint)"

text \<open>The SENDME of the second rule arrives within 2^30 microseconds, and the clock has moved since
  the circuit was set up or the channel is not blocked.\<close>

inductive flow_step :: "nat option \<Rightarrow> cc_globals \<times> circuit \<Rightarrow> cc_globals \<times> circuit \<Rightarrow> bool" for lh where
  Send_Cell: "cc_of circ lh = Some cc \<Longrightarrow> 0 < congestion_control_get_package_window circ lh
     \<Longrightarrow> congestion_control_note_cell_sent cc circ lh now = Some cc'
     \<Longrightarrow> flow_step lh (g, circ) (g, set_ccontrol circ lh cc')"
| Recv_Sendme: "cc_of circ lh = Some cc \<Longrightarrow> sendme_pending_timestamps cc = t # ts
     \<Longrightarrow> unat (now - t) \<le> RTT_LIMIT
     \<Longrightarrow> ewma_rtt_usec cc \<noteq> 0 \<or> now \<noteq> t \<or> \<not> snd (chan_state circ)
     \<Longrightarrow> congestion_control_dispatch_cc_alg g cc circ now = Some (g', cc', evs, 0)
     \<Longrightarrow> flow_step lh (g, circ) (g', set_ccontrol circ lh cc')"
| Channel: "flow_step lh (g, circ)
     (g, circ\<lparr>n_chan_cells_n := n, p_chan_cells_n := p, circuit_blocked_on_n_chan := nb, circuit_blocked_on_p_chan := pb\<rparr>)"

definition flow_inv :: "nat option \<Rightarrow> cc_globals \<times> circuit \<Rightarrow> bool" where
  "flow_inv lh s \<longleftrightarrow> hint_ok (snd s) lh \<and> (\<exists>cc. cc_of (snd s) lh = Some cc \<and> cc_inv (fst s) cc)"

lemma flow_inv_pair: "flow_inv lh (g, circ) \<longleftrightarrow> hint_ok circ lh \<and> (\<exists>cc. cc_of circ lh = Some cc \<and> cc_inv g cc)"
  by (simp add: flow_inv_def)

lemma set_ccontrol_of [simp]:
  "hint_ok circ lh \<Longrightarrow> cc_of (set_ccontrol circ lh cc) lh = Some cc \<and> hint_ok (set_ccontrol circ lh cc) lh"
  by (auto simp: cc_of_def flow_of_def set_ccontrol_def hint_ok_def split: option.splits)

lemma channel_of [simp]:
  "cc_of (circ\<lparr>n_chan_cells_n := n, p_chan_cells_n := p, circuit_blocked_on_n_chan := nb, circuit_blocked_on_p_chan := pb\<rparr>) lh
     = cc_of circ lh"
  "hint_ok (circ\<lparr>n_chan_cells_n := n, p_chan_cells_n := p, circuit_blocked_on_n_chan := nb, circuit_blocked_on_p_chan := pb\<rparr>) lh
     = hint_ok circ lh"
  by (simp_all add: cc_of_def flow_of_def hint_ok_def split: option.splits)

lemma window_open:
  assumes "cc_of circ lh = Some cc"
  shows "0 < congestion_control_get_package_window circ lh \<longleftrightarrow> inflight cc < cwnd cc"
proof -
  obtain w where f: "flow_of circ lh = (w, Some cc)" using assms by (cases "flow_of circ lh") (auto simp: cc_of_def)
  have "0 < uint (cwnd cc - inflight cc) \<longleftrightarrow> inflight cc \<noteq> cwnd cc"
    by (metis eq_iff_diff_eq_0 order_less_le uint_ge_0 uint_0_iff)
  note u = this
  consider "cwnd cc < inflight cc" | "cwnd cc = inflight cc" | "inflight cc < cwnd cc" by (rule linorder_cases)
  then show ?thesis
  proof cases
    case 1
    then have "\<not> inflight cc < cwnd cc" by (rule order_less_not_sym)
    with 1 show ?thesis unfolding congestion_control_get_package_window_def f prod.case option.case by (simp only: if_True) simp
  next
    case 2
    then show ?thesis unfolding congestion_control_get_package_window_def f prod.case option.case by simp
  next
    case 3
    then have "\<not> cwnd cc < inflight cc" "cwnd cc \<noteq> inflight cc" using order_less_not_sym by auto
    with 3 u show ?thesis
      unfolding congestion_control_get_package_window_def f prod.case option.case by (simp only: if_False split: if_split) simp
  qed
qed

lemma window_closed:
  assumes "cc_of circ lh = Some cc" "\<not> inflight cc < cwnd cc"
  shows "congestion_control_get_package_window circ lh = 0"
proof -
  obtain w where f: "flow_of circ lh = (w, Some cc)" using assms by (cases "flow_of circ lh") (auto simp: cc_of_def)
  show ?thesis using assms(2)
    by (cases "inflight cc = cwnd cc") (auto simp: congestion_control_get_package_window_def f)
qed

section \<open>The invariant\<close>

lemma sent_for_sendme:
  assumes "cc_of circ lh = Some cc" "cc_inv g cc" "unat (inflight cc) + 1 < 2 ^ 32"
  shows "circuit_sent_cell_for_sendme circ lh = Some ((unat (inflight cc) + 1) mod unat (sendme_inc cc) = 0)"
proof -
  obtain w where f: "flow_of circ lh = (w, Some cc)" using assms by (cases "flow_of circ lh") (auto simp: cc_of_def)
  from assms(2) have i: "2 \<le> unat (sendme_inc cc)" by (simp add: cc_inv_def)
  then have nz: "(ucast (sendme_inc cc) :: 64 word) \<noteq> 0" by (auto simp: ucast64_eq_0)
  have s: "unat (inflight cc + 1) = unat (inflight cc) + 1" using assms(3) by (subst unat_add64) simp_all
  have "(inflight cc + 1) mod ucast (sendme_inc cc) = 0 \<longleftrightarrow> (unat (inflight cc) + 1) mod unat (sendme_inc cc) = 0"
    by (simp only: unat_eq_zero [symmetric] unat_mod s unat_ucast64_8)
  moreover have "inflight cc = 0 \<Longrightarrow> (unat (inflight cc) + 1) mod unat (sendme_inc cc) \<noteq> 0" using i by simp
  ultimately show ?thesis using nz by (simp add: circuit_sent_cell_for_sendme_def f umod_def)
qed

lemma note_cell_sent:
  assumes "cc_of circ lh = Some cc" "cc_inv g cc" "inflight cc < cwnd cc"
  shows "\<exists>cc'. congestion_control_note_cell_sent cc circ lh now = Some cc' \<and> cc_inv g cc'
    \<and> unat (inflight cc') = unat (inflight cc) + 1 \<and> cwnd cc' = cwnd cc \<and> sendme_inc cc' = sendme_inc cc
    \<and> cwnd_min cc' = cwnd_min cc"
proof -
  let ?i = "unat (inflight cc)" and ?n = "unat (sendme_inc cc)"
  have l: "?i + 1 < 2 ^ 32" using assms(2,3) unat_lt32 [of "cwnd_max g"] by (simp add: cc_inv_def word_less_nat_alt)
  then have s: "unat (inflight cc + 1) = ?i + 1" by (subst unat_add64) simp_all
  have d: "(?i + 1) div ?n = (if (?i + 1) mod ?n = 0 then ?i div ?n + 1 else ?i div ?n)"
    by (simp add: div_Suc)
  show ?thesis
    using sent_for_sendme [OF assms(1,2) l] assms(2) s d l
    by (auto simp: congestion_control_note_cell_sent_def enqueue_timestamp_def cc_inv_def)
qed

lemma dispatch_inv:
  assumes inv: "cc_inv g cc" and p: "sendme_pending_timestamps cc = t # ts"
    and "unat (now - t) \<le> RTT_LIMIT" "ewma_rtt_usec cc \<noteq> 0 \<or> now \<noteq> t \<or> \<not> snd (chan_state circ)"
  shows "\<exists>g' cc' evs. congestion_control_dispatch_cc_alg g cc circ now = Some (g', cc', evs, 0)
    \<and> cc_inv g' cc' \<and> sendme_inc cc' = sendme_inc cc \<and> cwnd_min cc' = cwnd_min cc \<and> sendme_pending_timestamps cc' = ts
    \<and> unat (inflight cc') + unat (sendme_inc cc) = unat (inflight cc)"
proof -
  from process_inv [OF assms] obtain g' cc' evs
    where d: "congestion_control_vegas_process_sendme g cc circ now = Some (g', cc', evs, 0)"
      "cwnd_max g' = cwnd_max g" "unat (cwnd_min cc') \<le> unat (cwnd cc')"
      "sendme_pending_timestamps cc' = ts" "inflight cc' = inflight cc - ucast (sendme_inc cc)"
      "unat (ewma_rtt_usec cc') \<le> RTT_LIMIT" "unat (min_rtt_usec cc') \<le> RTT_LIMIT"
      "cc_cc_alg cc' = cc_cc_alg cc" "sendme_inc cc' = sendme_inc cc" "cwnd_inc_rate cc' = cwnd_inc_rate cc"
      "cwnd_min cc' = cwnd_min cc" "cc_vegas cc' = cc_vegas cc"
    by (elim exE conjE) rule
  let ?i = "unat (inflight cc)" and ?n = "unat (sendme_inc cc)"
  from inv p have n: "2 \<le> ?n" "?i div ?n = Suc (length ts)" by (simp_all add: cc_inv_def)
  then have le: "?n \<le> ?i" by (metis div_less nat.distinct(1) not_le)
  then have i: "unat (inflight cc') = ?i - ?n" unfolding d(5) by (subst unat_sub64) (simp_all add: word_nat)
  have "(?i - ?n) div ?n = length ts" using n le by (simp add: le_div_geq)
  then have "length (sendme_pending_timestamps cc') = unat (inflight cc') div unat (sendme_inc cc')" using d(4,9) i by simp
  then have inv': "cc_inv g' (cc'\<lparr>cwnd := (if cwnd cc' > ucast (cwnd_max g') then ucast (cwnd_max g') else cwnd cc')\<rparr>)"
    using inv d i by (auto simp: cc_inv_def word_nat)
  have "congestion_control_dispatch_cc_alg g cc circ now
     = Some (g', cc'\<lparr>cwnd := (if cwnd cc' > ucast (cwnd_max g') then ucast (cwnd_max g') else cwnd cc')\<rparr>,
             if has_conflux circ \<and> ewma_rtt_usec cc' \<noteq> 0 then evs @ [Conflux_Update_Rtt (ewma_rtt_usec cc')] else evs, 0)"
    by (simp add: congestion_control_dispatch_cc_alg_def d(1) Let_def)
  with inv' d(4,9,11) i le show ?thesis by auto
qed

lemma flow_step_inv: "flow_step lh s s' \<Longrightarrow> flow_inv lh s \<Longrightarrow> flow_inv lh s'"
proof (induction rule: flow_step.induct)
  case (Send_Cell circ cc now cc' g)
  then have "cc_inv g cc" "hint_ok circ lh" by (auto simp: flow_inv_pair)
  moreover have "inflight cc < cwnd cc" using Send_Cell window_open by blast
  ultimately show ?case using note_cell_sent [of circ lh cc g now] Send_Cell.hyps by (auto simp: flow_inv_pair)
next
  case (Recv_Sendme circ cc t ts now g g' cc' evs)
  then have "cc_inv g cc" "hint_ok circ lh" by (auto simp: flow_inv_pair)
  with dispatch_inv [of g cc t ts now circ] Recv_Sendme.hyps show ?case by (auto simp: flow_inv_pair)
next
  case (Channel g circ n p nb pb)
  then show ?case by (simp add: flow_inv_pair)
qed

lemma flow_steps_inv: "(flow_step lh)\<^sup>*\<^sup>* s s' \<Longrightarrow> flow_inv lh s \<Longrightarrow> flow_inv lh s'"
  by (induction rule: rtranclp_induct) (auto intro: flow_step_inv)


section \<open>The window opens again\<close>

text \<open>Acknowledging all recorded cells leaves fewer than one increment in flight.\<close>

lemma vegas_drain:
  assumes "cc_inv g cc" "cc_of circ lh = Some cc" "hint_ok circ lh" "\<not> snd (chan_state circ)"
  shows "\<exists>g' circ' cc'. (flow_step lh)\<^sup>*\<^sup>* (g, circ) (g', circ') \<and> cc_of circ' lh = Some cc' \<and> cc_inv g' cc'
    \<and> unat (inflight cc') < unat (sendme_inc cc') \<and> sendme_inc cc' = sendme_inc cc \<and> cwnd_min cc' = cwnd_min cc"
  using assms
proof (induction "sendme_pending_timestamps cc" arbitrary: g circ cc)
  case Nil
  have "unat (inflight cc) div unat (sendme_inc cc) = 0" "2 \<le> unat (sendme_inc cc)" using Nil by (simp_all add: cc_inv_def)
  then have "unat (inflight cc) < unat (sendme_inc cc)" by (simp add: div_eq_0_iff)
  with Nil show ?case by blast
next
  case (Cons t ts)
  note p = Cons.hyps(2) [symmetric]
  from dispatch_inv [OF Cons.prems(1) p, of t circ] Cons.prems(4) obtain g1 cc1 evs
    where d: "congestion_control_dispatch_cc_alg g cc circ t = Some (g1, cc1, evs, 0)" "cc_inv g1 cc1"
      "sendme_inc cc1 = sendme_inc cc" "cwnd_min cc1 = cwnd_min cc" "sendme_pending_timestamps cc1 = ts" by auto
  let ?circ = "set_ccontrol circ lh cc1"
  have s: "flow_step lh (g, circ) (g1, ?circ)"
    using Recv_Sendme [OF Cons.prems(2) p, of t] Cons.prems(4) d(1) by simp
  have c: "cc_of ?circ lh = Some cc1" "hint_ok ?circ lh" using Cons.prems(3) by simp_all
  have "chan_state ?circ = chan_state circ"
    by (simp add: chan_state_def set_ccontrol_def CIRCUIT_IS_ORIGIN_def split: option.splits)
  with Cons.hyps(1) [OF d(5) [symmetric] d(2) c] Cons.prems(4) d(3,4) obtain g' circ' cc'
    where "(flow_step lh)\<^sup>*\<^sup>* (g1, ?circ) (g', circ')" "cc_of circ' lh = Some cc'" "cc_inv g' cc'"
      "unat (inflight cc') < unat (sendme_inc cc')" "sendme_inc cc' = sendme_inc cc" "cwnd_min cc' = cwnd_min cc" by auto
  with s show ?case by (meson converse_rtranclp_into_rtranclp)
qed

section \<open>Set-up\<close>

lemma get_param_Some:
  assumes "min_val < max_val" "min_val \<le> default_val" "default_val \<le> max_val"
  obtains v where "networkstatus_get_param ns latest name default_val min_val max_val = Some v" "min_val \<le> v" "v \<le> max_val"
  using get_param_bounds [OF assms] by blast

lemmas cc_constants = OUTBUF_CELLS_def TLS_RECORD_MAX_CELLS_def SENDME_INC_DFLT_def CIRCWINDOW_INIT_def

text \<open>The parameters of the algorithm in their ranges; delta is a 16-bit field for a parameter of 31 bits.\<close>

definition vegas_in_range :: "cc_path \<Rightarrow> networkstatus option \<Rightarrow> vegas_params \<Rightarrow> bool" where
  "vegas_in_range path latest v \<longleftrightarrow>
     unat (gamma v) \<le> 1000 \<and> unat (alpha v) \<le> 1000 \<and> unat (beta v) \<le> 1000
     \<and> 100 \<le> unat (ss_cwnd_cap v) \<and> unat (ss_cwnd_cap v) \<le> 2147483647
     \<and> 500 \<le> unat (ss_cwnd_max v) \<and> unat (ss_cwnd_max v) \<le> 2147483647
     \<and> (case vegas_defaults path of (sfx, _, _, _, delta_d, _) \<Rightarrow>
          \<exists>d. networkstatus_get_param None latest (''cc_vegas_delta_'' @ sfx) delta_d 0 2147483647 = Some d
            \<and> 0 \<le> d \<and> d \<le> 2147483647 \<and> unat (delta v) = nat d mod 65536)"

definition globals_in_range :: "cc_globals \<Rightarrow> bool" where
  "globals_in_range g \<longleftrightarrow>
     0 \<le> cc_vegas_cwnd_full_minpct g \<and> cc_vegas_cwnd_full_minpct g \<le> 100
     \<and> 0 \<le> cc_vegas_cwnd_full_gap g \<and> cc_vegas_cwnd_full_gap g \<le> 32767
     \<and> 0 \<le> cc_cwnd_full_per_cwnd g \<and> cc_cwnd_full_per_cwnd g \<le> 1"

lemma set_params_ok:
  assumes "cc_cc_alg cc = CC_ALG_VEGAS"
  shows "\<exists>m gp p v. congestion_control_vegas_set_params g cc path latest
      = Some (g\<lparr>cc_vegas_cwnd_full_minpct := m, cc_vegas_cwnd_full_gap := gp, cc_cwnd_full_per_cwnd := p\<rparr>, cc\<lparr>cc_vegas := v\<rparr>)
    \<and> vegas_in_range path latest v
    \<and> globals_in_range (g\<lparr>cc_vegas_cwnd_full_minpct := m, cc_vegas_cwnd_full_gap := gp, cc_cwnd_full_per_cwnd := p\<rparr>)"
proof -
  obtain sfx a b c d cap where v: "vegas_defaults path = (sfx, a, b, c, d, cap)" by (metis prod.collapse)
  then have dflt: "0 \<le> a \<and> a \<le> 1000" "0 \<le> b \<and> b \<le> 1000" "0 \<le> c \<and> c \<le> 1000" "0 \<le> d \<and> d \<le> 2147483647" "100 \<le> cap \<and> cap \<le> 2147483647"
    by (auto simp: vegas_defaults_def cc_constants split: cc_path.splits)
  obtain v1 where 1: "networkstatus_get_param None latest (''cc_sscap_'' @ sfx) cap 100 2147483647 = Some v1" "100 \<le> v1" "v1 \<le> 2147483647"
    by (rule get_param_Some [of 100 2147483647 cap]) (use dflt in auto)
  obtain v2 where 2: "networkstatus_get_param None latest ''cc_ss_max'' 5000 500 2147483647 = Some v2" "500 \<le> v2" "v2 \<le> 2147483647"
    by (rule get_param_Some [of 500 2147483647 5000]) (use dflt in auto)
  obtain v3 where 3: "networkstatus_get_param None latest (''cc_vegas_alpha_'' @ sfx) a 0 1000 = Some v3" "0 \<le> v3" "v3 \<le> 1000"
    by (rule get_param_Some [of 0 1000 a]) (use dflt in auto)
  obtain v4 where 4: "networkstatus_get_param None latest (''cc_vegas_beta_'' @ sfx) b 0 1000 = Some v4" "0 \<le> v4" "v4 \<le> 1000"
    by (rule get_param_Some [of 0 1000 b]) (use dflt in auto)
  obtain v5 where 5: "networkstatus_get_param None latest (''cc_vegas_gamma_'' @ sfx) c 0 1000 = Some v5" "0 \<le> v5" "v5 \<le> 1000"
    by (rule get_param_Some [of 0 1000 c]) (use dflt in auto)
  obtain v6 where 6: "networkstatus_get_param None latest (''cc_vegas_delta_'' @ sfx) d 0 2147483647 = Some v6" "0 \<le> v6" "v6 \<le> 2147483647"
    by (rule get_param_Some [of 0 2147483647 d]) (use dflt in auto)
  obtain v7 where 7: "networkstatus_get_param None latest ''cc_cwnd_full_minpct'' 25 0 100 = Some v7" "0 \<le> v7" "v7 \<le> 100"
    by (rule get_param_Some [of 0 100 25]) (use dflt in auto)
  obtain v8 where 8: "networkstatus_get_param None latest ''cc_cwnd_full_gap'' 4 0 32767 = Some v8" "0 \<le> v8" "v8 \<le> 32767"
    by (rule get_param_Some [of 0 32767 4]) (use dflt in auto)
  obtain v9 where 9: "networkstatus_get_param None latest ''cc_cwnd_full_per_cwnd'' 1 0 1 = Some v9" "0 \<le> v9" "v9 \<le> 1"
    by (rule get_param_Some [of 0 1 1]) (use dflt in auto)
  have w: "unat (word_of_int x :: 16 word) = nat x" if "0 \<le> x" "x \<le> 1000" for x
    using that by (simp add: unat_eq_nat_uint uint_word_of_int_eq take_bit_int_eq_self)
  have w32: "unat (word_of_int x :: 32 word) = nat x" if "0 \<le> x" "x \<le> 2147483647" for x
    using that by (simp add: unat_eq_nat_uint uint_word_of_int_eq take_bit_int_eq_self)
  have w16: "unat (word_of_int v6 :: 16 word) = nat v6 mod 65536"
    using 6(2) by (simp add: unat_eq_nat_uint uint_word_of_int take_bit_eq_mod nat_mod_distrib)
  let ?v = "\<lparr>ss_cwnd_cap = word_of_int v1, ss_cwnd_max = word_of_int v2, gamma = word_of_int v5,
     alpha = word_of_int v3, beta = word_of_int v4, delta = word_of_int v6\<rparr> :: vegas_params"
  have "congestion_control_vegas_set_params g cc path latest
      = Some (g\<lparr>cc_vegas_cwnd_full_minpct := v7, cc_vegas_cwnd_full_gap := v8, cc_cwnd_full_per_cwnd := v9\<rparr>,
              cc\<lparr>cc_vegas := ?v\<rparr>)"
    using assms 1(1) 2(1) 3(1) 4(1) 5(1) 6(1) 7(1) 8(1) 9(1)
    by (simp add: congestion_control_vegas_set_params_def v)
  moreover have "vegas_in_range path latest ?v"
    using 1 2 3 4 5 6 by (simp add: vegas_in_range_def v w w32 w16 nat_le_iff le_nat_iff)
  moreover have "globals_in_range (g\<lparr>cc_vegas_cwnd_full_minpct := v7, cc_vegas_cwnd_full_gap := v8, cc_cwnd_full_per_cwnd := v9\<rparr>)"
    using 7 8 9 by (simp add: globals_in_range_def)
  ultimately show ?thesis by blast
qed

text \<open>What a new object looks like: every field that is not named is zero.\<close>

definition new_cc :: "congestion_control \<Rightarrow> congestion_control" where
  "new_cc cc = cc_zero\<lparr>in_slow_start := True, sendme_inc := sendme_inc cc, cwnd := cwnd cc, cwnd_inc_pct_ss := cwnd_inc_pct_ss cc,
     cwnd_inc := cwnd_inc cc, cwnd_inc_rate := cwnd_inc_rate cc, cwnd_min := cwnd_min cc, cc_cc_alg := cc_cc_alg cc,
     next_cc_event := 1, cc_vegas := cc_vegas cc\<rparr>"

lemma congestion_control_new_ok:
  "\<exists>g' cc. congestion_control_new g inc path always latest = Some (g', cc)
    \<and> cc_cc_alg cc = (if g_cc_alg g = CC_ALG_SENDME \<and> always then CC_ALG_VEGAS else g_cc_alg g)
    \<and> cc = new_cc cc \<and> sendme_inc cc = inc
    \<and> 31 \<le> unat (cwnd cc) \<and> unat (cwnd cc) \<le> 10000 \<and> 31 \<le> unat (cwnd_min cc) \<and> unat (cwnd_min cc) \<le> 1000
    \<and> 1 \<le> unat (cwnd_inc cc) \<and> unat (cwnd_inc cc) \<le> 1000
    \<and> 1 \<le> unat (cwnd_inc_rate cc) \<and> unat (cwnd_inc_rate cc) \<le> 250
    \<and> 1 \<le> unat (cwnd_inc_pct_ss cc) \<and> unat (cwnd_inc_pct_ss cc) \<le> 500
    \<and> (if cc_cc_alg cc = CC_ALG_VEGAS
       then vegas_in_range path latest (cc_vegas cc) \<and> globals_in_range g'
         \<and> g' = g\<lparr>cc_vegas_cwnd_full_minpct := cc_vegas_cwnd_full_minpct g', cc_vegas_cwnd_full_gap := cc_vegas_cwnd_full_gap g',
                  cc_cwnd_full_per_cwnd := cc_cwnd_full_per_cwnd g', cc_stats_circs_created := cc_stats_circs_created g + 1\<rparr>
       else cc_vegas cc = cc_vegas cc_zero \<and> g' = g\<lparr>cc_stats_circs_created := cc_stats_circs_created g + 1\<rparr>)"
proof -
  obtain v1 where 1: "networkstatus_get_param None latest ''cc_cwnd_init'' CIRCWINDOW_INIT SENDME_INC_DFLT 10000 = Some v1"
      "SENDME_INC_DFLT \<le> v1" "v1 \<le> 10000"
    by (rule get_param_Some [of SENDME_INC_DFLT 10000 CIRCWINDOW_INIT]) (auto simp: cc_constants)
  obtain v2 where 2: "networkstatus_get_param None latest ''cc_cwnd_inc_pct_ss'' 100 1 500 = Some v2" "1 \<le> v2" "v2 \<le> 500"
    by (rule get_param_Some [of 1 500 100]) auto
  obtain v3 where 3: "networkstatus_get_param None latest ''cc_cwnd_inc'' 1 1 1000 = Some v3" "1 \<le> v3" "v3 \<le> 1000"
    by (rule get_param_Some [of 1 1000 1]) auto
  obtain v4 where 4: "networkstatus_get_param None latest ''cc_cwnd_inc_rate'' SENDME_INC_DFLT 1 250 = Some v4" "1 \<le> v4" "v4 \<le> 250"
    by (rule get_param_Some [of 1 250 SENDME_INC_DFLT]) (auto simp: cc_constants)
  obtain v5 where 5: "networkstatus_get_param None latest ''cc_cwnd_min'' CIRCWINDOW_INIT SENDME_INC_DFLT 1000 = Some v5"
      "SENDME_INC_DFLT \<le> v5" "v5 \<le> 1000"
    by (rule get_param_Some [of SENDME_INC_DFLT 1000 CIRCWINDOW_INIT]) (auto simp: cc_constants)
  define alg where "alg = (if g_cc_alg g = CC_ALG_SENDME \<and> always then CC_ALG_VEGAS else g_cc_alg g)"
  define cc where "cc = cc_zero\<lparr>in_slow_start := True, sendme_inc := inc, cwnd := word_of_int v1, cwnd_inc_pct_ss := word_of_int v2,
    cwnd_inc := word_of_int v3, cwnd_inc_rate := word_of_int v4, cwnd_min := word_of_int v5, cc_cc_alg := alg\<rparr>"
  have w: "unat (word_of_int x :: 16 word) = nat x" "unat (word_of_int x :: 64 word) = nat x" if "0 \<le> x" "x \<le> 10000" for x
    using that by (simp_all add: unat_eq_nat_uint uint_word_of_int_eq take_bit_int_eq_self)
  have w8: "unat (word_of_int x :: 8 word) = nat x" if "0 \<le> x" "x \<le> 250" for x
    using that by (simp add: unat_eq_nat_uint uint_word_of_int_eq take_bit_int_eq_self)
  have b: "31 \<le> v1" "31 \<le> v5" using 1(2) 5(2) by (simp_all add: cc_constants)
  have p: "congestion_control_init_params g (cc_zero\<lparr>sendme_pending_timestamps := [], in_slow_start := True\<rparr>) inc path always latest
      = (if alg = CC_ALG_VEGAS then congestion_control_vegas_set_params g cc path latest else Some (g, cc))"
    by (simp add: congestion_control_init_params_def 1 2 3 4 5 Let_def cc_def cc_zero_def alg_def)
  have r: "CWND_UPDATE_RATE (cc\<lparr>cc_vegas := v\<rparr>) = Some 1" "CWND_UPDATE_RATE cc = Some 1" for v
    by (simp_all add: CWND_UPDATE_RATE_def cc_def)
  have n: "31 \<le> unat (cwnd cc) \<and> unat (cwnd cc) \<le> 10000 \<and> 31 \<le> unat (cwnd_min cc) \<and> unat (cwnd_min cc) \<le> 1000
    \<and> 1 \<le> unat (cwnd_inc cc) \<and> unat (cwnd_inc cc) \<le> 1000
    \<and> 1 \<le> unat (cwnd_inc_rate cc) \<and> unat (cwnd_inc_rate cc) \<le> 250
    \<and> 1 \<le> unat (cwnd_inc_pct_ss cc) \<and> unat (cwnd_inc_pct_ss cc) \<le> 500"
    using 1(3) 2(2,3) 3(2,3) 4(2,3) 5(3) b by (simp add: cc_def w w8 nat_le_iff le_nat_iff)
  have z: "cc\<lparr>cc_vegas := v, next_cc_event := 1\<rparr> = new_cc (cc\<lparr>cc_vegas := v, next_cc_event := 1\<rparr>)"
    "cc\<lparr>next_cc_event := 1\<rparr> = new_cc (cc\<lparr>next_cc_event := 1\<rparr>)" "cc_cc_alg cc = alg" "sendme_inc cc = inc"
    "cc_vegas cc = cc_vegas cc_zero" for v
    by (simp_all add: new_cc_def cc_def cc_zero_def)
  show ?thesis
  proof (cases "alg = CC_ALG_VEGAS")
    case True
    obtain m gp ps v where s: "congestion_control_vegas_set_params g cc path latest
        = Some (g\<lparr>cc_vegas_cwnd_full_minpct := m, cc_vegas_cwnd_full_gap := gp, cc_cwnd_full_per_cwnd := ps\<rparr>, cc\<lparr>cc_vegas := v\<rparr>)"
      "vegas_in_range path latest v"
      "globals_in_range (g\<lparr>cc_vegas_cwnd_full_minpct := m, cc_vegas_cwnd_full_gap := gp, cc_cwnd_full_per_cwnd := ps\<rparr>)"
      using set_params_ok [of cc g path latest] True z(3) by auto
    let ?g = "g\<lparr>cc_vegas_cwnd_full_minpct := m, cc_vegas_cwnd_full_gap := gp, cc_cwnd_full_per_cwnd := ps,
                cc_stats_circs_created := cc_stats_circs_created g + 1\<rparr>"
    let ?cc = "cc\<lparr>cc_vegas := v, next_cc_event := 1\<rparr>"
    have "congestion_control_new g inc path always latest = Some (?g, ?cc)"
      using p s(1) True r(1) by (simp add: congestion_control_new_def congestion_control_init_def Let_def)
    moreover have "globals_in_range ?g" using s(3) by (simp add: globals_in_range_def)
    ultimately show ?thesis unfolding alg_def [symmetric]
      using n z(1) [of v] z(3,4) s(2) True by (intro exI [of _ ?g] exI [of _ ?cc]) simp
  next
    case False
    let ?g = "g\<lparr>cc_stats_circs_created := cc_stats_circs_created g + 1\<rparr>" and ?cc = "cc\<lparr>next_cc_event := 1\<rparr>"
    have "congestion_control_new g inc path always latest = Some (?g, ?cc)"
      using p False r(2) by (simp add: congestion_control_new_def congestion_control_init_def Let_def)
    with False n z show ?thesis unfolding alg_def [symmetric] by (intro exI [of _ ?g] exI [of _ ?cc]) simp
  qed
qed

section \<open>Properties\<close>

text \<open>C25: \<open>congestion_control_new\<close> succeeds whatever the consensus says, for every algorithm: the
  algorithm is the consensus's, or Vegas when there is none but congestion control is always wanted; the
  initial window is of 31 to 10000 cells, the minimum of 31 to 1000, the increment of 1 to 1000, with a
  rate of 1 to 250 and 1 to 500 percent in slow start; Vegas has thresholds of at most 1000 cells, a slow
  start cap from 100 and a slow start maximum from 500, both below 2^31, for delta the parameter
  of the consensus modulo 2^16, and sets its three global parameters in their ranges. All other
  fields are zero, and one more circuit is counted.\<close>

theorem congestion_control_new_ranges:
  "\<exists>g' cc. congestion_control_new g inc path always latest = Some (g', cc)
    \<and> cc_cc_alg cc = (if g_cc_alg g = CC_ALG_SENDME \<and> always then CC_ALG_VEGAS else g_cc_alg g)
    \<and> cc = new_cc cc \<and> sendme_inc cc = inc
    \<and> unat (cwnd cc) \<in> {31..10000} \<and> unat (cwnd_min cc) \<in> {31..1000} \<and> unat (cwnd_inc cc) \<in> {1..1000}
    \<and> unat (cwnd_inc_rate cc) \<in> {1..250} \<and> unat (cwnd_inc_pct_ss cc) \<in> {1..500}
    \<and> (if cc_cc_alg cc = CC_ALG_VEGAS
       then vegas_in_range path latest (cc_vegas cc) \<and> globals_in_range g'
         \<and> g' = g\<lparr>cc_vegas_cwnd_full_minpct := cc_vegas_cwnd_full_minpct g', cc_vegas_cwnd_full_gap := cc_vegas_cwnd_full_gap g',
                  cc_cwnd_full_per_cwnd := cc_cwnd_full_per_cwnd g', cc_stats_circs_created := cc_stats_circs_created g + 1\<rparr>
       else cc_vegas cc = cc_vegas cc_zero \<and> g' = g\<lparr>cc_stats_circs_created := cc_stats_circs_created g + 1\<rparr>)"
  using congestion_control_new_ok [of g inc path always latest] unfolding atLeastAtMost_iff by (simp only: conj_assoc)

lemma congestion_control_new_ranges_witness:
  "\<exists>g' cc. congestion_control_new cc_globals_init 31 CC_PATH_EXIT False None = Some (g', cc) \<and> unat (cwnd cc) \<in> {31..10000}"
  using congestion_control_new_ranges [of cc_globals_init 31 CC_PATH_EXIT False None] by auto

text \<open>C24: A circuit starts with a new congestion control object for Vegas, with an increment of two cells or
  more, a minimum window within gamma, the slow start maximum and the initial window, and that within
  the maximum of the consensus. In every state that it reaches the window lies between its minimum
  and the maximum, a cell can be sent exactly when fewer cells are in flight than the window
  allows, and the queue of time stamps has one entry for each SENDME that is due. No step fails:
  when the window is open a cell can be counted, and a SENDME for the oldest time stamp is
  processed without an assertion or a division by zero if it comes within 2^30 microseconds and,
  before the first measurement, the clock has moved or the channel is not blocked.\<close>

theorem congestion_window_invariant:
  assumes "congestion_control_new g inc path always latest = Some (g0, cc0)"
    and "cc_of circ0 lh = Some cc0" "hint_ok circ0 lh" "cc_cc_alg cc0 = CC_ALG_VEGAS" "2 \<le> unat inc"
    and "unat (cwnd_min cc0) \<le> unat (gamma (cc_vegas cc0))" "unat (cwnd_min cc0) \<le> unat (ss_cwnd_max (cc_vegas cc0))"
    and "unat (cwnd_min cc0) \<le> unat (cwnd cc0)" "unat (cwnd cc0) \<le> unat (cwnd_max g0)"
    and "(flow_step lh)\<^sup>*\<^sup>* (g0, circ0) (g', circ)"
  shows "\<exists>cc. cc_of circ lh = Some cc
    \<and> unat (cwnd_min cc) \<le> unat (cwnd cc) \<and> unat (cwnd cc) \<le> unat (cwnd_max g')
    \<and> (0 < congestion_control_get_package_window circ lh \<longleftrightarrow> unat (inflight cc) < unat (cwnd cc))
    \<and> length (sendme_pending_timestamps cc) = unat (inflight cc) div unat (sendme_inc cc)
    \<and> unat (ewma_rtt_usec cc) \<le> RTT_LIMIT \<and> unat (min_rtt_usec cc) \<le> RTT_LIMIT
    \<and> (\<forall>now. 0 < congestion_control_get_package_window circ lh \<longrightarrow>
         congestion_control_note_cell_sent cc circ lh now \<noteq> None)
    \<and> (\<forall>t ts now. sendme_pending_timestamps cc = t # ts \<longrightarrow> unat (now - t) \<le> RTT_LIMIT \<longrightarrow>
         ewma_rtt_usec cc \<noteq> 0 \<or> now \<noteq> t \<or> \<not> snd (chan_state circ) \<longrightarrow>
         (\<exists>g'' cc' evs. congestion_control_dispatch_cc_alg g' cc circ now = Some (g'', cc', evs, 0)))"
proof -
  from congestion_control_new_ok [of g inc path always latest] assms(1)
  have n: "cc0 = new_cc cc0" "sendme_inc cc0 = inc" "1 \<le> unat (cwnd_inc_rate cc0)" by auto
  have z: "inflight (new_cc cc0) = 0" "sendme_pending_timestamps (new_cc cc0) = []" "ewma_rtt_usec (new_cc cc0) = 0"
    "min_rtt_usec (new_cc cc0) = 0" by (simp_all add: new_cc_def cc_zero_def)
  have "cwnd_inc_rate cc0 \<noteq> 0" using n(3) by auto
  then have "cc_inv g0 cc0" using assms(4-9) n(2) z [folded n(1)] by (simp add: cc_inv_def)
  then have "flow_inv lh (g0, circ0)" using assms(2,3) by (simp add: flow_inv_pair)
  from flow_steps_inv [OF assms(10) this] obtain cc where cc: "cc_of circ lh = Some cc" "cc_inv g' cc"
    by (auto simp: flow_inv_pair)
  have "congestion_control_note_cell_sent cc circ lh now \<noteq> None"
    if "0 < congestion_control_get_package_window circ lh" for now
    using note_cell_sent [OF cc, of now] window_open [OF cc(1)] that by auto
  moreover have "\<exists>g'' cc' evs. congestion_control_dispatch_cc_alg g' cc circ now = Some (g'', cc', evs, 0)"
    if "sendme_pending_timestamps cc = t # ts" "unat (now - t) \<le> RTT_LIMIT"
      "ewma_rtt_usec cc \<noteq> 0 \<or> now \<noteq> t \<or> \<not> snd (chan_state circ)" for t ts now
    using dispatch_inv [OF cc(2) that] by blast
  ultimately show ?thesis
    using cc window_open [OF cc(1)] by (intro exI [of _ cc]) (simp add: cc_inv_def word_less_nat_alt)
qed

text \<open>The window of a circuit never stays closed: when the increment is at most the minimum
  window, from every reachable state the SENDMEs that are due bring the circuit to a state where it
  can send, and none of them makes the program fail.\<close>

theorem closed_window_opens:
  assumes "flow_inv lh (g0, circ0)" "(flow_step lh)\<^sup>*\<^sup>* (g0, circ0) (g, circ)"
    and "cc_of circ lh = Some cc" "unat (sendme_inc cc) \<le> unat (cwnd_min cc)"
  shows "\<exists>g' circ'. (flow_step lh)\<^sup>*\<^sup>* (g, circ) (g', circ') \<and> 0 < congestion_control_get_package_window circ' lh"
proof -
  from flow_steps_inv [OF assms(2,1)] assms(3) have i: "cc_inv g cc" "hint_ok circ lh"
    by (auto simp: flow_inv_pair)
  let ?circ = "circ\<lparr>n_chan_cells_n := 0, p_chan_cells_n := 0, circuit_blocked_on_n_chan := False, circuit_blocked_on_p_chan := False\<rparr>"
  have s: "flow_step lh (g, circ) (g, ?circ)" by (rule Channel)
  have "\<not> snd (chan_state ?circ)" by (simp add: chan_state_def)
  moreover have "cc_of ?circ lh = Some cc" "hint_ok ?circ lh" using i(2) assms(3) by simp_all
  ultimately obtain g' circ' cc'
    where d: "(flow_step lh)\<^sup>*\<^sup>* (g, ?circ) (g', circ')" "cc_of circ' lh = Some cc'" "cc_inv g' cc'"
      "unat (inflight cc') < unat (sendme_inc cc')" "sendme_inc cc' = sendme_inc cc" "cwnd_min cc' = cwnd_min cc"
    using vegas_drain [OF i(1)] by blast
  then have "inflight cc' < cwnd cc'" using assms(4) by (simp add: cc_inv_def word_less_nat_alt)
  with window_open [OF d(2)] have "0 < congestion_control_get_package_window circ' lh" by simp
  with s d(1) show ?thesis by (meson converse_rtranclp_into_rtranclp)
qed


text \<open>An exit circuit with the default parameters, and the same circuit after its first cell.\<close>

definition exit_cc :: congestion_control where
  "exit_cc = cc_zero\<lparr>in_slow_start := True, sendme_inc := 31, cwnd := 124, cwnd_inc_pct_ss := 100, cwnd_inc := 1,
     cwnd_inc_rate := 31, cwnd_min := 124, cc_cc_alg := CC_ALG_VEGAS, next_cc_event := 1,
     cc_vegas := \<lparr>ss_cwnd_cap = 600, ss_cwnd_max = 5000, gamma = 186, alpha = 186, beta = 248, delta = 310\<rparr>\<rparr>"

definition exit_circuit :: circuit where
  "exit_circuit = \<lparr>magic = OR_CIRCUIT_MAGIC, purpose = 1, n_chan_cells_n = 0, p_chan_cells_n = 0, circuit_blocked_on_n_chan = False,
     circuit_blocked_on_p_chan = False, package_window = 1000, deliver_window = 1000, sendme_last_digests = None,
     ccontrol = Some exit_cc, cpath = [], has_conflux = False,
     or_crypto = RCK_TOR1 (replicate 20 CHR 0x00), used_legacy_circuit_handshake = False, used_obsolete_sendme = False,
     n_delivered_read_circ_bw = 0, n_overhead_read_circ_bw = 0, has_n_chan = False, marked_for_close = False\<rparr>"

lemma exit_cc_new: "congestion_control_new cc_globals_init 31 CC_PATH_EXIT False None
    = Some (cc_globals_init\<lparr>cc_stats_circs_created := 1\<rparr>, exit_cc)"
  by (simp add: congestion_control_new_def congestion_control_init_def congestion_control_init_params_def
      congestion_control_vegas_set_params_def vegas_defaults_def networkstatus_get_param_def cc_constants Let_def
      CWND_UPDATE_RATE_def cc_globals_init_def exit_cc_def cc_zero_def)

lemma exit_flow_inv: "flow_inv None (cc_globals_init, exit_circuit)"
  by (simp add: flow_inv_pair hint_ok_def cc_of_def flow_of_def exit_circuit_def cc_inv_def exit_cc_def
      cc_globals_init_def cc_zero_def)

lemma exit_sends: "flow_step None (g, exit_circuit)
    (g, exit_circuit\<lparr>ccontrol := Some (exit_cc\<lparr>inflight := 1\<rparr>)\<rparr>)"
proof -
  have c: "cc_of exit_circuit None = Some exit_cc" by (simp add: cc_of_def flow_of_def exit_circuit_def)
  have w: "0 < congestion_control_get_package_window exit_circuit None"
    by (simp add: window_open [OF c]) (simp add: exit_cc_def cc_zero_def)
  have n: "congestion_control_note_cell_sent exit_cc exit_circuit None 0 = Some (exit_cc\<lparr>inflight := 1\<rparr>)"
    by (simp add: congestion_control_note_cell_sent_def circuit_sent_cell_for_sendme_def flow_of_def exit_circuit_def
        exit_cc_def cc_zero_def)
  from Send_Cell [OF c w n, of g] show ?thesis by (simp add: set_ccontrol_def)
qed

lemma congestion_window_invariant_witness:
  "\<exists>cc. cc_of (exit_circuit\<lparr>ccontrol := Some (exit_cc\<lparr>inflight := 1\<rparr>)\<rparr>) None = Some cc
    \<and> unat (cwnd_min cc) \<le> unat (cwnd cc) \<and> length (sendme_pending_timestamps cc) = unat (inflight cc) div unat (sendme_inc cc)"
proof -
  have c: "cc_of exit_circuit None = Some exit_cc" "hint_ok exit_circuit None"
    by (simp_all add: cc_of_def flow_of_def exit_circuit_def hint_ok_def)
  have r: "(flow_step None)\<^sup>*\<^sup>* (cc_globals_init\<lparr>cc_stats_circs_created := 1\<rparr>, exit_circuit)
      (cc_globals_init\<lparr>cc_stats_circs_created := 1\<rparr>, exit_circuit\<lparr>ccontrol := Some (exit_cc\<lparr>inflight := 1\<rparr>)\<rparr>)"
    by (intro r_into_rtranclp exit_sends)
  from congestion_window_invariant [OF exit_cc_new c _ _ _ _ _ _ r]
  show ?thesis by (simp add: exit_cc_def cc_globals_init_def) blast
qed

lemma closed_window_opens_witness:
  "\<exists>g' circ'. (flow_step None)\<^sup>*\<^sup>* (cc_globals_init, exit_circuit) (g', circ')
     \<and> 0 < congestion_control_get_package_window circ' None"
proof (rule closed_window_opens [OF exit_flow_inv rtranclp.rtrancl_refl])
  show "cc_of exit_circuit None = Some exit_cc" by (simp add: cc_of_def flow_of_def exit_circuit_def)
  show "unat (sendme_inc exit_cc) \<le> unat (cwnd_min exit_cc)" by (simp add: exit_cc_def)
qed


section \<open>One decision of the algorithm\<close>

text \<open>C26: Once a round-trip time is measured and as long as the increment of the window is at most the window,
  and at most the estimate plus delta, a decision after slow start moves a window of fewer than 2^32
  cells as the algorithm says, in the arithmetic of natural numbers and with the queue use that is
  computed for it: above delta it drops to delta over the estimate, less the increment, above beta or on a
  blocked channel it shrinks by the increment, below alpha a full window grows by it, and it never falls
  below the minimum. A congestion signal then never raises a window that is above the minimum.
  Without the condition on the increment the window wraps around, see \<open>vegas_decrease_wraps\<close>.\<close>

theorem vegas_steady_state_spec:
  assumes "measured cc" "unat (cwnd cc) < 2 ^ 32" "q = (if bdp cc > cwnd cc then 0 else cwnd cc - bdp cc)"
    and "unat (cwnd_inc cc) \<le> unat (cwnd cc)" "unat (cwnd_inc cc) \<le> unat (bdp cc) + unat (delta (cc_vegas cc))"
  shows "\<exists>c. vegas_steady_state g cc q
      = Some (if unat q > unat (delta (cc_vegas cc)) then g\<lparr>cc_stats_vegas_above_delta := cc_stats_vegas_above_delta g + 1\<rparr> else g,
              cc\<lparr>cwnd := c\<rparr>)
    \<and> unat c = max (unat (cwnd_min cc))
       (if unat q > unat (delta (cc_vegas cc)) then unat (bdp cc) + unat (delta (cc_vegas cc)) - unat (cwnd_inc cc)
        else if unat q > unat (beta (cc_vegas cc)) \<or> blocked_chan cc then unat (cwnd cc) - unat (cwnd_inc cc)
        else if cwnd_full cc \<and> unat q < unat (alpha (cc_vegas cc)) then unat (cwnd cc) + unat (cwnd_inc cc)
        else unat (cwnd cc))
    \<and> (unat (cwnd_min cc) \<le> unat (cwnd cc) \<longrightarrow>
        unat q > unat (delta (cc_vegas cc)) \<or> unat q > unat (beta (cc_vegas cc)) \<or> blocked_chan cc \<longrightarrow> c \<le> cwnd cc)"
proof -
  let ?d = "vegas_bdp cc + ucast (delta (cc_vegas cc)) - CWND_INC cc"
  let ?c = "max (if q > ucast (delta (cc_vegas cc)) then ?d
     else if q > ucast (beta (cc_vegas cc)) \<or> blocked_chan cc then cwnd cc - CWND_INC cc
     else if cwnd_full cc \<and> q < ucast (alpha (cc_vegas cc)) then cwnd cc + CWND_INC cc else cwnd cc) (ucast (cwnd_min cc))"
  have "measured (cc\<lparr>cwnd := x\<rparr>)" for x using assms(1) by (simp add: measured_def)
  then have s: "vegas_steady_state g cc q
      = Some (if unat q > unat (delta (cc_vegas cc)) then g\<lparr>cc_stats_vegas_above_delta := cc_stats_vegas_above_delta g + 1\<rparr> else g,
              cc\<lparr>cwnd := ?c\<rparr>)"
    by (simp add: vegas_steady_state_def log_defined unat_less64 word_nat)
  have i: "unat (CWND_INC cc) = unat (cwnd_inc cc)" by (simp add: CWND_INC_def word_nat)
  have q: "unat q = unat (cwnd cc) - unat (bdp cc)" using assms(3) by (auto simp: unat_sub64 unat_less64 unat_le64 not_less)
  have 1: "unat ?d = unat (bdp cc) + unat (delta (cc_vegas cc)) - unat (cwnd_inc cc)" if "unat q > unat (delta (cc_vegas cc))"
  proof -
    have "unat (bdp cc) < 2 ^ 32" using that q assms(2) by linarith
    then have "unat (vegas_bdp cc + ucast (delta (cc_vegas cc))) = unat (bdp cc) + unat (delta (cc_vegas cc))"
      using unat_lt16 [of "delta (cc_vegas cc)"] unfolding vegas_bdp_def by (subst unat_add64) (simp_all add: word_nat)
    then show ?thesis using assms(5) by (subst unat_sub64) (simp_all add: unat_le64 i)
  qed
  have 2: "unat (cwnd cc - CWND_INC cc) = unat (cwnd cc) - unat (cwnd_inc cc)"
    using assms(4) by (subst unat_sub64) (simp_all add: unat_le64 i)
  have 3: "unat (cwnd cc + CWND_INC cc) = unat (cwnd cc) + unat (cwnd_inc cc)"
    using assms(2) unat_lt16 [of "cwnd_inc cc"] by (subst unat_add64) (simp_all add: i)
  have u: "unat ?c = max (unat (cwnd_min cc))
       (if unat q > unat (delta (cc_vegas cc)) then unat (bdp cc) + unat (delta (cc_vegas cc)) - unat (cwnd_inc cc)
        else if unat q > unat (beta (cc_vegas cc)) \<or> blocked_chan cc then unat (cwnd cc) - unat (cwnd_inc cc)
        else if cwnd_full cc \<and> unat q < unat (alpha (cc_vegas cc)) then unat (cwnd cc) + unat (cwnd_inc cc)
        else unat (cwnd cc))"
    by (simp only: unat_max64 unat_less64 unat_ucast64_16 if_distrib [of unat] 1 2 3 max.commute cong: if_cong)
  have "unat ?c \<le> unat (cwnd cc)"
    if "unat (cwnd_min cc) \<le> unat (cwnd cc)"
      "unat q > unat (delta (cc_vegas cc)) \<or> unat q > unat (beta (cc_vegas cc)) \<or> blocked_chan cc"
    unfolding u using that q by auto
  with s u show ?thesis unfolding unat_le64 by blast
qed

lemma vegas_steady_state_spec_witness:
  "\<exists>c. vegas_steady_state cc_globals_init (exit_cc\<lparr>cwnd := 1000, bdp := 700, ewma_rtt_usec := 5\<rparr>) 300
      = Some (cc_globals_init, exit_cc\<lparr>bdp := 700, ewma_rtt_usec := 5, cwnd := c\<rparr>) \<and> unat c = 999"
proof -
  let ?cc = "exit_cc\<lparr>cwnd := 1000, bdp := 700, ewma_rtt_usec := 5\<rparr>"
  have "300 = (if bdp ?cc > cwnd ?cc then 0 else cwnd ?cc - bdp ?cc)" by simp
  from vegas_steady_state_spec [OF _ _ this, of cc_globals_init] show ?thesis
    by (auto simp: exit_cc_def measured_def)
qed

text \<open>The increment of the window may be larger than the window: the consensus allows an increment
  of up to 1000 with a minimum window of 31. On a congestion signal the subtraction then wraps, the
  minimum does not catch it, and the window becomes larger than 2^64 - 1001 cells.\<close>

theorem vegas_decrease_wraps:
  assumes "measured cc" "unat (cwnd cc) < unat (cwnd_inc cc)" "unat (cwnd_inc cc) \<le> 1000"
    and "unat q \<le> unat (delta (cc_vegas cc))" "unat q > unat (beta (cc_vegas cc)) \<or> blocked_chan cc"
  shows "\<exists>g' c. vegas_steady_state g cc q = Some (g', cc\<lparr>cwnd := c\<rparr>) \<and> 2 ^ 64 - 1000 \<le> unat c \<and> cwnd cc < c"
proof -
  let ?d = "cwnd cc - CWND_INC cc"
  let ?c = "max ?d (ucast (cwnd_min cc))"
  have "measured (cc\<lparr>cwnd := x\<rparr>)" for x using assms(1) by (simp add: measured_def)
  then have s: "\<exists>g'. vegas_steady_state g cc q = Some (g', cc\<lparr>cwnd := ?c\<rparr>)"
    using assms(4,5) by (auto simp: vegas_steady_state_def log_defined word_nat)
  have i: "unat (CWND_INC cc) = unat (cwnd_inc cc)" by (simp add: CWND_INC_def word_nat)
  have "unat ?d = 2 ^ 64 + unat (cwnd cc) - unat (cwnd_inc cc)"
    using assms(2,3) by (simp add: unat_sub_if' i)
  then have "2 ^ 64 - 1000 \<le> unat ?d" "unat ?d \<le> unat ?c" using assms(3) by (simp_all add: unat_max64)
  moreover have "unat (cwnd cc) < 2 ^ 64 - 1000" using assms(2,3) by simp
  ultimately show ?thesis using s by (meson order_less_le_trans order_trans unat_less64)
qed

lemma vegas_decrease_wraps_witness:
  "\<exists>g' c. vegas_steady_state cc_globals_init (exit_cc\<lparr>cwnd_inc := 1000, ewma_rtt_usec := 5, blocked_chan := True\<rparr>) 0
      = Some (g', exit_cc\<lparr>cwnd_inc := 1000, ewma_rtt_usec := 5, blocked_chan := True, cwnd := c\<rparr>) \<and> 2 ^ 64 - 1000 \<le> unat c"
  using vegas_decrease_wraps [of "exit_cc\<lparr>cwnd_inc := 1000, ewma_rtt_usec := 5, blocked_chan := True\<rparr>" 0 cc_globals_init]
  by (auto simp: exit_cc_def measured_def)


section \<open>States that the parameters allow\<close>

text \<open>C36: When the monotonic clock has not moved since the circuit was set up and the channel of the
  circuit blocks, the first SENDME stops the program: the log message of the end of slow start
  divides by the larger of the two round trip times, which are both zero.\<close>

theorem stalled_clock_divides_by_zero:
  assumes "sendme_pending_timestamps cc = t # ts" "ewma_rtt_usec cc = 0" "min_rtt_usec cc = 0"
    and "in_slow_start cc" "snd (chan_state circ)"
  shows "congestion_control_dispatch_cc_alg g cc circ t = None"
proof (cases "cc_cc_alg cc = CC_ALG_VEGAS")
  case False
  then show ?thesis
    by (simp add: congestion_control_dispatch_cc_alg_def congestion_control_vegas_process_sendme_def)
next
  case True
  obtain x y where d: "dec_events cc = cc\<lparr>next_cc_event := x, next_cwnd_event := y\<rparr>" using dec_events_eq by blast
  let ?cc = "cc\<lparr>next_cc_event := x, next_cwnd_event := y\<rparr>"
  have r: "congestion_control_update_circuit_rtt g ?cc t
      = Some (g\<lparr>is_monotime_clock_broken := True, num_clock_stalls := num_clock_stalls g + 1\<rparr>,
              ?cc\<lparr>sendme_pending_timestamps := ts\<rparr>, 0)" (is "_ = Some (?g, ?c1, _)")
    using assms(1) by (simp add: congestion_control_update_circuit_rtt_def dequeue_timestamp_def time_delta_stalled_or_jumped_def)
  obtain w where b: "congestion_control_update_circuit_bdp ?c1 circ 0 = Some (?c1\<lparr>blocked_chan := True, bdp := w\<rparr>, True)"
    using assms(2,5) by (auto simp: congestion_control_update_circuit_bdp_def chan_state_def Let_def split: if_splits)
  let ?c2 = "?c1\<lparr>blocked_chan := True, bdp := w\<rparr>"
  have e: "congestion_control_update_circuit_estimates g (dec_events cc) circ t = Some (?g, ?c2, True)"
    unfolding d by (simp only: congestion_control_update_circuit_estimates_def r b bind.bind_lunit prod.case)
  obtain fl where f: "vegas_update_full ?g ?c2 = ?c2\<lparr>cwnd_full := fl\<rparr>" using update_full_eq by blast
  have "vegas_slow_start ?g (?c2\<lparr>cwnd_full := fl\<rparr>) circ q = None" for q
    using assms(2,3) by (simp add: vegas_slow_start_def congestion_control_vegas_exit_slow_start_def log_defined measured_def)
  moreover have "in_slow_start (?c2\<lparr>cwnd_full := fl\<rparr>)" using assms(4) by simp
  ultimately have "congestion_control_vegas_process_sendme g cc circ t = None"
    unfolding process_unfold [OF True e] Let_def f by simp
  then show ?thesis by (simp add: congestion_control_dispatch_cc_alg_def)
qed

lemma stalled_clock_divides_by_zero_witness:
  "congestion_control_dispatch_cc_alg cc_globals_init (exit_cc\<lparr>inflight := 31, sendme_pending_timestamps := [7]\<rparr>)
     (exit_circuit\<lparr>circuit_blocked_on_p_chan := True\<rparr>) 7 = None"
  by (rule stalled_clock_divides_by_zero)
    (simp_all add: exit_cc_def cc_zero_def exit_circuit_def chan_state_def CIRCUIT_IS_ORIGIN_def CIRCUIT_PURPOSE_OR_MAX_def)

text \<open>The estimate of the bandwidth-delay product can exceed the window: at the minimum window the
  smallest round trip time is reset to the larger of itself and the average, also when the average
  has just become smaller.\<close>

theorem bdp_exceeds_window:
  "\<exists>g' cc'. congestion_control_update_circuit_estimates cc_globals_init
      (exit_cc\<lparr>in_slow_start := False, inflight := 31, sendme_pending_timestamps := [1000],
               ewma_rtt_usec := 1000, min_rtt_usec := 1000\<rparr>) exit_circuit 1400 = Some (g', cc', True)
    \<and> cwnd cc' = 124 \<and> bdp cc' = 206 \<and> min_rtt_usec cc' = 1000 \<and> ewma_rtt_usec cc' = 600"
  by (simp add: congestion_control_update_circuit_estimates_def congestion_control_update_circuit_rtt_def
      congestion_control_update_circuit_bdp_def dequeue_timestamp_def time_delta_stalled_or_jumped_def
      time_delta_should_use_heuristics_def n_ewma_count_def CWND_UPDATE_RATE_def n_count_ewma_def udiv_def
      percent_max_mix_def Let_def exit_cc_def cc_zero_def cc_globals_init_def exit_circuit_def CIRCUIT_IS_ORIGIN_def
      CIRCUIT_PURPOSE_OR_MAX_def)

text \<open>The consensus may set an increment that is larger than the window (up to 254 cells, with an
  initial and minimum window of 31). Such a circuit fills its window, records no time and waits for
  a SENDME that never becomes due: nothing changes its flow state again.\<close>

theorem increment_above_window_deadlocks:
  assumes "hint_ok circ lh" "cc_of circ lh = Some cc" "cc_inv g cc" "inflight cc = 0"
    and "unat (cwnd cc) < unat (sendme_inc cc)"
  shows "\<exists>circ'. (flow_step lh)\<^sup>*\<^sup>* (g, circ) (g, circ') \<and> congestion_control_get_package_window circ' lh = 0
    \<and> (\<forall>s. (flow_step lh)\<^sup>*\<^sup>* (g, circ') s \<longrightarrow> cc_of (snd s) lh = cc_of circ' lh)"
proof -
  have fill: "n \<le> unat (cwnd cc) \<Longrightarrow> \<exists>circ' cc'. (flow_step lh)\<^sup>*\<^sup>* (g, circ) (g, circ') \<and> cc_of circ' lh = Some cc'
     \<and> hint_ok circ' lh \<and> cc_inv g cc' \<and> unat (inflight cc') = n \<and> cwnd cc' = cwnd cc \<and> sendme_inc cc' = sendme_inc cc" for n
  proof (induction n)
    case 0
    with assms show ?case by (intro exI [of _ circ] exI [of _ cc]) simp
  next
    case (Suc n)
    then obtain circ' cc' where c: "(flow_step lh)\<^sup>*\<^sup>* (g, circ) (g, circ')" "cc_of circ' lh = Some cc'"
      "hint_ok circ' lh" "cc_inv g cc'" "unat (inflight cc') = n" "cwnd cc' = cwnd cc" "sendme_inc cc' = sendme_inc cc" by auto
    have lt: "inflight cc' < cwnd cc'" using c(5,6) Suc.prems by (simp add: word_less_nat_alt)
    obtain cc'' where n: "congestion_control_note_cell_sent cc' circ' lh 0 = Some cc''" "cc_inv g cc''"
      "unat (inflight cc'') = Suc n" "cwnd cc'' = cwnd cc" "sendme_inc cc'' = sendme_inc cc"
      using note_cell_sent [OF c(2,4) lt, of 0] c(5-7) by auto
    have "flow_step lh (g, circ') (g, set_ccontrol circ' lh cc'')"
      by (rule Send_Cell [OF c(2) _ n(1)]) (simp add: window_open [OF c(2)] lt)
    with c(1) have "(flow_step lh)\<^sup>*\<^sup>* (g, circ) (g, set_ccontrol circ' lh cc'')" by (rule rtranclp.rtrancl_into_rtrancl)
    with n c(3) show ?case by (intro exI [of _ "set_ccontrol circ' lh cc''"] exI [of _ cc'']) simp
  qed
  from fill [of "unat (cwnd cc)"] obtain circ' cc' where c: "(flow_step lh)\<^sup>*\<^sup>* (g, circ) (g, circ')"
    "cc_of circ' lh = Some cc'" "cc_inv g cc'" "unat (inflight cc') = unat (cwnd cc)" "cwnd cc' = cwnd cc"
    "sendme_inc cc' = sendme_inc cc" by auto
  have full: "\<not> inflight cc' < cwnd cc'" using c(4,5) by (simp add: word_less_nat_alt)
  have empty: "sendme_pending_timestamps cc' = []" using c(3,4,6) assms(5) by (simp add: cc_inv_def)
  have "(flow_step lh)\<^sup>*\<^sup>* (g, circ') s \<Longrightarrow> cc_of (snd s) lh = Some cc'" for s
  proof (induction rule: rtranclp_induct)
    case base
    show ?case using c(2) by simp
  next
    case (step y z)
    from step(2) show ?case
    proof cases
      case (Send_Cell circ cc now cc' g)
      with step(3) full window_open show ?thesis by auto
    next
      case (Recv_Sendme circ cc t ts now g g' cc' evs)
      with step(3) empty show ?thesis by simp
    next
      case (Channel g circ n p nb pb)
      with step(3) show ?thesis by simp
    qed
  qed
  with c(1,2) window_closed [OF c(2) full] show ?thesis by auto
qed

lemma increment_above_window_deadlocks_witness:
  "\<exists>circ'. (flow_step None)\<^sup>*\<^sup>* (cc_globals_init, exit_circuit\<lparr>ccontrol := Some (exit_cc\<lparr>sendme_inc := 254\<rparr>)\<rparr>) (cc_globals_init, circ')
    \<and> congestion_control_get_package_window circ' None = 0"
proof -
  let ?cc = "exit_cc\<lparr>sendme_inc := 254\<rparr>" and ?circ = "exit_circuit\<lparr>ccontrol := Some (exit_cc\<lparr>sendme_inc := 254\<rparr>)\<rparr>"
  have "hint_ok ?circ None" "cc_of ?circ None = Some ?cc" by (simp_all add: hint_ok_def cc_of_def flow_of_def)
  moreover have "cc_inv cc_globals_init ?cc" "inflight ?cc = 0" "unat (cwnd ?cc) < unat (sendme_inc ?cc)"
    by (simp_all add: cc_inv_def exit_cc_def cc_zero_def cc_globals_init_def)
  ultimately show ?thesis using increment_above_window_deadlocks by blast
qed

end
