(* ===== verification/Sendme.thy ===== *)
theory Sendme
  imports Congestion_Flow Smartlist
begin

text \<open>
  SENDME cells, src/core/or/sendme.c with the cell format of src/trunnel/sendme_cell.c: building,
  parsing and validating them, the windows of circuits and streams that they move, and the queue of
  cell tags that authenticates them.

  Sending a relay cell is an argument: \<open>send w circ layer_hint payload\<close> stands for
  \<open>relay_send_command_from_edge\<close> with RELAY_COMMAND_SENDME; it returns the state \<open>w\<close> of the channel
  and the circuit afterwards (its cryptographic state has changed) and whether it succeeded. A fatal
  assertion is \<open>None\<close>.
\<close>

section \<open>The cell\<close>

record sendme_cell =
  version :: nat
  data_len :: nat
  data_v1_digest :: string

definition get_uint16 :: "string \<Rightarrow> nat" where
  "get_uint16 s = of_char (s ! 0) * 256 + of_char (s ! 1)"

definition set_uint16 :: "nat \<Rightarrow> string" where
  "set_uint16 n = [char_of (n div 256 mod 256), char_of (n mod 256)]"

text \<open>The cell and the number of bytes read; nothing for a truncated or invalid cell.\<close>

definition sendme_cell_parse_into :: "string \<Rightarrow> (sendme_cell \<times> nat) option" where
  "sendme_cell_parse_into input =
     (let len_in = length input; remaining = len_in
      in if remaining < 1 then None
         else let v = of_char (input ! 0); remaining = remaining - 1; ptr = drop 1 input
              in if \<not> (v = 0 \<or> v = 1) then None
                 else if remaining < 2 then None
                 else let dl = get_uint16 ptr; remaining = remaining - 2; ptr = drop 2 ptr
                      in if \<not> (dl = 16 \<or> dl = 20) then None
                         else if remaining < dl then None
                         else let remaining_after = remaining - dl;
                                  digest = (if v = 0 then [] else take dl ptr)
                              in Some (\<lparr>version = v, data_len = dl, data_v1_digest = digest\<rparr>,
                                       len_in - remaining_after))"

definition sendme_cell_check :: "sendme_cell \<Rightarrow> bool" where
  "sendme_cell_check obj =
     ((version obj = 0 \<or> version obj = 1) \<and> (data_len obj = 16 \<or> data_len obj = 20))"

text \<open>The length of the union is written over the length field at the end.\<close>

definition sendme_cell_encode :: "nat \<Rightarrow> sendme_cell \<Rightarrow> string option" where
  "sendme_cell_encode avail obj =
     (if \<not> sendme_cell_check obj then None
      else if avail < 1 then None
      else if avail - 1 < 2 then None
      else let union = (if version obj = 0 then [] else data_v1_digest obj)
           in if avail - 3 < length union then None
              else if length union > 65535 then None
              else Some (char_of (version obj) # set_uint16 (length union) @ union))"

section \<open>Versions, tags and validation\<close>

abbreviation SENDME_TAG_LEN_TOR1 :: nat where "SENDME_TAG_LEN_TOR1 \<equiv> 20"
abbreviation SENDME_TAG_LEN_CGO :: nat where "SENDME_TAG_LEN_CGO \<equiv> 16"
abbreviation SENDME_MAX_SUPPORTED_VERSION :: int where "SENDME_MAX_SUPPORTED_VERSION \<equiv> 1"
abbreviation RELAY_PAYLOAD_SIZE_MAX :: nat where "RELAY_PAYLOAD_SIZE_MAX \<equiv> 498"
abbreviation CIRCWINDOW_START_MAX :: int where "CIRCWINDOW_START_MAX \<equiv> 1000"
abbreviation END_CIRC_REASON_TORPROTOCOL :: int where "END_CIRC_REASON_TORPROTOCOL \<equiv> 1"

definition tag_len_ok :: "nat \<Rightarrow> bool" where
  "tag_len_ok tag_len = (tag_len = SENDME_TAG_LEN_CGO \<or> tag_len = SENDME_TAG_LEN_TOR1)"

definition relay_crypto_get_sendme_tag :: "relay_crypto \<Rightarrow> string" where
  "relay_crypto_get_sendme_tag crypto = (case crypto of RCK_TOR1 t \<Rightarrow> t | RCK_CGO t \<Rightarrow> t)"

definition relay_crypto_sendme_tag_len :: "relay_crypto \<Rightarrow> nat" where
  "relay_crypto_sendme_tag_len crypto =
     (case crypto of RCK_TOR1 _ \<Rightarrow> SENDME_TAG_LEN_TOR1 | RCK_CGO _ \<Rightarrow> SENDME_TAG_LEN_CGO)"

definition get_emit_min_version :: "networkstatus option \<Rightarrow> int option" where
  "get_emit_min_version latest = networkstatus_get_param None latest ''sendme_emit_min_version'' 1 0 255"

definition get_accept_min_version :: "networkstatus option \<Rightarrow> int option" where
  "get_accept_min_version latest = networkstatus_get_param None latest ''sendme_accept_min_version'' 0 0 255"

definition pop_first_cell_digest :: "circuit \<Rightarrow> circuit \<times> string option" where
  "pop_first_cell_digest circ =
     (case sendme_last_digests circ of
        None \<Rightarrow> (circ, None)
      | Some ds \<Rightarrow> if length ds = 0 then (circ, None)
                   else (circ\<lparr>sendme_last_digests := smartlist_del_keeporder ds 0\<rparr>, Some (ds ! 0)))"

definition v1_tag_matches :: "string \<Rightarrow> string \<Rightarrow> nat \<Rightarrow> bool" where
  "v1_tag_matches circ_digest cell_tag tag_len =
     (if take tag_len circ_digest \<noteq> take tag_len cell_tag then False else True)"

definition cell_v1_is_valid :: "sendme_cell \<Rightarrow> string \<Rightarrow> nat \<Rightarrow> bool" where
  "cell_v1_is_valid cell circ_digest circ_digest_len =
     (let tag_len = data_len cell
      in if \<not> tag_len_ok tag_len then False
         else if length (data_v1_digest cell) < tag_len then False
         else if tag_len \<noteq> circ_digest_len then False
         else v1_tag_matches circ_digest (data_v1_digest cell) tag_len)"

definition cell_version_can_be_handled :: "nat \<Rightarrow> networkstatus option \<Rightarrow> bool option" where
  "cell_version_can_be_handled cell_version latest =
     do { accept_version \<leftarrow> get_accept_min_version latest;
          if accept_version > SENDME_MAX_SUPPORTED_VERSION then Some False
          else if int cell_version < accept_version then Some False
          else if int cell_version > SENDME_MAX_SUPPORTED_VERSION then Some False
          else Some True }"

definition sendme_is_valid :: "circuit \<Rightarrow> nat option \<Rightarrow> string \<Rightarrow> networkstatus option \<Rightarrow> (circuit \<times> bool) option" where
  "sendme_is_valid circ layer_hint cell_payload latest =
     (case (if length cell_payload = 0 then Some None else map_option (Some o fst) (sendme_cell_parse_into cell_payload)) of
        None \<Rightarrow> Some (circ, False)
      | Some cell \<Rightarrow>
          let cell_version = (case cell of None \<Rightarrow> 0 | Some c \<Rightarrow> version c)
          in do { (circ, handled) \<leftarrow>
                    (if CIRCUIT_IS_ORCIRC circ \<and> used_legacy_circuit_handshake circ \<and> cell_version = 0
                     then Some (circ\<lparr>used_obsolete_sendme := True\<rparr>, True)
                     else do { h \<leftarrow> cell_version_can_be_handled cell_version latest; Some (circ, h) });
                  if \<not> handled then Some (circ, False)
                  else case (case layer_hint of
                               Some h \<Rightarrow> Some (relay_crypto_sendme_tag_len (cp_crypto (cpath circ ! h)))
                             | None \<Rightarrow> if CIRCUIT_IS_ORCIRC circ then Some (relay_crypto_sendme_tag_len (or_crypto circ))
                                       else None) of
                         None \<Rightarrow> Some (circ, False)
                       | Some circ_expects_tag_len \<Rightarrow>
                           case pop_first_cell_digest circ of
                             (circ, None) \<Rightarrow> Some (circ, False)
                           | (circ, Some circ_digest) \<Rightarrow>
                               Some (circ, if cell_version = 1
                                           then cell_v1_is_valid (the cell) circ_digest circ_expects_tag_len
                                           else True) })"

definition build_cell_payload_v1 :: "string \<Rightarrow> string option" where
  "build_cell_payload_v1 cell_tag =
     (if \<not> tag_len_ok (length cell_tag) then None
      else sendme_cell_encode RELAY_PAYLOAD_SIZE_MAX
             \<lparr>version = 1, data_len = length cell_tag, data_v1_digest = cell_tag\<rparr>)"

section \<open>Sending\<close>

type_synonym 'w send_fun = "'w \<Rightarrow> circuit \<Rightarrow> nat option \<Rightarrow> string \<Rightarrow> 'w \<times> circuit \<times> bool"

text \<open>A payload that cannot be built trips an assertion; the result tells whether the cell was sent.\<close>

definition send_circuit_level_sendme ::
    "'w send_fun \<Rightarrow> networkstatus option \<Rightarrow> 'w \<Rightarrow> circuit \<Rightarrow> nat option \<Rightarrow> string \<Rightarrow> ('w \<times> circuit \<times> bool) option" where
  "send_circuit_level_sendme send latest w circ layer_hint cell_tag =
     do { v \<leftarrow> get_emit_min_version latest;
          payload \<leftarrow> (if v = 1 then build_cell_payload_v1 cell_tag else Some []);
          Some (send w circ layer_hint payload) }"

definition record_cell_digest_on_circ :: "circuit \<Rightarrow> string \<Rightarrow> circuit option" where
  "record_cell_digest_on_circ circ sendme_tag =
     (let ds = (case sendme_last_digests circ of None \<Rightarrow> [] | Some ds \<Rightarrow> ds)
      in if length sendme_tag = SENDME_TAG_LEN_CGO
         then Some (circ\<lparr>sendme_last_digests :=
                Some (smartlist_add ds (sendme_tag @ replicate (SENDME_TAG_LEN_TOR1 - SENDME_TAG_LEN_CGO) (CHR 0x00)))\<rparr>)
         else if length sendme_tag = SENDME_TAG_LEN_TOR1
         then Some (circ\<lparr>sendme_last_digests := Some (smartlist_add ds sendme_tag)\<rparr>)
         else None)"

definition circ_deliver_window :: "circuit \<Rightarrow> nat option \<Rightarrow> int" where
  "circ_deliver_window circ layer_hint =
     (case layer_hint of Some h \<Rightarrow> cp_deliver_window (cpath circ ! h) | None \<Rightarrow> deliver_window circ)"

definition add_deliver_window :: "circuit \<Rightarrow> nat option \<Rightarrow> int \<Rightarrow> circuit" where
  "add_deliver_window circ layer_hint n =
     (case layer_hint of
        Some h \<Rightarrow> circ\<lparr>cpath := (cpath circ)[h := (cpath circ ! h)\<lparr>cp_deliver_window := cp_deliver_window (cpath circ ! h) + n\<rparr>]\<rparr>
      | None \<Rightarrow> circ\<lparr>deliver_window := deliver_window circ + n\<rparr>)"

definition add_package_window :: "circuit \<Rightarrow> nat option \<Rightarrow> int \<Rightarrow> circuit" where
  "add_package_window circ layer_hint n =
     (case layer_hint of
        Some h \<Rightarrow> circ\<lparr>cpath := (cpath circ)[h := (cpath circ ! h)\<lparr>cp_package_window := cp_package_window (cpath circ ! h) + n\<rparr>]\<rparr>
      | None \<Rightarrow> circ\<lparr>package_window := package_window circ + n\<rparr>)"

definition sendme_tag_of :: "circuit \<Rightarrow> nat option \<Rightarrow> string" where
  "sendme_tag_of circ layer_hint =
     (case layer_hint of
        Some h \<Rightarrow> relay_crypto_get_sendme_tag (cp_crypto (cpath circ ! h))
      | None \<Rightarrow> relay_crypto_get_sendme_tag (or_crypto circ))"

text \<open>The loop goes on for ever when the increment is zero. The second component tells whether the
  non-fatal assertion against a second SENDME was tripped.\<close>

partial_function (option) consider_sending_loop ::
    "'w send_fun \<Rightarrow> networkstatus option \<Rightarrow> 'w \<Rightarrow> circuit \<Rightarrow> nat option \<Rightarrow> int \<Rightarrow> bool \<Rightarrow> bool
       \<Rightarrow> ('w \<times> circuit \<times> bool) option" where
  "consider_sending_loop send latest w circ layer_hint inc sent_one_sendme bug =
     (if circ_deliver_window circ layer_hint \<le> CIRCWINDOW_START - inc then
        Option.bind (send_circuit_level_sendme send latest w (add_deliver_window circ layer_hint inc) layer_hint
                       (sendme_tag_of (add_deliver_window circ layer_hint inc) layer_hint))
          (\<lambda>r. case r of (w, circ, ok) \<Rightarrow>
             if \<not> ok then Some (w, circ, bug)
             else consider_sending_loop send latest w circ layer_hint inc True (bug \<or> sent_one_sendme))
      else Some (w, circ, bug))"

declare consider_sending_loop.simps [code]

definition sendme_circuit_consider_sending ::
    "'w send_fun \<Rightarrow> networkstatus option \<Rightarrow> 'w \<Rightarrow> circuit \<Rightarrow> nat option \<Rightarrow> ('w \<times> circuit \<times> bool) option" where
  "sendme_circuit_consider_sending send latest w circ layer_hint =
     consider_sending_loop send latest w circ layer_hint (sendme_get_inc_count circ layer_hint) False False"

section \<open>Receiving\<close>

definition tor_add_u32_nowrap :: "32 word \<Rightarrow> 32 word \<Rightarrow> 32 word" where
  "tor_add_u32_nowrap a b = (if a > 0xffffffff - b then 0xffffffff else a + b)"

definition circuit_read_valid_data :: "circuit \<Rightarrow> nat \<Rightarrow> circuit" where
  "circuit_read_valid_data circ relay_body_len =
     circ\<lparr>n_delivered_read_circ_bw := tor_add_u32_nowrap (n_delivered_read_circ_bw circ) (of_nat relay_body_len),
          n_overhead_read_circ_bw := tor_add_u32_nowrap (n_overhead_read_circ_bw circ)
                                       (of_nat RELAY_PAYLOAD_SIZE_MAX - of_nat relay_body_len)\<rparr>"

definition sendme_process_circuit_level_impl :: "circuit \<Rightarrow> nat option \<Rightarrow> circuit \<times> int" where
  "sendme_process_circuit_level_impl circ layer_hint =
     (if CIRCUIT_IS_ORIGIN circ then
        (case layer_hint of
           None \<Rightarrow> (circ, - END_CIRC_REASON_TORPROTOCOL)
         | Some h \<Rightarrow>
             if cp_package_window (cpath circ ! h) + CIRCWINDOW_INCREMENT > CIRCWINDOW_START_MAX
             then (circ, - END_CIRC_REASON_TORPROTOCOL)
             else (add_package_window circ layer_hint CIRCWINDOW_INCREMENT, 0))
      else if package_window circ + CIRCWINDOW_INCREMENT > CIRCWINDOW_START_MAX
           then (circ, - END_CIRC_REASON_TORPROTOCOL)
           else (add_package_window circ None CIRCWINDOW_INCREMENT, 0))"

text \<open>What follows the validation of the cell in \<open>sendme_process_circuit_level\<close>.\<close>

definition sendme_accept ::
    "cc_globals \<Rightarrow> 64 word \<Rightarrow> circuit \<Rightarrow> nat option \<Rightarrow> (cc_globals \<times> circuit \<times> cc_event list \<times> int) option" where
  "sendme_accept g now_usec circ layer_hint =
     (case snd (flow_of circ layer_hint) of
        None \<Rightarrow> (case sendme_process_circuit_level_impl circ layer_hint of (circ, ret) \<Rightarrow> Some (g, circ, [], ret))
      | Some cc \<Rightarrow>
          do { (g, cc, evs, ret) \<leftarrow> congestion_control_dispatch_cc_alg g cc circ now_usec;
               Some (g, set_ccontrol circ layer_hint cc, evs, ret) })"

definition sendme_process_circuit_level ::
    "cc_globals \<Rightarrow> networkstatus option \<Rightarrow> 64 word \<Rightarrow> circuit \<Rightarrow> nat option \<Rightarrow> string
       \<Rightarrow> (cc_globals \<times> circuit \<times> cc_event list \<times> int) option" where
  "sendme_process_circuit_level g latest now_usec circ layer_hint cell_payload =
     do { (circ, valid) \<leftarrow> sendme_is_valid circ layer_hint cell_payload latest;
          if \<not> valid then Some (g, circ, [], - END_CIRC_REASON_TORPROTOCOL)
          else sendme_accept g now_usec
                 (if CIRCUIT_IS_ORIGIN circ then circuit_read_valid_data circ (length cell_payload) else circ)
                 layer_hint }"

definition sendme_circuit_data_received :: "circuit \<Rightarrow> nat option \<Rightarrow> (circuit \<times> int) option" where
  "sendme_circuit_data_received circ layer_hint =
     (if CIRCUIT_IS_ORIGIN circ then
        (case layer_hint of
           None \<Rightarrow> None
         | Some h \<Rightarrow> let circ = add_deliver_window circ layer_hint (- 1)
                     in Some (circ, cp_deliver_window (cpath circ ! h)))
      else
        (case layer_hint of
           Some _ \<Rightarrow> None
         | None \<Rightarrow> let circ = add_deliver_window circ None (- 1) in Some (circ, deliver_window circ)))"

definition sendme_note_circuit_data_packaged :: "64 word \<Rightarrow> circuit \<Rightarrow> nat option \<Rightarrow> (circuit \<times> int) option" where
  "sendme_note_circuit_data_packaged now_usec circ layer_hint =
     do { circ \<leftarrow>
            (case snd (flow_of circ layer_hint) of
               Some cc \<Rightarrow> do { cc \<leftarrow> congestion_control_note_cell_sent cc circ layer_hint now_usec;
                               Some (set_ccontrol circ layer_hint cc) }
             | None \<Rightarrow>
                 (if CIRCUIT_IS_ORIGIN circ then
                    (case layer_hint of None \<Rightarrow> None | Some _ \<Rightarrow> Some (add_package_window circ layer_hint (- 1)))
                  else
                    (case layer_hint of Some _ \<Rightarrow> None | None \<Rightarrow> Some (add_package_window circ None (- 1)))));
          Some (circ, congestion_control_get_package_window circ layer_hint) }"

definition sendme_record_cell_digest_on_circ :: "circuit \<Rightarrow> nat option \<Rightarrow> circuit option" where
  "sendme_record_cell_digest_on_circ circ layer_hint =
     do { s \<leftarrow> circuit_sent_cell_for_sendme circ layer_hint;
          if \<not> s then Some circ
          else record_cell_digest_on_circ circ (sendme_tag_of circ layer_hint) }"

end
