(* ===== verification/Sendme_Flow.thy ===== *)
theory Sendme_Flow
  imports Sendme
begin

text \<open>
  The two ends of a circuit under circuit-level flow control, connected by a channel in each
  direction: \<open>connection_edge_package_raw_inbuf\<close> sends data while the package window is open
  (src/core/or/relay.c), each end records the tags of the cells that the other end acknowledges,
  and the other end sends the tag back in a SENDME. The lemmas show that the two ends agree: every
  SENDME of an honest end is accepted, no window leaves its range, and a closed window opens again.

  What the proofs need of a package window is the locale \<open>sendme_window\<close>; the fixed windows of
  old circuits and congestion control both provide it.
\<close>

section \<open>One end\<close>

definition crypto_of :: "circuit \<Rightarrow> nat option \<Rightarrow> relay_crypto" where
  "crypto_of circ lh = (case lh of Some h \<Rightarrow> cp_crypto (cpath circ ! h) | None \<Rightarrow> or_crypto circ)"

text \<open>Encrypting or recognizing a cell leaves its tag in the cryptographic state.\<close>

definition retag :: "relay_crypto \<Rightarrow> string \<Rightarrow> relay_crypto" where
  "retag c t = (case c of RCK_TOR1 _ \<Rightarrow> RCK_TOR1 t | RCK_CGO _ \<Rightarrow> RCK_CGO t)"

definition set_tag :: "circuit \<Rightarrow> nat option \<Rightarrow> string \<Rightarrow> circuit" where
  "set_tag circ lh t =
     (case lh of
        Some h \<Rightarrow> circ\<lparr>cpath := (cpath circ)[h := (cpath circ ! h)\<lparr>cp_crypto := retag (cp_crypto (cpath circ ! h)) t\<rparr>]\<rparr>
      | None \<Rightarrow> circ\<lparr>or_crypto := retag (or_crypto circ) t\<rparr>)"

definition package_data :: "64 word \<Rightarrow> circuit \<Rightarrow> nat option \<Rightarrow> string \<Rightarrow> (circuit \<times> int) option" where
  "package_data now circ lh t =
     do { circ \<leftarrow> sendme_record_cell_digest_on_circ (set_tag circ lh t) lh;
          (circ, w) \<leftarrow> sendme_note_circuit_data_packaged now circ lh;
          Some (circ, if w < 0 then - 1 else 0) }"

definition deliver_data ::
    "'w send_fun \<Rightarrow> networkstatus option \<Rightarrow> 'w \<Rightarrow> circuit \<Rightarrow> nat option \<Rightarrow> string \<Rightarrow> ('w \<times> circuit \<times> bool \<times> int) option" where
  "deliver_data send latest w circ lh t =
     do { (circ, dw) \<leftarrow> sendme_circuit_data_received (set_tag circ lh t) lh;
          if dw < 0 then Some (w, circ, False, - END_CIRC_REASON_TORPROTOCOL)
          else do { (w, circ, bug) \<leftarrow> sendme_circuit_consider_sending send latest w circ lh;
                    Some (w, circ, bug, 0) } }"

text \<open>A hop of an origin circuit, or the circuit of a relay.\<close>

definition endpoint_ok :: "circuit \<Rightarrow> nat option \<Rightarrow> bool" where
  "endpoint_ok circ lh \<longleftrightarrow>
     hint_ok circ lh \<and> (if lh = None then \<not> CIRCUIT_IS_ORIGIN circ \<and> CIRCUIT_IS_ORCIRC circ else CIRCUIT_IS_ORIGIN circ)"

text \<open>What a change of the package window leaves alone, and what a change of the rest does.\<close>

definition same_side :: "nat option \<Rightarrow> circuit \<Rightarrow> circuit \<Rightarrow> bool" where
  "same_side lh circ circ' \<longleftrightarrow>
     circ_deliver_window circ' lh = circ_deliver_window circ lh \<and> crypto_of circ' lh = crypto_of circ lh
     \<and> sendme_last_digests circ' = sendme_last_digests circ \<and> endpoint_ok circ' lh = endpoint_ok circ lh"

named_theorems side "what the changes of a circuit do to what flow control sees of it"

lemma retag_len [simp]: "relay_crypto_sendme_tag_len (retag c t) = relay_crypto_sendme_tag_len c"
  by (simp add: retag_def relay_crypto_sendme_tag_len_def split: relay_crypto.split)

lemma retag_tag [simp]: "relay_crypto_get_sendme_tag (retag c t) = t"
  by (simp add: retag_def relay_crypto_get_sendme_tag_def split: relay_crypto.split)

lemma sendme_tag_of_crypto: "sendme_tag_of circ lh = relay_crypto_get_sendme_tag (crypto_of circ lh)"
  by (simp add: sendme_tag_of_def crypto_of_def split: option.split)

lemmas side_defs = flow_of_def circ_deliver_window_def crypto_of_def endpoint_ok_def hint_ok_def
  CIRCUIT_IS_ORIGIN_def CIRCUIT_IS_ORCIRC_def

lemma set_tag_side [side]:
  assumes "hint_ok circ lh"
  shows "flow_of (set_tag circ lh t) lh = flow_of circ lh"
    "circ_deliver_window (set_tag circ lh t) lh = circ_deliver_window circ lh"
    "crypto_of (set_tag circ lh t) lh = retag (crypto_of circ lh) t"
    "sendme_last_digests (set_tag circ lh t) = sendme_last_digests circ"
    "endpoint_ok (set_tag circ lh t) lh = endpoint_ok circ lh"
    "hint_ok (set_tag circ lh t) lh"
    "chan_state (set_tag circ lh t) = chan_state circ"
  using assms by (auto simp: set_tag_def side_defs chan_state_def split: option.splits)

lemma add_deliver_window_side [side]:
  assumes "hint_ok circ lh"
  shows "flow_of (add_deliver_window circ lh n) lh = flow_of circ lh"
    "circ_deliver_window (add_deliver_window circ lh n) lh = circ_deliver_window circ lh + n"
    "crypto_of (add_deliver_window circ lh n) lh = crypto_of circ lh"
    "sendme_last_digests (add_deliver_window circ lh n) = sendme_last_digests circ"
    "endpoint_ok (add_deliver_window circ lh n) lh = endpoint_ok circ lh"
    "hint_ok (add_deliver_window circ lh n) lh"
  using assms by (auto simp: add_deliver_window_def side_defs split: option.splits)

lemma add_package_window_side [side]:
  assumes "hint_ok circ lh"
  shows "flow_of (add_package_window circ lh n) lh = (fst (flow_of circ lh) + n, snd (flow_of circ lh))"
    "same_side lh circ (add_package_window circ lh n)"
  using assms by (auto simp: add_package_window_def side_defs same_side_def split: option.splits)

lemma set_ccontrol_side [side]:
  assumes "hint_ok circ lh"
  shows "flow_of (set_ccontrol circ lh cc) lh = (fst (flow_of circ lh), Some cc)"
    "same_side lh circ (set_ccontrol circ lh cc)"
  using assms by (auto simp: set_ccontrol_def side_defs same_side_def split: option.splits)

lemma digests_side [side]:
  "flow_of (circ\<lparr>sendme_last_digests := ds\<rparr>) lh = flow_of circ lh"
  "circ_deliver_window (circ\<lparr>sendme_last_digests := ds\<rparr>) lh = circ_deliver_window circ lh"
  "crypto_of (circ\<lparr>sendme_last_digests := ds\<rparr>) lh = crypto_of circ lh"
  "endpoint_ok (circ\<lparr>sendme_last_digests := ds\<rparr>) lh = endpoint_ok circ lh"
  "hint_ok (circ\<lparr>sendme_last_digests := ds\<rparr>) lh = hint_ok circ lh"
  "chan_state (circ\<lparr>sendme_last_digests := ds\<rparr>) = chan_state circ"
  by (auto simp: side_defs chan_state_def split: option.splits)

lemma valid_data_side [side]:
  "flow_of (circuit_read_valid_data circ n) lh = flow_of circ lh"
  "circ_deliver_window (circuit_read_valid_data circ n) lh = circ_deliver_window circ lh"
  "crypto_of (circuit_read_valid_data circ n) lh = crypto_of circ lh"
  "sendme_last_digests (circuit_read_valid_data circ n) = sendme_last_digests circ"
  "endpoint_ok (circuit_read_valid_data circ n) lh = endpoint_ok circ lh"
  "hint_ok (circuit_read_valid_data circ n) lh = hint_ok circ lh"
  "chan_state (circuit_read_valid_data circ n) = chan_state circ"
  by (auto simp: circuit_read_valid_data_def side_defs chan_state_def split: option.splits)

lemma channel_side [side]:
  fixes circ n p nb pb defines "circ' \<equiv> circ\<lparr>n_chan_cells_n := n, p_chan_cells_n := p, circuit_blocked_on_n_chan := nb, circuit_blocked_on_p_chan := pb\<rparr>"
  shows "flow_of circ' lh = flow_of circ lh" "circ_deliver_window circ' lh = circ_deliver_window circ lh"
  "crypto_of circ' lh = crypto_of circ lh" "sendme_last_digests circ' = sendme_last_digests circ"
  "endpoint_ok circ' lh = endpoint_ok circ lh"
  by (auto simp: circ'_def side_defs split: option.splits)

lemma endpoint_hint [simp]: "endpoint_ok circ lh \<Longrightarrow> hint_ok circ lh"
  by (simp add: endpoint_ok_def)

lemma package_window_flow: "flow_of circ lh = flow_of circ' lh' \<Longrightarrow>
    congestion_control_get_package_window circ lh = congestion_control_get_package_window circ' lh'"
  "flow_of circ lh = flow_of circ' lh' \<Longrightarrow> circuit_sent_cell_for_sendme circ lh = circuit_sent_cell_for_sendme circ' lh'"
  "flow_of circ lh = flow_of circ' lh' \<Longrightarrow> sendme_get_inc_count circ lh = sendme_get_inc_count circ' lh'"
  by (simp_all add: congestion_control_get_package_window_def circuit_sent_cell_for_sendme_def sendme_get_inc_count_def)

section \<open>One cell\<close>

definition pad :: "string \<Rightarrow> string" where
  "pad t = t @ replicate (SENDME_TAG_LEN_TOR1 - length t) (CHR 0x00)"

definition v1_payload :: "string \<Rightarrow> string" where
  "v1_payload t = char_of (1 :: nat) # set_uint16 (length t) @ t"

definition tag_ok :: "nat \<Rightarrow> bool" where
  "tag_ok n \<longleftrightarrow> n = SENDME_TAG_LEN_CGO \<or> n = SENDME_TAG_LEN_TOR1"

lemma build_payload: "tag_ok (length t) \<Longrightarrow> build_cell_payload_v1 t = Some (v1_payload t)"
  by (auto simp: build_cell_payload_v1_def tag_len_ok_def tag_ok_def sendme_cell_encode_def sendme_cell_check_def v1_payload_def)

lemma parse_payload:
  "tag_ok (length t) \<Longrightarrow> sendme_cell_parse_into (v1_payload t @ rest)
     = Some (\<lparr>version = 1, data_len = length t, data_v1_digest = t\<rparr>, 3 + length t)"
  by (auto simp: sendme_cell_parse_into_def v1_payload_def tag_ok_def Let_def get_uint16_def set_uint16_def)

lemma record_digest:
  "tag_ok (length t) \<Longrightarrow> record_cell_digest_on_circ circ t
     = Some (circ\<lparr>sendme_last_digests := Some ((case sendme_last_digests circ of None \<Rightarrow> [] | Some ds \<Rightarrow> ds) @ [pad t])\<rparr>)"
  by (auto simp: record_cell_digest_on_circ_def tag_ok_def pad_def smartlist_add_def)

definition digests :: "circuit \<Rightarrow> string list" where
  "digests circ = (case sendme_last_digests circ of None \<Rightarrow> [] | Some ds \<Rightarrow> ds)"

lemma pop_digest:
  "digests circ = d # ds \<Longrightarrow> pop_first_cell_digest circ = (circ\<lparr>sendme_last_digests := Some ds\<rparr>, Some d)"
  by (auto simp: digests_def pop_first_cell_digest_def smartlist_del_keeporder_def split: option.splits)

lemma handled_v1: "get_accept_min_version latest = Some a \<Longrightarrow> a \<le> 1 \<Longrightarrow> cell_version_can_be_handled 1 latest = Some True"
  by (simp add: cell_version_can_be_handled_def)

lemma tag_len_of_end:
  assumes "endpoint_ok circ lh"
  shows "(case lh of Some h \<Rightarrow> Some (relay_crypto_sendme_tag_len (cp_crypto (cpath circ ! h)))
          | None \<Rightarrow> if CIRCUIT_IS_ORCIRC circ then Some (relay_crypto_sendme_tag_len (or_crypto circ)) else None)
      = Some (relay_crypto_sendme_tag_len (crypto_of circ lh))"
  using assms by (cases lh) (simp_all add: endpoint_ok_def crypto_of_def)

lemma valid_parsed_v1:
  assumes "endpoint_ok circ lh" "p \<noteq> []" "sendme_cell_parse_into p = Some (cell, m)" "version cell = 1"
    and "cell_version_can_be_handled 1 latest = Some True"
  shows "sendme_is_valid circ lh p latest =
    (case pop_first_cell_digest circ of
       (circ', None) \<Rightarrow> Some (circ', False)
     | (circ', Some d) \<Rightarrow> Some (circ', cell_v1_is_valid cell d (relay_crypto_sendme_tag_len (crypto_of circ lh))))"
  unfolding sendme_is_valid_def assms(3) using assms(2)
  by (simp add: assms(4,5) tag_len_of_end [OF assms(1)] Let_def del: One_nat_def)

lemma valid_not_v1:
  assumes "p = [] \<or> sendme_cell_parse_into p = None \<or> (\<exists>cell m. sendme_cell_parse_into p = Some (cell, m) \<and> version cell \<noteq> 1)"
    and a: "get_accept_min_version latest = Some 1" "\<not> used_legacy_circuit_handshake circ"
  shows "sendme_is_valid circ lh p latest = Some (circ, False)"
proof -
  have h: "cell_version_can_be_handled n latest = Some False" if "n \<noteq> 1" for n
    using that a(1) by (auto simp: cell_version_can_be_handled_def)
  show ?thesis using assms(1) a(2)
    by (cases "p = []"; cases "sendme_cell_parse_into p")
       (auto simp: sendme_is_valid_def h Let_def)
qed

text \<open>Validation of a well-formed version 1 cell compares its tag with the oldest recorded one.\<close>

lemma v1_matches:
  assumes "tag_ok (length t)" "length t' = length t"
  shows "cell_v1_is_valid \<lparr>version = 1, data_len = length t, data_v1_digest = t\<rparr> (pad t') (length t) = (t' = t)"
proof -
  have "take (length t) (pad t') = t'" using assms(2) by (simp add: pad_def)
  moreover have "tag_len_ok (length t)" using assms(1) by (simp add: tag_len_ok_def tag_ok_def)
  ultimately show ?thesis by (simp add: cell_v1_is_valid_def Let_def v1_tag_matches_def)
qed

lemma valid_v1:
  assumes e: "endpoint_ok circ lh" and l: "tag_ok (length t)" "relay_crypto_sendme_tag_len (crypto_of circ lh) = length t"
    and d: "digests circ = pad t' # ds" "length t' = length t" and a: "get_accept_min_version latest = Some a" "a \<le> 1"
  shows "sendme_is_valid circ lh (v1_payload t @ rest) latest = Some (circ\<lparr>sendme_last_digests := Some ds\<rparr>, t' = t)"
proof -
  have n: "v1_payload t @ rest \<noteq> []" by (simp add: v1_payload_def)
  have v: "version \<lparr>version = 1, data_len = length t, data_v1_digest = t\<rparr> = 1" by simp
  show ?thesis
    unfolding valid_parsed_v1 [OF e n parse_payload [OF l(1)] v handled_v1 [OF a]] pop_digest [OF d(1)] l(2) 
    by (simp add: v1_matches [OF l(1) d(2)] del: One_nat_def)
qed

text \<open>Whatever the payload, an accepted cell used up the oldest recorded tag, and unless version 0 is
  allowed it repeats that tag.\<close>

lemma parsed_v1_payload:
  assumes "sendme_cell_parse_into p = Some (cell, m)" "version cell = 1"
  shows "tag_ok (data_len cell)" "data_len cell + 3 \<le> length p" "p ! 0 = char_of (1 :: nat)"
    "data_v1_digest cell = take (data_len cell) (drop 3 p)"
proof -
  have 0: "p ! 0 = char_of (1 :: nat)" if "of_char (p ! 0) = (1 :: nat)"
    using that by (metis char_of_char)
  show "tag_ok (data_len cell)" "data_len cell + 3 \<le> length p" "p ! 0 = char_of (1 :: nat)"
    "data_v1_digest cell = take (data_len cell) (drop 3 p)"
    using assms 0 by (auto simp: sendme_cell_parse_into_def Let_def tag_ok_def split: if_splits)
qed

lemma accepted_only_matching:
  assumes v: "sendme_is_valid circ lh p latest = Some (circ', True)" and e: "endpoint_ok circ lh"
    and a: "get_accept_min_version latest = Some 1" "\<not> used_legacy_circuit_handshake circ"
  shows "\<exists>d ds n. digests circ = d # ds \<and> circ' = circ\<lparr>sendme_last_digests := Some ds\<rparr>
    \<and> tag_ok n \<and> n = relay_crypto_sendme_tag_len (crypto_of circ lh) \<and> n + 3 \<le> length p
    \<and> p ! 0 = char_of (1 :: nat) \<and> take n (drop 3 p) = take n d"
proof -
  let ?l = "relay_crypto_sendme_tag_len (crypto_of circ lh)"
  obtain cell m where c: "p \<noteq> []" "sendme_cell_parse_into p = Some (cell, m)" "version cell = 1"
    using valid_not_v1 [OF _ a, of p lh] v by (cases "sendme_cell_parse_into p") fastforce+
  have h: "cell_version_can_be_handled 1 latest = Some True" using handled_v1 [OF a(1)] by simp
  obtain d ds where d: "digests circ = d # ds"
    using v unfolding valid_parsed_v1 [OF e c h] pop_first_cell_digest_def digests_def
    by (cases "sendme_last_digests circ"; cases "the (sendme_last_digests circ)") auto
  from v have r: "circ' = circ\<lparr>sendme_last_digests := Some ds\<rparr>" "cell_v1_is_valid cell d ?l"
    unfolding valid_parsed_v1 [OF e c h] pop_digest [OF d] by auto
  from r(2) have "data_len cell = ?l" "v1_tag_matches d (data_v1_digest cell) (data_len cell)"
    by (simp_all add: cell_v1_is_valid_def Let_def split: if_splits)
  moreover from this(2) have "take (data_len cell) d = take (data_len cell) (data_v1_digest cell)"
    by (simp add: v1_tag_matches_def split: if_splits)
  ultimately show ?thesis using parsed_v1_payload [OF c(2,3)] d r(1)
    by (intro exI [of _ d] exI [of _ ds] exI [of _ "data_len cell"]) (simp add: take_drop)
qed

section \<open>When a SENDME is sent\<close>

lemma send_v1:
  assumes "get_emit_min_version latest = Some 1" "tag_ok (length t)"
  shows "send_circuit_level_sendme send latest w circ lh t = Some (send w circ lh (v1_payload t))"
  by (simp add: send_circuit_level_sendme_def assms(1) build_payload [OF assms(2)])

lemma consider_none:
  "circ_deliver_window circ lh > CIRCWINDOW_START - inc
     \<Longrightarrow> consider_sending_loop send latest w circ lh inc sent bug = Some (w, circ, bug)"
  by (subst consider_sending_loop.simps) simp

lemma consider_step:
  assumes "circ_deliver_window circ lh \<le> CIRCWINDOW_START - inc" "hint_ok circ lh" "get_emit_min_version latest = Some 1"
    and "tag_ok (length (sendme_tag_of circ lh))"
    and s: "send w (add_deliver_window circ lh inc) lh (v1_payload (sendme_tag_of circ lh)) = (w', circ', ok)"
  shows "consider_sending_loop send latest w circ lh inc sent bug =
    (if ok then consider_sending_loop send latest w' circ' lh inc True (bug \<or> sent) else Some (w', circ', bug))"
proof -
  have t: "sendme_tag_of (add_deliver_window circ lh inc) lh = sendme_tag_of circ lh"
    using assms(2) by (simp add: sendme_tag_of_crypto side)
  show ?thesis
    by (subst consider_sending_loop.simps) (simp add: assms(1) t send_v1 [OF assms(3,4)] s)
qed

text \<open>One increment below the start of the window one SENDME is sent; the loop ends after it.\<close>

lemma consider_one:
  assumes "circ_deliver_window circ lh \<le> CIRCWINDOW_START - inc" "CIRCWINDOW_START - inc - inc < circ_deliver_window circ lh"
    and "hint_ok circ lh" "get_emit_min_version latest = Some 1" "tag_ok (length (sendme_tag_of circ lh))"
    and "send w (add_deliver_window circ lh inc) lh (v1_payload (sendme_tag_of circ lh)) = (w', circ', True)"
    and "circ_deliver_window circ' lh = circ_deliver_window circ lh + inc"
  shows "consider_sending_loop send latest w circ lh inc False False = Some (w', circ', False)"
  using consider_step [of circ lh inc latest send w w' circ' True, OF assms(1,3-6)] consider_none [of inc circ' lh] assms(2,7) by simp

text \<open>A channel that keeps the deliver window and the length of the tags.\<close>

definition send_keeps :: "'w send_fun \<Rightarrow> nat option \<Rightarrow> bool" where
  "send_keeps send lh \<longleftrightarrow> (\<forall>w circ p w' circ' ok. send w circ lh p = (w', circ', ok) \<and> hint_ok circ lh \<longrightarrow>
     hint_ok circ' lh \<and> circ_deliver_window circ' lh = circ_deliver_window circ lh
     \<and> (tag_ok (length (sendme_tag_of circ lh)) \<longrightarrow> tag_ok (length (sendme_tag_of circ' lh))))"

lemma consider_loop_ends:
  assumes k: "send_keeps send lh" and "get_emit_min_version latest = Some 1" "0 < inc"
  shows "hint_ok circ lh \<Longrightarrow> tag_ok (length (sendme_tag_of circ lh)) \<Longrightarrow>
    \<exists>w' circ' bug'. consider_sending_loop send latest w circ lh inc sent bug = Some (w', circ', bug')"
proof (induction "nat (CIRCWINDOW_START - circ_deliver_window circ lh)" arbitrary: w circ sent bug rule: less_induct)
  case less
  show ?case
  proof (cases "circ_deliver_window circ lh \<le> CIRCWINDOW_START - inc")
    case False
    then show ?thesis by (simp add: consider_none)
  next
    case True
    let ?c = "add_deliver_window circ lh inc"
    obtain w' circ' ok where s: "send w ?c lh (v1_payload (sendme_tag_of circ lh)) = (w', circ', ok)"
      by (metis prod.exhaust)
    have h: "hint_ok ?c lh" "circ_deliver_window ?c lh = circ_deliver_window circ lh + inc"
      "sendme_tag_of ?c lh = sendme_tag_of circ lh"
      using less.prems(1) by (simp_all add: side sendme_tag_of_crypto)
    with k s less.prems(2) have h': "hint_ok circ' lh" "circ_deliver_window circ' lh = circ_deliver_window circ lh + inc"
      "tag_ok (length (sendme_tag_of circ' lh))"
      unfolding send_keeps_def by metis+
    then have "nat (CIRCWINDOW_START - circ_deliver_window circ' lh) < nat (CIRCWINDOW_START - circ_deliver_window circ lh)"
      using True assms(3) by simp
    from less.hyps [OF this h'(1,3)] show ?thesis
      unfolding consider_step [of circ lh inc latest send w, OF True less.prems(1) assms(2) less.prems(2) s] by simp
  qed
qed

section \<open>Package windows\<close>

text \<open>What is left of the clock: the SENDME arrives within the limit, and not at the very time of the
  cell on a blocked channel before the first estimate.\<close>

definition clock_ok :: "circuit \<Rightarrow> nat option \<Rightarrow> 64 word \<Rightarrow> bool" where
  "clock_ok circ lh now \<longleftrightarrow>
     (\<forall>cc t ts. cc_of circ lh = Some cc \<and> sendme_pending_timestamps cc = t # ts \<longrightarrow>
        unat (now - t) \<le> RTT_LIMIT \<and> (ewma_rtt_usec cc \<noteq> 0 \<or> now \<noteq> t \<or> \<not> snd (chan_state circ)))"

text \<open>The interface: \<open>unacked\<close> cells are on the way, and the other end acknowledges \<open>inc\<close> cells at a time.
  The last law is that of a window that never closes on less than an increment.\<close>

locale sendme_window =
  fixes ok :: "cc_globals \<Rightarrow> int \<times> congestion_control option \<Rightarrow> bool"
    and unacked :: "int \<times> congestion_control option \<Rightarrow> nat"
    and inc :: nat
  assumes increment: "ok g (flow_of circ lh) \<Longrightarrow> 0 < inc \<and> inc \<le> 1000 \<and> sendme_get_inc_count circ lh = int inc"
    and recorded: "endpoint_ok circ lh \<Longrightarrow> ok g (flow_of circ lh) \<Longrightarrow> 0 < congestion_control_get_package_window circ lh
      \<Longrightarrow> circuit_sent_cell_for_sendme circ lh = Some ((unacked (flow_of circ lh) + 1) mod inc = 0)"
    and packaged: "endpoint_ok circ lh \<Longrightarrow> ok g (flow_of circ lh) \<Longrightarrow> 0 < congestion_control_get_package_window circ lh
      \<Longrightarrow> \<exists>circ' w. sendme_note_circuit_data_packaged now circ lh = Some (circ', w) \<and> 0 \<le> w \<and> same_side lh circ circ'
        \<and> ok g (flow_of circ' lh) \<and> unacked (flow_of circ' lh) = unacked (flow_of circ lh) + 1"
    and acked: "endpoint_ok circ lh \<Longrightarrow> ok g (flow_of circ lh) \<Longrightarrow> inc \<le> unacked (flow_of circ lh) \<Longrightarrow> clock_ok circ lh now
      \<Longrightarrow> \<exists>g' circ' evs. sendme_accept g now circ lh = Some (g', circ', evs, 0) \<and> same_side lh circ circ'
        \<and> ok g' (flow_of circ' lh) \<and> unacked (flow_of circ' lh) + inc = unacked (flow_of circ lh)"

locale sendme_window_opens = sendme_window +
  assumes closed: "ok g (flow_of circ lh) \<Longrightarrow> \<not> 0 < congestion_control_get_package_window circ lh
    \<Longrightarrow> inc \<le> unacked (flow_of circ lh)"

text \<open>The fixed windows of 1000 cells.\<close>

definition fixed_ok :: "cc_globals \<Rightarrow> int \<times> congestion_control option \<Rightarrow> bool" where
  "fixed_ok g f \<longleftrightarrow> snd f = None \<and> 0 \<le> fst f \<and> fst f \<le> CIRCWINDOW_START_MAX"

definition fixed_unacked :: "int \<times> congestion_control option \<Rightarrow> nat" where
  "fixed_unacked f = nat (CIRCWINDOW_START_MAX - fst f)"

interpretation fixed: sendme_window_opens fixed_ok fixed_unacked 100
proof (unfold_locales, goal_cases)
  case (1 g circ lh)
  then show ?case by (cases "flow_of circ lh") (auto simp: fixed_ok_def sendme_get_inc_count_def)
next
  case (2 circ lh g)
  then obtain w where w: "flow_of circ lh = (w, None)" "0 < w" "w \<le> 1000"
    by (cases "flow_of circ lh") (auto simp: fixed_ok_def congestion_control_get_package_window_def)
  have "(w - 1) mod 100 = 0 \<longleftrightarrow> (1000 - w + 1) mod 100 = 0" by presburger
  also have "1000 - w + 1 = int (nat (1000 - w) + 1)" using w(3) by simp
  finally have "(w - 1) mod 100 = 0 \<longleftrightarrow> (nat (1000 - w) + 1) mod 100 = 0" by presburger
  then show ?case using w by (auto simp: circuit_sent_cell_for_sendme_def fixed_unacked_def)
next
  case (3 circ lh g now)
  then obtain w where w: "flow_of circ lh = (w, None)" "0 < w" "w \<le> 1000"
    by (cases "flow_of circ lh") (auto simp: fixed_ok_def congestion_control_get_package_window_def)
  let ?c = "add_package_window circ lh (- 1)"
  have f: "flow_of ?c lh = (w - 1, None)" using w 3(1) by (simp add: side)
  have "sendme_note_circuit_data_packaged now circ lh = Some (?c, w - 1)"
    using 3(1) w f by (cases lh) (auto simp: sendme_note_circuit_data_packaged_def endpoint_ok_def congestion_control_get_package_window_def)
  then show ?case using w f 3(1) by (simp add: side fixed_ok_def fixed_unacked_def)
next
  case (4 circ lh g now)
  then obtain w where w: "flow_of circ lh = (w, None)" "0 \<le> w" "w \<le> 900"
    by (cases "flow_of circ lh") (auto simp: fixed_ok_def fixed_unacked_def)
  let ?c = "add_package_window circ lh 100"
  have f: "flow_of ?c lh = (w + 100, None)" using w 4(1) by (simp add: side)
  have "sendme_accept g now circ lh = Some (g, ?c, [], 0)"
    using 4(1) w by (cases lh) (auto simp: sendme_accept_def sendme_process_circuit_level_impl_def endpoint_ok_def flow_of_def)
  then show ?case using w f 4(1) by (simp add: side fixed_ok_def fixed_unacked_def)
next
  case (5 g circ lh)
  then show ?case by (cases "flow_of circ lh") (auto simp: fixed_ok_def fixed_unacked_def congestion_control_get_package_window_def)
qed

text \<open>Congestion control, when the increment does not exceed the minimum window.\<close>

definition cc_ok :: "nat \<Rightarrow> cc_globals \<Rightarrow> int \<times> congestion_control option \<Rightarrow> bool" where
  "cc_ok inc g f \<longleftrightarrow>
     (\<exists>cc. snd f = Some cc \<and> cc_inv g cc \<and> unat (sendme_inc cc) = inc \<and> inc \<le> unat (cwnd_min cc))"

definition cc_unacked :: "int \<times> congestion_control option \<Rightarrow> nat" where
  "cc_unacked f = (case snd f of Some cc \<Rightarrow> unat (inflight cc) | None \<Rightarrow> 0)"

lemma cc_okE:
  assumes "cc_ok inc g (flow_of circ lh)"
  obtains cc where "cc_of circ lh = Some cc" "cc_inv g cc" "unat (sendme_inc cc) = inc" "inc \<le> unat (cwnd_min cc)"
    "cc_unacked (flow_of circ lh) = unat (inflight cc)"
  using assms by (auto simp: cc_ok_def cc_of_def cc_unacked_def)

lemma inflight_bound: "cc_inv g cc \<Longrightarrow> inflight cc < cwnd cc \<Longrightarrow> unat (inflight cc) + 1 < 2 ^ 32"
  using unat_lt32 [of "cwnd_max g"] by (simp add: cc_inv_def word_less_nat_alt)

interpretation cc: sendme_window_opens "cc_ok inc" cc_unacked inc for inc
proof (unfold_locales, goal_cases)
  case (1 g circ lh)
  then obtain cc where cc: "cc_of circ lh = Some cc" "cc_inv g cc" "unat (sendme_inc cc) = inc" by (rule cc_okE)
  then show ?case using unat_lt8 [of "sendme_inc cc"]
    by (auto simp: sendme_get_inc_count_def cc_of_def cc_inv_def)
next
  case (2 circ lh g)
  then obtain cc where cc: "cc_of circ lh = Some cc" "cc_inv g cc" "unat (sendme_inc cc) = inc"
    "cc_unacked (flow_of circ lh) = unat (inflight cc)" by (elim cc_okE)
  with 2(3) sent_for_sendme [OF cc(1,2) inflight_bound [OF cc(2)]] show ?case by (simp add: window_open)
next
  case (3 circ lh g now)
  then obtain cc where cc: "cc_of circ lh = Some cc" "cc_inv g cc" "unat (sendme_inc cc) = inc" "inc \<le> unat (cwnd_min cc)"
    "cc_unacked (flow_of circ lh) = unat (inflight cc)" by (elim cc_okE)
  from 3(3) have "inflight cc < cwnd cc" by (simp add: window_open [OF cc(1)])
  from note_cell_sent [OF cc(1,2) this, of now] obtain cc' where
    n: "congestion_control_note_cell_sent cc circ lh now = Some cc'" "cc_inv g cc'"
      "unat (inflight cc') = unat (inflight cc) + 1" "sendme_inc cc' = sendme_inc cc" "cwnd_min cc' = cwnd_min cc" by blast
  let ?c = "set_ccontrol circ lh cc'"
  have h: "hint_ok circ lh" using 3(1) by simp
  have f: "flow_of ?c lh = (fst (flow_of circ lh), Some cc')" "same_side lh circ ?c" using h by (simp_all add: side)
  have "0 \<le> congestion_control_get_package_window ?c lh"
    by (simp add: congestion_control_get_package_window_def f(1))
  moreover have "sendme_note_circuit_data_packaged now circ lh = Some (?c, congestion_control_get_package_window ?c lh)"
    using cc(1) n(1) by (simp add: sendme_note_circuit_data_packaged_def cc_of_def)
  ultimately show ?case using f n cc
    by (intro exI [of _ ?c] exI [of _ "congestion_control_get_package_window ?c lh"]) (simp add: cc_ok_def cc_unacked_def)
next
  case (4 circ lh g now)
  then obtain cc where cc: "cc_of circ lh = Some cc" "cc_inv g cc" "unat (sendme_inc cc) = inc" "inc \<le> unat (cwnd_min cc)"
    "cc_unacked (flow_of circ lh) = unat (inflight cc)" by (elim cc_okE)
  have "0 < inc" using cc(2,3) by (simp add: cc_inv_def)
  with 4(3) cc have "0 < length (sendme_pending_timestamps cc)" by (simp add: cc_inv_def div_greater_zero_iff)
  then obtain t ts where p: "sendme_pending_timestamps cc = t # ts" by (cases "sendme_pending_timestamps cc") auto
  with 4(4) cc(1) have "unat (now - t) \<le> RTT_LIMIT" "ewma_rtt_usec cc \<noteq> 0 \<or> now \<noteq> t \<or> \<not> snd (chan_state circ)"
    by (auto simp: clock_ok_def)
  from dispatch_inv [OF cc(2) p this] obtain g' cc' evs
    where d: "congestion_control_dispatch_cc_alg g cc circ now = Some (g', cc', evs, 0)" "cc_inv g' cc'"
      "sendme_inc cc' = sendme_inc cc" "cwnd_min cc' = cwnd_min cc" "unat (inflight cc') + unat (sendme_inc cc) = unat (inflight cc)"
    by (elim exE conjE) rule
  let ?c = "set_ccontrol circ lh cc'"
  have h: "hint_ok circ lh" using 4(1) by simp
  have f: "flow_of ?c lh = (fst (flow_of circ lh), Some cc')" "same_side lh circ ?c" using h by (simp_all add: side)
  have "sendme_accept g now circ lh = Some (g', ?c, evs, 0)"
    using cc(1) d(1) by (simp add: sendme_accept_def cc_of_def)
  then show ?case using f d cc
    by (intro exI [of _ g'] exI [of _ ?c] exI [of _ evs]) (simp add: cc_ok_def cc_unacked_def)
next
  case (5 g circ lh)
  then obtain cc where cc: "cc_of circ lh = Some cc" "cc_inv g cc" "inc \<le> unat (cwnd_min cc)"
    "cc_unacked (flow_of circ lh) = unat (inflight cc)" by (elim cc_okE)
  with 5(2) show ?case by (simp add: window_open cc_inv_def word_less_nat_alt)
qed

section \<open>Properties of one end\<close>

definition v1_consensus :: "networkstatus option" where
  "v1_consensus = Some \<lparr>net_params = Some [''sendme_accept_min_version=1'']\<rparr>"

lemma v1_consensus_accepts: "get_accept_min_version v1_consensus = Some 1"
  by code_simp

lemma exit_endpoint: "endpoint_ok (exit_circuit\<lparr>ccontrol := c, sendme_last_digests := ds, deliver_window := d, package_window := w\<rparr>) None"
  by (simp add: endpoint_ok_def exit_circuit_def hint_ok_def CIRCUIT_IS_ORIGIN_def CIRCUIT_IS_ORCIRC_def CIRCUIT_PURPOSE_OR_MAX_def)

text \<open>C27: An accepted SENDME proves receipt: when version 1 is required, \<open>sendme_is_valid\<close> accepts a payload
  only if a cell tag is recorded, the payload is a version 1 cell of the tag length of the circuit,
  and it repeats the oldest recorded tag, which is then used up.\<close>

theorem accepted_sendme_matches:
  assumes "sendme_is_valid circ lh p latest = Some (circ', True)" "endpoint_ok circ lh"
    and "get_accept_min_version latest = Some 1" "\<not> used_legacy_circuit_handshake circ"
  shows "\<exists>d ds n. digests circ = d # ds \<and> circ' = circ\<lparr>sendme_last_digests := Some ds\<rparr>
    \<and> n = relay_crypto_sendme_tag_len (crypto_of circ lh) \<and> n + 3 \<le> length p
    \<and> p ! 0 = char_of (1 :: nat) \<and> take n (drop 3 p) = take n d"
  using accepted_only_matching [OF assms] by blast

lemma accepted_sendme_matches_witness:
  "\<exists>d ds n. d # ds = [replicate 20 CHR 0x41] \<and> n + 3 \<le> length (v1_payload (replicate 20 CHR 0x41))
     \<and> take n (drop 3 (v1_payload (replicate 20 CHR 0x41))) = take n d"
proof -
  let ?t = "replicate 20 (CHR 0x41)"
  let ?c = "exit_circuit\<lparr>ccontrol := None, sendme_last_digests := Some [?t], deliver_window := 1000, package_window := 900\<rparr>"
  have e: "endpoint_ok ?c None" by (rule exit_endpoint)
  have d: "digests ?c = pad ?t # []" by (simp add: digests_def pad_def)
  have t: "tag_ok (length ?t)" by (simp add: tag_ok_def)
  have l: "relay_crypto_sendme_tag_len (crypto_of ?c None) = length ?t"
    by (simp add: crypto_of_def exit_circuit_def relay_crypto_sendme_tag_len_def)
  have v: "sendme_is_valid ?c None (v1_payload ?t) v1_consensus = Some (?c\<lparr>sendme_last_digests := Some []\<rparr>, True)"
    using valid_v1 [OF e t l d refl v1_consensus_accepts order_refl, of "[]"] by simp
  have u: "\<not> used_legacy_circuit_handshake ?c" by (simp add: exit_circuit_def)
  from accepted_sendme_matches [OF v e v1_consensus_accepts u] d show ?thesis by (auto simp: pad_def)
qed

text \<open>C28: \<open>sendme_circuit_consider_sending\<close> returns whatever the deliver window, for every positive
  increment and every channel that keeps the deliver window and the length of the tags.\<close>

theorem consider_sending_terminates:
  assumes "send_keeps send lh" "get_emit_min_version latest = Some 1" "0 < sendme_get_inc_count circ lh"
    and "hint_ok circ lh" "tag_ok (length (sendme_tag_of circ lh))"
  shows "\<exists>w' circ' bug. sendme_circuit_consider_sending send latest w circ lh = Some (w', circ', bug)"
  unfolding sendme_circuit_consider_sending_def
  by (rule consider_loop_ends [OF assms(1-3,4,5)])

lemma consider_sending_terminates_witness:
  "\<exists>w' circ' bug. sendme_circuit_consider_sending (\<lambda>w circ lh p. (w @ [p], circ, True)) None []
     (exit_circuit\<lparr>deliver_window := 17\<rparr>) None = Some (w', circ', bug)"
  by (rule consider_sending_terminates)
    (simp_all add: send_keeps_def get_emit_min_version_def networkstatus_get_param_def exit_circuit_def exit_cc_def
      sendme_get_inc_count_def flow_of_def hint_ok_def sendme_tag_of_def relay_crypto_get_sendme_tag_def tag_ok_def)

text \<open>With an increment of one cell the two ends disagree on a new circuit: the sender does not
  record the tag of its first cell, the receiver acknowledges it, and the SENDME is rejected as a
  protocol violation, whatever its payload.\<close>

theorem increment_one_rejected:
  assumes "cc_of circ lh = Some cc" "sendme_inc cc = 1" "inflight cc = 0" "digests circ = []" "endpoint_ok circ lh"
    and "get_accept_min_version latest = Some 1" "\<not> used_legacy_circuit_handshake circ"
  shows "circuit_sent_cell_for_sendme circ lh = Some False
    \<and> (\<forall>g now p. sendme_process_circuit_level g latest now circ lh p = Some (g, circ, [], - END_CIRC_REASON_TORPROTOCOL))"
proof (intro conjI allI)
  show "circuit_sent_cell_for_sendme circ lh = Some False"
    using assms(1,3) by (auto simp: circuit_sent_cell_for_sendme_def cc_of_def split: prod.splits option.splits)
  have pop: "fst (pop_first_cell_digest circ) = circ \<and> snd (pop_first_cell_digest circ) = None"
    using assms(4) by (auto simp: pop_first_cell_digest_def digests_def split: option.splits)
  fix g now p
  have "sendme_is_valid circ lh p latest = Some (circ, False)"
  proof (cases "p = [] \<or> sendme_cell_parse_into p = None \<or> (\<exists>cell m. sendme_cell_parse_into p = Some (cell, m) \<and> version cell \<noteq> 1)")
    case True
    then show ?thesis by (rule valid_not_v1 [OF _ assms(6,7)])
  next
    case False
    then obtain cell m where c: "p \<noteq> []" "sendme_cell_parse_into p = Some (cell, m)" "version cell = 1" by auto
    show ?thesis unfolding valid_parsed_v1 [OF assms(5) c handled_v1 [OF assms(6) order_refl]]
      using pop by (cases "pop_first_cell_digest circ") simp
  qed
  then show "sendme_process_circuit_level g latest now circ lh p = Some (g, circ, [], - END_CIRC_REASON_TORPROTOCOL)"
    by (simp add: sendme_process_circuit_level_def)
qed

lemma increment_one_rejected_witness:
  "sendme_process_circuit_level cc_globals_init v1_consensus 9
      (exit_circuit\<lparr>ccontrol := Some (exit_cc\<lparr>sendme_inc := 1\<rparr>), sendme_last_digests := None, deliver_window := 1000, package_window := 1000\<rparr>)
      None (v1_payload (replicate 20 CHR 0x41))
    = Some (cc_globals_init, exit_circuit\<lparr>ccontrol := Some (exit_cc\<lparr>sendme_inc := 1\<rparr>), sendme_last_digests := None,
        deliver_window := 1000, package_window := 1000\<rparr>, [], - END_CIRC_REASON_TORPROTOCOL)"
  by (rule increment_one_rejected [THEN conjunct2, rule_format, where cc = "exit_cc\<lparr>sendme_inc := 1\<rparr>",
        OF _ _ _ _ exit_endpoint v1_consensus_accepts])
    (simp_all add: cc_of_def flow_of_def exit_cc_def cc_zero_def digests_def exit_circuit_def)

end
