(* ===== verification/Sendme_Link.thy ===== *)
theory Sendme_Link
  imports Sendme_Flow
begin

text \<open>
  Both ends of a circuit with the cells between them, as a step relation; its invariant; and the
  properties of circuit-level flow control: no honest end ever breaks the protocol, and a closed
  window opens again.
\<close>

section \<open>Steps\<close>

datatype side = Client | Server

fun other :: "side \<Rightarrow> side" where
  "other Client = Server"
| "other Server = Client"

datatype cell = DATA string | SENDME string

record endpoint =
  ep_glob :: cc_globals
  ep_circ :: circuit
  ep_out :: "cell list"

definition send_sendme :: "string \<Rightarrow> cell list send_fun" where
  "send_sendme t out circ lh p = (out @ [SENDME p], set_tag circ lh t, True)"

text \<open>The tag of each cell is arbitrary, of the length of the cipher. \<open>Deliver\<close> and \<open>Sendme\<close> take the
  oldest cell that the other end sent.\<close>

inductive link_step ::
    "(side \<Rightarrow> nat option) \<Rightarrow> nat \<Rightarrow> networkstatus option \<Rightarrow> (side \<Rightarrow> endpoint) \<Rightarrow> (side \<Rightarrow> endpoint) \<Rightarrow> bool"
  for lh :: "side \<Rightarrow> nat option" and tlen :: nat and latest :: "networkstatus option" where
  Package: "0 < congestion_control_get_package_window (ep_circ (n x)) (lh x) \<Longrightarrow> length t = tlen
     \<Longrightarrow> package_data now (ep_circ (n x)) (lh x) t = Some (circ, 0)
     \<Longrightarrow> link_step lh tlen latest n (n(x := (n x)\<lparr>ep_circ := circ, ep_out := ep_out (n x) @ [DATA t]\<rparr>))"
| Deliver: "ep_out (n (other x)) = DATA t # cs \<Longrightarrow> length t' = tlen
     \<Longrightarrow> deliver_data (send_sendme t') latest (ep_out (n x)) (ep_circ (n x)) (lh x) t = Some (out, circ, False, 0)
     \<Longrightarrow> link_step lh tlen latest n (n(other x := (n (other x))\<lparr>ep_out := cs\<rparr>, x := (n x)\<lparr>ep_circ := circ, ep_out := out\<rparr>))"
| Sendme: "ep_out (n (other x)) = SENDME p # cs \<Longrightarrow> length t = tlen \<Longrightarrow> clock_ok (ep_circ (n x)) (lh x) now
     \<Longrightarrow> sendme_process_circuit_level (ep_glob (n x)) latest now (set_tag (ep_circ (n x)) (lh x) t) (lh x) p = Some (g, circ, evs, 0)
     \<Longrightarrow> link_step lh tlen latest n (n(other x := (n (other x))\<lparr>ep_out := cs\<rparr>, x := (n x)\<lparr>ep_glob := g, ep_circ := circ\<rparr>))"
| Channel: "link_step lh tlen latest n (n(x := (n x)\<lparr>ep_circ := (ep_circ (n x))
     \<lparr>n_chan_cells_n := k, p_chan_cells_n := l, circuit_blocked_on_n_chan := nb, circuit_blocked_on_p_chan := pb\<rparr>\<rparr>))"

section \<open>The invariant\<close>

definition datas :: "cell list \<Rightarrow> string list" where
  "datas cs = concat (map (\<lambda>c. case c of DATA t \<Rightarrow> [t] | SENDME _ \<Rightarrow> []) cs)"

definition sendmes :: "cell list \<Rightarrow> string list" where
  "sendmes cs = concat (map (\<lambda>c. case c of DATA _ \<Rightarrow> [] | SENDME p \<Rightarrow> [p]) cs)"

lemma datas_simps [simp]:
  "datas [] = []" "datas (DATA t # cs) = t # datas cs" "datas (SENDME p # cs) = datas cs"
  "datas (cs @ ds) = datas cs @ datas ds"
  by (simp_all add: datas_def)

lemma sendmes_simps [simp]:
  "sendmes [] = []" "sendmes (DATA t # cs) = sendmes cs" "sendmes (SENDME p # cs) = p # sendmes cs"
  "sendmes (cs @ ds) = sendmes cs @ sendmes ds"
  by (simp_all add: sendmes_def)

text \<open>Of the cells on the way, those that will fill up an increment at the receiver, which has seen
  \<open>r\<close> cells since the last one.\<close>

fun acknowledged :: "nat \<Rightarrow> nat \<Rightarrow> string list \<Rightarrow> string list" where
  "acknowledged inc r [] = []"
| "acknowledged inc r (t # ts) =
     (if r + 1 = inc then t # acknowledged inc 0 ts else acknowledged inc (r + 1) ts)"

lemma acknowledged_snoc:
  "r < inc \<Longrightarrow> acknowledged inc r (ts @ [t]) = acknowledged inc r ts @ (if (r + length ts + 1) mod inc = 0 then [t] else [])"
proof (induction ts arbitrary: r)
  case Nil
  then show ?case by (cases "r + 1 = inc") simp_all
next
  case (Cons u ts)
  show ?case
  proof (cases "r + 1 = inc")
    case True
    have "(r + length (u # ts) + 1) mod inc = (inc + (0 + length ts + 1)) mod inc" by (simp flip: True)
    also have "\<dots> = (0 + length ts + 1) mod inc" by (rule mod_add_self1)
    finally show ?thesis using Cons.IH [of 0] Cons.prems True by (simp only: append_Cons acknowledged.simps if_True simp_thms)
  next
    case False
    have "r + length (u # ts) + 1 = (r + 1) + length ts + 1" by simp
    moreover have "r + 1 < inc" using Cons.prems False by simp
    ultimately show ?thesis using Cons.IH [of "r + 1"] False by (simp only: append_Cons acknowledged.simps if_False)
  qed
qed

lemma acknowledged_set: "set (acknowledged inc r ts) \<subseteq> set ts"
  by (induction inc r ts rule: acknowledged.induct) auto

definition half :: "nat \<Rightarrow> nat \<Rightarrow> nat \<Rightarrow> string list \<Rightarrow> string list \<Rightarrow> int \<Rightarrow> string list \<Rightarrow> bool" where
  "half inc tlen un data sends window ds \<longleftrightarrow>
     (\<exists>r bs. window = CIRCWINDOW_START - int r \<and> r < inc \<and> un = inc * length bs + r + length data
        \<and> sends = map v1_payload bs \<and> ds = map pad (bs @ acknowledged inc r data)
        \<and> (\<forall>t \<in> set bs \<union> set data. length t = tlen))"

lemma half_package:
  assumes "half inc tlen un data sends window ds" "length t = tlen"
  shows "half inc tlen (un + 1) (data @ [t]) sends window (ds @ (if (un + 1) mod inc = 0 then [pad t] else []))"
proof -
  obtain r bs where h: "window = CIRCWINDOW_START - int r" "r < inc" "un = inc * length bs + r + length data"
    "sends = map v1_payload bs" "ds = map pad (bs @ acknowledged inc r data)" "\<forall>t \<in> set bs \<union> set data. length t = tlen"
    using assms(1) by (auto simp: half_def)
  have "(un + 1) mod inc = (r + length data + 1) mod inc"
    by (simp add: h(3) add.assoc)
  then show ?thesis using h assms(2) acknowledged_snoc [OF h(2), of data t]
    by (auto simp: half_def intro!: exI [of _ r] exI [of _ bs])
qed

lemma half_deliver:
  assumes "half inc tlen un (t # data) sends window ds"
  shows "CIRCWINDOW_START - int inc < window \<and> window \<le> CIRCWINDOW_START \<and> length t = tlen
    \<and> (if window - 1 \<le> CIRCWINDOW_START - int inc
       then window - 1 = CIRCWINDOW_START - int inc \<and> half inc tlen un data (sends @ [v1_payload t]) (window - 1 + int inc) ds
       else half inc tlen un data sends (window - 1) ds)"
proof -
  obtain r bs where h: "window = CIRCWINDOW_START - int r" "r < inc" "un = inc * length bs + r + length (t # data)"
    "sends = map v1_payload bs" "ds = map pad (bs @ acknowledged inc r (t # data))" "\<forall>t \<in> set bs \<union> set (t # data). length t = tlen"
    using assms(1) by (auto simp: half_def)
  show ?thesis
  proof (cases "r + 1 = inc")
    case True
    with h have "half inc tlen un data (sends @ [v1_payload t]) CIRCWINDOW_START ds"
      unfolding half_def by (intro exI [of _ 0] exI [of _ "bs @ [t]"]) auto
    with True h show ?thesis by auto
  next
    case False
    with h have "half inc tlen un data sends (window - 1) ds"
      unfolding half_def by (intro exI [of _ "r + 1"] exI [of _ bs]) auto
    with False h show ?thesis by auto
  qed
qed

lemma half_sendme:
  assumes "half inc tlen un data (p # sends) window ds"
  shows "\<exists>t ds'. p = v1_payload t \<and> length t = tlen \<and> ds = pad t # ds' \<and> inc \<le> un
    \<and> half inc tlen (un - inc) data sends window ds'"
proof -
  obtain r b bs where h: "window = CIRCWINDOW_START - int r" "r < inc" "un = inc * length (b # bs) + r + length data"
    "p = v1_payload b" "sends = map v1_payload bs" "ds = map pad ((b # bs) @ acknowledged inc r data)"
    "\<forall>t \<in> set (b # bs) \<union> set data. length t = tlen"
    using assms(1) by (auto simp: half_def)
  then have "half inc tlen (un - inc) data sends window (map pad (bs @ acknowledged inc r data))"
    unfolding half_def by (intro exI [of _ r] exI [of _ bs]) auto
  with h show ?thesis by (intro exI [of _ b]) auto
qed

section \<open>What one end does\<close>

context sendme_window
begin

lemma sent_cell:
  assumes "endpoint_ok circ lh" "ok g (flow_of circ lh)" "0 < congestion_control_get_package_window circ lh"
    and "tag_ok (length t)"
  shows "\<exists>circ'. package_data now circ lh t = Some (circ', 0) \<and> endpoint_ok circ' lh \<and> ok g (flow_of circ' lh)
    \<and> unacked (flow_of circ' lh) = unacked (flow_of circ lh) + 1
    \<and> circ_deliver_window circ' lh = circ_deliver_window circ lh
    \<and> relay_crypto_sendme_tag_len (crypto_of circ' lh) = relay_crypto_sendme_tag_len (crypto_of circ lh)
    \<and> digests circ' = digests circ @ (if (unacked (flow_of circ lh) + 1) mod inc = 0 then [pad t] else [])"
proof -
  let ?c = "set_tag circ lh t" and ?m = "(unacked (flow_of circ lh) + 1) mod inc = 0"
  have h: "hint_ok circ lh" using assms(1) by simp
  note c = set_tag_side [OF h, of t]
  have w: "0 < congestion_control_get_package_window ?c lh"
    using assms(3) package_window_flow(1) [of ?c lh circ lh] c(1) by simp
  have r: "circuit_sent_cell_for_sendme ?c lh = Some ?m"
    using recorded [of ?c lh g] assms(1,2) c w by simp
  define c1 where "c1 = (if ?m then ?c\<lparr>sendme_last_digests := Some (digests circ @ [pad t])\<rparr> else ?c)"
  have s: "sendme_record_cell_digest_on_circ ?c lh = Some c1"
    using r record_digest [OF assms(4), of ?c] by (simp add: sendme_record_cell_digest_on_circ_def c1_def digests_def
        sendme_tag_of_crypto c split: option.split)
  have c1: "flow_of c1 lh = flow_of circ lh" "circ_deliver_window c1 lh = circ_deliver_window circ lh"
    "crypto_of c1 lh = retag (crypto_of circ lh) t" "endpoint_ok c1 lh" "hint_ok c1 lh"
    "digests c1 = digests circ @ (if ?m then [pad t] else [])"
    using assms(1) by (simp_all add: c1_def side c digests_def)
  have w1: "0 < congestion_control_get_package_window c1 lh"
    using assms(3) package_window_flow(1) [of c1 lh circ lh] c1(1) by simp
  from packaged [OF c1(4) _ w1, of g now] assms(2) c1(1) obtain circ' w where
    p: "sendme_note_circuit_data_packaged now c1 lh = Some (circ', w)" "0 \<le> w" "same_side lh c1 circ'"
      "ok g (flow_of circ' lh)" "unacked (flow_of circ' lh) = unacked (flow_of circ lh) + 1" by auto
  from p(1,2) have "package_data now circ lh t = Some (circ', 0)" by (simp add: package_data_def s)
  with p(3-5) c1 show ?thesis by (auto simp: same_side_def digests_def)
qed

lemma received_cell:
  assumes "endpoint_ok circ lh" "ok g (flow_of circ lh)" "tag_ok (length t)" "length t' = length t"
    and w: "CIRCWINDOW_START - int inc < circ_deliver_window circ lh"
    and "get_emit_min_version latest = Some 1"
    and small: "circ_deliver_window circ lh - 1 \<le> CIRCWINDOW_START - int inc
      \<Longrightarrow> circ_deliver_window circ lh - 1 = CIRCWINDOW_START - int inc"
  shows "\<exists>circ'. deliver_data (send_sendme t') latest out circ lh t
      = Some (if circ_deliver_window circ lh - 1 \<le> CIRCWINDOW_START - int inc then out @ [SENDME (v1_payload t)] else out, circ', False, 0)
    \<and> endpoint_ok circ' lh \<and> flow_of circ' lh = flow_of circ lh \<and> digests circ' = digests circ
    \<and> relay_crypto_sendme_tag_len (crypto_of circ' lh) = relay_crypto_sendme_tag_len (crypto_of circ lh)
    \<and> circ_deliver_window circ' lh = circ_deliver_window circ lh - 1
        + (if circ_deliver_window circ lh - 1 \<le> CIRCWINDOW_START - int inc then int inc else 0)"
proof -
  let ?dw = "circ_deliver_window circ lh - 1"
  define c1 where "c1 = add_deliver_window (set_tag circ lh t) lh (- 1)"
  have h: "hint_ok circ lh" using assms(1) by simp
  note c = set_tag_side [OF h, of t]
  have c1: "hint_ok c1 lh" "flow_of c1 lh = flow_of circ lh" "circ_deliver_window c1 lh = ?dw"
    "crypto_of c1 lh = retag (crypto_of circ lh) t" "endpoint_ok c1 lh" "sendme_last_digests c1 = sendme_last_digests circ"
    using assms(1) by (simp_all add: c1_def side c)
  have i: "0 < inc" "inc \<le> 1000" "sendme_get_inc_count c1 lh = int inc"
    using increment [of g c1 lh] assms(2) c1(2) by simp_all
  have e: "endpoint_ok (set_tag circ lh t) lh" using assms(1) c by simp
  have r: "sendme_circuit_data_received (set_tag circ lh t) lh = Some (c1, ?dw)"
    using e c1(3) by (cases lh) (auto simp: sendme_circuit_data_received_def c1_def endpoint_ok_def circ_deliver_window_def)
  have nn: "\<not> ?dw < 0" using w i by simp
  have t1: "sendme_tag_of c1 lh = t" by (simp add: sendme_tag_of_crypto c1(4))
  show ?thesis
  proof (cases "?dw \<le> CIRCWINDOW_START - int inc")
    case False
    then have "consider_sending_loop (send_sendme t') latest out c1 lh (int inc) False False = Some (out, c1, False)"
      using c1(3) by (intro consider_none) simp
    with False c1 nn show ?thesis
      by (intro exI [of _ c1]) (simp add: deliver_data_def r sendme_circuit_consider_sending_def i(3) digests_def)
  next
    case True
    let ?c2 = "add_deliver_window c1 lh (int inc)"
    define c3 where "c3 = set_tag ?c2 lh t'"
    note c2 = add_deliver_window_side [OF c1(1), of "int inc"]
    note c3 = set_tag_side [OF c2(6), of t']
    have "consider_sending_loop (send_sendme t') latest out c1 lh (int inc) False False
        = Some (out @ [SENDME (v1_payload t)], c3, False)"
      using True small [OF True] c1 i assms(3,6) t1 c2 c3
      by (intro consider_one) (simp_all add: send_sendme_def c3_def)
    moreover have "endpoint_ok c3 lh" "flow_of c3 lh = flow_of circ lh" "sendme_last_digests c3 = sendme_last_digests circ"
      "relay_crypto_sendme_tag_len (crypto_of c3 lh) = relay_crypto_sendme_tag_len (crypto_of circ lh)"
      "circ_deliver_window c3 lh = ?dw + int inc"
      using c1 c2 c3 by (simp_all add: c3_def)
    ultimately show ?thesis using True nn
      by (intro exI [of _ c3]) (simp add: deliver_data_def r sendme_circuit_consider_sending_def i(3) digests_def)
  qed
qed

lemma received_sendme:
  assumes "endpoint_ok circ lh" "ok g (flow_of circ lh)" "tag_ok (length t)" "length t' = length t"
    and "relay_crypto_sendme_tag_len (crypto_of circ lh) = length t"
    and "digests circ = pad t # ds" "inc \<le> unacked (flow_of circ lh)" "clock_ok circ lh now"
    and a: "get_accept_min_version latest = Some a" "a \<le> 1"
  shows "\<exists>g' circ' evs. sendme_process_circuit_level g latest now (set_tag circ lh t') lh (v1_payload t) = Some (g', circ', evs, 0)
    \<and> endpoint_ok circ' lh \<and> ok g' (flow_of circ' lh) \<and> unacked (flow_of circ' lh) + inc = unacked (flow_of circ lh)
    \<and> circ_deliver_window circ' lh = circ_deliver_window circ lh \<and> digests circ' = ds
    \<and> relay_crypto_sendme_tag_len (crypto_of circ' lh) = relay_crypto_sendme_tag_len (crypto_of circ lh)"
proof -
  let ?c = "set_tag circ lh t'" and ?p = "v1_payload t"
  have h: "hint_ok circ lh" using assms(1) by simp
  note c = set_tag_side [OF h, of t']
  define c1 where "c1 = ?c\<lparr>sendme_last_digests := Some ds\<rparr>"
  have d: "digests ?c = pad t # ds" using assms(6) c by (simp add: digests_def)
  have v: "sendme_is_valid ?c lh (?p @ []) latest = Some (c1, t = t)"
    unfolding c1_def by (rule valid_v1 [OF _ assms(3) _ d refl a]) (use assms(1,5) c in simp_all)
  define c2 where "c2 = (if CIRCUIT_IS_ORIGIN c1 then circuit_read_valid_data c1 (length ?p) else c1)"
  have c2: "flow_of c2 lh = flow_of circ lh" "circ_deliver_window c2 lh = circ_deliver_window circ lh"
    "crypto_of c2 lh = retag (crypto_of circ lh) t'" "endpoint_ok c2 lh" "sendme_last_digests c2 = Some ds"
    "chan_state c2 = chan_state circ"
    using assms(1) by (simp_all add: c2_def c1_def side c)
  have k: "clock_ok c2 lh now" using assms(8) c2 by (simp add: clock_ok_def cc_of_def)
  from acked [OF c2(4) _ _ k, of g] assms(2,7) c2(1) obtain g' circ' evs where
    s: "sendme_accept g now c2 lh = Some (g', circ', evs, 0)" "same_side lh c2 circ'" "ok g' (flow_of circ' lh)"
      "unacked (flow_of circ' lh) + inc = unacked (flow_of circ lh)" by auto
  have "sendme_process_circuit_level g latest now ?c lh ?p = Some (g', circ', evs, 0)"
    using v s(1) by (simp add: sendme_process_circuit_level_def c2_def)
  with s c2 show ?thesis by (intro exI [of _ g'] exI [of _ circ'] exI [of _ evs]) (simp add: same_side_def digests_def)
qed

section \<open>The invariant of the link\<close>

definition link_inv :: "(side \<Rightarrow> nat option) \<Rightarrow> nat \<Rightarrow> (side \<Rightarrow> endpoint) \<Rightarrow> bool" where
  "link_inv lh tlen n \<longleftrightarrow>
     (\<forall>x. endpoint_ok (ep_circ (n x)) (lh x) \<and> ok (ep_glob (n x)) (flow_of (ep_circ (n x)) (lh x))
        \<and> relay_crypto_sendme_tag_len (crypto_of (ep_circ (n x)) (lh x)) = tlen
        \<and> half inc tlen (unacked (flow_of (ep_circ (n x)) (lh x))) (datas (ep_out (n x))) (sendmes (ep_out (n (other x))))
             (circ_deliver_window (ep_circ (n (other x))) (lh (other x))) (digests (ep_circ (n x))))"

lemma link_invD:
  assumes "link_inv lh tlen n"
  shows "endpoint_ok (ep_circ (n x)) (lh x)" "ok (ep_glob (n x)) (flow_of (ep_circ (n x)) (lh x))"
    "relay_crypto_sendme_tag_len (crypto_of (ep_circ (n x)) (lh x)) = tlen"
    "half inc tlen (unacked (flow_of (ep_circ (n x)) (lh x))) (datas (ep_out (n x))) (sendmes (ep_out (n (other x))))
             (circ_deliver_window (ep_circ (n (other x))) (lh (other x))) (digests (ep_circ (n x)))"
  using assms unfolding link_inv_def by blast+

end

lemma other_other [simp]: "other (other x) = x" "other x \<noteq> x" "x \<noteq> other x"
  by (cases x; simp)+

lemma side_cases: "y = x \<or> y = other x"
  by (cases x; cases y) simp_all

lemma all_sides: "(\<forall>y. P y) \<longleftrightarrow> P x \<and> P (other x)"
  using side_cases by metis

context sendme_window
begin

lemma package_inv:
  assumes i: "link_inv lh tlen n" and w: "0 < congestion_control_get_package_window (ep_circ (n x)) (lh x)"
    and t: "tag_ok tlen" "length t = tlen"
  shows "\<exists>circ. package_data now (ep_circ (n x)) (lh x) t = Some (circ, 0)
    \<and> link_inv lh tlen (n(x := (n x)\<lparr>ep_circ := circ, ep_out := ep_out (n x) @ [DATA t]\<rparr>))"
proof -
  note d = link_invD [OF i, of x] and e = link_invD [OF i, of "other x"]
  from sent_cell [OF d(1,2) w, of t now] t obtain circ where
    c: "package_data now (ep_circ (n x)) (lh x) t = Some (circ, 0)" "endpoint_ok circ (lh x)" "ok (ep_glob (n x)) (flow_of circ (lh x))"
      "unacked (flow_of circ (lh x)) = unacked (flow_of (ep_circ (n x)) (lh x)) + 1"
      "circ_deliver_window circ (lh x) = circ_deliver_window (ep_circ (n x)) (lh x)"
      "relay_crypto_sendme_tag_len (crypto_of circ (lh x)) = tlen"
      "digests circ = digests (ep_circ (n x)) @ (if (unacked (flow_of (ep_circ (n x)) (lh x)) + 1) mod inc = 0 then [pad t] else [])"
    using d(3) by auto
  have "link_inv lh tlen (n(x := (n x)\<lparr>ep_circ := circ, ep_out := ep_out (n x) @ [DATA t]\<rparr>))"
    unfolding link_inv_def all_sides [of _ x] using half_package [OF d(4) t(2)] e c by simp
  with c(1) show ?thesis by blast
qed

lemma deliver_inv:
  assumes i: "link_inv lh tlen n" and o: "ep_out (n (other x)) = DATA t # cs"
    and t: "tag_ok tlen" "length t' = tlen" and a: "get_emit_min_version latest = Some 1"
  shows "\<exists>out circ. deliver_data (send_sendme t') latest (ep_out (n x)) (ep_circ (n x)) (lh x) t = Some (out, circ, False, 0)
    \<and> link_inv lh tlen (n(other x := (n (other x))\<lparr>ep_out := cs\<rparr>, x := (n x)\<lparr>ep_circ := circ, ep_out := out\<rparr>))
    \<and> datas out = datas (ep_out (n x))"
proof -
  note d = link_invD [OF i, of x] and e = link_invD [OF i, of "other x"]
  let ?w = "circ_deliver_window (ep_circ (n x)) (lh x)" and ?s = "CIRCWINDOW_START - int inc"
  have "half inc tlen (unacked (flow_of (ep_circ (n (other x))) (lh (other x)))) (t # datas cs) (sendmes (ep_out (n x)))
      ?w (digests (ep_circ (n (other x))))" using e(4) o by simp
  note f = half_deliver [OF this]
  define out where "out = (if ?w - 1 \<le> ?s then ep_out (n x) @ [SENDME (v1_payload t)] else ep_out (n x))"
  have "\<exists>circ. deliver_data (send_sendme t') latest (ep_out (n x)) (ep_circ (n x)) (lh x) t = Some (out, circ, False, 0)
    \<and> endpoint_ok circ (lh x) \<and> flow_of circ (lh x) = flow_of (ep_circ (n x)) (lh x) \<and> digests circ = digests (ep_circ (n x))
    \<and> relay_crypto_sendme_tag_len (crypto_of circ (lh x)) = relay_crypto_sendme_tag_len (crypto_of (ep_circ (n x)) (lh x))
    \<and> circ_deliver_window circ (lh x) = ?w - 1 + (if ?w - 1 \<le> ?s then int inc else 0)"
    unfolding out_def by (rule received_cell [OF d(1,2)]) (use f t a in \<open>auto split: if_splits\<close>)
  then obtain circ where c: "deliver_data (send_sendme t') latest (ep_out (n x)) (ep_circ (n x)) (lh x) t = Some (out, circ, False, 0)"
      "endpoint_ok circ (lh x)" "flow_of circ (lh x) = flow_of (ep_circ (n x)) (lh x)" "digests circ = digests (ep_circ (n x))"
      "relay_crypto_sendme_tag_len (crypto_of circ (lh x)) = relay_crypto_sendme_tag_len (crypto_of (ep_circ (n x)) (lh x))"
      "circ_deliver_window circ (lh x) = ?w - 1 + (if ?w - 1 \<le> ?s then int inc else 0)" by blast
  have p: "datas out = datas (ep_out (n x))"
    "sendmes out = (if ?w - 1 \<le> ?s then sendmes (ep_out (n x)) @ [v1_payload t] else sendmes (ep_out (n x)))"
    by (simp_all add: out_def)
  have g: "half inc tlen (unacked (flow_of (ep_circ (n (other x))) (lh (other x)))) (datas cs) (sendmes out)
      (circ_deliver_window circ (lh x)) (digests (ep_circ (n (other x))))"
    using f unfolding p c(6) by (cases "?w - 1 \<le> ?s") auto
  have "link_inv lh tlen (n(other x := (n (other x))\<lparr>ep_out := cs\<rparr>, x := (n x)\<lparr>ep_circ := circ, ep_out := out\<rparr>))"
    unfolding link_inv_def all_sides [of _ x] using d e(1-3) g c(2-5) p(1) o by simp
  with c(1) p(1) show ?thesis by auto
qed

lemma sendme_inv:
  assumes i: "link_inv lh tlen n" and o: "ep_out (n (other x)) = SENDME p # cs"
    and t: "tag_ok tlen" "length t = tlen" and k: "clock_ok (ep_circ (n x)) (lh x) now"
    and a: "get_accept_min_version latest = Some a" "a \<le> 1"
  shows "\<exists>g circ evs. sendme_process_circuit_level (ep_glob (n x)) latest now (set_tag (ep_circ (n x)) (lh x) t) (lh x) p
        = Some (g, circ, evs, 0)
    \<and> link_inv lh tlen (n(other x := (n (other x))\<lparr>ep_out := cs\<rparr>, x := (n x)\<lparr>ep_glob := g, ep_circ := circ\<rparr>))
    \<and> unacked (flow_of circ (lh x)) + inc = unacked (flow_of (ep_circ (n x)) (lh x))"
proof -
  note d = link_invD [OF i, of x] and e = link_invD [OF i, of "other x"]
  have "half inc tlen (unacked (flow_of (ep_circ (n x)) (lh x))) (datas (ep_out (n x))) (p # sendmes cs)
      (circ_deliver_window (ep_circ (n (other x))) (lh (other x))) (digests (ep_circ (n x)))"
    using d(4) o by simp
  from half_sendme [OF this] obtain b ds where
    f: "p = v1_payload b" "length b = tlen" "digests (ep_circ (n x)) = pad b # ds" "inc \<le> unacked (flow_of (ep_circ (n x)) (lh x))"
      "half inc tlen (unacked (flow_of (ep_circ (n x)) (lh x)) - inc) (datas (ep_out (n x))) (sendmes cs)
      (circ_deliver_window (ep_circ (n (other x))) (lh (other x))) ds" by blast
  from received_sendme [OF d(1,2) _ _ _ f(3,4) k a, of t] t f(2) d(3) obtain g circ evs where
    c: "sendme_process_circuit_level (ep_glob (n x)) latest now (set_tag (ep_circ (n x)) (lh x) t) (lh x) (v1_payload b) = Some (g, circ, evs, 0)"
      "endpoint_ok circ (lh x)" "ok g (flow_of circ (lh x))"
      "unacked (flow_of circ (lh x)) + inc = unacked (flow_of (ep_circ (n x)) (lh x))"
      "circ_deliver_window circ (lh x) = circ_deliver_window (ep_circ (n x)) (lh x)" "digests circ = ds"
      "relay_crypto_sendme_tag_len (crypto_of circ (lh x)) = tlen" by auto
  have u: "unacked (flow_of circ (lh x)) = unacked (flow_of (ep_circ (n x)) (lh x)) - inc" using c(4) by simp
  have "link_inv lh tlen (n(other x := (n (other x))\<lparr>ep_out := cs\<rparr>, x := (n x)\<lparr>ep_glob := g, ep_circ := circ\<rparr>))"
    unfolding link_inv_def all_sides [of _ x] using f(5) e o c(2,3,5-7) u by simp
  with c(1,4) f(1) show ?thesis by blast
qed

lemma channel_inv:
  assumes i: "link_inv lh tlen n"
  shows "link_inv lh tlen (n(x := (n x)\<lparr>ep_circ := (ep_circ (n x))
     \<lparr>n_chan_cells_n := k, p_chan_cells_n := l, circuit_blocked_on_n_chan := nb, circuit_blocked_on_p_chan := pb\<rparr>\<rparr>))"
  unfolding link_inv_def all_sides [of _ x]
  using link_invD [OF i, of x] link_invD [OF i, of "other x"] by (simp add: side digests_def)

lemma link_step_inv:
  assumes "link_step lh tlen latest n n'" "link_inv lh tlen n" "tag_ok tlen"
    and "get_emit_min_version latest = Some 1" "get_accept_min_version latest = Some a" "a \<le> 1"
  shows "link_inv lh tlen n'"
  using assms(1,2)
proof (induction rule: link_step.induct)
  case (Package n x t now circ)
  then show ?case using package_inv [OF Package.prems Package.hyps(1) assms(3) Package.hyps(2), of now] by (auto simp del: fun_upd_apply)
next
  case (Deliver n x t cs t' out circ)
  then show ?case using deliver_inv [OF Deliver.prems Deliver.hyps(1) assms(3) Deliver.hyps(2) assms(4)] by (auto simp del: fun_upd_apply)
next
  case (Sendme n x p cs t now g circ evs)
  then show ?case using sendme_inv [OF Sendme.prems Sendme.hyps(1) assms(3) Sendme.hyps(2,3) assms(5,6)] by (auto simp del: fun_upd_apply)
next
  case (Channel n x k l nb pb)
  then show ?case by (rule channel_inv)
qed

lemma link_steps_inv:
  assumes "(link_step lh tlen latest)\<^sup>*\<^sup>* n n'" "link_inv lh tlen n" "tag_ok tlen"
    and "get_emit_min_version latest = Some 1" "get_accept_min_version latest = Some a" "a \<le> 1"
  shows "link_inv lh tlen n'"
  using assms(1) by (induction rule: rtranclp_induct) (use link_step_inv assms in blast)+

end

section \<open>Draining\<close>

lemma exists_clock: "\<exists>now. clock_ok circ lh now"
proof (cases "cc_of circ lh")
  case None
  then show ?thesis by (simp add: clock_ok_def)
next
  case (Some cc)
  show ?thesis
  proof (cases "sendme_pending_timestamps cc")
    case Nil
    with Some show ?thesis by (simp add: clock_ok_def)
  next
    case (Cons t ts)
    have "unat ((t + 1) - t) \<le> RTT_LIMIT" "t + 1 \<noteq> t" by simp_all
    with Some Cons show ?thesis by (intro exI [of _ "t + 1"]) (simp add: clock_ok_def)
  qed
qed

lemma exists_tag: "\<exists>t :: string. length t = tlen"
  by (rule Ex_list_of_length)

context sendme_window
begin

text \<open>The other end can process whatever is on its way to it.\<close>

lemma drain_one:
  assumes i: "link_inv lh tlen n" and t: "tag_ok tlen"
    and a: "get_emit_min_version latest = Some 1" "get_accept_min_version latest = Some a" "a \<le> 1"
    and o: "ep_out (n (other x)) = c # cs"
  shows "\<exists>n'. link_step lh tlen latest n n' \<and> link_inv lh tlen n' \<and> ep_out (n' (other x)) = cs
    \<and> datas (ep_out (n' x)) = datas (ep_out (n x))"
proof -
  obtain t' :: string where t': "length t' = tlen" using exists_tag by blast
  show ?thesis
  proof (cases c)
    case (DATA d)
    with o have o': "ep_out (n (other x)) = DATA d # cs" by simp
    from deliver_inv [OF i o' t t' a(1)] obtain out circ where
      c: "deliver_data (send_sendme t') latest (ep_out (n x)) (ep_circ (n x)) (lh x) d = Some (out, circ, False, 0)"
      "link_inv lh tlen (n(other x := (n (other x))\<lparr>ep_out := cs\<rparr>, x := (n x)\<lparr>ep_circ := circ, ep_out := out\<rparr>))"
      "datas out = datas (ep_out (n x))" by blast
    from link_step.Deliver [where lh = lh and tlen = tlen, OF o' t' c(1)] c(2,3) show ?thesis
      by (intro exI [of _ "n(other x := (n (other x))\<lparr>ep_out := cs\<rparr>, x := (n x)\<lparr>ep_circ := circ, ep_out := out\<rparr>)"]) simp
  next
    case (SENDME p)
    with o have o': "ep_out (n (other x)) = SENDME p # cs" by simp
    obtain now where k: "clock_ok (ep_circ (n x)) (lh x) now" using exists_clock by blast
    from sendme_inv [OF i o' t t' k a(2,3)] obtain g circ evs where
      c: "sendme_process_circuit_level (ep_glob (n x)) latest now (set_tag (ep_circ (n x)) (lh x) t') (lh x) p = Some (g, circ, evs, 0)"
      "link_inv lh tlen (n(other x := (n (other x))\<lparr>ep_out := cs\<rparr>, x := (n x)\<lparr>ep_glob := g, ep_circ := circ\<rparr>))" by blast
    from link_step.Sendme [where lh = lh and tlen = tlen, OF o' t' k c(1)] c(2) show ?thesis
      by (intro exI [of _ "n(other x := (n (other x))\<lparr>ep_out := cs\<rparr>, x := (n x)\<lparr>ep_glob := g, ep_circ := circ\<rparr>)"]) simp
  qed
qed

lemma drain:
  assumes t: "tag_ok tlen"
    and a: "get_emit_min_version latest = Some 1" "get_accept_min_version latest = Some a" "a \<le> 1"
  shows "link_inv lh tlen n \<Longrightarrow> \<exists>n'. (link_step lh tlen latest)\<^sup>*\<^sup>* n n' \<and> link_inv lh tlen n' \<and> ep_out (n' (other x)) = []
    \<and> datas (ep_out (n' x)) = datas (ep_out (n x))"
proof (induction "ep_out (n (other x))" arbitrary: n)
  case Nil
  then show ?case by (metis rtranclp.rtrancl_refl)
next
  case (Cons c cs)
  from drain_one [OF Cons.prems t a Cons.hyps(2) [symmetric]] obtain n1 where
    n1: "link_step lh tlen latest n n1" "link_inv lh tlen n1" "cs = ep_out (n1 (other x))" "datas (ep_out (n1 x)) = datas (ep_out (n x))"
    by blast
  from Cons.hyps(1) [OF n1(3,2)] n1(1,4) show ?case by (metis converse_rtranclp_into_rtranclp)
qed

end

context sendme_window_opens
begin

lemma opens_again:
  assumes i: "link_inv lh tlen n" and t: "tag_ok tlen"
    and a: "get_emit_min_version latest = Some 1" "get_accept_min_version latest = Some a" "a \<le> 1"
  shows "\<exists>n'. (link_step lh tlen latest)\<^sup>*\<^sup>* n n' \<and> 0 < congestion_control_get_package_window (ep_circ (n' x)) (lh x)"
proof -
  from drain [OF t a i, of "other x"] obtain n1 where
    n1: "(link_step lh tlen latest)\<^sup>*\<^sup>* n n1" "link_inv lh tlen n1" "ep_out (n1 x) = []" by auto
  from drain [OF t a n1(2), of x] n1(3) obtain n2 where
    n2: "(link_step lh tlen latest)\<^sup>*\<^sup>* n1 n2" "link_inv lh tlen n2" "ep_out (n2 (other x)) = []" "datas (ep_out (n2 x)) = []" by auto
  note d = link_invD [OF n2(2), of x]
  have "unacked (flow_of (ep_circ (n2 x)) (lh x)) < inc" using d(4) n2(3,4) by (auto simp: half_def)
  with closed [OF d(2)] have "0 < congestion_control_get_package_window (ep_circ (n2 x)) (lh x)" by fastforce
  with n1(1) n2(1) show ?thesis by (meson rtranclp_trans)
qed

end

section \<open>Properties\<close>

text \<open>A new circuit: nothing is on the way, and the deliver windows and the queues of tags are those
  that \<open>circuit_t\<close> starts with.\<close>

definition new_link :: "(side \<Rightarrow> nat option) \<Rightarrow> nat \<Rightarrow> (side \<Rightarrow> endpoint) \<Rightarrow> bool" where
  "new_link lh tlen n \<longleftrightarrow>
     tag_ok tlen \<and> (\<forall>x. endpoint_ok (ep_circ (n x)) (lh x) \<and> relay_crypto_sendme_tag_len (crypto_of (ep_circ (n x)) (lh x)) = tlen
        \<and> circ_deliver_window (ep_circ (n x)) (lh x) = CIRCWINDOW_START \<and> digests (ep_circ (n x)) = [] \<and> ep_out (n x) = [])"

definition versions_ok :: "networkstatus option \<Rightarrow> bool" where
  "versions_ok latest \<longleftrightarrow>
     get_emit_min_version latest = Some 1
     \<and> (get_accept_min_version latest = Some 0 \<or> get_accept_min_version latest = Some 1)"

lemma versions_okD:
  assumes "versions_ok latest"
  obtains a where "get_emit_min_version latest = Some 1" "get_accept_min_version latest = Some a" "a \<le> 1"
  using assms by (auto simp: versions_ok_def)

lemma cc_start:
  assumes "\<exists>cc. cc_of circ lh = Some cc \<and> cc_inv g cc \<and> inflight cc = 0 \<and> unat (sendme_inc cc) = inc \<and> inc \<le> unat (cwnd_min cc)"
  shows "cc_ok inc g (flow_of circ lh) \<and> cc_unacked (flow_of circ lh) = 0"
  using assms by (elim exE) (simp add: cc_ok_def cc_unacked_def cc_of_def)

text \<open>What an end that has something to do may count on.\<close>

definition end_proceeds :: "(side \<Rightarrow> nat option) \<Rightarrow> nat \<Rightarrow> networkstatus option \<Rightarrow> (side \<Rightarrow> endpoint) \<Rightarrow> side \<Rightarrow> bool" where
  "end_proceeds lh tlen latest n x \<longleftrightarrow>
     (\<forall>t now. length t = tlen \<and> 0 < congestion_control_get_package_window (ep_circ (n x)) (lh x) \<longrightarrow>
        (\<exists>circ. package_data now (ep_circ (n x)) (lh x) t = Some (circ, 0)))
   \<and> (\<forall>t t' cs. ep_out (n (other x)) = DATA t # cs \<and> length t' = tlen \<longrightarrow>
        (\<exists>out circ. deliver_data (send_sendme t') latest (ep_out (n x)) (ep_circ (n x)) (lh x) t = Some (out, circ, False, 0)))
   \<and> (\<forall>p cs t now. ep_out (n (other x)) = SENDME p # cs \<and> length t = tlen \<and> clock_ok (ep_circ (n x)) (lh x) now \<longrightarrow>
        (\<exists>g circ evs. sendme_process_circuit_level (ep_glob (n x)) latest now (set_tag (ep_circ (n x)) (lh x) t) (lh x) p
           = Some (g, circ, evs, 0)))"

context sendme_window
begin

lemma new_link_inv:
  assumes "new_link lh tlen n" "\<forall>x. ok (ep_glob (n x)) (flow_of (ep_circ (n x)) (lh x)) \<and> unacked (flow_of (ep_circ (n x)) (lh x)) = 0"
  shows "link_inv lh tlen n"
proof -
  have "0 < inc" using increment assms(2) by blast
  then show ?thesis using assms by (auto simp: new_link_def link_inv_def half_def)
qed

lemma proceeds:
  assumes "link_inv lh tlen n" "tag_ok tlen" "versions_ok latest"
  shows "end_proceeds lh tlen latest n x"
proof -
  from assms(3) obtain a where a: "get_emit_min_version latest = Some 1" "get_accept_min_version latest = Some a" "a \<le> 1"
    by (rule versions_okD)
  show ?thesis unfolding end_proceeds_def
    using package_inv [OF assms(1) _ assms(2)] deliver_inv [OF assms(1) _ assms(2) _ a(1)] sendme_inv [OF assms(1) _ assms(2) _ _ a(2,3)]
    by blast
qed

lemma reachable_inv:
  assumes "(link_step lh tlen latest)\<^sup>*\<^sup>* n0 n" "new_link lh tlen n0" "versions_ok latest"
    and "\<forall>x. ok (ep_glob (n0 x)) (flow_of (ep_circ (n0 x)) (lh x)) \<and> unacked (flow_of (ep_circ (n0 x)) (lh x)) = 0"
  shows "link_inv lh tlen n" "end_proceeds lh tlen latest n x"
proof -
  from assms(3) obtain a where a: "get_emit_min_version latest = Some 1" "get_accept_min_version latest = Some a" "a \<le> 1"
    by (rule versions_okD)
  have t: "tag_ok tlen" using assms(2) by (simp add: new_link_def)
  show i: "link_inv lh tlen n" by (rule link_steps_inv [OF assms(1) new_link_inv [OF assms(2,4)] t a])
  show "end_proceeds lh tlen latest n x" by (rule proceeds [OF i t assms(3)])
qed

lemma conservation:
  assumes "link_inv lh tlen n"
  shows "int (unacked (flow_of (ep_circ (n x)) (lh x)))
    = int (length (datas (ep_out (n x)))) + (CIRCWINDOW_START - circ_deliver_window (ep_circ (n (other x))) (lh (other x)))
      + int inc * int (length (sendmes (ep_out (n (other x)))))
    \<and> CIRCWINDOW_START - int inc < circ_deliver_window (ep_circ (n (other x))) (lh (other x))
    \<and> circ_deliver_window (ep_circ (n (other x))) (lh (other x)) \<le> CIRCWINDOW_START"
  using link_invD(4) [OF assms, of x] by (auto simp: half_def)

end

text \<open>C3: Two honest ends of a circuit with fixed windows never break the protocol. In every state that
  a new circuit reaches by packaging, delivering and acknowledging cells in any order, the package
  window stays within 0 and 1000 and accounts exactly for the cells that are on the way, delivered
  and not yet acknowledged, or acknowledged by a SENDME on the way; the deliver window stays above
  900; and an end can send when its window is open, accepts the data cell or the SENDME that arrives
  next, and never sends two SENDMEs at once.\<close>

theorem fixed_windows_agree:
  assumes "(link_step lh tlen latest)\<^sup>*\<^sup>* n0 n" "new_link lh tlen n0" "versions_ok latest"
    and "\<forall>x. flow_of (ep_circ (n0 x)) (lh x) = (CIRCWINDOW_START, None)"
  shows "0 \<le> fst (flow_of (ep_circ (n x)) (lh x)) \<and> fst (flow_of (ep_circ (n x)) (lh x)) \<le> CIRCWINDOW_START
    \<and> CIRCWINDOW_START - fst (flow_of (ep_circ (n x)) (lh x)) =
        int (length (datas (ep_out (n x)))) + (CIRCWINDOW_START - circ_deliver_window (ep_circ (n (other x))) (lh (other x)))
        + 100 * int (length (sendmes (ep_out (n (other x)))))
    \<and> circ_deliver_window (ep_circ (n (other x))) (lh (other x)) \<in> {901..1000}
    \<and> end_proceeds lh tlen latest n x"
proof -
  have s: "\<forall>x. fixed_ok (ep_glob (n0 x)) (flow_of (ep_circ (n0 x)) (lh x)) \<and> fixed_unacked (flow_of (ep_circ (n0 x)) (lh x)) = 0"
    using assms(4) by (simp add: fixed_ok_def fixed_unacked_def)
  note i = fixed.reachable_inv [OF assms(1-3) s]
  have "fixed_ok (ep_glob (n x)) (flow_of (ep_circ (n x)) (lh x))" using fixed.link_invD(2) [OF i(1)] .
  then show ?thesis using fixed.conservation [OF i(1), of x] i(2) [of x] by (auto simp: fixed_ok_def fixed_unacked_def)
qed

text \<open>C4: The same for two ends under congestion control with the same increment: the number of cells
  in flight at an end is exactly that of the cells on the way, delivered and not yet acknowledged,
  or acknowledged by a SENDME on the way, and every SENDME that arrives in time is accepted.\<close>

theorem congestion_control_agrees:
  assumes "(link_step lh tlen latest)\<^sup>*\<^sup>* n0 n" "new_link lh tlen n0" "versions_ok latest"
    and "\<forall>x. \<exists>cc. cc_of (ep_circ (n0 x)) (lh x) = Some cc \<and> cc_inv (ep_glob (n0 x)) cc \<and> inflight cc = 0
           \<and> unat (sendme_inc cc) = inc \<and> inc \<le> unat (cwnd_min cc)"
  shows "\<exists>cc. cc_of (ep_circ (n x)) (lh x) = Some cc
    \<and> int (unat (inflight cc)) =
        int (length (datas (ep_out (n x)))) + (CIRCWINDOW_START - circ_deliver_window (ep_circ (n (other x))) (lh (other x)))
        + int inc * int (length (sendmes (ep_out (n (other x)))))
    \<and> CIRCWINDOW_START - int inc < circ_deliver_window (ep_circ (n (other x))) (lh (other x))
    \<and> end_proceeds lh tlen latest n x"
proof -
  have s: "\<forall>x. cc_ok inc (ep_glob (n0 x)) (flow_of (ep_circ (n0 x)) (lh x)) \<and> cc_unacked (flow_of (ep_circ (n0 x)) (lh x)) = 0"
    using assms(4) cc_start by blast
  note i = cc.reachable_inv [OF assms(1-3) s]
  from cc.link_invD(2) [OF i(1)] obtain cc where "cc_of (ep_circ (n x)) (lh x) = Some cc"
      "cc_unacked (flow_of (ep_circ (n x)) (lh x)) = unat (inflight cc)" by (rule cc_okE)
  then show ?thesis using cc.conservation [OF i(1), of x] i(2) [of x] by simp
qed

text \<open>C9: A window never stays closed: from every state that a circuit with fixed windows, or with
  congestion control whose increment is at most the minimum window, reaches, delivering what is on
  the way opens the window of either end.\<close>

theorem windows_reopen:
  assumes "(link_step lh tlen latest)\<^sup>*\<^sup>* n0 n" "new_link lh tlen n0" "versions_ok latest"
    and "(\<forall>x. flow_of (ep_circ (n0 x)) (lh x) = (CIRCWINDOW_START, None))
       \<or> (\<forall>x. \<exists>cc. cc_of (ep_circ (n0 x)) (lh x) = Some cc \<and> cc_inv (ep_glob (n0 x)) cc \<and> inflight cc = 0
           \<and> unat (sendme_inc cc) = inc \<and> inc \<le> unat (cwnd_min cc))"
  shows "\<exists>n'. (link_step lh tlen latest)\<^sup>*\<^sup>* n n' \<and> 0 < congestion_control_get_package_window (ep_circ (n' x)) (lh x)"
proof -
  from assms(3) obtain a where a: "get_emit_min_version latest = Some 1" "get_accept_min_version latest = Some a" "a \<le> 1"
    by (rule versions_okD)
  have t: "tag_ok tlen" using assms(2) by (simp add: new_link_def)
  show ?thesis using assms(4)
  proof
    assume "\<forall>x. flow_of (ep_circ (n0 x)) (lh x) = (CIRCWINDOW_START, None)"
    then have s: "\<forall>x. fixed_ok (ep_glob (n0 x)) (flow_of (ep_circ (n0 x)) (lh x)) \<and> fixed_unacked (flow_of (ep_circ (n0 x)) (lh x)) = 0"
      by (simp add: fixed_ok_def fixed_unacked_def)
    show ?thesis by (rule fixed.opens_again [OF fixed.reachable_inv(1) [OF assms(1-3) s] t a])
  next
    assume "\<forall>x. \<exists>cc. cc_of (ep_circ (n0 x)) (lh x) = Some cc \<and> cc_inv (ep_glob (n0 x)) cc \<and> inflight cc = 0
           \<and> unat (sendme_inc cc) = inc \<and> inc \<le> unat (cwnd_min cc)"
    then have s: "\<forall>x. cc_ok inc (ep_glob (n0 x)) (flow_of (ep_circ (n0 x)) (lh x)) \<and> cc_unacked (flow_of (ep_circ (n0 x)) (lh x)) = 0"
      using cc_start by blast
    show ?thesis by (rule cc.opens_again [OF cc.reachable_inv(1) [OF assms(1-3) s] t a])
  qed
qed

section \<open>A client and an exit\<close>

definition demo_hint :: "side \<Rightarrow> nat option" where
  "demo_hint x = (case x of Client \<Rightarrow> Some 0 | Server \<Rightarrow> None)"

definition demo_link :: "congestion_control option \<Rightarrow> side \<Rightarrow> endpoint" where
  "demo_link c x =
     (case x of
        Client \<Rightarrow> \<lparr>ep_glob = cc_globals_init, ep_circ = exit_circuit\<lparr>magic := ORIGIN_CIRCUIT_MAGIC, purpose := 5,
          cpath := [\<lparr>cp_package_window = 1000, cp_deliver_window = 1000, cp_ccontrol = c, cp_crypto = RCK_TOR1 (replicate 20 CHR 0x00)\<rparr>]\<rparr>,
          ep_out = []\<rparr>
      | Server \<Rightarrow> \<lparr>ep_glob = cc_globals_init, ep_circ = exit_circuit\<lparr>ccontrol := c\<rparr>, ep_out = []\<rparr>)"

lemma demo_new: "new_link demo_hint 20 (demo_link c)"
  by (auto simp: new_link_def demo_hint_def demo_link_def tag_ok_def side_defs exit_circuit_def digests_def
      relay_crypto_sendme_tag_len_def CIRCUIT_PURPOSE_OR_MAX_def split: side.split)

lemma demo_versions: "versions_ok None"
  by (simp add: versions_ok_def get_emit_min_version_def get_accept_min_version_def networkstatus_get_param_def)

lemma demo_fixed: "\<forall>x. flow_of (ep_circ (demo_link None x)) (demo_hint x) = (CIRCWINDOW_START, None)"
  by (simp add: demo_link_def demo_hint_def flow_of_def exit_circuit_def split: side.split)

lemma demo_cc: "\<forall>x. \<exists>cc. cc_of (ep_circ (demo_link (Some exit_cc) x)) (demo_hint x) = Some cc
    \<and> cc_inv (ep_glob (demo_link (Some exit_cc) x)) cc \<and> inflight cc = 0 \<and> unat (sendme_inc cc) = 31 \<and> 31 \<le> unat (cwnd_min cc)"
  using exit_flow_inv
  by (auto simp: demo_link_def demo_hint_def flow_inv_pair cc_of_def flow_of_def exit_circuit_def exit_cc_def cc_zero_def split: side.split)

text \<open>The client sends one cell.\<close>

lemma demo_step:
  assumes "\<forall>x. flow_of (ep_circ (demo_link c x)) (demo_hint x) = (CIRCWINDOW_START, None)"
  shows "\<exists>n. link_step demo_hint 20 None (demo_link c) n \<and> ep_out (n Client) = [DATA (replicate 20 CHR 0x42)]"
proof -
  have s: "\<forall>x. fixed_ok (ep_glob (demo_link c x)) (flow_of (ep_circ (demo_link c x)) (demo_hint x))
      \<and> fixed_unacked (flow_of (ep_circ (demo_link c x)) (demo_hint x)) = 0"
    using assms by (simp add: fixed_ok_def fixed_unacked_def)
  have w: "0 < congestion_control_get_package_window (ep_circ (demo_link c Client)) (demo_hint Client)"
    using assms by (simp add: congestion_control_get_package_window_def)
  have t: "length (replicate 20 (CHR 0x42)) = 20" "tag_ok 20" by (simp_all add: tag_ok_def)
  from fixed.package_inv [OF fixed.new_link_inv [OF demo_new s] w t(2,1), of 0] obtain circ where
    p: "package_data 0 (ep_circ (demo_link c Client)) (demo_hint Client) (replicate 20 (CHR 0x42)) = Some (circ, 0)" by blast
  from link_step.Package [where n = "demo_link c" and lh = demo_hint and x = Client, OF w t(1) p, of None] show ?thesis
    by (intro exI [of _ "(demo_link c)(Client := (demo_link c Client)\<lparr>ep_circ := circ,
        ep_out := ep_out (demo_link c Client) @ [DATA (replicate 20 CHR 0x42)]\<rparr>)"]) (simp add: demo_link_def)
qed

lemma fixed_windows_agree_witness:
  "\<exists>n. link_step demo_hint 20 None (demo_link None) n \<and> ep_out (n Client) = [DATA (replicate 20 CHR 0x42)]
     \<and> end_proceeds demo_hint 20 None n Server"
  using demo_step [OF demo_fixed] fixed_windows_agree [OF r_into_rtranclp demo_new demo_versions demo_fixed] by blast

lemma congestion_control_agrees_witness:
  "end_proceeds demo_hint 20 None (demo_link (Some exit_cc)) Client"
  using congestion_control_agrees [OF rtranclp.rtrancl_refl demo_new demo_versions demo_cc] by blast

lemma windows_reopen_witness:
  "\<exists>n'. (link_step demo_hint 20 None)\<^sup>*\<^sup>* (demo_link (Some exit_cc)) n'
     \<and> 0 < congestion_control_get_package_window (ep_circ (n' Server)) (demo_hint Server)"
  using windows_reopen [OF rtranclp.rtrancl_refl demo_new demo_versions disjI2, OF demo_cc] by blast

end
