(* ===== verification/Conflux.thy ===== *)
theory Conflux
  imports Sendme Pqueue
begin

text \<open>
  Conflux, src/core/or/conflux.c with the parts of conflux_util.c, conflux_params.c and
  conflux_cell.c that it calls: one stream of relay messages is sent over several circuits (legs);
  the sender picks the leg for each message and announces a change of leg by a SWITCH cell with
  the number of messages that the new leg missed, the receiver counts the messages of each leg and
  keeps those that come early in a priority queue.

  Circuits are looked up by their number in a store; a pointer to a leg is its position in the
  list of legs. A fatal assertion is \<open>None\<close>. The sizes of the allocated structs are those of a
  64-bit machine. \<open>conflux_validate_legs\<close> and \<open>conflux_validate_stream_lists\<close> only log and are left
  out.
\<close>

section \<open>State\<close>

record relay_msg =
  msg_command :: nat
  msg_stream_id :: nat
  msg_body :: string

record conflux_msg =
  cm_seq :: "64 word"
  cm_msg :: relay_msg

record conflux_leg =
  last_seq_recv :: "64 word"
  last_seq_sent :: "64 word"
  circ_rtts_usec :: "64 word"
  linked_sent_usec :: "64 word"
  leg_circ :: nat

datatype conflux_alg = CONFLUX_ALG_MINRTT | CONFLUX_ALG_LOWRTT | CONFLUX_ALG_CWNDRTT

record conflux =
  cfx_alg :: conflux_alg
  legs :: "conflux_leg list"
  ooo_q :: "conflux_msg pqueue"
  ooo_q_alloc_cost :: "64 word"
  last_seq_delivered :: "64 word"
  cells_until_switch :: "64 word"
  curr_leg :: "nat option"
  prev_leg :: "nat option"
  in_full_teardown :: bool

abbreviation END_CIRC_REASON_INTERNAL :: int where "END_CIRC_REASON_INTERNAL \<equiv> 2"
abbreviation END_CIRC_REASON_RESOURCELIMIT :: int where "END_CIRC_REASON_RESOURCELIMIT \<equiv> 5"
abbreviation END_CIRC_PROTOCOL :: int where "END_CIRC_PROTOCOL \<equiv> 1"

abbreviation RELAY_DATA :: nat where "RELAY_DATA \<equiv> 2"
abbreviation RELAY_SWITCH :: nat where "RELAY_SWITCH \<equiv> 22"

definition SIZEOF_CONFLUX_MSG :: nat where "SIZEOF_CONFLUX_MSG = 24"
definition SIZEOF_RELAY_MSG :: nat where "SIZEOF_RELAY_MSG = 16"

definition conflux_msg_alloc_cost :: "conflux_msg \<Rightarrow> 64 word" where
  "conflux_msg_alloc_cost m = of_nat (length (msg_body (cm_msg m)) + SIZEOF_CONFLUX_MSG + SIZEOF_RELAY_MSG)"

text \<open>BEGIN, DATA, END, CONNECTED, RESOLVE, RESOLVED, XOFF and XON are multiplexed.\<close>

definition conflux_should_multiplex :: "nat \<Rightarrow> bool" where
  "conflux_should_multiplex relay_command =
     (if relay_command \<in> {1, 2, 3, 4} then True
      else if relay_command \<in> {5, 6, 7, 8, 9, 10} then False
      else if relay_command \<in> {11, 12} then True
      else if relay_command \<in> {13, 14, 15, 32, 33, 34, 35, 36, 37, 38, 39, 40, 41, 42} then False
      else if relay_command \<in> {43, 44} then True
      else if relay_command \<in> {22, 19, 20, 21} then False
      else False)"

fun find_leg :: "conflux_leg list \<Rightarrow> nat \<Rightarrow> nat \<Rightarrow> nat option" where
  "find_leg [] circ i = None"
| "find_leg (leg # ls) circ i = (if leg_circ leg = circ then Some i else find_leg ls circ (i + 1))"

definition conflux_get_leg :: "conflux \<Rightarrow> nat \<Rightarrow> nat option" where
  "conflux_get_leg cfx circ = find_leg (legs cfx) circ 0"

definition conflux_get_max_seq_sent :: "conflux \<Rightarrow> 64 word" where
  "conflux_get_max_seq_sent cfx =
     fold (\<lambda>leg m. if last_seq_sent leg > m then last_seq_sent leg else m) (legs cfx) 0"

definition conflux_get_max_seq_recv :: "conflux \<Rightarrow> 64 word" where
  "conflux_get_max_seq_recv cfx =
     fold (\<lambda>leg m. if last_seq_recv leg > m then last_seq_recv leg else m) (legs cfx) 0"

section \<open>The choice of a leg\<close>

definition circuit_ccontrol :: "circuit \<Rightarrow> congestion_control option" where
  "circuit_ccontrol circ =
     (if CIRCUIT_IS_ORIGIN circ then (if cpath circ = [] then None else cp_ccontrol (last (cpath circ)))
      else ccontrol circ)"

definition circuit_ready_to_send :: "circuit \<Rightarrow> bool option" where
  "circuit_ready_to_send circ =
     do { cc \<leftarrow> circuit_ccontrol circ;
          let cc_sendable = (if inflight cc \<ge> cwnd cc then False else True);
          if CIRCUIT_IS_ORIGIN circ then Some (cc_sendable \<and> \<not> circuit_blocked_on_n_chan circ)
          else Some (cc_sendable \<and> \<not> circuit_blocked_on_p_chan circ) }"

fun minrtt_loop :: "conflux_leg list \<Rightarrow> 64 word \<Rightarrow> nat option \<Rightarrow> 64 word \<times> nat option" where
  "minrtt_loop [] min_rtt circ = (min_rtt, circ)"
| "minrtt_loop (leg # ls) min_rtt circ =
     (if circ_rtts_usec leg \<noteq> 0 \<and> circ_rtts_usec leg < min_rtt
      then minrtt_loop ls (circ_rtts_usec leg) (Some (leg_circ leg))
      else minrtt_loop ls min_rtt circ)"

definition conflux_decide_circ_minrtt :: "(nat \<Rightarrow> circuit) \<Rightarrow> conflux \<Rightarrow> nat option option" where
  "conflux_decide_circ_minrtt circs cfx =
     (if length (legs cfx) = 0 then None
      else case minrtt_loop (legs cfx) (- 1) None of
             (_, None) \<Rightarrow> Some None
           | (_, Some circ) \<Rightarrow>
               do { r \<leftarrow> circuit_ready_to_send (circs circ); if \<not> r then Some None else Some (Some circ) })"

fun lowrtt_loop :: "(nat \<Rightarrow> circuit) \<Rightarrow> conflux_leg list \<Rightarrow> 64 word \<Rightarrow> nat option \<Rightarrow> nat option option" where
  "lowrtt_loop circs [] low_rtt circ = Some circ"
| "lowrtt_loop circs (leg # ls) low_rtt circ =
     do { r \<leftarrow> circuit_ready_to_send (circs (leg_circ leg));
          if \<not> r then lowrtt_loop circs ls low_rtt circ
          else if circ_rtts_usec leg \<noteq> 0 \<and> circ_rtts_usec leg < low_rtt
          then lowrtt_loop circs ls (circ_rtts_usec leg) (Some (leg_circ leg))
          else lowrtt_loop circs ls low_rtt circ }"

definition conflux_decide_circ_lowrtt :: "(nat \<Rightarrow> circuit) \<Rightarrow> conflux \<Rightarrow> nat option option" where
  "conflux_decide_circ_lowrtt circs cfx =
     (if length (legs cfx) = 0 then None else lowrtt_loop circs (legs cfx) (- 1) None)"

definition cwnd_available :: "circuit \<Rightarrow> 64 word option" where
  "cwnd_available on_circ =
     do { cc \<leftarrow> circuit_ccontrol on_circ;
          if cwnd cc < inflight cc then Some 0 else Some (cwnd cc - inflight cc) }"

definition cwnd_sendable :: "circuit \<Rightarrow> 64 word \<Rightarrow> 64 word \<Rightarrow> 64 word option" where
  "cwnd_sendable on_circ in_usec our_usec =
     do { cc \<leftarrow> circuit_ccontrol on_circ;
          cwnd_adjusted \<leftarrow> cwnd_available on_circ;
          if our_usec = 0 \<or> in_usec = 0 then Some cwnd_adjusted
          else if in_slow_start cc then Some cwnd_adjusted
          else let sendable = cwnd_adjusted * in_usec div our_usec in Some (min (cwnd cc) sendable) }"

text \<open>\<open>drain_pct\<close> is the consensus parameter \<open>cfx_drain_pct\<close>.\<close>

definition conflux_can_switch :: "8 word \<Rightarrow> (nat \<Rightarrow> circuit) \<Rightarrow> conflux \<Rightarrow> bool option" where
  "conflux_can_switch drain_pct circs cfx =
     (if cells_until_switch cfx > 0 then
        (case prev_leg cfx of
           None \<Rightarrow> Some False
         | Some i \<Rightarrow>
             do { cc \<leftarrow> circuit_ccontrol (circs (leg_circ (legs cfx ! i)));
                  if inflight cc < ucast (sendme_inc cc) \<or> 100 * inflight cc \<le> ucast drain_pct * cwnd cc
                  then Some True else Some False })
      else Some True)"

fun cwndrtt_loop :: "(nat \<Rightarrow> circuit) \<Rightarrow> conflux_leg list \<Rightarrow> 64 word \<Rightarrow> nat option \<Rightarrow> nat option option" where
  "cwndrtt_loop circs [] min_rtt leg = Some leg"
| "cwndrtt_loop circs (l # ls) min_rtt leg =
     do { r \<leftarrow> circuit_ready_to_send (circs (leg_circ l));
          if \<not> r then cwndrtt_loop circs ls min_rtt leg
          else if circ_rtts_usec l \<noteq> 0
          then do { s \<leftarrow> cwnd_sendable (circs (leg_circ l)) min_rtt (circ_rtts_usec l);
                    if s > 0 then cwndrtt_loop circs ls min_rtt (Some (leg_circ l))
                    else cwndrtt_loop circs ls min_rtt leg }
          else cwndrtt_loop circs ls min_rtt leg }"

definition conflux_decide_circ_cwndrtt :: "(nat \<Rightarrow> circuit) \<Rightarrow> conflux \<Rightarrow> nat option option" where
  "conflux_decide_circ_cwndrtt circs cfx =
     (if length (legs cfx) = 0 then None
      else case minrtt_loop (legs cfx) (- 1) None of
             (min_rtt, leg) \<Rightarrow>
               do { r \<leftarrow> (case leg of None \<Rightarrow> Some False | Some c \<Rightarrow> circuit_ready_to_send (circs c));
                    if r then Some leg
                    else do { leg \<leftarrow> cwndrtt_loop circs (legs cfx) min_rtt None;
                              case leg of
                                None \<Rightarrow> Some None
                              | Some c \<Rightarrow> do { r \<leftarrow> circuit_ready_to_send (circs c); if \<not> r then Some None else Some leg } } })"

fun first_leg_loop :: "conflux_leg list \<Rightarrow> nat \<Rightarrow> (nat \<times> 64 word) option \<Rightarrow> (nat \<times> 64 word) option" where
  "first_leg_loop [] i min_leg = min_leg"
| "first_leg_loop (leg # ls) i min_leg =
     (if circ_rtts_usec leg > 0 \<and> (case min_leg of None \<Rightarrow> True | Some (_, r) \<Rightarrow> circ_rtts_usec leg < r)
      then first_leg_loop ls (i + 1) (Some (i, circ_rtts_usec leg))
      else first_leg_loop ls (i + 1) min_leg)"

definition conflux_pick_first_leg :: "conflux \<Rightarrow> conflux \<times> bool" where
  "conflux_pick_first_leg cfx =
     (case first_leg_loop (legs cfx) 0 None of
        Some (i, _) \<Rightarrow> (cfx\<lparr>cells_until_switch := 0, curr_leg := Some i\<rparr>, True)
      | None \<Rightarrow> if length (legs cfx) \<le> 0 then (cfx, False)
                else (cfx\<lparr>cells_until_switch := 0, curr_leg := Some 0\<rparr>, True))"

definition conflux_decide_next_circ ::
    "8 word \<Rightarrow> (nat \<Rightarrow> circuit) \<Rightarrow> conflux \<Rightarrow> (conflux \<times> nat option) option" where
  "conflux_decide_next_circ drain_pct circs cfx =
     (if in_full_teardown cfx then Some (cfx, None)
      else case (if curr_leg cfx = None then conflux_pick_first_leg cfx else (cfx, True)) of
             (cfx, False) \<Rightarrow> Some (cfx, None)
           | (cfx, True) \<Rightarrow>
               do { s \<leftarrow> conflux_can_switch drain_pct circs cfx;
                    if \<not> s then
                      do { i \<leftarrow> curr_leg cfx;
                           r \<leftarrow> circuit_ready_to_send (circs (leg_circ (legs cfx ! i)));
                           if r then Some (cfx, Some (leg_circ (legs cfx ! i))) else Some (cfx, None) }
                    else
                      do { c \<leftarrow> (case cfx_alg cfx of
                                   CONFLUX_ALG_MINRTT \<Rightarrow> conflux_decide_circ_minrtt circs cfx
                                 | CONFLUX_ALG_LOWRTT \<Rightarrow> conflux_decide_circ_lowrtt circs cfx
                                 | CONFLUX_ALG_CWNDRTT \<Rightarrow> conflux_decide_circ_cwndrtt circs cfx);
                           Some (cfx, c) } })"

section \<open>Sending\<close>

definition trn_cell_conflux_switch_encode :: "32 word \<Rightarrow> nat \<Rightarrow> string option" where
  "trn_cell_conflux_switch_encode seqnum avail =
     (if avail < 4 then None
      else Some (map (\<lambda>i. char_of (unat seqnum div 256 ^ i mod 256)) [3, 2, 1, 0]))"

definition trn_cell_conflux_switch_parse :: "string \<Rightarrow> 32 word option" where
  "trn_cell_conflux_switch_parse input =
     (if length input < 4 then None
      else Some (of_nat (fold (\<lambda>c n. n * 256 + of_char c) (take 4 input) 0)))"

text \<open>\<open>send w circ payload\<close> is \<open>relay_send_command_from_edge\<close> with RELAY_COMMAND_CONFLUX_SWITCH to the
  last hop: the state of the channels, and whether it succeeded.\<close>

type_synonym 'w send_switch = "'w \<Rightarrow> nat \<Rightarrow> string \<Rightarrow> 'w \<times> bool"

definition conflux_send_switch_command :: "'w send_switch \<Rightarrow> 'w \<Rightarrow> nat \<Rightarrow> 64 word \<Rightarrow> 'w \<times> bool" where
  "conflux_send_switch_command send w send_circ relative_seq =
     (if relative_seq \<ge> 0xffffffff then (w, False)
      else case trn_cell_conflux_switch_encode (ucast relative_seq) 498 of
             None \<Rightarrow> (w, False)
           | Some payload \<Rightarrow> send w send_circ payload)"

definition set_leg :: "conflux \<Rightarrow> nat \<Rightarrow> (conflux_leg \<Rightarrow> conflux_leg) \<Rightarrow> conflux" where
  "set_leg cfx i f = cfx\<lparr>legs := (legs cfx)[i := f (legs cfx ! i)]\<rparr>"

text \<open>The result: the state of the channels, the set, the circuit to send on, and whether all
  circuits of the set were marked for close.\<close>

definition conflux_decide_circ_for_send ::
    "'w send_switch \<Rightarrow> 8 word \<Rightarrow> (nat \<Rightarrow> circuit) \<Rightarrow> 'w \<Rightarrow> conflux \<Rightarrow> nat \<Rightarrow> nat
       \<Rightarrow> ('w \<times> conflux \<times> nat option \<times> bool) option" where
  "conflux_decide_circ_for_send send drain_pct circs w cfx orig_circ relay_command =
     (if \<not> conflux_should_multiplex relay_command then Some (w, cfx, Some orig_circ, False)
      else
        do { (cfx, new_circ) \<leftarrow> conflux_decide_next_circ drain_pct circs cfx;
             if new_circ = None \<and> relay_command \<noteq> RELAY_DATA then
               (case curr_leg cfx of
                  None \<Rightarrow> Some (w, cfx, None, False)
                | Some i \<Rightarrow> Some (w, cfx, Some (leg_circ (legs cfx ! i)), False))
             else
               case new_circ of
                 None \<Rightarrow> Some (w, cfx, None, False)
               | Some c \<Rightarrow>
                   do { i \<leftarrow> curr_leg cfx;
                        if c \<noteq> leg_circ (legs cfx ! i) then
                          do { new_leg \<leftarrow> conflux_get_leg cfx c;
                               let cfx = cfx\<lparr>cells_until_switch := 0, prev_leg := Some i, curr_leg := Some new_leg\<rparr>;
                               if last_seq_sent (legs cfx ! new_leg) > last_seq_sent (legs cfx ! i)
                               then Some (w, cfx, None, True)
                               else let relative_seq = last_seq_sent (legs cfx ! i) - last_seq_sent (legs cfx ! new_leg)
                                    in case conflux_send_switch_command send w (leg_circ (legs cfx ! new_leg)) relative_seq of
                                         (w, False) \<Rightarrow> Some (w, cfx, None, True)
                                       | (w, True) \<Rightarrow>
                                           Some (w, set_leg cfx new_leg (\<lambda>l. l\<lparr>last_seq_sent := last_seq_sent (legs cfx ! i)\<rparr>),
                                                 Some c, False) }
                        else Some (w, cfx, Some c, False) } })"

definition conflux_note_cell_sent :: "conflux \<Rightarrow> nat \<Rightarrow> nat \<Rightarrow> conflux" where
  "conflux_note_cell_sent cfx circ relay_command =
     (if \<not> conflux_should_multiplex relay_command then cfx
      else case conflux_get_leg cfx circ of
             None \<Rightarrow> cfx
           | Some i \<Rightarrow>
               let cfx = set_leg cfx i (\<lambda>l. l\<lparr>last_seq_sent := last_seq_sent l + 1\<rparr>)
               in if cells_until_switch cfx > 0 then cfx\<lparr>cells_until_switch := cells_until_switch cfx - 1\<rparr> else cfx)"

definition conflux_update_rtt :: "conflux \<Rightarrow> nat \<Rightarrow> 64 word \<Rightarrow> conflux" where
  "conflux_update_rtt cfx circ rtt_usec =
     (case conflux_get_leg cfx circ of
        None \<Rightarrow> cfx
      | Some i \<Rightarrow> set_leg cfx i (\<lambda>l. l\<lparr>circ_rtts_usec := rtt_usec\<rparr>))"

section \<open>Receiving\<close>

definition conflux_queue_cmp :: "conflux_msg \<Rightarrow> conflux_msg \<Rightarrow> int" where
  "conflux_queue_cmp a b = (if cm_seq a < cm_seq b then - 1 else if cm_seq a > cm_seq b then 1 else 0)"

interpretation ooo: comparison conflux_queue_cmp
  by unfold_locales (auto simp: conflux_queue_cmp_def split: if_splits)

definition conflux_get_destination_hop :: "circuit \<Rightarrow> nat option" where
  "conflux_get_destination_hop circ = (if CIRCUIT_IS_ORIGIN circ then Some (length (cpath circ) - 1) else None)"

definition conflux_validate_source_hop :: "circuit \<Rightarrow> nat option \<Rightarrow> bool" where
  "conflux_validate_source_hop in_circ layer_hint =
     (if conflux_get_destination_hop in_circ \<noteq> layer_hint then False
      else if layer_hint = None \<and> has_n_chan in_circ then False
      else True)"

text \<open>Zero stands for a cell that cannot be parsed.\<close>

definition conflux_cell_parse_switch :: "relay_msg \<Rightarrow> 32 word" where
  "conflux_cell_parse_switch msg =
     (case trn_cell_conflux_switch_parse (msg_body msg) of None \<Rightarrow> 0 | Some seqnum \<Rightarrow> seqnum)"

text \<open>The options: \<open>always_cc\<close> is AlwaysCongestionControl, \<open>opt\<close> is ConfluxEnabled or none for auto,
  \<open>param\<close> the consensus parameter.\<close>

definition conflux_is_enabled :: "cc_globals \<Rightarrow> bool \<Rightarrow> bool option \<Rightarrow> bool \<Rightarrow> circuit option \<Rightarrow> bool option" where
  "conflux_is_enabled g always_cc opt param circ =
     (if \<not> congestion_control_enabled g always_cc then Some False
      else
        do { ok \<leftarrow> (case circ of
                     None \<Rightarrow> Some True
                   | Some c \<Rightarrow>
                       if CIRCUIT_IS_ORIGIN c then
                         (if cpath c = [] then None else Some (cp_ccontrol (last (cpath c)) \<noteq> None))
                       else Some (ccontrol c \<noteq> None));
             if \<not> ok then Some False
             else case opt of Some b \<Rightarrow> Some b | None \<Rightarrow> Some param })"

text \<open>The set and the circuit afterwards, and the reason for which the circuit is closed, if it is.\<close>

definition conflux_process_switch_command ::
    "bool \<Rightarrow> conflux option \<Rightarrow> nat \<Rightarrow> circuit \<Rightarrow> nat option \<Rightarrow> relay_msg \<Rightarrow> conflux option \<times> circuit \<times> int option" where
  "conflux_process_switch_command enabled cfx_opt in_circ circ layer_hint msg =
     (if \<not> enabled then (cfx_opt, circ, Some END_CIRC_PROTOCOL)
      else case cfx_opt of
             None \<Rightarrow> (None, circ, Some END_CIRC_PROTOCOL)
           | Some cfx \<Rightarrow>
               case conflux_get_leg cfx in_circ of
                 None \<Rightarrow> (Some cfx, circ, Some END_CIRC_REASON_INTERNAL)
               | Some i \<Rightarrow>
                   if \<not> conflux_validate_source_hop circ layer_hint then (Some cfx, circ, Some END_CIRC_PROTOCOL)
                   else let relative_seq = conflux_cell_parse_switch msg;
                            cfx = set_leg cfx i (\<lambda>l. l\<lparr>last_seq_recv := last_seq_recv l + ucast relative_seq\<rparr>);
                            circ = (if CIRCUIT_IS_ORIGIN circ
                                    then circuit_read_valid_data circ (length (msg_body msg)) else circ)
                        in (Some cfx, circ, None))"

text \<open>\<open>total_bytes\<close> is the static variable \<open>total_ooo_q_bytes\<close>, \<open>max_oooq\<close> the consensus parameter
  \<open>cfx_max_oooq_bytes\<close>. The result: the set, \<open>total_bytes\<close>, the reason for which the circuit is closed, if it
  is, and whether the message is to be delivered now.\<close>

definition conflux_process_relay_msg ::
    "32 word \<Rightarrow> 64 word \<Rightarrow> conflux \<Rightarrow> nat \<Rightarrow> circuit \<Rightarrow> nat option \<Rightarrow> relay_msg
       \<Rightarrow> conflux \<times> 64 word \<times> int option \<times> bool" where
  "conflux_process_relay_msg max_oooq total_bytes cfx in_circ circ layer_hint msg =
     (case conflux_get_leg cfx in_circ of
        None \<Rightarrow> (cfx, total_bytes, Some END_CIRC_REASON_INTERNAL, False)
      | Some i \<Rightarrow>
          if \<not> conflux_validate_source_hop circ layer_hint then (cfx, total_bytes, Some END_CIRC_PROTOCOL, False)
          else let cfx = set_leg cfx i (\<lambda>l. l\<lparr>last_seq_recv := last_seq_recv l + 1\<rparr>);
                   seq = last_seq_recv (legs cfx ! i)
               in if seq = last_seq_delivered cfx + 1 then
                    (cfx\<lparr>last_seq_delivered := last_seq_delivered cfx + 1\<rparr>, total_bytes, None, True)
                  else if seq \<le> last_seq_delivered cfx then (cfx, total_bytes, Some END_CIRC_REASON_INTERNAL, False)
                  else if ooo_q_alloc_cost cfx \<ge> ucast max_oooq then (cfx, total_bytes, Some END_CIRC_REASON_RESOURCELIMIT, False)
                  else let c_msg = \<lparr>cm_seq = seq, cm_msg = msg\<rparr>;
                           cost = conflux_msg_alloc_cost c_msg
                       in (cfx\<lparr>ooo_q := smartlist_pqueue_add conflux_queue_cmp (ooo_q cfx) c_msg,
                               ooo_q_alloc_cost := ooo_q_alloc_cost cfx + cost\<rparr>, total_bytes + cost, None, False))"

definition conflux_dequeue_relay_msg ::
    "64 word \<Rightarrow> circuit \<Rightarrow> conflux option \<Rightarrow> (conflux \<times> 64 word \<times> conflux_msg) option" where
  "conflux_dequeue_relay_msg total_bytes circ cfx_opt =
     (if marked_for_close circ then None
      else case cfx_opt of
             None \<Rightarrow> None
           | Some cfx \<Rightarrow>
               if length (pq_list (ooo_q cfx)) = 0 then None
               else let m = pq_list (ooo_q cfx) ! 0
                    in if cm_seq m = last_seq_delivered cfx + 1 then
                         (case smartlist_pqueue_pop conflux_queue_cmp (ooo_q cfx) of
                            None \<Rightarrow> None
                          | Some (_, q) \<Rightarrow>
                              let cost = conflux_msg_alloc_cost m
                              in Some (cfx\<lparr>ooo_q := q, ooo_q_alloc_cost := ooo_q_alloc_cost cfx - cost,
                                           last_seq_delivered := last_seq_delivered cfx + 1\<rparr>, total_bytes - cost, m))
                       else None)"

definition conflux_clear_ooo_q :: "64 word \<Rightarrow> conflux \<Rightarrow> conflux \<times> 64 word" where
  "conflux_clear_ooo_q total_bytes cfx =
     (cfx\<lparr>ooo_q := (ooo_q cfx)\<lparr>pq_list := []\<rparr>\<rparr>,
      fold (\<lambda>m total_bytes. let cost = conflux_msg_alloc_cost m in if cost > total_bytes then 0 else total_bytes - cost)
        (pq_list (ooo_q cfx)) total_bytes)"

definition conflux_get_circ_bytes_allocation :: "conflux option \<Rightarrow> 64 word" where
  "conflux_get_circ_bytes_allocation cfx =
     (case cfx of None \<Rightarrow> 0 | Some c \<Rightarrow> of_nat (length (pq_list (ooo_q c)) * 8) + ooo_q_alloc_cost c)"

section \<open>Delivery\<close>

lemma heapify_length [simp]: "length (pq_list (smartlist_heapify compare q idx)) = length (pq_list q)"
  using heapify_frame by (metis mset_eq_length)

lemma pop_shorter: "smartlist_pqueue_pop compare q = Some (x, q') \<Longrightarrow> length (pq_list q') < length (pq_list q)"
  by (auto simp: smartlist_pqueue_pop_def UPDATE_IDX_def Let_def split: if_splits)

lemma dequeue_shorter:
  "conflux_dequeue_relay_msg total_bytes circ (Some cfx) = Some (cfx', total_bytes', m)
     \<Longrightarrow> length (pq_list (ooo_q cfx')) < length (pq_list (ooo_q cfx))"
  by (auto simp: conflux_dequeue_relay_msg_def Let_def dest: pop_shorter split: if_splits option.splits)

text \<open>What \<open>connection_edge_process_relay_cell\<close> does with a message under conflux: it processes the
  message when it is next, then the ones that waited for it. \<open>handle\<close> is the handler of an ordered
  message, with the state that it changes; a negative result ends the loop, and so does a circuit
  that the handler closed, as \<open>closed\<close> tells. The handler leaves the receiving side of the set alone.\<close>

function process_queue ::
    "('s \<Rightarrow> relay_msg \<Rightarrow> 's \<times> int) \<Rightarrow> ('s \<Rightarrow> bool) \<Rightarrow> 64 word \<Rightarrow> circuit \<Rightarrow> conflux \<Rightarrow> 's
       \<Rightarrow> conflux \<times> 64 word \<times> 's \<times> int" where
  "process_queue handle closed total_bytes circ cfx s =
     (case conflux_dequeue_relay_msg total_bytes (circ\<lparr>marked_for_close := closed s\<rparr>) (Some cfx) of
        None \<Rightarrow> (cfx, total_bytes, s, 0)
      | Some (cfx', total_bytes', m) \<Rightarrow>
          (case handle s (cm_msg m) of
             (s', ret) \<Rightarrow> if ret < 0 then (cfx', total_bytes', s', ret)
                          else process_queue handle closed total_bytes' circ cfx' s'))"
  by pat_completeness auto
termination
  by (relation "measure (\<lambda>(h, cl, t, c, cfx, s). length (pq_list (ooo_q cfx)))") (auto dest: dequeue_shorter)

declare process_queue.simps [simp del]

definition process_relay_cell ::
    "('s \<Rightarrow> relay_msg \<Rightarrow> 's \<times> int) \<Rightarrow> ('s \<Rightarrow> bool) \<Rightarrow> 32 word \<Rightarrow> 64 word \<Rightarrow> conflux option \<Rightarrow> nat \<Rightarrow> circuit \<Rightarrow> nat option
       \<Rightarrow> relay_msg \<Rightarrow> 's \<Rightarrow> conflux option \<times> 64 word \<times> int option \<times> 's \<times> int" where
  "process_relay_cell handle closed max_oooq total_bytes cfx_opt in_circ circ layer_hint msg s =
     (case cfx_opt of
        None \<Rightarrow> (case handle s msg of (s, ret) \<Rightarrow> (None, total_bytes, None, s, ret))
      | Some cfx \<Rightarrow>
          if \<not> conflux_should_multiplex (msg_command msg) then
            (case handle s msg of (s, ret) \<Rightarrow> (Some cfx, total_bytes, None, s, ret))
          else case conflux_process_relay_msg max_oooq total_bytes cfx in_circ circ layer_hint msg of
                 (cfx, total_bytes, reason, False) \<Rightarrow> (Some cfx, total_bytes, reason, s, 0)
               | (cfx, total_bytes, reason, True) \<Rightarrow>
                   (case handle s msg of
                      (s, ret) \<Rightarrow> if ret < 0 then (Some cfx, total_bytes, reason, s, ret)
                                  else (case process_queue handle closed total_bytes circ cfx s of
                                          (cfx, total_bytes, s, ret) \<Rightarrow> (Some cfx, total_bytes, reason, s, ret))))"

end
