(* ===== verification/Conflux_Link.thy ===== *)
theory Conflux_Link
  imports Conflux
begin

text \<open>
  A conflux set at both ends of its legs, one direction of it: messages are handed to the sender,
  travel in SWITCH and message cells on the legs, each leg in order but the legs at any relative
  speed, and are handed to the streams by the receiver. The stream of messages comes out complete,
  in order and without repetition: the set refines a queue.
\<close>

section \<open>Steps\<close>

datatype leg_cell = SWITCH string | MSG relay_msg

text \<open>\<open>cn_sent\<close> and \<open>cn_done\<close> record the messages handed to the sender and by the receiver.\<close>

record conflux_net =
  cn_send :: conflux
  cn_recv :: conflux
  cn_chan :: "nat \<Rightarrow> leg_cell list"
  cn_total :: "64 word"
  cn_sent :: "relay_msg list"
  cn_done :: "relay_msg list"

definition send_on_leg :: "(nat \<Rightarrow> leg_cell list) send_switch" where
  "send_on_leg chan c p = (chan(c := chan c @ [SWITCH p]), True)"

definition hand_over :: "relay_msg list \<Rightarrow> relay_msg \<Rightarrow> relay_msg list \<times> int" where
  "hand_over ms m = (ms @ [m], 0)"

text \<open>The state of the circuits on the sender's side is arbitrary at every step.\<close>

inductive conflux_step :: "32 word \<Rightarrow> conflux_net \<Rightarrow> conflux_net \<Rightarrow> bool" for max_oooq :: "32 word" where
  Send: "conflux_should_multiplex (msg_command m) \<Longrightarrow> length (msg_body m) < 65536 \<Longrightarrow> length (cn_sent n) + 1 < 2 ^ 64
     \<Longrightarrow> conflux_decide_circ_for_send send_on_leg drain_pct circs (cn_chan n) (cn_send n) orig (msg_command m)
           = Some (chan, cfx, Some c, False)
     \<Longrightarrow> conflux_step max_oooq n
           (n\<lparr>cn_send := conflux_note_cell_sent cfx c (msg_command m), cn_chan := chan(c := chan c @ [MSG m]),
              cn_sent := cn_sent n @ [m]\<rparr>)"
| Blocked: "conflux_should_multiplex command
     \<Longrightarrow> conflux_decide_circ_for_send send_on_leg drain_pct circs (cn_chan n) (cn_send n) orig command
           = Some (chan, cfx, None, False)
     \<Longrightarrow> conflux_step max_oooq n (n\<lparr>cn_send := cfx, cn_chan := chan\<rparr>)"
| Rtt: "conflux_step max_oooq n (n\<lparr>cn_send := conflux_update_rtt (cn_send n) c rtt\<rparr>)"
| Receive: "cn_chan n c = MSG m # cs \<Longrightarrow> conflux_validate_source_hop circ layer_hint
     \<Longrightarrow> process_relay_cell hand_over (\<lambda>_. False) max_oooq (cn_total n) (Some (cn_recv n)) c circ layer_hint m (cn_done n)
           = (Some cfx, total_bytes, None, ms, 0)
     \<Longrightarrow> conflux_step max_oooq n
           (n\<lparr>cn_recv := cfx, cn_chan := (cn_chan n)(c := cs), cn_total := total_bytes, cn_done := ms\<rparr>)"
| Receive_Switch: "cn_chan n c = SWITCH p # cs \<Longrightarrow> conflux_validate_source_hop circ layer_hint
     \<Longrightarrow> conflux_process_switch_command True (Some (cn_recv n)) c circ layer_hint
           \<lparr>msg_command = RELAY_SWITCH, msg_stream_id = 0, msg_body = p\<rparr> = (Some cfx, circ', None)
     \<Longrightarrow> conflux_step max_oooq n (n\<lparr>cn_recv := cfx, cn_chan := (cn_chan n)(c := cs)\<rparr>)"

section \<open>Legs\<close>

definition leg_ids :: "conflux \<Rightarrow> nat list" where
  "leg_ids cfx = map leg_circ (legs cfx)"

lemma find_leg_Some:
  "find_leg ls c k = Some i \<Longrightarrow> k \<le> i \<and> i - k < length ls \<and> leg_circ (ls ! (i - k)) = c"
proof (induction ls arbitrary: k)
  case (Cons l ls)
  then show ?case by (cases "leg_circ l = c") (fastforce simp: nth_Cons' Suc_diff_Suc)+
qed simp

lemma find_leg_None: "find_leg ls c k = None \<longleftrightarrow> c \<notin> leg_circ ` set ls"
  by (induction ls arbitrary: k) auto

lemma get_leg_Some:
  "conflux_get_leg cfx c = Some i \<Longrightarrow> i < length (legs cfx) \<and> leg_circ (legs cfx ! i) = c"
  using find_leg_Some [of "legs cfx" c 0 i] by (simp add: conflux_get_leg_def)

lemma get_leg_None: "conflux_get_leg cfx c = None \<longleftrightarrow> c \<notin> set (leg_ids cfx)"
  by (simp add: conflux_get_leg_def find_leg_None leg_ids_def)

lemma get_leg_nth:
  assumes "distinct (leg_ids cfx)" "i < length (legs cfx)"
  shows "conflux_get_leg cfx (leg_circ (legs cfx ! i)) = Some i"
proof (cases "conflux_get_leg cfx (leg_circ (legs cfx ! i))")
  case None
  then show ?thesis using assms(2) by (simp add: get_leg_None leg_ids_def)
next
  case (Some j)
  from get_leg_Some [OF this] have "j < length (legs cfx)" "leg_ids cfx ! j = leg_ids cfx ! i"
    using assms(2) by (simp_all add: leg_ids_def)
  with assms have "j = i" by (metis leg_ids_def length_map nth_eq_iff_index_eq)
  with Some show ?thesis by simp
qed

definition leg_val :: "(conflux_leg \<Rightarrow> 64 word) \<Rightarrow> conflux \<Rightarrow> nat \<Rightarrow> nat" where
  "leg_val f cfx c = (case conflux_get_leg cfx c of Some i \<Rightarrow> unat (f (legs cfx ! i)) | None \<Rightarrow> 0)"

lemma leg_val_get [simp]: "conflux_get_leg cfx c = Some i \<Longrightarrow> leg_val f cfx c = unat (f (legs cfx ! i))"
  by (simp add: leg_val_def)

lemma ids_set_leg [simp]: "(\<And>l. leg_circ (g l) = leg_circ l) \<Longrightarrow> leg_ids (set_leg cfx i g) = leg_ids cfx"
  by (auto simp: leg_ids_def set_leg_def map_update intro: nth_equalityI)
    (metis leg_ids_def list_update_id map_update)

lemma find_leg_map: "map leg_circ ls = map leg_circ ls' \<Longrightarrow> find_leg ls c k = find_leg ls' c k"
  by (induction ls ls' arbitrary: k rule: list_induct2') auto

lemma get_leg_ids: "leg_ids cfx = leg_ids cfx' \<Longrightarrow> conflux_get_leg cfx c = conflux_get_leg cfx' c"
  using find_leg_map [of "legs cfx" "legs cfx'" c 0] unfolding conflux_get_leg_def leg_ids_def by blast

lemma leg_val_set_leg:
  assumes "conflux_get_leg cfx c = Some i" "\<And>l. leg_circ (g l) = leg_circ l"
  shows "leg_val f (set_leg cfx i g) = (leg_val f cfx)(c := unat (f (g (legs cfx ! i))))"
proof
  fix d
  have e: "conflux_get_leg (set_leg cfx i g) d = conflux_get_leg cfx d" by (rule get_leg_ids) (simp add: assms(2))
  have l: "legs (set_leg cfx i g) = (legs cfx)[i := g (legs cfx ! i)]" by (simp add: set_leg_def)
  show "leg_val f (set_leg cfx i g) d = ((leg_val f cfx)(c := unat (f (g (legs cfx ! i))))) d"
  proof (cases "conflux_get_leg cfx d")
    case None
    then show ?thesis using assms(1) by (auto simp: leg_val_def e)
  next
    case (Some j)
    with get_leg_Some [OF this] get_leg_Some [OF assms(1)] assms(1) show ?thesis
      by (cases "j = i") (auto simp: leg_val_def e l)
  qed
qed

lemma leg_val_legs: "legs cfx = legs cfx' \<Longrightarrow> leg_val f cfx = leg_val f cfx'"
  by (rule ext) (simp add: leg_val_def conflux_get_leg_def split: option.split)

section \<open>What is on a leg\<close>

definition switch_value :: "string \<Rightarrow> nat" where
  "switch_value p = unat (conflux_cell_parse_switch \<lparr>msg_command = RELAY_SWITCH, msg_stream_id = 0, msg_body = p\<rparr>)"

text \<open>The numbers that the receiver, at \<open>r\<close>, will give to the messages on the way, and the last one.\<close>

fun arrivals :: "nat \<Rightarrow> leg_cell list \<Rightarrow> (nat \<times> relay_msg) list" where
  "arrivals r [] = []"
| "arrivals r (SWITCH p # cs) = arrivals (r + switch_value p) cs"
| "arrivals r (MSG m # cs) = (r + 1, m) # arrivals (r + 1) cs"

fun leg_end :: "nat \<Rightarrow> leg_cell list \<Rightarrow> nat" where
  "leg_end r [] = r"
| "leg_end r (SWITCH p # cs) = leg_end (r + switch_value p) cs"
| "leg_end r (MSG m # cs) = leg_end (r + 1) cs"

lemma leg_end_append [simp]: "leg_end r (cs @ ds) = leg_end (leg_end r cs) ds"
  by (induction r cs rule: leg_end.induct) auto

lemma arrivals_append [simp]: "arrivals r (cs @ ds) = arrivals r cs @ arrivals (leg_end r cs) ds"
  by (induction r cs rule: leg_end.induct) auto

lemma arrival_pos: "(k, m) \<in> set (arrivals r cs) \<Longrightarrow> r < k"
  by (induction r cs rule: arrivals.induct) fastforce+

lemma leg_end_mono: "r \<le> leg_end r cs"
  by (induction r cs rule: leg_end.induct) auto

lemma switch_roundtrip:
  "trn_cell_conflux_switch_encode v avail = Some p \<Longrightarrow> trn_cell_conflux_switch_parse p = Some v"
proof -
  assume "trn_cell_conflux_switch_encode v avail = Some p"
  then have p: "p = map (\<lambda>i. char_of (unat v div 256 ^ i mod 256)) [3, 2, 1, 0]"
    by (simp add: trn_cell_conflux_switch_encode_def split: if_splits)
  let ?n = "unat v"
  have lt: "?n < 4294967296" by (rule unat_lt32)
  then have d: "?n div 16777216 < 256" by (simp add: less_mult_imp_div_less)
  have b: "m div 256 * 256 + m mod 256 = m" for m :: nat by simp
  have e: "?n div 16777216 = ?n div 65536 div 256" "?n div 65536 = ?n div 256 div 256"
    by (simp_all add: div_mult2_eq [symmetric])
  have "((?n div 16777216 * 256 + ?n div 65536 mod 256) * 256 + ?n div 256 mod 256) * 256 + ?n mod 256 = ?n"
    unfolding e by (simp only: b)
  moreover have "fold (\<lambda>c n. n * 256 + of_char c) p (0 :: nat)
      = ((?n div 16777216 mod 256 * 256 + ?n div 65536 mod 256) * 256 + ?n div 256 mod 256) * 256 + ?n mod 256"
    by (simp add: p)
  ultimately have "fold (\<lambda>c n. n * 256 + of_char c) p (0 :: nat) = ?n" using d by (simp only: mod_less)
  moreover have "length p = 4" by (simp add: p)
  ultimately show ?thesis by (simp add: trn_cell_conflux_switch_parse_def)
qed

lemma send_switch_value:
  assumes "conflux_send_switch_command send_on_leg chan c v = (chan', True)"
  shows "\<exists>p. chan' = chan(c := chan c @ [SWITCH p]) \<and> switch_value p = unat v"
proof -
  from assms have v: "v < 0xffffffff" by (auto simp: conflux_send_switch_command_def split: if_splits)
  from assms obtain p where p: "trn_cell_conflux_switch_encode (ucast v) 498 = Some p" "chan' = chan(c := chan c @ [SWITCH p])"
    by (auto simp: conflux_send_switch_command_def send_on_leg_def split: if_splits option.splits)
  have "unat (ucast v :: 32 word) = unat v"
    using v by (simp add: unsigned_ucast_eq word_less_nat_alt take_bit_nat_eq_self)
  then have "switch_value p = unat v"
    by (simp add: switch_value_def conflux_cell_parse_switch_def switch_roundtrip [OF p(1)])
  with p(2) show ?thesis by blast
qed

section \<open>The sender\<close>

abbreviation sent_on :: "conflux \<Rightarrow> nat \<Rightarrow> nat" where "sent_on \<equiv> leg_val last_seq_sent"
abbreviation recv_on :: "conflux \<Rightarrow> nat \<Rightarrow> nat" where "recv_on \<equiv> leg_val last_seq_recv"

text \<open>The current leg has numbered all \<open>k\<close> messages, and no leg more.\<close>

definition sender_ok :: "nat \<Rightarrow> conflux \<Rightarrow> bool" where
  "sender_ok k cfx \<longleftrightarrow>
     distinct (leg_ids cfx) \<and> (\<forall>c. sent_on cfx c \<le> k)
     \<and> (case curr_leg cfx of Some i \<Rightarrow> i < length (legs cfx) \<and> unat (last_seq_sent (legs cfx ! i)) = k | None \<Rightarrow> k = 0)"

lemma first_leg_loop_bound:
  "first_leg_loop ls i m = Some (j, r) \<Longrightarrow> (case m of Some (a, _) \<Rightarrow> a < i | None \<Rightarrow> True) \<Longrightarrow> j < i + length ls"
proof (induction ls arbitrary: i m)
  case Nil
  then show ?case by simp
next
  case (Cons l ls)
  show ?case
  proof (cases "circ_rtts_usec l > 0 \<and> (case m of None \<Rightarrow> True | Some (_, r) \<Rightarrow> circ_rtts_usec l < r)")
    case True
    then have "first_leg_loop ls (i + 1) (Some (i, circ_rtts_usec l)) = Some (j, r)" using Cons.prems(1) by simp
    from Cons.IH [OF this] show ?thesis by simp
  next
    case False
    then have "first_leg_loop ls (i + 1) m = Some (j, r)" using Cons.prems(1) by (simp split: if_splits)
    moreover have "case m of Some (a, _) \<Rightarrow> a < i + 1 | None \<Rightarrow> True"
      using Cons.prems(2) by (auto split: option.splits)
    ultimately show ?thesis using Cons.IH by fastforce
  qed
qed

lemma pick_first_ok:
  assumes "conflux_pick_first_leg cfx = (cfx', True)" "curr_leg cfx = None" "sender_ok k cfx"
  shows "sender_ok k cfx' \<and> legs cfx' = legs cfx \<and> curr_leg cfx' \<noteq> None"
proof -
  from assms(1) obtain i where i: "cfx' = cfx\<lparr>cells_until_switch := 0, curr_leg := Some i\<rparr>" "i < length (legs cfx)"
    by (auto simp: conflux_pick_first_leg_def split: option.splits if_splits dest!: first_leg_loop_bound)
  have "k = 0" using assms(2,3) by (simp add: sender_ok_def)
  moreover have "sent_on cfx (leg_circ (legs cfx ! i)) \<le> k" using assms(3) unfolding sender_ok_def by blast
  moreover have "unat (last_seq_sent (legs cfx ! i)) = sent_on cfx (leg_circ (legs cfx ! i))"
    using get_leg_nth [OF _ i(2)] assms(3) by (simp add: sender_ok_def)
  ultimately have "unat (last_seq_sent (legs cfx ! i)) = 0" by simp
  then show ?thesis using assms(2,3) i leg_val_legs [of cfx' cfx last_seq_sent]
    by (auto simp: sender_ok_def leg_ids_def)
qed

lemma decide_next_ok:
  assumes "conflux_decide_next_circ drain_pct circs cfx = Some (cfx', r)" "sender_ok k cfx"
  shows "sender_ok k cfx' \<and> legs cfx' = legs cfx \<and> (r \<noteq> None \<longrightarrow> curr_leg cfx' \<noteq> None)"
proof (cases "in_full_teardown cfx")
  case True
  then show ?thesis using assms by (simp add: conflux_decide_next_circ_def)
next
  case False
  obtain cfx1 b where p: "(if curr_leg cfx = None then conflux_pick_first_leg cfx else (cfx, True)) = (cfx1, b)" by fastforce
  show ?thesis
  proof (cases b)
    case True
    then have "cfx' = cfx1" using assms(1) False p
      by (auto simp: conflux_decide_next_circ_def bind_eq_Some_conv split: if_splits)
    moreover have "sender_ok k cfx1 \<and> legs cfx1 = legs cfx \<and> curr_leg cfx1 \<noteq> None"
      using p True assms(2) pick_first_ok by (auto split: if_splits)
    ultimately show ?thesis by simp
  next
    case f: False
    then have "cfx' = cfx1" "r = None" using assms(1) False p by (auto simp: conflux_decide_next_circ_def)
    moreover have "cfx1 = cfx" using p f by (auto simp: conflux_pick_first_leg_def split: if_splits option.splits)
    ultimately show ?thesis using assms(2) by simp
  qed
qed

text \<open>The decision: either the current leg is kept, or the new leg is sent the number of messages that
  it missed and becomes the current one. All legs are closed only when that number is too large.\<close>

definition send_rel :: "nat \<Rightarrow> (nat \<Rightarrow> leg_cell list) \<Rightarrow> conflux \<Rightarrow> (nat \<Rightarrow> leg_cell list) \<Rightarrow> conflux \<Rightarrow> bool" where
  "send_rel k chan cfx chan' cfx' \<longleftrightarrow>
     sender_ok k cfx' \<and> leg_ids cfx' = leg_ids cfx
     \<and> (chan' = chan \<and> sent_on cfx' = sent_on cfx
        \<or> (\<exists>c p. c \<in> set (leg_ids cfx) \<and> chan' = chan(c := chan c @ [SWITCH p]) \<and> sent_on cfx c + switch_value p = k
            \<and> sent_on cfx' = (sent_on cfx)(c := k)))"

lemma sender_curr:
  assumes "sender_ok k cfx" "curr_leg cfx = Some i"
  shows "i < length (legs cfx)" "unat (last_seq_sent (legs cfx ! i)) = k" "conflux_get_leg cfx (leg_circ (legs cfx ! i)) = Some i"
  using assms get_leg_nth by (simp_all add: sender_ok_def)

lemma decide_ok:
  assumes d: "conflux_decide_circ_for_send send_on_leg drain_pct circs chan cfx orig cmd = Some (chan', cfx', r, closed)"
    and k: "sender_ok k cfx" and m: "conflux_should_multiplex cmd"
  shows "if closed then 0xffffffff \<le> k
    else send_rel k chan cfx chan' cfx'
      \<and> (case r of Some c \<Rightarrow> (\<exists>i. curr_leg cfx' = Some i \<and> leg_circ (legs cfx' ! i) = c) | None \<Rightarrow> True)"
proof -
  from d m obtain cfx1 nc where n: "conflux_decide_next_circ drain_pct circs cfx = Some (cfx1, nc)"
    by (auto simp: conflux_decide_circ_for_send_def bind_eq_Some_conv)
  from decide_next_ok [OF n k] have 1: "sender_ok k cfx1" "legs cfx1 = legs cfx" "nc \<noteq> None \<longrightarrow> curr_leg cfx1 \<noteq> None" by simp_all
  have same: "send_rel k chan cfx chan cfx1"
    using 1 leg_val_legs [OF 1(2)] by (simp add: send_rel_def leg_ids_def)
  show ?thesis
  proof (cases nc)
    case None
    then have "chan' = chan \<and> cfx' = cfx1 \<and> \<not> closed
        \<and> (r = None \<or> (\<exists>i. curr_leg cfx1 = Some i \<and> r = Some (leg_circ (legs cfx1 ! i))))"
      using d m n by (auto simp: conflux_decide_circ_for_send_def split: if_splits option.splits)
    with same show ?thesis by auto
  next
    case (Some c)
    with 1(3) obtain i where i: "curr_leg cfx1 = Some i" by blast
    note ci = sender_curr [OF 1(1) i]
    show ?thesis
    proof (cases "c = leg_circ (legs cfx1 ! i)")
      case True
      then have "chan' = chan \<and> cfx' = cfx1 \<and> \<not> closed \<and> r = Some c"
        using d m n Some i by (auto simp: conflux_decide_circ_for_send_def)
      with same i True show ?thesis by simp
    next
      case False
      from d m n Some i False obtain j where j: "conflux_get_leg cfx1 c = Some j"
        by (auto simp: conflux_decide_circ_for_send_def bind_eq_Some_conv)
      note gj = get_leg_Some [OF j]
      define cfx2 where "cfx2 = cfx1\<lparr>cells_until_switch := 0, prev_leg := Some i, curr_leg := Some j\<rparr>"
      let ?v = "last_seq_sent (legs cfx1 ! i) - last_seq_sent (legs cfx1 ! j)"
      have le: "sent_on cfx1 c \<le> k" using 1(1) by (simp add: sender_ok_def)
      then have nl: "last_seq_sent (legs cfx1 ! j) \<le> last_seq_sent (legs cfx1 ! i)"
        using j ci(2) by (simp add: word_le_nat_alt)
      then have nl': "\<not> last_seq_sent (legs cfx1 ! i) < last_seq_sent (legs cfx1 ! j)" by simp
      have v: "unat ?v = k - sent_on cfx1 c" using nl j ci(2) by (simp add: unat_sub)
      obtain w b where s: "conflux_send_switch_command send_on_leg chan c ?v = (w, b)" by fastforce
      have l2: "legs cfx2 = legs cfx1" by (simp add: cfx2_def)
      have res: "(chan', cfx', r, closed)
          = (if b then (w, set_leg cfx2 j (\<lambda>l. l\<lparr>last_seq_sent := last_seq_sent (legs cfx2 ! i)\<rparr>), Some c, False)
             else (w, cfx2, None, True))"
        using d m n Some i False j s
        by (simp add: conflux_decide_circ_for_send_def Let_def cfx2_def nl' gj split: bool.splits)
      show ?thesis
      proof (cases b)
        case False
        then have "?v \<ge> 0xffffffff"
          using s by (auto simp: conflux_send_switch_command_def send_on_leg_def trn_cell_conflux_switch_encode_def split: if_splits)
        then have "0xffffffff \<le> k" using v by (simp add: word_le_nat_alt)
        then show ?thesis using False res by simp
      next
        case True
        from send_switch_value [of chan c ?v w] s True obtain p where
          p: "w = chan(c := chan c @ [SWITCH p])" "switch_value p = k - sent_on cfx1 c" using v by auto
        let ?g = "\<lambda>l. l\<lparr>last_seq_sent := last_seq_sent (legs cfx2 ! i)\<rparr>"
        have j2: "conflux_get_leg cfx2 c = Some j" using j by (simp add: cfx2_def conflux_get_leg_def)
        have so: "sent_on (set_leg cfx2 j ?g) = (sent_on cfx1)(c := k)"
          using leg_val_set_leg [OF j2, of ?g last_seq_sent] leg_val_legs [OF l2] ci(2) l2 by simp
        have ids: "leg_ids (set_leg cfx2 j ?g) = leg_ids cfx"
          using 1(2) l2 by (simp add: leg_ids_def [of cfx2] leg_ids_def [of cfx])
        have "sender_ok k (set_leg cfx2 j ?g)"
          using 1(1,2) so ids gj ci(2) by (auto simp: sender_ok_def set_leg_def cfx2_def leg_ids_def)
        moreover have "c \<in> set (leg_ids cfx)" using gj 1(2) by (force simp: leg_ids_def)
        ultimately have "send_rel k chan cfx w (set_leg cfx2 j ?g)"
          using so ids p le leg_val_legs [OF 1(2), of last_seq_sent] unfolding send_rel_def
          by (intro conjI disjI2 exI [of _ c] exI [of _ p]) simp_all
        then show ?thesis using True res gj by (simp add: set_leg_def cfx2_def)
      qed
    qed
  qed
qed

lemma note_sent_ok:
  assumes "sender_ok k cfx" "curr_leg cfx = Some i" "conflux_should_multiplex cmd" "k + 1 < 2 ^ 64"
  defines "c \<equiv> leg_circ (legs cfx ! i)"
  shows "sender_ok (k + 1) (conflux_note_cell_sent cfx c cmd) \<and> leg_ids (conflux_note_cell_sent cfx c cmd) = leg_ids cfx
    \<and> sent_on cfx c = k \<and> sent_on (conflux_note_cell_sent cfx c cmd) = (sent_on cfx)(c := k + 1)"
proof -
  note ci = sender_curr [OF assms(1,2)]
  let ?g = "\<lambda>l. l\<lparr>last_seq_sent := last_seq_sent l + 1\<rparr>"
  have j: "conflux_get_leg cfx c = Some i" using ci(3) by (simp add: c_def)
  have u: "unat (last_seq_sent (legs cfx ! i) + 1) = k + 1" using ci(2) assms(4) by (subst unat_add64) simp_all
  have so: "sent_on (set_leg cfx i ?g) = (sent_on cfx)(c := k + 1)"
    using leg_val_set_leg [OF j, of ?g last_seq_sent] u by simp
  define cfx' where "cfx' = conflux_note_cell_sent cfx c cmd"
  have l: "legs cfx' = legs (set_leg cfx i ?g)" "curr_leg cfx' = Some i"
    using assms(2,3) j by (simp_all add: cfx'_def conflux_note_cell_sent_def Let_def set_leg_def)
  have so': "sent_on cfx' = (sent_on cfx)(c := k + 1)" using leg_val_legs [OF l(1)] so by simp
  have ids: "leg_ids cfx' = leg_ids cfx"
    using l(1) ids_set_leg [of ?g cfx i] by (simp add: leg_ids_def)
  have "sender_ok (k + 1) cfx'"
    using assms(1) so' ids l ci(1,2) u by (auto simp: sender_ok_def set_leg_def le_Suc_eq)
  with so' ids ci(2) j show ?thesis by (simp add: cfx'_def)
qed

lemma update_rtt_ok:
  "sender_ok k cfx \<Longrightarrow> sender_ok k (conflux_update_rtt cfx c rtt) \<and> leg_ids (conflux_update_rtt cfx c rtt) = leg_ids cfx
     \<and> sent_on (conflux_update_rtt cfx c rtt) = sent_on cfx"
proof (cases "conflux_get_leg cfx c")
  case None
  then show "sender_ok k cfx \<Longrightarrow> ?thesis" by (simp add: conflux_update_rtt_def)
next
  case (Some i)
  let ?g = "\<lambda>l. l\<lparr>circ_rtts_usec := rtt\<rparr>"
  assume k: "sender_ok k cfx"
  have so: "sent_on (set_leg cfx i ?g) = sent_on cfx"
    using leg_val_set_leg [OF Some, of ?g last_seq_sent] Some by (auto simp: fun_eq_iff)
  have "sender_ok k (set_leg cfx i ?g)"
    using k so ids_set_leg [of ?g cfx i] get_leg_Some [OF Some] unfolding sender_ok_def
    by (auto simp: set_leg_def nth_list_update split: option.splits)
  with so Some show ?thesis by (simp add: conflux_update_rtt_def)
qed

section \<open>The receiver\<close>

abbreviation seqs :: "conflux \<Rightarrow> nat multiset" where
  "seqs cfx \<equiv> image_mset (\<lambda>x. unat (cm_seq x)) (mset (pq_list (ooo_q cfx)))"

text \<open>The first \<open>d\<close> messages are delivered; the others are waiting in the queue or still to arrive.\<close>

definition receiver_ok :: "relay_msg list \<Rightarrow> nat multiset \<Rightarrow> nat \<Rightarrow> relay_msg list \<Rightarrow> conflux \<Rightarrow> bool" where
  "receiver_ok sent arr d done cfx \<longleftrightarrow>
     unat (last_seq_delivered cfx) = d \<and> d \<le> length sent \<and> done = take d sent
     \<and> smartlist_pqueue_assert_ok conflux_queue_cmp (ooo_q cfx) \<and> length (pq_list (ooo_q cfx)) \<le> INT32_MAX
     \<and> arr + seqs cfx = mset [Suc d..<Suc (length sent)]
     \<and> (\<forall>x \<in> set (pq_list (ooo_q cfx)). cm_msg x = sent ! (unat (cm_seq x) - 1) \<and> length (msg_body (cm_msg x)) < 65536)
     \<and> unat (ooo_q_alloc_cost cfx) = (\<Sum>x\<leftarrow>pq_list (ooo_q cfx). length (msg_body (cm_msg x)) + 40)"

lemma cost_of:
  assumes "length (msg_body (cm_msg m)) < 65536"
  shows "unat (conflux_msg_alloc_cost m) = length (msg_body (cm_msg m)) + 40"
proof -
  have "unat (of_nat n :: 64 word) = n" if "n < 2 ^ 64" for n
    using that by (simp add: unsigned_of_nat take_bit_nat_eq_self)
  then have "unat (of_nat (length (msg_body (cm_msg m)) + 24 + 16) :: 64 word) = length (msg_body (cm_msg m)) + 24 + 16"
    using assms by (simp del: of_nat_add)
  then show ?thesis
    unfolding conflux_msg_alloc_cost_def SIZEOF_CONFLUX_MSG_def SIZEOF_RELAY_MSG_def by (rule trans) simp
qed

lemma receiver_range:
  assumes "receiver_ok sent arr d done cfx" "x \<in> set (pq_list (ooo_q cfx))"
  shows "d < unat (cm_seq x)" "unat (cm_seq x) \<le> length sent"
proof -
  have "unat (cm_seq x) \<in># mset [Suc d..<Suc (length sent)]"
    using assms by (metis (no_types, lifting) imageI receiver_ok_def set_image_mset set_mset_mset union_iff)
  then show "d < unat (cm_seq x)" "unat (cm_seq x) \<le> length sent" by auto
qed

lemma arrival_range:
  assumes "receiver_ok sent arr d done cfx" "k \<in># arr"
  shows "d < k" "k \<le> length sent" "k \<notin># seqs cfx"
proof -
  have e: "arr + seqs cfx = mset [Suc d..<Suc (length sent)]" using assms(1) by (simp add: receiver_ok_def)
  then have "k \<in># mset [Suc d..<Suc (length sent)]" using assms(2) by (metis union_iff)
  then show "d < k" "k \<le> length sent" by auto
  have "count (arr + seqs cfx) k \<le> 1" unfolding e by (simp add: count_mset_0_iff distinct_count_atmost_1 [THEN iffD1])
  moreover have "0 < count arr k" using assms(2) by simp
  ultimately have "count (seqs cfx) k = 0" unfolding count_union by linarith
  then show "k \<notin># seqs cfx" by (simp only: not_in_iff)
qed

lemma sum_list_mset_cost:
  "mset xs = add_mset x (mset ys) \<Longrightarrow> (\<Sum>x\<leftarrow>xs. f x) = (f x :: nat) + (\<Sum>y\<leftarrow>ys. f y)"
  by (metis image_mset_add_mset mset_map sum_mset.add_mset sum_mset_sum_list)

lemma dequeue_some:
  assumes d: "conflux_dequeue_relay_msg total_bytes circ (Some cfx) = Some (cfx', total_bytes', m)"
    and r: "receiver_ok sent arr k done cfx" and "length sent < 2 ^ 64"
  shows "receiver_ok sent arr (Suc k) (done @ [cm_msg m]) cfx' \<and> legs cfx' = legs cfx"
proof -
  let ?q = "ooo_q cfx"
  from d obtain x q where q: "pq_list ?q \<noteq> []" "m = pq_list ?q ! 0" "cm_seq m = last_seq_delivered cfx + 1"
    "smartlist_pqueue_pop conflux_queue_cmp ?q = Some (x, q)"
    "cfx' = cfx\<lparr>ooo_q := q, ooo_q_alloc_cost := ooo_q_alloc_cost cfx - conflux_msg_alloc_cost m, last_seq_delivered := last_seq_delivered cfx + 1\<rparr>"
    by (auto simp: conflux_dequeue_relay_msg_def Let_def split: if_splits option.splits)
  have x: "x = m" using q(1,2,4) by (auto simp: smartlist_pqueue_pop_def Let_def split: if_splits)
  have i: "smartlist_pqueue_assert_ok conflux_queue_cmp ?q \<and> length (pq_list ?q) \<le> INT32_MAX"
    using r by (simp add: receiver_ok_def)
  note p = ooo.heap.items_pop [OF i q(4)] and p' = ooo.heap.inv_pop [OF i q(4)]
  have m: "m \<in> set (pq_list ?q)" using q(1,2) by simp
  note range = receiver_range [OF r m]
  have u: "unat (last_seq_delivered cfx + 1) = Suc k"
    using r range assms(3) by (subst unat_add64) (simp_all add: receiver_ok_def)
  have s: "unat (cm_seq m) = Suc k" using q(3) u by simp
  have kl: "k < length sent" using s range by simp
  have b: "cm_msg m = sent ! k" "length (msg_body (cm_msg m)) < 65536" using r m s by (auto simp: receiver_ok_def)
  have "mset [Suc k..<Suc (length sent)] = add_mset (Suc k) (mset [Suc (Suc k)..<Suc (length sent)])"
    using kl by (simp add: upt_conv_Cons del: upt_Suc)
  then have e: "arr + image_mset (\<lambda>x. unat (cm_seq x)) (mset (pq_list q)) = mset [Suc (Suc k)..<Suc (length sent)]"
    using r p x s by (simp add: receiver_ok_def del: upt_Suc)
  have c: "unat (ooo_q_alloc_cost cfx) = length (msg_body (cm_msg m)) + 40 + (\<Sum>x\<leftarrow>pq_list q. length (msg_body (cm_msg x)) + 40)"
    using r p x sum_list_mset_cost [of "pq_list ?q" m "pq_list q"] by (simp add: receiver_ok_def)
  then have "unat (ooo_q_alloc_cost cfx - conflux_msg_alloc_cost m) = (\<Sum>x\<leftarrow>pq_list q. length (msg_body (cm_msg x)) + 40)"
    using cost_of [OF b(2)] by (subst unat_sub) (simp_all add: word_le_nat_alt)
  moreover have "set (pq_list q) \<subseteq> set (pq_list ?q)" using p by (metis set_mset_add_mset_insert set_mset_mset subset_insertI)
  ultimately show ?thesis using r p' e u b(1) kl unfolding receiver_ok_def q(5)
    by (auto simp: take_Suc_conv_app_nth simp del: upt_Suc)
qed

lemma dequeue_none:
  assumes d: "conflux_dequeue_relay_msg total_bytes circ (Some cfx) = None" "\<not> marked_for_close circ"
    and r: "receiver_ok sent arr k done cfx" and "length sent < 2 ^ 64"
  shows "Suc k \<notin># seqs cfx"
proof
  assume "Suc k \<in># seqs cfx"
  then obtain y where y: "y \<in> set (pq_list (ooo_q cfx))" "unat (cm_seq y) = Suc k" by auto
  let ?q = "ooo_q cfx" let ?m = "pq_list ?q ! 0"
  have ne: "pq_list ?q \<noteq> []" using y by auto
  have i: "smartlist_pqueue_assert_ok conflux_queue_cmp ?q \<and> length (pq_list ?q) \<le> INT32_MAX"
    using r by (simp add: receiver_ok_def)
  obtain x q where q: "smartlist_pqueue_pop conflux_queue_cmp ?q = Some (x, q)"
    using ooo.heap.pop_Some [of ?q] ne by auto
  have x: "x = ?m" using q ne by (auto simp: smartlist_pqueue_pop_def Let_def split: if_splits)
  have "conflux_queue_cmp ?m y \<le> 0" using ooo.heap.least_pop [OF i q] y(1) x by simp
  then have "unat (cm_seq ?m) \<le> Suc k" using y(2) by (auto simp: conflux_queue_cmp_def word_less_nat_alt split: if_splits)
  moreover have "k < unat (cm_seq ?m)" using receiver_range(1) [OF r] ne by simp
  ultimately have "unat (cm_seq ?m) = Suc k" by simp
  moreover have "unat (last_seq_delivered cfx + 1) = Suc k"
    using r receiver_range [OF r y(1)] y(2) assms(4) by (subst unat_add64) (simp_all add: receiver_ok_def)
  ultimately have "cm_seq ?m = last_seq_delivered cfx + 1" by (metis word_unat_eq_iff)
  with d ne q show False by (simp add: conflux_dequeue_relay_msg_def Let_def)
qed

lemma process_queue_ok:
  "receiver_ok sent arr k done cfx \<Longrightarrow> length sent < 2 ^ 64 \<Longrightarrow>
    \<exists>cfx' t k' done'. process_queue hand_over (\<lambda>_. False) total_bytes circ cfx done = (cfx', t, done', 0)
      \<and> receiver_ok sent arr k' done' cfx' \<and> legs cfx' = legs cfx \<and> k \<le> k' \<and> Suc k' \<notin># seqs cfx'"
proof (induction "length (pq_list (ooo_q cfx))" arbitrary: cfx total_bytes k "done" rule: less_induct)
  case less
  let ?c = "circ\<lparr>marked_for_close := False\<rparr>"
  show ?case
  proof (cases "conflux_dequeue_relay_msg total_bytes ?c (Some cfx)")
    case None
    then have "process_queue hand_over (\<lambda>_. False) total_bytes circ cfx done = (cfx, total_bytes, done, 0)"
      by (subst process_queue.simps) simp
    with dequeue_none [OF None _ less.prems] less.prems(1) show ?thesis by auto
  next
    case (Some r)
    obtain cfx1 t1 m where r: "r = (cfx1, t1, m)" by (metis prod_cases3)
    note s = Some [unfolded r]
    have "process_queue hand_over (\<lambda>_. False) total_bytes circ cfx done
        = process_queue hand_over (\<lambda>_. False) t1 circ cfx1 (done @ [cm_msg m])"
      by (subst process_queue.simps) (simp add: s hand_over_def)
    moreover note dequeue_some [OF s less.prems]
    moreover note less.hyps [OF dequeue_shorter [OF s], of "Suc k" "done @ [cm_msg m]" t1]
    ultimately show ?thesis using less.prems(2) by (metis Suc_leD)
  qed
qed

lemma receiver_legs:
  "receiver_ok sent arr d done (set_leg cfx i g) = receiver_ok sent arr d done cfx"
  by (simp add: receiver_ok_def set_leg_def)

text \<open>An arriving message is delivered, kept, or refused because the queue has grown too large.\<close>

lemma process_msg_eq:
  fixes cfx i
  defines "cfx1 \<equiv> set_leg cfx i (\<lambda>l. l\<lparr>last_seq_recv := last_seq_recv l + 1\<rparr>)" and "seq \<equiv> last_seq_recv (legs cfx ! i) + 1"
  assumes l: "conflux_get_leg cfx c = Some i" and v: "conflux_validate_source_hop circ layer_hint"
    and u: "unat seq = k" "unat (last_seq_delivered cfx + 1) = Suc d" "unat (last_seq_delivered cfx) = d" "d < k"
  shows "conflux_process_relay_msg max_oooq total_bytes cfx c circ layer_hint m =
     (if k = Suc d then (cfx1\<lparr>last_seq_delivered := last_seq_delivered cfx1 + 1\<rparr>, total_bytes, None, True)
      else if ooo_q_alloc_cost cfx \<ge> ucast max_oooq then (cfx1, total_bytes, Some END_CIRC_REASON_RESOURCELIMIT, False)
      else (cfx1\<lparr>ooo_q := smartlist_pqueue_add conflux_queue_cmp (ooo_q cfx1) \<lparr>cm_seq = seq, cm_msg = m\<rparr>,
                 ooo_q_alloc_cost := ooo_q_alloc_cost cfx1 + conflux_msg_alloc_cost \<lparr>cm_seq = seq, cm_msg = m\<rparr>\<rparr>,
            total_bytes + conflux_msg_alloc_cost \<lparr>cm_seq = seq, cm_msg = m\<rparr>, None, False))"
proof -
  have w: "last_seq_recv (legs cfx1 ! i) = seq" using get_leg_Some [OF l] by (simp add: cfx1_def seq_def set_leg_def)
  have same: "last_seq_delivered cfx1 = last_seq_delivered cfx" "ooo_q_alloc_cost cfx1 = ooo_q_alloc_cost cfx"
    by (simp_all add: cfx1_def set_leg_def)
  have "seq = last_seq_delivered cfx + 1 \<longleftrightarrow> k = Suc d" using u(1,2) by (metis word_unat_eq_iff)
  moreover have "\<not> seq \<le> last_seq_delivered cfx" using u by (simp add: word_le_nat_alt)
  ultimately show ?thesis
    unfolding conflux_process_relay_msg_def l option.case Let_def cfx1_def [symmetric] w same if_not_P [OF v [THEN not_not [THEN iffD2]]]
    by simp
qed

lemma deliver_now:
  assumes r: "receiver_ok sent (add_mset (Suc d) arr) d done cfx" and "d < length sent" "length sent < 2 ^ 64" "m = sent ! d"
  shows "receiver_ok sent arr (Suc d) (done @ [m]) (cfx\<lparr>last_seq_delivered := last_seq_delivered cfx + 1\<rparr>)"
proof -
  have "mset [Suc d..<Suc (length sent)] = add_mset (Suc d) (mset [Suc (Suc d)..<Suc (length sent)])"
    using assms(2) by (simp add: upt_conv_Cons del: upt_Suc)
  moreover have "unat (last_seq_delivered cfx + 1) = Suc d"
    using r assms(2,3) by (subst unat_add64) (simp_all add: receiver_ok_def)
  ultimately show ?thesis using assms unfolding receiver_ok_def
    by (auto simp: take_Suc_conv_app_nth simp del: upt_Suc)
qed

lemma keep:
  assumes r: "receiver_ok sent (add_mset k arr) d done cfx" and "unat seq = k" "m = sent ! (k - 1)" "length (msg_body m) < 65536"
    and cost: "unat (ooo_q_alloc_cost cfx) < 2 ^ 32"
  defines "x \<equiv> \<lparr>cm_seq = seq, cm_msg = m\<rparr>"
  defines "cfx' \<equiv> cfx\<lparr>ooo_q := smartlist_pqueue_add conflux_queue_cmp (ooo_q cfx) x, ooo_q_alloc_cost := ooo_q_alloc_cost cfx + conflux_msg_alloc_cost x\<rparr>"
  shows "receiver_ok sent arr d done cfx' \<and> seqs cfx' = add_mset k (seqs cfx)"
proof -
  note range = arrival_range [OF r, of k, simplified]
  have "40 * length xs \<le> (\<Sum>x\<leftarrow>xs. length (msg_body (cm_msg x)) + 40)" for xs
    by (induction xs) simp_all
  then have "40 * length (pq_list (ooo_q cfx)) \<le> unat (ooo_q_alloc_cost cfx)" using r unfolding receiver_ok_def by metis
  then have len: "length (pq_list (ooo_q cfx)) < INT32_MAX" using cost by simp
  have i: "smartlist_pqueue_assert_ok conflux_queue_cmp (ooo_q cfx) \<and> length (pq_list (ooo_q cfx)) \<le> INT32_MAX"
    using r by (simp add: receiver_ok_def)
  have "x \<notin> set (pq_list (ooo_q cfx))" using range(3) assms(2) unfolding x_def by (auto simp: image_iff)
  then have i2: "smartlist_pqueue_assert_ok conflux_queue_cmp (ooo_q cfx')" "length (pq_list (ooo_q cfx')) \<le> INT32_MAX"
    using ooo.heap.inv_add [OF i, of x] len by (simp_all add: cfx'_def)
  have ms: "mset (pq_list (ooo_q cfx')) = add_mset x (mset (pq_list (ooo_q cfx)))"
    using ooo.heap.items_add [of "ooo_q cfx" x] by (simp add: cfx'_def)
  then have st: "set (pq_list (ooo_q cfx')) = insert x (set (pq_list (ooo_q cfx)))"
    by (metis set_mset_add_mset_insert set_mset_mset)
  have xc: "unat (conflux_msg_alloc_cost x) = length (msg_body m) + 40" using cost_of [of x] assms(4) by (simp add: x_def)
  then have "unat (ooo_q_alloc_cost cfx') = unat (ooo_q_alloc_cost cfx) + (length (msg_body m) + 40)"
    using cost assms(4) unfolding cfx'_def by (simp add: unat_add64)
  then have "unat (ooo_q_alloc_cost cfx') = (\<Sum>x\<leftarrow>pq_list (ooo_q cfx'). length (msg_body (cm_msg x)) + 40)"
    using r sum_list_mset_cost [OF ms, of "\<lambda>x. length (msg_body (cm_msg x)) + 40"] by (simp add: receiver_ok_def x_def)
  moreover have sq: "seqs cfx' = add_mset k (seqs cfx)" using ms assms(2) by (simp add: x_def)
  moreover have "arr + seqs cfx' = mset [Suc d..<Suc (length sent)]" using r sq by (simp add: receiver_ok_def del: upt_Suc)
  moreover have "\<forall>x \<in> set (pq_list (ooo_q cfx')). cm_msg x = sent ! (unat (cm_seq x) - 1) \<and> length (msg_body (cm_msg x)) < 65536"
    using r assms(2-4) unfolding st receiver_ok_def x_def by auto
  moreover have "last_seq_delivered cfx' = last_seq_delivered cfx" by (simp add: cfx'_def)
  ultimately show ?thesis using r i2 unfolding receiver_ok_def by auto
qed

lemma process_cell_ok:
  assumes r: "receiver_ok sent (add_mset k arr) d done cfx" and l: "conflux_get_leg cfx c = Some i"
    and k: "recv_on cfx c + 1 = k" and m: "m = sent ! (k - 1)" "length (msg_body m) < 65536" "conflux_should_multiplex (msg_command m)"
    and v: "conflux_validate_source_hop circ layer_hint" and s: "length sent < 2 ^ 64" and n: "Suc d \<notin># seqs cfx"
  shows "\<exists>cfx' t reason done'. process_relay_cell hand_over (\<lambda>_. False) max_oooq total_bytes (Some cfx) c circ layer_hint m done
      = (Some cfx', t, reason, done', 0)
    \<and> (case reason of
         Some e \<Rightarrow> e = END_CIRC_REASON_RESOURCELIMIT \<and> ucast max_oooq \<le> ooo_q_alloc_cost cfx
       | None \<Rightarrow> \<exists>d'. receiver_ok sent arr d' done' cfx' \<and> d \<le> d' \<and> Suc d' \<notin># seqs cfx'
           \<and> leg_ids cfx' = leg_ids cfx \<and> recv_on cfx' = (recv_on cfx)(c := k))"
proof -
  let ?g = "\<lambda>l. l\<lparr>last_seq_recv := last_seq_recv l + 1\<rparr>" and ?seq = "last_seq_recv (legs cfx ! i) + 1"
  define cfx1 where "cfx1 = set_leg cfx i ?g"
  note range = arrival_range [OF r, of k, simplified]
  have u: "unat ?seq = k" using k l range(2) s by (subst unat_add64) simp_all
  have ro: "recv_on cfx1 = (recv_on cfx)(c := k)" using leg_val_set_leg [OF l, of ?g last_seq_recv] u by (simp add: cfx1_def)
  have ids: "leg_ids cfx1 = leg_ids cfx" by (simp add: cfx1_def)
  have r1: "receiver_ok sent (add_mset k arr) d done cfx1" using r by (simp add: cfx1_def receiver_legs)
  have same: "ooo_q cfx1 = ooo_q cfx" "ooo_q_alloc_cost cfx1 = ooo_q_alloc_cost cfx" by (simp_all add: cfx1_def set_leg_def)
  have dl: "d < length sent" using range by simp
  have d0: "unat (last_seq_delivered cfx) = d" using r by (simp add: receiver_ok_def)
  have ud: "unat (last_seq_delivered cfx + 1) = Suc d" using d0 dl s by (subst unat_add64) simp_all
  note pm = process_msg_eq [OF l v u ud d0 range(1), of max_oooq total_bytes m, folded cfx1_def]
  have keeps: "leg_ids cfx' = leg_ids cfx \<and> recv_on cfx' = (recv_on cfx)(c := k)" if "legs cfx' = legs cfx1" for cfx'
    using that ids ro leg_val_legs [OF that, of last_seq_recv] by (simp add: leg_ids_def)
  show ?thesis
  proof (cases "k = Suc d")
    case True
    define cfx2 where "cfx2 = cfx1\<lparr>last_seq_delivered := last_seq_delivered cfx1 + 1\<rparr>"
    have r2: "receiver_ok sent arr (Suc d) (done @ [m]) cfx2"
      unfolding cfx2_def by (rule deliver_now) (use r1 True dl s m(1) in simp_all)
    from process_queue_ok [OF r2 s, of total_bytes circ] obtain cfx' t k' done' where
      p: "process_queue hand_over (\<lambda>_. False) total_bytes circ cfx2 (done @ [m]) = (cfx', t, done', 0)"
        "receiver_ok sent arr k' done' cfx'" "legs cfx' = legs cfx2" "Suc d \<le> k'" "Suc k' \<notin># seqs cfx'" by blast
    have "process_relay_cell hand_over (\<lambda>_. False) max_oooq total_bytes (Some cfx) c circ layer_hint m done = (Some cfx', t, None, done', 0)"
      unfolding process_relay_cell_def option.case pm if_P [OF True] cfx2_def [symmetric] using m(3) p(1) by (simp add: hand_over_def)
    moreover have "legs cfx' = legs cfx1" using p(3) by (simp add: cfx2_def)
    ultimately show ?thesis using p(2,4,5) keeps [of cfx'] by (auto intro!: exI [of _ k'])
  next
    case False
    show ?thesis
    proof (cases "ooo_q_alloc_cost cfx \<ge> ucast max_oooq")
      case True
      have "process_relay_cell hand_over (\<lambda>_. False) max_oooq total_bytes (Some cfx) c circ layer_hint m done
          = (Some cfx1, total_bytes, Some END_CIRC_REASON_RESOURCELIMIT, done, 0)"
        unfolding process_relay_cell_def option.case pm if_not_P [OF False] if_P [OF True] using m(3) by simp
      with True show ?thesis by auto
    next
      case ok: False
      have cost: "unat (ooo_q_alloc_cost cfx1) < 2 ^ 32"
        using ok same(2) unat_lt32 [of max_oooq] by (simp add: word_less_nat_alt not_le unat_ucast64_32)
      let ?x = "\<lparr>cm_seq = ?seq, cm_msg = m\<rparr>"
      define cfx2 where "cfx2 = cfx1\<lparr>ooo_q := smartlist_pqueue_add conflux_queue_cmp (ooo_q cfx1) ?x,
        ooo_q_alloc_cost := ooo_q_alloc_cost cfx1 + conflux_msg_alloc_cost ?x\<rparr>"
      note kp = keep [OF r1 u m(1,2) cost, folded cfx2_def]
      have "Suc d \<notin># seqs cfx2" using n kp same(1) False by auto
      moreover have p: "process_relay_cell hand_over (\<lambda>_. False) max_oooq total_bytes (Some cfx) c circ layer_hint m done
          = (Some cfx2, total_bytes + conflux_msg_alloc_cost ?x, None, done, 0)"
        unfolding process_relay_cell_def option.case pm if_not_P [OF False] if_not_P [OF ok] cfx2_def [symmetric] using m(3) by simp
      moreover have "legs cfx2 = legs cfx1" by (simp add: cfx2_def)
      ultimately have "\<exists>d'. receiver_ok sent arr d' done cfx2 \<and> d \<le> d' \<and> Suc d' \<notin># seqs cfx2
           \<and> leg_ids cfx2 = leg_ids cfx \<and> recv_on cfx2 = (recv_on cfx)(c := k)"
        using kp keeps [of cfx2] by blast
      with p show ?thesis
        by (intro exI [of _ cfx2] exI [of _ "total_bytes + conflux_msg_alloc_cost ?x"] exI [of _ None] exI [of _ "done"])
          (simp only: option.case)
    qed
  qed
qed

section \<open>The invariant\<close>

definition in_flight :: "conflux_net \<Rightarrow> nat multiset" where
  "in_flight n = (\<Sum>c \<in> set (leg_ids (cn_recv n)). mset (map fst (arrivals (recv_on (cn_recv n) c) (cn_chan n c))))"

definition legs_ok :: "relay_msg list \<Rightarrow> conflux \<Rightarrow> conflux \<Rightarrow> (nat \<Rightarrow> leg_cell list) \<Rightarrow> bool" where
  "legs_ok sent sfx rcv chan \<longleftrightarrow>
     distinct (leg_ids rcv) \<and> set (leg_ids rcv) = set (leg_ids sfx) \<and> (\<forall>c. c \<notin> set (leg_ids sfx) \<longrightarrow> chan c = [])
     \<and> (\<forall>c. leg_end (recv_on rcv c) (chan c) = sent_on sfx c)
     \<and> (\<forall>c. \<forall>(k, m) \<in> set (arrivals (recv_on rcv c) (chan c)). m = sent ! (k - 1))"

definition net_inv :: "conflux_net \<Rightarrow> bool" where
  "net_inv n \<longleftrightarrow>
     sender_ok (length (cn_sent n)) (cn_send n) \<and> length (cn_sent n) < 2 ^ 64
     \<and> (\<forall>m \<in> set (cn_sent n). length (msg_body m) < 65536 \<and> conflux_should_multiplex (msg_command m))
     \<and> legs_ok (cn_sent n) (cn_send n) (cn_recv n) (cn_chan n)
     \<and> (\<exists>d. receiver_ok (cn_sent n) (in_flight n) d (cn_done n) (cn_recv n) \<and> Suc d \<notin># seqs (cn_recv n))"

lemma send_rel_legs:
  assumes "send_rel k chan cfx chan' cfx'" "legs_ok sent cfx rcv chan"
  shows "legs_ok sent cfx' rcv chan' \<and> (\<forall>c. arrivals (recv_on rcv c) (chan' c) = arrivals (recv_on rcv c) (chan c))"
  using assms(1) unfolding send_rel_def
proof (elim conjE disjE exE)
  assume "chan' = chan" "sent_on cfx' = sent_on cfx" "leg_ids cfx' = leg_ids cfx"
  with assms(2) show ?thesis by (simp add: legs_ok_def)
next
  fix c p
  assume a: "leg_ids cfx' = leg_ids cfx" "c \<in> set (leg_ids cfx)" "chan' = chan(c := chan c @ [SWITCH p])"
    "sent_on cfx c + switch_value p = k" "sent_on cfx' = (sent_on cfx)(c := k)"
  have e: "arrivals (recv_on rcv d) (chan' d) = arrivals (recv_on rcv d) (chan d)" for d using a(3) by simp
  have "leg_end (recv_on rcv d) (chan' d) = sent_on cfx' d" for d
    using assms(2) a by (simp add: legs_ok_def)
  with e assms(2) a(1,2,3) show ?thesis by (auto simp: legs_ok_def)
qed

lemma receiver_more:
  assumes "receiver_ok sent arr d done cfx"
  shows "receiver_ok (sent @ [m]) (add_mset (Suc (length sent)) arr) d done cfx"
proof -
  have "mset [Suc d..<Suc (length (sent @ [m]))] = add_mset (Suc (length sent)) (mset [Suc d..<Suc (length sent)])"
    using assms by (simp add: receiver_ok_def)
  moreover have "cm_msg x = (sent @ [m]) ! (unat (cm_seq x) - 1)" if "x \<in> set (pq_list (ooo_q cfx))" for x
    using receiver_range [OF assms that] assms that by (simp add: nth_append receiver_ok_def)
  ultimately show ?thesis using assms unfolding receiver_ok_def by (auto simp del: upt_Suc)
qed

lemma sum_update:
  fixes f :: "'a \<Rightarrow> 'b \<Rightarrow> 'c :: comm_monoid_add"
  assumes "finite A" "a \<in> A"
  shows "(\<Sum>x\<in>A. g x) = g a + (\<Sum>x\<in>A - {a}. g x)" "(\<Sum>x\<in>A. (g(a := v)) x) = v + (\<Sum>x\<in>A - {a}. g x)"
proof -
  show "(\<Sum>x\<in>A. g x) = g a + (\<Sum>x\<in>A - {a}. g x)" using assms by (rule sum.remove)
  have "(\<Sum>x\<in>A - {a}. (g(a := v)) x) = (\<Sum>x\<in>A - {a}. g x)" by (rule sum.cong) auto
  then show "(\<Sum>x\<in>A. (g(a := v)) x) = v + (\<Sum>x\<in>A - {a}. g x)" using sum.remove [OF assms, of "g(a := v)"] by simp
qed

text \<open>What a change of one leg does to the messages on the way.\<close>

lemma in_flight_change:
  assumes "c \<in> set (leg_ids (cn_recv n))" "leg_ids (cn_recv n') = leg_ids (cn_recv n)"
    and "\<And>e. e \<noteq> c \<Longrightarrow> arrivals (recv_on (cn_recv n') e) (cn_chan n' e) = arrivals (recv_on (cn_recv n) e) (cn_chan n e)"
  shows "\<exists>R. in_flight n = mset (map fst (arrivals (recv_on (cn_recv n) c) (cn_chan n c))) + R
    \<and> in_flight n' = mset (map fst (arrivals (recv_on (cn_recv n') c) (cn_chan n' c))) + R"
proof -
  let ?g = "\<lambda>n c. mset (map fst (arrivals (recv_on (cn_recv n) c) (cn_chan n c)))"
  have "?g n' = (?g n)(c := ?g n' c)" using assms(3) by (auto simp: fun_eq_iff)
  then have "in_flight n' = (\<Sum>x \<in> set (leg_ids (cn_recv n)). ((?g n)(c := ?g n' c)) x)"
    unfolding in_flight_def assms(2) by (simp only:)
  with sum_update(1) [of "set (leg_ids (cn_recv n))" c "?g n"] sum_update(2) [of "set (leg_ids (cn_recv n))" c "?g n" "?g n' c"] assms(1)
  show ?thesis unfolding in_flight_def by (intro exI [of _ "\<Sum>x \<in> set (leg_ids (cn_recv n)) - {c}. ?g n x"]) simp
qed

lemma send_inv:
  assumes i: "net_inv n" and m: "conflux_should_multiplex (msg_command m)" "length (msg_body m) < 65536" "length (cn_sent n) + 1 < 2 ^ 64"
    and d: "conflux_decide_circ_for_send send_on_leg drain_pct circs (cn_chan n) (cn_send n) orig (msg_command m)
           = Some (chan, cfx, Some c, False)"
  defines "n' \<equiv> n\<lparr>cn_send := conflux_note_cell_sent cfx c (msg_command m), cn_chan := chan(c := chan c @ [MSG m]), cn_sent := cn_sent n @ [m]\<rparr>"
  shows "net_inv n'"
proof -
  let ?k = "length (cn_sent n)"
  have k: "sender_ok ?k (cn_send n)" using i by (simp add: net_inv_def)
  from decide_ok [OF d k m(1)] obtain j where
    s: "send_rel ?k (cn_chan n) (cn_send n) chan cfx" "curr_leg cfx = Some j" "leg_circ (legs cfx ! j) = c" by auto
  have so: "sender_ok ?k cfx" using s(1) by (simp add: send_rel_def)
  note nt = note_sent_ok [OF so s(2) m(1,3), unfolded s(3)]
  note jc = sender_curr [OF so s(2)]
  have cin: "c \<in> set (leg_ids cfx)" using jc(1) s(3) by (auto simp: leg_ids_def)
  from i have l0: "legs_ok (cn_sent n) (cn_send n) (cn_recv n) (cn_chan n)" by (simp add: net_inv_def)
  from send_rel_legs [OF s(1) l0] have l1: "legs_ok (cn_sent n) cfx (cn_recv n) chan"
    and ar: "\<And>c. arrivals (recv_on (cn_recv n) c) (chan c) = arrivals (recv_on (cn_recv n) c) (cn_chan n c)" by blast+
  have le: "leg_end (recv_on (cn_recv n) c) (chan c) = ?k" using l1 nt by (simp add: legs_ok_def)
  have ac: "arrivals (recv_on (cn_recv n) e) (cn_chan n' e)
      = arrivals (recv_on (cn_recv n) e) (cn_chan n e) @ (if e = c then [(Suc ?k, m)] else [])" for e
    using ar le by (simp add: n'_def)
  from i obtain dd where r: "receiver_ok (cn_sent n) (in_flight n) dd (cn_done n) (cn_recv n)" "Suc dd \<notin># seqs (cn_recv n)"
    by (auto simp: net_inv_def)
  have "c \<in> set (leg_ids (cn_recv n))" using l1 cin by (simp add: legs_ok_def)
  moreover have "arrivals (recv_on (cn_recv n') e) (cn_chan n' e) = arrivals (recv_on (cn_recv n) e) (cn_chan n e)" if "e \<noteq> c" for e
    using ac [of e] that by (simp add: n'_def)
  moreover have "cn_recv n' = cn_recv n" by (simp add: n'_def)
  ultimately obtain R where "in_flight n = mset (map fst (arrivals (recv_on (cn_recv n) c) (cn_chan n c))) + R"
    "in_flight n' = mset (map fst (arrivals (recv_on (cn_recv n) c) (cn_chan n' c))) + R"
    using in_flight_change [of c n n'] by auto
  then have "in_flight n' = add_mset (Suc ?k) (in_flight n)" unfolding ac [of c] by simp
  then have r': "receiver_ok (cn_sent n') (in_flight n') dd (cn_done n') (cn_recv n')"
    using receiver_more [OF r(1)] by (simp add: n'_def)
  have old: "k \<le> ?k" if "(k, mm) \<in> set (arrivals (recv_on (cn_recv n) e) (cn_chan n e))" for k mm e
  proof -
    have "e \<in> set (leg_ids (cn_recv n))" using that l0 by (auto simp: legs_ok_def)
    then have "k \<in># in_flight n" using that unfolding in_flight_def by (auto simp: set_mset_sum intro!: bexI [of _ e]) force
    then show ?thesis using arrival_range(2) [OF r(1)] by blast
  qed
  have "legs_ok (cn_sent n') (cn_send n') (cn_recv n') (cn_chan n')"
  proof -
    have "leg_end (recv_on (cn_recv n) e) (cn_chan n' e) = sent_on (cn_send n') e" for e
      using l1 nt le by (simp add: n'_def legs_ok_def)
    moreover have "mm = cn_sent n' ! (k - 1)" if "(k, mm) \<in> set (arrivals (recv_on (cn_recv n) e) (cn_chan n' e))" for k mm e
    proof (cases "(k, mm) \<in> set (arrivals (recv_on (cn_recv n) e) (cn_chan n e))")
      case True
      then have "mm = cn_sent n ! (k - 1)" using l0 by (auto simp: legs_ok_def)
      moreover have "k - 1 < ?k \<or> k = 0" using old [OF True] by linarith
      moreover have "0 < k" using arrival_pos [OF True] by simp
      ultimately show ?thesis by (auto simp: n'_def nth_append)
    next
      case False
      with that ac [of e] show ?thesis by (auto simp: n'_def split: if_splits)
    qed
    moreover have "cn_recv n' = cn_recv n" "leg_ids (cn_send n') = leg_ids cfx" using nt by (simp_all add: n'_def)
    moreover have "cn_chan n' e = []" if "e \<notin> set (leg_ids cfx)" for e
      using that l1 cin by (auto simp: n'_def legs_ok_def)
    ultimately show ?thesis using l1 unfolding legs_ok_def by auto
  qed
  with i nt r' r(2) m show ?thesis by (auto simp: net_inv_def n'_def)
qed

lemma on_leg:
  assumes "net_inv n" "cn_chan n c \<noteq> []"
  shows "c \<in> set (leg_ids (cn_recv n))" "\<exists>i. conflux_get_leg (cn_recv n) c = Some i"
proof -
  show "c \<in> set (leg_ids (cn_recv n))" using assms by (auto simp: net_inv_def legs_ok_def)
  then show "\<exists>i. conflux_get_leg (cn_recv n) c = Some i"
    by (cases "conflux_get_leg (cn_recv n) c") (simp_all add: get_leg_None)
qed

lemma recv_bound:
  assumes "net_inv n"
  shows "leg_end (recv_on (cn_recv n) c) (cn_chan n c) \<le> length (cn_sent n)" "length (cn_sent n) < 2 ^ 64"
  using assms by (simp_all add: net_inv_def legs_ok_def sender_ok_def)

text \<open>Taking the first cell off a leg, when the receiver's counter moves as the cell says.\<close>

lemma legs_ok_take:
  assumes l: "legs_ok sent sfx rcv chan" and c: "chan c = x # cs" and i: "leg_ids rcv' = leg_ids rcv"
    and r: "recv_on rcv' = (recv_on rcv)(c := leg_end (recv_on rcv c) [x])"
  shows "legs_ok sent sfx rcv' (chan(c := cs))"
proof -
  have e: "chan c = [x] @ cs" using c by simp
  have "leg_end (recv_on rcv' d) ((chan(c := cs)) d) = sent_on sfx d" for d
    using l r unfolding legs_ok_def by (metis e fun_upd_apply leg_end_append)
  moreover have sub: "set (arrivals (recv_on rcv' d) ((chan(c := cs)) d)) \<subseteq> set (arrivals (recv_on rcv d) (chan d))" for d
    using arrivals_append [of "recv_on rcv c" "[x]" cs] e r by (cases "d = c") auto
  moreover have "(chan(c := cs)) d = []" if "d \<notin> set (leg_ids sfx)" for d
    using that l c by (auto simp: legs_ok_def)
  moreover have "\<forall>(k, m) \<in> set (arrivals (recv_on rcv' d) ((chan(c := cs)) d)). m = sent ! (k - 1)" for d
  proof -
    have "\<forall>(k, m) \<in> set (arrivals (recv_on rcv d) (chan d)). m = sent ! (k - 1)" using l by (simp add: legs_ok_def)
    with sub show ?thesis by (blast dest: subsetD)
  qed
  ultimately show ?thesis using l i unfolding legs_ok_def by (intro conjI allI impI) simp_all
qed

lemma switch_inv:
  assumes i: "net_inv n" and c: "cn_chan n c = SWITCH p # cs" and v: "conflux_validate_source_hop circ layer_hint"
  shows "\<exists>cfx circ'. conflux_process_switch_command True (Some (cn_recv n)) c circ layer_hint
           \<lparr>msg_command = RELAY_SWITCH, msg_stream_id = 0, msg_body = p\<rparr> = (Some cfx, circ', None)
     \<and> net_inv (n\<lparr>cn_recv := cfx, cn_chan := (cn_chan n)(c := cs)\<rparr>)"
proof -
  have ne: "cn_chan n c \<noteq> []" using c by simp
  note cl = on_leg [OF i ne]
  then obtain j where j: "conflux_get_leg (cn_recv n) c = Some j" by blast
  let ?m = "\<lparr>msg_command = RELAY_SWITCH, msg_stream_id = 0, msg_body = p\<rparr>"
  let ?g = "\<lambda>l. l\<lparr>last_seq_recv := last_seq_recv l + ucast (conflux_cell_parse_switch ?m)\<rparr>"
  define cfx where "cfx = set_leg (cn_recv n) j ?g"
  define n' where "n' = n\<lparr>cn_recv := cfx, cn_chan := (cn_chan n)(c := cs)\<rparr>"
  have "recv_on (cn_recv n) c + switch_value p \<le> leg_end (recv_on (cn_recv n) c) (cn_chan n c)"
    using c leg_end_mono by simp
  with recv_bound [OF i] have "recv_on (cn_recv n) c + switch_value p < 2 ^ 64" by (metis le_less_trans)
  then have u: "unat (last_seq_recv (legs (cn_recv n) ! j) + ucast (conflux_cell_parse_switch ?m)) = recv_on (cn_recv n) c + switch_value p"
    using j by (subst unat_add64) (simp_all add: switch_value_def unat_ucast64_32)
  have ro: "recv_on cfx = (recv_on (cn_recv n))(c := recv_on (cn_recv n) c + switch_value p)"
    using leg_val_set_leg [OF j, of ?g last_seq_recv] u by (simp add: cfx_def)
  have ids: "leg_ids cfx = leg_ids (cn_recv n)" by (simp add: cfx_def)
  have l0: "legs_ok (cn_sent n) (cn_send n) (cn_recv n) (cn_chan n)" using i by (simp add: net_inv_def)
  have l1: "legs_ok (cn_sent n) (cn_send n) cfx ((cn_chan n)(c := cs))"
    by (rule legs_ok_take [OF l0 c ids]) (simp add: ro)
  have "in_flight n' = in_flight n"
    unfolding in_flight_def by (rule sum.cong) (auto simp: n'_def ids ro c)
  moreover have "seqs cfx = seqs (cn_recv n)" by (simp add: cfx_def set_leg_def)
  ultimately have "net_inv n'"
    using i l1 by (simp add: net_inv_def n'_def receiver_legs cfx_def)
  moreover have "\<exists>circ'. conflux_process_switch_command True (Some (cn_recv n)) c circ layer_hint ?m = (Some cfx, circ', None)"
    using j v by (simp add: conflux_process_switch_command_def Let_def cfx_def)
  ultimately show ?thesis by (auto simp: n'_def)
qed

lemma receive_inv:
  assumes i: "net_inv n" and c: "cn_chan n c = MSG m # cs" and v: "conflux_validate_source_hop circ layer_hint"
  shows "\<exists>cfx t reason done'. process_relay_cell hand_over (\<lambda>_. False) max_oooq (cn_total n) (Some (cn_recv n)) c circ layer_hint m (cn_done n)
      = (Some cfx, t, reason, done', 0)
    \<and> (case reason of
         Some e \<Rightarrow> e = END_CIRC_REASON_RESOURCELIMIT \<and> ucast max_oooq \<le> ooo_q_alloc_cost (cn_recv n)
       | None \<Rightarrow> net_inv (n\<lparr>cn_recv := cfx, cn_chan := (cn_chan n)(c := cs), cn_total := t, cn_done := done'\<rparr>)
                 \<and> prefix (cn_done n) done' \<and> prefix done' (cn_sent n))"
proof -
  have ne: "cn_chan n c \<noteq> []" using c by simp
  note cl = on_leg [OF i ne]
  then obtain j where j: "conflux_get_leg (cn_recv n) c = Some j" by blast
  let ?k = "recv_on (cn_recv n) c + 1"
  have l0: "legs_ok (cn_sent n) (cn_send n) (cn_recv n) (cn_chan n)" using i by (simp add: net_inv_def)
  from i obtain d where r: "receiver_ok (cn_sent n) (in_flight n) d (cn_done n) (cn_recv n)" "Suc d \<notin># seqs (cn_recv n)"
    by (auto simp: net_inv_def)
  define R where "R = (\<Sum>x \<in> set (leg_ids (cn_recv n)) - {c}. mset (map fst (arrivals (recv_on (cn_recv n) x) (cn_chan n x))))"
  have fl: "in_flight n = add_mset ?k (mset (map fst (arrivals ?k cs)) + R)"
    unfolding in_flight_def sum_update(1) [OF finite_set cl(1)] R_def by (simp add: c)
  have "(?k, m) \<in> set (arrivals (recv_on (cn_recv n) c) (cn_chan n c))" by (simp add: c)
  moreover have "\<forall>(k, m) \<in> set (arrivals (recv_on (cn_recv n) c) (cn_chan n c)). m = cn_sent n ! (k - 1)"
    using l0 by (simp add: legs_ok_def)
  ultimately have m: "m = cn_sent n ! (?k - 1)" by blast
  have "?k \<le> length (cn_sent n)" using arrival_range(2) [OF r(1), of ?k] fl by simp
  then have "m \<in> set (cn_sent n)" using m by simp
  then have mm: "length (msg_body m) < 65536" "conflux_should_multiplex (msg_command m)" using i by (auto simp: net_inv_def)
  have S: "length (cn_sent n) < 2 ^ 64" using i by (simp add: net_inv_def)
  from process_cell_ok [OF r(1) [unfolded fl] j refl m mm v S r(2), of max_oooq "cn_total n"]
  obtain cfx t reason done' where
    p: "process_relay_cell hand_over (\<lambda>_. False) max_oooq (cn_total n) (Some (cn_recv n)) c circ layer_hint m (cn_done n) = (Some cfx, t, reason, done', 0)"
    "case reason of Some e \<Rightarrow> e = END_CIRC_REASON_RESOURCELIMIT \<and> ucast max_oooq \<le> ooo_q_alloc_cost (cn_recv n)
       | None \<Rightarrow> \<exists>d'. receiver_ok (cn_sent n) (mset (map fst (arrivals ?k cs)) + R) d' done' cfx \<and> d \<le> d' \<and> Suc d' \<notin># seqs cfx
           \<and> leg_ids cfx = leg_ids (cn_recv n) \<and> recv_on cfx = (recv_on (cn_recv n))(c := ?k)"
    by (elim exE conjE) rule
  show ?thesis
  proof (cases reason)
    case (Some e)
    with p show ?thesis by auto
  next
    case None
    with p(2) obtain d' where d': "receiver_ok (cn_sent n) (mset (map fst (arrivals ?k cs)) + R) d' done' cfx" "d \<le> d'" "Suc d' \<notin># seqs cfx"
      "leg_ids cfx = leg_ids (cn_recv n)" "recv_on cfx = (recv_on (cn_recv n))(c := ?k)" by auto
    define n' where "n' = n\<lparr>cn_recv := cfx, cn_chan := (cn_chan n)(c := cs), cn_total := t, cn_done := done'\<rparr>"
    have l1: "legs_ok (cn_sent n) (cn_send n) cfx ((cn_chan n)(c := cs))"
      by (rule legs_ok_take [OF l0 c d'(4)]) (simp add: d'(5))
    have "(\<Sum>x \<in> set (leg_ids (cn_recv n)) - {c}. mset (map fst (arrivals (recv_on cfx x) ((cn_chan n')x)))) = R"
      unfolding R_def by (rule sum.cong) (auto simp: n'_def d'(5))
    then have "in_flight n' = mset (map fst (arrivals ?k cs)) + R"
      unfolding in_flight_def using sum_update(1) [OF finite_set cl(1), of "\<lambda>x. mset (map fst (arrivals (recv_on cfx x) ((cn_chan n') x)))"]
      by (simp add: n'_def d'(4,5))
    with d'(1,3) l1 i have "net_inv n'" unfolding net_inv_def by (auto simp: n'_def)
    moreover have dn: "cn_done n = take d (cn_sent n)" "done' = take d' (cn_sent n)"
      using r(1) d'(1) unfolding receiver_ok_def by blast+
    then have "cn_done n = take d done'" using d'(2) by (simp add: min_absorb1)
    then have "prefix (cn_done n) done'" "prefix done' (cn_sent n)" using dn(2) by (simp_all only: take_is_prefix)
    ultimately show ?thesis using p(1) None by (auto simp: n'_def)
  qed
qed

lemma conflux_step_inv: "conflux_step max_oooq n n' \<Longrightarrow> net_inv n \<Longrightarrow> net_inv n'"
proof (induction rule: conflux_step.induct)
  case (Send m n drain_pct circs orig chan cfx c)
  show ?case using send_inv [OF Send.prems Send.hyps] .
next
  case (Blocked command drain_pct circs n orig chan cfx)
  have k: "sender_ok (length (cn_sent n)) (cn_send n)" "legs_ok (cn_sent n) (cn_send n) (cn_recv n) (cn_chan n)"
    using Blocked.prems by (simp_all add: net_inv_def)
  from decide_ok [OF Blocked.hyps(2) k(1) Blocked.hyps(1)] have s: "send_rel (length (cn_sent n)) (cn_chan n) (cn_send n) chan cfx" by simp
  from send_rel_legs [OF s k(2)] have "legs_ok (cn_sent n) cfx (cn_recv n) chan"
    "\<And>c. arrivals (recv_on (cn_recv n) c) (chan c) = arrivals (recv_on (cn_recv n) c) (cn_chan n c)" by blast+
  with s Blocked.prems show ?case by (simp add: net_inv_def send_rel_def in_flight_def)
next
  case (Rtt n c rtt)
  then have "sender_ok (length (cn_sent n)) (cn_send n)" by (simp add: net_inv_def)
  from update_rtt_ok [OF this, of c rtt] Rtt show ?case by (auto simp: net_inv_def legs_ok_def in_flight_def)
next
  case (Receive n c m cs circ layer_hint cfx total_bytes ms)
  then show ?case using receive_inv [OF Receive.prems Receive.hyps(1,2), of max_oooq] by auto
next
  case (Receive_Switch n c p cs circ layer_hint cfx circ')
  then show ?case using switch_inv [OF Receive_Switch.prems Receive_Switch.hyps(1,2)] by auto
qed

lemma conflux_steps_inv: "(conflux_step max_oooq)\<^sup>*\<^sup>* n n' \<Longrightarrow> net_inv n \<Longrightarrow> net_inv n'"
  by (induction rule: rtranclp_induct) (auto intro: conflux_step_inv)

section \<open>Draining\<close>

lemma queue_cost:
  assumes "receiver_ok sent arr d done cfx"
  shows "unat (ooo_q_alloc_cost cfx) \<le> (\<Sum>m\<leftarrow>sent. length (msg_body m) + 40)"
proof -
  let ?f = "\<lambda>k. length (msg_body (sent ! (k - 1))) + 40"
  have q: "\<forall>x \<in> set (pq_list (ooo_q cfx)). cm_msg x = sent ! (unat (cm_seq x) - 1)" using assms by (auto simp: receiver_ok_def)
  have "unat (ooo_q_alloc_cost cfx) = (\<Sum>x\<leftarrow>pq_list (ooo_q cfx). length (msg_body (cm_msg x)) + 40)"
    using assms by (simp add: receiver_ok_def)
  also have "\<dots> = (\<Sum>x\<leftarrow>pq_list (ooo_q cfx). ?f (unat (cm_seq x)))"
    by (rule arg_cong [where f = sum_list], rule map_cong) (use q in auto)
  also have "\<dots> = sum_mset (image_mset ?f (seqs cfx))" by (simp add: sum_mset_sum_list [symmetric] image_mset.compositionality comp_def)
  also have "\<dots> \<le> sum_mset (image_mset ?f (arr + seqs cfx))" by simp
  also have "arr + seqs cfx = mset [Suc d..<Suc (length sent)]" using assms by (simp add: receiver_ok_def)
  also have "sum_mset (image_mset ?f (mset [Suc d..<Suc (length sent)])) = (\<Sum>k\<leftarrow>[Suc d..<Suc (length sent)]. ?f k)"
    by (simp only: mset_map [symmetric] sum_mset_sum_list)
  also have "\<dots> = (\<Sum>k\<leftarrow>[d..<length sent]. length (msg_body (sent ! k)) + 40)"
    by (simp only: map_Suc_upt [symmetric] map_map comp_def) simp
  also have "\<dots> = (\<Sum>m\<leftarrow>drop d sent. length (msg_body m) + 40)"
  proof -
    have "map (\<lambda>k. length (msg_body (sent ! k)) + 40) [d..<length sent] = map (\<lambda>m. length (msg_body m) + 40) (drop d sent)"
      by (rule nth_equalityI) simp_all
    then show ?thesis by simp
  qed
  also have "\<dots> \<le> (\<Sum>m\<leftarrow>take d sent @ drop d sent. length (msg_body m) + 40)" unfolding map_append sum_list_append by simp
  finally show ?thesis by simp
qed

lemma all_delivered:
  assumes "net_inv n" "\<forall>c. cn_chan n c = []"
  shows "cn_done n = cn_sent n \<and> pq_list (ooo_q (cn_recv n)) = []"
proof -
  from assms(1) obtain d where d: "receiver_ok (cn_sent n) (in_flight n) d (cn_done n) (cn_recv n)" "Suc d \<notin># seqs (cn_recv n)"
    by (auto simp: net_inv_def)
  have "in_flight n = {#}" using assms(2) by (simp add: in_flight_def)
  with d(1) have e: "seqs (cn_recv n) = mset [Suc d..<Suc (length (cn_sent n))]" by (simp add: receiver_ok_def)
  have "\<not> d < length (cn_sent n)"
  proof
    assume "d < length (cn_sent n)"
    then have "Suc d \<in># mset [Suc d..<Suc (length (cn_sent n))]" by (simp del: upt_Suc)
    with d(2) e show False by simp
  qed
  with d(1) e show ?thesis by (simp add: receiver_ok_def)
qed

lemma prefix_done: "net_inv n \<Longrightarrow> prefix (cn_done n) (cn_sent n)"
  by (auto simp: net_inv_def receiver_ok_def take_is_prefix)

lemma chan_finite: "net_inv n \<Longrightarrow> {c. cn_chan n c \<noteq> []} \<subseteq> set (leg_ids (cn_recv n))"
  using on_leg(1) by blast

definition exit_valid :: circuit where "exit_valid = exit_circuit"

lemma exit_valid_hop: "conflux_validate_source_hop exit_valid None"
  by (simp add: exit_valid_def conflux_validate_source_hop_def conflux_get_destination_hop_def exit_circuit_def
      CIRCUIT_IS_ORIGIN_def CIRCUIT_PURPOSE_OR_MAX_def)

lemma net_inv_ids: "net_inv n \<Longrightarrow> set (leg_ids (cn_recv n)) = set (leg_ids (cn_send n))"
  by (simp add: net_inv_def legs_ok_def)

lemma no_room_problem:
  fixes max_oooq :: "32 word"
  assumes "net_inv n" "(\<Sum>m\<leftarrow>cn_sent n. length (msg_body m) + 40) < unat max_oooq"
  shows "\<not> ucast max_oooq \<le> ooo_q_alloc_cost (cn_recv n)"
proof -
  from assms(1) obtain d where "receiver_ok (cn_sent n) (in_flight n) d (cn_done n) (cn_recv n)" by (auto simp: net_inv_def)
  from queue_cost [OF this] assms(2) have "unat (ooo_q_alloc_cost (cn_recv n)) < unat max_oooq" by (rule le_less_trans)
  then show ?thesis by (simp add: word_le_nat_alt unat_ucast64_32)
qed

lemma receiver_progress:
  assumes i: "net_inv n" and room: "(\<Sum>m\<leftarrow>cn_sent n. length (msg_body m) + 40) < unat max_oooq"
    and c: "cn_chan n c = x # cs"
  shows "\<exists>n1. conflux_step max_oooq n n1 \<and> net_inv n1 \<and> cn_sent n1 = cn_sent n \<and> cn_send n1 = cn_send n \<and> cn_chan n1 = (cn_chan n)(c := cs)"
proof (cases x)
  case (SWITCH p)
  from switch_inv [OF i c [unfolded SWITCH] exit_valid_hop] obtain cfx circ' where
    s: "conflux_process_switch_command True (Some (cn_recv n)) c exit_valid None
       \<lparr>msg_command = RELAY_SWITCH, msg_stream_id = 0, msg_body = p\<rparr> = (Some cfx, circ', None)"
      "net_inv (n\<lparr>cn_recv := cfx, cn_chan := (cn_chan n)(c := cs)\<rparr>)" by blast
  show ?thesis
    by (intro exI [of _ "n\<lparr>cn_recv := cfx, cn_chan := (cn_chan n)(c := cs)\<rparr>"] conjI
        conflux_step.Receive_Switch [OF c [unfolded SWITCH] exit_valid_hop s(1)] s(2)) simp_all
next
  case (MSG m)
  from receive_inv [OF i c [unfolded MSG] exit_valid_hop, of max_oooq] obtain cfx t reason done' where
    r: "process_relay_cell hand_over (\<lambda>_. False) max_oooq (cn_total n) (Some (cn_recv n)) c exit_valid None m (cn_done n) = (Some cfx, t, reason, done', 0)"
      "case reason of Some e \<Rightarrow> e = END_CIRC_REASON_RESOURCELIMIT \<and> ucast max_oooq \<le> ooo_q_alloc_cost (cn_recv n)
       | None \<Rightarrow> net_inv (n\<lparr>cn_recv := cfx, cn_chan := (cn_chan n)(c := cs), cn_total := t, cn_done := done'\<rparr>)
             \<and> prefix (cn_done n) done' \<and> prefix done' (cn_sent n)" by (elim exE conjE) rule
  have e: "reason = None" using r(2) no_room_problem [OF i room] by (cases reason) simp_all
  have n1: "net_inv (n\<lparr>cn_recv := cfx, cn_chan := (cn_chan n)(c := cs), cn_total := t, cn_done := done'\<rparr>)"
    using r(2) by (simp add: e)
  show ?thesis
    by (intro exI [of _ "n\<lparr>cn_recv := cfx, cn_chan := (cn_chan n)(c := cs), cn_total := t, cn_done := done'\<rparr>"] conjI
        conflux_step.Receive [OF c [unfolded MSG] exit_valid_hop r(1) [unfolded e]] n1) simp_all
qed

lemma drains:
  assumes "(\<Sum>m\<leftarrow>cn_sent n. length (msg_body m) + 40) < unat max_oooq"
  shows "net_inv n \<Longrightarrow> \<exists>n'. (conflux_step max_oooq)\<^sup>*\<^sup>* n n' \<and> net_inv n' \<and> cn_sent n' = cn_sent n \<and> (\<forall>c. cn_chan n' c = [])"
  using assms
proof (induction "\<Sum>c \<in> set (leg_ids (cn_send n)). length (cn_chan n c)" arbitrary: n rule: less_induct)
  case less
  show ?case
  proof (cases "\<forall>c. cn_chan n c = []")
    case True
    with less.prems(1) show ?thesis by blast
  next
    case False
    then obtain c x cs where c: "cn_chan n c = x # cs" by (metis list.exhaust)
    have ci: "c \<in> set (leg_ids (cn_send n))" using on_leg(1) [OF less.prems(1)] c net_inv_ids [OF less.prems(1)] by simp
    obtain n1 where s: "conflux_step max_oooq n n1" "net_inv n1" "cn_sent n1 = cn_sent n"
      "cn_send n1 = cn_send n" "cn_chan n1 = (cn_chan n)(c := cs)"
      using receiver_progress [OF less.prems c] by (elim exE conjE) rule
    have "(\<Sum>e \<in> set (leg_ids (cn_send n)). length (((cn_chan n)(c := cs)) e)) < (\<Sum>e \<in> set (leg_ids (cn_send n)). length (cn_chan n e))"
      by (rule sum_strict_mono_ex1) (use ci c in auto)
    then have "(\<Sum>e \<in> set (leg_ids (cn_send n1)). length (cn_chan n1 e)) < (\<Sum>e \<in> set (leg_ids (cn_send n)). length (cn_chan n e))"
      by (simp only: s(4,5))
    from less.hyps [OF this s(2), unfolded s(3), OF less.prems(2)] obtain n' where
      r: "(conflux_step max_oooq)\<^sup>*\<^sup>* n1 n'" "net_inv n'" "cn_sent n' = cn_sent n" "\<forall>c. cn_chan n' c = []"
      by (elim exE conjE) rule
    from converse_rtranclp_into_rtranclp [where r = "conflux_step max_oooq", OF s(1) r(1)] r(2-4) show ?thesis by blast
  qed
qed

section \<open>Properties\<close>

definition new_set :: "conflux \<Rightarrow> bool" where
  "new_set cfx \<longleftrightarrow>
     distinct (leg_ids cfx) \<and> (\<forall>l \<in> set (legs cfx). last_seq_sent l = 0 \<and> last_seq_recv l = 0)
     \<and> pq_list (ooo_q cfx) = [] \<and> ooo_q_alloc_cost cfx = 0 \<and> last_seq_delivered cfx = 0 \<and> curr_leg cfx = None"

definition new_net :: "conflux_net \<Rightarrow> bool" where
  "new_net n \<longleftrightarrow>
     new_set (cn_send n) \<and> new_set (cn_recv n) \<and> set (leg_ids (cn_send n)) = set (leg_ids (cn_recv n))
     \<and> cn_chan n = (\<lambda>_. []) \<and> cn_sent n = [] \<and> cn_done n = []"

lemma new_set_zero:
  assumes "new_set cfx" "\<forall>l \<in> set (legs cfx). f l = 0"
  shows "leg_val f cfx = (\<lambda>_. 0)"
proof
  fix c
  show "leg_val f cfx c = 0"
    using assms(2) get_leg_Some [of cfx c] by (cases "conflux_get_leg cfx c") (auto simp: leg_val_def)
qed

lemma new_net_inv: "new_net n \<Longrightarrow> net_inv n"
  using new_set_zero [of "cn_send n" last_seq_sent] new_set_zero [of "cn_recv n" last_seq_recv]
  by (auto simp: new_net_def net_inv_def new_set_def sender_ok_def legs_ok_def receiver_ok_def in_flight_def
      smartlist_pqueue_assert_ok_def)

text \<open>C1: A conflux set delivers messages in order and only what was sent: in every reachable state, with
  the legs at any relative speed and the sender switching at will, the messages handed to the streams
  are a prefix of the messages that were sent; every SWITCH and every message that arrives is
  accepted, unless the queue of early messages has reached its limit in bytes; and the sender gives
  up only when a leg has missed at least 2^32 - 1 messages.\<close>

theorem conflux_delivers_in_order:
  assumes "new_net n0" "(conflux_step max_oooq)\<^sup>*\<^sup>* n0 n"
  shows "prefix (cn_done n) (cn_sent n)
    \<and> (\<forall>c m cs circ layer_hint. cn_chan n c = MSG m # cs \<and> conflux_validate_source_hop circ layer_hint \<longrightarrow>
        (\<exists>cfx t reason ms. process_relay_cell hand_over (\<lambda>_. False) max_oooq (cn_total n) (Some (cn_recv n)) c circ layer_hint m (cn_done n)
            = (Some cfx, t, reason, ms, 0)
          \<and> (reason = None \<or> reason = Some END_CIRC_REASON_RESOURCELIMIT \<and> ucast max_oooq \<le> ooo_q_alloc_cost (cn_recv n))))
    \<and> (\<forall>c p cs circ layer_hint. cn_chan n c = SWITCH p # cs \<and> conflux_validate_source_hop circ layer_hint \<longrightarrow>
        (\<exists>cfx circ'. conflux_process_switch_command True (Some (cn_recv n)) c circ layer_hint
           \<lparr>msg_command = RELAY_SWITCH, msg_stream_id = 0, msg_body = p\<rparr> = (Some cfx, circ', None)))
    \<and> (\<forall>drain_pct circs orig cmd chan cfx. conflux_should_multiplex cmd
        \<and> conflux_decide_circ_for_send send_on_leg drain_pct circs (cn_chan n) (cn_send n) orig cmd = Some (chan, cfx, None, True)
        \<longrightarrow> 2 ^ 32 - 1 \<le> length (cn_sent n))"
proof (intro conjI allI impI)
  have i: "net_inv n" using conflux_steps_inv [OF assms(2) new_net_inv [OF assms(1)]] .
  show "prefix (cn_done n) (cn_sent n)" by (rule prefix_done [OF i])
  show "\<exists>cfx t reason ms. process_relay_cell hand_over (\<lambda>_. False) max_oooq (cn_total n) (Some (cn_recv n)) c circ layer_hint m (cn_done n)
            = (Some cfx, t, reason, ms, 0)
          \<and> (reason = None \<or> reason = Some END_CIRC_REASON_RESOURCELIMIT \<and> ucast max_oooq \<le> ooo_q_alloc_cost (cn_recv n))"
    if "cn_chan n c = MSG m # cs \<and> conflux_validate_source_hop circ layer_hint" for c m cs circ layer_hint
  proof -
    from that have c: "cn_chan n c = MSG m # cs" "conflux_validate_source_hop circ layer_hint" by simp_all
    from receive_inv [OF i c, of max_oooq] obtain cfx t reason done' where
      r: "process_relay_cell hand_over (\<lambda>_. False) max_oooq (cn_total n) (Some (cn_recv n)) c circ layer_hint m (cn_done n) = (Some cfx, t, reason, done', 0)"
        "case reason of Some e \<Rightarrow> e = END_CIRC_REASON_RESOURCELIMIT \<and> ucast max_oooq \<le> ooo_q_alloc_cost (cn_recv n)
           | None \<Rightarrow> net_inv (n\<lparr>cn_recv := cfx, cn_chan := (cn_chan n)(c := cs), cn_total := t, cn_done := done'\<rparr>)
                 \<and> prefix (cn_done n) done' \<and> prefix done' (cn_sent n)" by (elim exE conjE) rule
    from r(2) have "reason = None \<or> reason = Some END_CIRC_REASON_RESOURCELIMIT \<and> ucast max_oooq \<le> ooo_q_alloc_cost (cn_recv n)"
      by (cases reason) simp_all
    with r(1) show ?thesis by (intro exI conjI)
  qed
  show "\<exists>cfx circ'. conflux_process_switch_command True (Some (cn_recv n)) c circ layer_hint
           \<lparr>msg_command = RELAY_SWITCH, msg_stream_id = 0, msg_body = p\<rparr> = (Some cfx, circ', None)"
    if "cn_chan n c = SWITCH p # cs \<and> conflux_validate_source_hop circ layer_hint" for c p cs circ layer_hint
    using switch_inv [OF i] that by blast
  show "2 ^ 32 - 1 \<le> length (cn_sent n)"
    if "conflux_should_multiplex cmd \<and> conflux_decide_circ_for_send send_on_leg drain_pct circs (cn_chan n) (cn_send n) orig cmd
        = Some (chan, cfx, None, True)" for drain_pct circs orig cmd chan cfx
    using decide_ok [of drain_pct circs "cn_chan n" "cn_send n" orig cmd chan cfx None True] that i by (simp add: net_inv_def)
qed

text \<open>C10: Nothing is lost: as long as all messages fit into the queue of early messages, receiving what
  is on the legs, in any order, ends with every message delivered and nothing queued; and whenever
  the legs are empty, everything that was sent has been delivered exactly once.\<close>

theorem conflux_delivers_all:
  assumes "new_net n0" "(conflux_step max_oooq)\<^sup>*\<^sup>* n0 n"
    and "(\<Sum>m\<leftarrow>cn_sent n. length (msg_body m) + 40) < unat max_oooq"
  shows "(\<exists>n'. (conflux_step max_oooq)\<^sup>*\<^sup>* n n' \<and> cn_sent n' = cn_sent n \<and> cn_done n' = cn_sent n \<and> pq_list (ooo_q (cn_recv n')) = [])
    \<and> ((\<forall>c. cn_chan n c = []) \<longrightarrow> cn_done n = cn_sent n)"
proof -
  have i: "net_inv n" using conflux_steps_inv [OF assms(2) new_net_inv [OF assms(1)]] .
  from drains [OF assms(3) i] obtain n' where "(conflux_step max_oooq)\<^sup>*\<^sup>* n n'" "net_inv n'" "cn_sent n' = cn_sent n" "\<forall>c. cn_chan n' c = []"
    by blast
  with all_delivered [of n'] all_delivered [OF i] show ?thesis by metis
qed

text \<open>A queue of messages.\<close>

inductive fifo_step :: "'m list \<times> 'm list \<Rightarrow> 'm list \<times> 'm list \<Rightarrow> bool" where
  Put: "fifo_step (q, out) (q @ [m], out)"
| Get: "fifo_step (m # q, out) (q, out @ [m])"

definition waiting :: "conflux_net \<Rightarrow> relay_msg list \<times> relay_msg list" where
  "waiting n = (drop (length (cn_done n)) (cn_sent n), cn_done n)"

lemma fifo_gets: "fifo_step\<^sup>*\<^sup>* (xs @ ys, out) (ys, out @ xs)"
proof (induction xs arbitrary: out)
  case (Cons x xs)
  have "fifo_step ((x # xs) @ ys, out) (xs @ ys, out @ [x])" by (simp add: fifo_step.Get)
  with Cons [of "out @ [x]"] show ?case by (simp add: converse_rtranclp_into_rtranclp)
qed simp

text \<open>C11: A conflux set implements a queue: with the messages sent and not yet delivered as its contents,
  every step of the legs, however many, is a step of the queue, some deliveries from its front in
  order, or nothing.\<close>

theorem conflux_refines_queue:
  assumes "new_net n0" "(conflux_step max_oooq)\<^sup>*\<^sup>* n0 n" "conflux_step max_oooq n n'"
  shows "waiting n0 = ([], []) \<and> fifo_step\<^sup>*\<^sup>* (waiting n) (waiting n')"
proof
  show "waiting n0 = ([], [])" using assms(1) by (simp add: new_net_def waiting_def)
  have i: "net_inv n" using conflux_steps_inv [OF assms(2) new_net_inv [OF assms(1)]] .
  show "fifo_step\<^sup>*\<^sup>* (waiting n) (waiting n')"
    using assms(3)
  proof cases
    case (Send m drain_pct circs orig chan cfx c)
    have "length (cn_done n) \<le> length (cn_sent n)" using prefix_done [OF i] by (rule prefix_length_le)
    then have "waiting n' = (fst (waiting n) @ [m], snd (waiting n))" using Send by (simp add: waiting_def)
    then show ?thesis using fifo_step.Put [of "fst (waiting n)" "snd (waiting n)" m] by (simp add: r_into_rtranclp)
  next
    case (Receive c m cs circ layer_hint cfx total_bytes ms)
    from receive_inv [OF i Receive(2,3), of max_oooq] Receive(4) have "prefix (cn_done n) ms" "prefix ms (cn_sent n)" by simp_all
    then obtain xs ys where "ms = cn_done n @ xs" "cn_sent n = cn_done n @ xs @ ys" by (auto simp: prefix_def)
    then show ?thesis using Receive(1) fifo_gets [of xs ys "cn_done n"] by (simp add: waiting_def)
  qed (simp_all add: waiting_def)
qed

section \<open>A set with two legs\<close>

definition demo_leg :: "64 word \<Rightarrow> 64 word \<Rightarrow> nat \<Rightarrow> conflux_leg" where
  "demo_leg k rtt c = \<lparr>last_seq_recv = 0, last_seq_sent = k, circ_rtts_usec = rtt, linked_sent_usec = 0, leg_circ = c\<rparr>"

definition demo_set :: conflux where
  "demo_set = \<lparr>cfx_alg = CONFLUX_ALG_MINRTT, legs = [demo_leg 0 10 1, demo_leg 0 20 2],
     ooo_q = \<lparr>pq_list = [], pq_idx = (\<lambda>_. - 1)\<rparr>, ooo_q_alloc_cost = 0, last_seq_delivered = 0, cells_until_switch = 0,
     curr_leg = None, prev_leg = None, in_full_teardown = False\<rparr>"

definition demo_net :: conflux_net where
  "demo_net = \<lparr>cn_send = demo_set, cn_recv = demo_set, cn_chan = (\<lambda>_. []), cn_total = 0, cn_sent = [], cn_done = []\<rparr>"

definition demo_msg :: relay_msg where
  "demo_msg = \<lparr>msg_command = RELAY_DATA, msg_stream_id = 7, msg_body = ''hello''\<rparr>"

definition demo_sent :: conflux_net where
  "demo_sent = demo_net\<lparr>cn_send := demo_set\<lparr>legs := [demo_leg 1 10 1, demo_leg 0 20 2], curr_leg := Some 0\<rparr>,
     cn_chan := (\<lambda>_. [])(1 := [MSG demo_msg]), cn_sent := [demo_msg]\<rparr>"

lemma exit_ready: "circuit_ready_to_send exit_circuit = Some True"
  by (simp add: circuit_ready_to_send_def circuit_ccontrol_def exit_circuit_def CIRCUIT_IS_ORIGIN_def
      CIRCUIT_PURPOSE_OR_MAX_def exit_cc_def cc_zero_def)

lemma demo_new_net: "new_net demo_net"
  by (simp add: new_net_def new_set_def demo_net_def demo_set_def demo_leg_def leg_ids_def)

lemma demo_decides: "conflux_decide_circ_for_send send_on_leg 0 (\<lambda>_. exit_circuit) (\<lambda>_. []) demo_set 1 RELAY_DATA
    = Some (\<lambda>_. [], demo_set\<lparr>curr_leg := Some 0\<rparr>, Some 1, False)"
  by (simp add: conflux_decide_circ_for_send_def conflux_should_multiplex_def conflux_decide_next_circ_def
      conflux_pick_first_leg_def demo_set_def demo_leg_def conflux_can_switch_def conflux_decide_circ_minrtt_def exit_ready)

lemma demo_noted: "conflux_note_cell_sent (demo_set\<lparr>curr_leg := Some 0\<rparr>) 1 RELAY_DATA
    = demo_set\<lparr>legs := [demo_leg 1 10 1, demo_leg 0 20 2], curr_leg := Some 0\<rparr>"
  by (simp add: conflux_note_cell_sent_def conflux_should_multiplex_def conflux_get_leg_def set_leg_def demo_set_def
      demo_leg_def Let_def)

lemma demo_send: "conflux_step max_oooq demo_net demo_sent"
  using conflux_step.Send [of demo_msg demo_net 0 "\<lambda>_. exit_circuit" 1 "\<lambda>_. []" "demo_set\<lparr>curr_leg := Some 0\<rparr>" 1 max_oooq]
  by (simp add: demo_net_def demo_sent_def demo_msg_def conflux_should_multiplex_def demo_decides [simplified] demo_noted [simplified])

lemma conflux_delivers_in_order_witness:
  "prefix (cn_done demo_sent) (cn_sent demo_sent)"
  using conflux_delivers_in_order [OF demo_new_net r_into_rtranclp, OF demo_send [of 1000]] by blast

lemma conflux_delivers_all_witness:
  "\<exists>n'. (conflux_step 1000)\<^sup>*\<^sup>* demo_sent n' \<and> cn_done n' = [demo_msg]"
  using conflux_delivers_all [OF demo_new_net r_into_rtranclp, OF demo_send [of 1000]]
  by (auto simp: demo_sent_def demo_msg_def)

lemma conflux_refines_queue_witness:
  "fifo_step\<^sup>*\<^sup>* (waiting demo_net) (waiting demo_sent) \<and> fst (waiting demo_sent) = [demo_msg]"
  using conflux_refines_queue [OF demo_new_net rtranclp.rtrancl_refl demo_send [of 1000]]
  by (simp add: waiting_def demo_sent_def demo_net_def)

end
