(* ===== verification/Conflux_Choice.thy ===== *)
theory Conflux_Choice
  imports Conflux
begin

text \<open>
  The choice of a leg for the next message: the three algorithms only ever pick a leg that has room
  in its congestion window, and each picks by round-trip time as its comment promises, the last one
  only on sets of at most two legs.
\<close>

section \<open>The loops\<close>

definition ready :: "(nat \<Rightarrow> circuit) \<Rightarrow> conflux_leg \<Rightarrow> bool" where
  "ready circs l \<longleftrightarrow> circuit_ready_to_send (circs (leg_circ l)) = Some True"

definition sendable_leg :: "(nat \<Rightarrow> circuit) \<Rightarrow> 64 word \<Rightarrow> conflux_leg \<Rightarrow> bool" where
  "sendable_leg circs min_rtt l \<longleftrightarrow> ready circs l \<and> circ_rtts_usec l \<noteq> 0
     \<and> (\<exists>s > 0. cwnd_sendable (circs (leg_circ l)) min_rtt (circ_rtts_usec l) = Some s)"

lemma bind_Some_D: "Option.bind x f = Some y \<Longrightarrow> \<exists>z. x = Some z \<and> f z = Some y"
  by (cases x) simp_all

lemma minrtt_loop_best:
  "minrtt_loop ls m c = (m', c') \<Longrightarrow>
     (m' = m \<and> c' = c \<or> (\<exists>l \<in> set ls. c' = Some (leg_circ l) \<and> m' = circ_rtts_usec l \<and> m' \<noteq> 0 \<and> m' < m))
     \<and> (\<forall>l \<in> set ls. circ_rtts_usec l \<noteq> 0 \<longrightarrow> m' \<le> circ_rtts_usec l) \<and> m' \<le> m"
proof (induction ls arbitrary: m c)
  case (Cons l ls)
  show ?case
  proof (cases "circ_rtts_usec l \<noteq> 0 \<and> circ_rtts_usec l < m")
    case True
    with Cons.prems have "minrtt_loop ls (circ_rtts_usec l) (Some (leg_circ l)) = (m', c')" by simp
    from Cons.IH [OF this] True show ?thesis by (auto intro: order.strict_trans1 order.trans less_imp_le)
  next
    case False
    with Cons.prems have "minrtt_loop ls m c = (m', c')" by (auto split: if_splits)
    from Cons.IH [OF this] False show ?thesis by (auto simp: not_less intro: order.trans)
  qed
qed simp

lemma lowrtt_loop_best:
  "lowrtt_loop circs ls m c = Some c' \<Longrightarrow>
     (c' = c \<and> (\<forall>k \<in> set ls. ready circs k \<and> circ_rtts_usec k \<noteq> 0 \<longrightarrow> m \<le> circ_rtts_usec k))
     \<or> (\<exists>l \<in> set ls. c' = Some (leg_circ l) \<and> ready circs l \<and> circ_rtts_usec l \<noteq> 0 \<and> circ_rtts_usec l < m
        \<and> (\<forall>k \<in> set ls. ready circs k \<and> circ_rtts_usec k \<noteq> 0 \<longrightarrow> circ_rtts_usec l \<le> circ_rtts_usec k))"
proof (induction ls arbitrary: m c)
  case (Cons l ls)
  from Cons.prems obtain r where r: "circuit_ready_to_send (circs (leg_circ l)) = Some r" by (auto dest: bind_Some_D)
  show ?case
  proof (cases "r \<and> circ_rtts_usec l \<noteq> 0 \<and> circ_rtts_usec l < m")
    case True
    with Cons.prems r have "lowrtt_loop circs ls (circ_rtts_usec l) (Some (leg_circ l)) = Some c'" by simp
    from Cons.IH [OF this] True r show ?thesis
      by (elim disjE bexE conjE) (auto simp: ready_def intro: order.strict_trans less_imp_le)
  next
    case False
    with Cons.prems r have "lowrtt_loop circs ls m c = Some c'" by (auto split: if_splits)
    from Cons.IH [OF this] False r show ?thesis by (auto simp: ready_def not_less intro: order.trans less_imp_le)
  qed
qed simp

lemma cwndrtt_loop_last:
  "cwndrtt_loop circs ls m c = Some c' \<Longrightarrow>
     c' = (if filter (sendable_leg circs m) ls = [] then c else Some (leg_circ (last (filter (sendable_leg circs m) ls))))"
proof (induction ls arbitrary: c)
  case (Cons l ls)
  from Cons.prems obtain r where r: "circuit_ready_to_send (circs (leg_circ l)) = Some r" by (auto dest: bind_Some_D)
  show ?case
  proof (cases "sendable_leg circs m l")
    case True
    with Cons.prems r have "cwndrtt_loop circs ls m (Some (leg_circ l)) = Some c'"
      by (auto simp: sendable_leg_def ready_def)
    from Cons.IH [OF this] True show ?thesis by simp
  next
    case False
    with Cons.prems r have "cwndrtt_loop circs ls m c = Some c'"
      by (auto simp: sendable_leg_def ready_def word_neq_0_conv dest!: bind_Some_D split: if_splits)
    from Cons.IH [OF this] False show ?thesis by simp
  qed
qed simp

lemmas decide_defs = conflux_decide_circ_minrtt_def conflux_decide_circ_lowrtt_def conflux_decide_circ_cwndrtt_def

section \<open>The algorithms\<close>

text \<open>What each algorithm's comment promises of the leg \<open>l\<close> that it picks: the leg with the lowest
  round-trip time of all legs, or of those that have room in their congestion window.\<close>

definition best_leg :: "(nat \<Rightarrow> circuit) \<Rightarrow> conflux \<Rightarrow> conflux_leg \<Rightarrow> bool" where
  "best_leg circs cfx l \<longleftrightarrow>
     l \<in> set (legs cfx) \<and> circ_rtts_usec l \<noteq> 0
     \<and> (\<forall>k \<in> set (legs cfx). circ_rtts_usec k \<noteq> 0 \<and> (cfx_alg cfx = CONFLUX_ALG_MINRTT \<or> ready circs k)
          \<longrightarrow> circ_rtts_usec l \<le> circ_rtts_usec k)"

lemma minrtt_best:
  assumes "conflux_decide_circ_minrtt circs cfx = Some (Some c)" "cfx_alg cfx = CONFLUX_ALG_MINRTT"
  shows "\<exists>l. leg_circ l = c \<and> ready circs l \<and> best_leg circs cfx l"
proof -
  obtain m where m: "minrtt_loop (legs cfx) (- 1) None = (m, Some c)" "circuit_ready_to_send (circs c) = Some True"
    using assms(1) by (auto simp: decide_defs dest!: bind_Some_D split: if_splits prod.splits option.splits)
  with minrtt_loop_best [OF m(1)] assms(2) show ?thesis by (auto simp: best_leg_def ready_def)
qed

lemma lowrtt_best:
  assumes "conflux_decide_circ_lowrtt circs cfx = Some (Some c)" "cfx_alg cfx = CONFLUX_ALG_LOWRTT"
  shows "\<exists>l. leg_circ l = c \<and> ready circs l \<and> best_leg circs cfx l"
proof -
  have "lowrtt_loop circs (legs cfx) (- 1) None = Some (Some c)" using assms(1) by (auto simp: decide_defs split: if_splits)
  from lowrtt_loop_best [OF this] assms(2) show ?thesis by (auto simp: best_leg_def)
qed

lemma two_elements:
  assumes "length xs \<le> 2" "a \<in> set xs" "b \<in> set xs" "c \<in> set xs" "a \<noteq> b" "a \<noteq> c"
  shows "b = c"
proof -
  have "card (set xs) \<le> 2" using card_length [of xs] assms(1) by linarith
  moreover have "card {a, b, c} \<le> card (set xs)" using assms(2-4) by (intro card_mono) auto
  ultimately show ?thesis using assms(5,6) by (auto simp: card_insert_if split: if_splits)
qed

lemma cwndrtt_ready:
  assumes "conflux_decide_circ_cwndrtt circs cfx = Some (Some c)" "cfx_alg cfx = CONFLUX_ALG_CWNDRTT"
  shows "\<exists>l \<in> set (legs cfx). leg_circ l = c \<and> ready circs l
     \<and> (length (legs cfx) \<le> 2 \<longrightarrow> best_leg circs cfx l)"
proof -
  obtain m b where m: "minrtt_loop (legs cfx) (- 1) None = (m, b)" by (cases "minrtt_loop (legs cfx) (- 1) None")
  note best = minrtt_loop_best [OF m]
  let ?ls = "filter (sendable_leg circs m) (legs cfx)"
  consider "b = Some c" "circuit_ready_to_send (circs c) = Some True"
    | "cwndrtt_loop circs (legs cfx) m None = Some (Some c)"
      "\<forall>d. b = Some d \<longrightarrow> circuit_ready_to_send (circs d) \<noteq> Some True"
    using assms(1) m by (auto simp: decide_defs dest!: bind_Some_D split: if_splits option.splits)
  then show ?thesis
  proof cases
    case 1
    with best show ?thesis by (auto simp: best_leg_def ready_def)
  next
    case 2
    from cwndrtt_loop_last [OF 2(1)] have l: "?ls \<noteq> []" "leg_circ (last ?ls) = c" by (simp_all split: if_splits)
    then have "last ?ls \<in> {l \<in> set (legs cfx). sendable_leg circs m l}" using last_in_set [of ?ls] unfolding set_filter by simp
    then have s: "last ?ls \<in> set (legs cfx)" "ready circs (last ?ls)" "circ_rtts_usec (last ?ls) \<noteq> 0"
      by (auto simp: sendable_leg_def)
    have "circ_rtts_usec (last ?ls) \<le> circ_rtts_usec k"
      if two: "length (legs cfx) \<le> 2" and k: "k \<in> set (legs cfx)" "circ_rtts_usec k \<noteq> 0" "ready circs k" for k
    proof (cases b)
      case None
      with best have "m = - 1" by auto
      with best k have "circ_rtts_usec k = - 1" using word_order.extremum_unique by auto
      then show ?thesis by simp
    next
      case (Some d)
      with best obtain a where a: "a \<in> set (legs cfx)" "d = leg_circ a" by auto
      with 2(2) Some have "\<not> ready circs a" by (simp add: ready_def)
      with s k a(1) two_elements [OF two a(1) k(1) s(1)] show ?thesis by auto
    qed
    with s assms(2) have "length (legs cfx) \<le> 2 \<longrightarrow> best_leg circs cfx (last ?ls)"
      by (simp add: best_leg_def)
    with s l(2) show ?thesis by blast
  qed
qed

text \<open>C12: No message is sent on a leg without room: a leg that is picked is one of the set and ready to
  send. Unless a switch of legs is still held back, it is also the one that the comment of the
  set's algorithm promises, the lowest round-trip time of all legs (MINRTT) or of the legs that have
  room (LOWRTT, CWNDRTT). For CWNDRTT this is so for the sets of at most two legs that it is made
  for; with three it may pick a slower leg, which \<open>cwndrtt_skips_faster_leg\<close> below shows.\<close>

theorem conflux_choice_ready:
  assumes "conflux_decide_next_circ drain_pct circs cfx = Some (cfx', Some c)"
    and "\<forall>i. curr_leg cfx = Some i \<longrightarrow> i < length (legs cfx)"
  shows "\<not> in_full_teardown cfx \<and> legs cfx' = legs cfx
    \<and> (\<exists>l \<in> set (legs cfx). leg_circ l = c \<and> ready circs l
         \<and> (conflux_can_switch drain_pct circs cfx' = Some True
             \<and> (cfx_alg cfx' = CONFLUX_ALG_CWNDRTT \<longrightarrow> length (legs cfx) \<le> 2)
            \<longrightarrow> best_leg circs cfx' l))"
proof -
  have t: "\<not> in_full_teardown cfx" using assms(1) by (auto simp: conflux_decide_next_circ_def)
  define start where "start = (if curr_leg cfx = None then conflux_pick_first_leg cfx else (cfx, True))"
  obtain cfx1 ok where s: "start = (cfx1, ok)" by (cases start)
  have l1: "legs cfx1 = legs cfx" using s by (auto simp: start_def conflux_pick_first_leg_def split: option.splits if_splits)
  from assms(1) t s have ok: "ok" by (auto simp: conflux_decide_next_circ_def start_def [symmetric] split: bool.splits)
  with assms(1) t s obtain sw where sw: "conflux_can_switch drain_pct circs cfx1 = Some sw"
    by (auto simp: conflux_decide_next_circ_def start_def [symmetric] dest!: bind_Some_D)
  show ?thesis
  proof (cases sw)
    case False
    with sw have "0 < cells_until_switch cfx1" by (auto simp: conflux_can_switch_def split: if_splits)
    then have c1: "cfx1 = cfx" using s by (auto simp: start_def conflux_pick_first_leg_def split: option.splits if_splits)
    from assms(1) t s ok sw False obtain i where "curr_leg cfx1 = Some i" "cfx' = cfx1" "c = leg_circ (legs cfx1 ! i)"
       "circuit_ready_to_send (circs c) = Some True"
      by (auto simp: conflux_decide_next_circ_def start_def [symmetric] dest!: bind_Some_D split: if_splits)
    with c1 assms(2) t sw False show ?thesis by (auto simp: ready_def intro!: bexI [of _ "legs cfx ! i"])
  next
    case True
    with assms(1) t s ok sw have c: "cfx' = cfx1" "(case cfx_alg cfx1 of
           CONFLUX_ALG_MINRTT \<Rightarrow> conflux_decide_circ_minrtt circs cfx1
         | CONFLUX_ALG_LOWRTT \<Rightarrow> conflux_decide_circ_lowrtt circs cfx1
         | CONFLUX_ALG_CWNDRTT \<Rightarrow> conflux_decide_circ_cwndrtt circs cfx1) = Some (Some c)"
      by (auto simp: conflux_decide_next_circ_def start_def [symmetric] dest!: bind_Some_D)
    then have "\<exists>l \<in> set (legs cfx1). leg_circ l = c \<and> ready circs l
       \<and> ((cfx_alg cfx1 = CONFLUX_ALG_CWNDRTT \<longrightarrow> length (legs cfx1) \<le> 2) \<longrightarrow> best_leg circs cfx1 l)"
    proof (cases "cfx_alg cfx1")
      case CONFLUX_ALG_MINRTT
      with c(2) minrtt_best [of circs cfx1 c] show ?thesis by (auto simp: best_leg_def)
    next
      case CONFLUX_ALG_LOWRTT
      with c(2) lowrtt_best [of circs cfx1 c] show ?thesis by (auto simp: best_leg_def)
    next
      case CONFLUX_ALG_CWNDRTT
      with c(2) cwndrtt_ready [of circs cfx1 c] show ?thesis by simp
    qed
    with c(1) l1 t show ?thesis by auto
  qed
qed

section \<open>Two and three legs\<close>

definition rtt_leg :: "64 word \<Rightarrow> nat \<Rightarrow> conflux_leg" where
  "rtt_leg rtt c = \<lparr>last_seq_recv = 0, last_seq_sent = 0, circ_rtts_usec = rtt, linked_sent_usec = 0, leg_circ = c\<rparr>"

definition three_legs :: conflux where
  "three_legs = \<lparr>cfx_alg = CONFLUX_ALG_CWNDRTT, legs = [rtt_leg 10 1, rtt_leg 20 2, rtt_leg 30 3],
     ooo_q = \<lparr>pq_list = [], pq_idx = (\<lambda>_. - 1)\<rparr>, ooo_q_alloc_cost = 0, last_seq_delivered = 0, cells_until_switch = 0,
     curr_leg = Some 0, prev_leg = None, in_full_teardown = False\<rparr>"

text \<open>Only the first leg's window is full.\<close>

definition first_full :: "nat \<Rightarrow> circuit" where
  "first_full c = (if c = 1 then exit_circuit\<lparr>ccontrol := Some (exit_cc\<lparr>inflight := cwnd exit_cc\<rparr>)\<rparr> else exit_circuit)"

lemma first_full_simps:
  "circuit_ccontrol (first_full c) = Some (if c = 1 then exit_cc\<lparr>inflight := cwnd exit_cc\<rparr> else exit_cc)"
  "circuit_ready_to_send (first_full c) = Some (c \<noteq> 1)"
  "c \<noteq> 1 \<Longrightarrow> cwnd_sendable (first_full c) m r = Some 124"
  by (simp_all add: circuit_ready_to_send_def circuit_ccontrol_def first_full_def exit_circuit_def CIRCUIT_IS_ORIGIN_def
      CIRCUIT_PURPOSE_OR_MAX_def exit_cc_def cc_zero_def cwnd_sendable_def cwnd_available_def)

lemma three_legs_choice: "conflux_decide_next_circ 0 first_full three_legs = Some (three_legs, Some 3)"
  by (simp add: conflux_decide_next_circ_def conflux_can_switch_def three_legs_def rtt_leg_def decide_defs first_full_simps)

text \<open>The third algorithm does not pick the leg with the lowest round-trip time that has room, as its
  comment says: with the fastest leg full and two legs with room, it sends on the slower one.\<close>

theorem cwndrtt_skips_faster_leg:
  "conflux_decide_next_circ 0 first_full three_legs = Some (three_legs, Some 3)
   \<and> circuit_ready_to_send (first_full 2) = Some True
   \<and> cwnd_sendable (first_full 2) 10 20 = Some 124 \<and> cwnd_sendable (first_full 3) 10 30 = Some 124
   \<and> legs three_legs = [rtt_leg 10 1, rtt_leg 20 2, rtt_leg 30 3]"
  by (simp add: three_legs_choice first_full_simps) (simp add: three_legs_def)

definition two_legs :: conflux where
  "two_legs = three_legs\<lparr>legs := [rtt_leg 10 1, rtt_leg 30 3]\<rparr>"

lemma two_legs_choice: "conflux_decide_next_circ 0 first_full two_legs = Some (two_legs, Some 3)"
  by (simp add: conflux_decide_next_circ_def conflux_can_switch_def two_legs_def three_legs_def rtt_leg_def decide_defs
      first_full_simps)

lemma conflux_choice_ready_witness:
  "\<exists>l \<in> set (legs two_legs). leg_circ l = 3 \<and> ready first_full l \<and> best_leg first_full two_legs l"
  using conflux_choice_ready [OF two_legs_choice]
  by (auto simp: two_legs_def three_legs_def conflux_can_switch_def)

end
