(* ===== verification/Octets.thy ===== *)
theory Octets
  imports Main "HOL-Library.Word"
begin

text \<open>
  Buffers of bytes: \<open>memcpy\<close> into and out of the middle of a buffer, two-byte integers in network
  byte order, and the exclusive or of two buffers.
\<close>

unbundle bit_operations_syntax

type_synonym bytes = "8 word list"

text \<open>\<open>put_bytes off bs buf\<close> is \<open>memcpy (buf + off, bs, n)\<close> for the \<open>n\<close> bytes of \<open>bs\<close>,
  \<open>get_bytes off n buf\<close> the \<open>n\<close> bytes at \<open>buf + off\<close>.\<close>

definition put_bytes :: "nat \<Rightarrow> bytes \<Rightarrow> bytes \<Rightarrow> bytes" where
  "put_bytes off bs buf = take off buf @ bs @ drop (off + length bs) buf"

definition get_bytes :: "nat \<Rightarrow> nat \<Rightarrow> bytes \<Rightarrow> bytes" where
  "get_bytes off n buf = take n (drop off buf)"

definition put16 :: "16 word \<Rightarrow> bytes" where
  "put16 n = [ucast (drop_bit 8 n), ucast n]"

definition get16 :: "nat \<Rightarrow> bytes \<Rightarrow> 16 word" where
  "get16 off buf = push_bit 8 (ucast (buf ! off)) OR ucast (buf ! (off + 1))"

definition xor_bytes :: "bytes \<Rightarrow> bytes \<Rightarrow> bytes" where
  "xor_bytes a b = map2 (XOR) a b"

named_theorems octets "reading what was written into a buffer"

lemma length_put_bytes [octets]: "off + length bs \<le> length buf \<Longrightarrow> length (put_bytes off bs buf) = length buf"
  by (simp add: put_bytes_def)

lemma length_get_bytes [octets]: "off + n \<le> length buf \<Longrightarrow> length (get_bytes off n buf) = n"
  by (simp add: get_bytes_def)

lemma length_put16 [octets]: "length (put16 n) = 2"
  by (simp add: put16_def)

lemma nth_put_bytes [octets]:
  "off + length bs \<le> length buf \<Longrightarrow> i < length buf \<Longrightarrow>
     put_bytes off bs buf ! i = (if i < off \<or> off + length bs \<le> i then buf ! i else bs ! (i - off))"
  by (auto simp: put_bytes_def nth_append min_def)

lemma get_put_same [octets]:
  "off + length bs \<le> length buf \<Longrightarrow> n = length bs \<Longrightarrow> get_bytes off n (put_bytes off bs buf) = bs"
  by (simp add: put_bytes_def get_bytes_def)

lemma get_put_other [octets]:
  assumes "off + length bs \<le> length buf" "o' + n \<le> off \<or> off + length bs \<le> o'" "o' + n \<le> length buf"
  shows "get_bytes o' n (put_bytes off bs buf) = get_bytes o' n buf"
proof (rule nth_equalityI)
  show "length (get_bytes o' n (put_bytes off bs buf)) = length (get_bytes o' n buf)"
    using assms by (simp add: get_bytes_def length_put_bytes)
  fix i
  assume "i < length (get_bytes o' n (put_bytes off bs buf))"
  then have "i < n" by (simp add: get_bytes_def)
  then show "get_bytes o' n (put_bytes off bs buf) ! i = get_bytes o' n buf ! i"
    using assms by (auto simp: get_bytes_def length_put_bytes nth_put_bytes)
qed

lemma put_get_same [octets]: "off + n \<le> length buf \<Longrightarrow> put_bytes off (get_bytes off n buf) buf = buf"
  by (simp add: put_bytes_def get_bytes_def) (metis add.commute append_take_drop_id drop_drop)

lemma put_put_same [octets]:
  "off + length bs \<le> length buf \<Longrightarrow> length bs' = length bs \<Longrightarrow> put_bytes off bs (put_bytes off bs' buf) = put_bytes off bs buf"
  by (simp add: put_bytes_def)

lemma put16_nth [octets]: "put16 n ! 0 = ucast (drop_bit 8 n)" "put16 n ! Suc 0 = ucast n"
  by (simp_all add: put16_def)

lemma word16_split: "push_bit 8 (ucast (ucast (drop_bit 8 n) :: 8 word)) OR ucast (ucast n :: 8 word) = (n :: 16 word)"
  by (rule bit_word_eqI) (auto simp: bit_simps not_less)

lemma get16_put [octets]:
  "off + 2 \<le> length buf \<Longrightarrow> get16 off (put_bytes off (put16 n) buf) = n"
  by (simp add: get16_def nth_put_bytes length_put16 put16_nth word16_split)

lemma get16_put_other [octets]:
  "off + length bs \<le> length buf \<Longrightarrow> o' + 2 \<le> length buf \<Longrightarrow> o' + 2 \<le> off \<or> off + length bs \<le> o'
     \<Longrightarrow> get16 o' (put_bytes off bs buf) = get16 o' buf"
  by (auto simp: get16_def nth_put_bytes)

lemma length_xor_bytes [simp]: "length (xor_bytes a b) = min (length a) (length b)"
  by (simp add: xor_bytes_def)

lemma nth_xor_bytes [simp]: "i < length a \<Longrightarrow> i < length b \<Longrightarrow> xor_bytes a b ! i = a ! i XOR b ! i"
  by (simp add: xor_bytes_def)

lemma xor_bytes_twice [simp]: "length a \<le> length b \<Longrightarrow> xor_bytes (xor_bytes a b) b = a"
  by (rule nth_equalityI) (simp_all add: min_def xor.assoc)

end
