(* ===== verification/Relay_Msg.thy ===== *)
theory Relay_Msg
  imports Octets "HOL-Library.Monad_Syntax"
begin

text \<open>
  Relay messages in cells, src/core/or/relay_msg.c with the tables of relay_msg.h and or.h: the two
  layouts of a relay cell, the encoder and the decoder. The random padding is a function from the
  number of bytes asked for. The body of a decoded message is the part of the cell that the
  message points to, of the decoded length.
\<close>

section \<open>Cells and messages\<close>

record cell =
  cell_circ_id :: "32 word"
  cell_command :: "8 word"
  cell_payload :: bytes

record relay_message =
  rm_command :: "8 word"
  rm_length :: "16 word"
  rm_stream_id :: "16 word"
  rm_is_relay_early :: bool
  rm_body :: bytes

datatype relay_cell_fmt = RELAY_CELL_FORMAT_V0 | RELAY_CELL_FORMAT_V1

abbreviation CELL_PAYLOAD_SIZE :: nat where "CELL_PAYLOAD_SIZE \<equiv> 509"
abbreviation CELL_RELAY :: "8 word" where "CELL_RELAY \<equiv> 3"
abbreviation CELL_RELAY_EARLY :: "8 word" where "CELL_RELAY_EARLY \<equiv> 9"

abbreviation RELAY_HEADER_SIZE_V0 :: nat where "RELAY_HEADER_SIZE_V0 \<equiv> 11"
abbreviation RELAY_HEADER_SIZE_V1_NO_STREAM_ID :: nat where "RELAY_HEADER_SIZE_V1_NO_STREAM_ID \<equiv> 19"
abbreviation RELAY_HEADER_SIZE_V1_WITH_STREAM_ID :: nat where "RELAY_HEADER_SIZE_V1_WITH_STREAM_ID \<equiv> 21"

abbreviation V0_CMD_OFFSET :: nat where "V0_CMD_OFFSET \<equiv> 0"
abbreviation V0_STREAM_ID_OFFSET :: nat where "V0_STREAM_ID_OFFSET \<equiv> 3"
abbreviation V0_LEN_OFFSET :: nat where "V0_LEN_OFFSET \<equiv> 9"
abbreviation V0_PAYLOAD_OFFSET :: nat where "V0_PAYLOAD_OFFSET \<equiv> 11"
abbreviation V1_CMD_OFFSET :: nat where "V1_CMD_OFFSET \<equiv> 16"
abbreviation V1_LEN_OFFSET :: nat where "V1_LEN_OFFSET \<equiv> 17"
abbreviation V1_STREAM_ID_OFFSET :: nat where "V1_STREAM_ID_OFFSET \<equiv> 19"
abbreviation V1_PAYLOAD_OFFSET_NO_STREAM_ID :: nat where "V1_PAYLOAD_OFFSET_NO_STREAM_ID \<equiv> 19"
abbreviation V1_PAYLOAD_OFFSET_WITH_STREAM_ID :: nat where "V1_PAYLOAD_OFFSET_WITH_STREAM_ID \<equiv> 21"

text \<open>BEGIN, BEGIN_DIR, CONNECTED, DATA, END, RESOLVE, RESOLVED, XOFF and XON name a stream.\<close>

definition relay_cmd_expects_streamid_in_v1 :: "8 word \<Rightarrow> bool" where
  "relay_cmd_expects_streamid_in_v1 relay_command \<longleftrightarrow> relay_command \<in> {1, 13, 4, 2, 3, 11, 12, 43, 44}"

definition is_known_relay_command :: "8 word \<Rightarrow> bool" where
  "is_known_relay_command cmd \<longleftrightarrow>
     cmd \<in> {1, 13, 19, 20, 21, 22, 4, 2, 10, 3, 32, 33, 14, 6, 15, 7, 34, 35, 40, 38, 41, 42, 36, 37, 39, 11, 12, 5, 8, 9, 43, 44}"

definition relay_cell_max_payload_size :: "relay_cell_fmt \<Rightarrow> 8 word \<Rightarrow> nat" where
  "relay_cell_max_payload_size format relay_command =
     (case format of
        RELAY_CELL_FORMAT_V0 \<Rightarrow> CELL_PAYLOAD_SIZE - RELAY_HEADER_SIZE_V0
      | RELAY_CELL_FORMAT_V1 \<Rightarrow>
          if relay_cmd_expects_streamid_in_v1 relay_command
          then CELL_PAYLOAD_SIZE - RELAY_HEADER_SIZE_V1_WITH_STREAM_ID
          else CELL_PAYLOAD_SIZE - RELAY_HEADER_SIZE_V1_NO_STREAM_ID)"

section \<open>Encoding\<close>

definition relay_cell_pad :: "(nat \<Rightarrow> bytes) \<Rightarrow> bytes \<Rightarrow> nat \<Rightarrow> bytes" where
  "relay_cell_pad rng payload end_of_message =
     (let skip = 4 in
      if end_of_message + skip \<ge> CELL_PAYLOAD_SIZE then payload
      else put_bytes (end_of_message + skip) (rng (CELL_PAYLOAD_SIZE - (end_of_message + skip))) payload)"

definition encode_v0_cell :: "(nat \<Rightarrow> bytes) \<Rightarrow> relay_message \<Rightarrow> cell \<Rightarrow> cell option" where
  "encode_v0_cell rng msg cell_out =
     (let maxlen = relay_cell_max_payload_size RELAY_CELL_FORMAT_V0 (rm_command msg);
          len = unat (rm_length msg)
      in if len > maxlen then None
         else let out = cell_payload cell_out;
                  out = put_bytes V0_CMD_OFFSET [rm_command msg] out;
                  out = put_bytes V0_STREAM_ID_OFFSET (put16 (rm_stream_id msg)) out;
                  out = put_bytes V0_LEN_OFFSET (put16 (rm_length msg)) out;
                  out = put_bytes RELAY_HEADER_SIZE_V0 (take len (rm_body msg)) out
              in Some (cell_out\<lparr>cell_payload := relay_cell_pad rng out (RELAY_HEADER_SIZE_V0 + len)\<rparr>))"

definition encode_v1_cell :: "(nat \<Rightarrow> bytes) \<Rightarrow> relay_message \<Rightarrow> cell \<Rightarrow> cell option" where
  "encode_v1_cell rng msg cell_out =
     (let expects_streamid = relay_cmd_expects_streamid_in_v1 (rm_command msg);
          maxlen = relay_cell_max_payload_size RELAY_CELL_FORMAT_V1 (rm_command msg);
          len = unat (rm_length msg)
      in if len > maxlen then None
         else let out = cell_payload cell_out;
                  out = put_bytes V1_CMD_OFFSET [rm_command msg] out;
                  out = put_bytes V1_LEN_OFFSET (put16 (rm_length msg)) out
              in do { (out, payload_offset) \<leftarrow>
                        (if expects_streamid then
                           (if rm_stream_id msg = 0 then None
                            else Some (put_bytes V1_STREAM_ID_OFFSET (put16 (rm_stream_id msg)) out,
                                       V1_PAYLOAD_OFFSET_WITH_STREAM_ID))
                         else
                           (if rm_stream_id msg \<noteq> 0 then None
                            else Some (out, V1_PAYLOAD_OFFSET_NO_STREAM_ID)));
                      let out = put_bytes payload_offset (take len (rm_body msg)) out;
                      Some (cell_out\<lparr>cell_payload := relay_cell_pad rng out (payload_offset + len)\<rparr>) })"

definition relay_msg_encode_cell :: "relay_cell_fmt \<Rightarrow> (nat \<Rightarrow> bytes) \<Rightarrow> relay_message \<Rightarrow> cell option" where
  "relay_msg_encode_cell format rng msg =
     (let cell_out = \<lparr>cell_circ_id = 0,
                      cell_command = (if rm_is_relay_early msg then CELL_RELAY_EARLY else CELL_RELAY),
                      cell_payload = replicate CELL_PAYLOAD_SIZE 0\<rparr>
      in case format of
           RELAY_CELL_FORMAT_V0 \<Rightarrow> encode_v0_cell rng msg cell_out
         | RELAY_CELL_FORMAT_V1 \<Rightarrow> encode_v1_cell rng msg cell_out)"

section \<open>Decoding\<close>

definition decode_v0_cell :: "cell \<Rightarrow> relay_message option" where
  "decode_v0_cell c =
     (let body = cell_payload c;
          len = get16 V0_LEN_OFFSET body
      in if unat len > CELL_PAYLOAD_SIZE - RELAY_HEADER_SIZE_V0 then None
         else Some \<lparr>rm_command = body ! V0_CMD_OFFSET, rm_length = len, rm_stream_id = get16 V0_STREAM_ID_OFFSET body,
                    rm_is_relay_early = (cell_command c = CELL_RELAY_EARLY),
                    rm_body = get_bytes V0_PAYLOAD_OFFSET (unat len) body\<rparr>)"

definition decode_v1_cell :: "cell \<Rightarrow> relay_message option" where
  "decode_v1_cell c =
     (let body = cell_payload c;
          command = body ! V1_CMD_OFFSET
      in if \<not> is_known_relay_command command then None
         else let len = get16 V1_LEN_OFFSET body;
                  (stream_id, payload_offset) =
                    (if relay_cmd_expects_streamid_in_v1 command
                     then (get16 V1_STREAM_ID_OFFSET body, V1_PAYLOAD_OFFSET_WITH_STREAM_ID)
                     else (0, V1_PAYLOAD_OFFSET_NO_STREAM_ID))
              in if unat len > CELL_PAYLOAD_SIZE - payload_offset then None
                 else Some \<lparr>rm_command = command, rm_length = len, rm_stream_id = stream_id,
                            rm_is_relay_early = (cell_command c = CELL_RELAY_EARLY),
                            rm_body = get_bytes payload_offset (unat len) body\<rparr>)"

definition relay_msg_decode_cell_in_place :: "relay_cell_fmt \<Rightarrow> cell \<Rightarrow> relay_message option" where
  "relay_msg_decode_cell_in_place format c =
     (case format of RELAY_CELL_FORMAT_V0 \<Rightarrow> decode_v0_cell c | RELAY_CELL_FORMAT_V1 \<Rightarrow> decode_v1_cell c)"

section \<open>The layouts\<close>

text \<open>Where the encryption puts its own fields: recognized and digest, or the tag.\<close>

definition crypto_field :: "relay_cell_fmt \<Rightarrow> nat \<Rightarrow> bool" where
  "crypto_field format i = (case format of RELAY_CELL_FORMAT_V0 \<Rightarrow> i \<in> {1, 2, 5, 6, 7, 8} | RELAY_CELL_FORMAT_V1 \<Rightarrow> i < 16)"

definition same_message :: "relay_cell_fmt \<Rightarrow> cell \<Rightarrow> cell \<Rightarrow> bool" where
  "same_message format c c' \<longleftrightarrow>
     length (cell_payload c') = CELL_PAYLOAD_SIZE \<and> cell_command c' = cell_command c
     \<and> (\<forall>i < CELL_PAYLOAD_SIZE. \<not> crypto_field format i \<longrightarrow> cell_payload c' ! i = cell_payload c ! i)"

text \<open>What a message must satisfy to be sent in a format.\<close>

definition message_ok :: "relay_cell_fmt \<Rightarrow> relay_message \<Rightarrow> bool" where
  "message_ok format msg \<longleftrightarrow>
     length (rm_body msg) = unat (rm_length msg)
     \<and> unat (rm_length msg) \<le> relay_cell_max_payload_size format (rm_command msg)
     \<and> (format = RELAY_CELL_FORMAT_V1 \<longrightarrow>
          is_known_relay_command (rm_command msg)
          \<and> (relay_cmd_expects_streamid_in_v1 (rm_command msg) \<longleftrightarrow> rm_stream_id msg \<noteq> 0))"

lemma length_pad [octets]:
  "(\<And>n. length (rng n) = n) \<Longrightarrow> length p = CELL_PAYLOAD_SIZE \<Longrightarrow> length (relay_cell_pad rng p e) = CELL_PAYLOAD_SIZE"
  by (simp add: relay_cell_pad_def Let_def length_put_bytes)

lemma get_pad [octets]:
  "(\<And>n. length (rng n) = n) \<Longrightarrow> length p = CELL_PAYLOAD_SIZE \<Longrightarrow> off + n \<le> e \<Longrightarrow> e \<le> CELL_PAYLOAD_SIZE \<Longrightarrow>
     get_bytes off n (relay_cell_pad rng p e) = get_bytes off n p"
  by (simp add: relay_cell_pad_def Let_def get_put_other)

lemma get16_pad [octets]:
  "(\<And>n. length (rng n) = n) \<Longrightarrow> length p = CELL_PAYLOAD_SIZE \<Longrightarrow> off + 2 \<le> e \<Longrightarrow> e \<le> CELL_PAYLOAD_SIZE \<Longrightarrow>
     get16 off (relay_cell_pad rng p e) = get16 off p"
  by (simp add: relay_cell_pad_def Let_def get16_put_other)

lemma nth_pad [octets]:
  "(\<And>n. length (rng n) = n) \<Longrightarrow> length p = CELL_PAYLOAD_SIZE \<Longrightarrow> i < e \<Longrightarrow> e \<le> CELL_PAYLOAD_SIZE \<Longrightarrow>
     relay_cell_pad rng p e ! i = p ! i"
  by (simp add: relay_cell_pad_def Let_def nth_put_bytes)

lemma get_agree:
  assumes "length a = length b" "off + n \<le> length b" "\<And>i. off \<le> i \<Longrightarrow> i < off + n \<Longrightarrow> a ! i = b ! i"
  shows "get_bytes off n a = get_bytes off n b"
  using assms by (intro nth_equalityI) (simp_all add: get_bytes_def)

lemmas encode_defs = relay_msg_encode_cell_def encode_v0_cell_def encode_v1_cell_def message_ok_def relay_cell_max_payload_size_def Let_def

lemma encode_v0:
  assumes "\<And>n. length (rng n) = n" "message_ok RELAY_CELL_FORMAT_V0 msg"
  shows "\<exists>c. relay_msg_encode_cell RELAY_CELL_FORMAT_V0 rng msg = Some c \<and> length (cell_payload c) = CELL_PAYLOAD_SIZE
    \<and> (\<forall>i \<in> {1, 2, 5, 6, 7, 8}. cell_payload c ! i = 0)
    \<and> cell_payload c ! V0_CMD_OFFSET = rm_command msg \<and> get16 V0_STREAM_ID_OFFSET (cell_payload c) = rm_stream_id msg
    \<and> get16 V0_LEN_OFFSET (cell_payload c) = rm_length msg
    \<and> get_bytes V0_PAYLOAD_OFFSET (unat (rm_length msg)) (cell_payload c) = rm_body msg
    \<and> (cell_command c = CELL_RELAY_EARLY \<longleftrightarrow> rm_is_relay_early msg)"
  using assms by (simp add: encode_defs octets)

lemma encode_v1:
  assumes "\<And>n. length (rng n) = n" "message_ok RELAY_CELL_FORMAT_V1 msg"
  defines "s \<equiv> relay_cmd_expects_streamid_in_v1 (rm_command msg)"
  shows "\<exists>c. relay_msg_encode_cell RELAY_CELL_FORMAT_V1 rng msg = Some c \<and> length (cell_payload c) = CELL_PAYLOAD_SIZE
    \<and> (\<forall>i < 16. cell_payload c ! i = 0)
    \<and> cell_payload c ! V1_CMD_OFFSET = rm_command msg \<and> (s \<longrightarrow> get16 V1_STREAM_ID_OFFSET (cell_payload c) = rm_stream_id msg)
    \<and> get16 V1_LEN_OFFSET (cell_payload c) = rm_length msg
    \<and> get_bytes (if s then V1_PAYLOAD_OFFSET_WITH_STREAM_ID else V1_PAYLOAD_OFFSET_NO_STREAM_ID) (unat (rm_length msg)) (cell_payload c)
        = rm_body msg
    \<and> (cell_command c = CELL_RELAY_EARLY \<longleftrightarrow> rm_is_relay_early msg)"
proof (cases s)
  case True
  then have "relay_cmd_expects_streamid_in_v1 (rm_command msg)" "rm_stream_id msg \<noteq> 0" "unat (rm_length msg) \<le> 488"
    "length (rm_body msg) = unat (rm_length msg)"
    using assms(2) by (simp_all add: s_def message_ok_def relay_cell_max_payload_size_def)
  with True assms(1) show ?thesis by (simp add: encode_defs octets)
next
  case False
  then have "\<not> relay_cmd_expects_streamid_in_v1 (rm_command msg)" "rm_stream_id msg = 0" "unat (rm_length msg) \<le> 490"
    "length (rm_body msg) = unat (rm_length msg)"
    using assms(2) by (simp_all add: s_def message_ok_def relay_cell_max_payload_size_def)
  with False assms(1) show ?thesis by (simp add: encode_defs octets)
qed

lemma roundtrip_v0:
  assumes "\<And>n. length (rng n) = n" "message_ok RELAY_CELL_FORMAT_V0 msg"
  shows "\<exists>c. relay_msg_encode_cell RELAY_CELL_FORMAT_V0 rng msg = Some c \<and> length (cell_payload c) = CELL_PAYLOAD_SIZE
    \<and> (\<forall>i < CELL_PAYLOAD_SIZE. crypto_field RELAY_CELL_FORMAT_V0 i \<longrightarrow> cell_payload c ! i = 0)
    \<and> (\<forall>c'. same_message RELAY_CELL_FORMAT_V0 c c' \<longrightarrow> relay_msg_decode_cell_in_place RELAY_CELL_FORMAT_V0 c' = Some msg)"
proof -
  from assms obtain c where c: "relay_msg_encode_cell RELAY_CELL_FORMAT_V0 rng msg = Some c" "length (cell_payload c) = CELL_PAYLOAD_SIZE"
    "\<forall>i \<in> {1, 2, 5, 6, 7, 8}. cell_payload c ! i = 0"
    "cell_payload c ! V0_CMD_OFFSET = rm_command msg" "get16 V0_STREAM_ID_OFFSET (cell_payload c) = rm_stream_id msg"
    "get16 V0_LEN_OFFSET (cell_payload c) = rm_length msg"
    "get_bytes V0_PAYLOAD_OFFSET (unat (rm_length msg)) (cell_payload c) = rm_body msg"
    "cell_command c = CELL_RELAY_EARLY \<longleftrightarrow> rm_is_relay_early msg" using encode_v0 [of rng msg] by metis
  have len: "unat (rm_length msg) \<le> 498" using assms(2) by (simp add: message_ok_def relay_cell_max_payload_size_def)
  have "relay_msg_decode_cell_in_place RELAY_CELL_FORMAT_V0 c' = Some msg" if "same_message RELAY_CELL_FORMAT_V0 c c'" for c'
  proof -
    have p: "length (cell_payload c') = 509" "cell_command c' = cell_command c"
      "\<And>i. i < 509 \<Longrightarrow> i \<notin> {1, 2, 5, 6, 7, 8} \<Longrightarrow> cell_payload c' ! i = cell_payload c ! i"
      using that by (simp_all add: same_message_def crypto_field_def)
    have "get_bytes V0_PAYLOAD_OFFSET (unat (rm_length msg)) (cell_payload c') = rm_body msg"
      using get_agree [of "cell_payload c'" "cell_payload c" 11 "unat (rm_length msg)"] p c(2,7) len by simp
    moreover have "get16 V0_LEN_OFFSET (cell_payload c') = rm_length msg" "get16 V0_STREAM_ID_OFFSET (cell_payload c') = rm_stream_id msg"
      "cell_payload c' ! V0_CMD_OFFSET = rm_command msg"
      using c(4-6) p(3) [of 9] p(3) [of 10] p(3) [of 3] p(3) [of 4] p(3) [of 0] by (simp_all add: get16_def)
    ultimately show ?thesis
      using c(8) p(2) len by (simp add: relay_msg_decode_cell_in_place_def decode_v0_cell_def Let_def)
  qed
  with c show ?thesis by (simp add: crypto_field_def)
qed

lemma roundtrip_v1:
  assumes "\<And>n. length (rng n) = n" "message_ok RELAY_CELL_FORMAT_V1 msg"
  shows "\<exists>c. relay_msg_encode_cell RELAY_CELL_FORMAT_V1 rng msg = Some c \<and> length (cell_payload c) = CELL_PAYLOAD_SIZE
    \<and> (\<forall>i < CELL_PAYLOAD_SIZE. crypto_field RELAY_CELL_FORMAT_V1 i \<longrightarrow> cell_payload c ! i = 0)
    \<and> (\<forall>c'. same_message RELAY_CELL_FORMAT_V1 c c' \<longrightarrow> relay_msg_decode_cell_in_place RELAY_CELL_FORMAT_V1 c' = Some msg)"
proof -
  let ?s = "relay_cmd_expects_streamid_in_v1 (rm_command msg)"
  let ?o = "if ?s then V1_PAYLOAD_OFFSET_WITH_STREAM_ID else V1_PAYLOAD_OFFSET_NO_STREAM_ID"
  from assms obtain c where c: "relay_msg_encode_cell RELAY_CELL_FORMAT_V1 rng msg = Some c"
    "length (cell_payload c) = CELL_PAYLOAD_SIZE" "\<forall>i < 16. cell_payload c ! i = 0"
    "cell_payload c ! V1_CMD_OFFSET = rm_command msg" "?s \<longrightarrow> get16 V1_STREAM_ID_OFFSET (cell_payload c) = rm_stream_id msg"
    "get16 V1_LEN_OFFSET (cell_payload c) = rm_length msg"
    "get_bytes ?o (unat (rm_length msg)) (cell_payload c) = rm_body msg"
    "cell_command c = CELL_RELAY_EARLY \<longleftrightarrow> rm_is_relay_early msg" using encode_v1 [of rng msg] by metis
  have len: "unat (rm_length msg) \<le> 509 - ?o" and ok: "is_known_relay_command (rm_command msg)" "?s \<longleftrightarrow> rm_stream_id msg \<noteq> 0"
    using assms(2) by (auto simp: message_ok_def relay_cell_max_payload_size_def)
  have "relay_msg_decode_cell_in_place RELAY_CELL_FORMAT_V1 c' = Some msg" if "same_message RELAY_CELL_FORMAT_V1 c c'" for c'
  proof -
    have p: "length (cell_payload c') = 509" "cell_command c' = cell_command c"
      "\<And>i. i < 509 \<Longrightarrow> 16 \<le> i \<Longrightarrow> cell_payload c' ! i = cell_payload c ! i"
      using that by (simp_all add: same_message_def crypto_field_def)
    have b: "get_bytes ?o (unat (rm_length msg)) (cell_payload c') = rm_body msg"
      using get_agree [of "cell_payload c'" "cell_payload c" ?o "unat (rm_length msg)"] p c(2,7) len by (simp split: if_splits)
    moreover have "get16 V1_LEN_OFFSET (cell_payload c') = rm_length msg" "?s \<longrightarrow> get16 V1_STREAM_ID_OFFSET (cell_payload c') = rm_stream_id msg"
      "cell_payload c' ! V1_CMD_OFFSET = rm_command msg"
      using c(4-6) p(3) [of 16] p(3) [of 17] p(3) [of 18] p(3) [of 19] p(3) [of 20] by (simp_all add: get16_def)
    ultimately show ?thesis
      using c(8) p(2) len ok
      by (cases ?s) (simp_all add: relay_msg_decode_cell_in_place_def decode_v1_cell_def Let_def)
  qed
  with c show ?thesis by (simp add: crypto_field_def)
qed

text \<open>C8: A message survives the trip through a cell: a well-formed message is encoded, with the fields of
  the encryption left zero, and whatever the encryption writes into those fields, decoding the
  cell gives back the command, the stream, the length, the body and the early flag.\<close>

theorem relay_msg_roundtrip:
  assumes "\<forall>n. length (rng n) = n" "message_ok format msg"
  shows "\<exists>c. relay_msg_encode_cell format rng msg = Some c \<and> length (cell_payload c) = CELL_PAYLOAD_SIZE
    \<and> (\<forall>i < CELL_PAYLOAD_SIZE. crypto_field format i \<longrightarrow> cell_payload c ! i = 0)
    \<and> (\<forall>c'. same_message format c c' \<longrightarrow> relay_msg_decode_cell_in_place format c' = Some msg)"
  using roundtrip_v0 [of rng msg] roundtrip_v1 [of rng msg] assms by (cases format) simp_all

text \<open>C37: Decoding never reads past the cell: of any 509 bytes, the decoder either makes a message whose
  body has exactly the decoded length and fits into the format, or rejects the cell, in the newer
  format also when the command is unknown.\<close>

theorem relay_msg_decode_bounds:
  assumes "length (cell_payload c) = CELL_PAYLOAD_SIZE"
  shows "case relay_msg_decode_cell_in_place format c of
      Some msg \<Rightarrow> length (rm_body msg) = unat (rm_length msg)
        \<and> unat (rm_length msg) \<le> relay_cell_max_payload_size format (rm_command msg)
        \<and> (format = RELAY_CELL_FORMAT_V0 \<or> is_known_relay_command (rm_command msg))
    | None \<Rightarrow> (case format of
        RELAY_CELL_FORMAT_V0 \<Rightarrow> relay_cell_max_payload_size format (cell_payload c ! 0) < unat (get16 9 (cell_payload c))
      | RELAY_CELL_FORMAT_V1 \<Rightarrow> \<not> is_known_relay_command (cell_payload c ! 16)
          \<or> relay_cell_max_payload_size format (cell_payload c ! 16) < unat (get16 17 (cell_payload c)))"
  using assms
  by (cases format)
    (auto simp: relay_msg_decode_cell_in_place_def decode_v0_cell_def decode_v1_cell_def Let_def relay_cell_max_payload_size_def
       get_bytes_def split: if_splits)

section \<open>A message\<close>

definition hello_msg :: relay_message where
  "hello_msg = \<lparr>rm_command = 2, rm_length = 5, rm_stream_id = 7, rm_is_relay_early = False, rm_body = [104, 101, 108, 108, 111]\<rparr>"

lemma hello_ok: "message_ok format hello_msg"
  by (simp add: message_ok_def hello_msg_def relay_cell_max_payload_size_def relay_cmd_expects_streamid_in_v1_def
      is_known_relay_command_def split: relay_cell_fmt.split)

lemma relay_msg_roundtrip_witness:
  "\<exists>c. relay_msg_encode_cell RELAY_CELL_FORMAT_V1 (\<lambda>n. replicate n 0x55) hello_msg = Some c
     \<and> relay_msg_decode_cell_in_place RELAY_CELL_FORMAT_V1 c = Some hello_msg"
  using relay_msg_roundtrip [of "\<lambda>n. replicate n 0x55", OF _ hello_ok [of RELAY_CELL_FORMAT_V1]]
  by (auto simp: same_message_def)

lemma relay_msg_decode_bounds_witness:
  "case relay_msg_decode_cell_in_place RELAY_CELL_FORMAT_V1 \<lparr>cell_circ_id = 0, cell_command = 3, cell_payload = replicate 509 2\<rparr> of
     Some msg \<Rightarrow> length (rm_body msg) \<le> 488 | None \<Rightarrow> True"
  using relay_msg_decode_bounds [of "\<lparr>cell_circ_id = 0, cell_command = 3, cell_payload = replicate 509 2\<rparr>" RELAY_CELL_FORMAT_V1]
  by (auto simp: relay_cell_max_payload_size_def relay_msg_decode_cell_in_place_def decode_v1_cell_def Let_def
      relay_cmd_expects_streamid_in_v1_def split: option.splits if_splits)

end
