(* ===== verification/Tor1_Crypto.thy ===== *)
theory Tor1_Crypto
  imports Relay_Msg
begin

text \<open>
  The layer encryption of the original relay protocol, src/core/crypto/relay_crypto_tor1.c, over the
  stream cipher of src/lib/crypt_ops/aes_openssl.c and the running digests of
  src/lib/crypt_ops/crypto_digest_openssl.c. The primitives of the crypto library are arguments: the
  AES permutation and its inverse under a key, SHA-1, SHA3-256, and the field multiplication of
  polyval. A stream cipher is AES in counter mode at a position of its stream.
\<close>

section \<open>Primitives\<close>

text \<open>\<open>openssl_has_sha3\<close> tells whether the build uses OpenSSL's SHA3.\<close>

record primitives =
  aes_encrypt :: "bytes \<Rightarrow> bytes \<Rightarrow> bytes"
  aes_decrypt :: "bytes \<Rightarrow> bytes \<Rightarrow> bytes"
  sha1 :: "bytes \<Rightarrow> bytes"
  sha3_256 :: "bytes \<Rightarrow> bytes"
  polyval_mult :: "bytes \<Rightarrow> bytes \<Rightarrow> bytes"
  openssl_has_sha3 :: bool

definition primitives_ok :: "primitives \<Rightarrow> bool" where
  "primitives_ok P \<longleftrightarrow>
     (\<forall>k b. length b = 16 \<longrightarrow> length (aes_encrypt P k b) = 16 \<and> length (aes_decrypt P k b) = 16
        \<and> aes_decrypt P k (aes_encrypt P k b) = b \<and> aes_encrypt P k (aes_decrypt P k b) = b)
     \<and> (\<forall>m. length (sha1 P m) = 20) \<and> (\<forall>m. length (sha3_256 P m) = 32)
     \<and> (\<forall>h y. length y = 16 \<longrightarrow> length (polyval_mult P h y) = 16)"

section \<open>The stream cipher\<close>

record aes_cnt_cipher =
  ac_key :: bytes
  ac_iv :: bytes
  ac_pos :: nat

definition be_value :: "bytes \<Rightarrow> nat" where
  "be_value bs = foldl (\<lambda>n b. n * 256 + unat b) 0 bs"

definition be_block :: "nat \<Rightarrow> bytes" where
  "be_block n = map (\<lambda>i. of_nat (n div 256 ^ i)) (rev [0..<16])"

text \<open>The counter runs from the IV, a big-endian number of 16 bytes.\<close>

definition counter_byte :: "primitives \<Rightarrow> aes_cnt_cipher \<Rightarrow> nat \<Rightarrow> 8 word" where
  "counter_byte P c i = aes_encrypt P (ac_key c) (be_block (be_value (ac_iv c) + i div 16)) ! (i mod 16)"

definition aes_new_cipher :: "bytes \<Rightarrow> bytes \<Rightarrow> aes_cnt_cipher" where
  "aes_new_cipher key iv = \<lparr>ac_key = key, ac_iv = iv, ac_pos = 0\<rparr>"

definition aes_cipher_set_key :: "aes_cnt_cipher \<Rightarrow> bytes \<Rightarrow> aes_cnt_cipher" where
  "aes_cipher_set_key c key = \<lparr>ac_key = key, ac_iv = replicate 16 0, ac_pos = 0\<rparr>"

text \<open>The position must be a multiple of the block length.\<close>

definition aes_cipher_set_iv_aligned :: "aes_cnt_cipher \<Rightarrow> bytes \<Rightarrow> aes_cnt_cipher option" where
  "aes_cipher_set_iv_aligned c iv = (if ac_pos c mod 16 = 0 then Some (c\<lparr>ac_iv := iv, ac_pos := 0\<rparr>) else None)"

definition aes_crypt_inplace :: "primitives \<Rightarrow> aes_cnt_cipher \<Rightarrow> bytes \<Rightarrow> aes_cnt_cipher \<times> bytes" where
  "aes_crypt_inplace P c data =
     (c\<lparr>ac_pos := ac_pos c + length data\<rparr>,
      xor_bytes data (map (counter_byte P c) [ac_pos c..<ac_pos c + length data]))"

section \<open>Running digests\<close>

datatype digest_algorithm = DIGEST_SHA1 | DIGEST_SHA3_256

text \<open>What one of these holds is the state of the hash, which stands for the bytes that have gone into it:
  in the object itself for SHA-1 and for the SHA3 of the source (\<open>SHA_CTX\<close>, \<open>keccak_state\<close>), and for
  OpenSSL's SHA3 only the address of an \<open>EVP_MD_CTX\<close>.\<close>

datatype digest_union = SHA_CTX bytes | KECCAK_STATE bytes | EVP_MD_CTX_AT nat

record digest_object =
  dg_algorithm :: digest_algorithm
  dg_d :: digest_union

text \<open>A digest is its object, the bytes that a checkpoint copies, beside the memory of the contexts that
  the object may refer to.\<close>

record crypto_digest =
  dg_object :: digest_object
  dg_memory :: "nat \<Rightarrow> bytes"

abbreviation DIGEST_LEN :: nat where "DIGEST_LEN \<equiv> 20"
abbreviation DIGEST256_LEN :: nat where "DIGEST256_LEN \<equiv> 32"

definition crypto_digest_new_internal :: "primitives \<Rightarrow> digest_algorithm \<Rightarrow> crypto_digest" where
  "crypto_digest_new_internal P alg =
     \<lparr>dg_object = \<lparr>dg_algorithm = alg,
                   dg_d = (case alg of
                             DIGEST_SHA1 \<Rightarrow> SHA_CTX []
                           | DIGEST_SHA3_256 \<Rightarrow> if openssl_has_sha3 P then EVP_MD_CTX_AT 0 else KECCAK_STATE [])\<rparr>,
      dg_memory = (\<lambda>_. [])\<rparr>"

definition crypto_digest_add_bytes :: "crypto_digest \<Rightarrow> bytes \<Rightarrow> crypto_digest" where
  "crypto_digest_add_bytes d data =
     (case dg_d (dg_object d) of
        SHA_CTX st \<Rightarrow> d\<lparr>dg_object := (dg_object d)\<lparr>dg_d := SHA_CTX (st @ data)\<rparr>\<rparr>
      | KECCAK_STATE st \<Rightarrow> d\<lparr>dg_object := (dg_object d)\<lparr>dg_d := KECCAK_STATE (st @ data)\<rparr>\<rparr>
      | EVP_MD_CTX_AT p \<Rightarrow> d\<lparr>dg_memory := (dg_memory d)(p := dg_memory d p @ data)\<rparr>)"

text \<open>What the digest is computed from, in a copy of the state.\<close>

definition dg_bytes :: "crypto_digest \<Rightarrow> bytes" where
  "dg_bytes d = (case dg_d (dg_object d) of SHA_CTX st \<Rightarrow> st | KECCAK_STATE st \<Rightarrow> st | EVP_MD_CTX_AT p \<Rightarrow> dg_memory d p)"

definition crypto_digest_get_digest :: "primitives \<Rightarrow> crypto_digest \<Rightarrow> nat \<Rightarrow> bytes" where
  "crypto_digest_get_digest P d out_len =
     take out_len (case dg_algorithm (dg_object d) of
                     DIGEST_SHA1 \<Rightarrow> sha1 P (dg_bytes d) | DIGEST_SHA3_256 \<Rightarrow> sha3_256 P (dg_bytes d))"

text \<open>The two \<open>memcpy\<close>s, from the object and back to it.\<close>

definition crypto_digest_checkpoint :: "crypto_digest \<Rightarrow> digest_object" where
  "crypto_digest_checkpoint d = dg_object d"

definition crypto_digest_restore :: "crypto_digest \<Rightarrow> digest_object \<Rightarrow> crypto_digest" where
  "crypto_digest_restore d checkpoint = d\<lparr>dg_object := checkpoint\<rparr>"

text \<open>The digests whose state is in the object.\<close>

definition dg_inline :: "crypto_digest \<Rightarrow> bool" where
  "dg_inline d \<longleftrightarrow> (case dg_d (dg_object d) of EVP_MD_CTX_AT p \<Rightarrow> False | _ \<Rightarrow> True)"

lemma digest_add [simp]:
  "dg_bytes (crypto_digest_add_bytes d data) = dg_bytes d @ data"
  "dg_algorithm (dg_object (crypto_digest_add_bytes d data)) = dg_algorithm (dg_object d)"
  "dg_inline (crypto_digest_add_bytes d data) = dg_inline d"
  by (simp_all add: dg_bytes_def dg_inline_def crypto_digest_add_bytes_def split: digest_union.split)

lemma digest_new [simp]:
  "dg_bytes (crypto_digest_new_internal P alg) = []"
  "dg_algorithm (dg_object (crypto_digest_new_internal P alg)) = alg"
  "dg_inline (crypto_digest_new_internal P alg) \<longleftrightarrow> alg = DIGEST_SHA1 \<or> \<not> openssl_has_sha3 P"
  by (simp_all add: dg_bytes_def dg_inline_def crypto_digest_new_internal_def split: digest_union.split digest_algorithm.split)

lemma digest_add_add: "crypto_digest_add_bytes (crypto_digest_add_bytes d a) b = crypto_digest_add_bytes d (a @ b)"
  by (simp add: crypto_digest_add_bytes_def split: digest_union.split)

text \<open>A checkpoint brings back a state in the object, and no other.\<close>

lemma digest_restore:
  "crypto_digest_restore (crypto_digest_add_bytes d data) (crypto_digest_checkpoint d)
    = (if dg_inline d then d else crypto_digest_add_bytes d data)"
  by (simp add: crypto_digest_restore_def crypto_digest_checkpoint_def crypto_digest_add_bytes_def dg_inline_def
      split: digest_union.split)

section \<open>A layer\<close>

record tor1_crypt =
  f_crypto :: aes_cnt_cipher
  b_crypto :: aes_cnt_cipher
  f_digest :: crypto_digest
  b_digest :: crypto_digest
  sendme_digest :: bytes

abbreviation V0_DIGEST_OFFSET :: nat where "V0_DIGEST_OFFSET \<equiv> 5"
abbreviation V0_DIGEST_LEN :: nat where "V0_DIGEST_LEN \<equiv> 4"
abbreviation V0_RECOGNIZED_OFFSET :: nat where "V0_RECOGNIZED_OFFSET \<equiv> 1"
abbreviation CPATH_KEY_MATERIAL_LEN :: nat where "CPATH_KEY_MATERIAL_LEN \<equiv> 72"
abbreviation HS_NTOR_KEY_EXPANSION_KDF_OUT_LEN :: nat where "HS_NTOR_KEY_EXPANSION_KDF_OUT_LEN \<equiv> 128"

text \<open>The digest afterwards, the cell and the buffer.\<close>

definition tor1_set_digest_v0 :: "primitives \<Rightarrow> crypto_digest \<Rightarrow> cell \<Rightarrow> crypto_digest \<times> cell \<times> bytes" where
  "tor1_set_digest_v0 P digest c =
     (let digest = crypto_digest_add_bytes digest (cell_payload c);
          buf = crypto_digest_get_digest P digest DIGEST_LEN
      in (digest, c\<lparr>cell_payload := put_bytes V0_DIGEST_OFFSET (take V0_DIGEST_LEN buf) (cell_payload c)\<rparr>, buf))"

text \<open>The buffer is only set when the digest matches.\<close>

definition tor1_relay_digest_matches_v0 ::
    "primitives \<Rightarrow> crypto_digest \<Rightarrow> cell \<Rightarrow> crypto_digest \<times> cell \<times> bytes option" where
  "tor1_relay_digest_matches_v0 P digest c =
     (let backup_digest = crypto_digest_checkpoint digest;
          received_integrity = get_bytes V0_DIGEST_OFFSET V0_DIGEST_LEN (cell_payload c);
          c = c\<lparr>cell_payload := put_bytes V0_DIGEST_OFFSET (replicate V0_DIGEST_LEN 0) (cell_payload c)\<rparr>;
          digest = crypto_digest_add_bytes digest (cell_payload c);
          calculated_digest = crypto_digest_get_digest P digest DIGEST_LEN
      in if take 4 calculated_digest \<noteq> received_integrity then
           (crypto_digest_restore digest backup_digest,
            c\<lparr>cell_payload := put_bytes V0_DIGEST_OFFSET received_integrity (cell_payload c)\<rparr>, None)
         else (digest, c, Some calculated_digest))"

definition relay_cell_is_recognized_v0 :: "cell \<Rightarrow> bool" where
  "relay_cell_is_recognized_v0 c \<longleftrightarrow> get16 V0_RECOGNIZED_OFFSET (cell_payload c) = 0"

definition tor1_crypt_one_payload :: "primitives \<Rightarrow> aes_cnt_cipher \<Rightarrow> cell \<Rightarrow> aes_cnt_cipher \<times> cell" where
  "tor1_crypt_one_payload P cipher c =
     (case aes_crypt_inplace P cipher (cell_payload c) of (cipher, data) \<Rightarrow> (cipher, c\<lparr>cell_payload := data\<rparr>))"

definition tor1_crypt_client_originate :: "primitives \<Rightarrow> tor1_crypt \<Rightarrow> cell \<Rightarrow> tor1_crypt \<times> cell" where
  "tor1_crypt_client_originate P tor1 c =
     (case tor1_set_digest_v0 P (f_digest tor1) c of
        (digest, c, buf) \<Rightarrow>
          (case tor1_crypt_one_payload P (f_crypto tor1) c of
             (cipher, c) \<Rightarrow> (tor1\<lparr>f_digest := digest, sendme_digest := buf, f_crypto := cipher\<rparr>, c)))"

definition tor1_crypt_relay_originate :: "primitives \<Rightarrow> tor1_crypt \<Rightarrow> cell \<Rightarrow> tor1_crypt \<times> cell" where
  "tor1_crypt_relay_originate P tor1 c =
     (case tor1_set_digest_v0 P (b_digest tor1) c of
        (digest, c, buf) \<Rightarrow>
          (case tor1_crypt_one_payload P (b_crypto tor1) c of
             (cipher, c) \<Rightarrow> (tor1\<lparr>b_digest := digest, sendme_digest := buf, b_crypto := cipher\<rparr>, c)))"

definition tor1_crypt_client_forward :: "primitives \<Rightarrow> tor1_crypt \<Rightarrow> cell \<Rightarrow> tor1_crypt \<times> cell" where
  "tor1_crypt_client_forward P tor1 c =
     (case tor1_crypt_one_payload P (f_crypto tor1) c of (cipher, c) \<Rightarrow> (tor1\<lparr>f_crypto := cipher\<rparr>, c))"

definition tor1_crypt_relay_backward :: "primitives \<Rightarrow> tor1_crypt \<Rightarrow> cell \<Rightarrow> tor1_crypt \<times> cell" where
  "tor1_crypt_relay_backward P tor1 c =
     (case tor1_crypt_one_payload P (b_crypto tor1) c of (cipher, c) \<Rightarrow> (tor1\<lparr>b_crypto := cipher\<rparr>, c))"

definition tor1_crypt_relay_forward :: "primitives \<Rightarrow> tor1_crypt \<Rightarrow> cell \<Rightarrow> tor1_crypt \<times> cell \<times> bool" where
  "tor1_crypt_relay_forward P tor1 c =
     (case tor1_crypt_one_payload P (f_crypto tor1) c of
        (cipher, c) \<Rightarrow>
          let tor1 = tor1\<lparr>f_crypto := cipher\<rparr>
          in if relay_cell_is_recognized_v0 c then
               (case tor1_relay_digest_matches_v0 P (f_digest tor1) c of
                  (digest, c, Some buf) \<Rightarrow> (tor1\<lparr>f_digest := digest, sendme_digest := buf\<rparr>, c, True)
                | (digest, c, None) \<Rightarrow> (tor1\<lparr>f_digest := digest\<rparr>, c, False))
             else (tor1, c, False))"

definition tor1_crypt_client_backward :: "primitives \<Rightarrow> tor1_crypt \<Rightarrow> cell \<Rightarrow> tor1_crypt \<times> cell \<times> bool" where
  "tor1_crypt_client_backward P tor1 c =
     (case tor1_crypt_one_payload P (b_crypto tor1) c of
        (cipher, c) \<Rightarrow>
          let tor1 = tor1\<lparr>b_crypto := cipher\<rparr>
          in if relay_cell_is_recognized_v0 c then
               (case tor1_relay_digest_matches_v0 P (b_digest tor1) c of
                  (digest, c, Some buf) \<Rightarrow> (tor1\<lparr>b_digest := digest, sendme_digest := buf\<rparr>, c, True)
                | (digest, c, None) \<Rightarrow> (tor1\<lparr>b_digest := digest\<rparr>, c, False))
             else (tor1, c, False))"

definition tor1_key_material_len :: "bool \<Rightarrow> nat" where
  "tor1_key_material_len is_hs = (if is_hs then HS_NTOR_KEY_EXPANSION_KDF_OUT_LEN else CPATH_KEY_MATERIAL_LEN)"

definition tor1_crypt_init :: "primitives \<Rightarrow> bytes \<Rightarrow> bool \<Rightarrow> bool \<Rightarrow> tor1_crypt option" where
  "tor1_crypt_init P key_data reverse is_hs_v3 =
     (if is_hs_v3 \<and> length key_data \<noteq> HS_NTOR_KEY_EXPANSION_KDF_OUT_LEN then None
      else if \<not> is_hs_v3 \<and> length key_data \<noteq> CPATH_KEY_MATERIAL_LEN then None
      else let (digest_len, cipher_key_len, alg) = (if is_hs_v3 then (DIGEST256_LEN, 32, DIGEST_SHA3_256) else (DIGEST_LEN, 16, DIGEST_SHA1));
               fd = crypto_digest_add_bytes (crypto_digest_new_internal P alg) (get_bytes 0 digest_len key_data);
               bd = crypto_digest_add_bytes (crypto_digest_new_internal P alg) (get_bytes digest_len digest_len key_data);
               fc = aes_new_cipher (get_bytes (2 * digest_len) cipher_key_len key_data) (replicate 16 0);
               bc = aes_new_cipher (get_bytes (2 * digest_len + cipher_key_len) cipher_key_len key_data) (replicate 16 0)
           in Some (if reverse
                    then \<lparr>f_crypto = bc, b_crypto = fc, f_digest = bd, b_digest = fd, sendme_digest = replicate 20 0\<rparr>
                    else \<lparr>f_crypto = fc, b_crypto = bc, f_digest = fd, b_digest = bd, sendme_digest = replicate 20 0\<rparr>))"

section \<open>The two ends of a layer\<close>

text \<open>The client and the relay of a layer hold the same ciphers and digests.\<close>

definition tor1_sync :: "tor1_crypt \<Rightarrow> tor1_crypt \<Rightarrow> bool" where
  "tor1_sync c r \<longleftrightarrow>
     f_crypto c = f_crypto r \<and> b_crypto c = b_crypto r \<and> f_digest c = f_digest r \<and> b_digest c = b_digest r"

text \<open>Digests that can be set back.\<close>

definition tor1_robust :: "tor1_crypt \<Rightarrow> bool" where
  "tor1_robust t \<longleftrightarrow> dg_inline (f_digest t) \<and> dg_inline (b_digest t)"

text \<open>The bytes that a layer takes for its own.\<close>

definition digest_accepts :: "primitives \<Rightarrow> crypto_digest \<Rightarrow> cell \<Rightarrow> bool" where
  "digest_accepts P d c \<longleftrightarrow>
     relay_cell_is_recognized_v0 c
     \<and> take 4 (crypto_digest_get_digest P (crypto_digest_add_bytes d (put_bytes 5 (replicate 4 0) (cell_payload c))) DIGEST_LEN)
         = get_bytes 5 4 (cell_payload c)"

lemma crypt_one_payload_twice:
  assumes "tor1_crypt_one_payload P k c = (k', c')"
  shows "tor1_crypt_one_payload P k c' = (k', c) \<and> length (cell_payload c') = length (cell_payload c)
    \<and> cell_command c' = cell_command c"
  using assms by (auto simp: tor1_crypt_one_payload_def aes_crypt_inplace_def)

lemma matches_iff:
  assumes "length (cell_payload c) = CELL_PAYLOAD_SIZE" "relay_cell_is_recognized_v0 c"
  shows "tor1_relay_digest_matches_v0 P d c =
    (let c0 = c\<lparr>cell_payload := put_bytes 5 (replicate 4 0) (cell_payload c)\<rparr>; d' = crypto_digest_add_bytes d (cell_payload c0)
     in if digest_accepts P d c then (d', c0, Some (crypto_digest_get_digest P d' DIGEST_LEN))
        else (crypto_digest_restore d' (crypto_digest_checkpoint d), c, None))"
  using assms by (simp add: tor1_relay_digest_matches_v0_def digest_accepts_def Let_def octets)

text \<open>What the receiving functions of the two directions have in common.\<close>

definition open_layer :: "primitives \<Rightarrow> aes_cnt_cipher \<Rightarrow> crypto_digest \<Rightarrow> cell \<Rightarrow> aes_cnt_cipher \<times> crypto_digest \<times> cell \<times> bytes option" where
  "open_layer P k d c =
     (case tor1_crypt_one_payload P k c of
        (k, c) \<Rightarrow> if relay_cell_is_recognized_v0 c then (k, tor1_relay_digest_matches_v0 P d c) else (k, d, c, None))"

lemma relay_forward_open: "tor1_crypt_relay_forward P t c =
    (case open_layer P (f_crypto t) (f_digest t) c of
       (k, d, c, Some buf) \<Rightarrow> (t\<lparr>f_crypto := k, f_digest := d, sendme_digest := buf\<rparr>, c, True)
     | (k, d, c, None) \<Rightarrow> (t\<lparr>f_crypto := k, f_digest := d\<rparr>, c, False))"
  by (simp add: tor1_crypt_relay_forward_def open_layer_def Let_def split: prod.split option.split)

lemma client_backward_open: "tor1_crypt_client_backward P t c =
    (case open_layer P (b_crypto t) (b_digest t) c of
       (k, d, c, Some buf) \<Rightarrow> (t\<lparr>b_crypto := k, b_digest := d, sendme_digest := buf\<rparr>, c, True)
     | (k, d, c, None) \<Rightarrow> (t\<lparr>b_crypto := k, b_digest := d\<rparr>, c, False))"
  by (simp add: tor1_crypt_client_backward_def open_layer_def Let_def split: prod.split option.split)

lemma open_passes:
  assumes "tor1_crypt_one_payload P k c = (k', c')" "length (cell_payload c) = CELL_PAYLOAD_SIZE" "\<not> digest_accepts P d c"
  shows "\<exists>d'. open_layer P k d c' = (k', d', c, None) \<and> (dg_inline d \<longrightarrow> d' = d)"
proof (cases "relay_cell_is_recognized_v0 c")
  case True
  from matches_iff [OF assms(2) True, of P d] crypt_one_payload_twice [OF assms(1)] assms(3) show ?thesis
    by (auto simp: open_layer_def Let_def True digest_restore)
next
  case False
  with crypt_one_payload_twice [OF assms(1)] show ?thesis by (simp add: open_layer_def)
qed

lemma open_takes:
  assumes "tor1_crypt_one_payload P k c = (k', c')" "length (cell_payload c) = CELL_PAYLOAD_SIZE" "digest_accepts P d c"
  shows "\<exists>d' c'' buf. open_layer P k d c' = (k', d', c'', Some buf)"
  using crypt_one_payload_twice [OF assms(1)] matches_iff [OF assms(2), of P d] assms(3)
  by (simp add: open_layer_def digest_accepts_def Let_def)

text \<open>A cell with the fields of the encryption left zero.\<close>

definition blank_cell :: "relay_cell_fmt \<Rightarrow> cell \<Rightarrow> bool" where
  "blank_cell format c \<longleftrightarrow> length (cell_payload c) = CELL_PAYLOAD_SIZE
     \<and> (\<forall>i < CELL_PAYLOAD_SIZE. crypto_field format i \<longrightarrow> cell_payload c ! i = 0)"

lemma blank_v0:
  assumes "blank_cell RELAY_CELL_FORMAT_V0 c"
  shows "length (cell_payload c) = CELL_PAYLOAD_SIZE" "get16 1 (cell_payload c) = 0"
    "put_bytes 5 (replicate 4 0) (cell_payload c) = cell_payload c"
proof -
  show l: "length (cell_payload c) = CELL_PAYLOAD_SIZE" using assms by (simp add: blank_cell_def)
  have z: "cell_payload c ! i = 0" if "i \<in> {1, 2, 5, 6, 7, 8}" for i
  proof -
    have "i < CELL_PAYLOAD_SIZE" "crypto_field RELAY_CELL_FORMAT_V0 i" using that by (auto simp: crypto_field_def)
    with assms show ?thesis by (simp only: blank_cell_def)
  qed
  show "get16 1 (cell_payload c) = 0" using z by (simp add: get16_def numeral_2_eq_2 [symmetric])
  show "put_bytes 5 (replicate 4 0) (cell_payload c) = cell_payload c"
  proof (rule nth_equalityI)
    fix i
    assume "i < length (put_bytes 5 (replicate 4 0) (cell_payload c))"
    then have "i < 509" using l by (simp add: octets)
    moreover have "cell_payload c ! i = 0" "replicate 4 0 ! (i - 5) = (0 :: 8 word)" if "5 \<le> i" "i < 9"
    proof -
      have "i = 5 \<or> i = 6 \<or> i = 7 \<or> i = 8" using that by arith
      then show "cell_payload c ! i = 0" using z by auto
      show "replicate 4 0 ! (i - 5) = (0 :: 8 word)" using that by simp
    qed
    ultimately show "put_bytes 5 (replicate 4 0) (cell_payload c) ! i = cell_payload c ! i"
      using l by (auto simp: octets not_less not_le)
  qed (simp add: l octets)
qed

lemma set_digest_opens:
  assumes P: "primitives_ok P" and b: "blank_cell RELAY_CELL_FORMAT_V0 c"
    and s: "tor1_set_digest_v0 P d c = (d', c1, buf)" and k: "tor1_crypt_one_payload P k c1 = (k', c2)"
  shows "open_layer P k d c2 = (k', d', c, Some buf) \<and> dg_inline d' = dg_inline d
    \<and> length (cell_payload c2) = CELL_PAYLOAD_SIZE \<and> cell_command c2 = cell_command c"
proof -
  note b = blank_v0 [OF b]
  let ?h = "crypto_digest_get_digest P d' DIGEST_LEN"
  have d': "d' = crypto_digest_add_bytes d (cell_payload c)" and buf: "buf = ?h"
    and c1: "c1 = c\<lparr>cell_payload := put_bytes 5 (take 4 ?h) (cell_payload c)\<rparr>"
    using s by (auto simp: tor1_set_digest_v0_def Let_def)
  have h: "length ?h = 20"
    using P by (auto simp: crypto_digest_get_digest_def primitives_ok_def split: digest_algorithm.split)
  have l1: "length (cell_payload c1) = 509" using b(1) h by (simp add: c1 octets)
  have z: "put_bytes 5 (replicate 4 0) (cell_payload c1) = cell_payload c" using b(1,3) h by (simp add: c1 octets)
  have r: "relay_cell_is_recognized_v0 c1" using b(1,2) h by (simp add: c1 relay_cell_is_recognized_v0_def octets)
  have a: "digest_accepts P d c1" using r z h b(1) by (simp add: digest_accepts_def d' [symmetric]) (simp add: c1 octets)
  have "open_layer P k d c2 = (k', d', c, Some buf)"
    using crypt_one_payload_twice [OF k] matches_iff [OF l1 r, of P d] a r z
    by (simp add: open_layer_def Let_def d' [symmetric] buf) (simp add: c1)
  with crypt_one_payload_twice [OF k] l1 show ?thesis by (simp add: d' c1)
qed

section \<open>Outward and inward\<close>

lemma tor1_outward_passes:
  assumes "tor1_sync a b" "length (cell_payload c) = CELL_PAYLOAD_SIZE" "\<not> digest_accepts P (f_digest b) c"
  shows "\<exists>a' c' b'. tor1_crypt_client_forward P a c = (a', c') \<and> length (cell_payload c') = CELL_PAYLOAD_SIZE
    \<and> cell_command c' = cell_command c \<and> tor1_crypt_relay_forward P b c' = (b', c, False)
    \<and> (tor1_robust b \<longrightarrow> tor1_sync a' b' \<and> tor1_robust b')"
proof -
  obtain k c' where k: "tor1_crypt_one_payload P (f_crypto b) c = (k, c')" by (cases "tor1_crypt_one_payload P (f_crypto b) c")
  from open_passes [OF k assms(2,3)] obtain d where d: "open_layer P (f_crypto b) (f_digest b) c' = (k, d, c, None)"
    "dg_inline (f_digest b) \<longrightarrow> d = f_digest b"
    by blast
  from crypt_one_payload_twice [OF k] k d assms show ?thesis
    by (auto simp: tor1_crypt_client_forward_def relay_forward_open tor1_sync_def tor1_robust_def)
qed

lemma tor1_outward_takes:
  assumes "tor1_sync a b" "length (cell_payload c) = CELL_PAYLOAD_SIZE" "digest_accepts P (f_digest b) c"
  shows "\<exists>a' c' b' c''. tor1_crypt_client_forward P a c = (a', c') \<and> length (cell_payload c') = CELL_PAYLOAD_SIZE
    \<and> cell_command c' = cell_command c \<and> tor1_crypt_relay_forward P b c' = (b', c'', True)"
proof -
  obtain k c' where k: "tor1_crypt_one_payload P (f_crypto b) c = (k, c')" by (cases "tor1_crypt_one_payload P (f_crypto b) c")
  from open_takes [OF k assms(2,3)] crypt_one_payload_twice [OF k] k assms show ?thesis
    by (auto simp: tor1_crypt_client_forward_def relay_forward_open tor1_sync_def)
qed

lemma tor1_outward_opens:
  assumes "primitives_ok P" "tor1_sync a b" "blank_cell RELAY_CELL_FORMAT_V0 c"
  shows "\<exists>a' c' b'. tor1_crypt_client_originate P a c = (a', c') \<and> length (cell_payload c') = CELL_PAYLOAD_SIZE
    \<and> cell_command c' = cell_command c \<and> tor1_crypt_relay_forward P b c' = (b', c, True)
    \<and> tor1_sync a' b' \<and> sendme_digest a' = sendme_digest b' \<and> (tor1_robust b \<longrightarrow> tor1_robust b')"
proof -
  obtain d c1 buf where s: "tor1_set_digest_v0 P (f_digest b) c = (d, c1, buf)" by (cases "tor1_set_digest_v0 P (f_digest b) c")
  obtain k c' where k: "tor1_crypt_one_payload P (f_crypto b) c1 = (k, c')" by (cases "tor1_crypt_one_payload P (f_crypto b) c1")
  from set_digest_opens [OF assms(1,3) s k] s k assms(2) show ?thesis
    by (auto simp: tor1_crypt_client_originate_def relay_forward_open tor1_sync_def tor1_robust_def)
qed

lemma tor1_inward_passes:
  assumes "tor1_sync b a" "length (cell_payload c) = CELL_PAYLOAD_SIZE" "\<not> digest_accepts P (b_digest b) c"
  shows "\<exists>a' c' b'. tor1_crypt_relay_backward P a c = (a', c') \<and> length (cell_payload c') = CELL_PAYLOAD_SIZE
    \<and> cell_command c' = cell_command c \<and> tor1_crypt_client_backward P b c' = (b', c, False)
    \<and> (tor1_robust b \<longrightarrow> tor1_sync b' a' \<and> tor1_robust b')"
proof -
  obtain k c' where k: "tor1_crypt_one_payload P (b_crypto b) c = (k, c')" by (cases "tor1_crypt_one_payload P (b_crypto b) c")
  from open_passes [OF k assms(2,3)] obtain d where d: "open_layer P (b_crypto b) (b_digest b) c' = (k, d, c, None)"
    "dg_inline (b_digest b) \<longrightarrow> d = b_digest b"
    by blast
  from crypt_one_payload_twice [OF k] k d assms show ?thesis
    by (auto simp: tor1_crypt_relay_backward_def client_backward_open tor1_sync_def tor1_robust_def)
qed

lemma tor1_inward_takes:
  assumes "tor1_sync b a" "length (cell_payload c) = CELL_PAYLOAD_SIZE" "digest_accepts P (b_digest b) c"
  shows "\<exists>a' c' b' c''. tor1_crypt_relay_backward P a c = (a', c') \<and> length (cell_payload c') = CELL_PAYLOAD_SIZE
    \<and> cell_command c' = cell_command c \<and> tor1_crypt_client_backward P b c' = (b', c'', True)"
proof -
  obtain k c' where k: "tor1_crypt_one_payload P (b_crypto b) c = (k, c')" by (cases "tor1_crypt_one_payload P (b_crypto b) c")
  from open_takes [OF k assms(2,3)] crypt_one_payload_twice [OF k] k assms show ?thesis
    by (auto simp: tor1_crypt_relay_backward_def client_backward_open tor1_sync_def)
qed

lemma tor1_inward_opens:
  assumes "primitives_ok P" "tor1_sync b a" "blank_cell RELAY_CELL_FORMAT_V0 c"
  shows "\<exists>a' c' b'. tor1_crypt_relay_originate P a c = (a', c') \<and> length (cell_payload c') = CELL_PAYLOAD_SIZE
    \<and> cell_command c' = cell_command c \<and> tor1_crypt_client_backward P b c' = (b', c, True)
    \<and> tor1_sync b' a' \<and> sendme_digest a' = sendme_digest b' \<and> (tor1_robust b \<longrightarrow> tor1_robust b')"
proof -
  obtain d c1 buf where s: "tor1_set_digest_v0 P (b_digest b) c = (d, c1, buf)" by (cases "tor1_set_digest_v0 P (b_digest b) c")
  obtain k c' where k: "tor1_crypt_one_payload P (b_crypto b) c1 = (k, c')" by (cases "tor1_crypt_one_payload P (b_crypto b) c1")
  from set_digest_opens [OF assms(1,3) s k] s k assms(2) show ?thesis
    by (auto simp: tor1_crypt_relay_originate_def client_backward_open tor1_sync_def tor1_robust_def)
qed

text \<open>C38: A digest that rejects a cell is meant to be put back to what it was. The running digest of any
  bytes is, with the cell, for SHA-1 and for the SHA3 of the source. In a build with OpenSSL's SHA3
  the SHA3 digest of an onion service circuit is not: the checkpoint has copied the address of the
  hash state only, and the digest goes on as if the rejected cell, with the four bytes of its own
  digest zero, belonged to it.\<close>

theorem tor1_digest_restored:
  assumes "length (cell_payload c) = CELL_PAYLOAD_SIZE"
    and "d = crypto_digest_add_bytes (crypto_digest_new_internal P alg) data"
    and "tor1_relay_digest_matches_v0 P d c = (d', c', None)"
  shows "c' = c \<and> d' = crypto_digest_add_bytes (crypto_digest_new_internal P alg)
           (if alg = DIGEST_SHA3_256 \<and> openssl_has_sha3 P
            then data @ put_bytes V0_DIGEST_OFFSET (replicate V0_DIGEST_LEN 0) (cell_payload c)
            else data)"
proof -
  have i: "dg_inline d \<longleftrightarrow> \<not> (alg = DIGEST_SHA3_256 \<and> openssl_has_sha3 P)"
    using assms(2) by (cases alg) simp_all
  have "c' = c \<and> d' = (if dg_inline d then d
      else crypto_digest_add_bytes d (put_bytes V0_DIGEST_OFFSET (replicate V0_DIGEST_LEN 0) (cell_payload c)))"
    using assms(1,3) by (auto simp: tor1_relay_digest_matches_v0_def Let_def octets digest_restore split: if_splits)
  then show ?thesis unfolding i by (simp add: assms(2) digest_add_add)
qed

section \<open>Sample primitives\<close>

definition sample_primitives :: primitives where
  "sample_primitives = \<lparr>
     aes_encrypt = (\<lambda>k b. xor_bytes b (take 16 (k @ replicate 16 0))),
     aes_decrypt = (\<lambda>k b. xor_bytes b (take 16 (k @ replicate 16 0))),
     sha1 = (\<lambda>m. replicate 20 (1 + sum_list m)), sha3_256 = (\<lambda>m. replicate 32 (1 + sum_list m)),
     polyval_mult = (\<lambda>h y. xor_bytes y (take 16 (h @ replicate 16 0))), openssl_has_sha3 = True\<rparr>"

lemma sample_ok: "primitives_ok sample_primitives"
  by (simp add: primitives_ok_def sample_primitives_def)

definition sample_cell :: cell where
  "sample_cell = \<lparr>cell_circ_id = 0, cell_command = 3, cell_payload = replicate 509 0\<rparr>"

lemma sample_mismatch:
  "tor1_relay_digest_matches_v0 sample_primitives
     (crypto_digest_add_bytes (crypto_digest_new_internal sample_primitives DIGEST_SHA3_256) [7]) sample_cell
    = (crypto_digest_add_bytes (crypto_digest_new_internal sample_primitives DIGEST_SHA3_256) (7 # replicate 509 0), sample_cell, None)"
proof -
  have z: "put_bytes 5 (replicate 4 0) (replicate 509 0) = replicate 509 (0 :: 8 word)"
    by (rule replicate_eqI) (auto simp: put_bytes_def)
  have g: "get_bytes 5 4 (replicate 509 0) = replicate 4 (0 :: 8 word)" by (simp add: get_bytes_def)
  show ?thesis
    by (simp add: tor1_relay_digest_matches_v0_def Let_def sample_cell_def z g crypto_digest_get_digest_def digest_restore)
      (simp add: sample_primitives_def sum_list_replicate digest_add_add)
qed

lemma tor1_digest_restored_witness:
  "dg_bytes (fst (tor1_relay_digest_matches_v0 sample_primitives
       (crypto_digest_add_bytes (crypto_digest_new_internal sample_primitives DIGEST_SHA3_256) [7]) sample_cell))
    = 7 # replicate 509 0"
proof -
  have z: "put_bytes 5 (replicate 4 0) (replicate 509 0) = replicate 509 (0 :: 8 word)"
    by (rule replicate_eqI) (auto simp: put_bytes_def)
  have l: "length (cell_payload sample_cell) = CELL_PAYLOAD_SIZE" by (simp add: sample_cell_def)
  from tor1_digest_restored [OF l refl sample_mismatch] show ?thesis
    by (simp add: sample_mismatch) (simp add: sample_cell_def sample_primitives_def z)
qed

end
