(* ===== verification/Cgo_Crypto.thy ===== *)
theory Cgo_Crypto
  imports Tor1_Crypto
begin

text \<open>
  Counter galois onion encryption, src/core/crypto/relay_crypto_cgo.c: a wide-block cipher on whole
  cell bodies, built from a tweakable block cipher and a pseudorandom function, that is chained over
  the cells of a circuit and changes its keys with every cell that is originated or recognized. The
  hash polyval of src/ext/polyval/polyval.c is modelled over its field multiplication, one block at a
  time. \<open>None\<close> is a failed assertion, also that of a cipher used in the wrong direction or of a stream
  cipher whose IV is set off a block boundary.
\<close>

section \<open>Polyval\<close>

record polyval =
  pv_key :: bytes
  pv_y :: bytes

abbreviation POLYVAL_KEY_LEN :: nat where "POLYVAL_KEY_LEN \<equiv> 16"

definition polyval_init :: "bytes \<Rightarrow> polyval" where
  "polyval_init key = \<lparr>pv_key = take POLYVAL_KEY_LEN key, pv_y = replicate 16 0\<rparr>"

definition polyval_add_block :: "primitives \<Rightarrow> polyval \<Rightarrow> bytes \<Rightarrow> polyval" where
  "polyval_add_block P pv block = pv\<lparr>pv_y := polyval_mult P (pv_key pv) (xor_bytes (pv_y pv) block)\<rparr>"

function polyval_add_zpad :: "primitives \<Rightarrow> polyval \<Rightarrow> bytes \<Rightarrow> polyval" where
  "polyval_add_zpad P pv data =
     (if length data > 16 then polyval_add_zpad P (polyval_add_block P pv (take 16 data)) (drop 16 data)
      else if data \<noteq> [] then polyval_add_block P pv (data @ replicate (16 - length data) 0)
      else pv)"
  by pat_completeness auto
termination by (relation "measure (\<lambda>(P, pv, data). length data)") auto

definition polyval_get_tag :: "polyval \<Rightarrow> bytes" where
  "polyval_get_tag pv = pv_y pv"

section \<open>The tweakable block cipher\<close>

text \<open>A raw AES context is a key and whether it was made for encryption.\<close>

type_synonym aes_raw = "bytes \<times> bool"

definition aes_raw_encrypt :: "primitives \<Rightarrow> aes_raw \<Rightarrow> bytes \<Rightarrow> bytes option" where
  "aes_raw_encrypt P raw block = (if snd raw then Some (aes_encrypt P (fst raw) block) else None)"

definition aes_raw_decrypt :: "primitives \<Rightarrow> aes_raw \<Rightarrow> bytes \<Rightarrow> bytes option" where
  "aes_raw_decrypt P raw block = (if \<not> snd raw then Some (aes_decrypt P (fst raw) block) else None)"

record cgo_et =
  et_kb :: aes_raw
  et_ku :: bytes

record uiv_tweak =
  tw_h :: bytes
  tw_cmd :: "8 word"

abbreviation ET_TWEAK_LEN_X_R :: nat where "ET_TWEAK_LEN_X_R \<equiv> 493"
abbreviation PRF_T0_DATA_LEN :: nat where "PRF_T0_DATA_LEN \<equiv> 493"
abbreviation T1_OFFSET :: "8 word" where "T1_OFFSET \<equiv> 31"
abbreviation SENDME_TAG_LEN_CGO :: nat where "SENDME_TAG_LEN_CGO \<equiv> 16"

definition cgo_et_keylen :: "nat \<Rightarrow> nat" where
  "cgo_et_keylen aesbits = aesbits div 8 + POLYVAL_KEY_LEN"

definition cgo_et_init :: "nat \<Rightarrow> bool \<Rightarrow> bytes \<Rightarrow> cgo_et" where
  "cgo_et_init aesbits encrypt key =
     (let aes_key_bytes = aesbits div 8
      in \<lparr>et_kb = (take aes_key_bytes key, encrypt), et_ku = get_bytes aes_key_bytes POLYVAL_KEY_LEN key\<rparr>)"

definition cgo_et_set_key :: "cgo_et \<Rightarrow> nat \<Rightarrow> bool \<Rightarrow> bytes \<Rightarrow> cgo_et" where
  "cgo_et_set_key et aesbits encrypt key =
     (let aes_key_bytes = aesbits div 8
      in et\<lparr>et_kb := (take aes_key_bytes key, encrypt), et_ku := get_bytes aes_key_bytes POLYVAL_KEY_LEN key\<rparr>)"

definition compute_et_mask :: "primitives \<Rightarrow> bytes \<Rightarrow> uiv_tweak \<Rightarrow> bytes \<Rightarrow> bytes" where
  "compute_et_mask P ku tweak x_r =
     (let pv = polyval_init ku;
          block1 = tw_cmd tweak # take 15 x_r;
          pv = polyval_add_block P pv (tw_h tweak);
          pv = polyval_add_block P pv block1;
          pv = polyval_add_zpad P pv (get_bytes 15 (ET_TWEAK_LEN_X_R - 15) x_r)
      in polyval_get_tag pv)"

definition cgo_et_encrypt :: "primitives \<Rightarrow> cgo_et \<Rightarrow> uiv_tweak \<Rightarrow> bytes \<Rightarrow> bytes \<Rightarrow> bytes option" where
  "cgo_et_encrypt P et tweak x_r block =
     (let mask = compute_et_mask P (et_ku et) tweak x_r
      in do { block \<leftarrow> aes_raw_encrypt P (et_kb et) (xor_bytes block mask);
              Some (xor_bytes block mask) })"

definition cgo_et_decrypt :: "primitives \<Rightarrow> cgo_et \<Rightarrow> uiv_tweak \<Rightarrow> bytes \<Rightarrow> bytes \<Rightarrow> bytes option" where
  "cgo_et_decrypt P et tweak x_r block =
     (let mask = compute_et_mask P (et_ku et) tweak x_r
      in do { block \<leftarrow> aes_raw_decrypt P (et_kb et) (xor_bytes block mask);
              Some (xor_bytes block mask) })"

section \<open>The pseudorandom function\<close>

record cgo_prf =
  prf_k :: aes_cnt_cipher
  prf_b :: bytes

definition cgo_prf_keylen :: "nat \<Rightarrow> nat" where
  "cgo_prf_keylen aesbits = aesbits div 8 + POLYVAL_KEY_LEN"

definition cgo_prf_init :: "nat \<Rightarrow> bytes \<Rightarrow> cgo_prf" where
  "cgo_prf_init aesbits key =
     (let aes_key_bytes = aesbits div 8
      in \<lparr>prf_k = aes_new_cipher (take aes_key_bytes key) (replicate 16 0), prf_b = get_bytes aes_key_bytes POLYVAL_KEY_LEN key\<rparr>)"

definition cgo_prf_set_key :: "cgo_prf \<Rightarrow> nat \<Rightarrow> bytes \<Rightarrow> cgo_prf" where
  "cgo_prf_set_key prf aesbits key =
     (let aes_key_bytes = aesbits div 8
      in \<lparr>prf_k = aes_cipher_set_key (prf_k prf) (take aes_key_bytes key), prf_b = get_bytes aes_key_bytes POLYVAL_KEY_LEN key\<rparr>)"

definition prf_hash :: "primitives \<Rightarrow> bytes \<Rightarrow> bytes \<Rightarrow> bytes" where
  "prf_hash P b input =
     (let hash = polyval_get_tag (polyval_add_block P (polyval_init b) input)
      in hash[15 := hash ! 15 AND 0xC0])"

definition cgo_prf_xor_t0 :: "primitives \<Rightarrow> cgo_prf \<Rightarrow> bytes \<Rightarrow> bytes \<Rightarrow> (cgo_prf \<times> bytes) option" where
  "cgo_prf_xor_t0 P prf input data =
     (let hash = prf_hash P (prf_b prf) input
      in do { k \<leftarrow> aes_cipher_set_iv_aligned (prf_k prf) hash;
              let (k, data) = aes_crypt_inplace P k data;
              let ns = 16 - PRF_T0_DATA_LEN mod 16;
              let (k, _) = aes_crypt_inplace P k (take ns hash);
              Some (prf\<lparr>prf_k := k\<rparr>, data) })"

definition cgo_prf_gen_t1 :: "primitives \<Rightarrow> cgo_prf \<Rightarrow> bytes \<Rightarrow> nat \<Rightarrow> (cgo_prf \<times> bytes) option" where
  "cgo_prf_gen_t1 P prf input n =
     (let hash = prf_hash P (prf_b prf) input;
          hash = hash[15 := hash ! 15 + T1_OFFSET]
      in do { k \<leftarrow> aes_cipher_set_iv_aligned (prf_k prf) hash;
              let (k, buf) = aes_crypt_inplace P k (replicate n 0);
              let ns = 16 - n mod 16;
              let k = (if ns \<noteq> 0 then fst (aes_crypt_inplace P k (take ns hash)) else k);
              Some (prf\<lparr>prf_k := k\<rparr>, buf) })"

section \<open>The wide-block cipher\<close>

record cgo_uiv =
  uiv_j :: cgo_et
  uiv_s :: cgo_prf

definition cgo_uiv_keylen :: "nat \<Rightarrow> nat" where
  "cgo_uiv_keylen aesbits = cgo_et_keylen aesbits + cgo_prf_keylen aesbits"

definition cgo_uiv_init :: "nat \<Rightarrow> bool \<Rightarrow> bytes \<Rightarrow> cgo_uiv" where
  "cgo_uiv_init aesbits encrypt key =
     (let aes_key_bytes = aesbits div 8
      in \<lparr>uiv_j = cgo_et_init aesbits encrypt key,
          uiv_s = cgo_prf_init aesbits (drop (aes_key_bytes + POLYVAL_KEY_LEN) key)\<rparr>)"

definition cgo_uiv_encrypt :: "primitives \<Rightarrow> cgo_uiv \<Rightarrow> uiv_tweak \<Rightarrow> bytes \<Rightarrow> (cgo_uiv \<times> bytes) option" where
  "cgo_uiv_encrypt P uiv tweak cell_body =
     (let X_L = take 16 cell_body; X_R = drop 16 cell_body
      in do { X_L \<leftarrow> cgo_et_encrypt P (uiv_j uiv) tweak X_R X_L;
              (s, X_R) \<leftarrow> cgo_prf_xor_t0 P (uiv_s uiv) X_L X_R;
              Some (uiv\<lparr>uiv_s := s\<rparr>, X_L @ X_R) })"

definition cgo_uiv_decrypt :: "primitives \<Rightarrow> cgo_uiv \<Rightarrow> uiv_tweak \<Rightarrow> bytes \<Rightarrow> (cgo_uiv \<times> bytes) option" where
  "cgo_uiv_decrypt P uiv tweak cell_body =
     (let X_L = take 16 cell_body; X_R = drop 16 cell_body
      in do { (s, X_R) \<leftarrow> cgo_prf_xor_t0 P (uiv_s uiv) X_L X_R;
              X_L \<leftarrow> cgo_et_decrypt P (uiv_j uiv) tweak X_R X_L;
              Some (uiv\<lparr>uiv_s := s\<rparr>, X_L @ X_R) })"

definition cgo_uiv_update :: "primitives \<Rightarrow> cgo_uiv \<Rightarrow> nat \<Rightarrow> bool \<Rightarrow> bytes \<Rightarrow> (cgo_uiv \<times> bytes) option" where
  "cgo_uiv_update P uiv aesbits encrypt nonce =
     (let aes_bytes = aesbits div 8;
          single_key_len = aes_bytes + POLYVAL_KEY_LEN;
          total_key_len = single_key_len * 2 + 16
      in do { (s, new_keys) \<leftarrow> cgo_prf_gen_t1 P (uiv_s uiv) nonce total_key_len;
              let j = cgo_et_set_key (uiv_j uiv) aesbits encrypt new_keys;
              let s = cgo_prf_set_key s aesbits (drop single_key_len new_keys);
              Some (\<lparr>uiv_j = j, uiv_s = s\<rparr>, get_bytes (single_key_len * 2) 16 new_keys) })"

section \<open>Cells\<close>

datatype cgo_mode = CGO_MODE_CLIENT_FORWARD | CGO_MODE_CLIENT_BACKWARD | CGO_MODE_RELAY_FORWARD | CGO_MODE_RELAY_BACKWARD

record cgo_crypt =
  cg_uiv :: cgo_uiv
  cg_nonce :: bytes
  cg_tprime :: bytes
  cg_last_tag_relay_fwd :: bytes
  cg_aes_bytes :: nat

definition mode_encrypts :: "cgo_mode \<Rightarrow> bool" where
  "mode_encrypts mode \<longleftrightarrow> mode = CGO_MODE_RELAY_BACKWARD \<or> mode = CGO_MODE_RELAY_FORWARD"

definition cgo_key_material_len :: "nat \<Rightarrow> nat option" where
  "cgo_key_material_len aesbits =
     (if \<not> (aesbits = 128 \<or> aesbits = 192 \<or> aesbits = 256) then None
      else let r = cgo_uiv_keylen aesbits + SENDME_TAG_LEN_CGO in if r * 2 \<le> 224 then Some r else None)"

definition cgo_crypt_new :: "cgo_mode \<Rightarrow> nat \<Rightarrow> bytes \<Rightarrow> cgo_crypt option" where
  "cgo_crypt_new mode aesbits keys =
     (if cgo_key_material_len aesbits \<noteq> Some (length keys) then None
      else Some \<lparr>cg_uiv = cgo_uiv_init aesbits (mode_encrypts mode) keys,
                 cg_nonce = get_bytes (cgo_uiv_keylen aesbits) SENDME_TAG_LEN_CGO keys,
                 cg_tprime = replicate SENDME_TAG_LEN_CGO 0, cg_last_tag_relay_fwd = replicate SENDME_TAG_LEN_CGO 0,
                 cg_aes_bytes = aesbits div 8\<rparr>)"

definition cgo_crypt_update :: "primitives \<Rightarrow> cgo_crypt \<Rightarrow> cgo_mode \<Rightarrow> cgo_crypt option" where
  "cgo_crypt_update P cgo mode =
     do { (uiv, nonce) \<leftarrow> cgo_uiv_update P (cg_uiv cgo) (cg_aes_bytes cgo * 8) (mode_encrypts mode) (cg_nonce cgo);
          Some (cgo\<lparr>cg_uiv := uiv, cg_nonce := nonce\<rparr>) }"

text \<open>The object, the cell, and the tag that is returned, if one is.\<close>

definition cgo_crypt_relay_forward :: "primitives \<Rightarrow> cgo_crypt \<Rightarrow> cell \<Rightarrow> (cgo_crypt \<times> cell \<times> bytes option) option" where
  "cgo_crypt_relay_forward P cgo c =
     (let h = \<lparr>tw_h = cg_tprime cgo, tw_cmd = cell_command c\<rparr>;
          cgo = cgo\<lparr>cg_last_tag_relay_fwd := take SENDME_TAG_LEN_CGO (cell_payload c)\<rparr>
      in do { (uiv, body) \<leftarrow> cgo_uiv_encrypt P (cg_uiv cgo) h (cell_payload c);
              let c = c\<lparr>cell_payload := body\<rparr>;
              let cgo = cgo\<lparr>cg_uiv := uiv, cg_tprime := take SENDME_TAG_LEN_CGO body\<rparr>;
              if take SENDME_TAG_LEN_CGO body = cg_nonce cgo then
                do { cgo \<leftarrow> cgo_crypt_update P cgo CGO_MODE_RELAY_FORWARD;
                     Some (cgo, c, Some (cg_last_tag_relay_fwd cgo)) }
              else Some (cgo, c, None) })"

definition cgo_crypt_relay_backward :: "primitives \<Rightarrow> cgo_crypt \<Rightarrow> cell \<Rightarrow> (cgo_crypt \<times> cell) option" where
  "cgo_crypt_relay_backward P cgo c =
     (let h = \<lparr>tw_h = cg_tprime cgo, tw_cmd = cell_command c\<rparr>
      in do { (uiv, body) \<leftarrow> cgo_uiv_encrypt P (cg_uiv cgo) h (cell_payload c);
              Some (cgo\<lparr>cg_uiv := uiv, cg_tprime := take SENDME_TAG_LEN_CGO body\<rparr>, c\<lparr>cell_payload := body\<rparr>) })"

definition cgo_crypt_relay_originate :: "primitives \<Rightarrow> cgo_crypt \<Rightarrow> cell \<Rightarrow> (cgo_crypt \<times> cell \<times> bytes) option" where
  "cgo_crypt_relay_originate P cgo c =
     (let h = \<lparr>tw_h = cg_tprime cgo, tw_cmd = cell_command c\<rparr>;
          c = c\<lparr>cell_payload := put_bytes 0 (cg_nonce cgo) (cell_payload c)\<rparr>
      in do { (uiv, body) \<leftarrow> cgo_uiv_encrypt P (cg_uiv cgo) h (cell_payload c);
              let c = c\<lparr>cell_payload := body\<rparr>;
              let cgo = cgo\<lparr>cg_uiv := uiv, cg_tprime := take SENDME_TAG_LEN_CGO body, cg_nonce := take SENDME_TAG_LEN_CGO body\<rparr>;
              cgo \<leftarrow> cgo_crypt_update P cgo CGO_MODE_RELAY_BACKWARD;
              Some (cgo, c, cg_tprime cgo) })"

definition cgo_crypt_client_forward :: "primitives \<Rightarrow> cgo_crypt \<Rightarrow> cell \<Rightarrow> (cgo_crypt \<times> cell) option" where
  "cgo_crypt_client_forward P cgo c =
     (let tprime_new = take SENDME_TAG_LEN_CGO (cell_payload c);
          h = \<lparr>tw_h = cg_tprime cgo, tw_cmd = cell_command c\<rparr>
      in do { (uiv, body) \<leftarrow> cgo_uiv_decrypt P (cg_uiv cgo) h (cell_payload c);
              Some (cgo\<lparr>cg_uiv := uiv, cg_tprime := tprime_new\<rparr>, c\<lparr>cell_payload := body\<rparr>) })"

definition cgo_crypt_client_originate :: "primitives \<Rightarrow> cgo_crypt \<Rightarrow> cell \<Rightarrow> (cgo_crypt \<times> cell \<times> bytes) option" where
  "cgo_crypt_client_originate P cgo c =
     do { (cgo, c) \<leftarrow> cgo_crypt_client_forward P cgo (c\<lparr>cell_payload := put_bytes 0 (cg_nonce cgo) (cell_payload c)\<rparr>);
          cgo \<leftarrow> cgo_crypt_update P cgo CGO_MODE_CLIENT_FORWARD;
          Some (cgo, c, take SENDME_TAG_LEN_CGO (cell_payload c)) }"

definition cgo_crypt_client_backward :: "primitives \<Rightarrow> cgo_crypt \<Rightarrow> cell \<Rightarrow> (cgo_crypt \<times> cell \<times> bytes option) option" where
  "cgo_crypt_client_backward P cgo c =
     (let h = \<lparr>tw_h = cg_tprime cgo, tw_cmd = cell_command c\<rparr>;
          t_orig = take SENDME_TAG_LEN_CGO (cell_payload c)
      in do { (uiv, body) \<leftarrow> cgo_uiv_decrypt P (cg_uiv cgo) h (cell_payload c);
              let c = c\<lparr>cell_payload := body\<rparr>;
              let cgo = cgo\<lparr>cg_uiv := uiv, cg_tprime := t_orig\<rparr>;
              if take SENDME_TAG_LEN_CGO body = cg_nonce cgo then
                do { cgo \<leftarrow> cgo_crypt_update P (cgo\<lparr>cg_nonce := t_orig\<rparr>) CGO_MODE_CLIENT_BACKWARD;
                     Some (cgo, c, Some (cg_tprime cgo)) }
              else Some (cgo, c, None) })"

declare polyval_add_zpad.simps [simp del]

section \<open>The cipher and its inverse\<close>

lemma add_block_length:
  "primitives_ok P \<Longrightarrow> length (pv_y pv) = 16 \<Longrightarrow> length block = 16 \<Longrightarrow> length (pv_y (polyval_add_block P pv block)) = 16"
  by (simp add: polyval_add_block_def primitives_ok_def)

lemma add_zpad_length:
  "primitives_ok P \<Longrightarrow> length (pv_y pv) = 16 \<Longrightarrow> length (pv_y (polyval_add_zpad P pv data)) = 16"
proof (induction P pv data rule: polyval_add_zpad.induct)
  case (1 P pv data)
  then show ?case by (subst polyval_add_zpad.simps) (simp add: add_block_length)
qed

lemma mask_length:
  "primitives_ok P \<Longrightarrow> length (tw_h tweak) = 16 \<Longrightarrow> length x_r = 493 \<Longrightarrow> length (compute_et_mask P ku tweak x_r) = 16"
  by (simp add: compute_et_mask_def Let_def polyval_get_tag_def add_zpad_length add_block_length polyval_init_def)

lemma prf_hash_length: "primitives_ok P \<Longrightarrow> length input = 16 \<Longrightarrow> length (prf_hash P b input) = 16"
  by (simp add: prf_hash_def Let_def polyval_get_tag_def add_block_length polyval_init_def)

text \<open>Two pseudorandom functions with one key, both at a block boundary.\<close>

definition prf_same :: "cgo_prf \<Rightarrow> cgo_prf \<Rightarrow> bool" where
  "prf_same s s' \<longleftrightarrow> ac_key (prf_k s) = ac_key (prf_k s') \<and> prf_b s = prf_b s'
     \<and> ac_pos (prf_k s) mod 16 = 0 \<and> ac_pos (prf_k s') mod 16 = 0"

definition prf_stream :: "primitives \<Rightarrow> cgo_prf \<Rightarrow> bytes \<Rightarrow> nat \<Rightarrow> bytes" where
  "prf_stream P s iv n = map (counter_byte P \<lparr>ac_key = ac_key (prf_k s), ac_iv = iv, ac_pos = 0\<rparr>) [0..<n]"

lemma length_prf_stream [simp]: "length (prf_stream P s iv n) = n"
  by (simp add: prf_stream_def)

lemma prf_stream_same: "prf_same s s' \<Longrightarrow> prf_stream P s = prf_stream P s'"
  by (simp add: prf_stream_def prf_same_def fun_eq_iff)

lemma counter_byte_iv: "counter_byte P (c\<lparr>ac_iv := iv, ac_pos := p\<rparr>) i = counter_byte P \<lparr>ac_key = ac_key c, ac_iv = iv, ac_pos = 0\<rparr> i"
  by (simp add: counter_byte_def)

lemma xor_t0:
  assumes "primitives_ok P" "prf_same s s" "length input = 16" "length data = 493"
  shows "\<exists>s'. cgo_prf_xor_t0 P s input data = Some (s', xor_bytes data (prf_stream P s (prf_hash P (prf_b s) input) 493)) \<and> prf_same s s'"
  using assms(2-) prf_hash_length [OF assms(1,3)]
  by (auto simp: cgo_prf_xor_t0_def Let_def aes_cipher_set_iv_aligned_def aes_crypt_inplace_def prf_same_def prf_stream_def
      counter_byte_iv cong: map_cong)

lemma gen_t1:
  assumes "primitives_ok P" "prf_same s s" "length input = 16"
  shows "\<exists>s'. cgo_prf_gen_t1 P s input n
    = Some (s', xor_bytes (replicate n 0) (prf_stream P s ((prf_hash P (prf_b s) input)[15 := prf_hash P (prf_b s) input ! 15 + T1_OFFSET]) n))
    \<and> prf_same s s'"
proof -
  have "(n + (16 - n mod 16)) mod 16 = 0" by presburger
  then show ?thesis
    using assms(2-) prf_hash_length [OF assms(1,3)]
    by (auto simp: cgo_prf_gen_t1_def Let_def aes_cipher_set_iv_aligned_def aes_crypt_inplace_def prf_same_def prf_stream_def
        counter_byte_iv cong: map_cong)
qed

text \<open>The client's cipher decrypts, the relay's encrypts, with the same keys.\<close>

definition uiv_sync :: "cgo_uiv \<Rightarrow> cgo_uiv \<Rightarrow> bool" where
  "uiv_sync u v \<longleftrightarrow> fst (et_kb (uiv_j u)) = fst (et_kb (uiv_j v)) \<and> \<not> snd (et_kb (uiv_j u)) \<and> snd (et_kb (uiv_j v))
     \<and> et_ku (uiv_j u) = et_ku (uiv_j v) \<and> prf_same (uiv_s u) (uiv_s v)"

lemma et_decrypt_encrypt:
  assumes "primitives_ok P" "length (tw_h t) = 16" "length x_r = 493" "length block = 16"
    and "fst (et_kb j) = fst (et_kb j')" "\<not> snd (et_kb j)" "snd (et_kb j')" "et_ku j = et_ku j'"
  shows "\<exists>b. cgo_et_encrypt P j' t x_r block = Some b \<and> length b = 16 \<and> cgo_et_decrypt P j t x_r b = Some block"
    and "\<exists>b. cgo_et_decrypt P j t x_r block = Some b \<and> length b = 16 \<and> cgo_et_encrypt P j' t x_r b = Some block"
  using mask_length [OF assms(1-3), of "et_ku j'"] assms
  by (simp_all add: cgo_et_encrypt_def cgo_et_decrypt_def Let_def aes_raw_encrypt_def aes_raw_decrypt_def primitives_ok_def)

lemma prf_same_sym: "prf_same s s' \<Longrightarrow> prf_same s' s"
  by (simp add: prf_same_def)

lemma prf_same_trans: "prf_same s s' \<Longrightarrow> prf_same s' s'' \<Longrightarrow> prf_same s s''"
  by (simp add: prf_same_def)

lemma xor_t0_same:
  assumes "primitives_ok P" "prf_same s v" "length input = 16" "length data = 493"
  shows "\<exists>s' v' d. cgo_prf_xor_t0 P v input data = Some (v', d) \<and> length d = 493 \<and> cgo_prf_xor_t0 P s input d = Some (s', data)
    \<and> prf_same s' v'"
proof -
  let ?k = "prf_stream P s (prf_hash P (prf_b s) input) 493"
  have k: "prf_stream P v (prf_hash P (prf_b v) input) 493 = ?k" using prf_stream_same [OF assms(2), of P] assms(2) by (simp add: prf_same_def)
  from xor_t0 [OF assms(1) _ assms(3,4), of v] assms(2) k obtain v' where
    v: "cgo_prf_xor_t0 P v input data = Some (v', xor_bytes data ?k)" "prf_same v v'" by (auto simp: prf_same_def)
  from xor_t0 [OF assms(1) _ assms(3), of s "xor_bytes data ?k"] assms(2,4) obtain s' where
    s: "cgo_prf_xor_t0 P s input (xor_bytes data ?k) = Some (s', data)" "prf_same s s'" by (auto simp: prf_same_def)
  from prf_same_trans [OF prf_same_sym [OF s(2)] prf_same_trans [OF assms(2) v(2)]] v(1) s(1) assms(4) show ?thesis by auto
qed

lemma uiv_roundtrip:
  assumes "primitives_ok P" "uiv_sync u v" "length (tw_h t) = 16" "length body = 509"
  shows "\<exists>u' v' b. cgo_uiv_decrypt P u t body = Some (u', b) \<and> length b = 509 \<and> cgo_uiv_encrypt P v t b = Some (v', body) \<and> uiv_sync u' v'"
    and "\<exists>u' v' b. cgo_uiv_encrypt P v t body = Some (v', b) \<and> length b = 509 \<and> cgo_uiv_decrypt P u t b = Some (u', body) \<and> uiv_sync u' v'"
proof -
  have j: "fst (et_kb (uiv_j u)) = fst (et_kb (uiv_j v))" "\<not> snd (et_kb (uiv_j u))" "snd (et_kb (uiv_j v))" "et_ku (uiv_j u) = et_ku (uiv_j v)"
    and p: "prf_same (uiv_s u) (uiv_s v)" "prf_same (uiv_s v) (uiv_s u)"
    using assms(2) prf_same_sym by (auto simp: uiv_sync_def)
  have l: "length (take 16 body) = 16" "length (drop 16 body) = 493" using assms(4) by simp_all
  obtain s' v' d where x: "cgo_prf_xor_t0 P (uiv_s u) (take 16 body) (drop 16 body) = Some (s', d)" "length d = 493"
    "cgo_prf_xor_t0 P (uiv_s v) (take 16 body) d = Some (v', drop 16 body)" "prf_same v' s'"
    using xor_t0_same [OF assms(1) p(2) l] by (elim exE conjE) rule
  obtain b where b: "cgo_et_decrypt P (uiv_j u) t d (take 16 body) = Some b" "length b = 16"
    "cgo_et_encrypt P (uiv_j v) t d b = Some (take 16 body)"
    using et_decrypt_encrypt(2) [OF assms(1,3) x(2) l(1) j] by (elim exE conjE) rule
  show "\<exists>u' v' b. cgo_uiv_decrypt P u t body = Some (u', b) \<and> length b = 509 \<and> cgo_uiv_encrypt P v t b = Some (v', body) \<and> uiv_sync u' v'"
    using x b j prf_same_sym [OF x(4)] by (auto simp: cgo_uiv_decrypt_def cgo_uiv_encrypt_def Let_def uiv_sync_def)
  obtain b where b: "cgo_et_encrypt P (uiv_j v) t (drop 16 body) (take 16 body) = Some b" "length b = 16"
    "cgo_et_decrypt P (uiv_j u) t (drop 16 body) b = Some (take 16 body)"
    using et_decrypt_encrypt(1) [OF assms(1,3) l(2) l(1) j] by (elim exE conjE) rule
  obtain s' v' d where x: "cgo_prf_xor_t0 P (uiv_s v) b (drop 16 body) = Some (v', d)" "length d = 493"
    "cgo_prf_xor_t0 P (uiv_s u) b d = Some (s', drop 16 body)" "prf_same s' v'"
    using xor_t0_same [OF assms(1) p(1) b(2) l(2)] by (elim exE conjE) rule
  show "\<exists>u' v' b. cgo_uiv_encrypt P v t body = Some (v', b) \<and> length b = 509 \<and> cgo_uiv_decrypt P u t b = Some (u', body) \<and> uiv_sync u' v'"
    using x b j by (auto simp: cgo_uiv_decrypt_def cgo_uiv_encrypt_def Let_def uiv_sync_def)
qed

lemma xor_zero: "length b = n \<Longrightarrow> xor_bytes (replicate n 0) b = b"
  by (rule nth_equalityI) simp_all

lemma uiv_update_sync:
  assumes "primitives_ok P" "uiv_sync u v" "length nonce = 16"
  shows "\<exists>u' v' n. cgo_uiv_update P u aesbits False nonce = Some (u', n) \<and> cgo_uiv_update P v aesbits True nonce = Some (v', n)
    \<and> length n = 16 \<and> uiv_sync u' v'"
proof -
  have p: "prf_same (uiv_s u) (uiv_s v)" using assms(2) by (simp add: uiv_sync_def)
  let ?n = "(aesbits div 8 + POLYVAL_KEY_LEN) * 2 + 16"
  let ?iv = "(prf_hash P (prf_b (uiv_s u)) nonce)[15 := prf_hash P (prf_b (uiv_s u)) nonce ! 15 + T1_OFFSET]"
  let ?k = "prf_stream P (uiv_s u) ?iv ?n"
  have b: "prf_b (uiv_s v) = prf_b (uiv_s u)" "prf_stream P (uiv_s v) = prf_stream P (uiv_s u)"
    using p prf_stream_same [OF p, of P] by (simp_all add: prf_same_def)
  obtain s1 where s1: "cgo_prf_gen_t1 P (uiv_s u) nonce ?n = Some (s1, ?k)" "prf_same (uiv_s u) s1"
    using gen_t1 [OF assms(1) _ assms(3), where s = "uiv_s u" and n = "?n"] p by (auto simp: xor_zero prf_same_def)
  obtain s2 where s2: "cgo_prf_gen_t1 P (uiv_s v) nonce ?n = Some (s2, ?k)" "prf_same (uiv_s v) s2"
    using gen_t1 [OF assms(1) _ assms(3), where s = "uiv_s v" and n = "?n"] p by (auto simp: xor_zero prf_same_def b)
  have l: "length (get_bytes ((aesbits div 8 + POLYVAL_KEY_LEN) * 2) 16 ?k) = 16" by (simp add: get_bytes_def)
  show ?thesis
    using s1(1) s2(1) l
    by (simp add: cgo_uiv_update_def Let_def uiv_sync_def cgo_et_set_key_def cgo_prf_set_key_def prf_same_def aes_cipher_set_key_def)
qed

section \<open>The two ends of a layer\<close>

definition cgo_sync :: "cgo_crypt \<Rightarrow> cgo_crypt \<Rightarrow> bool" where
  "cgo_sync c r \<longleftrightarrow> uiv_sync (cg_uiv c) (cg_uiv r) \<and> cg_nonce c = cg_nonce r \<and> length (cg_nonce r) = 16
     \<and> cg_tprime c = cg_tprime r \<and> length (cg_tprime r) = 16 \<and> cg_aes_bytes c = cg_aes_bytes r"

definition nonce_accepts :: "cgo_crypt \<Rightarrow> cell \<Rightarrow> bool" where
  "nonce_accepts cgo c \<longleftrightarrow> take 16 (cell_payload c) = cg_nonce cgo"

text \<open>Updating both ends with one nonce keeps them in step.\<close>

lemma update_sync:
  assumes "primitives_ok P" "cgo_sync c r" "\<not> mode_encrypts m" "mode_encrypts m'"
  shows "\<exists>c' r'. cgo_crypt_update P c m = Some c' \<and> cgo_crypt_update P r m' = Some r' \<and> cgo_sync c' r'
      \<and> cg_tprime c' = cg_tprime c \<and> cg_tprime r' = cg_tprime r \<and> cg_last_tag_relay_fwd r' = cg_last_tag_relay_fwd r"
proof -
  have s: "uiv_sync (cg_uiv c) (cg_uiv r)" "cg_nonce c = cg_nonce r" "length (cg_nonce r) = 16" "cg_aes_bytes c = cg_aes_bytes r"
    using assms(2) by (simp_all add: cgo_sync_def)
  from uiv_update_sync [OF assms(1) s(1,3), of "cg_aes_bytes r * 8"] assms(2-4) s show ?thesis
    by (auto simp: cgo_crypt_update_def cgo_sync_def)
qed

lemma update_defined: "primitives_ok P \<Longrightarrow> cgo_sync c r \<Longrightarrow> \<exists>r'. cgo_crypt_update P r CGO_MODE_RELAY_FORWARD = Some r'"
  "primitives_ok P \<Longrightarrow> cgo_sync c r \<Longrightarrow> \<exists>c'. cgo_crypt_update P c CGO_MODE_CLIENT_BACKWARD = Some c'"
  using update_sync [of P c r CGO_MODE_CLIENT_BACKWARD CGO_MODE_RELAY_FORWARD] by (auto simp: mode_encrypts_def)

lemma client_forward_sync:
  assumes "primitives_ok P" "cgo_sync a b" "length (cell_payload c) = CELL_PAYLOAD_SIZE"
  shows "\<exists>a' c' u. cgo_crypt_client_forward P a c = Some (a', c') \<and> length (cell_payload c') = CELL_PAYLOAD_SIZE
    \<and> cell_command c' = cell_command c
    \<and> cgo_uiv_encrypt P (cg_uiv b) \<lparr>tw_h = cg_tprime b, tw_cmd = cell_command c\<rparr> (cell_payload c') = Some (u, cell_payload c)
    \<and> cgo_sync a' (b\<lparr>cg_last_tag_relay_fwd := t, cg_uiv := u, cg_tprime := take 16 (cell_payload c)\<rparr>) \<and> cell_circ_id c' = cell_circ_id c"
proof -
  let ?t = "\<lparr>tw_h = cg_tprime b, tw_cmd = cell_command c\<rparr>"
  have s: "uiv_sync (cg_uiv a) (cg_uiv b)" "length (tw_h ?t) = 16" "cg_tprime a = cg_tprime b" using assms(2) by (simp_all add: cgo_sync_def)
  obtain u v d where x: "cgo_uiv_decrypt P (cg_uiv a) ?t (cell_payload c) = Some (u, d)" "length d = 509"
    "cgo_uiv_encrypt P (cg_uiv b) ?t d = Some (v, cell_payload c)" "uiv_sync u v"
    using uiv_roundtrip(1) [OF assms(1) s(1,2) assms(3)] by (elim exE conjE) rule
  with s(3) assms(2,3) show ?thesis by (auto simp: cgo_crypt_client_forward_def cgo_sync_def)
qed

lemma cgo_outward_passes:
  assumes "primitives_ok P" "cgo_sync a b" "length (cell_payload c) = CELL_PAYLOAD_SIZE" "\<not> nonce_accepts b c"
  shows "\<exists>a' c' b'. cgo_crypt_client_forward P a c = Some (a', c') \<and> length (cell_payload c') = CELL_PAYLOAD_SIZE
    \<and> cell_command c' = cell_command c \<and> cgo_crypt_relay_forward P b c' = Some (b', c, None) \<and> cgo_sync a' b'"
proof -
  obtain a' c' where c: "cgo_crypt_client_forward P a c = Some (a', c')"
    using client_forward_sync [OF assms(1-3)] by blast
  from client_forward_sync [OF assms(1-3), of "take 16 (cell_payload c')"] c assms(4) show ?thesis
    by (auto simp: cgo_crypt_relay_forward_def Let_def nonce_accepts_def)
qed

lemma cgo_outward_takes:
  assumes "primitives_ok P" "cgo_sync a b" "length (cell_payload c) = CELL_PAYLOAD_SIZE" "nonce_accepts b c"
  shows "\<exists>a' c' b' c'' t. cgo_crypt_client_forward P a c = Some (a', c') \<and> length (cell_payload c') = CELL_PAYLOAD_SIZE
    \<and> cell_command c' = cell_command c \<and> cgo_crypt_relay_forward P b c' = Some (b', c'', Some t)"
proof -
  obtain a' c' where c: "cgo_crypt_client_forward P a c = Some (a', c')"
    using client_forward_sync [OF assms(1-3)] by blast
  from client_forward_sync [OF assms(1-3), of "take 16 (cell_payload c')"] c obtain u where
    u: "cgo_uiv_encrypt P (cg_uiv b) \<lparr>tw_h = cg_tprime b, tw_cmd = cell_command c\<rparr> (cell_payload c') = Some (u, cell_payload c)"
      "cgo_sync a' (b\<lparr>cg_last_tag_relay_fwd := take 16 (cell_payload c'), cg_uiv := u, cg_tprime := take 16 (cell_payload c)\<rparr>)"
      "length (cell_payload c') = CELL_PAYLOAD_SIZE" "cell_command c' = cell_command c" by auto
  from update_defined(1) [OF assms(1) u(2)] u c assms(4) show ?thesis
    by (auto simp: cgo_crypt_relay_forward_def Let_def nonce_accepts_def)
qed

lemma cgo_outward_opens:
  assumes "primitives_ok P" "cgo_sync a b" "length (cell_payload c) = CELL_PAYLOAD_SIZE"
  shows "\<exists>a' c' b' c'' t. cgo_crypt_client_originate P a c = Some (a', c', t) \<and> length (cell_payload c') = CELL_PAYLOAD_SIZE
    \<and> cell_command c' = cell_command c \<and> cgo_crypt_relay_forward P b c' = Some (b', c'', Some t) \<and> cgo_sync a' b'
    \<and> same_message RELAY_CELL_FORMAT_V1 c c''"
proof -
  let ?c = "c\<lparr>cell_payload := put_bytes 0 (cg_nonce a) (cell_payload c)\<rparr>"
  have n: "cg_nonce a = cg_nonce b" "length (cg_nonce b) = 16" using assms(2) by (simp_all add: cgo_sync_def)
  have l: "length (cell_payload ?c) = CELL_PAYLOAD_SIZE" using n assms(3) by (simp add: octets)
  obtain a' c' where c: "cgo_crypt_client_forward P a ?c = Some (a', c')" using client_forward_sync [OF assms(1,2) l] by blast
  from client_forward_sync [OF assms(1,2) l, of "take 16 (cell_payload c')"] c obtain u where
    u: "cgo_uiv_encrypt P (cg_uiv b) \<lparr>tw_h = cg_tprime b, tw_cmd = cell_command c\<rparr> (cell_payload c') = Some (u, cell_payload ?c)"
      "cgo_sync a' (b\<lparr>cg_last_tag_relay_fwd := take 16 (cell_payload c'), cg_uiv := u, cg_tprime := take 16 (cell_payload ?c)\<rparr>)"
      "length (cell_payload c') = CELL_PAYLOAD_SIZE" "cell_command c' = cell_command c" "cell_circ_id c' = cell_circ_id c" by auto
  have t: "take 16 (cell_payload ?c) = cg_nonce b" using n by (simp add: put_bytes_def)
  have m: "same_message RELAY_CELL_FORMAT_V1 c ?c" using n assms(3) by (auto simp: same_message_def crypto_field_def octets)
  obtain a2 b2 where e: "cgo_crypt_update P a' CGO_MODE_CLIENT_FORWARD = Some a2"
    "cgo_crypt_update P (b\<lparr>cg_last_tag_relay_fwd := take 16 (cell_payload c'), cg_uiv := u, cg_tprime := take 16 (cell_payload ?c)\<rparr>)
      CGO_MODE_RELAY_FORWARD = Some b2" "cgo_sync a2 b2" "cg_last_tag_relay_fwd b2 = take 16 (cell_payload c')"
    using update_sync [OF assms(1) u(2), of CGO_MODE_CLIENT_FORWARD CGO_MODE_RELAY_FORWARD] by (auto simp: mode_encrypts_def)
  have "cgo_crypt_client_originate P a c = Some (a2, c', take 16 (cell_payload c'))"
    using c e(1) by (simp add: cgo_crypt_client_originate_def)
  moreover have "cgo_crypt_relay_forward P b c' = Some (b2, c'\<lparr>cell_payload := cell_payload ?c\<rparr>, Some (take 16 (cell_payload c')))"
    using u(1,4) e(2,4) t by (simp add: cgo_crypt_relay_forward_def Let_def)
  moreover have "c'\<lparr>cell_payload := cell_payload ?c\<rparr> = ?c" using u(4,5) by (simp add: cell.equality)
  ultimately show ?thesis using u(3,4) e(3) m by (intro exI conjI) simp_all
qed

lemma relay_backward_sync:
  assumes "primitives_ok P" "cgo_sync b a" "length (cell_payload c) = CELL_PAYLOAD_SIZE"
  shows "\<exists>a' c' u. cgo_crypt_relay_backward P a c = Some (a', c') \<and> length (cell_payload c') = CELL_PAYLOAD_SIZE
    \<and> cell_command c' = cell_command c \<and> cell_circ_id c' = cell_circ_id c
    \<and> cgo_uiv_decrypt P (cg_uiv b) \<lparr>tw_h = cg_tprime b, tw_cmd = cell_command c\<rparr> (cell_payload c') = Some (u, cell_payload c)
    \<and> cg_tprime a' = take 16 (cell_payload c') \<and> cgo_sync (b\<lparr>cg_uiv := u, cg_tprime := take 16 (cell_payload c')\<rparr>) a'"
proof -
  let ?t = "\<lparr>tw_h = cg_tprime b, tw_cmd = cell_command c\<rparr>"
  have s: "uiv_sync (cg_uiv b) (cg_uiv a)" "length (tw_h ?t) = 16" "cg_tprime a = cg_tprime b" using assms(2) by (simp_all add: cgo_sync_def)
  obtain u v d where x: "cgo_uiv_encrypt P (cg_uiv a) ?t (cell_payload c) = Some (v, d)" "length d = 509"
    "cgo_uiv_decrypt P (cg_uiv b) ?t d = Some (u, cell_payload c)" "uiv_sync u v"
    using uiv_roundtrip(2) [OF assms(1) s(1,2) assms(3)] by (elim exE conjE) rule
  with s(3) assms(2,3) show ?thesis by (auto simp: cgo_crypt_relay_backward_def cgo_sync_def)
qed

lemma cgo_inward_passes:
  assumes "primitives_ok P" "cgo_sync b a" "length (cell_payload c) = CELL_PAYLOAD_SIZE" "\<not> nonce_accepts b c"
  shows "\<exists>a' c' b'. cgo_crypt_relay_backward P a c = Some (a', c') \<and> length (cell_payload c') = CELL_PAYLOAD_SIZE
    \<and> cell_command c' = cell_command c \<and> cgo_crypt_client_backward P b c' = Some (b', c, None) \<and> cgo_sync b' a'"
  using relay_backward_sync [OF assms(1-3)] assms(4)
  by (auto simp: cgo_crypt_client_backward_def Let_def nonce_accepts_def)

lemma nonce_sync: "cgo_sync b a \<Longrightarrow> length n = 16 \<Longrightarrow> cgo_sync (b\<lparr>cg_nonce := n\<rparr>) (a\<lparr>cg_nonce := n\<rparr>)"
  by (simp add: cgo_sync_def)

lemma cgo_inward_takes:
  assumes "primitives_ok P" "cgo_sync b a" "length (cell_payload c) = CELL_PAYLOAD_SIZE" "nonce_accepts b c"
  shows "\<exists>a' c' b' c'' t. cgo_crypt_relay_backward P a c = Some (a', c') \<and> length (cell_payload c') = CELL_PAYLOAD_SIZE
    \<and> cell_command c' = cell_command c \<and> cgo_crypt_client_backward P b c' = Some (b', c'', Some t)"
proof -
  obtain a' c' u where u: "cgo_crypt_relay_backward P a c = Some (a', c')" "length (cell_payload c') = CELL_PAYLOAD_SIZE"
    "cell_command c' = cell_command c" "cell_circ_id c' = cell_circ_id c"
    "cgo_uiv_decrypt P (cg_uiv b) \<lparr>tw_h = cg_tprime b, tw_cmd = cell_command c\<rparr> (cell_payload c') = Some (u, cell_payload c)"
    "cg_tprime a' = take 16 (cell_payload c')" "cgo_sync (b\<lparr>cg_uiv := u, cg_tprime := take 16 (cell_payload c')\<rparr>) a'"
    using relay_backward_sync [OF assms(1-3)] by (elim exE conjE) rule
  have l: "length (take 16 (cell_payload c')) = 16" using u(2) by simp
  from update_defined(2) [OF assms(1) nonce_sync [OF u(7) l]] u assms(4) show ?thesis
    by (auto simp: cgo_crypt_client_backward_def Let_def nonce_accepts_def)
qed

lemma cgo_inward_opens:
  assumes "primitives_ok P" "cgo_sync b a" "length (cell_payload c) = CELL_PAYLOAD_SIZE"
  shows "\<exists>a' c' b' c'' t. cgo_crypt_relay_originate P a c = Some (a', c', t) \<and> length (cell_payload c') = CELL_PAYLOAD_SIZE
    \<and> cell_command c' = cell_command c \<and> cgo_crypt_client_backward P b c' = Some (b', c'', Some t) \<and> cgo_sync b' a'
    \<and> same_message RELAY_CELL_FORMAT_V1 c c''"
proof -
  let ?c = "c\<lparr>cell_payload := put_bytes 0 (cg_nonce a) (cell_payload c)\<rparr>"
  have n: "cg_nonce b = cg_nonce a" "length (cg_nonce a) = 16" using assms(2) by (simp_all add: cgo_sync_def)
  have l: "length (cell_payload ?c) = CELL_PAYLOAD_SIZE" using n assms(3) by (simp add: octets)
  have t: "take 16 (cell_payload ?c) = cg_nonce b" using n by (simp add: put_bytes_def)
  have m: "same_message RELAY_CELL_FORMAT_V1 c ?c" using n assms(3) by (auto simp: same_message_def crypto_field_def octets)
  obtain a' c' u where u: "cgo_crypt_relay_backward P a ?c = Some (a', c')" "length (cell_payload c') = CELL_PAYLOAD_SIZE"
    "cell_command c' = cell_command ?c" "cell_circ_id c' = cell_circ_id ?c"
    "cgo_uiv_decrypt P (cg_uiv b) \<lparr>tw_h = cg_tprime b, tw_cmd = cell_command ?c\<rparr> (cell_payload c') = Some (u, cell_payload ?c)"
    "cg_tprime a' = take 16 (cell_payload c')" "cgo_sync (b\<lparr>cg_uiv := u, cg_tprime := take 16 (cell_payload c')\<rparr>) a'"
    using relay_backward_sync [OF assms(1,2) l] by (elim exE conjE) rule
  have l': "length (take 16 (cell_payload c')) = 16" using u(2) by simp
  obtain b2 a2 where e: "cgo_crypt_update P (b\<lparr>cg_uiv := u, cg_tprime := take 16 (cell_payload c'), cg_nonce := take 16 (cell_payload c')\<rparr>)
      CGO_MODE_CLIENT_BACKWARD = Some b2" "cgo_crypt_update P (a'\<lparr>cg_nonce := take 16 (cell_payload c')\<rparr>) CGO_MODE_RELAY_BACKWARD = Some a2"
      "cgo_sync b2 a2" "cg_tprime b2 = take 16 (cell_payload c')" "cg_tprime a2 = take 16 (cell_payload c')"
    using update_sync [OF assms(1) nonce_sync [OF u(7) l'], of CGO_MODE_CLIENT_BACKWARD CGO_MODE_RELAY_BACKWARD] u(6)
    by (auto simp: mode_encrypts_def)
  have a2: "cgo_crypt_relay_originate P a c = Some (a2, c', take 16 (cell_payload c'))"
    using u(1) e(2,5) by (auto simp: cgo_crypt_relay_originate_def cgo_crypt_relay_backward_def Let_def bind_eq_Some_conv)
  have "cgo_crypt_client_backward P b c' = Some (b2, c'\<lparr>cell_payload := cell_payload ?c\<rparr>, Some (take 16 (cell_payload c')))"
    using u(3,5) e(1,4) t by (simp add: cgo_crypt_client_backward_def Let_def)
  moreover have "c'\<lparr>cell_payload := cell_payload ?c\<rparr> = ?c" using u(3,4) by (simp add: cell.equality)
  ultimately show ?thesis using a2 u(2,3) e(3) m by (intro exI conjI) simp_all
qed

section \<open>Keys\<close>

lemma cgo_new_sync:
  assumes "cgo_key_material_len aesbits = Some (length keys)" "\<not> mode_encrypts m" "mode_encrypts m'"
  shows "\<exists>c r. cgo_crypt_new m aesbits keys = Some c \<and> cgo_crypt_new m' aesbits keys = Some r \<and> cgo_sync c r"
proof -
  have "length keys = cgo_uiv_keylen aesbits + 16"
    using assms(1) by (simp add: cgo_key_material_len_def Let_def split: if_splits)
  then have "length (get_bytes (cgo_uiv_keylen aesbits) 16 keys) = 16" by (simp add: get_bytes_def)
  then show ?thesis
    using assms(2,3)
    by (simp add: cgo_crypt_new_def assms(1) cgo_sync_def uiv_sync_def cgo_uiv_init_def cgo_et_init_def cgo_prf_init_def prf_same_def
        aes_new_cipher_def Let_def)
qed

lemma be_value_mod: "length bs = 16 \<Longrightarrow> be_value bs mod 64 = unat (bs ! 15) mod 64"
proof -
  assume l: "length bs = 16"
  then have "take (Suc 15) bs = bs" "take (Suc 15) bs = take 15 bs @ [bs ! 15]" by (simp, intro take_Suc_conv_app_nth, simp)
  then have "be_value bs = be_value (take 15 bs @ [bs ! 15])" by (metis (no_types))
  then have "be_value bs = be_value (take 15 bs) * 256 + unat (bs ! 15)" by (simp add: be_value_def)
  moreover have "(a * 256 + n) mod 64 = n mod 64" for a n :: nat
    using mod_mult_self1 [of n "a * 4" 64] by (simp add: ac_simps)
  ultimately show ?thesis by (simp only:)
qed

lemma be_block_last: "unat (be_block n ! 15) mod 64 = n mod 64"
proof -
  have "be_block n ! 15 = of_nat n" by (simp add: be_block_def rev_nth)
  then have "unat (be_block n ! 15) = n mod 256" by (simp add: unat_of_nat)
  then show ?thesis by (simp add: mod_mod_cancel)
qed

lemma top_two_bits: "unat ((x :: 8 word) AND 0xC0) mod 64 = 0" "unat (((x :: 8 word) AND 0xC0) + 31) mod 64 = 31"
proof -
  have "take_bit 6 (x AND 0xC0) = 0" by (simp add: take_bit_and)
  then have "take_bit 6 (unat (x AND 0xC0)) = 0" by (simp only: unsigned_take_bit_eq [symmetric] unsigned_0)
  then show n: "unat (x AND 0xC0) mod 64 = 0" by (simp only: take_bit_eq_mod) simp
  have "unat ((x AND 0xC0) + 31) mod 64 = (unat (x AND 0xC0) + 31) mod 64" by (simp add: unat_word_ariths mod_mod_cancel)
  also have "\<dots> = 31" using n mod_add_left_eq [of "unat (x AND 0xC0)" 64 31] by simp
  finally show "unat ((x AND 0xC0) + 31) mod 64 = 31" .
qed

text \<open>The two outputs of the pseudorandom function never share keystream: no counter block that
  encrypts a cell body (31 blocks from the hash with its low six bits cleared) is ever a counter
  block that makes new keys (up to 7 blocks from 31 on), for the same or any other input.\<close>

theorem prf_positions_separate:
  assumes "primitives_ok P" "length x = 16" "length y = 16" "i < PRF_T0_DATA_LEN" "j < 112"
  shows "be_block (be_value (prf_hash P b x) + i div 16)
    \<noteq> be_block (be_value ((prf_hash P b' y)[15 := prf_hash P b' y ! 15 + T1_OFFSET]) + j div 16)"
proof
  let ?hx = "prf_hash P b x" and ?hy = "prf_hash P b' y"
  assume e: "be_block (be_value ?hx + i div 16) = be_block (be_value (?hy[15 := ?hy ! 15 + T1_OFFSET]) + j div 16)"
  have l: "length ?hx = 16" "length ?hy = 16" using prf_hash_length assms by simp_all
  have b: "\<exists>z. ?hx ! 15 = z AND 0xC0" "\<exists>z. ?hy ! 15 = z AND 0xC0"
    using l by (auto simp: prf_hash_def Let_def)
  have x: "be_value ?hx mod 64 = 0" using be_value_mod [OF l(1)] b(1) top_two_bits(1) by auto
  have y: "be_value (?hy[15 := ?hy ! 15 + T1_OFFSET]) mod 64 = 31"
    using be_value_mod [of "?hy[15 := ?hy ! 15 + T1_OFFSET]"] l(2) b(2) top_two_bits(2) by auto
  have "(be_value ?hx + i div 16) mod 64 = (be_value (?hy[15 := ?hy ! 15 + T1_OFFSET]) + j div 16) mod 64"
    using arg_cong [OF e, of "\<lambda>l. unat (l ! 15) mod 64"] by (simp only: be_block_last)
  moreover have "(n + d) mod 64 = d" if "n mod 64 = 0" "d < 64" for n d :: nat
    using that mod_add_left_eq [of n 64 d] by simp
  from this [OF x, of "i div 16"] have "(be_value ?hx + i div 16) mod 64 = i div 16" using assms(4) by simp
  moreover have "(n + d) mod 64 = 31 + d" if "n mod 64 = 31" "d < 33" for n d :: nat
    using that mod_add_left_eq [of n 64 d] by simp
  from this [OF y, of "j div 16"] have "(be_value (?hy[15 := ?hy ! 15 + T1_OFFSET]) + j div 16) mod 64 = 31 + j div 16" using assms(5) by simp
  ultimately have "i div 16 = 31 + j div 16" by (simp only:)
  moreover have "i div 16 < 31" using assms(4) by simp
  ultimately show False by simp
qed

lemma prf_positions_separate_witness:
  "be_block (be_value (prf_hash sample_primitives [] (replicate 16 1)) + 30)
    \<noteq> be_block (be_value ((prf_hash sample_primitives [] (replicate 16 2))[15 := prf_hash sample_primitives [] (replicate 16 2) ! 15 + T1_OFFSET]) + 6)"
  using prf_positions_separate [OF sample_ok, of "replicate 16 1" "replicate 16 2" 492 111] by simp

end
