(* ===== verification/Relay_Crypto.thy ===== *)
theory Relay_Crypto
  imports Cgo_Crypto
begin

text \<open>
  Relay cell encryption, src/core/crypto/relay_crypto.c: the operations of a layer of either kind, the
  client's layered encryption and decryption of a cell over its hops, the one layer that a relay adds
  or takes off, and the keying of a layer. A hop of the client's path is its position in the list of
  hops; \<open>None\<close> is a failed assertion.
\<close>

section \<open>Layers\<close>

record cgo_pair =
  pair_fwd :: cgo_crypt
  pair_back :: cgo_crypt
  pair_last_tag :: bytes

datatype relay_crypto = RCK_TOR1 tor1_crypt | RCK_CGO cgo_pair

definition relay_crypto_get_sendme_tag :: "relay_crypto \<Rightarrow> bytes" where
  "relay_crypto_get_sendme_tag crypto =
     (case crypto of RCK_TOR1 tor1 \<Rightarrow> sendme_digest tor1 | RCK_CGO cgo \<Rightarrow> pair_last_tag cgo)"

definition relay_crypt_client_backward :: "primitives \<Rightarrow> relay_crypto \<Rightarrow> cell \<Rightarrow> (relay_crypto \<times> cell \<times> bool) option" where
  "relay_crypt_client_backward P crypto c =
     (case crypto of
        RCK_TOR1 tor1 \<Rightarrow> (case tor1_crypt_client_backward P tor1 c of (tor1, c, r) \<Rightarrow> Some (RCK_TOR1 tor1, c, r))
      | RCK_CGO cgo \<Rightarrow>
          do { (back, c, tag) \<leftarrow> cgo_crypt_client_backward P (pair_back cgo) c;
               case tag of
                 Some tag \<Rightarrow> Some (RCK_CGO (cgo\<lparr>pair_back := back, pair_last_tag := tag\<rparr>), c, True)
               | None \<Rightarrow> Some (RCK_CGO (cgo\<lparr>pair_back := back\<rparr>), c, False) })"

definition relay_crypt_relay_forward :: "primitives \<Rightarrow> relay_crypto \<Rightarrow> cell \<Rightarrow> (relay_crypto \<times> cell \<times> bool) option" where
  "relay_crypt_relay_forward P crypto c =
     (case crypto of
        RCK_TOR1 tor1 \<Rightarrow> (case tor1_crypt_relay_forward P tor1 c of (tor1, c, r) \<Rightarrow> Some (RCK_TOR1 tor1, c, r))
      | RCK_CGO cgo \<Rightarrow>
          do { (fwd, c, tag) \<leftarrow> cgo_crypt_relay_forward P (pair_fwd cgo) c;
               case tag of
                 Some tag \<Rightarrow> Some (RCK_CGO (cgo\<lparr>pair_fwd := fwd, pair_last_tag := tag\<rparr>), c, True)
               | None \<Rightarrow> Some (RCK_CGO (cgo\<lparr>pair_fwd := fwd\<rparr>), c, False) })"

definition relay_crypt_relay_backward :: "primitives \<Rightarrow> relay_crypto \<Rightarrow> cell \<Rightarrow> (relay_crypto \<times> cell) option" where
  "relay_crypt_relay_backward P crypto c =
     (case crypto of
        RCK_TOR1 tor1 \<Rightarrow> (case tor1_crypt_relay_backward P tor1 c of (tor1, c) \<Rightarrow> Some (RCK_TOR1 tor1, c))
      | RCK_CGO cgo \<Rightarrow>
          do { (back, c) \<leftarrow> cgo_crypt_relay_backward P (pair_back cgo) c; Some (RCK_CGO (cgo\<lparr>pair_back := back\<rparr>), c) })"

definition relay_crypt_client_originate :: "primitives \<Rightarrow> relay_crypto \<Rightarrow> cell \<Rightarrow> (relay_crypto \<times> cell) option" where
  "relay_crypt_client_originate P crypto c =
     (case crypto of
        RCK_TOR1 tor1 \<Rightarrow> (case tor1_crypt_client_originate P tor1 c of (tor1, c) \<Rightarrow> Some (RCK_TOR1 tor1, c))
      | RCK_CGO cgo \<Rightarrow>
          do { (fwd, c, tag) \<leftarrow> cgo_crypt_client_originate P (pair_fwd cgo) c;
               Some (RCK_CGO (cgo\<lparr>pair_fwd := fwd, pair_last_tag := tag\<rparr>), c) })"

definition relay_crypt_client_forward :: "primitives \<Rightarrow> relay_crypto \<Rightarrow> cell \<Rightarrow> (relay_crypto \<times> cell) option" where
  "relay_crypt_client_forward P crypto c =
     (case crypto of
        RCK_TOR1 tor1 \<Rightarrow> (case tor1_crypt_client_forward P tor1 c of (tor1, c) \<Rightarrow> Some (RCK_TOR1 tor1, c))
      | RCK_CGO cgo \<Rightarrow>
          do { (fwd, c) \<leftarrow> cgo_crypt_client_forward P (pair_fwd cgo) c; Some (RCK_CGO (cgo\<lparr>pair_fwd := fwd\<rparr>), c) })"

definition relay_encrypt_cell_inbound :: "primitives \<Rightarrow> cell \<Rightarrow> relay_crypto \<Rightarrow> (relay_crypto \<times> cell) option" where
  "relay_encrypt_cell_inbound P c crypto =
     (case crypto of
        RCK_TOR1 tor1 \<Rightarrow> (case tor1_crypt_relay_originate P tor1 c of (tor1, c) \<Rightarrow> Some (RCK_TOR1 tor1, c))
      | RCK_CGO cgo \<Rightarrow>
          do { (back, c, tag) \<leftarrow> cgo_crypt_relay_originate P (pair_back cgo) c;
               Some (RCK_CGO (cgo\<lparr>pair_back := back, pair_last_tag := tag\<rparr>), c) })"

section \<open>Circuits\<close>

record crypt_hop =
  hop_open :: bool
  hop_crypto :: relay_crypto

datatype crypt_circuit = ORIGIN_CIRCUIT "crypt_hop list" | OR_CIRCUIT relay_crypto

datatype cell_direction = CELL_DIRECTION_IN | CELL_DIRECTION_OUT

text \<open>The loop over the hops: the hops afterwards, the cell, and the hop that recognized it.\<close>

fun decrypt_hops :: "primitives \<Rightarrow> crypt_hop list \<Rightarrow> nat \<Rightarrow> cell \<Rightarrow> (crypt_hop list \<times> cell \<times> nat option) option" where
  "decrypt_hops P [] i c = Some ([], c, None)"
| "decrypt_hops P (thishop # hops) i c =
     (if \<not> hop_open thishop then Some (thishop # hops, c, None)
      else do { (crypto, c, rec) \<leftarrow> relay_crypt_client_backward P (hop_crypto thishop) c;
                let thishop = thishop\<lparr>hop_crypto := crypto\<rparr>;
                if rec then Some (thishop # hops, c, Some i)
                else do { (hops, c, layer_hint) \<leftarrow> decrypt_hops P hops (i + 1) c;
                          Some (thishop # hops, c, layer_hint) } })"

text \<open>The circuit, the cell, the hop that recognized it at the origin, whether it was recognized, and
  what is returned.\<close>

definition relay_decrypt_cell ::
    "primitives \<Rightarrow> crypt_circuit \<Rightarrow> cell \<Rightarrow> cell_direction \<Rightarrow> (crypt_circuit \<times> cell \<times> nat option \<times> bool \<times> int) option" where
  "relay_decrypt_cell P circ c direction =
     (case direction of
        CELL_DIRECTION_IN \<Rightarrow>
          (case circ of
             ORIGIN_CIRCUIT cpath \<Rightarrow>
               (if cpath = [] then None
                else if \<not> hop_open (hd cpath) then Some (circ, c, None, False, - 1)
                else do { (cpath, c, layer_hint) \<leftarrow> decrypt_hops P cpath 0 c;
                          case layer_hint of
                            Some i \<Rightarrow> Some (ORIGIN_CIRCUIT cpath, c, Some i, True, 0)
                          | None \<Rightarrow> Some (ORIGIN_CIRCUIT cpath, c, None, False, - 1) })
           | OR_CIRCUIT crypto \<Rightarrow>
               do { (crypto, c) \<leftarrow> relay_crypt_relay_backward P crypto c; Some (OR_CIRCUIT crypto, c, None, False, 0) })
      | CELL_DIRECTION_OUT \<Rightarrow>
          (case circ of
             ORIGIN_CIRCUIT cpath \<Rightarrow> None
           | OR_CIRCUIT crypto \<Rightarrow>
               do { (crypto, c, rec) \<leftarrow> relay_crypt_relay_forward P crypto c; Some (OR_CIRCUIT crypto, c, None, rec, 0) }))"

definition hop_originate :: "primitives \<Rightarrow> crypt_hop \<Rightarrow> cell \<Rightarrow> (crypt_hop \<times> cell) option" where
  "hop_originate P hop c =
     do { (crypto, c) \<leftarrow> relay_crypt_client_originate P (hop_crypto hop) c; Some (hop\<lparr>hop_crypto := crypto\<rparr>, c) }"

definition hop_forward :: "primitives \<Rightarrow> crypt_hop \<Rightarrow> cell \<Rightarrow> (crypt_hop \<times> cell) option" where
  "hop_forward P hop c =
     do { (crypto, c) \<leftarrow> relay_crypt_client_forward P (hop_crypto hop) c; Some (hop\<lparr>hop_crypto := crypto\<rparr>, c) }"

text \<open>From a hop back to the first: \<open>add_layers add n\<close> works on the hops \<open>n - 1\<close> to 0.\<close>

fun add_layers :: "('s \<Rightarrow> cell \<Rightarrow> ('s \<times> cell) option) \<Rightarrow> nat \<Rightarrow> 's list \<Rightarrow> cell \<Rightarrow> ('s list \<times> cell) option" where
  "add_layers add 0 hops c = Some (hops, c)"
| "add_layers add (Suc i) hops c = do { (hop, c) \<leftarrow> add (hops ! i) c; add_layers add i (hops[i := hop]) c }"

definition relay_encrypt_cell_outbound :: "primitives \<Rightarrow> cell \<Rightarrow> crypt_hop list \<Rightarrow> nat \<Rightarrow> (crypt_hop list \<times> cell) option" where
  "relay_encrypt_cell_outbound P c cpath layer_hint =
     do { (hop, c) \<leftarrow> hop_originate P (cpath ! layer_hint) c;
          add_layers (hop_forward P) layer_hint (cpath[layer_hint := hop]) c }"

section \<open>Keys\<close>

datatype relay_crypto_alg =
  RELAY_CRYPTO_ALG_TOR1 | RELAY_CRYPTO_ALG_TOR1_HSC | RELAY_CRYPTO_ALG_TOR1_HSS
  | RELAY_CRYPTO_ALG_CGO_CLIENT | RELAY_CRYPTO_ALG_CGO_RELAY

abbreviation CGO_AES_BITS :: nat where "CGO_AES_BITS \<equiv> 128"

definition cgo_pair_init :: "bool \<Rightarrow> bytes \<Rightarrow> cgo_pair option" where
  "cgo_pair_init is_relay key_material =
     do { single_cgo_len \<leftarrow> cgo_key_material_len CGO_AES_BITS;
          if length key_material \<noteq> single_cgo_len * 2 then None
          else let (fwd_mode, back_mode) =
                     (if is_relay then (CGO_MODE_RELAY_FORWARD, CGO_MODE_RELAY_BACKWARD)
                      else (CGO_MODE_CLIENT_FORWARD, CGO_MODE_CLIENT_BACKWARD))
               in do { fwd \<leftarrow> cgo_crypt_new fwd_mode CGO_AES_BITS (take single_cgo_len key_material);
                       back \<leftarrow> cgo_crypt_new back_mode CGO_AES_BITS (drop single_cgo_len key_material);
                       Some \<lparr>pair_fwd = fwd, pair_back = back, pair_last_tag = replicate 16 0\<rparr> } }"

definition relay_crypto_init :: "primitives \<Rightarrow> relay_crypto_alg \<Rightarrow> bytes \<Rightarrow> relay_crypto option" where
  "relay_crypto_init P alg key_data =
     (case alg of
        RELAY_CRYPTO_ALG_TOR1 \<Rightarrow> map_option RCK_TOR1 (tor1_crypt_init P key_data False False)
      | RELAY_CRYPTO_ALG_TOR1_HSC \<Rightarrow> map_option RCK_TOR1 (tor1_crypt_init P key_data False True)
      | RELAY_CRYPTO_ALG_TOR1_HSS \<Rightarrow> map_option RCK_TOR1 (tor1_crypt_init P key_data True True)
      | RELAY_CRYPTO_ALG_CGO_CLIENT \<Rightarrow> map_option RCK_CGO (cgo_pair_init False key_data)
      | RELAY_CRYPTO_ALG_CGO_RELAY \<Rightarrow> map_option RCK_CGO (cgo_pair_init True key_data))"

definition relay_crypto_key_material_len :: "relay_crypto_alg \<Rightarrow> nat option" where
  "relay_crypto_key_material_len alg =
     (case alg of
        RELAY_CRYPTO_ALG_TOR1 \<Rightarrow> Some (tor1_key_material_len False)
      | RELAY_CRYPTO_ALG_TOR1_HSC \<Rightarrow> Some (tor1_key_material_len True)
      | RELAY_CRYPTO_ALG_TOR1_HSS \<Rightarrow> Some (tor1_key_material_len True)
      | RELAY_CRYPTO_ALG_CGO_CLIENT \<Rightarrow> map_option (\<lambda>n. n * 2) (cgo_key_material_len CGO_AES_BITS)
      | RELAY_CRYPTO_ALG_CGO_RELAY \<Rightarrow> map_option (\<lambda>n. n * 2) (cgo_key_material_len CGO_AES_BITS))"

end
