(* ===== verification/Onion.thy ===== *)
theory Onion
  imports Relay_Crypto
begin

text \<open>
  Onion routing: what a client encrypts for a hop of its circuit is opened by that hop and by no
  other, and what a hop sends back is opened by the client as coming from that hop, whatever mix of
  the two kinds of layers the circuit has. A locale states what one layer promises to the two ends in
  one direction; it is interpreted for cells away from the client and for cells towards it.
\<close>

section \<open>Receivers in a row\<close>

text \<open>A cell goes to each receiver in turn until one recognizes it.\<close>

fun try_layers :: "('r \<Rightarrow> cell \<Rightarrow> ('r \<times> cell \<times> bool) option) \<Rightarrow> 'r list \<Rightarrow> nat \<Rightarrow> cell \<Rightarrow> ('r list \<times> cell \<times> nat option) option" where
  "try_layers recv [] i c = Some ([], c, None)"
| "try_layers recv (r # rs) i c =
     do { (r, c, rec) \<leftarrow> recv r c;
          if rec then Some (r # rs, c, Some i)
          else do { (rs, c, j) \<leftarrow> try_layers recv rs (i + 1) c; Some (r # rs, c, j) } }"

lemma try_layers_take:
  "try_layers recv xs i c = Some (xs', c', Some j) \<Longrightarrow> try_layers recv (xs @ ys) i c = Some (xs' @ ys, c', Some j)"
  by (induction xs arbitrary: i c xs') (fastforce simp: bind_eq_Some_conv split: if_splits)+

lemma try_layers_pass:
  "try_layers recv xs i c = Some (xs', c', None) \<Longrightarrow>
     try_layers recv (xs @ ys) i c = do { (ys, c, j) \<leftarrow> try_layers recv ys (i + length xs) c'; Some (xs' @ ys, c, j) }"
proof (induction xs arbitrary: i c xs')
  case Nil
  then show ?case by (cases "try_layers recv ys i c") auto
next
  case (Cons x xs)
  from Cons.prems obtain x1 c1 xs1 where x: "recv x c = Some (x1, c1, False)" "try_layers recv xs (i + 1) c1 = Some (xs1, c', None)"
    "xs' = x1 # xs1" by (auto simp: bind_eq_Some_conv split: if_splits)
  from Cons.IH [OF x(2)] x show ?case by (cases "try_layers recv ys (i + length (x # xs)) c'") auto
qed

text \<open>Whether the receiver of some layer before \<open>i\<close> would take the cell for its own.\<close>

fun mistaken :: "('s \<Rightarrow> cell \<Rightarrow> ('s \<times> cell) option) \<Rightarrow> ('r \<Rightarrow> cell \<Rightarrow> bool) \<Rightarrow> nat \<Rightarrow> 's list \<Rightarrow> 'r list \<Rightarrow> cell \<Rightarrow> bool" where
  "mistaken add accepts 0 ss rs c = False"
| "mistaken add accepts (Suc i) ss rs c =
     (accepts (rs ! i) c \<or> (case add (ss ! i) c of None \<Rightarrow> False | Some (s, c) \<Rightarrow> mistaken add accepts i (ss[i := s]) rs c))"

section \<open>One layer\<close>

locale onion_direction =
  fixes good :: bool
    and fmt :: "'s \<Rightarrow> relay_cell_fmt"
    and add :: "'s \<Rightarrow> cell \<Rightarrow> ('s \<times> cell) option"
    and originate :: "'s \<Rightarrow> cell \<Rightarrow> ('s \<times> cell) option"
    and recv :: "'r \<Rightarrow> cell \<Rightarrow> ('r \<times> cell \<times> bool) option"
    and accepts :: "'r \<Rightarrow> cell \<Rightarrow> bool"
    and sync :: "'s \<Rightarrow> 'r \<Rightarrow> bool"
    and robust :: "'r \<Rightarrow> bool"
    and stag :: "'s \<Rightarrow> bytes"
    and rtag :: "'r \<Rightarrow> bytes"
  assumes passes: "good \<Longrightarrow> sync s r \<Longrightarrow> length (cell_payload c) = CELL_PAYLOAD_SIZE \<Longrightarrow> \<not> accepts r c
      \<Longrightarrow> \<exists>s' c' r'. add s c = Some (s', c') \<and> length (cell_payload c') = CELL_PAYLOAD_SIZE \<and> cell_command c' = cell_command c
        \<and> fmt s' = fmt s \<and> recv r c' = Some (r', c, False) \<and> (robust r \<longrightarrow> sync s' r' \<and> robust r')"
    and takes: "good \<Longrightarrow> sync s r \<Longrightarrow> length (cell_payload c) = CELL_PAYLOAD_SIZE \<Longrightarrow> accepts r c
      \<Longrightarrow> \<exists>s' c' r' c''. add s c = Some (s', c') \<and> length (cell_payload c') = CELL_PAYLOAD_SIZE \<and> cell_command c' = cell_command c
        \<and> fmt s' = fmt s \<and> recv r c' = Some (r', c'', True)"
    and opens: "good \<Longrightarrow> sync s r \<Longrightarrow> blank_cell (fmt s) c
      \<Longrightarrow> \<exists>s' c' r' c''. originate s c = Some (s', c') \<and> length (cell_payload c') = CELL_PAYLOAD_SIZE \<and> cell_command c' = cell_command c
        \<and> fmt s' = fmt s \<and> recv r c' = Some (r', c'', True) \<and> same_message (fmt s) c c'' \<and> sync s' r' \<and> stag s' = rtag r'
        \<and> (robust r \<longrightarrow> robust r')"
begin

lemma through_layers:
  assumes "good" "length (cell_payload c) = CELL_PAYLOAD_SIZE" "i \<le> length ss" "i \<le> length rs" "\<forall>j < i. sync (ss ! j) (rs ! j)"
  shows "\<exists>ss' c'. add_layers add i ss c = Some (ss', c') \<and> length ss' = length ss \<and> (\<forall>j \<ge> i. ss' ! j = ss ! j)
      \<and> length (cell_payload c') = CELL_PAYLOAD_SIZE \<and> cell_command c' = cell_command c
      \<and> ((\<exists>rs' c'' j. try_layers recv (take i rs) 0 c' = Some (rs', c'', Some j) \<and> j < i \<and> mistaken add accepts i ss rs c)
         \<or> (\<exists>rs'. try_layers recv (take i rs) 0 c' = Some (rs', c, None) \<and> length rs' = i \<and> \<not> mistaken add accepts i ss rs c
             \<and> (\<forall>j < i. robust (rs ! j) \<longrightarrow> sync (ss' ! j) (rs' ! j) \<and> robust (rs' ! j) \<and> fmt (ss' ! j) = fmt (ss ! j))))"
  using assms
proof (induction i arbitrary: c ss)
  case 0
  then show ?case by simp
next
  case (Suc i)
  have i: "i < length ss" "i < length rs" "sync (ss ! i) (rs ! i)" using Suc.prems by simp_all
  have t: "take (Suc i) rs = take i rs @ [rs ! i]" using i(2) by (rule take_Suc_conv_app_nth)
  show ?case
  proof (cases "accepts (rs ! i) c")
    case True
    obtain s' c1 r' c2 where s: "add (ss ! i) c = Some (s', c1)" "length (cell_payload c1) = CELL_PAYLOAD_SIZE"
      "cell_command c1 = cell_command c" "recv (rs ! i) c1 = Some (r', c2, True)"
      using takes [OF Suc.prems(1) i(3) Suc.prems(2) True] by (elim exE conjE) rule
    have "\<forall>j < i. sync (ss[i := s'] ! j) (rs ! j)" using Suc.prems(5) by simp
    from Suc.IH [OF Suc.prems(1) s(2) _ _ this] i(1,2) obtain ss' c' where
      a: "add_layers add i (ss[i := s']) c1 = Some (ss', c')" "length ss' = length ss" "\<forall>j \<ge> i. ss' ! j = ss[i := s'] ! j"
        "length (cell_payload c') = CELL_PAYLOAD_SIZE" "cell_command c' = cell_command c1"
      and "(\<exists>rs' c'' j. try_layers recv (take i rs) 0 c' = Some (rs', c'', Some j) \<and> j < i)
         \<or> (\<exists>rs'. try_layers recv (take i rs) 0 c' = Some (rs', c1, None))" by auto
    then have "\<exists>rs' c'' j. try_layers recv (take (Suc i) rs) 0 c' = Some (rs', c'', Some j) \<and> j < Suc i"
    proof (elim disjE exE conjE)
      fix rs' c'' j
      assume "try_layers recv (take i rs) 0 c' = Some (rs', c'', Some j)" "j < i"
      with try_layers_take [OF this(1), of "[rs ! i]"] show ?thesis by (auto simp: t)
    next
      fix rs'
      assume "try_layers recv (take i rs) 0 c' = Some (rs', c1, None)"
      from try_layers_pass [OF this, of "[rs ! i]"] s(4) i(2) show ?thesis by (auto simp: t)
    qed
    with a s True show ?thesis by auto
  next
    case False
    obtain s' c1 r' where s: "add (ss ! i) c = Some (s', c1)" "length (cell_payload c1) = CELL_PAYLOAD_SIZE"
      "cell_command c1 = cell_command c" "fmt s' = fmt (ss ! i)" "recv (rs ! i) c1 = Some (r', c, False)"
      "robust (rs ! i) \<longrightarrow> sync s' r' \<and> robust r'"
      using passes [OF Suc.prems(1) i(3) Suc.prems(2) False] by (elim exE conjE) rule
    have "\<forall>j < i. sync (ss[i := s'] ! j) (rs ! j)" using Suc.prems(5) by simp
    from Suc.IH [OF Suc.prems(1) s(2) _ _ this] i(1,2) obtain ss' c' where
      a: "add_layers add i (ss[i := s']) c1 = Some (ss', c')" "length ss' = length ss" "\<forall>j \<ge> i. ss' ! j = ss[i := s'] ! j"
        "length (cell_payload c') = CELL_PAYLOAD_SIZE" "cell_command c' = cell_command c1"
      and d: "(\<exists>rs' c'' j. try_layers recv (take i rs) 0 c' = Some (rs', c'', Some j) \<and> j < i \<and> mistaken add accepts i (ss[i := s']) rs c1)
         \<or> (\<exists>rs'. try_layers recv (take i rs) 0 c' = Some (rs', c1, None) \<and> length rs' = i \<and> \<not> mistaken add accepts i (ss[i := s']) rs c1
             \<and> (\<forall>j < i. robust (rs ! j) \<longrightarrow> sync (ss' ! j) (rs' ! j) \<and> robust (rs' ! j) \<and> fmt (ss' ! j) = fmt (ss[i := s'] ! j)))" by auto
    have m: "mistaken add accepts (Suc i) ss rs c \<longleftrightarrow> mistaken add accepts i (ss[i := s']) rs c1" using s(1) False by simp
    from d show ?thesis
    proof (elim disjE exE conjE)
      fix rs' c'' j
      assume r: "try_layers recv (take i rs) 0 c' = Some (rs', c'', Some j)" "j < i" "mistaken add accepts i (ss[i := s']) rs c1"
      then have "try_layers recv (take (Suc i) rs) 0 c' = Some (rs' @ [rs ! i], c'', Some j)"
        using try_layers_take [OF r(1), of "[rs ! i]"] by (simp add: t)
      with a s(1,3) r(2,3) m show ?thesis by auto
    next
      fix rs'
      assume r: "try_layers recv (take i rs) 0 c' = Some (rs', c1, None)" "length rs' = i" "\<not> mistaken add accepts i (ss[i := s']) rs c1"
        "\<forall>j < i. robust (rs ! j) \<longrightarrow> sync (ss' ! j) (rs' ! j) \<and> robust (rs' ! j) \<and> fmt (ss' ! j) = fmt (ss[i := s'] ! j)"
      have p: "try_layers recv (take (Suc i) rs) 0 c' = Some (rs' @ [r'], c, None)"
        using try_layers_pass [OF r(1), of "[rs ! i]"] s(5) by (simp add: t)
      have "robust (rs ! j) \<longrightarrow> sync (ss' ! j) ((rs' @ [r']) ! j) \<and> robust ((rs' @ [r']) ! j) \<and> fmt (ss' ! j) = fmt (ss ! j)" if "j < Suc i" for j
        using that r(2,4) s(4,6) a(3) i(1) by (cases "j = i") (auto simp: nth_append)
      with p a s(1,3) r(2,3) m show ?thesis by auto
    qed
  qed
qed

text \<open>The whole way: to layer \<open>k\<close>, unless one before it mistakes the cell for its own.\<close>

lemma delivered:
  assumes "good" "k < length ss" "length rs = length ss" "\<forall>j \<le> k. sync (ss ! j) (rs ! j)" "blank_cell (fmt (ss ! k)) c"
  shows "\<exists>s c1 ss' c' rs' c'' j. originate (ss ! k) c = Some (s, c1) \<and> add_layers add k (ss[k := s]) c1 = Some (ss', c')
      \<and> length ss' = length ss \<and> (\<forall>j > k. ss' ! j = ss ! j) \<and> cell_command c' = cell_command c
      \<and> try_layers recv rs 0 c' = Some (rs', c'', Some j) \<and> j \<le> k
      \<and> (j < k \<longrightarrow> mistaken add accepts k (ss[k := s]) rs c1)
      \<and> (j = k \<longrightarrow> \<not> mistaken add accepts k (ss[k := s]) rs c1
           \<and> same_message (fmt (ss ! k)) c c'' \<and> stag (ss' ! k) = rtag (rs' ! k) \<and> length rs' = length rs \<and> (\<forall>j > k. rs' ! j = rs ! j)
           \<and> sync (ss' ! k) (rs' ! k) \<and> fmt (ss' ! k) = fmt (ss ! k) \<and> (robust (rs ! k) \<longrightarrow> robust (rs' ! k))
           \<and> (\<forall>j < k. robust (rs ! j) \<longrightarrow> sync (ss' ! j) (rs' ! j) \<and> robust (rs' ! j) \<and> fmt (ss' ! j) = fmt (ss ! j)))"
proof -
  have sk: "sync (ss ! k) (rs ! k)" using assms(4) by simp
  obtain s c1 r c2 where o1: "originate (ss ! k) c = Some (s, c1)" "length (cell_payload c1) = CELL_PAYLOAD_SIZE"
    "cell_command c1 = cell_command c" "fmt s = fmt (ss ! k)" "recv (rs ! k) c1 = Some (r, c2, True)"
    "same_message (fmt (ss ! k)) c c2" "sync s r" "stag s = rtag r" "robust (rs ! k) \<longrightarrow> robust r"
    using opens [OF assms(1) sk assms(5)] by (elim exE conjE) rule
  have "\<forall>j < k. sync (ss[k := s] ! j) (rs ! j)" using assms(4) by simp
  from through_layers [OF assms(1) o1(2) _ _ this] assms(2,3) obtain ss' c' where
    a: "add_layers add k (ss[k := s]) c1 = Some (ss', c')" "length ss' = length ss" "\<forall>j \<ge> k. ss' ! j = ss[k := s] ! j"
      "cell_command c' = cell_command c1"
    and d: "(\<exists>rs' c'' j. try_layers recv (take k rs) 0 c' = Some (rs', c'', Some j) \<and> j < k \<and> mistaken add accepts k (ss[k := s]) rs c1)
       \<or> (\<exists>rs'. try_layers recv (take k rs) 0 c' = Some (rs', c1, None) \<and> length rs' = k \<and> \<not> mistaken add accepts k (ss[k := s]) rs c1
           \<and> (\<forall>j < k. robust (rs ! j) \<longrightarrow> sync (ss' ! j) (rs' ! j) \<and> robust (rs' ! j) \<and> fmt (ss' ! j) = fmt (ss[k := s] ! j)))" by auto
  have rs: "rs = take k rs @ rs ! k # drop (Suc k) rs" using assms(2,3) by (simp add: id_take_nth_drop)
  have ssk: "ss' ! k = s" using a(3) assms(2) by simp
  from d show ?thesis
  proof (elim disjE exE conjE)
    fix rs' c'' j
    assume r: "try_layers recv (take k rs) 0 c' = Some (rs', c'', Some j)" "j < k" "mistaken add accepts k (ss[k := s]) rs c1"
    from try_layers_take [OF r(1), of "rs ! k # drop (Suc k) rs"] rs
    have "try_layers recv rs 0 c' = Some (rs' @ rs ! k # drop (Suc k) rs, c'', Some j)" by simp
    with o1(1,3) a r(2,3) show ?thesis by auto
  next
    fix rs'
    assume r: "try_layers recv (take k rs) 0 c' = Some (rs', c1, None)" "length rs' = k" "\<not> mistaken add accepts k (ss[k := s]) rs c1"
      "\<forall>j < k. robust (rs ! j) \<longrightarrow> sync (ss' ! j) (rs' ! j) \<and> robust (rs' ! j) \<and> fmt (ss' ! j) = fmt (ss[k := s] ! j)"
    let ?rs = "rs' @ r # drop (Suc k) rs"
    have t: "try_layers recv rs 0 c' = Some (?rs, c2, Some k)"
      using try_layers_pass [OF r(1), of "rs ! k # drop (Suc k) rs"] o1(5) rs assms(2,3) by simp
    have n: "?rs ! k = r" "length ?rs = length rs" "\<And>j. j < k \<Longrightarrow> ?rs ! j = rs' ! j"
      using r(2) assms(2,3) by (simp_all add: nth_append)
    have above: "?rs ! j = rs ! j" if "k < j" for j
    proof -
      have "?rs ! j = drop (Suc k) rs ! (j - Suc k)" using that r(2) by (simp add: nth_append nth_Cons' )
      then show ?thesis using that assms(2,3) by (simp add: nth_drop)
    qed
    have "\<forall>j < k. robust (rs ! j) \<longrightarrow> sync (ss' ! j) (?rs ! j) \<and> robust (?rs ! j) \<and> fmt (ss' ! j) = fmt (ss ! j)"
      using r(4) n(3) by simp
    moreover have "\<forall>j > k. ss' ! j = ss ! j" using a(3) by simp
    ultimately show ?thesis
      using o1(1,3) a t r(3) o1(4,6-9) n(1,2) above ssk
      by (intro exI [of _ s] exI [of _ c1] exI [of _ ss'] exI [of _ c'] exI [of _ ?rs] exI [of _ c2] exI [of _ k] conjI impI) auto
  qed
qed

end

section \<open>The two directions\<close>

definition layer_format :: "relay_crypto \<Rightarrow> relay_cell_fmt" where
  "layer_format crypto = (case crypto of RCK_TOR1 _ \<Rightarrow> RELAY_CELL_FORMAT_V0 | RCK_CGO _ \<Rightarrow> RELAY_CELL_FORMAT_V1)"

text \<open>An open hop of the client and the relay that shares its keys.\<close>

definition layer_sync :: "relay_crypto \<Rightarrow> relay_crypto \<Rightarrow> bool" where
  "layer_sync c r \<longleftrightarrow>
     (case (c, r) of
        (RCK_TOR1 a, RCK_TOR1 b) \<Rightarrow> tor1_sync a b
      | (RCK_CGO a, RCK_CGO b) \<Rightarrow> cgo_sync (pair_fwd a) (pair_fwd b) \<and> cgo_sync (pair_back a) (pair_back b)
      | _ \<Rightarrow> False)"

definition hop_sync :: "crypt_hop \<Rightarrow> relay_crypto \<Rightarrow> bool" where
  "hop_sync h r \<longleftrightarrow> hop_open h \<and> layer_sync (hop_crypto h) r"

definition layer_robust :: "relay_crypto \<Rightarrow> bool" where
  "layer_robust crypto = (case crypto of RCK_TOR1 t \<Rightarrow> tor1_robust t | RCK_CGO _ \<Rightarrow> True)"

definition outward_accepts :: "primitives \<Rightarrow> relay_crypto \<Rightarrow> cell \<Rightarrow> bool" where
  "outward_accepts P crypto c = (case crypto of RCK_TOR1 t \<Rightarrow> digest_accepts P (f_digest t) c | RCK_CGO p \<Rightarrow> nonce_accepts (pair_fwd p) c)"

definition inward_accepts :: "primitives \<Rightarrow> relay_crypto \<Rightarrow> cell \<Rightarrow> bool" where
  "inward_accepts P crypto c = (case crypto of RCK_TOR1 t \<Rightarrow> digest_accepts P (b_digest t) c | RCK_CGO p \<Rightarrow> nonce_accepts (pair_back p) c)"

definition hop_backward :: "primitives \<Rightarrow> crypt_hop \<Rightarrow> cell \<Rightarrow> (crypt_hop \<times> cell \<times> bool) option" where
  "hop_backward P hop c =
     do { (crypto, c, rec) \<leftarrow> relay_crypt_client_backward P (hop_crypto hop) c; Some (hop\<lparr>hop_crypto := crypto\<rparr>, c, rec) }"

lemmas layer_defs = layer_format_def layer_sync_def hop_sync_def layer_robust_def outward_accepts_def inward_accepts_def
  hop_backward_def hop_forward_def hop_originate_def relay_crypto_get_sendme_tag_def

lemma layer_sync_cases:
  assumes "layer_sync c r"
  obtains (tor1) a b where "c = RCK_TOR1 a" "r = RCK_TOR1 b" "tor1_sync a b"
    | (cgo) a b where "c = RCK_CGO a" "r = RCK_CGO b" "cgo_sync (pair_fwd a) (pair_fwd b)" "cgo_sync (pair_back a) (pair_back b)"
  using assms by (auto simp: layer_sync_def split: relay_crypto.splits)

lemma same_message_refl: "blank_cell f c \<Longrightarrow> same_message f c c"
  by (simp add: same_message_def blank_cell_def)

lemma same_length: "blank_cell f c \<Longrightarrow> length (cell_payload c) = CELL_PAYLOAD_SIZE"
  by (simp add: blank_cell_def)

interpretation outward: onion_direction "primitives_ok P" "\<lambda>h. layer_format (hop_crypto h)" "hop_forward P" "hop_originate P"
    "relay_crypt_relay_forward P" "outward_accepts P" hop_sync "layer_robust"
    "\<lambda>h. relay_crypto_get_sendme_tag (hop_crypto h)" relay_crypto_get_sendme_tag for P
proof (unfold_locales, goal_cases)
  case (1 h r c)
  from 1(2) have o1: "hop_open h" and s: "layer_sync (hop_crypto h) r" by (simp_all add: hop_sync_def)
  from s show ?case
  proof (cases rule: layer_sync_cases)
    case (tor1 a b)
    with tor1_outward_passes [OF tor1(3) 1(3), of P] 1(4) o1 show ?thesis
      by (auto simp: layer_defs relay_crypt_client_forward_def relay_crypt_relay_forward_def)
  next
    case (cgo a b)
    with cgo_outward_passes [OF 1(1) cgo(3) 1(3)] 1(4) o1 show ?thesis
      by (auto simp: layer_defs relay_crypt_client_forward_def relay_crypt_relay_forward_def)
  qed
next
  case (2 h r c)
  from 2(2) have s: "layer_sync (hop_crypto h) r" by (simp add: hop_sync_def)
  from s show ?case
  proof (cases rule: layer_sync_cases)
    case (tor1 a b)
    with tor1_outward_takes [OF tor1(3) 2(3), of P] 2(4) show ?thesis
      by (auto simp: layer_defs relay_crypt_client_forward_def relay_crypt_relay_forward_def)
  next
    case (cgo a b)
    with cgo_outward_takes [OF 2(1) cgo(3) 2(3)] 2(4) show ?thesis
      by (auto simp: layer_defs relay_crypt_client_forward_def relay_crypt_relay_forward_def)
  qed
next
  case (3 h r c)
  from 3(2) have o1: "hop_open h" and s: "layer_sync (hop_crypto h) r" by (simp_all add: hop_sync_def)
  from s show ?case
  proof (cases rule: layer_sync_cases)
    case (tor1 a b)
    with 3(3) have b: "blank_cell RELAY_CELL_FORMAT_V0 c" by (simp add: layer_format_def)
    from tor1 tor1_outward_opens [OF 3(1) tor1(3) b] o1 same_message_refl [OF b] show ?thesis
      by (auto simp: layer_defs relay_crypt_client_originate_def relay_crypt_relay_forward_def)
  next
    case (cgo a b)
    from cgo cgo_outward_opens [OF 3(1) cgo(3) same_length [OF 3(3)]] o1 show ?thesis
      by (auto simp: layer_defs relay_crypt_client_originate_def relay_crypt_relay_forward_def)
  qed
qed

interpretation inward: onion_direction "primitives_ok P" layer_format "relay_crypt_relay_backward P" "\<lambda>r c. relay_encrypt_cell_inbound P c r"
    "hop_backward P" "\<lambda>h. inward_accepts P (hop_crypto h)" "\<lambda>r h. hop_sync h r" "\<lambda>h. layer_robust (hop_crypto h)"
    relay_crypto_get_sendme_tag "\<lambda>h. relay_crypto_get_sendme_tag (hop_crypto h)" for P
proof (unfold_locales, goal_cases)
  case (1 r h c)
  from 1(2) have o1: "hop_open h" and s: "layer_sync (hop_crypto h) r" by (simp_all add: hop_sync_def)
  from s show ?case
  proof (cases rule: layer_sync_cases)
    case (tor1 a b)
    with tor1_inward_passes [OF tor1(3) 1(3), of P] 1(4) o1 show ?thesis
      by (auto simp: layer_defs relay_crypt_relay_backward_def relay_crypt_client_backward_def)
  next
    case (cgo a b)
    with cgo_inward_passes [OF 1(1) cgo(4) 1(3)] 1(4) o1 show ?thesis
      by (auto simp: layer_defs relay_crypt_relay_backward_def relay_crypt_client_backward_def)
  qed
next
  case (2 r h c)
  from 2(2) have s: "layer_sync (hop_crypto h) r" by (simp add: hop_sync_def)
  from s show ?case
  proof (cases rule: layer_sync_cases)
    case (tor1 a b)
    with tor1_inward_takes [OF tor1(3) 2(3), of P] 2(4) show ?thesis
      by (auto simp: layer_defs relay_crypt_relay_backward_def relay_crypt_client_backward_def)
  next
    case (cgo a b)
    with cgo_inward_takes [OF 2(1) cgo(4) 2(3)] 2(4) show ?thesis
      by (auto simp: layer_defs relay_crypt_relay_backward_def relay_crypt_client_backward_def)
  qed
next
  case (3 r h c)
  from 3(2) have o1: "hop_open h" and s: "layer_sync (hop_crypto h) r" by (simp_all add: hop_sync_def)
  from s show ?case
  proof (cases rule: layer_sync_cases)
    case (tor1 a b)
    with 3(3) have b: "blank_cell RELAY_CELL_FORMAT_V0 c" by (simp add: layer_format_def)
    from tor1 tor1_inward_opens [OF 3(1) tor1(3) b] o1 same_message_refl [OF b] show ?thesis
      by (auto simp: layer_defs relay_encrypt_cell_inbound_def relay_crypt_client_backward_def)
  next
    case (cgo a b)
    from cgo cgo_inward_opens [OF 3(1) cgo(4) same_length [OF 3(3)]] o1 show ?thesis
      by (auto simp: layer_defs relay_encrypt_cell_inbound_def relay_crypt_client_backward_def)
  qed
qed

end
