(* ===== verification/Onion_Circuit.thy ===== *)
theory Onion_Circuit
  imports Onion
begin

text \<open>
  A circuit with its client and its relays: messages are encoded into cells, encrypted, passed along
  the relays in either direction and decoded where they are recognized.
\<close>

section \<open>The way of a cell\<close>

text \<open>Outward, each relay takes off its layer and passes the cell on unless it is recognized.\<close>

fun outward_path :: "primitives \<Rightarrow> relay_crypto list \<Rightarrow> nat \<Rightarrow> cell \<Rightarrow> (relay_crypto list \<times> cell \<times> nat option) option" where
  "outward_path P [] i c = Some ([], c, None)"
| "outward_path P (r # rs) i c =
     (case relay_decrypt_cell P (OR_CIRCUIT r) c CELL_DIRECTION_OUT of
        Some (OR_CIRCUIT r, c, _, rec, _) \<Rightarrow>
          if rec then Some (r # rs, c, Some i)
          else do { (rs, c, j) \<leftarrow> outward_path P rs (i + 1) c; Some (r # rs, c, j) }
      | _ \<Rightarrow> None)"

text \<open>Inward, the relays \<open>n - 1\<close> to 0 add their layers.\<close>

fun inward_path :: "primitives \<Rightarrow> nat \<Rightarrow> relay_crypto list \<Rightarrow> cell \<Rightarrow> (relay_crypto list \<times> cell) option" where
  "inward_path P 0 rs c = Some (rs, c)"
| "inward_path P (Suc i) rs c =
     (case relay_decrypt_cell P (OR_CIRCUIT (rs ! i)) c CELL_DIRECTION_IN of
        Some (OR_CIRCUIT r, c, _, _, _) \<Rightarrow> inward_path P i (rs[i := r]) c
      | _ \<Rightarrow> None)"

text \<open>A message between the client and a hop, with the random padding of its cell.\<close>

datatype onion_message =
  Outward (onion_hop: nat) (onion_msg: relay_message) (onion_pad: "nat \<Rightarrow> bytes")
| Inward (onion_hop: nat) (onion_msg: relay_message) (onion_pad: "nat \<Rightarrow> bytes")

text \<open>The client's hops and the relays afterwards, the hop that the cell was recognized for, and the
  message that was decoded.\<close>

fun send_onion ::
    "primitives \<Rightarrow> crypt_hop list \<Rightarrow> relay_crypto list \<Rightarrow> onion_message
       \<Rightarrow> (crypt_hop list \<times> relay_crypto list \<times> nat \<times> relay_message option) option" where
  "send_onion P hops rs (Outward k msg rng) =
     do { c \<leftarrow> relay_msg_encode_cell (layer_format (hop_crypto (hops ! k))) rng msg;
          (hops, c) \<leftarrow> relay_encrypt_cell_outbound P c hops k;
          (rs, c, j) \<leftarrow> outward_path P rs 0 c;
          j \<leftarrow> j;
          Some (hops, rs, j, relay_msg_decode_cell_in_place (layer_format (rs ! j)) c) }"
| "send_onion P hops rs (Inward k msg rng) =
     do { c \<leftarrow> relay_msg_encode_cell (layer_format (rs ! k)) rng msg;
          (r, c) \<leftarrow> relay_encrypt_cell_inbound P c (rs ! k);
          (rs, c) \<leftarrow> inward_path P k (rs[k := r]) c;
          (circ, c, layer_hint, _, _) \<leftarrow> relay_decrypt_cell P (ORIGIN_CIRCUIT hops) c CELL_DIRECTION_IN;
          j \<leftarrow> layer_hint;
          hops \<leftarrow> (case circ of ORIGIN_CIRCUIT hops \<Rightarrow> Some hops | OR_CIRCUIT _ \<Rightarrow> None);
          Some (hops, rs, j, relay_msg_decode_cell_in_place (layer_format (hop_crypto (hops ! j))) c) }"

text \<open>A sequence of messages, up to one that is recognized for another hop than its own.\<close>

fun onion_run ::
    "primitives \<Rightarrow> crypt_hop list \<Rightarrow> relay_crypto list \<Rightarrow> onion_message list \<Rightarrow> (nat \<times> relay_message option) list option" where
  "onion_run P hops rs [] = Some []"
| "onion_run P hops rs (x # xs) =
     do { (hops, rs, j, m) \<leftarrow> send_onion P hops rs x;
          if j = onion_hop x then do { res \<leftarrow> onion_run P hops rs xs; Some ((j, m) # res) } else Some [(j, m)] }"

lemma outward_path_layers: "outward_path P rs i c = try_layers (relay_crypt_relay_forward P) rs i c"
proof (induction rs arbitrary: i c)
  case (Cons r rs)
  then show ?case
    by (cases "relay_crypt_relay_forward P r c") (auto simp: relay_decrypt_cell_def)
qed simp

lemma inward_path_layers: "inward_path P i rs c = add_layers (relay_crypt_relay_backward P) i rs c"
proof (induction i arbitrary: rs c)
  case (Suc i)
  then show ?case
    by (cases "relay_crypt_relay_backward P (rs ! i) c") (auto simp: relay_decrypt_cell_def)
qed simp

lemma decrypt_hops_layers: "\<forall>h \<in> set hops. hop_open h \<Longrightarrow> decrypt_hops P hops i c = try_layers (hop_backward P) hops i c"
proof (induction hops arbitrary: i c)
  case (Cons h hops)
  then show ?case
    by (cases "relay_crypt_client_backward P (hop_crypto h) c") (auto simp: hop_backward_def Let_def)
qed simp

section \<open>A circuit in step\<close>

definition circuit_ok :: "crypt_hop list \<Rightarrow> relay_crypto list \<Rightarrow> bool" where
  "circuit_ok hops rs \<longleftrightarrow> length rs = length hops
     \<and> (\<forall>j < length rs. hop_sync (hops ! j) (rs ! j) \<and> (Suc j < length rs \<longrightarrow> layer_robust (rs ! j)))"

definition same_formats :: "relay_crypto list \<Rightarrow> relay_crypto list \<Rightarrow> bool" where
  "same_formats rs rs' \<longleftrightarrow> length rs' = length rs \<and> (\<forall>j < length rs. layer_format (rs' ! j) = layer_format (rs ! j))"

lemma sync_format: "hop_sync h r \<Longrightarrow> layer_format (hop_crypto h) = layer_format r"
  by (auto simp: hop_sync_def layer_format_def elim: layer_sync_cases)

lemma sync_robust: "hop_sync h r \<Longrightarrow> layer_robust (hop_crypto h) = layer_robust r"
  by (auto simp: hop_sync_def layer_robust_def tor1_robust_def tor1_sync_def elim: layer_sync_cases)

lemma encoded_blank:
  assumes "\<forall>n. length (rng n) = n" "message_ok f msg"
  obtains c where "relay_msg_encode_cell f rng msg = Some c" "blank_cell f c"
    "\<And>c'. same_message f c c' \<Longrightarrow> relay_msg_decode_cell_in_place f c' = Some msg"
  using roundtrip_v0 [of rng msg] roundtrip_v1 [of rng msg] assms by (cases f) (auto simp: blank_cell_def)

lemma circuit_ok_after:
  assumes c: "circuit_ok hops rs" and k: "k < length hops"
    and l: "length hops' = length hops" "length rs' = length rs"
    and above: "\<forall>j > k. hops' ! j = hops ! j" "\<forall>j > k. rs' ! j = rs ! j"
    and at: "hop_sync (hops' ! k) (rs' ! k)" "layer_robust (rs ! k) \<longrightarrow> layer_robust (rs' ! k)"
      "layer_format (rs' ! k) = layer_format (rs ! k)"
    and below: "\<forall>j < k. layer_robust (rs ! j) \<longrightarrow>
      hop_sync (hops' ! j) (rs' ! j) \<and> layer_robust (rs' ! j) \<and> layer_format (rs' ! j) = layer_format (rs ! j)"
  shows "circuit_ok hops' rs' \<and> same_formats rs rs'"
proof -
  have n: "length rs = length hops" using c by (simp add: circuit_ok_def)
  have "hop_sync (hops' ! j) (rs' ! j) \<and> (Suc j < length rs \<longrightarrow> layer_robust (rs' ! j)) \<and> layer_format (rs' ! j) = layer_format (rs ! j)"
    if j: "j < length rs" for j
  proof (cases rule: linorder_cases [of j k])
    case less
    then have "layer_robust (rs ! j)" using c k n by (simp add: circuit_ok_def)
    with less below show ?thesis by blast
  next
    case equal
    then show ?thesis using c at j by (auto simp: circuit_ok_def)
  next
    case greater
    then show ?thesis using c above j by (auto simp: circuit_ok_def)
  qed
  then show ?thesis using l n by (auto simp: circuit_ok_def same_formats_def)
qed

lemma send_outward:
  assumes "primitives_ok P" "circuit_ok hops rs" "k < length hops" "\<forall>n. length (rng n) = n" "message_ok (layer_format (rs ! k)) msg"
  shows "\<exists>hops' rs' j m. send_onion P hops rs (Outward k msg rng) = Some (hops', rs', j, m) \<and> j \<le> k
    \<and> (j = k \<longrightarrow> m = Some msg \<and> circuit_ok hops' rs' \<and> same_formats rs rs'
         \<and> relay_crypto_get_sendme_tag (hop_crypto (hops' ! k)) = relay_crypto_get_sendme_tag (rs' ! k))"
proof -
  have l: "length rs = length hops" and sy: "\<And>j. j < length hops \<Longrightarrow> hop_sync (hops ! j) (rs ! j)" using assms(2) by (simp_all add: circuit_ok_def)
  have f: "layer_format (hop_crypto (hops ! k)) = layer_format (rs ! k)" using sync_format [OF sy [OF assms(3)]] .
  obtain c where c: "relay_msg_encode_cell (layer_format (rs ! k)) rng msg = Some c" "blank_cell (layer_format (rs ! k)) c"
    "\<And>c'. same_message (layer_format (rs ! k)) c c' \<Longrightarrow> relay_msg_decode_cell_in_place (layer_format (rs ! k)) c' = Some msg"
    using encoded_blank [OF assms(4,5)] by metis
  have "\<forall>j \<le> k. hop_sync (hops ! j) (rs ! j)" using sy assms(3) by simp
  from outward.delivered [OF assms(1,3) l this, of c] c(2) f obtain s c1 hops' c' rs' c'' j where
    o1: "hop_originate P (hops ! k) c = Some (s, c1)" "add_layers (hop_forward P) k (hops[k := s]) c1 = Some (hops', c')"
      "length hops' = length hops" "\<forall>j > k. hops' ! j = hops ! j"
      "try_layers (relay_crypt_relay_forward P) rs 0 c' = Some (rs', c'', Some j)" "j \<le> k"
    and eq: "j = k \<longrightarrow> same_message (layer_format (rs ! k)) c c''
         \<and> relay_crypto_get_sendme_tag (hop_crypto (hops' ! k)) = relay_crypto_get_sendme_tag (rs' ! k)
         \<and> length rs' = length rs \<and> (\<forall>j > k. rs' ! j = rs ! j)
         \<and> hop_sync (hops' ! k) (rs' ! k) \<and> layer_format (hop_crypto (hops' ! k)) = layer_format (hop_crypto (hops ! k))
         \<and> (layer_robust (rs ! k) \<longrightarrow> layer_robust (rs' ! k))
         \<and> (\<forall>j < k. layer_robust (rs ! j) \<longrightarrow> hop_sync (hops' ! j) (rs' ! j) \<and> layer_robust (rs' ! j)
              \<and> layer_format (hop_crypto (hops' ! j)) = layer_format (hop_crypto (hops ! j)))" by auto
  have s: "send_onion P hops rs (Outward k msg rng) = Some (hops', rs', j, relay_msg_decode_cell_in_place (layer_format (rs' ! j)) c'')"
    using c(1) f o1(1,2,5) by (simp add: relay_encrypt_cell_outbound_def outward_path_layers)
  have "relay_msg_decode_cell_in_place (layer_format (rs' ! j)) c'' = Some msg \<and> circuit_ok hops' rs' \<and> same_formats rs rs'
      \<and> relay_crypto_get_sendme_tag (hop_crypto (hops' ! k)) = relay_crypto_get_sendme_tag (rs' ! k)" if j: "j = k"
  proof -
    from eq j have e: "same_message (layer_format (rs ! k)) c c''"
         "relay_crypto_get_sendme_tag (hop_crypto (hops' ! k)) = relay_crypto_get_sendme_tag (rs' ! k)"
         "length rs' = length rs" "\<forall>j > k. rs' ! j = rs ! j"
         "hop_sync (hops' ! k) (rs' ! k)" "layer_format (hop_crypto (hops' ! k)) = layer_format (hop_crypto (hops ! k))"
         "layer_robust (rs ! k) \<longrightarrow> layer_robust (rs' ! k)"
         "\<forall>j < k. layer_robust (rs ! j) \<longrightarrow> hop_sync (hops' ! j) (rs' ! j) \<and> layer_robust (rs' ! j)
              \<and> layer_format (hop_crypto (hops' ! j)) = layer_format (hop_crypto (hops ! j))" by blast+
    have fk: "layer_format (rs' ! k) = layer_format (rs ! k)" using sync_format [OF e(5)] e(6) f by simp
    have "\<forall>j < k. layer_robust (rs ! j) \<longrightarrow>
      hop_sync (hops' ! j) (rs' ! j) \<and> layer_robust (rs' ! j) \<and> layer_format (rs' ! j) = layer_format (rs ! j)"
      using e(8) sync_format sy assms(3) by (metis less_trans)
    from circuit_ok_after [OF assms(2,3) o1(3) e(3) o1(4) e(4,5,7) fk this] c(3) [OF e(1)] e(2) j fk show ?thesis by simp
  qed
  with s o1(6) show ?thesis by blast
qed

lemma send_inward:
  assumes "primitives_ok P" "circuit_ok hops rs" "k < length hops" "\<forall>n. length (rng n) = n" "message_ok (layer_format (rs ! k)) msg"
  shows "\<exists>hops' rs' j m. send_onion P hops rs (Inward k msg rng) = Some (hops', rs', j, m) \<and> j \<le> k
    \<and> (j = k \<longrightarrow> m = Some msg \<and> circuit_ok hops' rs' \<and> same_formats rs rs'
         \<and> relay_crypto_get_sendme_tag (hop_crypto (hops' ! k)) = relay_crypto_get_sendme_tag (rs' ! k))"
proof -
  have l: "length hops = length rs" and sy: "\<And>j. j < length hops \<Longrightarrow> hop_sync (hops ! j) (rs ! j)" using assms(2) by (simp_all add: circuit_ok_def)
  have op: "\<forall>h \<in> set hops. hop_open h" using sy by (auto simp: hop_sync_def in_set_conv_nth)
  have k: "k < length rs" using assms(3) l by simp
  obtain c where c: "relay_msg_encode_cell (layer_format (rs ! k)) rng msg = Some c" "blank_cell (layer_format (rs ! k)) c"
    "\<And>c'. same_message (layer_format (rs ! k)) c c' \<Longrightarrow> relay_msg_decode_cell_in_place (layer_format (rs ! k)) c' = Some msg"
    using encoded_blank [OF assms(4,5)] by metis
  have "\<forall>j \<le> k. hop_sync (hops ! j) (rs ! j)" using sy assms(3) by simp
  from inward.delivered [OF assms(1) k l this c(2)] obtain s c1 rs' c' hops' c'' j where
    o1: "relay_encrypt_cell_inbound P c (rs ! k) = Some (s, c1)" "add_layers (relay_crypt_relay_backward P) k (rs[k := s]) c1 = Some (rs', c')"
      "length rs' = length rs" "\<forall>j > k. rs' ! j = rs ! j"
      "try_layers (hop_backward P) hops 0 c' = Some (hops', c'', Some j)" "j \<le> k"
    and eq: "j = k \<longrightarrow> same_message (layer_format (rs ! k)) c c''
         \<and> relay_crypto_get_sendme_tag (rs' ! k) = relay_crypto_get_sendme_tag (hop_crypto (hops' ! k))
         \<and> length hops' = length hops \<and> (\<forall>j > k. hops' ! j = hops ! j)
         \<and> hop_sync (hops' ! k) (rs' ! k) \<and> layer_format (rs' ! k) = layer_format (rs ! k)
         \<and> (layer_robust (hop_crypto (hops ! k)) \<longrightarrow> layer_robust (hop_crypto (hops' ! k)))
         \<and> (\<forall>j < k. layer_robust (hop_crypto (hops ! j)) \<longrightarrow> hop_sync (hops' ! j) (rs' ! j) \<and> layer_robust (hop_crypto (hops' ! j))
              \<and> layer_format (rs' ! j) = layer_format (rs ! j))" by auto
  have ne: "hops \<noteq> []" using assms(3) by auto
  then have d: "relay_decrypt_cell P (ORIGIN_CIRCUIT hops) c' CELL_DIRECTION_IN = Some (ORIGIN_CIRCUIT hops', c'', Some j, True, 0)"
    using decrypt_hops_layers [OF op, of P 0 c'] o1(5) op by (simp add: relay_decrypt_cell_def)
  have s: "send_onion P hops rs (Inward k msg rng)
      = Some (hops', rs', j, relay_msg_decode_cell_in_place (layer_format (hop_crypto (hops' ! j))) c'')"
    using c(1) o1(1,2) d by (simp add: inward_path_layers)
  have "relay_msg_decode_cell_in_place (layer_format (hop_crypto (hops' ! j))) c'' = Some msg \<and> circuit_ok hops' rs' \<and> same_formats rs rs'
      \<and> relay_crypto_get_sendme_tag (hop_crypto (hops' ! k)) = relay_crypto_get_sendme_tag (rs' ! k)" if j: "j = k"
  proof -
    from eq j have e: "same_message (layer_format (rs ! k)) c c''"
         "relay_crypto_get_sendme_tag (rs' ! k) = relay_crypto_get_sendme_tag (hop_crypto (hops' ! k))"
         "length hops' = length hops" "\<forall>j > k. hops' ! j = hops ! j"
         "hop_sync (hops' ! k) (rs' ! k)" "layer_format (rs' ! k) = layer_format (rs ! k)"
         "layer_robust (hop_crypto (hops ! k)) \<longrightarrow> layer_robust (hop_crypto (hops' ! k))"
         "\<forall>j < k. layer_robust (hop_crypto (hops ! j)) \<longrightarrow> hop_sync (hops' ! j) (rs' ! j) \<and> layer_robust (hop_crypto (hops' ! j))
              \<and> layer_format (rs' ! j) = layer_format (rs ! j)" by blast+
    have rk: "layer_robust (rs ! k) \<longrightarrow> layer_robust (rs' ! k)"
      using e(7) sync_robust [OF e(5)] sync_robust [OF sy [OF assms(3)]] by simp
    have "\<forall>j < k. layer_robust (rs ! j) \<longrightarrow>
      hop_sync (hops' ! j) (rs' ! j) \<and> layer_robust (rs' ! j) \<and> layer_format (rs' ! j) = layer_format (rs ! j)"
      using e(8) sync_robust sy assms(3) by (metis less_trans)
    from circuit_ok_after [OF assms(2,3) e(3) o1(3) e(4) o1(4) e(5) rk e(6) this] c(3) [OF e(1)] e(2) j e(6) sync_format [OF e(5)]
    show ?thesis by simp
  qed
  with s o1(6) show ?thesis by blast
qed

lemma send_onion_ok:
  assumes "primitives_ok P" "circuit_ok hops rs" "onion_hop x < length hops"
    "\<forall>n. length (onion_pad x n) = n" "message_ok (layer_format (rs ! onion_hop x)) (onion_msg x)"
  shows "\<exists>hops' rs' j m. send_onion P hops rs x = Some (hops', rs', j, m) \<and> j \<le> onion_hop x
    \<and> (j = onion_hop x \<longrightarrow> m = Some (onion_msg x) \<and> circuit_ok hops' rs' \<and> same_formats rs rs'
         \<and> relay_crypto_get_sendme_tag (hop_crypto (hops' ! onion_hop x)) = relay_crypto_get_sendme_tag (rs' ! onion_hop x))"
  using assms send_outward [of P hops rs] send_inward [of P hops rs] by (cases x) simp_all

section \<open>New circuits\<close>

text \<open>The client has keyed each hop, and each relay its layer, with the same key material.\<close>

definition new_layer :: "primitives \<Rightarrow> relay_crypto \<Rightarrow> relay_crypto \<Rightarrow> bool" where
  "new_layer P c r \<longleftrightarrow> (\<exists>keys.
     relay_crypto_init P RELAY_CRYPTO_ALG_TOR1 keys = Some c \<and> relay_crypto_init P RELAY_CRYPTO_ALG_TOR1 keys = Some r
     \<or> relay_crypto_init P RELAY_CRYPTO_ALG_CGO_CLIENT keys = Some c \<and> relay_crypto_init P RELAY_CRYPTO_ALG_CGO_RELAY keys = Some r)"

definition new_circuit :: "primitives \<Rightarrow> crypt_hop list \<Rightarrow> relay_crypto list \<Rightarrow> bool" where
  "new_circuit P hops rs \<longleftrightarrow> length rs = length hops
     \<and> (\<forall>j < length hops. hop_open (hops ! j) \<and> new_layer P (hop_crypto (hops ! j)) (rs ! j))"

lemma tor1_init_same:
  assumes "tor1_crypt_init P keys False False = Some t"
  shows "tor1_sync t t \<and> tor1_robust t"
  using assms
  by (auto simp: tor1_crypt_init_def Let_def tor1_sync_def tor1_robust_def split: if_splits)

lemma cgo_init_sync:
  assumes "cgo_pair_init False keys = Some a" "cgo_pair_init True keys = Some b"
  shows "cgo_sync (pair_fwd a) (pair_fwd b) \<and> cgo_sync (pair_back a) (pair_back b)"
proof -
  obtain n where n: "cgo_key_material_len 128 = Some n" "length keys = n * 2"
    using assms(1) by (auto simp: cgo_pair_init_def bind_eq_Some_conv split: if_splits)
  then have l: "cgo_key_material_len 128 = Some (length (take n keys))" "cgo_key_material_len 128 = Some (length (drop n keys))" by simp_all
  from cgo_new_sync [OF l(1), of CGO_MODE_CLIENT_FORWARD CGO_MODE_RELAY_FORWARD]
    cgo_new_sync [OF l(2), of CGO_MODE_CLIENT_BACKWARD CGO_MODE_RELAY_BACKWARD] assms n
  show ?thesis by (auto simp: cgo_pair_init_def mode_encrypts_def)
qed

lemma new_layer_ok: "new_layer P c r \<Longrightarrow> layer_sync c r \<and> layer_robust r"
  unfolding new_layer_def relay_crypto_init_def
  by (auto simp: layer_sync_def layer_robust_def dest: tor1_init_same cgo_init_sync)

lemma new_circuit_ok: "new_circuit P hops rs \<Longrightarrow> circuit_ok hops rs"
  using new_layer_ok by (auto simp: new_circuit_def circuit_ok_def hop_sync_def)

section \<open>Properties\<close>

lemma run_ok:
  assumes "primitives_ok P" "circuit_ok hops rs"
    and "\<forall>x \<in> set xs. onion_hop x < length hops \<and> (\<forall>n. length (onion_pad x n) = n)
      \<and> message_ok (layer_format (rs ! onion_hop x)) (onion_msg x)"
  shows "\<exists>n rest. onion_run P hops rs xs = Some (map (\<lambda>x. (onion_hop x, Some (onion_msg x))) (take n xs) @ rest)
    \<and> (n = length xs \<and> rest = [] \<or> n < length xs \<and> (\<exists>j m. rest = [(j, m)] \<and> j < onion_hop (xs ! n)))"
  using assms(2,3)
proof (induction xs arbitrary: hops rs)
  case Nil
  then show ?case by simp
next
  case (Cons x xs)
  from Cons.prems(2) have x: "onion_hop x < length hops" "\<forall>n. length (onion_pad x n) = n"
    "message_ok (layer_format (rs ! onion_hop x)) (onion_msg x)" by simp_all
  from send_onion_ok [OF assms(1) Cons.prems(1) x] obtain hops' rs' j m where
    s: "send_onion P hops rs x = Some (hops', rs', j, m)" "j \<le> onion_hop x"
      "j = onion_hop x \<longrightarrow> m = Some (onion_msg x) \<and> circuit_ok hops' rs' \<and> same_formats rs rs'" by blast
  show ?case
  proof (cases "j = onion_hop x")
    case True
    with s(3) have k: "m = Some (onion_msg x)" "circuit_ok hops' rs'" "same_formats rs rs'" by simp_all
    have l: "length hops' = length hops" using Cons.prems(1) k by (simp add: circuit_ok_def same_formats_def)
    have n: "length rs = length hops" using Cons.prems(1) by (simp add: circuit_ok_def)
    have "\<forall>x \<in> set xs. onion_hop x < length hops' \<and> (\<forall>n. length (onion_pad x n) = n)
      \<and> message_ok (layer_format (rs' ! onion_hop x)) (onion_msg x)"
      using Cons.prems(2) k(3) l n by (simp add: same_formats_def)
    from Cons.IH [OF k(2) this] obtain n rest where
      "onion_run P hops' rs' xs = Some (map (\<lambda>x. (onion_hop x, Some (onion_msg x))) (take n xs) @ rest)"
      "n = length xs \<and> rest = [] \<or> n < length xs \<and> (\<exists>j m. rest = [(j, m)] \<and> j < onion_hop (xs ! n))" by blast
    with s(1) k(1) True show ?thesis by (intro exI [of _ "Suc n"] exI [of _ rest]) auto
  next
    case False
    with s show ?thesis by (intro exI [of _ 0] exI [of _ "[(j, m)]"]) auto
  qed
qed

text \<open>C2: Onion routing works: on a new circuit of any number of hops with any mix of the two layer
  protocols, any sequence of messages between the client and its hops, in both directions, is
  delivered: each message is recognized exactly at its hop (or by the client as coming from that
  hop) and decoded to what was sent, with no failed assertion. The only thing that can stop the
  sequence is a hop before the target that takes a cell for its own; no cell ever goes further
  than its target.\<close>

theorem onion_routing:
  assumes "primitives_ok P" "new_circuit P hops rs"
    and "\<forall>x \<in> set xs. onion_hop x < length hops \<and> (\<forall>n. length (onion_pad x n) = n)
      \<and> message_ok (layer_format (rs ! onion_hop x)) (onion_msg x)"
  shows "\<exists>n rest. onion_run P hops rs xs = Some (map (\<lambda>x. (onion_hop x, Some (onion_msg x))) (take n xs) @ rest)
    \<and> (n = length xs \<and> rest = [] \<or> n < length xs \<and> (\<exists>j m. rest = [(j, m)] \<and> j < onion_hop (xs ! n)))"
  using run_ok [OF assms(1) new_circuit_ok [OF assms(2)] assms(3)] .

text \<open>C7: Both ends know the tag of the last cell: when a message has reached its hop or the client, the
  SENDME tag that the client keeps for the hop and the one that the hop keeps are the same, and all
  layers of the circuit are in step again.\<close>

theorem onion_tags_agree:
  assumes "primitives_ok P" "circuit_ok hops rs" "onion_hop x < length hops"
    "\<forall>n. length (onion_pad x n) = n" "message_ok (layer_format (rs ! onion_hop x)) (onion_msg x)"
    and "send_onion P hops rs x = Some (hops', rs', onion_hop x, m)"
  shows "relay_crypto_get_sendme_tag (hop_crypto (hops' ! onion_hop x)) = relay_crypto_get_sendme_tag (rs' ! onion_hop x)
    \<and> circuit_ok hops' rs' \<and> m = Some (onion_msg x)"
  using send_onion_ok [OF assms(1-5)] assms(6) by auto

section \<open>A circuit of two hops\<close>

lemma tor1_key: "length keys = 72 \<Longrightarrow> \<exists>t. relay_crypto_init P RELAY_CRYPTO_ALG_TOR1 keys = Some t"
  by (simp add: relay_crypto_init_def tor1_crypt_init_def Let_def)

lemma cgo_key:
  assumes "length keys = 160"
  shows "\<exists>a b. relay_crypto_init P RELAY_CRYPTO_ALG_CGO_CLIENT keys = Some a \<and> relay_crypto_init P RELAY_CRYPTO_ALG_CGO_RELAY keys = Some b"
proof -
  have l: "cgo_key_material_len 128 = Some 80" by (simp add: cgo_key_material_len_def cgo_uiv_keylen_def cgo_et_keylen_def cgo_prf_keylen_def)
  show ?thesis using assms by (simp add: relay_crypto_init_def cgo_pair_init_def l cgo_crypt_new_def)
qed

lemma two_hops: "\<exists>hops rs. new_circuit P hops rs \<and> length hops = 2 \<and> layer_format (rs ! 1) = RELAY_CELL_FORMAT_V1"
proof -
  obtain t where t: "relay_crypto_init P RELAY_CRYPTO_ALG_TOR1 (replicate 72 1) = Some t" using tor1_key by force
  obtain a b where ab: "relay_crypto_init P RELAY_CRYPTO_ALG_CGO_CLIENT (replicate 160 2) = Some a"
    "relay_crypto_init P RELAY_CRYPTO_ALG_CGO_RELAY (replicate 160 2) = Some b" using cgo_key [of "replicate 160 2" P] by auto
  have b: "layer_format b = RELAY_CELL_FORMAT_V1" using ab(2) by (auto simp: relay_crypto_init_def layer_format_def)
  have "new_layer P t t" "new_layer P a b" using t ab by (auto simp: new_layer_def)
  then have "new_circuit P [\<lparr>hop_open = True, hop_crypto = t\<rparr>, \<lparr>hop_open = True, hop_crypto = a\<rparr>] [t, b]"
    by (auto simp: new_circuit_def less_Suc_eq)
  with b show ?thesis
    by (intro exI [of _ "[\<lparr>hop_open = True, hop_crypto = t\<rparr>, \<lparr>hop_open = True, hop_crypto = a\<rparr>]"] exI [of _ "[t, b]"]) simp
qed

definition hello_there :: "onion_message list" where
  "hello_there = [Outward 0 hello_msg (\<lambda>n. replicate n 0), Inward 0 hello_msg (\<lambda>n. replicate n 1), Outward 0 hello_msg (\<lambda>n. replicate n 2)]"

lemma onion_routing_witness:
  "\<exists>hops rs. new_circuit sample_primitives hops rs \<and> length hops = 2
     \<and> onion_run sample_primitives hops rs hello_there = Some [(0, Some hello_msg), (0, Some hello_msg), (0, Some hello_msg)]"
proof -
  obtain hops rs where h: "new_circuit sample_primitives hops rs" "length hops = 2" using two_hops by blast
  have "\<forall>x \<in> set hello_there. onion_hop x < length hops \<and> (\<forall>n. length (onion_pad x n) = n)
      \<and> message_ok (layer_format (rs ! onion_hop x)) (onion_msg x)"
    using h(2) hello_ok by (simp add: hello_there_def)
  from onion_routing [OF sample_ok h(1) this] obtain n rest where
    r: "onion_run sample_primitives hops rs hello_there = Some (map (\<lambda>x. (onion_hop x, Some (onion_msg x))) (take n hello_there) @ rest)"
      "n = length hello_there \<and> rest = [] \<or> n < length hello_there \<and> (\<exists>j m. rest = [(j, m)] \<and> j < onion_hop (hello_there ! n))" by blast
  have "onion_hop (hello_there ! n) = 0" if "n < length hello_there"
    using that by (auto simp: hello_there_def less_Suc_eq)
  with r(2) have "n = length hello_there" "rest = []" by auto
  with r(1) h show ?thesis by (auto simp: hello_there_def)
qed

lemma onion_tags_agree_witness:
  "\<exists>hops rs hops' rs'. send_onion sample_primitives hops rs (Outward 0 hello_msg (\<lambda>n. replicate n 0)) = Some (hops', rs', 0, Some hello_msg)
     \<and> relay_crypto_get_sendme_tag (hop_crypto (hops' ! 0)) = relay_crypto_get_sendme_tag (rs' ! 0)"
proof -
  let ?x = "Outward 0 hello_msg (\<lambda>n. replicate n 0)"
  obtain hops rs where "new_circuit sample_primitives hops rs" "length hops = 2" using two_hops by blast
  then have h: "circuit_ok hops rs" "onion_hop ?x < length hops" "\<forall>n. length (onion_pad ?x n) = n"
    "message_ok (layer_format (rs ! onion_hop ?x)) (onion_msg ?x)" using new_circuit_ok hello_ok by simp_all
  from send_onion_ok [OF sample_ok h] obtain hops' rs' m where
    s: "send_onion sample_primitives hops rs ?x = Some (hops', rs', onion_hop ?x, m)" by auto
  from onion_tags_agree [OF sample_ok h s] s show ?thesis by auto
qed

end
