(* ===== verification/Buffers.thy ===== *)
theory Buffers
  imports Octets Tor_Prelude "HOL-Library.Monad_Syntax"
begin

text \<open>
  Byte queues made of chunks, src/lib/buf/buffers.c, with the reading and writing of sockets of
  src/lib/net/buffers_net.c. A chunk is its storage, with the offset and the number of the bytes in use;
  the linked list from \<open>head\<close> to \<open>tail\<close> is a list. \<open>tot\<close> is the static counter
  \<open>total_bytes_allocated_in_chunks\<close>. What \<open>malloc\<close> leaves in new storage is a parameter \<open>raw\<close>.
  \<open>None\<close> is a failed assertion or a read outside of the storage of a chunk.
\<close>

section \<open>Chunks\<close>

record chunk =
  ch_data :: nat
  ch_datalen :: nat
  ch_mem :: bytes
  ch_inserted_time :: "32 word"

record buf =
  b_datalen :: nat
  b_default_chunk_size :: nat
  b_chunks :: "chunk list"

text \<open>The header of a chunk on a 64-bit machine (44 bytes with \<open>DEBUG_CHUNK_ALLOC\<close>) and the sentinel.\<close>

abbreviation CHUNK_OVERHEAD :: nat where "CHUNK_OVERHEAD \<equiv> 48"
abbreviation MIN_CHUNK_ALLOC :: nat where "MIN_CHUNK_ALLOC \<equiv> 256"
abbreviation MAX_CHUNK_ALLOC :: nat where "MAX_CHUNK_ALLOC \<equiv> 65536"
abbreviation MIN_READ_LEN :: nat where "MIN_READ_LEN \<equiv> 8"
abbreviation BUF_MAX_LEN :: nat where "BUF_MAX_LEN \<equiv> 2147483646"
abbreviation SIZE_MAX_CEILING :: nat where "SIZE_MAX_CEILING \<equiv> 9223372036854775791"

definition CHUNK_ALLOC_SIZE :: "nat \<Rightarrow> nat" where
  "CHUNK_ALLOC_SIZE len = CHUNK_OVERHEAD + len"

definition CHUNK_SIZE_WITH_ALLOC :: "nat \<Rightarrow> nat" where
  "CHUNK_SIZE_WITH_ALLOC len = len - CHUNK_OVERHEAD"

definition CHUNK_REMAINING_CAPACITY :: "chunk \<Rightarrow> nat" where
  "CHUNK_REMAINING_CAPACITY ch = length (ch_mem ch) - (ch_data ch + ch_datalen ch)"

definition chunk_bytes :: "chunk \<Rightarrow> bytes" where
  "chunk_bytes ch = get_bytes (ch_data ch) (ch_datalen ch) (ch_mem ch)"

text \<open>\<open>memcpy\<close> to \<open>CHUNK_WRITE_PTR\<close>, and the bytes counted.\<close>

definition chunk_append :: "chunk \<Rightarrow> bytes \<Rightarrow> chunk" where
  "chunk_append ch bs =
     ch\<lparr>ch_mem := put_bytes (ch_data ch + ch_datalen ch) bs (ch_mem ch), ch_datalen := ch_datalen ch + length bs\<rparr>"

text \<open>The pointer moved past the first \<open>n\<close> bytes.\<close>

definition chunk_skip :: "chunk \<Rightarrow> nat \<Rightarrow> chunk" where
  "chunk_skip ch n = ch\<lparr>ch_datalen := ch_datalen ch - n, ch_data := ch_data ch + n\<rparr>"

definition chunk_repack :: "chunk \<Rightarrow> chunk" where
  "chunk_repack ch =
     (let ch = (if ch_datalen ch \<noteq> 0 \<and> ch_data ch \<noteq> 0
                then ch\<lparr>ch_mem := put_bytes 0 (chunk_bytes ch) (ch_mem ch)\<rparr> else ch)
      in ch\<lparr>ch_data := 0\<rparr>)"

definition buf_chunk_free :: "nat \<Rightarrow> chunk \<Rightarrow> nat option" where
  "buf_chunk_free tot ch =
     (if \<not> tot \<ge> CHUNK_ALLOC_SIZE (length (ch_mem ch)) then None
      else Some (tot - CHUNK_ALLOC_SIZE (length (ch_mem ch))))"

text \<open>The caller sets the time of insertion.\<close>

definition chunk_new_with_alloc_size :: "(nat \<Rightarrow> 8 word) \<Rightarrow> 32 word \<Rightarrow> nat \<Rightarrow> nat \<Rightarrow> nat \<times> chunk" where
  "chunk_new_with_alloc_size raw now tot alloc =
     (tot + alloc, \<lparr>ch_data = 0, ch_datalen = 0, ch_mem = map raw [0..<CHUNK_SIZE_WITH_ALLOC alloc], ch_inserted_time = now\<rparr>)"

definition chunk_grow :: "(nat \<Rightarrow> 8 word) \<Rightarrow> nat \<Rightarrow> chunk \<Rightarrow> nat \<Rightarrow> (nat \<times> chunk) option" where
  "chunk_grow raw tot ch sz =
     (let memlen_orig = length (ch_mem ch);
          orig_alloc = CHUNK_ALLOC_SIZE memlen_orig;
          new_alloc = CHUNK_ALLOC_SIZE sz
      in if \<not> sz > memlen_orig then None
         else Some (tot + (new_alloc - orig_alloc), ch\<lparr>ch_mem := ch_mem ch @ map raw [memlen_orig..<sz]\<rparr>))"

text \<open>The doubling loop; the size after \<open>k\<close> rounds is \<open>MIN_CHUNK_ALLOC\<close> shifted by \<open>k\<close>.\<close>

function preferred_size_loop :: "nat \<Rightarrow> nat \<Rightarrow> nat" where
  "preferred_size_loop target k =
     (let sz = MIN_CHUNK_ALLOC * 2 ^ k
      in if CHUNK_SIZE_WITH_ALLOC sz < target then preferred_size_loop target (k + 1) else sz)"
  by pat_completeness auto
termination
proof (relation "measure (\<lambda>(target, k). target - k)", goal_cases)
  case (2 target k sz)
  have "k + 48 < 256 * 2 ^ k" by (induction k) auto
  with 2 show ?case by (auto simp: CHUNK_SIZE_WITH_ALLOC_def)
qed simp

declare preferred_size_loop.simps [simp del]

definition buf_preferred_chunk_size :: "nat \<Rightarrow> nat option" where
  "buf_preferred_chunk_size target =
     (if \<not> target \<le> SIZE_MAX_CEILING - CHUNK_OVERHEAD then None
      else if CHUNK_ALLOC_SIZE target \<ge> MAX_CHUNK_ALLOC then Some (CHUNK_ALLOC_SIZE target)
      else Some (preferred_size_loop target 0))"

lemma preferred_loop_enough: "target \<le> CHUNK_SIZE_WITH_ALLOC (preferred_size_loop target k)"
proof (induction target k rule: preferred_size_loop.induct)
  case (1 target k)
  then show ?case by (subst preferred_size_loop.simps) (simp add: Let_def)
qed

lemma preferred_enough:
  assumes "buf_preferred_chunk_size n = Some sz"
  shows "n \<le> CHUNK_SIZE_WITH_ALLOC sz \<and> CHUNK_ALLOC_SIZE (CHUNK_SIZE_WITH_ALLOC sz) = sz"
proof -
  have "48 \<le> preferred_size_loop n k" for k
  proof (induction n k rule: preferred_size_loop.induct)
    case (1 target k)
    have "(48 :: nat) \<le> 256 * 2 ^ k" by (rule order_trans [of _ 256]) simp_all
    with 1 show ?case by (subst preferred_size_loop.simps) (simp add: Let_def)
  qed
  with assms preferred_loop_enough [of n 0] show ?thesis
    by (auto simp: buf_preferred_chunk_size_def CHUNK_ALLOC_SIZE_def CHUNK_SIZE_WITH_ALLOC_def split: if_splits)
qed

section \<open>Buffers\<close>

definition buf_new :: buf where
  "buf_new = \<lparr>b_datalen = 0, b_default_chunk_size = 4096, b_chunks = []\<rparr>"

definition buf_new_with_capacity :: "nat \<Rightarrow> buf option" where
  "buf_new_with_capacity len =
     do { sz \<leftarrow> buf_preferred_chunk_size len; Some (buf_new\<lparr>b_default_chunk_size := sz\<rparr>) }"

fun free_chunks :: "nat \<Rightarrow> chunk list \<Rightarrow> nat option" where
  "free_chunks tot [] = Some tot"
| "free_chunks tot (ch # chs) = do { tot \<leftarrow> buf_chunk_free tot ch; free_chunks tot chs }"

definition buf_clear :: "nat \<Rightarrow> buf \<Rightarrow> (nat \<times> buf) option" where
  "buf_clear tot b =
     do { tot \<leftarrow> free_chunks tot (b_chunks b); Some (tot, b\<lparr>b_datalen := 0, b_chunks := []\<rparr>) }"

definition buf_allocation :: "buf \<Rightarrow> nat" where
  "buf_allocation b = (\<Sum>ch \<leftarrow> b_chunks b. CHUNK_ALLOC_SIZE (length (ch_mem ch)))"

definition buf_slack :: "buf \<Rightarrow> nat" where
  "buf_slack b = (if b_chunks b = [] then 0 else CHUNK_REMAINING_CAPACITY (last (b_chunks b)))"

definition buf_copy :: "nat \<Rightarrow> buf \<Rightarrow> nat \<times> buf" where
  "buf_copy tot b = (tot + (\<Sum>ch \<leftarrow> b_chunks b. CHUNK_ALLOC_SIZE (length (ch_mem ch))), b)"

definition buf_set_to_copy :: "nat \<Rightarrow> buf option \<Rightarrow> buf \<Rightarrow> (nat \<times> buf) option" where
  "buf_set_to_copy tot output input =
     do { tot \<leftarrow> (case output of None \<Rightarrow> Some tot | Some b \<Rightarrow> map_option fst (buf_clear tot b));
          Some (buf_copy tot input) }"

definition buf_get_oldest_chunk_timestamp :: "buf \<Rightarrow> 32 word \<Rightarrow> 32 word" where
  "buf_get_oldest_chunk_timestamp b now =
     (if b_chunks b \<noteq> [] then now - ch_inserted_time (hd (b_chunks b)) else 0)"

text \<open>The loop of \<open>buf_pullup\<close>: the first chunk, and those after it.\<close>

fun pullup_loop :: "nat \<Rightarrow> chunk \<Rightarrow> chunk list \<Rightarrow> nat \<Rightarrow> (nat \<times> chunk list) option" where
  "pullup_loop tot dest srcs n =
     (if \<not> ch_datalen dest < n then Some (tot, dest # srcs)
      else case srcs of
             [] \<Rightarrow> None
           | src # srcs \<Rightarrow>
               let k = n - ch_datalen dest
               in if k \<ge> ch_datalen src
                  then do { tot \<leftarrow> buf_chunk_free tot src;
                            pullup_loop tot (chunk_append dest (chunk_bytes src)) srcs n }
                  else let dest = chunk_append dest (take k (chunk_bytes src))
                       in if ch_datalen dest \<noteq> n then None else Some (tot, dest # chunk_skip src k # srcs))"

declare pullup_loop.simps [simp del]

text \<open>The last result is the data at \<open>*head_out\<close>.\<close>

definition buf_pullup :: "(nat \<Rightarrow> 8 word) \<Rightarrow> nat \<Rightarrow> buf \<Rightarrow> nat \<Rightarrow> (nat \<times> buf \<times> bytes) option" where
  "buf_pullup raw tot b n =
     (case b_chunks b of
        [] \<Rightarrow> Some (tot, b, [])
      | head # chs \<Rightarrow>
          let n = (if b_datalen b < n then b_datalen b else n);
              capacity = n
          in if ch_datalen head \<ge> n then Some (tot, b, chunk_bytes head)
             else do {
               (tot, head) \<leftarrow>
                 (if length (ch_mem head) \<ge> capacity
                  then let needed = capacity - ch_datalen head;
                           head = (if CHUNK_REMAINING_CAPACITY head < needed then chunk_repack head else head)
                       in if \<not> CHUNK_REMAINING_CAPACITY head \<ge> needed then None else Some (tot, head)
                  else do { sz \<leftarrow> buf_preferred_chunk_size capacity;
                            (tot, head) \<leftarrow> chunk_grow raw tot (chunk_repack head) (CHUNK_SIZE_WITH_ALLOC sz);
                            if \<not> length (ch_mem head) \<ge> capacity then None else Some (tot, head) });
               (tot, chs) \<leftarrow> pullup_loop tot head chs n;
               Some (tot, b\<lparr>b_chunks := chs\<rparr>, chunk_bytes (hd chs)) })"

fun drain_loop :: "nat \<Rightarrow> chunk list \<Rightarrow> nat \<Rightarrow> nat \<Rightarrow> (nat \<times> chunk list \<times> nat) option" where
  "drain_loop tot chs len 0 = Some (tot, chs, len)"
| "drain_loop tot [] len (Suc n) = None"
| "drain_loop tot (ch # chs) len (Suc n) =
     (if ch_datalen ch > Suc n then Some (tot, chunk_skip ch (Suc n) # chs, len - Suc n)
      else do { tot \<leftarrow> buf_chunk_free tot ch;
                drain_loop tot chs (len - ch_datalen ch) (Suc n - ch_datalen ch) })"

definition buf_drain :: "nat \<Rightarrow> buf \<Rightarrow> nat \<Rightarrow> (nat \<times> buf) option" where
  "buf_drain tot b n =
     (if \<not> b_datalen b \<ge> n then None
      else do { (tot, chs, len) \<leftarrow> drain_loop tot (b_chunks b) (b_datalen b) n;
                Some (tot, b\<lparr>b_datalen := len, b_chunks := chs\<rparr>) })"

definition buf_add_chunk_with_capacity ::
    "(nat \<Rightarrow> 8 word) \<Rightarrow> 32 word \<Rightarrow> nat \<Rightarrow> buf \<Rightarrow> nat \<Rightarrow> bool \<Rightarrow> (nat \<times> buf) option" where
  "buf_add_chunk_with_capacity raw now tot b capacity capped =
     do { alloc \<leftarrow>
            (if CHUNK_ALLOC_SIZE capacity < b_default_chunk_size b then Some (b_default_chunk_size b)
             else if capped \<and> CHUNK_ALLOC_SIZE capacity > MAX_CHUNK_ALLOC then Some MAX_CHUNK_ALLOC
             else buf_preferred_chunk_size capacity);
          let (tot, ch) = chunk_new_with_alloc_size raw now tot alloc;
          Some (tot, b\<lparr>b_chunks := b_chunks b @ [ch]\<rparr>) }"

text \<open>The last chunk, replaced.\<close>

definition set_tail :: "buf \<Rightarrow> chunk \<Rightarrow> buf" where
  "set_tail b ch = b\<lparr>b_chunks := butlast (b_chunks b) @ [ch]\<rparr>"

lemma new_chunk_room:
  assumes "buf_add_chunk_with_capacity raw now tot b capacity capped = Some (tot', b')" "0 < capacity"
  shows "b_chunks b' \<noteq> [] \<and> 0 < CHUNK_REMAINING_CAPACITY (last (b_chunks b'))"
  using assms preferred_enough [of capacity]
  by (auto simp: buf_add_chunk_with_capacity_def chunk_new_with_alloc_size_def CHUNK_REMAINING_CAPACITY_def
      CHUNK_SIZE_WITH_ALLOC_def CHUNK_ALLOC_SIZE_def bind_eq_Some_conv Let_def split: if_splits)

lemma room_mem: "0 < CHUNK_REMAINING_CAPACITY ch \<Longrightarrow> \<not> n < length (ch_mem ch) \<Longrightarrow> 0 < n"
  by (auto simp: CHUNK_REMAINING_CAPACITY_def)

function add_loop :: "(nat \<Rightarrow> 8 word) \<Rightarrow> 32 word \<Rightarrow> nat \<Rightarrow> buf \<Rightarrow> bytes \<Rightarrow> (nat \<times> buf) option" where
  "add_loop raw now tot b str =
     (if str = [] then Some (tot, b)
      else case (if b_chunks b = [] \<or> CHUNK_REMAINING_CAPACITY (last (b_chunks b)) = 0
                 then buf_add_chunk_with_capacity raw now tot b (length str) True else Some (tot, b)) of
             None \<Rightarrow> None
           | Some (tot, b) \<Rightarrow>
               let copy = CHUNK_REMAINING_CAPACITY (last (b_chunks b));
                   copy = (if copy > length str then length str else copy);
                   b = set_tail b (chunk_append (last (b_chunks b)) (take copy str))
               in add_loop raw now tot (b\<lparr>b_datalen := b_datalen b + copy\<rparr>) (drop copy str))"
  by pat_completeness auto
termination
  by (relation "measure (\<lambda>(raw, now, tot, b, str). length str)")
     (auto split: if_splits dest!: new_chunk_room)

declare add_loop.simps [simp del]

text \<open>The bound is an \<open>int\<close>, the length a \<open>size_t\<close>: the difference is computed modulo \<open>2^64\<close>.\<close>

definition room_below_max :: "nat \<Rightarrow> nat" where
  "room_below_max n = unat (of_nat BUF_MAX_LEN - of_nat n :: 64 word)"

definition buf_add :: "(nat \<Rightarrow> 8 word) \<Rightarrow> 32 word \<Rightarrow> nat \<Rightarrow> buf \<Rightarrow> bytes \<Rightarrow> (nat \<times> buf \<times> int) option" where
  "buf_add raw now tot b str =
     (if length str = 0 then Some (tot, b, int (b_datalen b))
      else if b_datalen b > BUF_MAX_LEN then Some (tot, b, - 1)
      else if b_datalen b > room_below_max (length str) then Some (tot, b, - 1)
      else do { (tot, b) \<leftarrow> add_loop raw now tot b str;
                if \<not> b_datalen b \<le> BUF_MAX_LEN then None else Some (tot, b, int (b_datalen b)) })"

fun peek_loop :: "chunk list \<Rightarrow> nat \<Rightarrow> bytes option" where
  "peek_loop chs 0 = Some []"
| "peek_loop [] (Suc n) = None"
| "peek_loop (ch # chs) (Suc n) =
     (let copy = (if ch_datalen ch < Suc n then ch_datalen ch else Suc n)
      in do { rest \<leftarrow> peek_loop chs (Suc n - copy); Some (take copy (chunk_bytes ch) @ rest) })"

definition buf_peek :: "buf \<Rightarrow> nat \<Rightarrow> bytes option" where
  "buf_peek b n = (if \<not> n \<le> b_datalen b then None else peek_loop (b_chunks b) n)"

definition buf_get_bytes :: "nat \<Rightarrow> buf \<Rightarrow> nat \<Rightarrow> (nat \<times> buf \<times> bytes \<times> int) option" where
  "buf_get_bytes tot b n =
     do { str \<leftarrow> buf_peek b n;
          (tot, b) \<leftarrow> buf_drain tot b n;
          if \<not> b_datalen b \<le> BUF_MAX_LEN then None else Some (tot, b, str, int (b_datalen b)) }"

definition buf_extract :: "buf \<Rightarrow> (bytes \<times> nat) option" where
  "buf_extract b = do { str \<leftarrow> buf_peek b (b_datalen b); Some (str @ [0], b_datalen b) }"

text \<open>The loop of \<open>buf_move_to_buf\<close>, 4096 bytes at a time: the counter and both buffers.\<close>

function move_loop :: "(nat \<Rightarrow> 8 word) \<Rightarrow> 32 word \<Rightarrow> nat \<Rightarrow> buf \<Rightarrow> buf \<Rightarrow> nat \<Rightarrow> (nat \<times> buf \<times> buf) option" where
  "move_loop raw now tot bout bin len =
     (if len = 0 then Some (tot, bout, bin)
      else let n = (if len > 4096 then 4096 else len)
           in do { (tot, bin, str, _) \<leftarrow> buf_get_bytes tot bin n;
                   (tot, bout, _) \<leftarrow> buf_add raw now tot bout str;
                   move_loop raw now tot bout bin (len - n) })"
  by pat_completeness auto
termination by (relation "measure (\<lambda>(raw, now, tot, bout, bin, len). len)") (auto split: if_splits)

declare move_loop.simps [simp del]

text \<open>The counter, both buffers, \<open>*buf_flushlen\<close>, and what is returned.\<close>

definition buf_move_to_buf ::
    "(nat \<Rightarrow> 8 word) \<Rightarrow> 32 word \<Rightarrow> nat \<Rightarrow> buf \<Rightarrow> buf \<Rightarrow> nat \<Rightarrow> (nat \<times> buf \<times> buf \<times> nat \<times> int) option" where
  "buf_move_to_buf raw now tot bout bin flushlen =
     (if b_datalen bout > BUF_MAX_LEN \<or> flushlen > BUF_MAX_LEN then Some (tot, bout, bin, flushlen, - 1)
      else if b_datalen bout > room_below_max flushlen then Some (tot, bout, bin, flushlen, - 1)
      else let len = (if flushlen > b_datalen bin then b_datalen bin else flushlen)
           in if \<not> len \<le> BUF_MAX_LEN then None
              else do { (tot, bout, bin) \<leftarrow> move_loop raw now tot bout bin len;
                        Some (tot, bout, bin, flushlen - len, int len) })"

definition buf_move_all :: "buf \<Rightarrow> buf \<Rightarrow> buf \<times> buf \<times> nat" where
  "buf_move_all bout bin =
     (if b_datalen bin = 0 then (bout, bin, 0)
      else if b_datalen bout > BUF_MAX_LEN \<or> b_datalen bin > BUF_MAX_LEN then (bout, bin, 0)
      else if b_datalen bout > room_below_max (b_datalen bin) then (bout, bin, 0)
      else (bout\<lparr>b_datalen := b_datalen bout + b_datalen bin, b_chunks := b_chunks bout @ b_chunks bin\<rparr>,
            bin\<lparr>b_datalen := 0, b_chunks := []\<rparr>, b_datalen bin))"

section \<open>Searching\<close>

text \<open>\<open>memchr\<close>.\<close>

fun find_byte :: "8 word \<Rightarrow> bytes \<Rightarrow> nat option" where
  "find_byte c [] = None"
| "find_byte c (b # bs) = (if b = c then Some 0 else map_option Suc (find_byte c bs))"

text \<open>A position: the chunks from the current one, the index into its data, and the bytes before it.\<close>

record buf_pos =
  bp_chunks :: "chunk list"
  bp_pos :: nat
  bp_chunk_pos :: nat

definition buf_pos_init :: "buf \<Rightarrow> buf_pos" where
  "buf_pos_init b = \<lparr>bp_chunks = b_chunks b, bp_pos = 0, bp_chunk_pos = 0\<rparr>"

fun find_pos_loop :: "8 word \<Rightarrow> chunk list \<Rightarrow> nat \<Rightarrow> nat \<Rightarrow> buf_pos option" where
  "find_pos_loop c [] pos before = None"
| "find_pos_loop c (ch # chs) pos before =
     (case find_byte c (get_bytes (ch_data ch + pos) (ch_datalen ch - pos) (ch_mem ch)) of
        Some i \<Rightarrow> Some \<lparr>bp_chunks = ch # chs, bp_pos = pos + i, bp_chunk_pos = before\<rparr>
      | None \<Rightarrow> find_pos_loop c chs 0 (before + ch_datalen ch))"

text \<open>The position of the byte, if there is one.\<close>

definition buf_find_pos_of_char :: "8 word \<Rightarrow> buf_pos \<Rightarrow> buf_pos option option" where
  "buf_find_pos_of_char c out =
     (if bp_chunks out \<noteq> []
         \<and> \<not> (if ch_datalen (hd (bp_chunks out)) \<noteq> 0 then bp_pos out < ch_datalen (hd (bp_chunks out)) else bp_pos out = 0)
      then None
      else Some (find_pos_loop c (bp_chunks out) (bp_pos out) (bp_chunk_pos out)))"

definition buf_pos_inc :: "buf_pos \<Rightarrow> buf_pos \<times> bool" where
  "buf_pos_inc p =
     (let p = p\<lparr>bp_pos := bp_pos p + 1\<rparr>
      in if bp_pos p = ch_datalen (hd (bp_chunks p))
         then if tl (bp_chunks p) = [] then (p, False)
              else (p\<lparr>bp_chunks := tl (bp_chunks p), bp_pos := 0,
                      bp_chunk_pos := bp_chunk_pos p + ch_datalen (hd (bp_chunks p))\<rparr>, True)
         else (p, True))"

text \<open>The byte at \<open>data[pos]\<close> is read from the storage of the chunk, whether it is in use or not.\<close>

fun buf_matches_at_pos :: "buf_pos \<Rightarrow> bytes \<Rightarrow> bool option" where
  "buf_matches_at_pos p [] = Some True"
| "buf_matches_at_pos p (s # ss) =
     (let ch = hd (bp_chunks p)
      in if \<not> ch_data ch + bp_pos p < length (ch_mem ch) then None
         else if ch_mem ch ! (ch_data ch + bp_pos p) \<noteq> s then Some False
         else if ss = [] then Some True
         else let (p, ok) = buf_pos_inc p in if \<not> ok then Some False else buf_matches_at_pos p ss)"

definition pos_left :: "buf_pos \<Rightarrow> nat" where
  "pos_left p = (\<Sum>ch \<leftarrow> bp_chunks p. Suc (ch_datalen ch)) - bp_pos p"

lemma find_byte_less: "find_byte c bs = Some i \<Longrightarrow> i < length bs"
  by (induction bs arbitrary: i) (auto split: if_splits)

lemma find_pos_loop_Some:
  "find_pos_loop c chs pos before = Some p \<Longrightarrow> chs \<noteq> [] \<Longrightarrow> pos \<le> ch_datalen (hd chs) \<Longrightarrow>
     bp_chunks p \<noteq> [] \<and> bp_pos p < ch_datalen (hd (bp_chunks p))
     \<and> pos_left p \<le> pos_left \<lparr>bp_chunks = chs, bp_pos = pos, bp_chunk_pos = before\<rparr>"
proof (induction c chs pos before rule: find_pos_loop.induct)
  case (2 c ch chs pos before)
  show ?case
  proof (cases "find_byte c (get_bytes (ch_data ch + pos) (ch_datalen ch - pos) (ch_mem ch))")
    case None
    with 2 show ?thesis by (cases chs) (auto simp: pos_left_def)
  next
    case (Some i)
    have "i < ch_datalen ch - pos" using find_byte_less [OF Some] by (simp add: get_bytes_def)
    with Some 2(2) show ?thesis by (auto simp: pos_left_def)
  qed
qed simp

lemma find_pos_Some:
  assumes "buf_find_pos_of_char c out = Some (Some p)"
  shows "bp_chunks p \<noteq> [] \<and> bp_pos p < ch_datalen (hd (bp_chunks p)) \<and> pos_left p \<le> pos_left out"
proof -
  have "bp_chunks out \<noteq> []" using assms by (auto simp: buf_find_pos_of_char_def)
  with assms find_pos_loop_Some [of c "bp_chunks out" "bp_pos out" "bp_chunk_pos out" p] show ?thesis
    by (auto simp: buf_find_pos_of_char_def pos_left_def split: if_splits)
qed

lemma pos_inc_left:
  "bp_chunks p \<noteq> [] \<Longrightarrow> bp_pos p < ch_datalen (hd (bp_chunks p)) \<Longrightarrow> buf_pos_inc p = (p', True) \<Longrightarrow> pos_left p' < pos_left p"
  by (cases "bp_chunks p") (auto simp: buf_pos_inc_def pos_left_def Let_def split: if_splits)

lemma find_inc_left:
  "buf_find_pos_of_char c p = Some (Some q) \<Longrightarrow> (p', True) = buf_pos_inc q \<Longrightarrow> pos_left p' < pos_left p"
  using find_pos_Some [of c p q] pos_inc_left [of q p'] by simp

function find_string_loop :: "bytes \<Rightarrow> buf_pos \<Rightarrow> int option" where
  "find_string_loop s p =
     (case buf_find_pos_of_char (if s = [] then 0 else hd s) p of
        None \<Rightarrow> None
      | Some None \<Rightarrow> Some (- 1)
      | Some (Some p) \<Rightarrow>
          case buf_matches_at_pos p s of
            None \<Rightarrow> None
          | Some True \<Rightarrow>
              if \<not> bp_chunk_pos p + bp_pos p \<le> BUF_MAX_LEN then None else Some (int (bp_chunk_pos p + bp_pos p))
          | Some False \<Rightarrow>
              case buf_pos_inc p of (p', ok) \<Rightarrow> if \<not> ok then Some (- 1) else find_string_loop s p')"
  by pat_completeness auto
termination
  by (relation "measure (\<lambda>(s, p). pos_left p)") (auto dest: find_inc_left)

declare find_string_loop.simps [simp del]

definition buf_find_string_offset :: "buf \<Rightarrow> bytes \<Rightarrow> int option" where
  "buf_find_string_offset b s = find_string_loop s (buf_pos_init b)"

definition buf_peek_startswith :: "buf \<Rightarrow> bytes \<Rightarrow> bool option" where
  "buf_peek_startswith b cmd =
     (let clen = length cmd
      in if clen = 0 then Some True
         else if clen > 16 then Some False
         else if b_datalen b < clen then Some False
         else do { tmp \<leftarrow> buf_peek b clen; Some (tmp = cmd) })"

fun find_offset_loop :: "8 word \<Rightarrow> chunk list \<Rightarrow> nat \<Rightarrow> nat option" where
  "find_offset_loop c [] offset = None"
| "find_offset_loop c (ch # chs) offset =
     (case find_byte c (chunk_bytes ch) of
        Some i \<Rightarrow> Some (offset + i)
      | None \<Rightarrow> find_offset_loop c chs (offset + ch_datalen ch))"

definition buf_find_offset_of_char :: "buf \<Rightarrow> 8 word \<Rightarrow> nat option option" where
  "buf_find_offset_of_char b c =
     (if \<not> b_datalen b \<le> BUF_MAX_LEN then None else Some (find_offset_loop c (b_chunks b) 0))"

text \<open>The counter, the buffer, the line with the NUL after it, \<open>*data_len\<close>, and what is returned.\<close>

definition buf_get_line :: "nat \<Rightarrow> buf \<Rightarrow> nat \<Rightarrow> (nat \<times> buf \<times> bytes \<times> nat \<times> int) option" where
  "buf_get_line tot b data_len =
     (if b_chunks b = [] then Some (tot, b, [], data_len, 0)
      else do { offset \<leftarrow> buf_find_offset_of_char b 0x0A;
                case offset of
                  None \<Rightarrow> Some (tot, b, [], data_len, 0)
                | Some sz \<Rightarrow>
                    if sz + 2 > data_len then Some (tot, b, [], sz + 2, - 1)
                    else do { (tot, b, str, _) \<leftarrow> buf_get_bytes tot b (sz + 1);
                              Some (tot, b, str @ [0], sz + 1, 1) } })"

definition chunk_assert_ok :: "chunk \<Rightarrow> bool" where
  "chunk_assert_ok ch \<longleftrightarrow> ch_datalen ch \<le> length (ch_mem ch) \<and> ch_datalen ch \<le> BUF_MAX_LEN
     \<and> ch_data ch \<le> length (ch_mem ch) \<and> ch_data ch + ch_datalen ch \<le> length (ch_mem ch)"

definition buf_assert_ok :: "buf \<Rightarrow> bool" where
  "buf_assert_ok b \<longleftrightarrow>
     (if b_chunks b = [] then b_datalen b = 0
      else (\<forall>ch \<in> set (b_chunks b). chunk_assert_ok ch) \<and> b_datalen b = (\<Sum>ch \<leftarrow> b_chunks b. ch_datalen ch))"

section \<open>Sockets and pipes\<close>

text \<open>What the system call returns: bytes, no more than were asked for; the end of the file; or an
  error, which may be \<open>EAGAIN\<close>. The state of the other end is a parameter.\<close>

datatype recv_result = Recv_Bytes bytes | Recv_Error (recv_eagain: bool)
datatype send_result = Send_Count nat | Send_Error (send_eagain: bool)

text \<open>The buffer is changed in its last chunk only; what is returned, and whether the end was reached.\<close>

definition read_to_chunk ::
    "('s \<Rightarrow> nat \<Rightarrow> 's \<times> recv_result) \<Rightarrow> 's \<Rightarrow> buf \<Rightarrow> nat \<Rightarrow> bool \<Rightarrow> 's \<times> buf \<times> int \<times> bool" where
  "read_to_chunk recv fd b at_most reached_eof =
     (let ch = last (b_chunks b);
          at_most = (if at_most > CHUNK_REMAINING_CAPACITY ch then CHUNK_REMAINING_CAPACITY ch else at_most)
      in case recv fd at_most of
           (fd, Recv_Error eagain) \<Rightarrow> (fd, b, if \<not> eagain then - 1 else 0, reached_eof)
         | (fd, Recv_Bytes bs) \<Rightarrow>
             let bs = take at_most bs
             in if bs = [] then (fd, b, 0, True)
                else (fd, set_tail b (chunk_append ch bs)\<lparr>b_datalen := b_datalen b + length bs\<rparr>, int (length bs), reached_eof))"

function read_loop ::
    "('s \<Rightarrow> nat \<Rightarrow> 's \<times> recv_result) \<Rightarrow> (nat \<Rightarrow> 8 word) \<Rightarrow> 32 word \<Rightarrow> 's \<Rightarrow> nat \<Rightarrow> buf \<Rightarrow> nat \<Rightarrow> nat \<Rightarrow> bool
       \<Rightarrow> ('s \<times> nat \<times> buf \<times> int \<times> bool) option" where
  "read_loop recv raw now fd tot b at_most total_read reached_eof =
     (if \<not> at_most > total_read then Some (fd, tot, b, int total_read, reached_eof)
      else case (if b_chunks b = [] \<or> CHUNK_REMAINING_CAPACITY (last (b_chunks b)) < MIN_READ_LEN
                 then map_option (\<lambda>(tot, b). (tot, b, length (ch_mem (last (b_chunks b)))))
                        (buf_add_chunk_with_capacity raw now tot b at_most True)
                 else Some (tot, b, CHUNK_REMAINING_CAPACITY (last (b_chunks b)))) of
             None \<Rightarrow> None
           | Some (tot, b, cap) \<Rightarrow>
               let readlen = at_most - total_read;
                   readlen = (if readlen > cap then cap else readlen)
               in case read_to_chunk recv fd b readlen reached_eof of
                    (fd, b, r, reached_eof) \<Rightarrow>
                      if r < 0 then Some (fd, tot, b, r, reached_eof)
                      else let total_read = total_read + nat r
                           in if \<not> total_read \<le> BUF_MAX_LEN then None
                              else if nat r < readlen then Some (fd, tot, b, int total_read, reached_eof)
                              else read_loop recv raw now fd tot b at_most total_read reached_eof)"
  by pat_completeness auto
termination
  by (relation "measure (\<lambda>(recv, raw, now, fd, tot, b, at_most, total_read, eof). at_most - total_read)")
     (auto split: if_splits dest!: new_chunk_room dest: room_mem)

declare read_loop.simps [simp del]

definition buf_read_from_fd ::
    "('s \<Rightarrow> nat \<Rightarrow> 's \<times> recv_result) \<Rightarrow> (nat \<Rightarrow> 8 word) \<Rightarrow> 32 word \<Rightarrow> 's \<Rightarrow> nat \<Rightarrow> buf \<Rightarrow> nat \<Rightarrow> bool
       \<Rightarrow> ('s \<times> nat \<times> buf \<times> int \<times> bool) option" where
  "buf_read_from_fd recv raw now fd tot b at_most reached_eof =
     (if b_datalen b > BUF_MAX_LEN then Some (fd, tot, b, - 1, reached_eof)
      else if b_datalen b > room_below_max at_most then Some (fd, tot, b, - 1, reached_eof)
      else read_loop recv raw now fd tot b at_most 0 reached_eof)"

definition flush_chunk ::
    "('s \<Rightarrow> bytes \<Rightarrow> 's \<times> send_result) \<Rightarrow> 's \<Rightarrow> nat \<Rightarrow> buf \<Rightarrow> chunk \<Rightarrow> nat \<Rightarrow> ('s \<times> nat \<times> buf \<times> int) option" where
  "flush_chunk send fd tot b ch sz =
     (let sz = (if sz > ch_datalen ch then ch_datalen ch else sz)
      in case send fd (take sz (chunk_bytes ch)) of
           (fd, Send_Error eagain) \<Rightarrow> Some (fd, tot, b, if \<not> eagain then - 1 else 0)
         | (fd, Send_Count n) \<Rightarrow>
             let n = min n sz
             in do { (tot, b) \<leftarrow> buf_drain tot b n;
                     if \<not> n \<le> BUF_MAX_LEN then None else Some (fd, tot, b, int n) })"

function flush_loop ::
    "('s \<Rightarrow> bytes \<Rightarrow> 's \<times> send_result) \<Rightarrow> 's \<Rightarrow> nat \<Rightarrow> buf \<Rightarrow> nat \<Rightarrow> nat \<Rightarrow> ('s \<times> nat \<times> buf \<times> int) option" where
  "flush_loop send fd tot b sz flushed =
     (if sz = 0 then if \<not> flushed \<le> BUF_MAX_LEN then None else Some (fd, tot, b, int flushed)
      else if b_chunks b = [] then None
      else let head = hd (b_chunks b);
               flushlen0 = (if ch_datalen head \<ge> sz then sz else ch_datalen head)
           in case flush_chunk send fd tot b head flushlen0 of
                None \<Rightarrow> None
              | Some (fd, tot, b, r) \<Rightarrow>
                  if r < 0 then Some (fd, tot, b, r)
                  else let flushed = flushed + nat r; sz = sz - nat r
                       in if r = 0 \<or> nat r < flushlen0
                          then if \<not> flushed \<le> BUF_MAX_LEN then None else Some (fd, tot, b, int flushed)
                          else flush_loop send fd tot b sz flushed)"
  by pat_completeness auto
termination by (relation "measure (\<lambda>(send, fd, tot, b, sz, flushed). sz)") auto

declare flush_loop.simps [simp del]

definition buf_flush_to_fd ::
    "('s \<Rightarrow> bytes \<Rightarrow> 's \<times> send_result) \<Rightarrow> 's \<Rightarrow> nat \<Rightarrow> buf \<Rightarrow> nat \<Rightarrow> ('s \<times> nat \<times> buf \<times> int) option" where
  "buf_flush_to_fd send fd tot b sz =
     (let sz = (if sz > b_datalen b then b_datalen b else sz) in flush_loop send fd tot b sz 0)"

end
