(* ===== verification/Buffer_Queue.thy ===== *)
theory Buffer_Queue
  imports Buffers
begin

text \<open>
  What the buffers of buffers.c are for: a buffer holds a string of bytes, every operation does on the
  chunks what its name says on that string, no assertion fails, and the counter of allocated bytes
  accounts exactly for the chunks.
\<close>

section \<open>Chunks\<close>

definition chunk_ok :: "chunk \<Rightarrow> bool" where
  "chunk_ok ch \<longleftrightarrow> ch_data ch + ch_datalen ch \<le> length (ch_mem ch)"

definition contents :: "chunk list \<Rightarrow> bytes" where
  "contents chs = concat (map chunk_bytes chs)"

definition allocated :: "chunk list \<Rightarrow> nat" where
  "allocated chs = (\<Sum>ch \<leftarrow> chs. CHUNK_ALLOC_SIZE (length (ch_mem ch)))"

named_theorems chunk_simps "operations on chunks"

lemma contents_simps [chunk_simps]: "contents [] = []" "contents (ch # chs) = chunk_bytes ch @ contents chs"
  "contents (chs @ chs') = contents chs @ contents chs'"
  by (simp_all add: contents_def)

lemma allocated_simps [chunk_simps]: "allocated [] = 0" "allocated (ch # chs) = CHUNK_ALLOC_SIZE (length (ch_mem ch)) + allocated chs"
  "allocated (chs @ chs') = allocated chs + allocated chs'"
  by (simp_all add: allocated_def)

lemma length_chunk_bytes [chunk_simps]: "chunk_ok ch \<Longrightarrow> length (chunk_bytes ch) = ch_datalen ch"
  by (simp add: chunk_ok_def chunk_bytes_def get_bytes_def)

lemma length_contents: "\<forall>ch \<in> set chs. chunk_ok ch \<Longrightarrow> length (contents chs) = (\<Sum>ch \<leftarrow> chs. ch_datalen ch)"
  by (induction chs) (simp_all add: chunk_simps)

lemma chunk_append_ok [chunk_simps]:
  assumes "chunk_ok ch" "length bs \<le> CHUNK_REMAINING_CAPACITY ch"
  shows "chunk_ok (chunk_append ch bs)" "chunk_bytes (chunk_append ch bs) = chunk_bytes ch @ bs"
    "length (ch_mem (chunk_append ch bs)) = length (ch_mem ch)" "ch_datalen (chunk_append ch bs) = ch_datalen ch + length bs"
    "ch_data (chunk_append ch bs) = ch_data ch"
proof -
  have "ch_data ch + ch_datalen ch + length bs \<le> length (ch_mem ch)"
    using assms by (simp add: chunk_ok_def CHUNK_REMAINING_CAPACITY_def)
  then show "chunk_ok (chunk_append ch bs)" "chunk_bytes (chunk_append ch bs) = chunk_bytes ch @ bs"
    "length (ch_mem (chunk_append ch bs)) = length (ch_mem ch)" "ch_datalen (chunk_append ch bs) = ch_datalen ch + length bs"
    "ch_data (chunk_append ch bs) = ch_data ch"
    by (simp_all add: chunk_ok_def chunk_append_def chunk_bytes_def get_bytes_def put_bytes_def drop_take)
qed

lemma chunk_skip_ok [chunk_simps]:
  assumes "chunk_ok ch" "n \<le> ch_datalen ch"
  shows "chunk_ok (chunk_skip ch n)" "chunk_bytes (chunk_skip ch n) = drop n (chunk_bytes ch)"
    "length (ch_mem (chunk_skip ch n)) = length (ch_mem ch)" "ch_datalen (chunk_skip ch n) = ch_datalen ch - n"
  using assms by (simp_all add: chunk_ok_def chunk_skip_def chunk_bytes_def get_bytes_def drop_take add.commute)

lemma chunk_repack_ok [chunk_simps]:
  assumes "chunk_ok ch"
  shows "chunk_ok (chunk_repack ch)" "chunk_bytes (chunk_repack ch) = chunk_bytes ch"
    "length (ch_mem (chunk_repack ch)) = length (ch_mem ch)" "ch_datalen (chunk_repack ch) = ch_datalen ch"
    "ch_data (chunk_repack ch) = 0"
  using assms
  by (auto simp: chunk_ok_def chunk_repack_def Let_def chunk_bytes_def get_bytes_def put_bytes_def)

lemma chunk_grow_ok:
  assumes "chunk_ok ch" "length (ch_mem ch) < sz"
  shows "\<exists>ch'. chunk_grow raw tot ch sz = Some (tot + (sz - length (ch_mem ch)), ch') \<and> chunk_ok ch'
    \<and> chunk_bytes ch' = chunk_bytes ch \<and> length (ch_mem ch') = sz \<and> ch_datalen ch' = ch_datalen ch \<and> ch_data ch' = ch_data ch"
  using assms
  by (auto simp: chunk_ok_def chunk_grow_def Let_def chunk_bytes_def get_bytes_def CHUNK_ALLOC_SIZE_def)

lemma chunk_free_ok [chunk_simps]:
  "buf_chunk_free (rest + (CHUNK_ALLOC_SIZE (length (ch_mem ch)) + a)) ch = Some (rest + a)"
  by (simp add: buf_chunk_free_def)

section \<open>Buffers\<close>

text \<open>\<open>rest\<close> is what other buffers have allocated.\<close>

definition buf_holds :: "nat \<Rightarrow> nat \<Rightarrow> buf \<Rightarrow> bytes \<Rightarrow> bool" where
  "buf_holds rest tot b s \<longleftrightarrow> (\<forall>ch \<in> set (b_chunks b). chunk_ok ch) \<and> contents (b_chunks b) = s
     \<and> b_datalen b = length s \<and> length s \<le> BUF_MAX_LEN \<and> tot = rest + allocated (b_chunks b)"

lemma holds_new: "buf_holds rest rest buf_new []"
  by (simp add: buf_holds_def buf_new_def chunk_simps)

lemma holds_datalen: "buf_holds rest tot b s \<Longrightarrow> b_datalen b = length s"
  by (simp add: buf_holds_def)

lemma holds_assert_ok: "buf_holds rest tot b s \<Longrightarrow> buf_assert_ok b"
proof -
  assume h: "buf_holds rest tot b s"
  have s: "b_datalen b = (\<Sum>ch \<leftarrow> b_chunks b. ch_datalen ch)"
    using h length_contents [of "b_chunks b"] by (auto simp: buf_holds_def)
  have "ch_datalen ch \<le> b_datalen b" if "ch \<in> set (b_chunks b)" for ch
    unfolding s using that by (simp add: member_le_sum_list)
  with h s show ?thesis
    by (fastforce simp: buf_assert_ok_def chunk_assert_ok_def buf_holds_def chunk_ok_def)
qed

lemma holds_allocation: "buf_holds rest tot b s \<Longrightarrow> tot = rest + buf_allocation b"
  by (simp add: buf_holds_def buf_allocation_def allocated_def)

section \<open>Taking bytes off the front\<close>

lemma drain_loop_ok:
  "\<forall>ch \<in> set chs. chunk_ok ch \<Longrightarrow> n \<le> length (contents chs) \<Longrightarrow> len = length (contents chs) \<Longrightarrow>
     \<exists>chs'. drain_loop (rest + allocated chs) chs len n = Some (rest + allocated chs', chs', len - n)
       \<and> (\<forall>ch \<in> set chs'. chunk_ok ch) \<and> contents chs' = drop n (contents chs)"
proof (induction chs arbitrary: n len)
  case (Cons ch chs)
  show ?case
  proof (cases n)
    case (Suc k)
    show ?thesis
    proof (cases "ch_datalen ch > n")
      case True
      then show ?thesis
        using Cons.prems Suc by (intro exI [of _ "chunk_skip ch n # chs"]) (simp add: chunk_simps)
    next
      case False
      have "n - ch_datalen ch \<le> length (contents chs)" using Cons.prems by (simp add: chunk_simps)
      with False Cons.prems Cons.IH [of "n - ch_datalen ch" "len - ch_datalen ch"] obtain chs' where
        "drain_loop (rest + allocated chs) chs (len - ch_datalen ch) (n - ch_datalen ch)
          = Some (rest + allocated chs', chs', len - ch_datalen ch - (n - ch_datalen ch))"
        "\<forall>ch \<in> set chs'. chunk_ok ch" "contents chs' = drop (n - ch_datalen ch) (contents chs)"
        by (auto simp: chunk_simps)
      with False Cons.prems Suc show ?thesis by (intro exI [of _ chs']) (simp add: chunk_simps)
    qed
  qed (use Cons.prems in simp)
qed (auto simp: chunk_simps)

lemma buf_drain_ok:
  assumes "buf_holds rest tot b s" "n \<le> length s"
  shows "\<exists>tot' b'. buf_drain tot b n = Some (tot', b') \<and> buf_holds rest tot' b' (drop n s)"
  using assms drain_loop_ok [of "b_chunks b" n "b_datalen b" rest]
  by (auto simp: buf_drain_def buf_holds_def)

lemma peek_loop_ok:
  "\<forall>ch \<in> set chs. chunk_ok ch \<Longrightarrow> n \<le> length (contents chs) \<Longrightarrow> peek_loop chs n = Some (take n (contents chs))"
  by (induction chs n rule: peek_loop.induct) (auto simp: chunk_simps Let_def)

lemma buf_peek_ok: "buf_holds rest tot b s \<Longrightarrow> n \<le> length s \<Longrightarrow> buf_peek b n = Some (take n s)"
  using peek_loop_ok [of "b_chunks b" n] by (auto simp: buf_peek_def buf_holds_def)

lemma buf_get_bytes_ok:
  assumes "buf_holds rest tot b s" "n \<le> length s"
  shows "\<exists>tot' b'. buf_get_bytes tot b n = Some (tot', b', take n s, int (length s - n)) \<and> buf_holds rest tot' b' (drop n s)"
proof -
  from buf_drain_ok [OF assms] obtain tot' b' where d: "buf_drain tot b n = Some (tot', b')" "buf_holds rest tot' b' (drop n s)" by blast
  with buf_peek_ok [OF assms] show ?thesis by (auto simp: buf_get_bytes_def buf_holds_def)
qed

lemma buf_extract_ok: "buf_holds rest tot b s \<Longrightarrow> buf_extract b = Some (s @ [0], length s)"
  using buf_peek_ok [of rest tot b s "length s"] by (simp add: buf_extract_def holds_datalen)

lemma buf_clear_ok:
  assumes "buf_holds rest tot b s"
  shows "\<exists>b'. buf_clear tot b = Some (rest, b') \<and> buf_holds rest rest b' []"
proof -
  have "free_chunks (rest + allocated chs) chs = Some rest" for chs
    by (induction chs) (simp_all add: chunk_simps)
  with assms show ?thesis by (auto simp: buf_clear_def buf_holds_def chunk_simps)
qed

section \<open>Adding bytes at the end\<close>

lemma preferred_Some: "n \<le> BUF_MAX_LEN \<Longrightarrow> \<exists>sz. buf_preferred_chunk_size n = Some sz"
  by (simp add: buf_preferred_chunk_size_def)

lemma add_chunk_ok:
  assumes "buf_holds rest tot b s" "capacity \<le> BUF_MAX_LEN"
  shows "\<exists>tot' b'. buf_add_chunk_with_capacity raw now tot b capacity capped = Some (tot', b')
    \<and> buf_holds rest tot' b' s \<and> b_chunks b' \<noteq> []"
proof -
  from preferred_Some [OF assms(2)] obtain sz where sz: "buf_preferred_chunk_size capacity = Some sz" by blast
  from preferred_enough [OF this] assms sz show ?thesis
    by (auto simp: buf_add_chunk_with_capacity_def chunk_new_with_alloc_size_def buf_holds_def chunk_simps chunk_ok_def
        chunk_bytes_def get_bytes_def CHUNK_ALLOC_SIZE_def CHUNK_SIZE_WITH_ALLOC_def)
qed

lemma tail_append_ok:
  assumes "buf_holds rest tot b s" "b_chunks b \<noteq> []" "length bs \<le> CHUNK_REMAINING_CAPACITY (last (b_chunks b))"
    and "length s + length bs \<le> BUF_MAX_LEN"
  shows "buf_holds rest tot (set_tail b (chunk_append (last (b_chunks b)) bs)\<lparr>b_datalen := b_datalen b + length bs\<rparr>) (s @ bs)"
proof -
  have c: "b_chunks b = butlast (b_chunks b) @ [last (b_chunks b)]" using assms(2) by simp
  have "\<forall>ch \<in> set (butlast (b_chunks b)). chunk_ok ch" "chunk_ok (last (b_chunks b))"
    using assms(1,2) by (auto simp: buf_holds_def dest: in_set_butlastD)
  moreover have "contents (b_chunks b) = contents (butlast (b_chunks b)) @ chunk_bytes (last (b_chunks b))"
    "allocated (b_chunks b) = allocated (butlast (b_chunks b)) + CHUNK_ALLOC_SIZE (length (ch_mem (last (b_chunks b))))"
    by (subst c, simp only: chunk_simps append_Nil2 add_0_right)+
  ultimately show ?thesis using assms(1,3,4) by (auto simp: buf_holds_def set_tail_def chunk_simps)
qed

lemma add_loop_ok:
  "buf_holds rest tot b s \<Longrightarrow> length s + length str \<le> BUF_MAX_LEN \<Longrightarrow>
     \<exists>tot' b'. add_loop raw now tot b str = Some (tot', b') \<and> buf_holds rest tot' b' (s @ str)"
proof (induction "length str" arbitrary: tot b s str rule: less_induct)
  case less
  show ?case
  proof (cases "str = []")
    case True
    then show ?thesis using less.prems by (subst add_loop.simps) simp
  next
    case False
    let ?new = "b_chunks b = [] \<or> CHUNK_REMAINING_CAPACITY (last (b_chunks b)) = 0"
    obtain tot1 b1 where b1: "(if ?new then buf_add_chunk_with_capacity raw now tot b (length str) True else Some (tot, b)) = Some (tot1, b1)"
      "buf_holds rest tot1 b1 s" "b_chunks b1 \<noteq> []" "0 < CHUNK_REMAINING_CAPACITY (last (b_chunks b1))"
    proof (cases ?new)
      case True
      from add_chunk_ok [OF less.prems(1), of "length str" raw now True] less.prems(2) obtain tot1 b1 where
        "buf_add_chunk_with_capacity raw now tot b (length str) True = Some (tot1, b1)" "buf_holds rest tot1 b1 s" by auto
      with new_chunk_room [OF this(1)] False True that show ?thesis by simp
    next
      case False
      with less.prems(1) that show ?thesis by auto
    qed
    define copy where "copy = (if CHUNK_REMAINING_CAPACITY (last (b_chunks b1)) > length str then length str
      else CHUNK_REMAINING_CAPACITY (last (b_chunks b1)))"
    have copy: "0 < copy" "copy \<le> length str" "copy \<le> CHUNK_REMAINING_CAPACITY (last (b_chunks b1))"
      using b1(4) False by (auto simp: copy_def)
    let ?b2 = "set_tail b1 (chunk_append (last (b_chunks b1)) (take copy str))\<lparr>b_datalen := b_datalen b1 + copy\<rparr>"
    have "buf_holds rest tot1 ?b2 (s @ take copy str)"
      using tail_append_ok [OF b1(2,3), of "take copy str"] copy less.prems(2) by simp
    moreover have "length (drop copy str) < length str" using copy False by simp
    ultimately obtain tot' b' where "add_loop raw now tot1 ?b2 (drop copy str) = Some (tot', b')" "buf_holds rest tot' b' (s @ str)"
      using less.hyps [of "drop copy str" tot1 ?b2 "s @ take copy str"] copy less.prems(2) by auto
    then show ?thesis
      using False b1(1) by (subst add_loop.simps) (simp add: Let_def copy_def [symmetric] set_tail_def)
  qed
qed

lemma room_below_max [simp]: "n \<le> BUF_MAX_LEN \<Longrightarrow> room_below_max n = BUF_MAX_LEN - n"
proof -
  assume n: "n \<le> BUF_MAX_LEN"
  have "of_nat BUF_MAX_LEN - of_nat n = (of_nat (BUF_MAX_LEN - n) :: 64 word)" using n by (subst of_nat_diff) simp_all
  moreover have "BUF_MAX_LEN - n < 2 ^ 64" by simp
  ultimately show ?thesis by (simp add: room_below_max_def unsigned_of_nat take_bit_nat_eq_self)
qed

lemma buf_add_ok:
  assumes "buf_holds rest tot b s" "length s + length str \<le> BUF_MAX_LEN"
  shows "\<exists>tot' b'. buf_add raw now tot b str = Some (tot', b', int (length s + length str)) \<and> buf_holds rest tot' b' (s @ str)"
proof (cases "str = []")
  case False
  from add_loop_ok [OF assms] obtain tot' b' where a: "add_loop raw now tot b str = Some (tot', b')" "buf_holds rest tot' b' (s @ str)"
    by blast
  have "b_datalen b = length s" "b_datalen b' = length (s @ str)" "length (s @ str) \<le> BUF_MAX_LEN"
    using assms a(2) by (simp_all add: buf_holds_def)
  with a assms(2) False show ?thesis by (auto simp: buf_add_def)
qed (use assms in \<open>auto simp: buf_add_def buf_holds_def\<close>)

text \<open>The whole string or nothing.\<close>

lemma buf_add_full:
  assumes "buf_holds rest tot b s" "BUF_MAX_LEN < length s + length str" "length str \<le> BUF_MAX_LEN"
  shows "buf_add raw now tot b str = Some (tot, b, - 1)"
  using assms by (auto simp: buf_add_def buf_holds_def)

section \<open>Making the first bytes contiguous\<close>

lemma remaining_simps [chunk_simps]:
  "chunk_ok ch \<Longrightarrow> length bs \<le> CHUNK_REMAINING_CAPACITY ch
     \<Longrightarrow> CHUNK_REMAINING_CAPACITY (chunk_append ch bs) = CHUNK_REMAINING_CAPACITY ch - length bs"
  "chunk_ok ch \<Longrightarrow> ch_datalen ch + CHUNK_REMAINING_CAPACITY ch + ch_data ch = length (ch_mem ch)"
  by (simp_all add: CHUNK_REMAINING_CAPACITY_def chunk_simps) (simp add: chunk_ok_def)

lemma pullup_loop_ok:
  "chunk_ok dest \<Longrightarrow> \<forall>ch \<in> set srcs. chunk_ok ch \<Longrightarrow> n \<le> length (contents (dest # srcs)) \<Longrightarrow>
   n \<le> ch_datalen dest + CHUNK_REMAINING_CAPACITY dest \<Longrightarrow>
     \<exists>chs. pullup_loop (rest + allocated (dest # srcs)) dest srcs n = Some (rest + allocated chs, chs)
       \<and> (\<forall>ch \<in> set chs. chunk_ok ch) \<and> contents chs = contents (dest # srcs) \<and> chs \<noteq> [] \<and> n \<le> ch_datalen (hd chs)"
proof (induction srcs arbitrary: dest)
  case Nil
  then show ?case by (subst pullup_loop.simps) (auto simp: chunk_simps)
next
  case (Cons src srcs)
  let ?k = "n - ch_datalen dest"
  have src: "chunk_ok src" and srcs: "\<forall>ch \<in> set srcs. chunk_ok ch" using Cons.prems by simp_all
  show ?case
  proof (cases "ch_datalen dest < n")
    case False
    then show ?thesis using Cons.prems by (subst pullup_loop.simps) auto
  next
    case True
    show ?thesis
    proof (cases "?k \<ge> ch_datalen src")
      case whole: True
      let ?dest = "chunk_append dest (chunk_bytes src)"
      have le: "length (chunk_bytes src) \<le> CHUNK_REMAINING_CAPACITY dest"
        using whole True Cons.prems(4) src by (simp add: chunk_simps)
      have f: "buf_chunk_free (rest + allocated (dest # src # srcs)) src = Some (rest + allocated (?dest # srcs))"
        using chunk_free_ok [of "rest + CHUNK_ALLOC_SIZE (length (ch_mem dest))" src "allocated srcs"] le Cons.prems(1)
        by (simp add: chunk_simps ac_simps)
      have "chunk_ok ?dest" "n \<le> length (contents (?dest # srcs))" "n \<le> ch_datalen ?dest + CHUNK_REMAINING_CAPACITY ?dest"
        using Cons.prems le src by (simp_all add: chunk_simps)
      from Cons.IH [OF this(1) srcs this(2,3)] f True whole le Cons.prems(1) src show ?thesis
        by (subst pullup_loop.simps) (auto simp: chunk_simps)
    next
      case part: False
      have l: "length (take ?k (chunk_bytes src)) = ?k" using part src by (simp add: chunk_simps)
      have le: "length (take ?k (chunk_bytes src)) \<le> CHUNK_REMAINING_CAPACITY dest" unfolding l using Cons.prems(4) by simp
      have "ch_datalen (chunk_append dest (take ?k (chunk_bytes src))) = n"
        using chunk_append_ok(4) [OF Cons.prems(1) le] l True by simp
      then show ?thesis
        using True part Cons.prems(1) src srcs le chunk_skip_ok [OF src, of ?k]
        by (subst pullup_loop.simps) (auto simp: chunk_simps Let_def)
    qed
  qed
qed

lemma buf_pullup_ok:
  assumes "buf_holds rest tot b s"
  shows "\<exists>tot' b' d. buf_pullup raw tot b n = Some (tot', b', d) \<and> buf_holds rest tot' b' s
    \<and> d = take (length d) s \<and> min n (length s) \<le> length d"
proof (cases "b_chunks b")
  case Nil
  then show ?thesis using assms by (auto simp: buf_pullup_def buf_holds_def chunk_simps)
next
  case (Cons head chs)
  define m where "m = (if b_datalen b < n then b_datalen b else n)"
  have m: "m = min n (length s)" "m \<le> BUF_MAX_LEN" using assms by (auto simp: m_def buf_holds_def)
  have h: "chunk_ok head" "\<forall>ch \<in> set chs. chunk_ok ch" "s = chunk_bytes head @ contents chs"
    "tot = rest + allocated (head # chs)" "b_datalen b = length s" "length s \<le> BUF_MAX_LEN"
    using assms Cons by (auto simp: buf_holds_def chunk_simps)
  show ?thesis
  proof (cases "ch_datalen head \<ge> m")
    case True
    then show ?thesis using Cons assms h m by (auto simp: buf_pullup_def m_def [symmetric] chunk_simps Let_def)
  next
    case False
    let ?grown = "if length (ch_mem head) \<ge> m
       then let needed = m - ch_datalen head;
                head = (if CHUNK_REMAINING_CAPACITY head < needed then chunk_repack head else head)
            in if \<not> CHUNK_REMAINING_CAPACITY head \<ge> needed then None else Some (tot, head)
       else do { sz \<leftarrow> buf_preferred_chunk_size m;
                 (tot, head) \<leftarrow> chunk_grow raw tot (chunk_repack head) (CHUNK_SIZE_WITH_ALLOC sz);
                 if \<not> length (ch_mem head) \<ge> m then None else Some (tot, head) }"
    obtain head' where g: "?grown = Some (rest + allocated (head' # chs), head')" "chunk_ok head'"
      "chunk_bytes head' = chunk_bytes head" "m \<le> ch_datalen head' + CHUNK_REMAINING_CAPACITY head'"
    proof (cases "length (ch_mem head) \<ge> m")
      case True
      let ?h = "if CHUNK_REMAINING_CAPACITY head < m - ch_datalen head then chunk_repack head else head"
      have r: "CHUNK_REMAINING_CAPACITY (chunk_repack head) = length (ch_mem head) - ch_datalen head"
        using h(1) by (simp add: CHUNK_REMAINING_CAPACITY_def chunk_simps)
      have "?grown = Some (rest + allocated (?h # chs), ?h)"
        using True False h(1,4) r by (auto simp: Let_def chunk_simps)
      moreover have "m \<le> ch_datalen ?h + CHUNK_REMAINING_CAPACITY ?h"
        using True False h(1) r by (auto simp: chunk_simps)
      ultimately show ?thesis using that [of ?h] h(1) by (auto simp: chunk_simps)
    next
      case grow: False
      from preferred_Some [OF m(2)] obtain sz where sz: "buf_preferred_chunk_size m = Some sz" by blast
      from preferred_enough [OF this] have "m \<le> CHUNK_SIZE_WITH_ALLOC sz" by simp
      with chunk_grow_ok [of "chunk_repack head" "CHUNK_SIZE_WITH_ALLOC sz" raw tot] grow h(1) obtain head' where
        hd: "chunk_grow raw tot (chunk_repack head) (CHUNK_SIZE_WITH_ALLOC sz) = Some (tot + (CHUNK_SIZE_WITH_ALLOC sz - length (ch_mem head)), head')"
          "chunk_ok head'" "chunk_bytes head' = chunk_bytes head" "length (ch_mem head') = CHUNK_SIZE_WITH_ALLOC sz" "ch_data head' = 0"
        by (auto simp: chunk_simps)
      have "tot + (CHUNK_SIZE_WITH_ALLOC sz - length (ch_mem head)) = rest + allocated (head' # chs)"
        using h(4) hd(4) \<open>m \<le> CHUNK_SIZE_WITH_ALLOC sz\<close> grow by (simp add: chunk_simps CHUNK_ALLOC_SIZE_def)
      moreover have "m \<le> ch_datalen head' + CHUNK_REMAINING_CAPACITY head'"
        using remaining_simps(2) [OF hd(2)] hd(4,5) \<open>m \<le> CHUNK_SIZE_WITH_ALLOC sz\<close> by simp
      ultimately show ?thesis using that [of head'] hd sz grow \<open>m \<le> CHUNK_SIZE_WITH_ALLOC sz\<close> by simp
    qed
    have "m \<le> length (contents (head' # chs))" using m(1) h(3) g(3) by (simp add: chunk_simps)
    from pullup_loop_ok [OF g(2) h(2) this g(4), of rest] obtain chs' where
      p: "pullup_loop (rest + allocated (head' # chs)) head' chs m = Some (rest + allocated chs', chs')"
        "\<forall>ch \<in> set chs'. chunk_ok ch" "contents chs' = s" "chs' \<noteq> []" "m \<le> ch_datalen (hd chs')"
      using h(3) g(3) by (auto simp: chunk_simps)
    have "chunk_bytes (hd chs') = take (length (chunk_bytes (hd chs'))) s" "m \<le> length (chunk_bytes (hd chs'))"
      using p(2-5) by (cases chs'; auto simp: chunk_simps)+
    moreover have "buf_pullup raw tot b n = Some (rest + allocated chs', b\<lparr>b_chunks := chs'\<rparr>, chunk_bytes (hd chs'))"
      using Cons False g(1) p(1) by (simp add: buf_pullup_def m_def [symmetric] Let_def)
    moreover have "buf_holds rest (rest + allocated chs') (b\<lparr>b_chunks := chs'\<rparr>) s"
      using p h by (simp add: buf_holds_def)
    ultimately show ?thesis using m(1) by auto
  qed
qed

section \<open>Between buffers\<close>

text \<open>Two buffers share the counter: what one holds, the other counts with the rest.\<close>

definition bufs_hold :: "nat \<Rightarrow> nat \<Rightarrow> buf \<Rightarrow> bytes \<Rightarrow> buf \<Rightarrow> bytes \<Rightarrow> bool" where
  "bufs_hold rest tot b s b' s' \<longleftrightarrow>
     buf_holds (rest + allocated (b_chunks b')) tot b s \<and> buf_holds (rest + allocated (b_chunks b)) tot b' s'"

lemma bufs_hold_rest: "buf_holds rest tot b s \<Longrightarrow> rest' + allocated (b_chunks b) = tot' \<Longrightarrow> buf_holds rest' tot' b s"
  by (auto simp: buf_holds_def)

lemma bufs_hold_left:
  assumes "bufs_hold rest tot b s b' s'" "buf_holds (rest + allocated (b_chunks b')) tot1 b1 s1"
  shows "bufs_hold rest tot1 b1 s1 b' s'"
  using assms by (auto simp: bufs_hold_def buf_holds_def)

lemma bufs_hold_right:
  assumes "bufs_hold rest tot b s b' s'" "buf_holds (rest + allocated (b_chunks b)) tot1 b1 s1"
  shows "bufs_hold rest tot1 b s b1 s1"
  using assms by (auto simp: bufs_hold_def buf_holds_def)

lemma move_loop_ok:
  "bufs_hold rest tot bout s bin t \<Longrightarrow> len \<le> length t \<Longrightarrow> length s + len \<le> BUF_MAX_LEN \<Longrightarrow>
     \<exists>tot' bout' bin'. move_loop raw now tot bout bin len = Some (tot', bout', bin')
       \<and> bufs_hold rest tot' bout' (s @ take len t) bin' (drop len t)"
proof (induction len arbitrary: tot bout s bin t rule: less_induct)
  case (less len)
  show ?case
  proof (cases "len = 0")
    case True
    then show ?thesis using less.prems by (subst move_loop.simps) simp
  next
    case False
    define n where "n = (if len > 4096 then 4096 else len)"
    have n: "0 < n" "n \<le> len" using False by (simp_all add: n_def)
    from less.prems(1) have t: "buf_holds (rest + allocated (b_chunks bout)) tot bin t" by (simp add: bufs_hold_def)
    from buf_get_bytes_ok [OF t, of n] n less.prems(2) obtain tot1 bin1 where
      g: "buf_get_bytes tot bin n = Some (tot1, bin1, take n t, int (length t - n))"
        "buf_holds (rest + allocated (b_chunks bout)) tot1 bin1 (drop n t)" by auto
    have h1: "bufs_hold rest tot1 bout s bin1 (drop n t)" using bufs_hold_right [OF less.prems(1) g(2)] .
    then have "buf_holds (rest + allocated (b_chunks bin1)) tot1 bout s" by (simp add: bufs_hold_def)
    from buf_add_ok [OF this, of "take n t" raw now] n less.prems(2,3) obtain tot2 bout2 r where
      a: "buf_add raw now tot1 bout (take n t) = Some (tot2, bout2, r)"
        "buf_holds (rest + allocated (b_chunks bin1)) tot2 bout2 (s @ take n t)" by auto
    have h2: "bufs_hold rest tot2 bout2 (s @ take n t) bin1 (drop n t)" using bufs_hold_left [OF h1 a(2)] .
    have l: "len - n < len" "len - n \<le> length (drop n t)" "length (s @ take n t) + (len - n) \<le> BUF_MAX_LEN"
      using n less.prems(2,3) by auto
    from less.IH [OF l(1) h2 l(2,3)] obtain tot' bout' bin' where
      m: "move_loop raw now tot2 bout2 bin1 (len - n) = Some (tot', bout', bin')"
        "bufs_hold rest tot' bout' ((s @ take n t) @ take (len - n) (drop n t)) bin' (drop (len - n) (drop n t))" by blast
    have "(s @ take n t) @ take (len - n) (drop n t) = s @ take len t" "drop (len - n) (drop n t) = drop len t"
      using n by (simp_all add: take_add [symmetric])
    with m g(1) a(1) False show ?thesis
      by (subst move_loop.simps) (simp add: n_def [symmetric])
  qed
qed

lemma buf_move_to_buf_ok:
  assumes "bufs_hold rest tot bout s bin t" "length s + flushlen \<le> BUF_MAX_LEN"
  shows "\<exists>tot' bout' bin'. buf_move_to_buf raw now tot bout bin flushlen
      = Some (tot', bout', bin', flushlen - min flushlen (length t), int (min flushlen (length t)))
    \<and> bufs_hold rest tot' bout' (s @ take flushlen t) bin' (drop flushlen t)"
proof -
  have d: "b_datalen bout = length s" "b_datalen bin = length t" using assms(1) by (auto simp: bufs_hold_def buf_holds_def)
  have "take (min flushlen (length t)) t = take flushlen t" "drop (min flushlen (length t)) t = drop flushlen t"
    by (simp_all add: min_def)
  moreover have "(if flushlen > length t then length t else flushlen) = min flushlen (length t)" by (simp add: min_def)
  ultimately show ?thesis
    using d assms move_loop_ok [OF assms(1), of "min flushlen (length t)" raw now]
    by (auto simp: buf_move_to_buf_def Let_def)
qed

lemma buf_move_all_ok:
  assumes "bufs_hold rest tot bout s bin t" "length s + length t \<le> BUF_MAX_LEN"
  shows "\<exists>bout' bin'. buf_move_all bout bin = (bout', bin', length t) \<and> bufs_hold rest tot bout' (s @ t) bin' []"
proof -
  have d: "b_datalen bout = length s" "b_datalen bin = length t" using assms(1) by (auto simp: bufs_hold_def buf_holds_def)
  show ?thesis
  proof (cases "t = []")
    case True
    then show ?thesis using d assms by (auto simp: buf_move_all_def)
  next
    case False
    then show ?thesis
      using d assms by (auto simp: buf_move_all_def bufs_hold_def buf_holds_def chunk_simps)
  qed
qed

lemma buf_copy_ok:
  assumes "buf_holds rest tot b s"
  shows "\<exists>tot' b'. buf_copy tot b = (tot', b') \<and> bufs_hold rest tot' b s b' s"
  using assms by (auto simp: buf_copy_def bufs_hold_def buf_holds_def allocated_def)

section \<open>Lines\<close>

lemma find_byte_None: "find_byte c bs = None \<longleftrightarrow> c \<notin> set bs"
  by (induction bs) auto

lemma find_byte_append:
  "find_byte c (as @ bs) = (case find_byte c as of Some i \<Rightarrow> Some i | None \<Rightarrow> map_option (\<lambda>i. length as + i) (find_byte c bs))"
  by (cases "find_byte c bs"; induction as) (auto split: option.splits)

lemma find_offset_loop_ok:
  "\<forall>ch \<in> set chs. chunk_ok ch \<Longrightarrow> find_offset_loop c chs k = map_option (\<lambda>i. k + i) (find_byte c (contents chs))"
proof (induction chs arbitrary: k)
  case (Cons ch chs)
  then show ?case
    by (cases "find_byte c (contents chs)"; cases "find_byte c (chunk_bytes ch)") (auto simp: chunk_simps find_byte_append)
qed (simp add: chunk_simps)

lemma find_offset_ok:
  assumes "buf_holds rest tot b s"
  shows "buf_find_offset_of_char b c = Some (find_byte c s)"
proof -
  have "find_offset_loop c (b_chunks b) 0 = find_byte c s"
    using assms find_offset_loop_ok [of "b_chunks b" c 0] by (simp add: buf_holds_def option.map_ident)
  with assms show ?thesis by (auto simp: buf_find_offset_of_char_def buf_holds_def)
qed

text \<open>A line is taken off with its end, if it fits.\<close>

lemma buf_get_line_ok:
  assumes "buf_holds rest tot b s"
  shows "\<exists>tot' b'. buf_get_line tot b data_len = Some
    (case find_byte 0x0A s of
       None \<Rightarrow> (tot', b', [], data_len, 0)
     | Some i \<Rightarrow> if i + 2 > data_len then (tot', b', [], i + 2, - 1) else (tot', b', take (i + 1) s @ [0], i + 1, 1))
    \<and> buf_holds rest tot' b' (case find_byte 0x0A s of Some i \<Rightarrow> if i + 2 > data_len then s else drop (i + 1) s | None \<Rightarrow> s)"
proof (cases "find_byte 0x0A s")
  case None
  then show ?thesis using assms find_offset_ok [OF assms, of "0x0A"] by (auto simp: buf_get_line_def)
next
  case (Some i)
  then have ne: "b_chunks b \<noteq> []" using assms by (auto simp: buf_holds_def chunk_simps)
  show ?thesis
  proof (cases "i + 2 > data_len")
    case True
    with Some ne show ?thesis using assms find_offset_ok [OF assms, of "0x0A"] by (auto simp: buf_get_line_def)
  next
    case False
    have "i + 1 \<le> length s" using find_byte_less [OF Some] by simp
    from buf_get_bytes_ok [OF assms this] Some ne False find_offset_ok [OF assms, of "0x0A"] show ?thesis
      by (auto simp: buf_get_line_def simp del: One_nat_def)
  qed
qed

section \<open>Sockets\<close>

text \<open>What the other end has sent and is not received yet, and what it has been sent: the calls of the
  system take bytes off the one in order, and add bytes to the other.\<close>

definition recv_ok :: "('s \<Rightarrow> nat \<Rightarrow> 's \<times> recv_result) \<Rightarrow> ('s \<Rightarrow> bytes) \<Rightarrow> bool" where
  "recv_ok recv incoming \<longleftrightarrow> (\<forall>fd n. case recv fd n of
     (fd', Recv_Bytes bs) \<Rightarrow> length bs \<le> n \<and> incoming fd = bs @ incoming fd'
   | (fd', Recv_Error _) \<Rightarrow> incoming fd' = incoming fd)"

definition send_ok :: "('s \<Rightarrow> bytes \<Rightarrow> 's \<times> send_result) \<Rightarrow> ('s \<Rightarrow> bytes) \<Rightarrow> bool" where
  "send_ok send sent \<longleftrightarrow> (\<forall>fd bs. case send fd bs of
     (fd', Send_Count n) \<Rightarrow> n \<le> length bs \<and> sent fd' = sent fd @ take n bs
   | (fd', Send_Error _) \<Rightarrow> sent fd' = sent fd)"

lemma read_to_chunk_ok:
  assumes "recv_ok recv incoming" "buf_holds rest tot b s" "b_chunks b \<noteq> []"
    and "length s + n \<le> BUF_MAX_LEN" "n \<le> CHUNK_REMAINING_CAPACITY (last (b_chunks b))"
    and "read_to_chunk recv fd b n eof = (fd', b', r, eof')"
  shows "\<exists>bs. buf_holds rest tot b' (s @ bs) \<and> incoming fd = bs @ incoming fd' \<and> length bs \<le> n
    \<and> (r = int (length bs) \<or> r = - 1 \<and> bs = [])"
proof (cases "recv fd n")
  case (Pair fd1 res)
  have at: "\<not> CHUNK_REMAINING_CAPACITY (last (b_chunks b)) < n" using assms(5) by simp
  show ?thesis
  proof (cases res)
    case (Recv_Bytes bs)
    with Pair assms(1) have bs: "length bs \<le> n" "incoming fd = bs @ incoming fd1"
      by (auto simp: recv_ok_def dest!: spec [of _ fd] spec [of _ n])
    show ?thesis
    proof (cases "bs = []")
      case True
      with Pair Recv_Bytes at bs assms(2,6) show ?thesis by (auto simp: read_to_chunk_def Let_def)
    next
      case False
      from tail_append_ok [OF assms(2,3), of bs] bs(1) assms(4,5)
      have "buf_holds rest tot (set_tail b (chunk_append (last (b_chunks b)) bs)\<lparr>b_datalen := b_datalen b + length bs\<rparr>) (s @ bs)"
        by simp
      moreover have "n \<noteq> 0" using False bs(1) by (cases bs) auto
      ultimately show ?thesis using Pair Recv_Bytes at bs assms(6) False by (auto simp: read_to_chunk_def Let_def)
    qed
  next
    case (Recv_Error eagain)
    with Pair assms(1) have "incoming fd1 = incoming fd"
      by (auto simp: recv_ok_def dest!: spec [of _ fd] spec [of _ n])
    with Pair Recv_Error at assms(2,6) show ?thesis by (auto simp: read_to_chunk_def Let_def split: if_splits)
  qed
qed

lemma read_loop_ok:
  assumes recv: "recv_ok recv incoming"
  shows "buf_holds rest tot b s \<Longrightarrow> k \<le> at_most \<Longrightarrow> at_most \<le> BUF_MAX_LEN \<Longrightarrow> length s + (at_most - k) \<le> BUF_MAX_LEN \<Longrightarrow>
     \<exists>fd' tot' b' r eof' bs. read_loop recv raw now fd tot b at_most k eof = Some (fd', tot', b', r, eof')
       \<and> buf_holds rest tot' b' (s @ bs) \<and> incoming fd = bs @ incoming fd' \<and> length bs \<le> at_most - k
       \<and> (r = int (k + length bs) \<or> r = - 1)"
proof (induction "at_most - k" arbitrary: fd tot b s k eof rule: less_induct)
  case less
  show ?case
  proof (cases "at_most > k")
    case False
    then show ?thesis using less.prems by (subst read_loop.simps) (intro exI [of _ "[]"] exI conjI, auto)
  next
    case True
    let ?new = "b_chunks b = [] \<or> CHUNK_REMAINING_CAPACITY (last (b_chunks b)) < MIN_READ_LEN"
    let ?room = "if ?new then map_option (\<lambda>(tot, b). (tot, b, length (ch_mem (last (b_chunks b)))))
                        (buf_add_chunk_with_capacity raw now tot b at_most True)
                 else Some (tot, b, CHUNK_REMAINING_CAPACITY (last (b_chunks b)))"
    obtain tot1 b1 cap where b1: "?room = Some (tot1, b1, cap)" "buf_holds rest tot1 b1 s" "b_chunks b1 \<noteq> []"
      "0 < cap" "cap = CHUNK_REMAINING_CAPACITY (last (b_chunks b1))"
    proof (cases ?new)
      case new: True
      from add_chunk_ok [OF less.prems(1) less.prems(3), of raw now True] obtain tot1 b1 where
        a: "buf_add_chunk_with_capacity raw now tot b at_most True = Some (tot1, b1)" "buf_holds rest tot1 b1 s" by auto
      then have "length (ch_mem (last (b_chunks b1))) = CHUNK_REMAINING_CAPACITY (last (b_chunks b1))"
        by (auto simp: buf_add_chunk_with_capacity_def chunk_new_with_alloc_size_def CHUNK_REMAINING_CAPACITY_def
            bind_eq_Some_conv Let_def)
      with a new_chunk_room [OF a(1)] True new that show ?thesis by simp
    next
      case False
      with less.prems(1) that show ?thesis by auto
    qed
    define n where "n = (if at_most - k > cap then cap else at_most - k)"
    have n: "0 < n" "n \<le> at_most - k" "n \<le> CHUNK_REMAINING_CAPACITY (last (b_chunks b1))"
      using True b1(4,5) by (auto simp: n_def)
    obtain fd2 b2 r eof2 where r: "read_to_chunk recv fd b1 n eof = (fd2, b2, r, eof2)" by (cases "read_to_chunk recv fd b1 n eof")
    have l: "length s + n \<le> BUF_MAX_LEN" using n(2) less.prems(4) by simp
    from read_to_chunk_ok [OF recv b1(2,3) l n(3) r] obtain bs where
      bs: "buf_holds rest tot1 b2 (s @ bs)" "incoming fd = bs @ incoming fd2" "length bs \<le> n" "r = int (length bs) \<or> r = - 1 \<and> bs = []" by blast
    show ?thesis
    proof (cases "r < 0 \<or> length bs < n")
      case stop: True
      have "read_loop recv raw now fd tot b at_most k eof = Some (fd2, tot1, b2, if r < 0 then r else int (k + length bs), eof2)"
        using True b1(1) r bs(3,4) n less.prems(3) stop by (subst read_loop.simps) (auto simp: n_def [symmetric] Let_def)
      with bs n(2) show ?thesis by fastforce
    next
      case False
      with bs(3,4) have r': "nat r = n" "length bs = n" "\<not> r < 0" by auto
      have "at_most - (k + n) < at_most - k" "k + n \<le> at_most" "length (s @ bs) + (at_most - (k + n)) \<le> BUF_MAX_LEN"
        using n(1,2) less.prems(2,4) r' by auto
      from less.hyps [OF this(1) bs(1) this(2) less.prems(3) this(3), of fd2 eof2] obtain fd' tot' b' r2 eof' bs' where
        i: "read_loop recv raw now fd2 tot1 b2 at_most (k + n) eof2 = Some (fd', tot', b', r2, eof')"
          "buf_holds rest tot' b' ((s @ bs) @ bs')" "incoming fd2 = bs' @ incoming fd'" "length bs' \<le> at_most - (k + n)"
          "r2 = int (k + n + length bs') \<or> r2 = - 1" by blast
      have "read_loop recv raw now fd tot b at_most k eof = Some (fd', tot', b', r2, eof')"
        using True b1(1) r r' i(1) n less.prems(3) by (subst read_loop.simps) (auto simp: n_def [symmetric] Let_def)
      moreover have "length (bs @ bs') \<le> at_most - k" using i(4) r'(2) n(2) by simp
      ultimately show ?thesis using i bs(2) r'(2) by (intro exI [of _ fd'] exI [of _ tot'] exI [of _ b'] exI [of _ r2]
          exI [of _ eof'] exI [of _ "bs @ bs'"]) auto
    qed
  qed
qed

lemma buf_read_ok:
  assumes "recv_ok recv incoming" "buf_holds rest tot b s" "length s + at_most \<le> BUF_MAX_LEN"
  shows "\<exists>fd' tot' b' r eof' bs. buf_read_from_fd recv raw now fd tot b at_most eof = Some (fd', tot', b', r, eof')
       \<and> buf_holds rest tot' b' (s @ bs) \<and> incoming fd = bs @ incoming fd' \<and> length bs \<le> at_most
       \<and> (r = int (length bs) \<or> r = - 1)"
  using read_loop_ok [OF assms(1,2), of 0 at_most raw now fd eof] assms(2,3)
  by (auto simp: buf_read_from_fd_def buf_holds_def)

lemma flush_chunk_ok:
  assumes "send_ok send sent" "buf_holds rest tot b s" "b_chunks b = ch # chs" "n \<le> ch_datalen ch"
  shows "\<exists>fd' tot' b' r k. flush_chunk send fd tot b ch n = Some (fd', tot', b', r)
    \<and> buf_holds rest tot' b' (drop k s) \<and> sent fd' = sent fd @ take k s \<and> k \<le> n \<and> (r = int k \<or> r = - 1 \<and> k = 0)"
proof -
  have ch: "chunk_ok ch" "s = chunk_bytes ch @ contents chs" "length s \<le> BUF_MAX_LEN" using assms(2,3) by (auto simp: buf_holds_def chunk_simps)
  have l: "n \<le> length (chunk_bytes ch)" "n \<le> length s" using ch(1,2) assms(4) by (simp_all add: chunk_simps)
  obtain fd' res where f: "send fd (take n (chunk_bytes ch)) = (fd', res)" by (cases "send fd (take n (chunk_bytes ch))")
  have n: "\<not> ch_datalen ch < n" using assms(4) by simp
  show ?thesis
  proof (cases res)
    case (Send_Count m)
    with f assms(1) l have m: "m \<le> n" "sent fd' = sent fd @ take m (take n (chunk_bytes ch))"
      by (auto simp: send_ok_def dest!: spec [of _ fd] spec [of _ "take n (chunk_bytes ch)"])
    have t: "take m (take n (chunk_bytes ch)) = take m s" using m(1) l(1) ch(2) by (simp add: min_def)
    from buf_drain_ok [OF assms(2), of m] m(1) l(2) obtain tot' b' where
      "buf_drain tot b m = Some (tot', b')" "buf_holds rest tot' b' (drop m s)" by auto
    with f Send_Count m t l n ch(3) show ?thesis
      by (intro exI [of _ fd'] exI [of _ tot'] exI [of _ b'] exI [of _ "int m"] exI [of _ m]) (simp add: flush_chunk_def Let_def min_def)
  next
    case (Send_Error eagain)
    with f assms(1) have "sent fd' = sent fd"
      by (auto simp: send_ok_def dest!: spec [of _ fd] spec [of _ "take n (chunk_bytes ch)"])
    with f Send_Error n assms(2) show ?thesis
      by (intro exI [of _ fd'] exI [of _ tot] exI [of _ b] exI [of _ "if \<not> eagain then - 1 else 0"] exI [of _ 0]) (simp add: flush_chunk_def Let_def)
  qed
qed

lemma flush_loop_ok:
  assumes send: "send_ok send sent"
  shows "buf_holds rest tot b s \<Longrightarrow> n \<le> length s \<Longrightarrow> flushed + n \<le> BUF_MAX_LEN \<Longrightarrow>
     \<exists>fd' tot' b' r k. flush_loop send fd tot b n flushed = Some (fd', tot', b', r)
       \<and> buf_holds rest tot' b' (drop k s) \<and> sent fd' = sent fd @ take k s \<and> k \<le> n \<and> (r = int (flushed + k) \<or> r = - 1)"
proof (induction n arbitrary: fd tot b s flushed rule: less_induct)
  case (less n)
  show ?case
  proof (cases "n = 0")
    case True
    then show ?thesis using less.prems
      by (subst flush_loop.simps) (intro exI [of _ fd] exI [of _ tot] exI [of _ b] exI [of _ "int flushed"] exI [of _ 0], simp)
  next
    case False
    with less.prems(1,2) obtain ch chs where c: "b_chunks b = ch # chs" by (cases "b_chunks b") (auto simp: buf_holds_def chunk_simps)
    define m where "m = (if ch_datalen ch \<ge> n then n else ch_datalen ch)"
    have m: "m \<le> n" "m \<le> ch_datalen ch" by (auto simp: m_def)
    from flush_chunk_ok [OF send less.prems(1) c m(2), of fd] obtain fd1 tot1 b1 r k where
      f: "flush_chunk send fd tot b ch m = Some (fd1, tot1, b1, r)" "buf_holds rest tot1 b1 (drop k s)"
        "sent fd1 = sent fd @ take k s" "k \<le> m" "r = int k \<or> r = - 1 \<and> k = 0" by blast
    show ?thesis
    proof (cases "r \<le> 0 \<or> nat r < m")
      case stop: True
      have "flush_loop send fd tot b n flushed = Some (fd1, tot1, b1, if r < 0 then r else int (flushed + k))"
        using False c f stop m(1) less.prems(3) by (subst flush_loop.simps) (auto simp: m_def [symmetric] Let_def)
      with f m(1) show ?thesis by fastforce
    next
      case go: False
      with f(4,5) have k: "r = int k" "nat r = k" "k = m" "0 < k" "\<not> r < 0" "r \<noteq> 0" by auto
      have "n - k < n" "n - k \<le> length (drop k s)" "flushed + k + (n - k) \<le> BUF_MAX_LEN"
        using k(3,4) m(1) less.prems(2,3) by auto
      from less.IH [OF this(1) f(2) this(2,3), of fd1] obtain fd' tot' b' r2 k' where
        i: "flush_loop send fd1 tot1 b1 (n - k) (flushed + k) = Some (fd', tot', b', r2)" "buf_holds rest tot' b' (drop k' (drop k s))"
          "sent fd' = sent fd1 @ take k' (drop k s)" "k' \<le> n - k" "r2 = int (flushed + k + k') \<or> r2 = - 1" by blast
      have "flush_loop send fd tot b n flushed = Some (fd', tot', b', r2)"
        using False c f(1) k i(1) by (subst flush_loop.simps) (simp add: m_def [symmetric] Let_def)
      moreover have "sent fd' = sent fd @ take (k + k') s" using i(3) f(3) by (simp add: take_add)
      moreover have "drop k' (drop k s) = drop (k + k') s" by (simp add: add.commute)
      moreover have "k + k' \<le> n" using i(4) k(3) m(1) by simp
      ultimately show ?thesis using i(2,5)
        by (intro exI [of _ fd'] exI [of _ tot'] exI [of _ b'] exI [of _ r2] exI [of _ "k + k'"]) (simp add: add.assoc)
    qed
  qed
qed

lemma buf_flush_ok:
  assumes "send_ok send sent" "buf_holds rest tot b s"
  shows "\<exists>fd' tot' b' r k. buf_flush_to_fd send fd tot b n = Some (fd', tot', b', r)
       \<and> buf_holds rest tot' b' (drop k s) \<and> sent fd' = sent fd @ take k s \<and> k \<le> n \<and> (r = int k \<or> r = - 1)"
proof -
  have d: "b_datalen b = length s" "length s \<le> BUF_MAX_LEN" using assms(2) by (auto simp: buf_holds_def)
  define m where "m = (if n > b_datalen b then b_datalen b else n)"
  have m: "m \<le> n" "m \<le> length s" using d(1) by (auto simp: m_def)
  with d(2) have "0 + m \<le> BUF_MAX_LEN" by simp
  from flush_loop_ok [OF assms m(2) this, of fd] obtain fd' tot' b' r k where
    "flush_loop send fd tot b m 0 = Some (fd', tot', b', r)" "buf_holds rest tot' b' (drop k s)"
    "sent fd' = sent fd @ take k s" "k \<le> m" "r = int (0 + k) \<or> r = - 1" by blast
  with m(1) show ?thesis
    by (intro exI [of _ fd'] exI [of _ tot'] exI [of _ b'] exI [of _ r] exI [of _ k]) (simp add: buf_flush_to_fd_def m_def [symmetric] Let_def)
qed

section \<open>Sequences of operations\<close>

datatype buf_op =
  Op_Add "nat \<Rightarrow> 8 word" "32 word" bytes
| Op_Get nat
| Op_Drain nat
| Op_Pullup "nat \<Rightarrow> 8 word" nat
| Op_Line nat
| Op_Startswith bytes
| Op_Clear

text \<open>The bytes and the number that an operation gives back; of \<open>buf_pullup\<close>, the bytes that were asked for.\<close>

type_synonym buf_result = "bytes \<times> int"

fun buf_op_run :: "buf_op \<Rightarrow> nat \<Rightarrow> buf \<Rightarrow> (nat \<times> buf \<times> buf_result) option" where
  "buf_op_run (Op_Add raw now str) tot b = do { (tot, b, r) \<leftarrow> buf_add raw now tot b str; Some (tot, b, [], r) }"
| "buf_op_run (Op_Get n) tot b = do { (tot, b, str, r) \<leftarrow> buf_get_bytes tot b n; Some (tot, b, str, r) }"
| "buf_op_run (Op_Drain n) tot b = do { (tot, b) \<leftarrow> buf_drain tot b n; Some (tot, b, [], 0) }"
| "buf_op_run (Op_Pullup raw n) tot b = do { (tot, b, head) \<leftarrow> buf_pullup raw tot b n; Some (tot, b, take n head, 0) }"
| "buf_op_run (Op_Line n) tot b = do { (tot, b, line, n, r) \<leftarrow> buf_get_line tot b n; Some (tot, b, line, r) }"
| "buf_op_run (Op_Startswith cmd) tot b = do { r \<leftarrow> buf_peek_startswith b cmd; Some (tot, b, [], of_bool r) }"
| "buf_op_run Op_Clear tot b = do { (tot, b) \<leftarrow> buf_clear tot b; Some (tot, b, [], 0) }"

text \<open>What the operations do to a string of bytes. \<open>None\<close>: the operation may not be called.\<close>

fun bytes_op :: "buf_op \<Rightarrow> bytes \<Rightarrow> (bytes \<times> buf_result) option" where
  "bytes_op (Op_Add raw now str) s =
     (if length str > BUF_MAX_LEN then None
      else if length s + length str > BUF_MAX_LEN then Some (s, [], - 1)
      else Some (s @ str, [], int (length s + length str)))"
| "bytes_op (Op_Get n) s = (if n > length s then None else Some (drop n s, take n s, int (length s - n)))"
| "bytes_op (Op_Drain n) s = (if n > length s then None else Some (drop n s, [], 0))"
| "bytes_op (Op_Pullup raw n) s = Some (s, take n s, 0)"
| "bytes_op (Op_Line n) s =
     (case find_byte 0x0A s of
        None \<Rightarrow> Some (s, [], 0)
      | Some i \<Rightarrow> if i + 2 > n then Some (s, [], - 1) else Some (drop (i + 1) s, take (i + 1) s @ [0], 1))"
| "bytes_op (Op_Startswith cmd) s = Some (s, [], of_bool (length cmd \<le> 16 \<and> take (length cmd) s = cmd))"
| "bytes_op Op_Clear s = Some ([], [], 0)"

fun buf_run :: "buf_op list \<Rightarrow> nat \<Rightarrow> buf \<Rightarrow> (nat \<times> buf \<times> buf_result list) option" where
  "buf_run [] tot b = Some (tot, b, [])"
| "buf_run (op # ops) tot b =
     do { (tot, b, r) \<leftarrow> buf_op_run op tot b; (tot, b, rs) \<leftarrow> buf_run ops tot b; Some (tot, b, r # rs) }"

fun bytes_run :: "buf_op list \<Rightarrow> bytes \<Rightarrow> (bytes \<times> buf_result list) option" where
  "bytes_run [] s = Some (s, [])"
| "bytes_run (op # ops) s = do { (s, r) \<leftarrow> bytes_op op s; (s, rs) \<leftarrow> bytes_run ops s; Some (s, r # rs) }"

lemma startswith_ok: "buf_holds rest tot b s \<Longrightarrow> buf_peek_startswith b cmd = Some (length cmd \<le> 16 \<and> take (length cmd) s = cmd)"
  using buf_peek_ok [of rest tot b s "length cmd"] by (auto simp: buf_peek_startswith_def holds_datalen Let_def)

lemma op_simulates:
  assumes "buf_holds rest tot b s" "bytes_op op s = Some (s', r)"
  shows "\<exists>tot' b'. buf_op_run op tot b = Some (tot', b', r) \<and> buf_holds rest tot' b' s'"
proof (cases op)
  case (Op_Add raw now str)
  show ?thesis
  proof (cases "length s + length str > BUF_MAX_LEN")
    case True
    with Op_Add assms buf_add_full [OF assms(1), of str raw now] show ?thesis by (auto split: if_splits)
  next
    case False
    with Op_Add assms buf_add_ok [OF assms(1), of str raw now] show ?thesis by (auto split: if_splits)
  qed
next
  case (Op_Get n)
  with assms buf_get_bytes_ok [OF assms(1), of n] show ?thesis by (auto split: if_splits)
next
  case (Op_Drain n)
  with assms buf_drain_ok [OF assms(1), of n] show ?thesis by (auto split: if_splits)
next
  case (Op_Pullup raw n)
  from buf_pullup_ok [OF assms(1), of raw n] obtain tot' b' d where
    p: "buf_pullup raw tot b n = Some (tot', b', d)" "buf_holds rest tot' b' s" "d = take (length d) s" "min n (length s) \<le> length d" by blast
  have "take n d = take n s" using p(4) by (subst p(3)) (auto simp: min_def split: if_splits)
  moreover have "s' = s" "r = (take n s, 0)" using assms(2) Op_Pullup by auto
  ultimately show ?thesis using Op_Pullup p(1,2) by simp
next
  case (Op_Line n)
  from buf_get_line_ok [OF assms(1), of n] obtain tot' b' where
    "buf_get_line tot b n = Some
      (case find_byte 0x0A s of
         None \<Rightarrow> (tot', b', [], n, 0)
       | Some i \<Rightarrow> if i + 2 > n then (tot', b', [], i + 2, - 1) else (tot', b', take (i + 1) s @ [0], i + 1, 1))"
    "buf_holds rest tot' b' (case find_byte 0x0A s of Some i \<Rightarrow> if i + 2 > n then s else drop (i + 1) s | None \<Rightarrow> s)" by blast
  with Op_Line assms(2) show ?thesis by (auto split: option.splits if_splits)
next
  case (Op_Startswith cmd)
  with assms startswith_ok [OF assms(1), of cmd] show ?thesis by auto
next
  case Op_Clear
  with assms buf_clear_ok [OF assms(1)] show ?thesis by auto
qed

lemma run_simulates:
  "buf_holds rest tot b s \<Longrightarrow> bytes_run ops s = Some (s', rs) \<Longrightarrow>
     \<exists>tot' b'. buf_run ops tot b = Some (tot', b', rs) \<and> buf_holds rest tot' b' s'"
proof (induction ops arbitrary: tot b s rs)
  case (Cons op ops)
  from Cons.prems(2) obtain s1 r rs' where o: "bytes_op op s = Some (s1, r)" "bytes_run ops s1 = Some (s', rs')" "rs = r # rs'"
    by (auto simp: bind_eq_Some_conv)
  from op_simulates [OF Cons.prems(1) o(1)] obtain tot1 b1 where b1: "buf_op_run op tot b = Some (tot1, b1, r)" "buf_holds rest tot1 b1 s1" by blast
  from Cons.IH [OF b1(2) o(2)] b1(1) o(3) show ?case by auto
qed simp

text \<open>C6: A buffer refines a string of bytes: any sequence of additions, removals, pull-ups, line reads,
  prefix tests and clearings on the chunks gives back exactly what it gives on a string, no assertion
  fails, the well-formedness check passes at the end, and the counter of allocated bytes has grown by
  exactly what the buffer occupies.\<close>

theorem buffers_refine_bytes:
  assumes "bytes_run ops [] = Some (s, rs)"
  shows "\<exists>tot b. buf_run ops rest buf_new = Some (tot, b, rs) \<and> buf_extract b = Some (s @ [0], length s)
    \<and> buf_assert_ok b \<and> tot = rest + buf_allocation b"
  using run_simulates [OF holds_new assms, of rest] buf_extract_ok holds_assert_ok holds_allocation by blast

lemma buffers_refine_bytes_witness:
  "\<exists>tot b. buf_run [Op_Add (\<lambda>i. 0) 0 [1, 2, 0x0A, 3], Op_Startswith [1, 2], Op_Line 10, Op_Pullup (\<lambda>i. 0) 1] 0 buf_new
      = Some (tot, b, [([], 4), ([], 1), ([1, 2, 0x0A, 0], 1), ([3], 0)])
    \<and> buf_extract b = Some ([3, 0], 1)"
  using buffers_refine_bytes [of "[Op_Add (\<lambda>i. 0) 0 [1, 2, 0x0A, 3], Op_Startswith [1, 2], Op_Line 10, Op_Pullup (\<lambda>i. 0) 1]" "[3]"
      "[([], 4), ([], 1), ([1, 2, 0x0A, 0], 1), ([3], 0)]" 0] by auto

end
