(* ===== verification/Buffer_Search.thy ===== *)
theory Buffer_Search
  imports Buffer_Queue
begin

text \<open>
  \<open>buf_find_string_offset\<close> finds the first occurrence of a string when no chunk is empty; when one is, it
  reads storage that is not in use.
\<close>

section \<open>Positions\<close>

definition occurs_at :: "bytes \<Rightarrow> bytes \<Rightarrow> nat \<Rightarrow> bool" where
  "occurs_at w s i \<longleftrightarrow> take (length w) (drop i s) = w"

definition rest_bytes :: "buf_pos \<Rightarrow> bytes" where
  "rest_bytes p = drop (bp_pos p) (contents (bp_chunks p))"

definition pos_at :: "buf_pos \<Rightarrow> nat" where
  "pos_at p = bp_chunk_pos p + bp_pos p"

definition chunks_full :: "chunk list \<Rightarrow> bool" where
  "chunks_full chs \<longleftrightarrow> (\<forall>ch \<in> set chs. chunk_ok ch \<and> 0 < ch_datalen ch)"

definition pos_ok :: "buf_pos \<Rightarrow> bool" where
  "pos_ok p \<longleftrightarrow> chunks_full (bp_chunks p) \<and> bp_chunks p \<noteq> [] \<and> bp_pos p < ch_datalen (hd (bp_chunks p))"

lemma chunks_full_Cons: "chunks_full (ch # chs) \<longleftrightarrow> chunk_ok ch \<and> 0 < ch_datalen ch \<and> chunks_full chs"
  by (auto simp: chunks_full_def)

lemma find_byte_drop:
  "find_byte c (drop k s @ t) = (case find_byte c (drop k s) of Some i \<Rightarrow> Some i | None \<Rightarrow> map_option (\<lambda>i. length (drop k s) + i) (find_byte c t))"
  by (rule find_byte_append)

lemma find_pos_loop_ok:
  "chunks_full chs \<Longrightarrow> chs \<noteq> [] \<longrightarrow> pos \<le> ch_datalen (hd chs) \<Longrightarrow>
     (case find_byte c (drop pos (contents chs)) of
        None \<Rightarrow> find_pos_loop c chs pos before = None
      | Some i \<Rightarrow> \<exists>p. find_pos_loop c chs pos before = Some p \<and> pos_ok p \<and> pos_at p = before + pos + i
                  \<and> rest_bytes p = drop (pos + i) (contents chs))"
proof (induction c chs pos before rule: find_pos_loop.induct)
  case (1 c pos before)
  then show ?case by (simp add: chunk_simps)
next
  case (2 c ch chs pos before)
  have ch: "chunk_ok ch" "chunks_full chs" "pos \<le> ch_datalen ch" using "2.prems" by (simp_all add: chunks_full_Cons)
  have g: "get_bytes (ch_data ch + pos) (ch_datalen ch - pos) (ch_mem ch) = drop pos (chunk_bytes ch)"
    using ch(1) by (simp add: get_bytes_def chunk_bytes_def drop_take add.commute)
  have l: "length (drop pos (chunk_bytes ch)) = ch_datalen ch - pos" using ch(1) by (simp add: chunk_simps)
  have d: "drop pos (contents (ch # chs)) = drop pos (chunk_bytes ch) @ contents chs"
    using ch by (simp add: chunk_simps)
  show ?case
  proof (cases "find_byte c (drop pos (chunk_bytes ch))")
    case (Some i)
    have "i < ch_datalen ch - pos" using find_byte_less [OF Some] l by simp
    with Some g d ch "2.prems" show ?thesis
      by (simp add: find_byte_append pos_ok_def pos_at_def rest_bytes_def)
  next
    case None
    have IH: "case find_byte c (contents chs) of
        None \<Rightarrow> find_pos_loop c chs 0 (before + ch_datalen ch) = None
      | Some i \<Rightarrow> \<exists>p. find_pos_loop c chs 0 (before + ch_datalen ch) = Some p \<and> pos_ok p \<and> pos_at p = before + ch_datalen ch + i
                  \<and> rest_bytes p = drop i (contents chs)"
      using "2.IH" None g ch(2) by (simp only: add_0 add_0_right) simp
    show ?thesis
    proof (cases "find_byte c (contents chs)")
      case None
      with IH \<open>find_byte c (drop pos (chunk_bytes ch)) = None\<close> g d show ?thesis by (simp add: find_byte_append)
    next
      case (Some i)
      with IH obtain p where "find_pos_loop c chs 0 (before + ch_datalen ch) = Some p" "pos_ok p"
        "pos_at p = before + ch_datalen ch + i" "rest_bytes p = drop i (contents chs)" by auto
      with Some None g d l ch show ?thesis by (simp add: find_byte_append chunk_simps)
    qed
  qed
qed

lemma pos_inc_ok:
  assumes "pos_ok p"
  shows "case buf_pos_inc p of (p', ok) \<Rightarrow>
    if ok then pos_ok p' \<and> rest_bytes p' = tl (rest_bytes p) \<and> pos_at p' = Suc (pos_at p) else length (rest_bytes p) = 1"
proof -
  obtain ch chs where c: "bp_chunks p = ch # chs" using assms by (cases "bp_chunks p") (auto simp: pos_ok_def)
  have h: "chunk_ok ch" "0 < ch_datalen ch" "chunks_full chs" "bp_pos p < ch_datalen ch" "length (chunk_bytes ch) = ch_datalen ch"
    using assms c by (auto simp: pos_ok_def chunks_full_Cons chunk_simps)
  show ?thesis
  proof (cases chs)
    case Nil
    with c h show ?thesis
      by (auto simp: buf_pos_inc_def pos_ok_def rest_bytes_def pos_at_def chunk_simps chunks_full_Cons Let_def tl_drop drop_Suc [symmetric])
  next
    case (Cons ch' chs')
    with c h show ?thesis
      by (auto simp: buf_pos_inc_def pos_ok_def rest_bytes_def pos_at_def chunk_simps chunks_full_Cons Let_def tl_drop drop_Suc [symmetric])
  qed
qed

lemma matches_ok: "pos_ok p \<Longrightarrow> buf_matches_at_pos p w = Some (take (length w) (rest_bytes p) = w)"
proof (induction p w rule: buf_matches_at_pos.induct)
  case (2 p s ss)
  obtain ch chs where c: "bp_chunks p = ch # chs" using "2.prems" by (cases "bp_chunks p") (auto simp: pos_ok_def)
  have h: "chunk_ok ch" "bp_pos p < ch_datalen ch" "length (chunk_bytes ch) = ch_datalen ch"
    using "2.prems" c by (auto simp: pos_ok_def chunks_full_Cons chunk_simps)
  have i: "ch_data ch + bp_pos p < length (ch_mem ch)" using h by (simp add: chunk_ok_def)
  have "chunk_bytes ch ! bp_pos p = ch_mem ch ! (ch_data ch + bp_pos p)"
    using h by (simp add: chunk_bytes_def get_bytes_def chunk_ok_def)
  then have r: "rest_bytes p = ch_mem ch ! (ch_data ch + bp_pos p) # tl (rest_bytes p)"
    using c h by (simp add: rest_bytes_def chunk_simps Cons_nth_drop_Suc [symmetric] del: Cons_nth_drop_Suc)
  obtain p' ok where p: "buf_pos_inc p = (p', ok)" by (cases "buf_pos_inc p")
  from pos_inc_ok [OF "2.prems"] p have n:
    "if ok then pos_ok p' \<and> rest_bytes p' = tl (rest_bytes p) \<and> pos_at p' = Suc (pos_at p) else length (rest_bytes p) = 1" by simp
  have "take (length (s # ss)) (rest_bytes p) = s # ss \<longleftrightarrow>
    ch_mem ch ! (ch_data ch + bp_pos p) = s \<and> take (length ss) (tl (rest_bytes p)) = ss"
    by (subst r) simp
  moreover have "tl (rest_bytes p) = [] \<Longrightarrow> take (length ss) (tl (rest_bytes p)) = ss \<longleftrightarrow> ss = []" by auto
  moreover have "\<not> ok \<Longrightarrow> tl (rest_bytes p) = []" using n by (cases "rest_bytes p") auto
  ultimately show ?case
    using "2.IH" c i p n by (auto simp: Let_def)
qed simp

section \<open>The first occurrence\<close>

text \<open>What a search from a position returns, given the position and the bytes from there.\<close>

definition first_from :: "bytes \<Rightarrow> nat \<Rightarrow> bytes \<Rightarrow> int \<Rightarrow> bool" where
  "first_from w k s r \<longleftrightarrow>
     (if \<exists>i. occurs_at w s i then \<exists>i. r = int (k + i) \<and> occurs_at w s i \<and> (\<forall>j < i. \<not> occurs_at w s j) else r = - 1)"

lemma occurs_hd: "w \<noteq> [] \<Longrightarrow> occurs_at w s i \<Longrightarrow> i < length s \<and> s ! i = hd w"
  by (cases w; cases "drop i s") (auto simp: occurs_at_def nth_via_drop not_le [symmetric])

lemma find_byte_first: "find_byte c s = Some i \<Longrightarrow> s ! i = c \<and> (\<forall>j < i. s ! j \<noteq> c)"
proof (induction s arbitrary: i)
  case (Cons b s)
  then show ?case by (auto simp: nth_Cons less_Suc_eq_0_disj split: if_splits nat.splits)
qed simp

text \<open>Skipping bytes where the string does not occur.\<close>

lemma first_from_skip:
  assumes "\<forall>j < i. \<not> occurs_at w s j" "first_from w (k + i) (drop i s) r"
  shows "first_from w k s r"
proof -
  have o: "occurs_at w (drop i s) j = occurs_at w s (i + j)" for j by (simp add: occurs_at_def add.commute)
  have e: "(\<exists>j. occurs_at w s j) = (\<exists>j. occurs_at w s (i + j))"
    using assms(1) by (metis le_add_diff_inverse not_le)
  show ?thesis
  proof (cases "\<exists>j. occurs_at w s (i + j)")
    case True
    with assms(2) o obtain j where j: "r = int (k + i + j)" "occurs_at w s (i + j)" "\<forall>j' < j. \<not> occurs_at w s (i + j')"
      by (auto simp: first_from_def)
    have "\<forall>j' < i + j. \<not> occurs_at w s j'"
      using j(3) assms(1) by (metis le_add_diff_inverse nat_add_left_cancel_less not_le)
    with j True e show ?thesis by (auto simp: first_from_def intro!: exI [of _ "i + j"])
  next
    case False
    with assms(2) e o show ?thesis by (simp add: first_from_def)
  qed
qed

lemma find_pos_ok:
  assumes "pos_ok p"
  shows "case find_byte c (rest_bytes p) of
        None \<Rightarrow> buf_find_pos_of_char c p = Some None
      | Some i \<Rightarrow> \<exists>q. buf_find_pos_of_char c p = Some (Some q) \<and> pos_ok q \<and> pos_at q = pos_at p + i
                  \<and> rest_bytes q = drop i (rest_bytes p)"
proof -
  have "\<not> (bp_chunks p \<noteq> [] \<and> \<not> (if ch_datalen (hd (bp_chunks p)) \<noteq> 0 then bp_pos p < ch_datalen (hd (bp_chunks p)) else bp_pos p = 0))"
    using assms by (auto simp: pos_ok_def)
  with assms find_pos_loop_ok [of "bp_chunks p" "bp_pos p" c "bp_chunk_pos p"] show ?thesis
    by (auto simp: buf_find_pos_of_char_def rest_bytes_def pos_ok_def pos_at_def add.commute split: option.splits)
qed

lemma find_string_loop_ok:
  assumes w: "w \<noteq> []"
  shows "pos_ok p \<Longrightarrow> pos_at p + length (rest_bytes p) \<le> BUF_MAX_LEN \<Longrightarrow>
    \<exists>r. find_string_loop w p = Some r \<and> first_from w (pos_at p) (rest_bytes p) r"
proof (induction "length (rest_bytes p)" arbitrary: p rule: less_induct)
  case less
  let ?s = "rest_bytes p"
  show ?case
  proof (cases "find_byte (hd w) ?s")
    case None
    then have "\<not> occurs_at w ?s i" for i using occurs_hd [OF w, of ?s i] by (metis find_byte_None nth_mem)
    moreover have "find_string_loop w p = Some (- 1)"
      using None find_pos_ok [OF less.prems(1), of "hd w"] w by (subst find_string_loop.simps) simp
    ultimately show ?thesis by (simp add: first_from_def)
  next
    case (Some i)
    with find_pos_ok [OF less.prems(1), of "hd w"] obtain q where
      q: "buf_find_pos_of_char (hd w) p = Some (Some q)" "pos_ok q" "pos_at q = pos_at p + i" "rest_bytes q = drop i ?s" by auto
    have before: "\<forall>j < i. \<not> occurs_at w ?s j"
      using find_byte_first [OF Some] occurs_hd [OF w] by metis
    have il: "i < length ?s" using find_byte_less [OF Some] .
    show ?thesis
    proof (cases "take (length w) (rest_bytes q) = w")
      case True
      then have "find_string_loop w p = Some (int (pos_at q))"
        using q matches_ok [OF q(2), of w] w il less.prems(2)
        by (subst find_string_loop.simps) (simp add: pos_at_def)
      moreover have "occurs_at w ?s i" using True q(4) by (simp add: occurs_at_def)
      ultimately show ?thesis using q(3) before by (auto simp: first_from_def)
    next
      case False
      then have no: "\<forall>j < Suc i. \<not> occurs_at w ?s j" using before q(4) by (auto simp: less_Suc_eq occurs_at_def)
      obtain q' ok where p': "buf_pos_inc q = (q', ok)" by (cases "buf_pos_inc q")
      from pos_inc_ok [OF q(2)] p' have n:
        "if ok then pos_ok q' \<and> rest_bytes q' = tl (rest_bytes q) \<and> pos_at q' = Suc (pos_at q) else length (rest_bytes q) = 1" by simp
      have step: "find_string_loop w p = (if ok then find_string_loop w q' else Some (- 1))"
        using q(1) False matches_ok [OF q(2), of w] p' w by (subst find_string_loop.simps) simp
      show ?thesis
      proof (cases ok)
        case True
        with n q have q': "pos_ok q'" "rest_bytes q' = drop (Suc i) ?s" "pos_at q' = pos_at p + Suc i"
          by (simp_all add: drop_Suc tl_drop)
        have "length (rest_bytes q') < length ?s" "pos_at q' + length (rest_bytes q') \<le> BUF_MAX_LEN"
          using q' il less.prems(2) by simp_all
        from less.hyps [OF this(1) q'(1) this(2)] obtain r where
          "find_string_loop w q' = Some r" "first_from w (pos_at p + Suc i) (drop (Suc i) ?s) r" using q' by auto
        with step True first_from_skip [OF no] show ?thesis by auto
      next
        case last: False
        with n q(4) il have "length ?s = Suc i" by simp
        then have "\<not> occurs_at w ?s j" for j using no occurs_hd [OF w, of ?s j] by auto
        with step last show ?thesis by (simp add: first_from_def)
      qed
    qed
  qed
qed

text \<open>C39: Searching a buffer finds the first place where the string occurs in its contents, wherever the
  chunks are divided, and returns -1 exactly when it does not occur, provided that no chunk is empty.\<close>

theorem find_string_offset_first:
  assumes "buf_holds rest tot b s" "\<forall>ch \<in> set (b_chunks b). 0 < ch_datalen ch" "w \<noteq> []"
  shows "\<exists>r. buf_find_string_offset b w = Some r
    \<and> (if \<exists>i. occurs_at w s i then \<exists>i. r = int i \<and> occurs_at w s i \<and> (\<forall>j < i. \<not> occurs_at w s j) else r = - 1)"
proof (cases "b_chunks b")
  case Nil
  then have "s = []" using assms(1) by (simp add: buf_holds_def chunk_simps)
  then have "\<not> occurs_at w s i" for i using occurs_hd [OF assms(3), of s i] by auto
  with Nil assms(3) show ?thesis
    by (simp add: buf_find_string_offset_def buf_pos_init_def find_string_loop.simps buf_find_pos_of_char_def)
next
  case (Cons ch chs)
  let ?p = "buf_pos_init b"
  have "pos_ok ?p" "rest_bytes ?p = s" "pos_at ?p = 0" "length s \<le> BUF_MAX_LEN"
    using assms(1,2) Cons by (auto simp: buf_pos_init_def pos_ok_def chunks_full_def rest_bytes_def pos_at_def buf_holds_def)
  with find_string_loop_ok [OF assms(3), of ?p] obtain r where
    "find_string_loop w ?p = Some r" "first_from w 0 s r" by auto
  then show ?thesis unfolding buf_find_string_offset_def first_from_def add_0 by (intro exI [of _ r]) simp
qed

definition two_chunks :: buf where
  "two_chunks = \<lparr>b_datalen = 5, b_default_chunk_size = 4096,
     b_chunks = [\<lparr>ch_data = 0, ch_datalen = 3, ch_mem = [1, 2, 3], ch_inserted_time = 0\<rparr>,
                 \<lparr>ch_data = 1, ch_datalen = 2, ch_mem = [0, 2, 3, 0], ch_inserted_time = 0\<rparr>]\<rparr>"

lemma find_string_offset_first_witness: "buf_find_string_offset two_chunks [3, 2] = Some 2"
proof -
  have h: "buf_holds 0 103 two_chunks [1, 2, 3, 2, 3]"
    by (simp add: buf_holds_def two_chunks_def chunk_ok_def chunk_simps chunk_bytes_def get_bytes_def CHUNK_ALLOC_SIZE_def)
  obtain r where r: "buf_find_string_offset two_chunks [3, 2] = Some r"
    "if \<exists>i. occurs_at [3, 2] [1, 2, 3, 2, 3] i then \<exists>i. r = int i \<and> occurs_at [3, 2] [1, 2, 3, 2, 3] i
       \<and> (\<forall>j < i. \<not> occurs_at [3, 2] [1, 2, 3, 2, 3] j) else r = - 1"
    using find_string_offset_first [OF h, of "[3, 2]"] by (auto simp: two_chunks_def)
  have "occurs_at [3, 2] [1, 2, 3, 2, 3] i \<longleftrightarrow> i = 2" for i
    using occurs_hd [of "[3, 2]" "[1, 2, 3, 2, 3]" i] by (auto simp: occurs_at_def less_Suc_eq numeral_eq_Suc nth_Cons split: nat.splits)
  with r show ?thesis by auto
qed

section \<open>An empty chunk\<close>

text \<open>New storage is full of line feeds. The only chunk is filled, all but its last two bytes are taken, and
  a read of the socket would block.\<close>

definition line_feeds :: "nat \<Rightarrow> 8 word" where
  "line_feeds i = 0x0A"

definition blocked_socket :: "unit \<Rightarrow> nat \<Rightarrow> unit \<times> recv_result" where
  "blocked_socket fd n = (fd, Recv_Error True)"

definition after_blocked_read :: "(nat \<times> buf) option" where
  "after_blocked_read =
     do { b \<leftarrow> buf_new_with_capacity 1;
          (tot, b, _) \<leftarrow> buf_add line_feeds 0 0 b (replicate 206 0x20 @ [0x41, 0x0D]);
          (tot, b) \<leftarrow> buf_drain tot b 206;
          (_, tot, b, _, _) \<leftarrow> buf_read_from_fd blocked_socket line_feeds 0 () tot b 100 False;
          Some (tot, b) }"

lemma new_256: "buf_new_with_capacity 1 = Some \<lparr>b_datalen = 0, b_default_chunk_size = 256, b_chunks = []\<rparr>"
  by (simp add: buf_new_with_capacity_def buf_preferred_chunk_size_def CHUNK_ALLOC_SIZE_def CHUNK_SIZE_WITH_ALLOC_def
      preferred_size_loop.simps buf_new_def)

lemma raw_256: "map line_feeds [0..<208] = replicate 208 0x0A"
  by (rule nth_equalityI) (simp_all add: line_feeds_def)

lemma add_chunk_256:
  assumes "b_default_chunk_size b = 256" "n \<le> 208"
  shows "buf_add_chunk_with_capacity line_feeds now tot b n True
     = Some (tot + 256, b\<lparr>b_chunks := b_chunks b @ [\<lparr>ch_data = 0, ch_datalen = 0, ch_mem = replicate 208 0x0A, ch_inserted_time = now\<rparr>]\<rparr>)"
proof -
  have "preferred_size_loop m 0 = 256" if "m \<le> 208" for m
    using that by (subst preferred_size_loop.simps) (simp add: CHUNK_SIZE_WITH_ALLOC_def)
  then show ?thesis using assms
    by (simp add: buf_add_chunk_with_capacity_def buf_preferred_chunk_size_def CHUNK_ALLOC_SIZE_def CHUNK_SIZE_WITH_ALLOC_def
      chunk_new_with_alloc_size_def raw_256)
qed

lemma add_full:
  assumes "length str = 208"
  shows "buf_add line_feeds 0 0 \<lparr>b_datalen = 0, b_default_chunk_size = 256, b_chunks = []\<rparr> str
    = Some (256, \<lparr>b_datalen = 208, b_default_chunk_size = 256,
        b_chunks = [\<lparr>ch_data = 0, ch_datalen = 208, ch_mem = str, ch_inserted_time = 0\<rparr>]\<rparr>, 208)"
proof -
  have "str \<noteq> []" using assms by auto
  then show ?thesis using assms
    by (simp add: buf_add_def) (subst add_loop.simps, simp add: add_chunk_256 CHUNK_REMAINING_CAPACITY_def set_tail_def
      chunk_append_def put_bytes_def, subst add_loop.simps, simp)
qed

lemma blocked_read:
  "buf_read_from_fd blocked_socket line_feeds 0 () 256 \<lparr>b_datalen = 2, b_default_chunk_size = 256,
      b_chunks = [\<lparr>ch_data = 206, ch_datalen = 2, ch_mem = str, ch_inserted_time = 0\<rparr>]\<rparr> 100 False
   = Some ((), 512, \<lparr>b_datalen = 2, b_default_chunk_size = 256,
      b_chunks = [\<lparr>ch_data = 206, ch_datalen = 2, ch_mem = str, ch_inserted_time = 0\<rparr>,
                  \<lparr>ch_data = 0, ch_datalen = 0, ch_mem = replicate 208 0x0A, ch_inserted_time = 0\<rparr>]\<rparr>, 0, False)"
  if "length str = 208"
  using that
  by (simp add: buf_read_from_fd_def) (subst read_loop.simps, simp add: add_chunk_256 CHUNK_REMAINING_CAPACITY_def
      read_to_chunk_def blocked_socket_def)

lemma after_blocked_read:
  "after_blocked_read = Some (512, \<lparr>b_datalen = 2, b_default_chunk_size = 256,
      b_chunks = [\<lparr>ch_data = 206, ch_datalen = 2, ch_mem = replicate 206 0x20 @ [0x41, 0x0D], ch_inserted_time = 0\<rparr>,
                  \<lparr>ch_data = 0, ch_datalen = 0, ch_mem = replicate 208 0x0A, ch_inserted_time = 0\<rparr>]\<rparr>)"
proof -
  have "buf_drain 256 \<lparr>b_datalen = 208, b_default_chunk_size = 256,
        b_chunks = [\<lparr>ch_data = 0, ch_datalen = 208, ch_mem = str, ch_inserted_time = 0\<rparr>]\<rparr> 206
    = Some (256, \<lparr>b_datalen = 2, b_default_chunk_size = 256,
        b_chunks = [\<lparr>ch_data = 206, ch_datalen = 2, ch_mem = str, ch_inserted_time = 0\<rparr>]\<rparr>)" for str
    using drain_loop.simps(3) [of 256 "\<lparr>ch_data = 0, ch_datalen = 208, ch_mem = str, ch_inserted_time = 0\<rparr>" "[]" 208 205]
    by (simp add: buf_drain_def chunk_skip_def)
  then show ?thesis
    by (simp add: after_blocked_read_def new_256 add_full blocked_read del: One_nat_def)
qed

lemma blocked_search:
  assumes "get_bytes 206 2 str = [0x41, 0x0D]" "str ! 207 = 0x0D" "length str = 208"
  defines "b \<equiv> \<lparr>b_datalen = 2, b_default_chunk_size = 256,
      b_chunks = [\<lparr>ch_data = 206, ch_datalen = 2, ch_mem = str, ch_inserted_time = 0\<rparr>,
                  \<lparr>ch_data = 0, ch_datalen = 0, ch_mem = replicate 208 0x0A, ch_inserted_time = 0\<rparr>]\<rparr>"
  shows "buf_extract b = Some ([0x41, 0x0D, 0], 2) \<and> buf_find_string_offset b [0x0D, 0x0A] = Some 1"
proof
  have "peek_loop (b_chunks b) (Suc 1) = Some [0x41, 0x0D]"
    using assms(1) unfolding b_def by (simp add: chunk_bytes_def)
  then show "buf_extract b = Some ([0x41, 0x0D, 0], 2)"
    by (simp add: buf_extract_def buf_peek_def b_def numeral_2_eq_2)
  let ?p = "\<lparr>bp_chunks = b_chunks b, bp_pos = 1, bp_chunk_pos = 0\<rparr>"
  have f: "buf_find_pos_of_char 0x0D (buf_pos_init b) = Some (Some ?p)"
    using assms(1) by (simp add: buf_find_pos_of_char_def buf_pos_init_def b_def)
  have "buf_matches_at_pos ?p [0x0D, 0x0A] = Some True"
    using assms(2,3) by (simp add: b_def buf_pos_inc_def Let_def)
  with f show "buf_find_string_offset b [0x0D, 0x0A] = Some 1"
    by (simp add: buf_find_string_offset_def find_string_loop.simps)
qed

text \<open>A search can find what the buffer does not hold: after a read that blocks has left an empty chunk at
  the end, the search compares the string with the unused storage of that chunk. Here the buffer holds
  the two bytes A and CR, and the search for CR LF returns 1.\<close>

theorem search_reads_unused:
  "\<exists>tot b. after_blocked_read = Some (tot, b) \<and> buf_extract b = Some ([0x41, 0x0D, 0], 2)
     \<and> buf_find_string_offset b [0x0D, 0x0A] = Some 1"
  using blocked_search [of "replicate 206 0x20 @ [0x41, 0x0D]"]
  by (simp add: after_blocked_read get_bytes_def nth_append)

end
