(* ===== verification/Framing.thy ===== *)
theory Framing
  imports Buffer_Queue "HOL-Library.Sublist"
begin

text \<open>
  Messages on a byte stream: one end writes messages to its output buffer, which is flushed to the other
  end a few bytes at a time; the other end reads into its input buffer and takes off every message that
  is complete. The interface \<open>framing\<close> is what the two ends owe each other, and the delivery of all
  messages in order follows from it alone.
\<close>

section \<open>The two ends\<close>

text \<open>Take messages off a buffer until none is complete.\<close>

partial_function (option) fetch_loop ::
    "(nat \<Rightarrow> buf \<Rightarrow> (nat \<times> buf \<times> 'm option) option) \<Rightarrow> nat \<Rightarrow> buf \<Rightarrow> (nat \<times> buf \<times> 'm list) option" where
  "fetch_loop fetch tot b =
     do { (tot, b, m) \<leftarrow> fetch tot b;
          case m of
            None \<Rightarrow> Some (tot, b, [])
          | Some m \<Rightarrow> do { (tot, b, ms) \<leftarrow> fetch_loop fetch tot b; Some (tot, b, m # ms) } }"

record 'm link =
  lk_out :: buf
  lk_out_tot :: nat
  lk_wire :: bytes
  lk_in :: buf
  lk_in_tot :: nat
  lk_sent :: "'m list"
  lk_got :: "'m list"

definition new_link :: "'m link \<Rightarrow> bool" where
  "new_link l \<longleftrightarrow> lk_out l = buf_new \<and> lk_wire l = [] \<and> lk_in l = buf_new \<and> lk_sent l = [] \<and> lk_got l = []"

text \<open>The calls of the system take any number of bytes from the buffer to the wire, or from the wire to
  the buffer, or fail.\<close>

inductive link_step ::
    "('m \<Rightarrow> bool) \<Rightarrow> ('m \<Rightarrow> bytes) \<Rightarrow> ((nat \<Rightarrow> 8 word) \<Rightarrow> 32 word \<Rightarrow> nat \<Rightarrow> buf \<Rightarrow> 'm \<Rightarrow> (nat \<times> buf) option)
       \<Rightarrow> (nat \<Rightarrow> buf \<Rightarrow> (nat \<times> buf \<times> 'm option) option) \<Rightarrow> 'm link \<Rightarrow> 'm link \<Rightarrow> bool"
  for ok :: "'m \<Rightarrow> bool" and pack :: "'m \<Rightarrow> bytes"
    and wr :: "(nat \<Rightarrow> 8 word) \<Rightarrow> 32 word \<Rightarrow> nat \<Rightarrow> buf \<Rightarrow> 'm \<Rightarrow> (nat \<times> buf) option"
    and fetch :: "nat \<Rightarrow> buf \<Rightarrow> (nat \<times> buf \<times> 'm option) option"
where
  Write: "ok m \<Longrightarrow> b_datalen (lk_out l) + length (pack m) \<le> BUF_MAX_LEN \<Longrightarrow>
    wr raw now (lk_out_tot l) (lk_out l) m = Some (tot, b) \<Longrightarrow>
    link_step ok pack wr fetch l (l\<lparr>lk_out := b, lk_out_tot := tot, lk_sent := lk_sent l @ [m]\<rparr>)"
| Flush: "send_ok send (\<lambda>w. w) \<Longrightarrow> buf_flush_to_fd send (lk_wire l) (lk_out_tot l) (lk_out l) n = Some (w, tot, b, r) \<Longrightarrow>
    link_step ok pack wr fetch l (l\<lparr>lk_out := b, lk_out_tot := tot, lk_wire := w\<rparr>)"
| Receive: "recv_ok recv (\<lambda>w. w) \<Longrightarrow> b_datalen (lk_in l) + at_most \<le> BUF_MAX_LEN \<Longrightarrow>
    buf_read_from_fd recv raw now (lk_wire l) (lk_in_tot l) (lk_in l) at_most eof = Some (w, tot, b, r, eof') \<Longrightarrow>
    link_step ok pack wr fetch l (l\<lparr>lk_in := b, lk_in_tot := tot, lk_wire := w\<rparr>)"
| Process: "fetch_loop fetch (lk_in_tot l) (lk_in l) = Some (tot, b, ms) \<Longrightarrow>
    link_step ok pack wr fetch l (l\<lparr>lk_in := b, lk_in_tot := tot, lk_got := lk_got l @ ms\<rparr>)"

inductive_cases link_stepE: "link_step ok pack wr fetch l l'"

section \<open>The interface\<close>

locale framing =
  fixes ok :: "'m \<Rightarrow> bool" and pack :: "'m \<Rightarrow> bytes"
    and wr :: "(nat \<Rightarrow> 8 word) \<Rightarrow> 32 word \<Rightarrow> nat \<Rightarrow> buf \<Rightarrow> 'm \<Rightarrow> (nat \<times> buf) option"
    and fetch :: "nat \<Rightarrow> buf \<Rightarrow> (nat \<times> buf \<times> 'm option) option"
  assumes pack_nonempty: "ok m \<Longrightarrow> pack m \<noteq> []"
    and write_adds: "buf_holds rest tot b s \<Longrightarrow> ok m \<Longrightarrow> length s + length (pack m) \<le> BUF_MAX_LEN \<Longrightarrow>
      \<exists>tot' b'. wr raw now tot b m = Some (tot', b') \<and> buf_holds rest tot' b' (s @ pack m)"
    and fetch_whole: "buf_holds rest tot b (pack m @ s) \<Longrightarrow> ok m \<Longrightarrow>
      \<exists>tot' b'. fetch tot b = Some (tot', b', Some m) \<and> buf_holds rest tot' b' s"
    and fetch_part: "buf_holds rest tot b s \<Longrightarrow> ok m \<Longrightarrow> strict_prefix s (pack m) \<Longrightarrow> fetch tot b = Some (tot, b, None)"
    and fetch_nothing: "buf_holds rest tot b [] \<Longrightarrow> fetch tot b = Some (tot, b, None)"
begin

definition packed :: "'m list \<Rightarrow> bytes" where
  "packed ms = concat (map pack ms)"

lemma packed_simps: "packed [] = []" "packed (m # ms) = pack m @ packed ms" "packed (ms @ ms') = packed ms @ packed ms'"
  by (simp_all add: packed_def)

text \<open>What the loop takes off the beginning of a stream of messages.\<close>

lemma fetch_loop_prefix:
  "\<forall>m \<in> set ms. ok m \<Longrightarrow> buf_holds rest tot b s \<Longrightarrow> prefix s (packed ms) \<Longrightarrow>
     \<exists>tot' b' ms1 ms2 s'. fetch_loop fetch tot b = Some (tot', b', ms1) \<and> ms = ms1 @ ms2 \<and> buf_holds rest tot' b' s'
       \<and> s = packed ms1 @ s' \<and> (s' = [] \<or> (\<exists>m ms'. ms2 = m # ms' \<and> strict_prefix s' (pack m)))"
proof (induction ms arbitrary: tot b s)
  case Nil
  then have s: "s = []" by (simp add: packed_simps)
  then have "fetch_loop fetch tot b = Some (tot, b, [])"
    using fetch_nothing Nil.prems(2) by (subst fetch_loop.simps) simp
  with s Nil.prems(2) show ?case by (auto simp: packed_simps)
next
  case (Cons m ms)
  show ?case
  proof (cases "prefix (pack m) s")
    case True
    then obtain t where t: "s = pack m @ t" by (auto simp: prefix_def)
    from fetch_whole [of rest tot b m t] Cons.prems(1,2) t obtain tot1 b1 where
      f: "fetch tot b = Some (tot1, b1, Some m)" "buf_holds rest tot1 b1 t" by auto
    have "prefix t (packed ms)" using Cons.prems(3) t by (simp add: packed_simps)
    from Cons.IH [OF _ f(2) this] Cons.prems(1) obtain tot' b' ms1 ms2 s' where
      i: "fetch_loop fetch tot1 b1 = Some (tot', b', ms1)" "ms = ms1 @ ms2" "buf_holds rest tot' b' s'"
        "t = packed ms1 @ s'" "s' = [] \<or> (\<exists>m ms'. ms2 = m # ms' \<and> strict_prefix s' (pack m))" by auto
    have "fetch_loop fetch tot b = Some (tot', b', m # ms1)" using f(1) i(1) by (subst fetch_loop.simps) simp
    with i t show ?thesis
      by (intro exI [of _ tot'] exI [of _ b'] exI [of _ "m # ms1"] exI [of _ ms2] exI [of _ s']) (simp add: packed_simps)
  next
    case False
    then have "strict_prefix s (pack m)"
      using Cons.prems(3) by (auto simp: packed_simps strict_prefix_def prefix_append)
    moreover from this have "fetch tot b = Some (tot, b, None)" using fetch_part [OF Cons.prems(2), of m] Cons.prems(1) by simp
    then have "fetch_loop fetch tot b = Some (tot, b, [])" by (subst fetch_loop.simps) simp
    ultimately show ?thesis using Cons.prems(2)
      by (intro exI [of _ tot] exI [of _ b] exI [of _ "[]"] exI [of _ "m # ms"] exI [of _ s]) (simp add: packed_simps)
  qed
qed

text \<open>What was sent is what was taken off, what is in the input buffer, on the wire and in the output buffer.\<close>

definition link_inv :: "'m link \<Rightarrow> bool" where
  "link_inv l \<longleftrightarrow> (\<exists>ro ri so si. buf_holds ro (lk_out_tot l) (lk_out l) so \<and> buf_holds ri (lk_in_tot l) (lk_in l) si
     \<and> (\<forall>m \<in> set (lk_sent l). ok m) \<and> prefix (lk_got l) (lk_sent l)
     \<and> packed (lk_sent l) = packed (lk_got l) @ si @ lk_wire l @ so)"

lemma new_link_inv: "new_link l \<Longrightarrow> link_inv l"
  using holds_new by (auto simp: new_link_def link_inv_def packed_simps)

lemma process_ok:
  assumes "link_inv l"
  shows "\<exists>tot b ms. fetch_loop fetch (lk_in_tot l) (lk_in l) = Some (tot, b, ms)
    \<and> link_inv (l\<lparr>lk_in := b, lk_in_tot := tot, lk_got := lk_got l @ ms\<rparr>)
    \<and> (b_datalen (lk_out l) = 0 \<longrightarrow> lk_wire l = [] \<longrightarrow> lk_got l @ ms = lk_sent l \<and> b_datalen b = 0)"
proof -
  from assms obtain ro ri so si where i: "buf_holds ro (lk_out_tot l) (lk_out l) so" "buf_holds ri (lk_in_tot l) (lk_in l) si"
    "\<forall>m \<in> set (lk_sent l). ok m" "prefix (lk_got l) (lk_sent l)" "packed (lk_sent l) = packed (lk_got l) @ si @ lk_wire l @ so"
    by (auto simp: link_inv_def)
  from i(4) obtain todo where t: "lk_sent l = lk_got l @ todo" by (auto simp: prefix_def)
  have p: "packed todo = si @ lk_wire l @ so" using i(5) t by (simp add: packed_simps)
  then have "prefix si (packed todo)" by simp
  moreover have "\<forall>m \<in> set todo. ok m" using i(3) t by simp
  ultimately obtain tot b ms rest s where f: "fetch_loop fetch (lk_in_tot l) (lk_in l) = Some (tot, b, ms)" "todo = ms @ rest"
    "buf_holds ri tot b s" "si = packed ms @ s" "s = [] \<or> (\<exists>m ms'. rest = m # ms' \<and> strict_prefix s (pack m))"
    using fetch_loop_prefix [OF _ i(2)] by metis
  let ?l = "l\<lparr>lk_in := b, lk_in_tot := tot, lk_got := lk_got l @ ms\<rparr>"
  have pr: "packed rest = s @ lk_wire l @ so" using p f(2,4) by (simp add: packed_simps)
  have "lk_sent l = (lk_got l @ ms) @ rest" using t f(2) by simp
  moreover from this have "packed (lk_sent l) = packed (lk_got l @ ms) @ packed rest" by (simp only: packed_simps)
  ultimately have inv: "link_inv ?l" unfolding link_inv_def
    using i(1,3) f(3) pr by (intro exI [of _ ro] exI [of _ ri] exI [of _ so] exI [of _ s]) (simp add: prefix_def)
  moreover have "lk_got l @ ms = lk_sent l \<and> b_datalen b = 0" if d: "b_datalen (lk_out l) = 0" "lk_wire l = []"
  proof -
    have "so = []" using i(1) d(1) by (simp add: buf_holds_def)
    with pr d(2) have r: "packed rest = s" by simp
    have "rest = []"
    proof (rule ccontr)
      assume "rest \<noteq> []"
      then obtain m ms' where m: "rest = m # ms'" by (cases rest) auto
      then have "ok m" using i(3) t f(2) by simp
      then show False using r f(5) m pack_nonempty [of m] by (auto simp: packed_simps strict_prefix_def prefix_def)
    qed
    with t f(2,3) r show ?thesis by (simp add: packed_simps buf_holds_def)
  qed
  ultimately show ?thesis using f(1) by (intro exI [of _ tot] exI [of _ b] exI [of _ ms]) simp
qed

lemma link_step_inv:
  assumes "link_step ok pack wr fetch l l'" "link_inv l"
  shows "link_inv l' \<and> prefix (lk_sent l) (lk_sent l')"
proof -
  from assms(2) obtain ro ri so si where i: "buf_holds ro (lk_out_tot l) (lk_out l) so" "buf_holds ri (lk_in_tot l) (lk_in l) si"
    "\<forall>m \<in> set (lk_sent l). ok m" "prefix (lk_got l) (lk_sent l)" "packed (lk_sent l) = packed (lk_got l) @ si @ lk_wire l @ so"
    by (auto simp: link_inv_def)
  from assms(1) show ?thesis
  proof cases
    case (Write m raw now tot b)
    have "length so + length (pack m) \<le> BUF_MAX_LEN" using Write(3) i(1) by (simp add: buf_holds_def)
    from write_adds [OF i(1) Write(2) this, of raw now] Write(4) have "buf_holds ro tot b (so @ pack m)" by auto
    with Write(1,2) i show ?thesis unfolding link_inv_def
      by (intro conjI exI [of _ ro] exI [of _ ri] exI [of _ "so @ pack m"] exI [of _ si]) (auto simp: packed_simps prefix_def)
  next
    case (Flush send n w tot b r)
    from buf_flush_ok [OF Flush(2) i(1), of "lk_wire l" n] Flush(3) obtain k where
      "buf_holds ro tot b (drop k so)" "w = lk_wire l @ take k so" by auto
    with Flush(1) i show ?thesis unfolding link_inv_def
      by (intro conjI exI [of _ ro] exI [of _ ri] exI [of _ "drop k so"] exI [of _ si]) auto
  next
    case (Receive recv at_most raw now eof w tot b r eof')
    have "length si + at_most \<le> BUF_MAX_LEN" using Receive(3) i(2) by (simp add: buf_holds_def)
    from buf_read_ok [OF Receive(2) i(2) this, of raw now "lk_wire l" eof] Receive(4) obtain bs where
      "buf_holds ri tot b (si @ bs)" "lk_wire l = bs @ w" by auto
    with Receive(1) i show ?thesis unfolding link_inv_def
      by (intro conjI exI [of _ ro] exI [of _ ri] exI [of _ so] exI [of _ "si @ bs"]) auto
  next
    case (Process tot b ms)
    with process_ok [OF assms(2)] show ?thesis by auto
  qed
qed

lemma link_steps_inv: "(link_step ok pack wr fetch)\<^sup>*\<^sup>* l l' \<Longrightarrow> link_inv l \<Longrightarrow> link_inv l'"
  by (induction rule: rtranclp_induct) (auto dest: link_step_inv)

text \<open>No operation of a link fails.\<close>

lemma link_steps_enabled:
  assumes "link_inv l"
  shows "ok m \<Longrightarrow> b_datalen (lk_out l) + length (pack m) \<le> BUF_MAX_LEN \<Longrightarrow> wr raw now (lk_out_tot l) (lk_out l) m \<noteq> None"
    and "send_ok send (\<lambda>w. w) \<Longrightarrow> buf_flush_to_fd send (lk_wire l) (lk_out_tot l) (lk_out l) n \<noteq> None"
    and "recv_ok recv (\<lambda>w. w) \<Longrightarrow> b_datalen (lk_in l) + at_most \<le> BUF_MAX_LEN \<Longrightarrow>
      buf_read_from_fd recv raw now (lk_wire l) (lk_in_tot l) (lk_in l) at_most eof \<noteq> None"
    and "fetch_loop fetch (lk_in_tot l) (lk_in l) \<noteq> None"
proof -
  from assms obtain ro ri so si where i: "buf_holds ro (lk_out_tot l) (lk_out l) so" "buf_holds ri (lk_in_tot l) (lk_in l) si"
    by (auto simp: link_inv_def)
  then have d: "b_datalen (lk_out l) = length so" "b_datalen (lk_in l) = length si" by (simp_all add: buf_holds_def)
  show "ok m \<Longrightarrow> b_datalen (lk_out l) + length (pack m) \<le> BUF_MAX_LEN \<Longrightarrow> wr raw now (lk_out_tot l) (lk_out l) m \<noteq> None"
    using write_adds [OF i(1), of m raw now] d by auto
  show "send_ok send (\<lambda>w. w) \<Longrightarrow> buf_flush_to_fd send (lk_wire l) (lk_out_tot l) (lk_out l) n \<noteq> None"
    using buf_flush_ok [OF _ i(1), of send "\<lambda>w. w" "lk_wire l" n] by auto
  show "recv_ok recv (\<lambda>w. w) \<Longrightarrow> b_datalen (lk_in l) + at_most \<le> BUF_MAX_LEN \<Longrightarrow>
      buf_read_from_fd recv raw now (lk_wire l) (lk_in_tot l) (lk_in l) at_most eof \<noteq> None"
    using buf_read_ok [OF _ i(2), of recv "\<lambda>w. w" at_most raw now "lk_wire l" eof] d by auto
  show "fetch_loop fetch (lk_in_tot l) (lk_in l) \<noteq> None"
    using process_ok [OF assms] by auto
qed

lemma link_in_order:
  assumes "new_link l0" "(link_step ok pack wr fetch)\<^sup>*\<^sup>* l0 l"
  shows "prefix (lk_got l) (lk_sent l)"
    and "\<exists>tot b ms. fetch_loop fetch (lk_in_tot l) (lk_in l) = Some (tot, b, ms) \<and> prefix (lk_got l @ ms) (lk_sent l)
      \<and> (b_datalen (lk_out l) = 0 \<longrightarrow> lk_wire l = [] \<longrightarrow> lk_got l @ ms = lk_sent l)"
proof -
  have i: "link_inv l" using link_steps_inv [OF assms(2) new_link_inv [OF assms(1)]] .
  then show "prefix (lk_got l) (lk_sent l)" by (auto simp: link_inv_def)
  from process_ok [OF i] obtain tot b ms where
    "fetch_loop fetch (lk_in_tot l) (lk_in l) = Some (tot, b, ms)" "link_inv (l\<lparr>lk_in := b, lk_in_tot := tot, lk_got := lk_got l @ ms\<rparr>)"
    "b_datalen (lk_out l) = 0 \<longrightarrow> lk_wire l = [] \<longrightarrow> lk_got l @ ms = lk_sent l \<and> b_datalen b = 0" by (elim exE conjE)
  moreover from this(2) have "prefix (lk_got l @ ms) (lk_sent l)" by (auto simp: link_inv_def)
  ultimately show "\<exists>tot b ms. fetch_loop fetch (lk_in_tot l) (lk_in l) = Some (tot, b, ms) \<and> prefix (lk_got l @ ms) (lk_sent l)
      \<and> (b_datalen (lk_out l) = 0 \<longrightarrow> lk_wire l = [] \<longrightarrow> lk_got l @ ms = lk_sent l)"
    by (intro exI [of _ tot] exI [of _ b] exI [of _ ms]) simp
qed

end

end
