(* ===== verification/Link_Cells.thy ===== *)
theory Link_Cells
  imports Framing Relay_Msg
begin

text \<open>
  Cells on a connection between relays: their encoding (connection_or.c, proto_cell.c) and the commands of
  the extended OR port (proto_ext_or.c, ext_orport.c). Both are instances of the interface of Framing.
  A connection is its buffers here; what the handlers do with a cell is not modelled.
\<close>

section \<open>Cells\<close>

definition put32 :: "32 word \<Rightarrow> bytes" where
  "put32 n = [ucast (drop_bit 24 n), ucast (drop_bit 16 n), ucast (drop_bit 8 n), ucast n]"

definition get32 :: "nat \<Rightarrow> bytes \<Rightarrow> 32 word" where
  "get32 off buf = push_bit 24 (ucast (buf ! off)) OR push_bit 16 (ucast (buf ! (off + 1)))
     OR push_bit 8 (ucast (buf ! (off + 2))) OR ucast (buf ! (off + 3))"

record var_cell =
  vc_command :: "8 word"
  vc_circ_id :: "32 word"
  vc_payload_len :: "16 word"
  vc_payload :: bytes

abbreviation CELL_VERSIONS :: "8 word" where "CELL_VERSIONS \<equiv> 7"
abbreviation CELL_MAX_NETWORK_SIZE :: nat where "CELL_MAX_NETWORK_SIZE \<equiv> 514"
abbreviation VAR_CELL_MAX_HEADER_SIZE :: nat where "VAR_CELL_MAX_HEADER_SIZE \<equiv> 7"
abbreviation MIN_LINK_PROTO_FOR_WIDE_CIRC_IDS :: int where "MIN_LINK_PROTO_FOR_WIDE_CIRC_IDS \<equiv> 4"

definition get_cell_network_size :: "bool \<Rightarrow> nat" where
  "get_cell_network_size wide_circ_ids = (if wide_circ_ids then CELL_MAX_NETWORK_SIZE else CELL_MAX_NETWORK_SIZE - 2)"

definition get_var_cell_header_size :: "bool \<Rightarrow> nat" where
  "get_var_cell_header_size wide_circ_ids = (if wide_circ_ids then VAR_CELL_MAX_HEADER_SIZE else VAR_CELL_MAX_HEADER_SIZE - 2)"

definition get_circ_id_size :: "bool \<Rightarrow> nat" where
  "get_circ_id_size wide_circ_ids = (if wide_circ_ids then 4 else 2)"

text \<open>The \<open>body\<close> of the packed cell.\<close>

definition cell_pack :: "cell \<Rightarrow> bool \<Rightarrow> bytes" where
  "cell_pack src wide_circ_ids =
     (if wide_circ_ids then put32 (cell_circ_id src) @ [cell_command src] @ take CELL_PAYLOAD_SIZE (cell_payload src)
      else put16 (ucast (cell_circ_id src)) @ [cell_command src] @ take CELL_PAYLOAD_SIZE (cell_payload src) @ [0, 0])"

definition cell_unpack :: "bytes \<Rightarrow> bool \<Rightarrow> cell" where
  "cell_unpack src wide_circ_ids =
     (let (circ_id, src) = (if wide_circ_ids then (get32 0 src, drop 4 src) else (ucast (get16 0 src), drop 2 src))
      in \<lparr>cell_circ_id = circ_id, cell_command = src ! 0, cell_payload = take CELL_PAYLOAD_SIZE (drop 1 src)\<rparr>)"

text \<open>The header and its length.\<close>

definition var_cell_pack_header :: "var_cell \<Rightarrow> bool \<Rightarrow> bytes \<times> nat" where
  "var_cell_pack_header c wide_circ_ids =
     (let (hdr, r) = (if wide_circ_ids then (put32 (vc_circ_id c), VAR_CELL_MAX_HEADER_SIZE)
                      else (put16 (ucast (vc_circ_id c)), VAR_CELL_MAX_HEADER_SIZE - 2))
      in (hdr @ [vc_command c] @ put16 (vc_payload_len c), r))"

definition cell_command_is_var_length :: "8 word \<Rightarrow> int \<Rightarrow> bool" where
  "cell_command_is_var_length command linkproto =
     (if linkproto = 1 then False
      else if linkproto = 2 then command = CELL_VERSIONS
      else command = CELL_VERSIONS \<or> command \<ge> 128)"

text \<open>The counter, the buffer, the cell if there is a complete one, and what is returned.\<close>

definition fetch_var_cell_from_buf :: "nat \<Rightarrow> buf \<Rightarrow> int \<Rightarrow> (nat \<times> buf \<times> var_cell option \<times> int) option" where
  "fetch_var_cell_from_buf tot b linkproto =
     (let wide_circ_ids = linkproto \<ge> MIN_LINK_PROTO_FOR_WIDE_CIRC_IDS;
          circ_id_len = get_circ_id_size wide_circ_ids;
          header_len = get_var_cell_header_size wide_circ_ids
      in if b_datalen b < header_len then Some (tot, b, None, 0)
         else do {
           hdr \<leftarrow> buf_peek b header_len;
           let command = hdr ! circ_id_len;
           if \<not> cell_command_is_var_length command linkproto then Some (tot, b, None, 0)
           else let len = get16 (circ_id_len + 1) hdr
                in if b_datalen b < header_len + unat len then Some (tot, b, None, 1)
                   else do {
                     let circ_id = (if wide_circ_ids then get32 0 hdr else ucast (get16 0 hdr));
                     (tot, b) \<leftarrow> buf_drain tot b header_len;
                     payload \<leftarrow> buf_peek b (unat len);
                     (tot, b) \<leftarrow> buf_drain tot b (unat len);
                     Some (tot, b, Some \<lparr>vc_command = command, vc_circ_id = circ_id, vc_payload_len = len,
                                        vc_payload = payload\<rparr>, 1) } })"

datatype link_cell = Fixed_Cell cell | Var_Cell var_cell

definition connection_or_write_cell_to_buf ::
    "bool \<Rightarrow> (nat \<Rightarrow> 8 word) \<Rightarrow> 32 word \<Rightarrow> nat \<Rightarrow> buf \<Rightarrow> cell \<Rightarrow> (nat \<times> buf) option" where
  "connection_or_write_cell_to_buf wide_circ_ids raw now tot outbuf c =
     do { (tot, outbuf, _) \<leftarrow> buf_add raw now tot outbuf (take (get_cell_network_size wide_circ_ids) (cell_pack c wide_circ_ids));
          Some (tot, outbuf) }"

definition connection_or_write_var_cell_to_buf ::
    "bool \<Rightarrow> (nat \<Rightarrow> 8 word) \<Rightarrow> 32 word \<Rightarrow> nat \<Rightarrow> buf \<Rightarrow> var_cell \<Rightarrow> (nat \<times> buf) option" where
  "connection_or_write_var_cell_to_buf wide_circ_ids raw now tot outbuf c =
     (let (hdr, n) = var_cell_pack_header c wide_circ_ids
      in do { (tot, outbuf, _) \<leftarrow> buf_add raw now tot outbuf (take n hdr);
              (tot, outbuf, _) \<leftarrow> buf_add raw now tot outbuf (take (unat (vc_payload_len c)) (vc_payload c));
              Some (tot, outbuf) })"

text \<open>One round of the loop of \<open>connection_or_process_cells_from_inbuf\<close>: a cell for its handler, or
  the end of the loop.\<close>

definition next_cell_from_inbuf :: "int \<Rightarrow> bool \<Rightarrow> nat \<Rightarrow> buf \<Rightarrow> (nat \<times> buf \<times> link_cell option) option" where
  "next_cell_from_inbuf linkproto wide_circ_ids tot inbuf =
     do { (tot, inbuf, out, r) \<leftarrow> fetch_var_cell_from_buf tot inbuf linkproto;
          if r \<noteq> 0 then Some (tot, inbuf, map_option Var_Cell out)
          else let cell_network_size = get_cell_network_size wide_circ_ids
               in if b_datalen inbuf < cell_network_size then Some (tot, inbuf, None)
                  else do { (tot, inbuf, buf, _) \<leftarrow> buf_get_bytes tot inbuf cell_network_size;
                            Some (tot, inbuf, Some (Fixed_Cell (cell_unpack buf wide_circ_ids))) } }"

definition connection_or_process_cells_from_inbuf :: "int \<Rightarrow> bool \<Rightarrow> nat \<Rightarrow> buf \<Rightarrow> (nat \<times> buf \<times> link_cell list) option" where
  "connection_or_process_cells_from_inbuf linkproto wide_circ_ids = fetch_loop (next_cell_from_inbuf linkproto wide_circ_ids)"

definition write_link_cell :: "bool \<Rightarrow> (nat \<Rightarrow> 8 word) \<Rightarrow> 32 word \<Rightarrow> nat \<Rightarrow> buf \<Rightarrow> link_cell \<Rightarrow> (nat \<times> buf) option" where
  "write_link_cell wide_circ_ids raw now tot outbuf c =
     (case c of
        Fixed_Cell c \<Rightarrow> connection_or_write_cell_to_buf wide_circ_ids raw now tot outbuf c
      | Var_Cell c \<Rightarrow> connection_or_write_var_cell_to_buf wide_circ_ids raw now tot outbuf c)"

section \<open>Commands of the extended OR port\<close>

record ext_or_cmd =
  eo_cmd :: "16 word"
  eo_len :: "16 word"
  eo_body :: bytes

abbreviation EXT_OR_CMD_HEADER_SIZE :: nat where "EXT_OR_CMD_HEADER_SIZE \<equiv> 4"

definition fetch_ext_or_command_from_buf :: "nat \<Rightarrow> buf \<Rightarrow> (nat \<times> buf \<times> ext_or_cmd option) option" where
  "fetch_ext_or_command_from_buf tot b =
     (if b_datalen b < EXT_OR_CMD_HEADER_SIZE then Some (tot, b, None)
      else do {
        hdr \<leftarrow> buf_peek b EXT_OR_CMD_HEADER_SIZE;
        let len = get16 2 hdr;
        if b_datalen b < unat len + EXT_OR_CMD_HEADER_SIZE then Some (tot, b, None)
        else do {
          (tot, b) \<leftarrow> buf_drain tot b EXT_OR_CMD_HEADER_SIZE;
          (tot, b, body, _) \<leftarrow> buf_get_bytes tot b (unat len);
          Some (tot, b, Some \<lparr>eo_cmd = get16 0 hdr, eo_len = len, eo_body = body\<rparr>) } })"

definition connection_write_ext_or_command ::
    "(nat \<Rightarrow> 8 word) \<Rightarrow> 32 word \<Rightarrow> nat \<Rightarrow> buf \<Rightarrow> 16 word \<Rightarrow> bytes \<Rightarrow> (nat \<times> buf \<times> int) option" where
  "connection_write_ext_or_command raw now tot outbuf command body =
     (if length body > 65535 then Some (tot, outbuf, - 1)
      else do { (tot, outbuf, _) \<leftarrow> buf_add raw now tot outbuf (put16 command @ put16 (of_nat (length body)));
                (tot, outbuf, _) \<leftarrow> (if length body \<noteq> 0 then buf_add raw now tot outbuf body else Some (tot, outbuf, 0));
                Some (tot, outbuf, 0) })"

section \<open>The layouts\<close>

lemma length_put32 [octets]: "length (put32 n) = 4"
  by (simp add: put32_def)

lemma word32_split:
  "push_bit 24 (ucast (ucast (drop_bit 24 n) :: 8 word)) OR push_bit 16 (ucast (ucast (drop_bit 16 n) :: 8 word))
     OR push_bit 8 (ucast (ucast (drop_bit 8 n) :: 8 word)) OR ucast (ucast n :: 8 word) = (n :: 32 word)" (is "?w = n")
proof (rule bit_word_eqI)
  fix k
  assume "k < LENGTH(32)"
  then show "bit ?w k = bit n k"
    by (cases "k < 8"; cases "k < 16"; cases "k < 24") (auto simp: bit_simps not_less)
qed

lemma get32_put [octets]: "get32 0 (put32 n @ xs) = n"
  using word32_split [of n] by (simp add: get32_def put32_def)

lemma get16_put_append [octets]: "get16 0 (put16 n @ xs) = n"
  by (simp add: get16_def put16_def word16_split)

lemma get16_append [octets]: "off = length xs \<Longrightarrow> get16 off (xs @ put16 n @ ys) = n"
  by (simp add: get16_def put16_def word16_split nth_append)

definition pack_circ_id :: "32 word \<Rightarrow> bool \<Rightarrow> bytes" where
  "pack_circ_id i wide = (if wide then put32 i else put16 (ucast i))"

definition unpack_circ_id :: "bytes \<Rightarrow> bool \<Rightarrow> 32 word" where
  "unpack_circ_id bs wide = (if wide then get32 0 bs else ucast (get16 0 bs))"

definition circ_id_fits :: "32 word \<Rightarrow> bool \<Rightarrow> bool" where
  "circ_id_fits i wide \<longleftrightarrow> wide \<or> unat i < 2 ^ 16"

lemma narrow_circ_id: "unat i < 2 ^ 16 \<Longrightarrow> ucast (ucast i :: 16 word) = (i :: 32 word)"
  by (simp add: word_unat_eq_iff unsigned_ucast_eq unsigned_take_bit_eq take_bit_nat_eq_self)

lemma length_pack_circ_id [octets]: "length (pack_circ_id i wide) = get_circ_id_size wide"
  by (simp add: pack_circ_id_def get_circ_id_size_def octets)

lemma unpack_pack_circ_id [octets]: "circ_id_fits i wide \<Longrightarrow> unpack_circ_id (pack_circ_id i wide @ xs) wide = i"
  by (auto simp: circ_id_fits_def pack_circ_id_def unpack_circ_id_def octets narrow_circ_id)

text \<open>The bytes of a cell on the wire.\<close>

definition cell_bytes :: "bool \<Rightarrow> link_cell \<Rightarrow> bytes" where
  "cell_bytes wide c =
     (case c of
        Fixed_Cell c \<Rightarrow> take (get_cell_network_size wide) (cell_pack c wide)
      | Var_Cell c \<Rightarrow> take (snd (var_cell_pack_header c wide)) (fst (var_cell_pack_header c wide))
                     @ take (unat (vc_payload_len c)) (vc_payload c))"

definition link_cell_ok :: "int \<Rightarrow> link_cell \<Rightarrow> bool" where
  "link_cell_ok linkproto c =
     (case c of
        Fixed_Cell c \<Rightarrow> \<not> cell_command_is_var_length (cell_command c) linkproto \<and> length (cell_payload c) = CELL_PAYLOAD_SIZE
          \<and> circ_id_fits (cell_circ_id c) (linkproto \<ge> MIN_LINK_PROTO_FOR_WIDE_CIRC_IDS)
      | Var_Cell c \<Rightarrow> cell_command_is_var_length (vc_command c) linkproto \<and> length (vc_payload c) = unat (vc_payload_len c)
          \<and> circ_id_fits (vc_circ_id c) (linkproto \<ge> MIN_LINK_PROTO_FOR_WIDE_CIRC_IDS))"

lemma fixed_bytes:
  "length (cell_payload c) = CELL_PAYLOAD_SIZE \<Longrightarrow>
     cell_bytes wide (Fixed_Cell c) = pack_circ_id (cell_circ_id c) wide @ [cell_command c] @ cell_payload c"
  by (simp add: cell_bytes_def cell_pack_def pack_circ_id_def get_cell_network_size_def octets)

lemma var_bytes:
  "length (vc_payload c) = unat (vc_payload_len c) \<Longrightarrow>
     cell_bytes wide (Var_Cell c) = pack_circ_id (vc_circ_id c) wide @ [vc_command c] @ put16 (vc_payload_len c) @ vc_payload c"
  by (simp add: cell_bytes_def var_cell_pack_header_def pack_circ_id_def octets)

lemma unpack_fixed:
  assumes "length (cell_payload c) = CELL_PAYLOAD_SIZE" "circ_id_fits (cell_circ_id c) wide"
  shows "cell_unpack (pack_circ_id (cell_circ_id c) wide @ [cell_command c] @ cell_payload c) wide = c"
proof -
  have "(if wide then get32 0 bs else ucast (get16 0 bs)) = unpack_circ_id bs wide" for bs by (simp add: unpack_circ_id_def)
  with assms show ?thesis
    by (auto simp: cell_unpack_def octets unpack_pack_circ_id pack_circ_id_def unpack_circ_id_def circ_id_fits_def narrow_circ_id)
qed

text \<open>What the fetching code reads from the first bytes of a cell.\<close>

lemma header_command:
  assumes "h = get_var_cell_header_size wide" "h \<le> length (pack_circ_id i wide @ cmd # xs)"
  shows "take h (pack_circ_id i wide @ cmd # xs) ! get_circ_id_size wide = cmd"
  using assms by (cases wide) (simp_all add: get_var_cell_header_size_def get_circ_id_size_def nth_append octets)

lemma header_simps:
  "get_var_cell_header_size wide = get_circ_id_size wide + 3" "get_cell_network_size wide = get_circ_id_size wide + 510"
  "0 < get_circ_id_size wide"
  by (simp_all add: get_var_cell_header_size_def get_cell_network_size_def get_circ_id_size_def)

lemma take_header:
  assumes "h \<le> length s" "length xs = get_circ_id_size wide" "h = get_circ_id_size wide + 3" "prefix s (xs @ cmd # ys)"
  shows "take h s = xs @ cmd # take 2 ys" "2 \<le> length ys"
proof -
  from assms(4) obtain zs where z: "xs @ cmd # ys = s @ zs" by (auto simp: prefix_def)
  have "take h s = take h (s @ zs)" using assms(1) by simp
  also have "\<dots> = xs @ cmd # take 2 ys" unfolding z [symmetric] using assms(2,3) by (simp add: numeral_eq_Suc)
  finally show t: "take h s = xs @ cmd # take 2 ys" .
  have "length (take h s) = h" using assms(1) by simp
  with t assms(2,3) show "2 \<le> length ys" by simp
qed

lemma fetch_var_not_yet:
  assumes "buf_holds rest tot b s" "length s < get_var_cell_header_size (linkproto \<ge> MIN_LINK_PROTO_FOR_WIDE_CIRC_IDS)"
  shows "fetch_var_cell_from_buf tot b linkproto = Some (tot, b, None, 0)"
  using assms by (simp add: fetch_var_cell_from_buf_def holds_datalen)

lemma fetch_var_fixed:
  assumes b: "buf_holds rest tot b s" and s: "prefix s (cell_bytes wide (Fixed_Cell c) @ ys)"
    and c: "link_cell_ok linkproto (Fixed_Cell c)" "wide = (linkproto \<ge> MIN_LINK_PROTO_FOR_WIDE_CIRC_IDS)"
  shows "fetch_var_cell_from_buf tot b linkproto = Some (tot, b, None, 0)"
proof (cases "length s < get_var_cell_header_size wide")
  case True
  with fetch_var_not_yet [OF b] c(2) show ?thesis by simp
next
  case False
  have l: "length (cell_payload c) = CELL_PAYLOAD_SIZE" using c(1) by (simp add: link_cell_ok_def)
  have "take (get_var_cell_header_size wide) s = pack_circ_id (cell_circ_id c) wide @ cell_command c # take 2 (cell_payload c @ ys)"
    using take_header(1) [of "get_var_cell_header_size wide" s "pack_circ_id (cell_circ_id c) wide" wide "cell_command c" "cell_payload c @ ys"]
      False s by (simp add: fixed_bytes [OF l] length_pack_circ_id header_simps)
  moreover have "buf_peek b (get_var_cell_header_size wide) = Some (take (get_var_cell_header_size wide) s)"
    using buf_peek_ok [OF b] False by simp
  ultimately show ?thesis
    using False c holds_datalen [OF b]
    by (simp add: fetch_var_cell_from_buf_def link_cell_ok_def Let_def nth_append length_pack_circ_id)
qed

lemma fetch_var_part:
  assumes b: "buf_holds rest tot b s" and s: "strict_prefix s (cell_bytes wide (Var_Cell c))"
    and c: "link_cell_ok linkproto (Var_Cell c)" "wide = (linkproto \<ge> MIN_LINK_PROTO_FOR_WIDE_CIRC_IDS)"
  shows "\<exists>r. fetch_var_cell_from_buf tot b linkproto = Some (tot, b, None, r)
    \<and> (r = 0 \<longrightarrow> length s < get_cell_network_size wide)"
proof (cases "length s < get_var_cell_header_size wide")
  case True
  with fetch_var_not_yet [OF b] c(2) show ?thesis by (auto simp: header_simps)
next
  case False
  have l: "length (vc_payload c) = unat (vc_payload_len c)" using c(1) by (simp add: link_cell_ok_def)
  let ?i = "pack_circ_id (vc_circ_id c) wide"
  have h: "take (get_var_cell_header_size wide) s = ?i @ vc_command c # put16 (vc_payload_len c)"
    using take_header(1) [of "get_var_cell_header_size wide" s ?i wide "vc_command c" "put16 (vc_payload_len c) @ vc_payload c"]
      False s by (simp add: var_bytes [OF l] length_pack_circ_id header_simps strict_prefix_def length_put16)
  have "length s < length (cell_bytes wide (Var_Cell c))" using s by (rule prefix_length_less)
  then have n: "length s < get_var_cell_header_size wide + unat (vc_payload_len c)"
    using l by (simp add: var_bytes [OF l] length_pack_circ_id header_simps length_put16)
  have g: "get16 (Suc (get_circ_id_size wide)) (?i @ vc_command c # put16 (vc_payload_len c)) = vc_payload_len c"
    using get16_append [of "Suc (get_circ_id_size wide)" "?i @ [vc_command c]" "vc_payload_len c" "[]"] by (simp add: length_pack_circ_id)
  have "buf_peek b (get_var_cell_header_size wide) = Some (take (get_var_cell_header_size wide) s)"
    using buf_peek_ok [OF b] False by simp
  then show ?thesis
    using False c n g h holds_datalen [OF b]
    by (simp add: fetch_var_cell_from_buf_def link_cell_ok_def Let_def nth_append length_pack_circ_id)
qed

lemma fetch_var_whole:
  assumes b: "buf_holds rest tot b (cell_bytes wide (Var_Cell c) @ s)"
    and c: "link_cell_ok linkproto (Var_Cell c)" "wide = (linkproto \<ge> MIN_LINK_PROTO_FOR_WIDE_CIRC_IDS)"
  shows "\<exists>tot' b'. fetch_var_cell_from_buf tot b linkproto = Some (tot', b', Some c, 1) \<and> buf_holds rest tot' b' s"
proof -
  have l: "length (vc_payload c) = unat (vc_payload_len c)" using c(1) by (simp add: link_cell_ok_def)
  let ?i = "pack_circ_id (vc_circ_id c) wide" and ?h = "get_var_cell_header_size wide"
  let ?s = "?i @ vc_command c # put16 (vc_payload_len c) @ vc_payload c @ s"
  have b: "buf_holds rest tot b ?s" using b by (simp add: var_bytes [OF l])
  have hl: "?h \<le> length ?s" by (simp add: length_pack_circ_id header_simps length_put16)
  have h: "take ?h ?s = ?i @ vc_command c # put16 (vc_payload_len c)" and d: "drop ?h ?s = vc_payload c @ s"
    by (simp_all add: header_simps length_pack_circ_id put16_def)
  have g: "get16 (Suc (get_circ_id_size wide)) (?i @ vc_command c # put16 (vc_payload_len c)) = vc_payload_len c"
    using get16_append [of "Suc (get_circ_id_size wide)" "?i @ [vc_command c]" "vc_payload_len c" "[]"] by (simp add: length_pack_circ_id)
  have "circ_id_fits (vc_circ_id c) wide" using c by (simp add: link_cell_ok_def)
  then have i: "(if wide then get32 0 (?i @ xs) else ucast (get16 0 (?i @ xs))) = vc_circ_id c" for xs
    using unpack_pack_circ_id [of "vc_circ_id c" wide xs] by (simp add: unpack_circ_id_def)
  from buf_drain_ok [OF b hl] obtain tot1 b1 where d1: "buf_drain tot b ?h = Some (tot1, b1)" "buf_holds rest tot1 b1 (vc_payload c @ s)"
    using d by auto
  from buf_drain_ok [OF d1(2), of "unat (vc_payload_len c)"] l obtain tot2 b2 where
    d2: "buf_drain tot1 b1 (unat (vc_payload_len c)) = Some (tot2, b2)" "buf_holds rest tot2 b2 s" by auto
  have p1: "buf_peek b ?h = Some (?i @ vc_command c # put16 (vc_payload_len c))" using buf_peek_ok [OF b hl] h by simp
  have p2: "buf_peek b1 (unat (vc_payload_len c)) = Some (vc_payload c)" using buf_peek_ok [OF d1(2), of "unat (vc_payload_len c)"] l by simp
  have n: "\<not> b_datalen b < ?h" "\<not> b_datalen b < ?h + unat (vc_payload_len c)"
    using holds_datalen [OF b] l by (simp_all add: length_pack_circ_id header_simps length_put16)
  have cmd: "(?i @ vc_command c # put16 (vc_payload_len c)) ! get_circ_id_size wide = vc_command c"
    by (simp add: nth_append length_pack_circ_id)
  have "fetch_var_cell_from_buf tot b linkproto = Some (tot2, b2, Some c, 1)"
    using n p1 p2 d1(1) d2(1) g c(1) cmd i [of "vc_command c # put16 (vc_payload_len c)"]
    unfolding fetch_var_cell_from_buf_def link_cell_ok_def Let_def c(2) [symmetric] by simp
  with d2(2) show ?thesis by blast
qed

lemma next_cell_whole:
  assumes b: "buf_holds rest tot b (cell_bytes wide c @ s)" and c: "link_cell_ok linkproto c"
    and w: "wide = (linkproto \<ge> MIN_LINK_PROTO_FOR_WIDE_CIRC_IDS)"
  shows "\<exists>tot' b'. next_cell_from_inbuf linkproto wide tot b = Some (tot', b', Some c) \<and> buf_holds rest tot' b' s"
proof (cases c)
  case (Var_Cell v)
  with fetch_var_whole [of rest tot b wide v s linkproto] b c w show ?thesis by (auto simp: next_cell_from_inbuf_def)
next
  case (Fixed_Cell f)
  have l: "length (cell_payload f) = CELL_PAYLOAD_SIZE" "circ_id_fits (cell_circ_id f) wide"
    using c w Fixed_Cell by (simp_all add: link_cell_ok_def)
  have n: "length (cell_bytes wide c) = get_cell_network_size wide"
    using l(1) Fixed_Cell by (simp add: fixed_bytes length_pack_circ_id header_simps)
  from buf_get_bytes_ok [OF b, of "get_cell_network_size wide"] n obtain tot' b' r where
    g: "buf_get_bytes tot b (get_cell_network_size wide) = Some (tot', b', cell_bytes wide c, r)" "buf_holds rest tot' b' s" by auto
  have "\<not> b_datalen b < get_cell_network_size wide" using holds_datalen [OF b] n by simp
  moreover have "fetch_var_cell_from_buf tot b linkproto = Some (tot, b, None, 0)"
    using fetch_var_fixed [OF b, of wide f s linkproto] c w Fixed_Cell by simp
  moreover have "cell_unpack (cell_bytes wide c) wide = f"
    using unpack_fixed [OF l] Fixed_Cell by (simp add: fixed_bytes [OF l(1)])
  ultimately show ?thesis using g Fixed_Cell by (simp add: next_cell_from_inbuf_def)
qed

lemma next_cell_part:
  assumes b: "buf_holds rest tot b s" and s: "strict_prefix s (cell_bytes wide c)" and c: "link_cell_ok linkproto c"
    and w: "wide = (linkproto \<ge> MIN_LINK_PROTO_FOR_WIDE_CIRC_IDS)"
  shows "next_cell_from_inbuf linkproto wide tot b = Some (tot, b, None)"
proof (cases c)
  case (Var_Cell v)
  with fetch_var_part [of rest tot b s wide v linkproto] b c w s show ?thesis
    by (auto simp: next_cell_from_inbuf_def holds_datalen)
next
  case (Fixed_Cell f)
  have "length (cell_bytes wide c) = get_cell_network_size wide"
    using c Fixed_Cell by (simp add: fixed_bytes length_pack_circ_id header_simps link_cell_ok_def)
  then have "length s < get_cell_network_size wide" using prefix_length_less [OF s] by simp
  moreover have "prefix s (cell_bytes wide (Fixed_Cell f) @ [])" using s Fixed_Cell by (simp add: strict_prefix_def)
  ultimately show ?thesis
    using fetch_var_fixed [OF b, of wide f "[]" linkproto] c w Fixed_Cell holds_datalen [OF b]
    by (simp add: next_cell_from_inbuf_def)
qed

lemma write_cell_adds:
  assumes b: "buf_holds rest tot b s" and l: "length s + length (cell_bytes wide c) \<le> BUF_MAX_LEN"
  shows "\<exists>tot' b'. write_link_cell wide raw now tot b c = Some (tot', b') \<and> buf_holds rest tot' b' (s @ cell_bytes wide c)"
proof (cases c)
  case (Fixed_Cell f)
  with buf_add_ok [OF b, of "cell_bytes wide c" raw now] l show ?thesis
    by (auto simp: write_link_cell_def connection_or_write_cell_to_buf_def cell_bytes_def)
next
  case (Var_Cell v)
  obtain hdr n where h: "var_cell_pack_header v wide = (hdr, n)" by (cases "var_cell_pack_header v wide")
  let ?p = "take (unat (vc_payload_len v)) (vc_payload v)"
  have cb: "cell_bytes wide c = take n hdr @ ?p" using h Var_Cell by (simp add: cell_bytes_def)
  have l1: "length s + length (take n hdr) \<le> BUF_MAX_LEN" using l cb by simp
  from buf_add_ok [OF b l1, of raw now] obtain tot1 b1 where
    a1: "buf_add raw now tot b (take n hdr) = Some (tot1, b1, int (length s + length (take n hdr)))" "buf_holds rest tot1 b1 (s @ take n hdr)" by blast
  have l2: "length (s @ take n hdr) + length ?p \<le> BUF_MAX_LEN" using l cb by simp
  from buf_add_ok [OF a1(2) l2, of raw now] obtain tot2 b2 where
    a2: "buf_add raw now tot1 b1 ?p = Some (tot2, b2, int (length (s @ take n hdr) + length ?p))"
      "buf_holds rest tot2 b2 ((s @ take n hdr) @ ?p)" by blast
  show ?thesis using Var_Cell h a1(1) a2 cb
    by (simp add: write_link_cell_def connection_or_write_var_cell_to_buf_def)
qed

interpretation cells: framing "link_cell_ok p" "cell_bytes (p \<ge> 4)" "write_link_cell (p \<ge> 4)" "next_cell_from_inbuf p (p \<ge> 4)" for p
proof (unfold_locales, goal_cases)
  case (1 m)
  then show ?case by (auto simp: link_cell_ok_def fixed_bytes var_bytes split: link_cell.splits)
next
  case (2 rest tot b s m raw now)
  then show ?case using write_cell_adds by blast
next
  case (3 rest tot b m s)
  then show ?case using next_cell_whole by blast
next
  case (4 rest tot b s m)
  then show ?case using next_cell_part by blast
next
  case (5 rest tot b)
  then show ?case by (simp add: next_cell_from_inbuf_def holds_datalen fetch_var_not_yet header_simps)
qed

section \<open>Extended OR commands\<close>

definition ext_or_ok :: "ext_or_cmd \<Rightarrow> bool" where
  "ext_or_ok c \<longleftrightarrow> length (eo_body c) = unat (eo_len c)"

definition ext_or_bytes :: "ext_or_cmd \<Rightarrow> bytes" where
  "ext_or_bytes c = put16 (eo_cmd c) @ put16 (of_nat (length (eo_body c))) @ eo_body c"

definition write_ext_or :: "(nat \<Rightarrow> 8 word) \<Rightarrow> 32 word \<Rightarrow> nat \<Rightarrow> buf \<Rightarrow> ext_or_cmd \<Rightarrow> (nat \<times> buf) option" where
  "write_ext_or raw now tot b c =
     do { (tot, b, _) \<leftarrow> connection_write_ext_or_command raw now tot b (eo_cmd c) (eo_body c); Some (tot, b) }"

lemma ext_or_header:
  assumes "prefix s (ext_or_bytes c @ xs)" "4 \<le> length s" "ext_or_ok c"
  shows "get16 0 (take 4 s) = eo_cmd c" "get16 2 (take 4 s) = eo_len c" "buf_holds rest tot b s \<Longrightarrow> buf_peek b 4 = Some (take 4 s)"
proof -
  obtain zs where "ext_or_bytes c @ xs = s @ zs" using assms(1) by (auto simp: prefix_def)
  then have "take 4 s = take 4 (ext_or_bytes c @ xs)" using assms(2) by simp
  also have "\<dots> = put16 (eo_cmd c) @ put16 (eo_len c) @ []" using assms(3) by (simp add: ext_or_bytes_def put16_def ext_or_ok_def)
  finally have t: "take 4 s = put16 (eo_cmd c) @ put16 (eo_len c) @ []" .
  show "get16 0 (take 4 s) = eo_cmd c" unfolding t by (rule get16_put_append)
  show "get16 2 (take 4 s) = eo_len c" unfolding t by (rule get16_append) (simp add: length_put16)
  show "buf_holds rest tot b s \<Longrightarrow> buf_peek b 4 = Some (take 4 s)" using buf_peek_ok assms(2) by blast
qed

lemma length_ext_or_bytes: "ext_or_ok c \<Longrightarrow> length (ext_or_bytes c) = 4 + unat (eo_len c)"
  by (simp add: ext_or_bytes_def length_put16 ext_or_ok_def)

interpretation ext_or: framing ext_or_ok ext_or_bytes write_ext_or fetch_ext_or_command_from_buf
proof (unfold_locales, goal_cases)
  case (1 m)
  then show ?case by (simp add: ext_or_bytes_def put16_def)
next
  case (2 rest tot b s m raw now)
  let ?h = "put16 (eo_cmd m) @ put16 (of_nat (length (eo_body m)))"
  have "unat (eo_len m) < 2 ^ 16" by (rule order_less_le_trans [OF unsigned_less]) simp
  then have n: "\<not> length (eo_body m) > 65535" using 2(2) by (simp add: ext_or_ok_def)
  have l1: "length s + length ?h \<le> BUF_MAX_LEN" "length (s @ ?h) + length (eo_body m) \<le> BUF_MAX_LEN"
    using 2(3) by (simp_all add: ext_or_bytes_def)
  from buf_add_ok [OF 2(1) l1(1), of raw now] obtain tot1 b1 r1 where
    a1: "buf_add raw now tot b ?h = Some (tot1, b1, r1)" "buf_holds rest tot1 b1 (s @ ?h)" by blast
  from buf_add_ok [OF a1(2) l1(2), of raw now] obtain tot2 b2 r2 where
    a2: "buf_add raw now tot1 b1 (eo_body m) = Some (tot2, b2, r2)" "buf_holds rest tot2 b2 ((s @ ?h) @ eo_body m)" by blast
  show ?case
  proof (cases "eo_body m = []")
    case True
    with a1 n show ?thesis by (auto simp: write_ext_or_def connection_write_ext_or_command_def ext_or_bytes_def)
  next
    case False
    with a1(1) a2 n show ?thesis by (auto simp: write_ext_or_def connection_write_ext_or_command_def ext_or_bytes_def)
  qed
next
  case (3 rest tot b m s)
  have l: "length (ext_or_bytes m @ s) = 4 + unat (eo_len m) + length s" using 3(2) by (simp add: length_ext_or_bytes)
  have d: "drop 4 (ext_or_bytes m @ s) = eo_body m @ s" "length (eo_body m) = unat (eo_len m)"
    using 3(2) by (simp_all add: ext_or_bytes_def put16_def ext_or_ok_def)
  from buf_drain_ok [OF 3(1), of 4] l d obtain tot1 b1 where
    d1: "buf_drain tot b 4 = Some (tot1, b1)" "buf_holds rest tot1 b1 (eo_body m @ s)" by auto
  from buf_get_bytes_ok [OF d1(2), of "unat (eo_len m)"] d(2) obtain tot2 b2 r where
    d2: "buf_get_bytes tot1 b1 (unat (eo_len m)) = Some (tot2, b2, eo_body m, r)" "buf_holds rest tot2 b2 s" by auto
  have "\<not> b_datalen b < 4" "\<not> b_datalen b < unat (eo_len m) + 4" using holds_datalen [OF 3(1)] l by simp_all
  then have "fetch_ext_or_command_from_buf tot b = Some (tot2, b2, Some m)"
    using ext_or_header [of "ext_or_bytes m @ s" m s, OF _ _ 3(2)] 3(1) l d1(1) d2(1)
    by (simp add: fetch_ext_or_command_from_buf_def Let_def)
  with d2(2) show ?case by blast
next
  case (4 rest tot b s m)
  show ?case
  proof (cases "b_datalen b < 4")
    case True
    then show ?thesis by (simp add: fetch_ext_or_command_from_buf_def)
  next
    case False
    have "length s < 4 + unat (eo_len m)" using prefix_length_less [OF 4(3)] 4(2) by (simp add: length_ext_or_bytes)
    moreover have "prefix s (ext_or_bytes m @ [])" using 4(3) by (simp add: strict_prefix_def)
    ultimately show ?thesis
      using ext_or_header [OF _ _ 4(2), of s "[]"] False 4(1) holds_datalen [OF 4(1)]
      by (simp add: fetch_ext_or_command_from_buf_def Let_def)
  qed
next
  case (5 rest tot b)
  then show ?case by (simp add: fetch_ext_or_command_from_buf_def holds_datalen)
qed

section \<open>Properties\<close>

text \<open>C5: Cells reach the other end of a connection as they were sent: for every version of the link protocol,
  cells of fixed and of variable length that are written, flushed, received and taken off in any
  interleaving, however the calls of the system divide the bytes, arrive in order and unchanged. Taking
  off cells never fails, and once nothing is left in the output buffer and on the wire it has yielded every cell.\<close>

theorem link_cells_in_order:
  assumes "new_link l0"
    "(link_step (link_cell_ok p) (cell_bytes (p \<ge> 4)) (write_link_cell (p \<ge> 4)) (next_cell_from_inbuf p (p \<ge> 4)))\<^sup>*\<^sup>* l0 l"
  shows "prefix (lk_got l) (lk_sent l)
    \<and> (\<exists>tot b cs. connection_or_process_cells_from_inbuf p (p \<ge> 4) (lk_in_tot l) (lk_in l) = Some (tot, b, cs)
        \<and> prefix (lk_got l @ cs) (lk_sent l)
        \<and> (b_datalen (lk_out l) = 0 \<longrightarrow> lk_wire l = [] \<longrightarrow> lk_got l @ cs = lk_sent l))"
  using cells.link_in_order [OF assms] by (auto simp: connection_or_process_cells_from_inbuf_def)

text \<open>The same for the commands between a relay and its pluggable transports: the commands of the extended
  OR port arrive in order and unchanged, however their bytes are divided.\<close>

theorem ext_or_commands_in_order:
  assumes "new_link l0" "(link_step ext_or_ok ext_or_bytes write_ext_or fetch_ext_or_command_from_buf)\<^sup>*\<^sup>* l0 l"
  shows "prefix (lk_got l) (lk_sent l)
    \<and> (\<exists>tot b cs. fetch_loop fetch_ext_or_command_from_buf (lk_in_tot l) (lk_in l) = Some (tot, b, cs)
        \<and> prefix (lk_got l @ cs) (lk_sent l)
        \<and> (b_datalen (lk_out l) = 0 \<longrightarrow> lk_wire l = [] \<longrightarrow> lk_got l @ cs = lk_sent l))"
  using ext_or.link_in_order [OF assms] by auto

section \<open>A connection\<close>

definition start_link :: "'m link" where
  "start_link = \<lparr>lk_out = buf_new, lk_out_tot = 0, lk_wire = [], lk_in = buf_new, lk_in_tot = 0, lk_sent = [], lk_got = []\<rparr>"

lemma start_link_new: "new_link start_link"
  by (simp add: new_link_def start_link_def)

definition vpadding_cell :: link_cell where
  "vpadding_cell = Var_Cell \<lparr>vc_command = 128, vc_circ_id = 0, vc_payload_len = 2, vc_payload = [1, 2]\<rparr>"

definition okay_cmd :: ext_or_cmd where
  "okay_cmd = \<lparr>eo_cmd = 0x1000, eo_len = 0, eo_body = []\<rparr>"

lemma link_cells_in_order_witness:
  "\<exists>l. lk_sent l = [vpadding_cell] \<and> prefix (lk_got l) [vpadding_cell] \<and> b_datalen (lk_in l) = 0
     \<and> (link_step (link_cell_ok 4) (cell_bytes True) (write_link_cell True) (next_cell_from_inbuf 4 True))\<^sup>*\<^sup>* start_link l"
proof -
  have inv: "cells.link_inv 4 start_link" using cells.new_link_inv [OF start_link_new] .
  have ok: "link_cell_ok 4 vpadding_cell" by (simp add: link_cell_ok_def vpadding_cell_def cell_command_is_var_length_def circ_id_fits_def)
  have room: "b_datalen (lk_out (start_link :: link_cell link)) + length (cell_bytes True vpadding_cell) \<le> BUF_MAX_LEN"
    by (simp add: start_link_def buf_new_def vpadding_cell_def cell_bytes_def var_cell_pack_header_def put32_def put16_def)
  obtain tot b where w: "write_link_cell True (\<lambda>i. 0) 0 (lk_out_tot (start_link :: link_cell link)) (lk_out (start_link :: link_cell link)) vpadding_cell = Some (tot, b)"
    using cells.link_steps_enabled(1) [OF inv ok, of "\<lambda>i. 0" 0] room by auto
  let ?l = "start_link\<lparr>lk_out := b, lk_out_tot := tot, lk_sent := lk_sent start_link @ [vpadding_cell]\<rparr>"
  have s: "link_step (link_cell_ok 4) (cell_bytes True) (write_link_cell True) (next_cell_from_inbuf 4 True) start_link ?l"
    using ok room w by (rule link_step.Write)
  then have "(link_step (link_cell_ok 4) (cell_bytes (4 \<ge> (4 :: int))) (write_link_cell (4 \<ge> (4 :: int))) (next_cell_from_inbuf 4 (4 \<ge> (4 :: int))))\<^sup>*\<^sup>* start_link ?l"
    by simp
  from link_cells_in_order [OF start_link_new this] s show ?thesis
    by (intro exI [of _ ?l]) (simp add: start_link_def buf_new_def)
qed

lemma ext_or_commands_in_order_witness:
  "\<exists>l. lk_sent l = [okay_cmd] \<and> prefix (lk_got l) [okay_cmd]
     \<and> (link_step ext_or_ok ext_or_bytes write_ext_or fetch_ext_or_command_from_buf)\<^sup>*\<^sup>* start_link l"
proof -
  have inv: "ext_or.link_inv start_link" using ext_or.new_link_inv [OF start_link_new] .
  have ok: "ext_or_ok okay_cmd" by (simp add: ext_or_ok_def okay_cmd_def)
  have room: "b_datalen (lk_out (start_link :: ext_or_cmd link)) + length (ext_or_bytes okay_cmd) \<le> BUF_MAX_LEN"
    by (simp add: start_link_def buf_new_def okay_cmd_def ext_or_bytes_def put16_def)
  obtain tot b where w: "write_ext_or (\<lambda>i. 0) 0 (lk_out_tot (start_link :: ext_or_cmd link)) (lk_out (start_link :: ext_or_cmd link)) okay_cmd = Some (tot, b)"
    using ext_or.link_steps_enabled(1) [OF inv ok room, of "\<lambda>i. 0" 0] by auto
  let ?l = "start_link\<lparr>lk_out := b, lk_out_tot := tot, lk_sent := lk_sent start_link @ [okay_cmd]\<rparr>"
  have s: "link_step ext_or_ok ext_or_bytes write_ext_or fetch_ext_or_command_from_buf start_link ?l"
    using ok room w by (rule link_step.Write)
  then have "(link_step ext_or_ok ext_or_bytes write_ext_or fetch_ext_or_command_from_buf)\<^sup>*\<^sup>* start_link ?l" by simp
  from ext_or_commands_in_order [OF start_link_new this] s show ?thesis
    by (intro exI [of _ ?l]) (simp add: start_link_def)
qed

end
