(* ===== verification/Protover.thy ===== *)
theory Protover
  imports Parse_Int Util_String "HOL-Library.Monad_Syntax" "HOL-Library.List_Lexorder" "HOL-Library.Char_ord"
begin

text \<open>
  Subprotocol versions, src/core/or/protover.c: parsing and encoding lists such as "Link=3-5 Relay=2",
  whether a list contains a version, the vote of the authorities, and what a consensus requires that is
  not supported here. A pointer into a string is the rest of the string; the end of an entry or of a
  range is an offset into it. \<open>None\<close> of the functions that cannot fail in C is a failed assertion or
  undefined behaviour.
\<close>

unbundle bit_operations_syntax

section \<open>Parsing\<close>

record proto_entry =
  pe_name :: string
  pe_bitmask :: "64 word"

definition TOR_ISALNUM_TABLE :: "32 word list" where
  "TOR_ISALNUM_TABLE = [0, 0x3ff0000, 0x7fffffe, 0x7fffffe, 0, 0, 0, 0]"

abbreviation TOR_ISALNUM :: "char \<Rightarrow> bool" where
  "TOR_ISALNUM \<equiv> ctype_fn TOR_ISALNUM_TABLE"

abbreviation MAX_PROTOCOL_VERSION :: int where "MAX_PROTOCOL_VERSION \<equiv> 63"
abbreviation MAX_PROTOCOL_NAME_LENGTH :: nat where "MAX_PROTOCOL_NAME_LENGTH \<equiv> 100"

text \<open>Whether a string starts with a digit; at its end there is a NUL.\<close>

definition starts_with_digit :: "string \<Rightarrow> bool" where
  "starts_with_digit s = (case s of [] \<Rightarrow> False | c # _ \<Rightarrow> TOR_ISDIGIT c)"

definition parse_version_range :: "string \<Rightarrow> nat \<Rightarrow> (nat \<times> nat) option" where
  "parse_version_range s end_of_range =
     (if \<not> starts_with_digit s then None
      else case tor_parse_ulong s 10 0 MAX_PROTOCOL_VERSION True of
        (low, ok, next_opt) \<Rightarrow>
          let rest = the next_opt; pos = length s - length rest
          in if \<not> ok then None
             else if pos > end_of_range then None
             else if pos = end_of_range then Some (nat low, nat low)
             else if take 1 rest \<noteq> ''-'' then None
             else let s = drop 1 rest; end_of_range = end_of_range - pos - 1
                  in if \<not> starts_with_digit s then None
                     else case tor_parse_ulong s 10 0 MAX_PROTOCOL_VERSION True of
                       (high, ok, next_opt) \<Rightarrow>
                         if \<not> ok then None
                         else if length s - length (the next_opt) \<noteq> end_of_range then None
                         else if low > high then None
                         else Some (nat low, nat high))"

definition is_valid_keyword :: "string \<Rightarrow> nat \<Rightarrow> bool" where
  "is_valid_keyword s n = list_all (\<lambda>c. TOR_ISALNUM c \<or> c = CHR ''-'') (take n s)"

definition BIT :: "nat \<Rightarrow> 64 word" where
  "BIT x = push_bit x 1"

text \<open>Shifting by 64 or more is undefined; 63 - high is unsigned.\<close>

definition bitmask_for_range :: "nat \<Rightarrow> nat \<Rightarrow> 64 word option" where
  "bitmask_for_range low high =
     (if high > 63 \<or> 63 - high + low > 63 then None
      else let mask = NOT 0; mask = push_bit (63 - high) mask; mask = drop_bit (63 - high + low) mask
           in Some (push_bit low mask))"

lemma ulong_rest:
  assumes "starts_with_digit s" "tor_parse_ulong s 10 lo hi True = (r, ok, out)"
  shows "\<exists>rest. out = Some rest \<and> length rest < length s \<and> (\<exists>t. s = t @ rest)"
proof -
  obtain c t where s: "s = c # t" "TOR_ISDIGIT c" using assms(1) by (auto simp: starts_with_digit_def split: list.splits)
  have f: "dropWhile c_isspace s = s" "number_sign s = (False, s)" "number_base 10 s = (10, s)"
    using s digit_not_space [OF s(2)] by (simp_all add: number_sign_def number_base_def)
  have "strto s 10 = Some (False, digits_value 10 (takeWhile (is_digit 10) s) 0, dropWhile (is_digit 10) s)"
    using s f by (simp add: strto_def is_digit_10)
  then have "out = Some (dropWhile (is_digit 10) s)"
    using assms(2) by (auto simp: tor_parse_ulong_def strtoul_def CHECK_STRTOX_RESULT_def Let_def split: if_splits)
  moreover have "length (dropWhile (is_digit 10) s) < length s"
    using s length_dropWhile_le [of "is_digit 10" t] by (simp add: is_digit_10)
  moreover have "s = takeWhile (is_digit 10) s @ dropWhile (is_digit 10) s" by simp
  ultimately show ?thesis by blast
qed

lemma empty_range: "parse_version_range s 0 = None"
proof (cases "starts_with_digit s")
  case True
  obtain r ok out where "tor_parse_ulong s 10 0 MAX_PROTOCOL_VERSION True = (r, ok, out)" by (cases "tor_parse_ulong s 10 0 MAX_PROTOCOL_VERSION True")
  with ulong_rest [OF True this] show ?thesis by (auto simp: parse_version_range_def Let_def)
qed (simp add: parse_version_range_def)

text \<open>The loop over the ranges of an entry, and its bitmask; \<open>None\<close> is the jump to \<open>error\<close>. An undefined
  shift would be \<open>None\<close> as well; it cannot occur, as \<open>low\<close> and \<open>high\<close> are at most 63 here.\<close>

function ranges_loop :: "string \<Rightarrow> nat \<Rightarrow> 64 word \<Rightarrow> 64 word option" where
  "ranges_loop s end_of_entry bitmask =
     (if \<not> 0 < end_of_entry then Some bitmask
      else let comma = (case memchr (take end_of_entry s) (CHR '','') of Some i \<Rightarrow> i | None \<Rightarrow> end_of_entry)
           in case parse_version_range s comma of
                None \<Rightarrow> None
              | Some (low, high) \<Rightarrow>
                  case bitmask_for_range low high of
                    None \<Rightarrow> None
                  | Some m \<Rightarrow>
                      let bitmask = bitmask OR m; s = drop comma s; end_of_entry = end_of_entry - comma
                      in if 1 < end_of_entry then ranges_loop (drop 1 s) (end_of_entry - 1) bitmask
                         else ranges_loop s end_of_entry bitmask)"
  by pat_completeness auto
termination
proof (relation "measure (\<lambda>(s, e, m). e)", goal_cases)
  case (3 s e m comma p low high mask b s' e')
  then have "comma \<noteq> 0" using empty_range by (metis option.distinct(1))
  with 3 show ?case by simp
qed auto

declare ranges_loop.simps [simp del]

definition parse_single_entry :: "string \<Rightarrow> nat \<Rightarrow> proto_entry option" where
  "parse_single_entry s end_of_entry =
     (case memchr (take end_of_entry s) (CHR ''='') of
        None \<Rightarrow> None
      | Some equals \<Rightarrow>
          if equals = 0 then None
          else if equals > MAX_PROTOCOL_NAME_LENGTH then None
          else if \<not> is_valid_keyword s equals then None
          else do { bitmask \<leftarrow> ranges_loop (drop (equals + 1) s) (end_of_entry - (equals + 1)) 0;
                    Some \<lparr>pe_name = take equals s, pe_bitmask = bitmask\<rparr> })"

lemma empty_entry: "parse_single_entry s 0 = None"
  by (simp add: parse_single_entry_def)

function list_loop :: "string \<Rightarrow> proto_entry list \<Rightarrow> proto_entry list option" where
  "list_loop s entries =
     (if s = [] then Some entries
      else let end_of_entry = (case memchr s (CHR '' '') of Some i \<Rightarrow> i | None \<Rightarrow> length s)
           in case parse_single_entry s end_of_entry of
                None \<Rightarrow> None
              | Some entry \<Rightarrow> list_loop (dropWhile (\<lambda>c. c = CHR '' '') (drop end_of_entry s)) (smartlist_add entries entry))"
  by pat_completeness auto
termination
proof (relation "measure (\<lambda>(s, es). length s)", goal_cases)
  case (2 s es e entry)
  then have "e \<noteq> 0" using empty_entry by (metis option.distinct(1))
  then have "length (drop e s) < length s" using 2(1) by (cases s) auto
  then show ?case
    using length_dropWhile_le [of "\<lambda>c. c = CHR '' ''" "drop e s"] by simp
qed simp

declare list_loop.simps [simp del]

definition parse_protocol_list :: "string \<Rightarrow> proto_entry list option" where
  "parse_protocol_list s = list_loop s []"

definition protover_list_is_invalid :: "string \<Rightarrow> bool" where
  "protover_list_is_invalid s = (case parse_protocol_list s of None \<Rightarrow> True | Some _ \<Rightarrow> False)"


section \<open>What a list contains\<close>

datatype protocol_type = PRT_LINK | PRT_LINKAUTH | PRT_RELAY | PRT_DIRCACHE | PRT_HSDIR | PRT_HSINTRO | PRT_HSREND
  | PRT_DESC | PRT_MICRODESC | PRT_CONS | PRT_PADDING | PRT_FLOWCTRL | PRT_CONFLUX

definition PROTOCOL_NAMES :: "(protocol_type \<times> string) list" where
  "PROTOCOL_NAMES =
    [(PRT_LINK, ''Link''), (PRT_LINKAUTH, ''LinkAuth''), (PRT_RELAY, ''Relay''), (PRT_DIRCACHE, ''DirCache''),
     (PRT_HSDIR, ''HSDir''), (PRT_HSINTRO, ''HSIntro''), (PRT_HSREND, ''HSRend''), (PRT_DESC, ''Desc''),
     (PRT_MICRODESC, ''Microdesc''), (PRT_PADDING, ''Padding''), (PRT_CONS, ''Cons''),
     (PRT_FLOWCTRL, ''FlowCtrl''), (PRT_CONFLUX, ''Conflux'')]"

definition protocol_type_to_str :: "protocol_type \<Rightarrow> string" where
  "protocol_type_to_str pr = (case find (\<lambda>n. fst n = pr) PROTOCOL_NAMES of Some n \<Rightarrow> snd n | None \<Rightarrow> ''UNKNOWN'')"

definition find_entry_by_name :: "proto_entry list option \<Rightarrow> string \<Rightarrow> proto_entry option" where
  "find_entry_by_name protos name =
     (case protos of None \<Rightarrow> None | Some es \<Rightarrow> find (\<lambda>ent. pe_name ent = name) es)"

definition protocol_list_contains :: "proto_entry list option \<Rightarrow> protocol_type \<Rightarrow> 32 word \<Rightarrow> bool" where
  "protocol_list_contains protos pr ver =
     (if protos = None then False
      else let pr_name = protocol_type_to_str pr
           in if uint ver > MAX_PROTOCOL_VERSION then False
              else case find_entry_by_name protos pr_name of
                     Some ent \<Rightarrow> pe_bitmask ent AND BIT (unat ver) \<noteq> 0
                   | None \<Rightarrow> False)"

definition protocol_list_supports_protocol :: "string \<Rightarrow> protocol_type \<Rightarrow> 32 word \<Rightarrow> bool" where
  "protocol_list_supports_protocol s tp version =
     (case parse_protocol_list s of
        None \<Rightarrow> False
      | Some protocols \<Rightarrow> protocol_list_contains (Some protocols) tp version)"

text \<open>\<open>strcasecmp\<close> says that the strings are equal.\<close>

definition c_tolower :: "char \<Rightarrow> char" where
  "c_tolower c = (let u = of_char c :: nat in if 65 \<le> u \<and> u \<le> 90 then char_of (u + 32) else c)"

definition strcaseeq :: "string \<Rightarrow> string \<Rightarrow> bool" where
  "strcaseeq a b \<longleftrightarrow> map c_tolower a = map c_tolower b"

text \<open>\<open>None\<close> when the version is above 63, where the shift is undefined.\<close>

definition protocol_list_supports_protocol_or_later :: "string \<Rightarrow> protocol_type \<Rightarrow> 32 word \<Rightarrow> bool option" where
  "protocol_list_supports_protocol_or_later s tp version =
     (case parse_protocol_list s of
        None \<Rightarrow> Some False
      | Some protocols \<Rightarrow>
          do { mask \<leftarrow> bitmask_for_range (unat version) 63;
               Some (list_ex (\<lambda>proto. strcaseeq (pe_name proto) (protocol_type_to_str tp)
                 \<and> pe_bitmask proto AND mask \<noteq> 0) protocols) })"

section \<open>What is supported here\<close>

fun protover_get_supported :: "protocol_type \<Rightarrow> string" where
  "protover_get_supported PRT_CONFLUX = ''1''"
| "protover_get_supported PRT_CONS = ''1-2''"
| "protover_get_supported PRT_DESC = ''1-4''"
| "protover_get_supported PRT_DIRCACHE = ''2''"
| "protover_get_supported PRT_FLOWCTRL = ''1-2''"
| "protover_get_supported PRT_HSDIR = ''2''"
| "protover_get_supported PRT_HSINTRO = ''4-5''"
| "protover_get_supported PRT_HSREND = ''1-2''"
| "protover_get_supported PRT_LINK = ''3-5''"
| "protover_get_supported PRT_LINKAUTH = ''3''"
| "protover_get_supported PRT_MICRODESC = ''1-3''"
| "protover_get_supported PRT_PADDING = ''2''"
| "protover_get_supported PRT_RELAY = ''2-6''"

definition protover_get_supported_protocols :: string where
  "protover_get_supported_protocols =
     ''Conflux='' @ protover_get_supported PRT_CONFLUX @ '' '' @ ''Cons='' @ protover_get_supported PRT_CONS @ '' ''
     @ ''Desc='' @ protover_get_supported PRT_DESC @ '' '' @ ''DirCache='' @ protover_get_supported PRT_DIRCACHE @ '' ''
     @ ''FlowCtrl='' @ protover_get_supported PRT_FLOWCTRL @ '' '' @ ''HSDir='' @ protover_get_supported PRT_HSDIR @ '' ''
     @ ''HSIntro='' @ protover_get_supported PRT_HSINTRO @ '' '' @ ''HSRend='' @ protover_get_supported PRT_HSREND @ '' ''
     @ ''Link='' @ protover_get_supported PRT_LINK @ '' '' @ ''LinkAuth='' @ protover_get_supported PRT_LINKAUTH @ '' ''
     @ ''Microdesc='' @ protover_get_supported PRT_MICRODESC @ '' '' @ ''Padding='' @ protover_get_supported PRT_PADDING
     @ '' '' @ ''Relay='' @ protover_get_supported PRT_RELAY"

definition protover_get_recommended_client_protocols :: string where
  "protover_get_recommended_client_protocols =
     ''Cons=2 Desc=2 DirCache=2 FlowCtrl=1-2 HSDir=2 HSIntro=4 HSRend=2 Link=4-5 Microdesc=2 Relay=2-4''"

definition protover_get_recommended_relay_protocols :: string where
  "protover_get_recommended_relay_protocols =
     ''Cons=2 Desc=2 DirCache=2 FlowCtrl=1-2 HSDir=2 HSIntro=4-5 HSRend=2 Link=4-5 LinkAuth=3 Microdesc=2 Relay=2-4''"

definition protover_get_required_client_protocols :: string where
  "protover_get_required_client_protocols = ''Cons=2 Desc=2 FlowCtrl=1 Link=4 Microdesc=2 Relay=2''"

definition protover_get_required_relay_protocols :: string where
  "protover_get_required_relay_protocols =
     ''Cons=2 Desc=2 DirCache=2 FlowCtrl=1-2 HSDir=2 HSIntro=4-5 HSRend=2 Link=4-5 LinkAuth=3 Microdesc=2 Relay=2-4''"

text \<open>The code keeps the list once it has parsed it.\<close>

definition get_supported_protocol_list :: "proto_entry list option" where
  "get_supported_protocol_list = parse_protocol_list protover_get_supported_protocols"

definition protover_is_supported_here :: "protocol_type \<Rightarrow> 32 word \<Rightarrow> bool" where
  "protover_is_supported_here pr ver = protocol_list_contains get_supported_protocol_list pr ver"

section \<open>Encoding\<close>

text \<open>\<open>None\<close> for 0, where \<open>__builtin_ctzll\<close> is undefined.\<close>

definition trailing_zeros :: "64 word \<Rightarrow> nat option" where
  "trailing_zeros x = (if x = 0 then None else Some (length (takeWhile (\<lambda>i. \<not> bit x i) [0..<64])))"

lemma trailing_zeros_Some:
  assumes "trailing_zeros x = Some n"
  shows "n < 64" "bit x n" "i < n \<Longrightarrow> \<not> bit x i"
proof -
  let ?P = "\<lambda>i. \<not> bit x i"
  have x: "x \<noteq> 0" "n = length (takeWhile ?P [0..<64])" using assms by (auto simp: trailing_zeros_def split: if_splits)
  from x(1) obtain j where j: "bit x j" "j < 64"
    using bit_word_eqI [of x 0] by (auto simp: word_size)
  then have "\<exists>i \<in> set [0..<64]. \<not> ?P i" by auto
  then have "n \<noteq> length [0..<64]" unfolding x(2) by (metis takeWhile_eq_all_conv takeWhile_eq_take take_all order_refl)
  moreover have "n \<le> length [0..<64]" unfolding x(2) by (rule length_takeWhile_le)
  ultimately show n: "n < 64" by simp
  then have "\<not> ?P ([0..<64] ! n)" unfolding x(2) using nth_length_takeWhile [of ?P "[0..<64]"] by simp
  with n show "bit x n" by simp
  assume "i < n"
  then have "?P ([0..<64] ! i)" using x(2) by (metis nth_mem set_takeWhileD takeWhile_nth)
  with \<open>i < n\<close> n show "\<not> bit x i" by simp
qed

lemma unat_drop_bit: "unat (drop_bit n (w :: 64 word)) = unat w div 2 ^ n"
  unfolding unsigned_drop_bit_eq using unsigned_less [of w, where 'a = nat]
  by (simp add: drop_bit_eq_div take_bit_nat_eq_self)

function encode_ranges :: "string list \<Rightarrow> 64 word \<Rightarrow> nat \<Rightarrow> bool \<Rightarrow> string list option" where
  "encode_ranges chunks bits shift first =
     (if bits = 0 then Some chunks
      else
        let comma = (if first then [] else '','')
        in case trailing_zeros bits of
             None \<Rightarrow> None
           | Some zeros \<Rightarrow>
               let bits = drop_bit zeros bits; shift = shift + zeros
               in case (if bits = 0 then Some 64 else trailing_zeros (NOT bits)) of
                    None \<Rightarrow> None
                  | Some ones \<Rightarrow>
                      let chunks = smartlist_add chunks
                            (if ones = 1 then comma @ show_dec shift
                             else comma @ show_dec shift @ ''-'' @ show_dec (shift + ones - 1))
                      in if ones = 64 then Some chunks
                         else encode_ranges chunks (drop_bit ones bits) (shift + ones) False)"
  by pat_completeness auto
termination
proof (relation "measure (\<lambda>(chunks, bits, shift, first). unat bits)", goal_cases)
  case (2 chunks bits shift first comma zeros bits' shift' ones chunks')
  then have z: "bit bits zeros" using trailing_zeros_Some(2) by blast
  then have b: "bit bits' 0" using 2 by (simp add: bit_drop_bit_eq)
  then have "bits' \<noteq> 0" by auto
  then have "bit (NOT bits') ones" using 2 trailing_zeros_Some(2) by (auto split: if_splits)
  with b have o: "ones \<noteq> 0" by (metis bit_not_iff)
  have "unat bits \<noteq> 0" using 2(1) by (simp add: unat_eq_0)
  with o have "unat bits div 2 ^ zeros div 2 ^ ones < unat bits"
    by (metis div_le_dividend div_less_dividend le_neq_implies_less less_one linorder_not_le not_gr0 one_less_numeral_iff one_less_power order_le_less_trans semiring_norm(76) div_0)
  moreover have "unat (drop_bit ones bits') = unat bits div 2 ^ zeros div 2 ^ ones"
    unfolding 2(4) unat_drop_bit ..
  ultimately show ?case by simp
qed simp

declare encode_ranges.simps [simp del]

definition proto_entry_encode_into :: "string list \<Rightarrow> proto_entry \<Rightarrow> string list option" where
  "proto_entry_encode_into chunks ent =
     encode_ranges (smartlist_add chunks (pe_name ent @ ''='')) (pe_bitmask ent) 0 True"

fun encode_entries :: "string list \<Rightarrow> string \<Rightarrow> proto_entry list \<Rightarrow> string list option" where
  "encode_entries chunks separator [] = Some chunks"
| "encode_entries chunks separator (ent # sl) =
     do { chunks \<leftarrow> proto_entry_encode_into (smartlist_add chunks separator) ent;
          encode_entries chunks '' '' sl }"

definition encode_protocol_list :: "proto_entry list \<Rightarrow> string option" where
  "encode_protocol_list sl =
     do { chunks \<leftarrow> encode_entries [] [] sl;
          Some (smartlist_join_strings2 chunks [] False) }"

section \<open>Voting\<close>

definition add_names :: "string list \<Rightarrow> proto_entry list \<Rightarrow> string list" where
  "add_names = foldl (\<lambda>ns ent. if pe_name ent \<in> set ns then ns else smartlist_add ns (pe_name ent))"

text \<open>The lists that parse, and the names in them.\<close>

definition parse_votes :: "string list \<Rightarrow> proto_entry list list \<times> string list" where
  "parse_votes = foldl (\<lambda>(parsed, proto_names) vote.
     case parse_protocol_list vote of
       None \<Rightarrow> (parsed, proto_names)
     | Some unexpanded \<Rightarrow> (smartlist_add parsed unexpanded, add_names proto_names unexpanded)) ([], [])"

definition count_bits :: "8 word list \<Rightarrow> 64 word \<Rightarrow> 8 word list" where
  "count_bits counts bits =
     foldl (\<lambda>counts i. if bits AND BIT i \<noteq> 0 then counts[i := counts ! i + 1] else counts) counts [0..<64]"

definition count_votes :: "proto_entry list list \<Rightarrow> string \<Rightarrow> 8 word list" where
  "count_votes parsed name =
     foldl (\<lambda>counts vote. case find_entry_by_name (Some vote) name of
                            None \<Rightarrow> counts
                          | Some ent \<Rightarrow> count_bits counts (pe_bitmask ent))
       (replicate 64 0) parsed"

definition result_mask :: "8 word list \<Rightarrow> int \<Rightarrow> 64 word" where
  "result_mask counts threshold =
     foldl (\<lambda>m i. if uint (counts ! i) \<ge> threshold then m OR BIT i else m) 0 [0..<64]"

definition vote_results :: "proto_entry list list \<Rightarrow> string list \<Rightarrow> int \<Rightarrow> proto_entry list" where
  "vote_results parsed proto_names threshold =
     foldl (\<lambda>result name.
        let result_bitmask = result_mask (count_votes parsed name) threshold
        in if result_bitmask \<noteq> 0 then smartlist_add result \<lparr>pe_name = name, pe_bitmask = result_bitmask\<rparr> else result)
       [] proto_names"

definition protover_compute_vote :: "string list \<Rightarrow> int \<Rightarrow> string option" where
  "protover_compute_vote list_of_proto_strings threshold =
     (if \<not> length list_of_proto_strings < 256 then None
      else if length list_of_proto_strings = 0 then Some []
      else case parse_votes list_of_proto_strings of
             (parsed, proto_names) \<Rightarrow> encode_protocol_list (vote_results parsed (sort proto_names) threshold))"

section \<open>What a consensus requires\<close>

fun missing_entries :: "proto_entry list option \<Rightarrow> proto_entry list \<Rightarrow> proto_entry list \<Rightarrow> proto_entry list" where
  "missing_entries supported missing [] = missing"
| "missing_entries supported missing (ent # es) =
     (case find_entry_by_name supported (pe_name ent) of
        None \<Rightarrow>
          missing_entries supported
            (if pe_bitmask ent \<noteq> 0 then smartlist_add missing \<lparr>pe_name = pe_name ent, pe_bitmask = pe_bitmask ent\<rparr>
             else missing) es
      | Some mine \<Rightarrow>
          let missing_mask = pe_bitmask ent AND NOT (pe_bitmask mine)
          in missing_entries supported
               (if missing_mask \<noteq> 0 then smartlist_add missing \<lparr>pe_name = pe_name ent, pe_bitmask = missing_mask\<rparr>
                else missing) es)"

text \<open>\<open>want_missing\<close> says that \<open>missing_out\<close> is not NULL; the string is what is stored there.\<close>

definition protover_all_supported :: "string option \<Rightarrow> bool \<Rightarrow> (bool \<times> string option) option" where
  "protover_all_supported s want_missing =
     (case s of
        None \<Rightarrow> Some (True, None)
      | Some s \<Rightarrow>
          (case parse_protocol_list s of
             None \<Rightarrow> Some (True, None)
           | Some entries \<Rightarrow>
               let missing = missing_entries get_supported_protocol_list [] entries;
                   all_supported = (length missing = 0)
               in if \<not> all_supported \<and> want_missing
                  then do { m \<leftarrow> encode_protocol_list missing; Some (all_supported, Some m) }
                  else Some (all_supported, None)))"

end
