(* ===== verification/Protover_Correct.thy ===== *)
theory Protover_Correct
  imports Protover
begin

text \<open>
  What the lists of subprotocol versions mean: every list of entries is parsed back from its encoding,
  the vote lists exactly the versions that enough authorities list, and the versions that are reported
  as missing are those that are not supported here. The encoder is undefined for an entry with all 64
  versions.
\<close>

section \<open>Bits of a mask\<close>

lemma bit_BIT: "bit (BIT x) i \<longleftrightarrow> i = x \<and> i < 64"
  by (auto simp: BIT_def bit_exp_iff)

lemma mask_BIT: "i < 64 \<Longrightarrow> (m AND BIT i \<noteq> 0) = bit m i"
proof -
  assume i: "i < 64"
  have "m AND BIT i = (if bit m i then BIT i else 0)"
    by (rule bit_word_eqI) (auto simp: bit_and_iff bit_BIT)
  moreover have "BIT i \<noteq> 0" using i by (metis bit_BIT bit_0_eq bot_apply bot_bool_def)
  ultimately show ?thesis by simp
qed

lemma bitmask_bits:
  assumes "low \<le> high" "high \<le> 63"
  obtains m where "bitmask_for_range low high = Some m" "\<And>i. bit m i \<longleftrightarrow> low \<le> i \<and> i \<le> high"
proof -
  let ?m = "push_bit low (drop_bit (63 - high + low) (push_bit (63 - high) (NOT 0))) :: 64 word"
  have "bitmask_for_range low high = Some ?m" using assms by (simp add: bitmask_for_range_def Let_def)
  moreover have "bit ?m i \<longleftrightarrow> low \<le> i \<and> i \<le> high" for i
    using assms by (auto simp: bit_push_bit_iff bit_drop_bit_eq bit_not_iff bit_mask_iff)
  ultimately show ?thesis using that by blast
qed

section \<open>Parsing what was printed\<close>

definition show_range :: "nat \<Rightarrow> nat \<Rightarrow> string" where
  "show_range low high = (if low = high then show_dec low else show_dec low @ ''-'' @ show_dec high)"

lemma starts_show: "starts_with_digit (show_dec n @ rest)"
  using show_dec_nonempty [of n] show_dec_hd_digit [of n rest]
  by (cases "show_dec n") (auto simp: starts_with_digit_def)

text \<open>What may follow a range or an entry.\<close>

definition ends_range :: "string \<Rightarrow> bool" where
  "ends_range rest \<longleftrightarrow> rest = [] \<or> hd rest \<in> {CHR '','', CHR '' ''}"

lemma ends_range_digit: "ends_range rest \<Longrightarrow> rest = [] \<or> \<not> TOR_ISDIGIT (hd rest)"
  by (auto simp: ends_range_def TOR_ISDIGIT_def)

lemma parse_show_range:
  assumes "low \<le> high" "high \<le> 63" "ends_range rest"
  shows "parse_version_range (show_range low high @ rest) (length (show_range low high)) = Some (low, high)"
proof (cases "low = high")
  case True
  then show ?thesis using assms starts_show ulong_show [OF ends_range_digit [OF assms(3)], of low]
    by (simp add: parse_version_range_def show_range_def Let_def)
next
  case False
  have d: "''-'' @ show_dec high @ rest = [] \<or> \<not> TOR_ISDIGIT (hd (''-'' @ show_dec high @ rest))"
    by (simp add: TOR_ISDIGIT_def)
  show ?thesis
    using False assms starts_show ulong_show [OF d, of low] ulong_show [OF ends_range_digit [OF assms(3)], of high]
      show_dec_nonempty [of high]
    by (simp add: parse_version_range_def show_range_def Let_def)
qed

section \<open>The encoder\<close>

lemma encode_step:
  assumes "bits \<noteq> 0" "bits \<noteq> - 1"
  obtains z n where "0 < n" "z < 64" "drop_bit n (drop_bit z bits) \<noteq> - 1"
    "encode_ranges chunks bits shift first =
       encode_ranges (chunks @ [(if first then [] else '','') @ show_range (shift + z) (shift + z + n - 1)])
         (drop_bit n (drop_bit z bits)) (shift + z + n) False"
    "\<And>i. bit bits i \<longleftrightarrow> z \<le> i \<and> (i < z + n \<or> z + n \<le> i \<and> bit (drop_bit n (drop_bit z bits)) (i - (z + n)))"
proof -
  obtain z where z: "trailing_zeros bits = Some z" using assms(1) by (auto simp: trailing_zeros_def)
  note zb = trailing_zeros_Some [OF z]
  let ?m = "drop_bit z bits"
  have odd: "bit ?m 0" using zb(2) by (simp add: bit_drop_bit_eq)
  then have nz: "?m \<noteq> 0" by auto
  have "?m \<noteq> - 1"
  proof
    assume a: "?m = - 1"
    have "bit ?m i \<Longrightarrow> z + i < 64" for i using bit_imp_le_length [of bits "z + i"] by (simp add: bit_drop_bit_eq)
    from this [of 63] a have "z = 0" by simp
    with a assms(2) show False by simp
  qed
  then have "NOT ?m \<noteq> 0" by (metis bit.double_compl bit.compl_zero)
  then obtain n where n: "trailing_zeros (NOT ?m) = Some n" by (auto simp: trailing_zeros_def)
  note nb = trailing_zeros_Some [OF n]
  have pos: "n \<noteq> 0" using odd nb(2) by (metis bit_not_iff)
  have e: "shift + z = shift + z + n - 1 \<longleftrightarrow> n = 1" using pos by auto
  have "bit ?m i" if "i < n" for i using nb(3) [OF that] nb(1) that by (simp add: bit_not_iff)
  note ones = this
  have "drop_bit n ?m \<noteq> - 1"
  proof
    assume "drop_bit n ?m = - 1"
    then have "bit (drop_bit n ?m) 63" by simp
    then have "bit bits (z + (n + 63))" by (simp add: bit_drop_bit_eq ac_simps)
    with pos show False using bit_imp_le_length [of bits "z + (n + 63)"] by simp
  qed
  moreover have "bit bits i \<longleftrightarrow> z \<le> i \<and> (i < z + n \<or> z + n \<le> i \<and> bit (drop_bit n ?m) (i - (z + n)))" for i
  proof (cases "z \<le> i")
    case True
    then have i: "bit bits i = bit ?m (i - z)" by (simp add: bit_drop_bit_eq)
    show ?thesis
    proof (cases "i < z + n")
      case l: True
      then show ?thesis using True i ones [of "i - z"] by simp
    next
      case False
      then have "z + (n + (i - (z + n))) = i" using True by simp
      then show ?thesis using True False by (simp add: bit_drop_bit_eq)
    qed
  next
    case False
    then show ?thesis using zb(3) [of i] by simp
  qed
  moreover have "encode_ranges chunks bits shift first =
       encode_ranges (chunks @ [(if first then [] else '','') @ show_range (shift + z) (shift + z + n - 1)])
         (drop_bit n ?m) (shift + z + n) False"
    using assms(1) nz z n nb(1) pos e
    by (subst encode_ranges.simps) (simp del: One_nat_def drop_bit_drop_bit add: Let_def smartlist_add_def show_range_def)
  ultimately show ?thesis using that [of n z] zb(1) pos by blast
qed

definition range_char :: "char \<Rightarrow> bool" where
  "range_char c \<longleftrightarrow> TOR_ISDIGIT c \<or> c \<in> {CHR '','', CHR ''-''}"

lemma show_range_chars: "c \<in> set (show_range low high) \<Longrightarrow> TOR_ISDIGIT c \<or> c = CHR ''-''"
  by (auto simp: show_range_def dest: show_dec_digits split: if_splits)

lemma show_range_no_comma: "CHR '','' \<notin> set (show_range low high)"
  using show_range_chars [of "CHR '',''" low high] by (auto simp: TOR_ISDIGIT_def)

lemma show_range_nonempty: "show_range low high \<noteq> []"
  by (simp add: show_range_def show_dec_nonempty)

lemma encode_ranges_parse:
  assumes "bits \<noteq> - 1" "\<forall>i. bit bits i \<longrightarrow> shift + i < 64"
  shows "\<exists>cs w. encode_ranges chunks bits shift first = Some (chunks @ cs)
      \<and> concat cs = (if first \<or> bits = 0 then w else CHR '','' # w) \<and> (w = [] \<longleftrightarrow> bits = 0) \<and> list_all range_char w
      \<and> (\<forall>m rest. (rest = [] \<or> hd rest = CHR '' '') \<longrightarrow> ranges_loop (w @ rest) (length w) m = Some (m OR push_bit shift bits))"
  using assms
proof (induction "unat bits" arbitrary: bits shift first chunks rule: less_induct)
  case less
  show ?case
  proof (cases "bits = 0")
    case True
    then show ?thesis
      by (intro exI [of _ "[]"]) (subst encode_ranges.simps, simp add: ranges_loop.simps [of _ 0])
  next
    case False
    obtain z n where
      n: "0 < n" "z < 64" and m: "drop_bit n (drop_bit z bits) \<noteq> - 1"
      and enc: "encode_ranges chunks bits shift first =
         encode_ranges (chunks @ [(if first then [] else '','') @ show_range (shift + z) (shift + z + n - 1)])
           (drop_bit n (drop_bit z bits)) (shift + z + n) False"
      and b: "\<And>i. bit bits i \<longleftrightarrow> z \<le> i \<and> (i < z + n \<or> z + n \<le> i \<and> bit (drop_bit n (drop_bit z bits)) (i - (z + n)))"
      by (rule encode_step [OF False less.prems(1), of chunks shift first]) (rule that)
    define d where "d = drop_bit n (drop_bit z bits)"
    note m = m [folded d_def] and enc = enc [folded d_def] and b = b [folded d_def]
    let ?r = "show_range (shift + z) (shift + z + n - 1)" and ?pre = "if first then [] else '',''"
    have "unat bits \<noteq> 0" using False by (simp add: unat_eq_0)
    moreover have "unat d = unat bits div 2 ^ z div 2 ^ n" by (simp only: d_def unat_drop_bit)
    moreover have "unat bits div 2 ^ z \<le> unat bits" by (rule div_le_dividend)
    moreover have "(1::nat) < 2 ^ n" using n(1) one_less_power [of "2::nat" n] by (simp del: One_nat_def)
    ultimately have lt: "unat d < unat bits"
      by (metis div_less_dividend div_0 gr0I order_less_le_trans)
    have "\<forall>i. bit d i \<longrightarrow> shift + z + n + i < 64"
    proof (intro allI impI)
      fix i assume "bit d i"
      then have "bit bits (i + (z + n))" by (simp add: b)
      then show "shift + z + n + i < 64" using less.prems(2) [rule_format, of "i + (z + n)"] by simp
    qed
    from less.hyps [OF lt m this, of "chunks @ [?pre @ ?r]" False] obtain cs w where
      e: "encode_ranges (chunks @ [?pre @ ?r]) d (shift + z + n) False = Some ((chunks @ [?pre @ ?r]) @ cs)"
      and c: "concat cs = (if False \<or> d = 0 then w else CHR '','' # w)" and w: "w = [] \<longleftrightarrow> d = 0" "list_all range_char w"
      and p: "\<forall>m rest. (rest = [] \<or> hd rest = CHR '' '') \<longrightarrow>
         ranges_loop (w @ rest) (length w) m = Some (m OR push_bit (shift + z + n) d)"
      by (elim exE conjE) (rule that)
    let ?w = "?r @ (if d = 0 then [] else CHR '','' # w)"
    have "bit bits (z + n - 1)" using n(1) by (subst b) simp
    then have "shift + (z + n - 1) < 64" using less.prems(2) by blast
    then have hi: "shift + z + n - 1 \<le> 63" using n(1) by linarith
    have lo: "shift + z \<le> shift + z + n - 1" using n(1) by simp
    from bitmask_bits [OF lo hi] obtain msk where
      msk: "bitmask_for_range (shift + z) (shift + z + n - 1) = Some msk"
        "\<And>i. bit msk i \<longleftrightarrow> shift + z \<le> i \<and> i \<le> shift + z + n - 1" by blast
    have split: "push_bit shift bits = msk OR push_bit (shift + z + n) d"
    proof (rule bit_word_eqI)
      fix i assume "i < LENGTH(64)"
      moreover have "i - shift - (z + n) = i - (shift + z + n)" by simp
      ultimately show "bit (push_bit shift bits) i = bit (msk OR push_bit (shift + z + n) d) i"
        using n(1) by (auto simp: bit_push_bit_iff bit_or_iff msk(2) b [of "i - shift"])
    qed
    have parse: "ranges_loop (?w @ rest) (length ?w) acc = Some (acc OR push_bit shift bits)"
      if rest: "rest = [] \<or> hd rest = CHR '' ''" for acc rest
    proof (cases "d = 0")
      case True
      have "parse_version_range (?r @ rest) (length ?r) = Some (shift + z, shift + z + n - 1)"
        using rest by (intro parse_show_range [OF lo hi]) (auto simp: ends_range_def)
      moreover have "memchr ?r (CHR '','') = None" using show_range_no_comma by (simp add: memchr_None)
      ultimately show ?thesis using True msk(1) split show_range_nonempty
        by (subst ranges_loop.simps) (simp add: Let_def ranges_loop.simps [of _ 0])
    next
      case False
      have "parse_version_range (?r @ CHR '','' # w @ rest) (length ?r) = Some (shift + z, shift + z + n - 1)"
        by (intro parse_show_range [OF lo hi]) (auto simp: ends_range_def)
      moreover have "memchr (?r @ CHR '','' # w) (CHR '','') = Some (length ?r)"
        using show_range_no_comma by (rule memchr_append)
      ultimately show ?thesis using False msk(1) split show_range_nonempty w(1) p [rule_format, OF rest]
        by (subst ranges_loop.simps) (simp add: Let_def or.assoc)
    qed
    have "list_all range_char ?w" using w(2) by (auto simp: list_all_iff range_char_def dest: show_range_chars)
    moreover have "concat (( ?pre @ ?r) # cs) = (if first then ?w else CHR '','' # ?w)" using c w(1) by simp
    ultimately show ?thesis using False parse e show_range_nonempty
      by (intro exI [of _ "(?pre @ ?r) # cs"] exI [of _ ?w]) (simp add: enc)
  qed
qed

lemma encode_full: "encode_ranges chunks (- 1) 0 True = None"
proof -
  have "trailing_zeros (- 1) = Some 0" by (simp add: trailing_zeros_def upt_rec)
  moreover have "trailing_zeros 0 = None" by (simp add: trailing_zeros_def)
  ultimately show ?thesis by (subst encode_ranges.simps) simp
qed

section \<open>Lists of entries\<close>

definition keyword_char :: "char \<Rightarrow> bool" where
  "keyword_char c \<longleftrightarrow> TOR_ISALNUM c \<or> c = CHR ''-''"

definition name_ok :: "string \<Rightarrow> bool" where
  "name_ok name \<longleftrightarrow> name \<noteq> [] \<and> length name \<le> MAX_PROTOCOL_NAME_LENGTH \<and> list_all keyword_char name"

lemma keyword_special: "\<not> keyword_char (CHR ''='')" "\<not> keyword_char (CHR '' '')"
  by (simp_all add: keyword_char_def) code_simp+

lemma name_ok_chars:
  assumes "name_ok name"
  shows "CHR ''='' \<notin> set name" "CHR '' '' \<notin> set name" "name \<noteq> []"
  using assms keyword_special by (auto simp: name_ok_def list_all_iff)

text \<open>Whatever parses has good names.\<close>

lemma parse_entry_name: "parse_single_entry s e = Some ent \<Longrightarrow> name_ok (pe_name ent)"
  by (auto simp: parse_single_entry_def name_ok_def is_valid_keyword_def keyword_char_def list_all_iff Let_def
      split: option.splits if_splits bind_splits dest: memchr_Some)

lemma list_loop_names:
  "list_loop s es = Some r \<Longrightarrow> \<forall>e \<in> set es. name_ok (pe_name e) \<Longrightarrow> \<forall>e \<in> set r. name_ok (pe_name e)"
proof (induction s es rule: list_loop.induct)
  case (1 s es)
  show ?case
  proof (cases "s = []")
    case True
    with 1 show ?thesis by (simp add: list_loop.simps)
  next
    case False
    define n where "n = (case memchr s (CHR '' '') of Some i \<Rightarrow> i | None \<Rightarrow> length s)"
    show ?thesis
    proof (cases "parse_single_entry s n")
      case None
      with 1 False show ?thesis by (subst (asm) list_loop.simps) (simp add: n_def Let_def)
    next
      case (Some ent)
      have "list_loop (dropWhile (\<lambda>c. c = CHR '' '') (drop n s)) (smartlist_add es ent) = Some r"
        using "1.prems"(1) False Some by (subst (asm) list_loop.simps) (simp add: n_def Let_def)
      moreover have "\<forall>e \<in> set (smartlist_add es ent). name_ok (pe_name e)"
        using "1.prems"(2) parse_entry_name [OF Some] by (auto simp: smartlist_add_def)
      ultimately show ?thesis using "1.IH" [OF False n_def Some] by blast
    qed
  qed
qed

lemma parse_names: "parse_protocol_list s = Some es \<Longrightarrow> e \<in> set es \<Longrightarrow> name_ok (pe_name e)"
  using list_loop_names [of s "[]" es] by (auto simp: parse_protocol_list_def)

text \<open>The chunks of one entry, and parsing them.\<close>

lemma encode_entry:
  assumes "name_ok (pe_name ent)" "pe_bitmask ent \<noteq> - 1"
  shows "\<exists>cs. proto_entry_encode_into chunks ent = Some (chunks @ cs)
     \<and> CHR '' '' \<notin> set (concat cs) \<and> (\<exists>c t. concat cs = c # t \<and> c \<noteq> CHR '' '')
     \<and> (\<forall>rest. (rest = [] \<or> hd rest = CHR '' '') \<longrightarrow>
          parse_single_entry (concat cs @ rest) (length (concat cs)) = Some ent)"
proof -
  let ?n = "pe_name ent"
  have "\<forall>i. bit (pe_bitmask ent) i \<longrightarrow> 0 + i < 64" using bit_imp_le_length [of "pe_bitmask ent"] by auto
  from encode_ranges_parse [OF assms(2) this, of "chunks @ [?n @ ''='']" True] obtain cs w where
    e: "encode_ranges (chunks @ [?n @ ''='']) (pe_bitmask ent) 0 True = Some ((chunks @ [?n @ ''='']) @ cs)"
    and w: "concat cs = (if True \<or> pe_bitmask ent = 0 then w else CHR '','' # w)" "list_all range_char w"
    and p: "\<forall>m rest. (rest = [] \<or> hd rest = CHR '' '') \<longrightarrow>
         ranges_loop (w @ rest) (length w) m = Some (m OR push_bit 0 (pe_bitmask ent))"
    by (elim exE conjE) (rule that)
  let ?cs = "(?n @ ''='') # cs"
  have no_space: "CHR '' '' \<notin> set w"
    using w(2) by (auto simp: list_all_iff range_char_def TOR_ISDIGIT_def)
  have "parse_single_entry (concat ?cs @ rest) (length (concat ?cs)) = Some ent"
    if "rest = [] \<or> hd rest = CHR '' ''" for rest
  proof -
    have "memchr (?n @ CHR ''='' # w) (CHR ''='') = Some (length ?n)"
      using name_ok_chars(1) [OF assms(1)] by (rule memchr_append)
    then show ?thesis using assms(1) p [rule_format, OF that, of 0] name_ok_chars(3) [OF assms(1)] w(1)
      by (simp add: parse_single_entry_def is_valid_keyword_def name_ok_def keyword_char_def [abs_def])
  qed
  moreover have "CHR '' '' \<notin> set (concat ?cs)" using no_space name_ok_chars(2) [OF assms(1)] w(1) by simp
  moreover have "\<exists>c t. concat ?cs = c # t \<and> c \<noteq> CHR '' ''"
    using name_ok_chars(2,3) [OF assms(1)] by (cases ?n) auto
  moreover have "proto_entry_encode_into chunks ent = Some (chunks @ ?cs)"
    using e by (simp add: proto_entry_encode_into_def smartlist_add_def)
  ultimately show ?thesis by (intro exI [of _ ?cs]) blast
qed

text \<open>A list of entries: all after the first come behind a space.\<close>

lemma parse_entries_step:
  assumes "parse_single_entry (e @ rest) (length e) = Some ent" "CHR '' '' \<notin> set e" "e \<noteq> []"
    and "rest = [] \<or> hd rest = CHR '' ''"
  shows "list_loop (e @ rest) es = list_loop (dropWhile (\<lambda>c. c = CHR '' '') rest) (es @ [ent])"
proof -
  have "(case memchr (e @ rest) (CHR '' '') of Some i \<Rightarrow> i | None \<Rightarrow> length (e @ rest)) = length e"
  proof (cases rest)
    case Nil
    with assms(2) show ?thesis using memchr_None [of e "CHR '' ''"] by simp
  next
    case (Cons c t)
    with assms(4) show ?thesis using memchr_append [OF assms(2), of t] by simp
  qed
  then show ?thesis using assms(1,3) by (subst list_loop.simps) (simp add: Let_def smartlist_add_def)
qed

lemma encode_entries_parse:
  assumes "\<forall>e \<in> set sl. name_ok (pe_name e) \<and> pe_bitmask e \<noteq> - 1"
    and "separator = [] \<or> separator = '' ''"
  shows "\<exists>cs. encode_entries chunks separator sl = Some (chunks @ cs)
     \<and> (concat cs = [] \<or> separator = [] \<or> hd (concat cs) = CHR '' '')
     \<and> (separator = [] \<longrightarrow> dropWhile (\<lambda>c. c = CHR '' '') (concat cs) = concat cs)
     \<and> (\<forall>es. list_loop (dropWhile (\<lambda>c. c = CHR '' '') (concat cs)) es = Some (es @ sl))"
  using assms
proof (induction sl arbitrary: chunks separator)
  case Nil
  then show ?case by (simp add: list_loop.simps)
next
  case (Cons ent sl)
  from Cons.prems(1) have ok: "name_ok (pe_name ent)" "pe_bitmask ent \<noteq> - 1"
    and oks: "\<forall>e \<in> set sl. name_ok (pe_name e) \<and> pe_bitmask e \<noteq> - 1" by auto
  from encode_entry [OF ok, of "chunks @ [separator]"] obtain cs where
    enc: "proto_entry_encode_into (chunks @ [separator]) ent = Some ((chunks @ [separator]) @ cs)"
    and sp: "CHR '' '' \<notin> set (concat cs)" and ne: "\<exists>c t. concat cs = c # t \<and> c \<noteq> CHR '' ''"
    and one: "\<forall>rest. (rest = [] \<or> hd rest = CHR '' '') \<longrightarrow>
        parse_single_entry (concat cs @ rest) (length (concat cs)) = Some ent"
    by blast
  have "'' '' = [] \<or> '' '' = '' ''" by simp
  from Cons.IH [OF oks this, of "(chunks @ [separator]) @ cs"] obtain cs' where
    rest: "encode_entries ((chunks @ [separator]) @ cs) '' '' sl = Some (((chunks @ [separator]) @ cs) @ cs')"
      "concat cs' = [] \<or> hd (concat cs') = CHR '' ''"
      "\<forall>es. list_loop (dropWhile (\<lambda>c. c = CHR '' '') (concat cs')) es = Some (es @ sl)"
    by auto
  let ?cs = "separator # cs @ cs'"
  have "encode_entries chunks separator (ent # sl) = Some (chunks @ ?cs)"
    using enc rest(1) by (simp add: smartlist_add_def)
  moreover have "dropWhile (\<lambda>c. c = CHR '' '') (concat ?cs) = concat cs @ concat cs'"
    using ne Cons.prems(2) by auto
  moreover have "list_loop (concat cs @ concat cs') es = Some (es @ ent # sl)" for es
  proof -
    have "concat cs \<noteq> []" using ne by (metis neq_Nil_conv)
    from parse_entries_step [OF one [rule_format, OF rest(2)] sp this rest(2), of es] rest(3) show ?thesis by simp
  qed
  moreover have "separator = [] \<longrightarrow> dropWhile (\<lambda>c. c = CHR '' '') (concat ?cs) = concat ?cs" using ne by auto
  moreover have "separator = [] \<or> hd (concat ?cs) = CHR '' ''" using Cons.prems(2) by auto
  ultimately show ?case by (intro exI [of _ ?cs]) (simp del: encode_entries.simps concat.simps)
qed

lemma join_concat: "join_loop dst sl [] = dst @ concat sl"
proof (induction dst sl "[] :: string" rule: join_loop.induct)
  case (3 dst s t sl)
  then show ?case by simp
qed simp_all

lemma encode_list_parse:
  assumes "\<forall>e \<in> set sl. name_ok (pe_name e) \<and> pe_bitmask e \<noteq> - 1"
  shows "\<exists>s. encode_protocol_list sl = Some s \<and> parse_protocol_list s = Some sl"
proof -
  have "[] = [] \<or> [] = '' ''" by simp
  from encode_entries_parse [OF assms this, of "[]"] obtain cs where
    cs: "encode_entries [] [] sl = Some cs" "dropWhile (\<lambda>c. c = CHR '' '') (concat cs) = concat cs"
      "\<And>es. list_loop (dropWhile (\<lambda>c. c = CHR '' '') (concat cs)) es = Some (es @ sl)" by auto
  then show ?thesis
    by (simp add: encode_protocol_list_def parse_protocol_list_def smartlist_join_strings2_def join_concat)
qed

lemma encode_list_full:
  "(\<exists>e \<in> set sl. pe_bitmask e = - 1) \<Longrightarrow> encode_entries chunks separator sl = None"
proof (induction sl arbitrary: chunks separator)
  case (Cons ent sl)
  show ?case
  proof (cases "pe_bitmask ent = - 1")
    case True
    then show ?thesis by (simp add: proto_entry_encode_into_def encode_full)
  next
    case False
    with Cons show ?thesis by (auto split: bind_splits)
  qed
qed simp

section \<open>Counting votes\<close>

text \<open>As everywhere in the code, the first entry of a name counts.\<close>

definition lists_version :: "proto_entry list \<Rightarrow> string \<Rightarrow> nat \<Rightarrow> bool" where
  "lists_version es name v =
     (case find_entry_by_name (Some es) name of None \<Rightarrow> False | Some ent \<Rightarrow> bit (pe_bitmask ent) v)"

definition vote_count :: "string list \<Rightarrow> string \<Rightarrow> nat \<Rightarrow> nat" where
  "vote_count votes name v =
     length (filter (\<lambda>s. case parse_protocol_list s of None \<Rightarrow> False | Some es \<Rightarrow> lists_version es name v) votes)"

lemma count_bits_nth:
  assumes "length counts = 64"
  shows "length (count_bits counts bits) = 64"
    "i < 64 \<Longrightarrow> count_bits counts bits ! i = counts ! i + (if bit bits i then 1 else 0)"
proof -
  have "length (foldl (\<lambda>counts i. if bits AND BIT i \<noteq> 0 then counts[i := counts ! i + 1] else counts) counts [0..<n]) = 64
    \<and> (\<forall>i < 64. foldl (\<lambda>counts i. if bits AND BIT i \<noteq> 0 then counts[i := counts ! i + 1] else counts) counts [0..<n] ! i
         = counts ! i + (if i < n \<and> bit bits i then 1 else 0))" if "n \<le> 64" for n
    using that
  proof (induction n)
    case 0
    then show ?case using assms by simp
  next
    case (Suc n)
    then show ?case using mask_BIT [of n bits] by (auto simp: nth_list_update less_Suc_eq)
  qed
  from this [of 64] show "length (count_bits counts bits) = 64"
    "i < 64 \<Longrightarrow> count_bits counts bits ! i = counts ! i + (if bit bits i then 1 else 0)"
    by (simp_all add: count_bits_def)
qed

lemma count_votes_nth:
  "length (count_votes parsed name) = 64"
  "i < 64 \<Longrightarrow> count_votes parsed name ! i = of_nat (length (filter (\<lambda>es. lists_version es name i) parsed))"
proof -
  have "length (count_votes parsed name) = 64 \<and> (\<forall>i < 64. count_votes parsed name ! i
      = of_nat (length (filter (\<lambda>es. lists_version es name i) parsed)))"
  proof (induction parsed rule: rev_induct)
    case Nil
    then show ?case by (simp add: count_votes_def)
  next
    case (snoc es parsed)
    have "count_votes (parsed @ [es]) name = (case find_entry_by_name (Some es) name of
        None \<Rightarrow> count_votes parsed name | Some ent \<Rightarrow> count_bits (count_votes parsed name) (pe_bitmask ent))"
      by (simp add: count_votes_def split: option.split)
    with snoc show ?case
      by (auto simp: count_bits_nth lists_version_def split: option.splits)
  qed
  then show "length (count_votes parsed name) = 64"
    "i < 64 \<Longrightarrow> count_votes parsed name ! i = of_nat (length (filter (\<lambda>es. lists_version es name i) parsed))" by blast+
qed

lemma result_mask_bit: "bit (result_mask counts t) i \<longleftrightarrow> i < 64 \<and> t \<le> uint (counts ! i)"
proof -
  have "bit (foldl (\<lambda>m i. if uint (counts ! i) \<ge> t then m OR BIT i else m) 0 [0..<n]) i
      \<longleftrightarrow> i < n \<and> t \<le> uint (counts ! i)" if "n \<le> 64" for n
    using that by (induction n) (auto simp: bit_or_iff bit_BIT less_Suc_eq)
  from this [of 64] show ?thesis by (simp add: result_mask_def)
qed

text \<open>Every counter is a number of votes; with fewer than 256 of them it does not wrap around.\<close>

lemma result_mask_votes:
  assumes "length parsed < 256"
  shows "bit (result_mask (count_votes parsed name) t) i
    \<longleftrightarrow> i < 64 \<and> t \<le> int (length (filter (\<lambda>es. lists_version es name i) parsed))"
proof (cases "i < 64")
  case True
  have "length (filter (\<lambda>es. lists_version es name i) parsed) < 256"
    using assms length_filter_le [of "\<lambda>es. lists_version es name i" parsed] by linarith
  then have "uint (count_votes parsed name ! i) = int (length (filter (\<lambda>es. lists_version es name i) parsed))"
    using True by (simp add: count_votes_nth unsigned_of_nat take_bit_nat_eq_self flip: of_nat_take_bit)
  then show ?thesis by (simp add: result_mask_bit)
qed (simp add: result_mask_bit)

lemma add_names_set:
  "set (add_names ns es) = set ns \<union> pe_name ` set es" "distinct ns \<Longrightarrow> distinct (add_names ns es)"
proof -
  have "set (add_names ns es) = set ns \<union> pe_name ` set es \<and> (distinct ns \<longrightarrow> distinct (add_names ns es))"
    unfolding add_names_def by (induction es arbitrary: ns) (auto simp: smartlist_add_def)
  then show "set (add_names ns es) = set ns \<union> pe_name ` set es" "distinct ns \<Longrightarrow> distinct (add_names ns es)" by blast+
qed

lemma parse_votes_spec:
  "parse_votes votes = (parsed, names) \<Longrightarrow>
     parsed = concat (map (\<lambda>v. case parse_protocol_list v of None \<Rightarrow> [] | Some es \<Rightarrow> [es]) votes) \<and> distinct names
     \<and> set names = (\<Union>es \<in> set parsed. pe_name ` set es)"
proof (induction votes arbitrary: parsed names rule: rev_induct)
  case Nil
  then show ?case by (simp add: parse_votes_def)
next
  case (snoc v votes)
  obtain p n where p: "parse_votes votes = (p, n)" by (cases "parse_votes votes")
  have "parse_votes (votes @ [v]) = (case parse_protocol_list v of
      None \<Rightarrow> (p, n) | Some es \<Rightarrow> (smartlist_add p es, add_names n es))"
    using p by (simp add: parse_votes_def)
  moreover have "set (add_names n es) = (\<Union>es \<in> set (p @ [es]). pe_name ` set es)" for es
    using snoc.IH [OF p] unfolding add_names_set by simp (simp add: Un_commute)
  ultimately show ?case
    using snoc.prems snoc.IH [OF p] add_names_set(2) [of n] by (cases "parse_protocol_list v") (simp_all add: smartlist_add_def)
qed

lemma vote_results_eq:
  "vote_results parsed names t =
     filter (\<lambda>e. pe_bitmask e \<noteq> 0)
       (map (\<lambda>n. \<lparr>pe_name = n, pe_bitmask = result_mask (count_votes parsed n) t\<rparr>) names)"
  by (induction names rule: rev_induct) (simp_all add: vote_results_def Let_def smartlist_add_def)

lemma parsed_votes:
  assumes "parse_votes votes = (parsed, names)"
  shows "length parsed \<le> length votes"
    "length (filter (\<lambda>es. lists_version es name v) parsed) = vote_count votes name v"
    "es \<in> set parsed \<Longrightarrow> e \<in> set es \<Longrightarrow> name_ok (pe_name e)"
proof -
  let ?f = "\<lambda>v. case parse_protocol_list v of None \<Rightarrow> [] | Some es \<Rightarrow> [es]"
  have p: "parsed = concat (map ?f votes)" using parse_votes_spec [OF assms] by blast
  show "length parsed \<le> length votes" unfolding p by (induction votes) (auto split: option.split)
  show "length (filter (\<lambda>es. lists_version es name v) parsed) = vote_count votes name v"
    unfolding p by (induction votes) (auto simp: vote_count_def split: option.split)
  assume "es \<in> set parsed" "e \<in> set es"
  then show "name_ok (pe_name e)" unfolding p using parse_names [of _ es e] by (auto split: option.splits)
qed

lemma lists_version_find:
  assumes "distinct (map pe_name es)" "e \<in> set es"
  shows "find_entry_by_name (Some es) (pe_name e) = Some e"
  using assms by (induction es) (auto simp: find_entry_by_name_def)

lemma lists_version_no_entry: "name \<notin> pe_name ` set es \<Longrightarrow> \<not> lists_version es name v"
  by (auto simp: lists_version_def find_entry_by_name_def find_Some_iff split: option.splits dest: nth_mem)

lemma names_of_results:
  "map pe_name (filter (\<lambda>e. pe_bitmask e \<noteq> 0) (map (\<lambda>n. \<lparr>pe_name = n, pe_bitmask = m n\<rparr>) ns)) = filter (\<lambda>n. m n \<noteq> 0) ns"
  by (induction ns) simp_all

lemma vote_count_64: "64 \<le> v \<Longrightarrow> vote_count votes name v = 0"
  by (auto simp: vote_count_def lists_version_def filter_empty_conv split: option.split dest: bit_imp_le_length)

section \<open>Properties\<close>

text \<open>C21: The encoder writes every list of entries with good names so that the parser reads the same entries
  back, unless an entry has all versions from 0 to 63: then the encoder asks for the trailing zeros of 0,
  which is undefined (the code means to test for this, but tests the mask that it has not complemented).\<close>

theorem protocol_list_roundtrip:
  assumes "\<forall>e \<in> set sl. name_ok (pe_name e)"
  shows "(encode_protocol_list sl = None \<longleftrightarrow> (\<exists>e \<in> set sl. pe_bitmask e = - 1))
    \<and> (\<forall>s. encode_protocol_list sl = Some s \<longrightarrow> parse_protocol_list s = Some sl)"
proof (cases "\<exists>e \<in> set sl. pe_bitmask e = - 1")
  case True
  then show ?thesis by (simp add: encode_protocol_list_def encode_list_full)
next
  case False
  with assms encode_list_parse [of sl] show ?thesis by auto
qed

lemma protocol_list_roundtrip_witness:
  "encode_protocol_list [\<lparr>pe_name = ''Link'', pe_bitmask = - 1\<rparr>] = None
   \<and> (\<exists>s. encode_protocol_list [\<lparr>pe_name = ''Link'', pe_bitmask = 0x38\<rparr>, \<lparr>pe_name = ''A-1'', pe_bitmask = 0\<rparr>] = Some s
       \<and> parse_protocol_list s = Some [\<lparr>pe_name = ''Link'', pe_bitmask = 0x38\<rparr>, \<lparr>pe_name = ''A-1'', pe_bitmask = 0\<rparr>])"
proof -
  have n: "name_ok ''Link''" "name_ok ''A-1''" by code_simp+
  with protocol_list_roundtrip [of "[\<lparr>pe_name = ''Link'', pe_bitmask = - 1\<rparr>]"]
    protocol_list_roundtrip [of "[\<lparr>pe_name = ''Link'', pe_bitmask = 0x38\<rparr>, \<lparr>pe_name = ''A-1'', pe_bitmask = 0\<rparr>]"]
  show ?thesis by auto
qed

text \<open>C15: The vote of fewer than 256 authorities with a positive threshold is a list that parses, sorted by
  name with no name twice and no empty entry, and it has exactly the versions that at least as many of
  the lists contain as the threshold says; lists that do not parse do not count. Only a
  protocol with all 64 versions would be undefined.\<close>

theorem protover_vote_correct:
  assumes "length votes < 256" "1 \<le> threshold" "\<forall>name. \<exists>v < 64. int (vote_count votes name v) < threshold"
  shows "\<exists>s es. protover_compute_vote votes threshold = Some s \<and> parse_protocol_list s = Some es
    \<and> sorted (map pe_name es) \<and> distinct (map pe_name es) \<and> (\<forall>e \<in> set es. pe_bitmask e \<noteq> 0)
    \<and> (\<forall>name v. lists_version es name v \<longleftrightarrow> threshold \<le> int (vote_count votes name v))"
proof -
  obtain parsed names where pv: "parse_votes votes = (parsed, names)" by (cases "parse_votes votes")
  let ?mask = "\<lambda>n. result_mask (count_votes parsed n) threshold"
  define es where "es = vote_results parsed (sort names) threshold"
  have es: "es = filter (\<lambda>e. pe_bitmask e \<noteq> 0) (map (\<lambda>n. \<lparr>pe_name = n, pe_bitmask = ?mask n\<rparr>) (sort names))"
    unfolding es_def by (rule vote_results_eq)
  have bit_mask: "bit (?mask n) v \<longleftrightarrow> v < 64 \<and> threshold \<le> int (vote_count votes n v)" for n v
    using assms(1) parsed_votes(1) [OF pv] by (simp add: result_mask_votes parsed_votes(2) [OF pv])
  have ok: "\<forall>e \<in> set es. name_ok (pe_name e) \<and> pe_bitmask e \<noteq> - 1"
  proof
    fix e assume "e \<in> set es"
    then obtain n where n: "n \<in> set names" "e = \<lparr>pe_name = n, pe_bitmask = ?mask n\<rparr>" by (auto simp: es)
    obtain v where "v < 64" "\<not> bit (?mask n) v" using assms(3) bit_mask by (meson not_le)
    then have "?mask n \<noteq> - 1" by auto
    moreover have "name_ok n" using n(1) parse_votes_spec [OF pv] parsed_votes(3) [OF pv] by auto
    ultimately show "name_ok (pe_name e) \<and> pe_bitmask e \<noteq> - 1" using n(2) by simp
  qed
  have names: "map pe_name es = filter (\<lambda>n. ?mask n \<noteq> 0) (sort names)"
    unfolding es by (rule names_of_results)
  then have order: "sorted (map pe_name es)" "distinct (map pe_name es)"
    using parse_votes_spec [OF pv] by (auto intro: sorted_wrt_filter)
  have "lists_version es name v \<longleftrightarrow> threshold \<le> int (vote_count votes name v)" for name v
  proof (cases "name \<in> pe_name ` set es")
    case True
    then obtain e where e: "e \<in> set es" "name = pe_name e" by blast
    then have "pe_bitmask e = ?mask name" by (auto simp: es)
    then show ?thesis using vote_count_64 [of v votes name] lists_version_find [OF order(2) e(1)] e(2) bit_mask [of name v] assms(2)
      by (cases "v < 64") (auto simp: lists_version_def)
  next
    case False
    have "\<not> threshold \<le> int (vote_count votes name v)"
    proof (cases "name \<in> set names")
      case True
      with False names have "?mask name = 0" by (metis (mono_tags, lifting) list.set_map mem_Collect_eq set_filter set_sort)
      then have "v < 64 \<Longrightarrow> ?thesis" using bit_mask [of name v] by simp
      then show ?thesis using vote_count_64 [of v votes name] assms(2) by linarith
    next
      case False
      then have "filter (\<lambda>es. lists_version es name v) parsed = []"
        using parse_votes_spec [OF pv] lists_version_no_entry by (auto simp: filter_empty_conv)
      with parsed_votes(2) [OF pv, of name v] assms(2) show ?thesis by simp
    qed
    then show ?thesis using lists_version_no_entry [OF False] by blast
  qed
  moreover have "protover_compute_vote votes threshold = encode_protocol_list es"
  proof (cases "votes = []")
    case True
    with pv have "es = []" by (simp add: es_def parse_votes_def vote_results_def)
    with True show ?thesis by (simp add: protover_compute_vote_def encode_protocol_list_def smartlist_join_strings2_def)
  qed (use assms(1) pv in \<open>simp add: protover_compute_vote_def es_def\<close>)
  moreover have "\<forall>e \<in> set es. pe_bitmask e \<noteq> 0" by (auto simp: es)
  ultimately show ?thesis using encode_list_parse [OF ok] order by auto
qed

lemma protover_vote_witness:
  "\<exists>s es. protover_compute_vote [''Link=3-5 Relay=2'', ''Relay=1-2 Link=4'', ''?''] 2 = Some s \<and> parse_protocol_list s = Some es
    \<and> lists_version es ''Link'' 4 \<and> \<not> lists_version es ''Link'' 3"
proof -
  let ?votes = "[''Link=3-5 Relay=2'', ''Relay=1-2 Link=4'', ''?'']"
  have p: "parse_protocol_list ''Link=3-5 Relay=2'' = Some [\<lparr>pe_name = ''Link'', pe_bitmask = 0x38\<rparr>, \<lparr>pe_name = ''Relay'', pe_bitmask = 4\<rparr>]"
    "parse_protocol_list ''Relay=1-2 Link=4'' = Some [\<lparr>pe_name = ''Relay'', pe_bitmask = 6\<rparr>, \<lparr>pe_name = ''Link'', pe_bitmask = 16\<rparr>]"
    "parse_protocol_list ''?'' = None" by code_simp+
  have "int (vote_count ?votes name 0) < 2" for name
    by (simp add: vote_count_def p lists_version_def find_entry_by_name_def)
  then have "\<forall>name. \<exists>v < 64. int (vote_count ?votes name v) < 2" by (intro allI exI [of _ 0]) simp
  with protover_vote_correct [of ?votes 2] obtain s es where
    "protover_compute_vote ?votes 2 = Some s" "parse_protocol_list s = Some es"
    "\<forall>name v. lists_version es name v \<longleftrightarrow> 2 \<le> int (vote_count ?votes name v)" by auto
  moreover have "vote_count ?votes ''Link'' 4 = 2" "vote_count ?votes ''Link'' 3 = 1"
    by (simp_all add: vote_count_def p lists_version_def find_entry_by_name_def bit_numeral_word_iff)
  ultimately show ?thesis by auto
qed

lemma missing_entries_eq:
  "missing_entries ours acc es = acc @ filter (\<lambda>e. pe_bitmask e \<noteq> 0)
     (map (\<lambda>e. \<lparr>pe_name = pe_name e, pe_bitmask = pe_bitmask e AND NOT (case find_entry_by_name ours (pe_name e) of
         None \<Rightarrow> 0 | Some mine \<Rightarrow> pe_bitmask mine)\<rparr>) es)"
  by (induction es arbitrary: acc) (auto simp: smartlist_add_def Let_def split: option.split)

definition supported_version :: "string \<Rightarrow> nat \<Rightarrow> bool" where
  "supported_version name v =
     (case get_supported_protocol_list of None \<Rightarrow> False | Some ours \<Rightarrow> lists_version ours name v)"

lemma missing_mask_bit:
  "bit (pe_bitmask e AND NOT (case find_entry_by_name get_supported_protocol_list (pe_name e) of
         None \<Rightarrow> 0 | Some mine \<Rightarrow> pe_bitmask mine)) v
   \<longleftrightarrow> bit (pe_bitmask e) v \<and> \<not> supported_version (pe_name e) v"
proof -
  have "find_entry_by_name None n = None" for n by (simp add: find_entry_by_name_def)
  then show ?thesis
    by (auto simp: supported_version_def lists_version_def bit_and_iff bit_not_iff split: option.split
        dest: bit_imp_le_length)
qed

lemma supported_list: "get_supported_protocol_list = Some
  [\<lparr>pe_name = ''Conflux'', pe_bitmask = 2\<rparr>, \<lparr>pe_name = ''Cons'', pe_bitmask = 6\<rparr>, \<lparr>pe_name = ''Desc'', pe_bitmask = 0x1e\<rparr>,
   \<lparr>pe_name = ''DirCache'', pe_bitmask = 4\<rparr>, \<lparr>pe_name = ''FlowCtrl'', pe_bitmask = 6\<rparr>, \<lparr>pe_name = ''HSDir'', pe_bitmask = 4\<rparr>,
   \<lparr>pe_name = ''HSIntro'', pe_bitmask = 0x30\<rparr>, \<lparr>pe_name = ''HSRend'', pe_bitmask = 6\<rparr>, \<lparr>pe_name = ''Link'', pe_bitmask = 0x38\<rparr>,
   \<lparr>pe_name = ''LinkAuth'', pe_bitmask = 8\<rparr>, \<lparr>pe_name = ''Microdesc'', pe_bitmask = 0xe\<rparr>, \<lparr>pe_name = ''Padding'', pe_bitmask = 4\<rparr>,
   \<lparr>pe_name = ''Relay'', pe_bitmask = 0x7c\<rparr>]"
  by code_simp

text \<open>C20: A list that a consensus requires is found to be supported exactly when each version in it is
  supported here, and otherwise the list of what is missing has exactly the versions that are not.\<close>

theorem protover_all_supported_exact:
  assumes "parse_protocol_list s = Some es" "\<forall>e \<in> set es. pe_bitmask e \<noteq> - 1"
  shows "\<exists>missing out. protover_all_supported (Some s) want = Some (missing = [], out)
    \<and> (out = None \<longleftrightarrow> missing = [] \<or> \<not> want) \<and> (\<forall>m. out = Some m \<longrightarrow> parse_protocol_list m = Some missing)
    \<and> (\<forall>name v. (\<exists>e \<in> set missing. pe_name e = name \<and> bit (pe_bitmask e) v)
          \<longleftrightarrow> (\<exists>e \<in> set es. pe_name e = name \<and> bit (pe_bitmask e) v \<and> \<not> supported_version name v))
    \<and> (missing = [] \<longleftrightarrow> (\<forall>e \<in> set es. \<forall>v. bit (pe_bitmask e) v \<longrightarrow> supported_version (pe_name e) v))"
proof -
  define unmet where "unmet e = pe_bitmask e AND NOT (case find_entry_by_name get_supported_protocol_list (pe_name e) of
         None \<Rightarrow> 0 | Some mine \<Rightarrow> pe_bitmask mine)" for e :: proto_entry
  define missing where "missing = missing_entries get_supported_protocol_list [] es"
  have missing: "missing = filter (\<lambda>e. pe_bitmask e \<noteq> 0) (map (\<lambda>e. \<lparr>pe_name = pe_name e, pe_bitmask = unmet e\<rparr>) es)"
    by (simp add: missing_def missing_entries_eq unmet_def)
  have unmet_bit: "bit (unmet e) v \<longleftrightarrow> bit (pe_bitmask e) v \<and> \<not> supported_version (pe_name e) v" for e v
    unfolding unmet_def by (rule missing_mask_bit)
  have nonzero: "unmet e = 0 \<longleftrightarrow> (\<forall>v. bit (pe_bitmask e) v \<longrightarrow> supported_version (pe_name e) v)" for e
    using bit_word_eqI [of "unmet e" 0] unmet_bit [of e] by auto
  have "unmet e \<noteq> - 1" if "e \<in> set es" for e
  proof
    assume "unmet e = - 1"
    then have "bit (pe_bitmask e) i" if "i < LENGTH(64)" for i using that unmet_bit [of e i] by simp
    then have "pe_bitmask e = - 1" by (intro bit_word_eqI) simp
    with assms(2) that show False by blast
  qed
  then have ok: "\<forall>e \<in> set missing. name_ok (pe_name e) \<and> pe_bitmask e \<noteq> - 1"
    using parse_names [OF assms(1)] by (auto simp: missing)
  have bits: "(\<exists>e \<in> set missing. pe_name e = name \<and> bit (pe_bitmask e) v)
      \<longleftrightarrow> (\<exists>e \<in> set es. pe_name e = name \<and> bit (pe_bitmask e) v \<and> \<not> supported_version name v)" for name v
  proof -
    have "(\<exists>e \<in> set missing. pe_name e = name \<and> bit (pe_bitmask e) v)
        \<longleftrightarrow> (\<exists>e \<in> set es. unmet e \<noteq> 0 \<and> pe_name e = name \<and> bit (unmet e) v)" by (auto simp: missing)
    also have "\<dots> \<longleftrightarrow> (\<exists>e \<in> set es. pe_name e = name \<and> bit (unmet e) v)" by (metis bit_0_eq bot_apply bot_bool_def)
    finally show ?thesis using unmet_bit by auto
  qed
  have empty: "missing = [] \<longleftrightarrow> (\<forall>e \<in> set es. \<forall>v. bit (pe_bitmask e) v \<longrightarrow> supported_version (pe_name e) v)"
    by (simp add: missing filter_empty_conv nonzero)
  from encode_list_parse [OF ok] obtain m where m: "encode_protocol_list missing = Some m" "parse_protocol_list m = Some missing"
    by blast
  have "protover_all_supported (Some s) want = Some (missing = [], if missing = [] \<or> \<not> want then None else Some m)"
    using m(1) by (simp add: protover_all_supported_def assms(1) missing_def [symmetric] Let_def)
  then show ?thesis using m(2) bits empty
    by (intro exI [of _ missing] exI [of _ "if missing = [] \<or> \<not> want then None else Some m"]) simp
qed

lemma protover_all_supported_exact_witness:
  "\<exists>out. protover_all_supported (Some ''Link=4-9'') True = Some (False, Some out)
     \<and> (\<exists>missing. parse_protocol_list out = Some missing \<and> (\<exists>e \<in> set missing. pe_name e = ''Link'' \<and> bit (pe_bitmask e) 9))"
proof -
  have a: "parse_protocol_list ''Link=4-9'' = Some [\<lparr>pe_name = ''Link'', pe_bitmask = 0x3f0\<rparr>]" by code_simp
  have b: "\<not> supported_version ''Link'' 9"
    by (simp add: supported_version_def supported_list lists_version_def find_entry_by_name_def bit_numeral_word_iff)
  have c: "bit (0x3f0 :: 64 word) 9" by (simp add: bit_numeral_word_iff)
  from protover_all_supported_exact [OF a, of True] obtain missing out where
    r: "protover_all_supported (Some ''Link=4-9'') True = Some (missing = [], out)"
    and o: "out = None \<longleftrightarrow> missing = [] \<or> \<not> True" "\<forall>m. out = Some m \<longrightarrow> parse_protocol_list m = Some missing"
    and m: "\<forall>name v. (\<exists>e \<in> set missing. pe_name e = name \<and> bit (pe_bitmask e) v)
        \<longleftrightarrow> (\<exists>e \<in> set [\<lparr>pe_name = ''Link'', pe_bitmask = 0x3f0\<rparr>]. pe_name e = name \<and> bit (pe_bitmask e) v \<and> \<not> supported_version name v)"
    by auto
  have e: "\<exists>e \<in> set missing. pe_name e = ''Link'' \<and> bit (pe_bitmask e) 9" using m b c by simp
  then have "missing \<noteq> []" by auto
  with o(1) obtain x where "out = Some x" by auto
  with r o(2) e \<open>missing \<noteq> []\<close> show ?thesis by auto
qed

end
