(* ===== verification/Versions.thy ===== *)
theory Versions
  imports Protover Binascii "HOL-Library.Product_Lexorder" "HOL-Library.AList"
begin

text \<open>
  Versions of Tor, src/core/or/versions.c with the two functions on whitespace of
  src/lib/string/util_string.c: parsing and comparing versions, the status of a version with respect to a
  list of recommended ones, and the summary of a relay's protocols with its cache. A failed assertion
  is an outer \<open>None\<close>. A version that does not parse is \<open>None\<close>; what has been stored of it is never read.
\<close>

section \<open>Parsing\<close>

function eat_whitespace :: "string \<Rightarrow> string" where
  "eat_whitespace [] = []"
| "eat_whitespace (c # s) =
     (if c = CHR '' '' \<or> c = CHR 0x09 \<or> c = CHR 0x0A \<or> c = CHR 0x0D then eat_whitespace s
      else if c = CHR ''#'' then eat_whitespace (dropWhile (\<lambda>c. c \<noteq> CHR 0x0A) s)
      else c # s)"
  by pat_completeness auto
termination
  by (relation "measure length") (auto simp: le_imp_less_Suc length_dropWhile_le)

definition find_whitespace :: "string \<Rightarrow> string" where
  "find_whitespace s = dropWhile (\<lambda>c. c \<notin> {CHR ''#'', CHR '' '', CHR 0x0D, CHR 0x0A, CHR 0x09}) s"

datatype release_status = VER_PRE | VER_RC | VER_RELEASE

record tor_version =
  ver_major :: int
  ver_minor :: int
  ver_micro :: int
  ver_status :: release_status
  patchlevel :: int
  status_tag :: string
  svn_revision :: int
  git_tag_len :: nat
  git_tag :: string

abbreviation MAX_STATUS_TAG_LEN :: nat where "MAX_STATUS_TAG_LEN \<equiv> 32"
abbreviation DIGEST_LEN :: nat where "DIGEST_LEN \<equiv> 20"
abbreviation HEX_DIGEST_LEN :: nat where "HEX_DIGEST_LEN \<equiv> 40"

definition tor_version_zero :: tor_version where
  "tor_version_zero = \<lparr>ver_major = 0, ver_minor = 0, ver_micro = 0, ver_status = VER_RELEASE, patchlevel = 0,
     status_tag = [], svn_revision = 0, git_tag_len = 0, git_tag = replicate DIGEST_LEN (CHR 0x00)\<rparr>"

text \<open>The macro \<open>NUMBER\<close>: the number and the rest.\<close>

definition NUMBER :: "string \<Rightarrow> (int \<times> string) option" where
  "NUMBER cp =
     (case cp of
        [] \<Rightarrow> None
      | c # _ \<Rightarrow>
          if \<not> TOR_ISDIGIT c then None
          else case tor_parse_uint64 cp 10 0 INT_MAX True of
                 (n, ok, eos) \<Rightarrow>
                   if \<not> ok then None
                   else case eos of
                          None \<Rightarrow> None
                        | Some eos \<Rightarrow> if length eos = length cp then None else Some (n, eos))"

definition DOT :: "string \<Rightarrow> string option" where
  "DOT cp = (case cp of c # cp \<Rightarrow> if c \<noteq> CHR ''.'' then None else Some cp | [] \<Rightarrow> None)"

text \<open>From the label \<open>status_tag\<close>. Converting a \<open>long\<close> to an \<open>int\<close> keeps the low 32 bits.\<close>

definition parse_revision :: "string \<Rightarrow> tor_version \<Rightarrow> tor_version option" where
  "parse_revision cp out =
     (if strcmpstart cp ''(r'' = 0 then
        Some (out\<lparr>svn_revision := signed_take_bit 31 (fst (strtol (drop 2 cp) 10))\<rparr>)
      else if strcmpstart cp ''(git-'' = 0 then
        (case memchr cp (CHR '')'') of
           None \<Rightarrow> None
         | Some close_paren \<Rightarrow>
             let cp = drop 5 cp; hexlen = close_paren - 5
             in if hexlen > HEX_DIGEST_LEN then None
                else if hexlen = 0 \<or> hexlen mod 2 = 1 then None
                else case base16_decode (hexlen div 2) (take hexlen cp) of
                       None \<Rightarrow> None
                     | Some digest \<Rightarrow>
                         if length digest \<noteq> hexlen div 2 then None
                         else Some (out\<lparr>git_tag := digest @ drop (length digest) (git_tag out), git_tag_len := hexlen div 2\<rparr>))
      else Some out)"

definition parse_status_tag :: "string \<Rightarrow> tor_version \<Rightarrow> tor_version option" where
  "parse_status_tag cp out =
     (let cp = (case cp of c # t \<Rightarrow> if c = CHR ''-'' \<or> c = CHR ''.'' then t else cp | [] \<Rightarrow> cp);
          eos = find_whitespace cp;
          tag = take (length cp - length eos) cp;
          out = out\<lparr>status_tag := (if length tag \<ge> MAX_STATUS_TAG_LEN then take (MAX_STATUS_TAG_LEN - 1) tag else tag)\<rparr>
      in parse_revision (eat_whitespace eos) out)"

definition strcasecmpstart_eq :: "string \<Rightarrow> string \<Rightarrow> bool" where
  "strcasecmpstart_eq s1 s2 \<longleftrightarrow> strcaseeq (take (length s2) s1) s2"

text \<open>What follows the micro version, and what follows the minor version, of \<open>tor_version_parse\<close>.\<close>

definition parse_patchlevel :: "string \<Rightarrow> tor_version \<Rightarrow> tor_version option" where
  "parse_patchlevel cp out =
     (if cp = [] then Some out
      else if hd cp = CHR ''-'' then parse_status_tag cp out
      else do {
        (out, cp) \<leftarrow>
          (if hd cp = CHR ''.'' then Some (out, drop 1 cp)
           else if strncmp cp ''pre'' 3 = 0 then Some (out\<lparr>ver_status := VER_PRE\<rparr>, drop 3 cp)
           else if strncmp cp ''rc'' 2 = 0 then Some (out\<lparr>ver_status := VER_RC\<rparr>, drop 2 cp)
           else None);
        (n, cp) \<leftarrow> NUMBER cp;
        parse_status_tag cp (out\<lparr>patchlevel := n\<rparr>)
      })"

definition parse_micro :: "string \<Rightarrow> tor_version \<Rightarrow> tor_version option" where
  "parse_micro cp out =
     (if cp = [] then Some out
      else if hd cp = CHR ''-'' then parse_status_tag cp out
      else do {
        cp \<leftarrow> DOT cp;
        (n, cp) \<leftarrow> NUMBER cp;
        parse_patchlevel cp (out\<lparr>ver_micro := n\<rparr>)
      })"

definition tor_version_parse :: "string \<Rightarrow> tor_version option" where
  "tor_version_parse s =
     (let out = tor_version_zero;
          s = (if strcasecmpstart_eq s ''Tor '' then drop 4 s else s)
      in do {
        (n, cp) \<leftarrow> NUMBER s;
        let out = out\<lparr>ver_major := n\<rparr>;
        cp \<leftarrow> DOT cp;
        (n, cp) \<leftarrow> NUMBER cp;
        parse_micro cp (out\<lparr>ver_minor := n\<rparr>)
      })"

text \<open>The result of \<open>tor_version_parse_platform\<close>, with the version when it is 1.\<close>

definition tor_version_parse_platform :: "string \<Rightarrow> bool \<Rightarrow> int \<times> tor_version option" where
  "tor_version_parse_platform platform strict =
     (if strcmpstart platform ''Tor '' \<noteq> 0 then (0, None)
      else let start = eat_whitespace (drop 3 platform)
           in if start = [] then (- 1, None)
              else
                let s = find_whitespace start; s2 = eat_whitespace s;
                    s = (if strcmpstart s2 ''(r'' = 0 \<or> strcmpstart s2 ''(git-'' = 0 then find_whitespace s2 else s);
                    len = length start - length s
                in if len + 1 \<ge> 128 then (- 1, None)
                   else case tor_version_parse (take len start) of
                          None \<Rightarrow> (- 1, None)
                        | Some v \<Rightarrow>
                            if strict \<and> (ver_major v < 0 \<or> ver_minor v < 0 \<or> ver_micro v < 0 \<or> patchlevel v < 0
                                          \<or> svn_revision v < 0) then (- 1, None)
                            else (1, Some v))"

section \<open>Comparing\<close>

text \<open>The macro \<open>CMP\<close> without its return: the difference is unsigned and read as signed.\<close>

definition CMP :: "int \<Rightarrow> int \<Rightarrow> int" where
  "CMP aval bval = (let result = sint (word_of_int aval - word_of_int bval :: 32 word)
                    in if result < 0 then - 1 else if result > 0 then 1 else 0)"

fun status_value :: "release_status \<Rightarrow> int" where
  "status_value VER_PRE = 0"
| "status_value VER_RC = 1"
| "status_value VER_RELEASE = 2"

text \<open>The signs of \<open>strcmp\<close> and of \<open>fast_memcmp\<close>.\<close>

definition c_strcmp :: "string \<Rightarrow> string \<Rightarrow> int" where
  "c_strcmp a b = strncmp a b (max (length a) (length b) + 1)"

definition fast_memcmp :: "string \<Rightarrow> string \<Rightarrow> nat \<Rightarrow> int" where
  "fast_memcmp a b len = c_strcmp (take len a) (take len b)"

definition tor_version_compare :: "tor_version \<Rightarrow> tor_version \<Rightarrow> int" where
  "tor_version_compare a b =
     (let i = CMP (ver_major a) (ver_major b) in if i \<noteq> 0 then i else
      let i = CMP (ver_minor a) (ver_minor b) in if i \<noteq> 0 then i else
      let i = CMP (ver_micro a) (ver_micro b) in if i \<noteq> 0 then i else
      let i = CMP (status_value (ver_status a)) (status_value (ver_status b)) in if i \<noteq> 0 then i else
      let i = CMP (patchlevel a) (patchlevel b) in if i \<noteq> 0 then i else
      let i = c_strcmp (status_tag a) (status_tag b) in if i \<noteq> 0 then i else
      let i = CMP (svn_revision a) (svn_revision b) in if i \<noteq> 0 then i else
      let i = CMP (int (git_tag_len a)) (int (git_tag_len b)) in if i \<noteq> 0 then i else
      if git_tag_len a \<noteq> 0 then fast_memcmp (git_tag a) (git_tag b) (git_tag_len a) else 0)"

definition tor_version_same_series :: "tor_version \<Rightarrow> tor_version \<Rightarrow> bool" where
  "tor_version_same_series a b \<longleftrightarrow>
     ver_major a = ver_major b \<and> ver_minor a = ver_minor b \<and> ver_micro a = ver_micro b"

definition tor_version_as_new_as :: "string \<Rightarrow> string \<Rightarrow> bool" where
  "tor_version_as_new_as platform cutoff =
     (case tor_version_parse cutoff of
        None \<Rightarrow> False
      | Some cutoff_version \<Rightarrow>
          (case tor_version_parse_platform platform False of
             (r, router_version) \<Rightarrow>
               if r = 0 then True else if r < 0 then True
               else tor_version_compare (the router_version) cutoff_version \<ge> 0))"

text \<open>Sorting a list of versions compares them so.\<close>

definition compare_tor_version_str_ptr :: "string \<Rightarrow> string \<Rightarrow> int" where
  "compare_tor_version_str_ptr a b =
     (case (tor_version_parse a, tor_version_parse b) of
        (Some va, Some vb) \<Rightarrow> tor_version_compare va vb
      | (Some _, None) \<Rightarrow> - 1
      | (None, Some _) \<Rightarrow> 1
      | (None, None) \<Rightarrow> c_strcmp a b)"

section \<open>Recommended versions\<close>

datatype version_status = VS_RECOMMENDED | VS_OLD | VS_NEW | VS_NEW_IN_SERIES | VS_UNRECOMMENDED | VS_EMPTY | VS_UNKNOWN

record found =
  found_newer :: bool
  found_older :: bool
  found_newer_in_series :: bool
  found_any_in_series :: bool

text \<open>The loop over the list; \<open>None\<close> when it has found the version.\<close>

fun obsolete_loop :: "tor_version \<Rightarrow> found \<Rightarrow> string list \<Rightarrow> found option" where
  "obsolete_loop mine f [] = Some f"
| "obsolete_loop mine f (cp # version_sl) =
     (let cp = (if strcmpstart cp ''Tor '' = 0 then drop 4 cp else cp)
      in case tor_version_parse cp of
           None \<Rightarrow> obsolete_loop mine f version_sl
         | Some other \<Rightarrow>
             let same = tor_version_same_series mine other;
                 f = (if same then f\<lparr>found_any_in_series := True\<rparr> else f);
                 r = tor_version_compare mine other
             in if r = 0 then None
                else if r < 0 then
                  let f = f\<lparr>found_newer := True\<rparr>
                  in obsolete_loop mine (if same then f\<lparr>found_newer_in_series := True\<rparr> else f) version_sl
                else obsolete_loop mine (f\<lparr>found_older := True\<rparr>) version_sl)"

definition tor_version_is_obsolete :: "string \<Rightarrow> string \<Rightarrow> version_status option" where
  "tor_version_is_obsolete myversion versionlist =
     (case tor_version_parse myversion of
        None \<Rightarrow> None
      | Some mine \<Rightarrow> do {
          (version_sl, _) \<leftarrow> smartlist_split_string [] versionlist (Some '','') SPLIT_SKIP_SPACE 0;
          if versionlist = [] then Some VS_EMPTY
          else Some (case obsolete_loop mine \<lparr>found_newer = False, found_older = False, found_newer_in_series = False,
                                               found_any_in_series = False\<rparr> version_sl of
                       None \<Rightarrow> VS_RECOMMENDED
                     | Some f \<Rightarrow>
                         if found_any_in_series f \<and> \<not> found_newer_in_series f \<and> found_newer f then VS_NEW_IN_SERIES
                         else if found_newer f \<and> \<not> found_older f then VS_OLD
                         else if found_older f \<and> \<not> found_newer f then VS_NEW
                         else VS_UNRECOMMENDED) })"

text \<open>\<open>protover_compute_for_old_tor\<close> of src/core/or/protover.c.\<close>

definition protover_compute_for_old_tor :: "string option \<Rightarrow> string" where
  "protover_compute_for_old_tor version =
     (let version = (case version of None \<Rightarrow> ''0.2.5.15'' | Some v \<Rightarrow> v)
      in if tor_version_as_new_as version ''0.2.9.3-alpha'' then []
         else if tor_version_as_new_as version ''0.2.9.1-alpha'' then
           ''Cons=1-2 Desc=1-2 DirCache=1 HSDir=1 HSIntro=3 HSRend=1-2 Link=1-4 LinkAuth=1 Microdesc=1-2 Relay=1-2''
         else if tor_version_as_new_as version ''0.2.7.5'' then
           ''Cons=1-2 Desc=1-2 DirCache=1 HSDir=1 HSIntro=3 HSRend=1 Link=1-4 LinkAuth=1 Microdesc=1-2 Relay=1-2''
         else if tor_version_as_new_as version ''0.2.4.19'' then
           ''Cons=1 Desc=1 DirCache=1 HSDir=1 HSIntro=3 HSRend=1 Link=1-4 LinkAuth=1 Microdesc=1 Relay=1-2''
         else [])"

section \<open>The summary of a relay's protocols\<close>

record protover_summary_flags =
  protocols_known :: bool
  supports_extend2_cells :: bool
  supports_accepting_ipv6_extends :: bool
  supports_initiating_ipv6_extends :: bool
  supports_canonical_ipv6_conns :: bool
  supports_ed25519_link_handshake_compat :: bool
  supports_ed25519_link_handshake_any :: bool
  supports_ed25519_hs_intro :: bool
  supports_establish_intro_dos_extension :: bool
  supports_v3_hsdir :: bool
  supports_v3_rendezvous_point :: bool
  supports_hs_setup_padding :: bool
  supports_congestion_control :: bool
  supports_conflux :: bool
  supports_cgo :: bool
  supports_ntor_v3 :: bool

definition no_flags :: protover_summary_flags where
  "no_flags = \<lparr>protocols_known = False, supports_extend2_cells = False, supports_accepting_ipv6_extends = False,
     supports_initiating_ipv6_extends = False, supports_canonical_ipv6_conns = False,
     supports_ed25519_link_handshake_compat = False, supports_ed25519_link_handshake_any = False,
     supports_ed25519_hs_intro = False, supports_establish_intro_dos_extension = False, supports_v3_hsdir = False,
     supports_v3_rendezvous_point = False, supports_hs_setup_padding = False, supports_congestion_control = False,
     supports_conflux = False, supports_cgo = False, supports_ntor_v3 = False\<rparr>"

definition summary_of :: "string \<Rightarrow> protover_summary_flags option" where
  "summary_of protocols =
     (let has = protocol_list_supports_protocol protocols
      in do {
        any \<leftarrow> protocol_list_supports_protocol_or_later protocols PRT_LINKAUTH 3;
        Some \<lparr>protocols_known = True,
          supports_extend2_cells = has PRT_RELAY 2,
          supports_accepting_ipv6_extends = (has PRT_RELAY 2 \<or> has PRT_RELAY 3),
          supports_initiating_ipv6_extends = has PRT_RELAY 3,
          supports_canonical_ipv6_conns = has PRT_RELAY 3,
          supports_ed25519_link_handshake_compat = has PRT_LINKAUTH 3,
          supports_ed25519_link_handshake_any = any,
          supports_ed25519_hs_intro = has PRT_HSINTRO 4,
          supports_establish_intro_dos_extension = has PRT_HSINTRO 5,
          supports_v3_hsdir = has PRT_HSDIR 2,
          supports_v3_rendezvous_point = has PRT_HSREND 2,
          supports_hs_setup_padding = has PRT_PADDING 2,
          supports_congestion_control = (has PRT_FLOWCTRL 2 \<and> has PRT_RELAY 4),
          supports_conflux = (has PRT_FLOWCTRL 2 \<and> has PRT_CONFLUX 1),
          supports_cgo = (has PRT_FLOWCTRL 2 \<and> has PRT_RELAY 5 \<and> has PRT_RELAY 6),
          supports_ntor_v3 = has PRT_RELAY 4\<rparr> })"

text \<open>\<open>protover_summary_map\<close>, which may be NULL, as an association list.\<close>

type_synonym summary_map = "(string \<times> protover_summary_flags) list option"

abbreviation MAX_PROTOVER_SUMMARY_MAP_LEN :: nat where "MAX_PROTOVER_SUMMARY_MAP_LEN \<equiv> 1024"

definition protover_summary_cache_free_all :: summary_map where
  "protover_summary_cache_free_all = None"

definition memoize_protover_summary :: "summary_map \<Rightarrow> string \<Rightarrow> (protover_summary_flags \<times> summary_map) option" where
  "memoize_protover_summary protover_summary_map protocols =
     (let m = (case protover_summary_map of None \<Rightarrow> [] | Some m \<Rightarrow> m);
          m = (if length m \<ge> MAX_PROTOVER_SUMMARY_MAP_LEN then [] else m)
      in case map_of m protocols of
           Some cached \<Rightarrow> if protocols_known cached then Some (cached, Some m) else None
         | None \<Rightarrow> do { out \<leftarrow> summary_of protocols; Some (out, Some (AList.update protocols out m)) })"

text \<open>A NULL argument is \<open>None\<close>.\<close>

definition adjust_summary :: "string option \<Rightarrow> protover_summary_flags \<Rightarrow> protover_summary_flags" where
  "adjust_summary version out =
     (case version of
        None \<Rightarrow> out
      | Some v \<Rightarrow>
          if v \<noteq> [] \<and> strcmpstart v ''Tor '' = 0 then
            if \<not> protocols_known out then
              out\<lparr>supports_extend2_cells := tor_version_as_new_as v ''0.2.4.8-alpha'', protocols_known := True\<rparr>
            else if \<not> tor_version_as_new_as v ''0.3.0.8'' then out\<lparr>supports_v3_hsdir := False\<rparr> else out
          else out)"

definition summarize_protover_flags ::
    "summary_map \<Rightarrow> string option \<Rightarrow> string option \<Rightarrow> (protover_summary_flags \<times> summary_map) option" where
  "summarize_protover_flags protover_summary_map protocols version =
     do { (out, protover_summary_map) \<leftarrow>
            (case protocols of
               None \<Rightarrow> Some (no_flags, protover_summary_map)
             | Some p \<Rightarrow> if p \<noteq> [] then memoize_protover_summary protover_summary_map p
                         else Some (no_flags, protover_summary_map));
          Some (adjust_summary version out, protover_summary_map) }"

end
