(* ===== verification/Versions_Correct.thy ===== *)
theory Versions_Correct
  imports Versions
begin

text \<open>
  Parsed versions without a negative revision are ordered by their components; the status of a version is
  what the list of recommended versions makes it; and the cache of protocol summaries does not change
  any summary.
\<close>

section \<open>The order of versions\<close>

definition cmp_sign :: "'a :: linorder \<Rightarrow> 'a \<Rightarrow> int" where
  "cmp_sign a b = (if a < b then - 1 else if a = b then 0 else 1)"

lemma cmp_sign_pair: "cmp_sign (a, x) (b, y) = (let i = cmp_sign a b in if i \<noteq> 0 then i else cmp_sign x y)"
  by (auto simp: cmp_sign_def Let_def)

definition int_ok :: "int \<Rightarrow> bool" where "int_ok n \<longleftrightarrow> 0 \<le> n \<and> n \<le> INT_MAX"

lemma CMP_sign: "int_ok a \<Longrightarrow> int_ok b \<Longrightarrow> CMP a b = cmp_sign a b"
proof -
  assume ok: "int_ok a" "int_ok b"
  have "sint (word_of_int (a - b) :: 32 word) = a - b"
    unfolding sint_sbintrunc' by (rule signed_take_bit_int_eq_self) (use ok in \<open>simp_all add: int_ok_def\<close>)
  then have "sint (word_of_int a - word_of_int b :: 32 word) = a - b" by (simp only: wi_hom_sub)
  then show ?thesis by (simp add: CMP_def cmp_sign_def Let_def)
qed

lemma strncmp_sign: "max (length a) (length b) < n \<Longrightarrow> strncmp a b n = cmp_sign a b"
proof (induction a b n rule: strncmp.induct)
  case (5 c s d t n)
  then show ?case by (auto simp: cmp_sign_def less_char_def)
qed (auto simp: cmp_sign_def)

lemma c_strcmp_sign: "c_strcmp a b = cmp_sign a b"
  by (simp add: c_strcmp_def strncmp_sign)

text \<open>The components in the order of their weight.\<close>

definition version_key ::
    "tor_version \<Rightarrow> int \<times> int \<times> int \<times> int \<times> int \<times> string \<times> int \<times> int \<times> string" where
  "version_key v = (ver_major v, ver_minor v, ver_micro v, status_value (ver_status v), patchlevel v, status_tag v,
     svn_revision v, int (git_tag_len v), take (git_tag_len v) (git_tag v))"

definition version_ok :: "tor_version \<Rightarrow> bool" where
  "version_ok v \<longleftrightarrow> int_ok (ver_major v) \<and> int_ok (ver_minor v) \<and> int_ok (ver_micro v) \<and> int_ok (patchlevel v)
     \<and> git_tag_len v \<le> DIGEST_LEN"

lemma status_int_ok: "int_ok (status_value s)" by (cases s) (simp_all add: int_ok_def)

lemma compare_key:
  assumes "version_ok a" "version_ok b" "int_ok (svn_revision a)" "int_ok (svn_revision b)"
  shows "tor_version_compare a b = cmp_sign (version_key a) (version_key b)"
proof -
  have g: "int_ok (int (git_tag_len a))" "int_ok (int (git_tag_len b))"
    using assms(1,2) by (simp_all add: version_ok_def int_ok_def)
  have t: "(if git_tag_len a \<noteq> 0 then fast_memcmp (git_tag a) (git_tag b) (git_tag_len a) else 0)
      = cmp_sign (take (git_tag_len a) (git_tag a)) (take (git_tag_len b) (git_tag b))"
    if "cmp_sign (int (git_tag_len a)) (int (git_tag_len b)) = 0"
    using that by (auto simp: cmp_sign_def [of "int x" for x] fast_memcmp_def c_strcmp_sign split: if_splits)
      (simp add: cmp_sign_def)
  show ?thesis
    using assms t unfolding version_key_def cmp_sign_pair tor_version_compare_def
    by (simp add: version_ok_def CMP_sign g status_int_ok c_strcmp_sign Let_def)
qed

lemma NUMBER_ok: "NUMBER cp = Some (n, rest) \<Longrightarrow> int_ok n"
  using check_in_range [of _ cp 0 INT_MAX True n]
  by (auto simp: NUMBER_def int_ok_def tor_parse_uint64_def split: list.splits if_splits prod.splits option.splits)

lemma parse_revision_ok: "parse_revision cp out = Some v \<Longrightarrow> version_ok out \<Longrightarrow> version_ok v"
  by (auto simp: parse_revision_def version_ok_def Let_def split: if_splits option.splits)

lemma parse_status_tag_ok: "parse_status_tag cp out = Some v \<Longrightarrow> version_ok out \<Longrightarrow> version_ok v"
  unfolding parse_status_tag_def Let_def by (erule parse_revision_ok) (simp add: version_ok_def)

lemma version_ok_updates:
  "version_ok tor_version_zero"
  "version_ok v \<Longrightarrow> int_ok n \<Longrightarrow> version_ok (v\<lparr>ver_major := n\<rparr>)"
  "version_ok v \<Longrightarrow> int_ok n \<Longrightarrow> version_ok (v\<lparr>ver_minor := n\<rparr>)"
  "version_ok v \<Longrightarrow> int_ok n \<Longrightarrow> version_ok (v\<lparr>ver_micro := n\<rparr>)"
  "version_ok v \<Longrightarrow> int_ok n \<Longrightarrow> version_ok (v\<lparr>patchlevel := n\<rparr>)"
  "version_ok v \<Longrightarrow> version_ok (v\<lparr>ver_status := st\<rparr>)"
  by (simp_all add: version_ok_def tor_version_zero_def int_ok_def)

lemma parse_patchlevel_ok: "parse_patchlevel cp out = Some v \<Longrightarrow> version_ok out \<Longrightarrow> version_ok v"
  unfolding parse_patchlevel_def
  by (auto simp: bind_eq_Some_conv split: if_splits elim!: parse_status_tag_ok intro!: version_ok_updates dest: NUMBER_ok)

lemma parse_micro_ok: "parse_micro cp out = Some v \<Longrightarrow> version_ok out \<Longrightarrow> version_ok v"
  unfolding parse_micro_def
  by (auto simp: bind_eq_Some_conv split: if_splits elim!: parse_status_tag_ok parse_patchlevel_ok
      intro!: version_ok_updates dest: NUMBER_ok)

lemma version_parse_ok: "tor_version_parse s = Some v \<Longrightarrow> version_ok v"
  unfolding tor_version_parse_def Let_def
  by (auto simp: bind_eq_Some_conv elim!: parse_micro_ok intro!: version_ok_updates dest: NUMBER_ok)

section \<open>Recommended versions\<close>

text \<open>The versions in a list that parse.\<close>

definition listed_versions :: "string list \<Rightarrow> tor_version list" where
  "listed_versions sl = concat (map (\<lambda>cp.
     case tor_version_parse (if strcmpstart cp ''Tor '' = 0 then drop 4 cp else cp) of None \<Rightarrow> [] | Some v \<Rightarrow> [v]) sl)"

lemma obsolete_loop_found:
  "obsolete_loop mine f sl =
     (if \<exists>v \<in> set (listed_versions sl). tor_version_compare mine v = 0 then None
      else Some \<lparr>found_newer = (found_newer f \<or> (\<exists>v \<in> set (listed_versions sl). tor_version_compare mine v < 0)),
        found_older = (found_older f \<or> (\<exists>v \<in> set (listed_versions sl). tor_version_compare mine v > 0)),
        found_newer_in_series = (found_newer_in_series f \<or>
          (\<exists>v \<in> set (listed_versions sl). tor_version_same_series mine v \<and> tor_version_compare mine v < 0)),
        found_any_in_series = (found_any_in_series f \<or> (\<exists>v \<in> set (listed_versions sl). tor_version_same_series mine v))\<rparr>)"
proof (induction mine f sl rule: obsolete_loop.induct)
  case (1 mine f)
  then show ?case by (simp add: listed_versions_def)
next
  case (2 mine f cp sl)
  define c where "c = (if strcmpstart cp ''Tor '' = 0 then drop 4 cp else cp)"
  have l: "listed_versions (cp # sl) = (case tor_version_parse c of None \<Rightarrow> [] | Some v \<Rightarrow> [v]) @ listed_versions sl"
    by (simp add: listed_versions_def c_def)
  show ?case
  proof (cases "tor_version_parse c")
    case None
    with 2(1) [OF c_def None] show ?thesis by (simp add: l c_def [symmetric])
  next
    case (Some v)
    note rec = 2(2,3) [OF c_def Some refl refl refl]
    show ?thesis
      using rec Some l by (simp add: c_def [symmetric] Let_def)
  qed
qed

section \<open>The cache of summaries\<close>

text \<open>The summary without a cache.\<close>

definition plain_summary :: "string option \<Rightarrow> string option \<Rightarrow> protover_summary_flags" where
  "plain_summary protocols version =
     adjust_summary version (case protocols of None \<Rightarrow> no_flags | Some p \<Rightarrow> if p \<noteq> [] then the (summary_of p) else no_flags)"

text \<open>A request, or freeing the cache.\<close>

fun summary_requests :: "summary_map \<Rightarrow> (string option \<times> string option) option list
    \<Rightarrow> (protover_summary_flags list \<times> summary_map) option" where
  "summary_requests m [] = Some ([], m)"
| "summary_requests m (None # rs) = summary_requests protover_summary_cache_free_all rs"
| "summary_requests m (Some (protocols, version) # rs) =
     do { (out, m) \<leftarrow> summarize_protover_flags m protocols version;
          (outs, m) \<leftarrow> summary_requests m rs;
          Some (out # outs, m) }"

definition cache_ok :: "summary_map \<Rightarrow> bool" where
  "cache_ok sm \<longleftrightarrow> (case sm of None \<Rightarrow> True | Some m \<Rightarrow>
     length m \<le> MAX_PROTOVER_SUMMARY_MAP_LEN \<and> distinct (map fst m) \<and> (\<forall>(p, out) \<in> set m. summary_of p = Some out))"

lemma summary_known: "\<exists>out. summary_of p = Some out \<and> protocols_known out"
proof -
  have "\<exists>m. bitmask_for_range 3 63 = Some m" by (simp add: bitmask_for_range_def)
  then have "\<exists>b. protocol_list_supports_protocol_or_later p PRT_LINKAUTH 3 = Some b"
    by (auto simp: protocol_list_supports_protocol_or_later_def split: option.split)
  then show ?thesis by (auto simp: summary_of_def Let_def)
qed

lemma memoize_correct:
  assumes "cache_ok sm"
  shows "\<exists>sm'. memoize_protover_summary sm p = Some (the (summary_of p), sm') \<and> cache_ok sm'"
proof -
  obtain out where out: "summary_of p = Some out" "protocols_known out" using summary_known by blast
  let ?m = "case sm of None \<Rightarrow> [] | Some m \<Rightarrow> m"
  define m where "m = (if length ?m \<ge> MAX_PROTOVER_SUMMARY_MAP_LEN then [] else ?m)"
  have m: "length m < MAX_PROTOVER_SUMMARY_MAP_LEN" "distinct (map fst m)" "\<forall>(p, out) \<in> set m. summary_of p = Some out"
    using assms by (auto simp: m_def cache_ok_def split: option.splits)
  have memo: "memoize_protover_summary sm p = (case map_of m p of
      Some cached \<Rightarrow> if protocols_known cached then Some (cached, Some m) else None
    | None \<Rightarrow> Some (out, Some (AList.update p out m)))"
    unfolding memoize_protover_summary_def Let_def m_def [symmetric] by (cases "map_of m p") (simp_all add: out(1))
  show ?thesis
  proof (cases "map_of m p")
    case None
    then have "p \<notin> fst ` set m" by (simp add: map_of_eq_None_iff)
    then have u: "AList.update p out m = m @ [(p, out)]" by (induction m) auto
    have "cache_ok (Some (m @ [(p, out)]))" using m out(1) \<open>p \<notin> fst ` set m\<close> by (simp add: cache_ok_def)
    with None out(1) show ?thesis by (simp add: memo u)
  next
    case (Some cached)
    then have "summary_of p = Some cached" using m(3) by (auto dest: map_of_SomeD)
    with Some out m show ?thesis by (simp add: memo cache_ok_def)
  qed
qed

lemma summarize_correct:
  assumes "cache_ok sm"
  shows "\<exists>sm'. summarize_protover_flags sm protocols version = Some (plain_summary protocols version, sm') \<and> cache_ok sm'"
proof (cases "protocols = None \<or> protocols = Some []")
  case True
  with assms show ?thesis by (auto simp: summarize_protover_flags_def plain_summary_def)
next
  case False
  then obtain p where p: "protocols = Some p" "p \<noteq> []" by auto
  with memoize_correct [OF assms, of p] show ?thesis by (auto simp: summarize_protover_flags_def plain_summary_def)
qed

lemma summary_requests_correct:
  "cache_ok sm \<Longrightarrow> \<exists>sm'. summary_requests sm rs
     = Some (concat (map (\<lambda>r. case r of None \<Rightarrow> [] | Some (p, v) \<Rightarrow> [plain_summary p v]) rs), sm') \<and> cache_ok sm'"
proof (induction sm rs rule: summary_requests.induct)
  case (2 m rs)
  have "cache_ok protover_summary_cache_free_all" by (simp add: cache_ok_def protover_summary_cache_free_all_def)
  with 2 show ?case by simp
next
  case (3 m p v rs)
  from summarize_correct [OF 3(2), of p v] obtain m' where
    m': "summarize_protover_flags m p v = Some (plain_summary p v, m')" "cache_ok m'" by blast
  from 3(1) [OF m'(1) refl m'(2)] m'(1) show ?case by auto
qed simp

section \<open>Properties\<close>

text \<open>C22: Whatever summaries have been asked for before and whenever the cache was freed, summarizing the
  protocols of a relay fails no assertion and gives what it gives without the cache, and the cache never
  holds more than 1024 summaries, each under its own string.\<close>

theorem summary_cache_transparent:
  "\<exists>sm. summary_requests None rs
     = Some (concat (map (\<lambda>r. case r of None \<Rightarrow> [] | Some (p, v) \<Rightarrow> [plain_summary p v]) rs), sm)
   \<and> (case sm of None \<Rightarrow> True | Some m \<Rightarrow> length m \<le> 1024 \<and> distinct (map fst m))"
  using summary_requests_correct [of None rs] by (fastforce simp: cache_ok_def split: option.splits)

text \<open>Two versions that parse compare as the tuples of their components, as long as no revision is
  negative: the comparison by unsigned differences is the lexicographic order.\<close>

theorem version_compare_lexicographic:
  assumes "tor_version_parse s = Some a" "tor_version_parse t = Some b"
    and "0 \<le> svn_revision a" "svn_revision a \<le> INT_MAX" "0 \<le> svn_revision b" "svn_revision b \<le> INT_MAX"
  shows "(tor_version_compare a b < 0 \<longleftrightarrow> version_key a < version_key b)
    \<and> (tor_version_compare a b = 0 \<longleftrightarrow> version_key a = version_key b)
    \<and> (0 < tor_version_compare a b \<longleftrightarrow> version_key b < version_key a)"
proof -
  have "tor_version_compare a b = cmp_sign (version_key a) (version_key b)"
    using assms by (intro compare_key version_parse_ok) (simp_all add: int_ok_def)
  then show ?thesis by (auto simp: cmp_sign_def)
qed

lemma version_compare_lexicographic_witness:
  "\<exists>a b. tor_version_parse ''0.2.9.1-alpha'' = Some a \<and> tor_version_parse ''Tor 0.3.0rc1'' = Some b \<and> tor_version_compare a b < 0"
proof -
  obtain a where a: "tor_version_parse ''0.2.9.1-alpha'' = Some a" "svn_revision a = 0" "ver_major a = 0" "ver_minor a = 2"
    by (rule that [of "the (tor_version_parse ''0.2.9.1-alpha'')"]) code_simp+
  obtain b where b: "tor_version_parse ''Tor 0.3.0rc1'' = Some b" "svn_revision b = 0" "ver_major b = 0" "ver_minor b = 3"
    by (rule that [of "the (tor_version_parse ''Tor 0.3.0rc1'')"]) code_simp+
  show ?thesis using version_compare_lexicographic [OF a(1) b(1)] a b by (auto simp: version_key_def)
qed

text \<open>A revision above 2^31 is read as negative, and the comparison is then not transitive.\<close>

lemma svn_revisions_cycle:
  "let v = \<lambda>s. the (tor_version_parse s); a = v ''0.1.1.1 (r0)''; b = v ''0.1.1.1 (r1500000000)''; c = v ''0.1.1.1 (r3000000000)''
   in tor_version_compare a b < 0 \<and> tor_version_compare b c < 0 \<and> tor_version_compare c a < 0"
  by code_simp

text \<open>The status by the listed versions, as the code decides it.\<close>

lemma version_status:
  assumes "tor_version_parse myversion = Some mine" "versionlist \<noteq> []"
    and "smartlist_split_string [] versionlist (Some '','') SPLIT_SKIP_SPACE 0 = Some (sl, n)"
  shows "tor_version_is_obsolete myversion versionlist = Some (
     if \<exists>v \<in> set (listed_versions sl). tor_version_compare mine v = 0 then VS_RECOMMENDED
     else if (\<exists>v \<in> set (listed_versions sl). tor_version_same_series mine v)
          \<and> (\<forall>v \<in> set (listed_versions sl). tor_version_same_series mine v \<longrightarrow> 0 < tor_version_compare mine v)
          \<and> (\<exists>v \<in> set (listed_versions sl). tor_version_compare mine v < 0) then VS_NEW_IN_SERIES
     else if listed_versions sl = [] then VS_UNRECOMMENDED
     else if \<forall>v \<in> set (listed_versions sl). tor_version_compare mine v < 0 then VS_OLD
     else if \<forall>v \<in> set (listed_versions sl). 0 < tor_version_compare mine v then VS_NEW
     else VS_UNRECOMMENDED)"
proof (cases "\<exists>v \<in> set (listed_versions sl). tor_version_compare mine v = 0")
  case True
  with assms show ?thesis by (simp add: tor_version_is_obsolete_def obsolete_loop_found)
next
  case False
  then have c: "\<And>v. v \<in> set (listed_versions sl) \<Longrightarrow> tor_version_compare mine v < 0 \<longleftrightarrow> \<not> 0 < tor_version_compare mine v"
    by force
  have e: "listed_versions sl = [] \<longleftrightarrow> (\<forall>v \<in> set (listed_versions sl). False)" by simp
  show ?thesis
    using assms False unfolding tor_version_is_obsolete_def e
    by (simp add: obsolete_loop_found del: ball_simps) (use c in blast)
qed

text \<open>The status as the comment of the function words it, for a list with a member.\<close>

definition documented_status :: "tor_version \<Rightarrow> tor_version list \<Rightarrow> version_status" where
  "documented_status mine vs =
     (if \<exists>v \<in> set vs. tor_version_compare mine v = 0 then VS_RECOMMENDED
      else if \<forall>v \<in> set vs. tor_version_compare mine v < 0 then VS_OLD
      else if (\<exists>v \<in> set vs. tor_version_same_series mine v)
           \<and> \<not> (\<exists>v \<in> set vs. tor_version_same_series mine v \<and> tor_version_compare mine v < 0) then VS_NEW_IN_SERIES
      else if \<forall>v \<in> set vs. 0 < tor_version_compare mine v then VS_NEW
      else VS_UNRECOMMENDED)"

text \<open>C23: The status of a version against a list is the documented one: empty for an empty list, and for
  a list with members that parse, recommended, old, new in its series, new or unrecommended by the
  comparison with them. This is so unless the list has members of the version's series and all its
  members are older: then the comment promises new in its series and the code says new.\<close>

theorem version_status_correct:
  assumes "tor_version_parse myversion = Some mine"
    and "smartlist_split_string [] versionlist (Some '','') SPLIT_SKIP_SPACE 0 = Some (sl, n)"
  shows "(versionlist = [] \<longrightarrow> tor_version_is_obsolete myversion versionlist = Some VS_EMPTY)
    \<and> (versionlist \<noteq> [] \<and> listed_versions sl \<noteq> []
        \<and> \<not> ((\<exists>v \<in> set (listed_versions sl). tor_version_same_series mine v)
             \<and> (\<forall>v \<in> set (listed_versions sl). 0 < tor_version_compare mine v))
       \<longrightarrow> tor_version_is_obsolete myversion versionlist = Some (documented_status mine (listed_versions sl)))"
proof (intro conjI impI; (elim conjE)?)
  assume "versionlist = []"
  with assms show "tor_version_is_obsolete myversion versionlist = Some VS_EMPTY"
    by (simp add: tor_version_is_obsolete_def)
next
  assume l: "versionlist \<noteq> []" "listed_versions sl \<noteq> []"
    and o: "\<not> ((\<exists>v \<in> set (listed_versions sl). tor_version_same_series mine v)
             \<and> (\<forall>v \<in> set (listed_versions sl). 0 < tor_version_compare mine v))"
  define vs where "vs = listed_versions sl"
  show "tor_version_is_obsolete myversion versionlist = Some (documented_status mine (listed_versions sl))"
  proof (cases "\<exists>v \<in> set vs. tor_version_compare mine v = 0")
    case True
    then show ?thesis unfolding version_status [OF assms(1) l(1) assms(2)] documented_status_def vs_def [symmetric] by simp
  next
    case False
    then have c: "\<And>v. v \<in> set vs \<Longrightarrow> 0 < tor_version_compare mine v \<longleftrightarrow> \<not> tor_version_compare mine v < 0" by force
    have e: "vs \<noteq> []" "\<exists>v. v \<in> set vs" using l(2) by (simp_all add: vs_def ex_in_conv)
    show ?thesis
      using False e(1) o unfolding version_status [OF assms(1) l(1) assms(2)] documented_status_def vs_def [symmetric]
      by (simp del: ball_simps bex_simps) (use c e(2) in blast)
  qed
qed

lemma version_status_correct_witness:
  "tor_version_is_obsolete ''0.2.9.9'' ''0.2.9.8, Tor 0.3.0.1'' = Some VS_NEW_IN_SERIES"
proof -
  let ?mine = "the (tor_version_parse ''0.2.9.9'')"
  have m: "tor_version_parse ''0.2.9.9'' = Some ?mine" by code_simp
  have s: "smartlist_split_string [] ''0.2.9.8, Tor 0.3.0.1'' (Some '','') SPLIT_SKIP_SPACE 0
      = Some ([''0.2.9.8'', ''Tor 0.3.0.1''], 2)" by code_simp
  let ?l = "listed_versions [''0.2.9.8'', ''Tor 0.3.0.1'']"
  have l: "?l \<noteq> []" by code_simp
  have o: "\<not> (\<forall>v \<in> set ?l. 0 < tor_version_compare ?mine v)" by code_simp
  have "documented_status ?mine ?l = VS_NEW_IN_SERIES" by code_simp
  with version_status_correct [OF m s] l o show ?thesis by simp
qed

text \<open>The case that the comment does not tell: all listed versions are older, and of the same series.\<close>

lemma all_older_in_series:
  "tor_version_is_obsolete ''0.2.9.9-dev'' ''0.2.9.8, Tor 0.2.9.9'' = Some VS_NEW"
  by code_simp

text \<open>With no known version the protocols of an old relay are inferred to be none, although the code
  means to guess those of 0.2.5.15: that string does not start with Tor and is taken for a nonstandard,
  hence new, version.\<close>

theorem old_tor_default_ignored:
  "protover_compute_for_old_tor None = []
   \<and> protover_compute_for_old_tor (Some ''Tor 0.2.5.15'') =
       ''Cons=1 Desc=1 DirCache=1 HSDir=1 HSIntro=3 HSRend=1 Link=1-4 LinkAuth=1 Microdesc=1 Relay=1-2''"
  by code_simp

end
