(* ===== verification/Addresses.thy ===== *)
theory Addresses
  imports Octets
begin

text \<open>
  Addresses, src/lib/net/address.c and address.h: the family of an address, comparing addresses under a
  mask, and the classes of addresses that the exit policies ask for. An IPv4 address is a word in host
  order, an IPv6 address its 16 bytes. The object of a \<open>AF_UNIX\<close> address is identified by a
  number, since the code compares such addresses by their location in memory.
\<close>

datatype tor_addr = ADDR_UNSPEC | ADDR_UNIX nat | ADDR_INET "32 word" | ADDR_INET6 bytes

datatype sa_family = AF_UNSPEC | AF_UNIX | AF_INET | AF_INET6

fun tor_addr_family :: "tor_addr \<Rightarrow> sa_family" where
  "tor_addr_family ADDR_UNSPEC = AF_UNSPEC"
| "tor_addr_family (ADDR_UNIX p) = AF_UNIX"
| "tor_addr_family (ADDR_INET a) = AF_INET"
| "tor_addr_family (ADDR_INET6 a) = AF_INET6"

text \<open>The numbers of the families on Linux.\<close>

fun family_number :: "sa_family \<Rightarrow> nat" where
  "family_number AF_UNSPEC = 0"
| "family_number AF_UNIX = 1"
| "family_number AF_INET = 2"
| "family_number AF_INET6 = 10"

text \<open>\<open>ntohl (addr32[i])\<close> of an IPv6 address.\<close>

definition in6_addr32 :: "bytes \<Rightarrow> nat \<Rightarrow> 32 word" where
  "in6_addr32 a i = word_rcat (get_bytes (4 * i) 4 a)"

fun tor_addr_is_v4 :: "tor_addr \<Rightarrow> bool" where
  "tor_addr_is_v4 (ADDR_INET a) = True"
| "tor_addr_is_v4 (ADDR_INET6 a) = (in6_addr32 a 0 = 0 \<and> in6_addr32 a 1 = 0 \<and> in6_addr32 a 2 = 0xffff)"
| "tor_addr_is_v4 _ = False"

text \<open>The functions return 0 for an address of another family.\<close>

fun tor_addr_to_ipv4h :: "tor_addr \<Rightarrow> 32 word" where
  "tor_addr_to_ipv4h (ADDR_INET a) = a"
| "tor_addr_to_ipv4h _ = 0"

fun tor_addr_to_mapped_ipv4h :: "tor_addr \<Rightarrow> 32 word" where
  "tor_addr_to_mapped_ipv4h (ADDR_INET6 a) = in6_addr32 a 3"
| "tor_addr_to_mapped_ipv4h _ = 0"

fun tor_addr_is_null :: "tor_addr \<Rightarrow> bool" where
  "tor_addr_is_null (ADDR_INET6 a) =
     (in6_addr32 a 0 = 0 \<and> in6_addr32 a 1 = 0 \<and> in6_addr32 a 2 = 0 \<and> in6_addr32 a 3 = 0)"
| "tor_addr_is_null (ADDR_INET a) = (a = 0)"
| "tor_addr_is_null (ADDR_UNIX p) = True"
| "tor_addr_is_null ADDR_UNSPEC = True"

fun tor_addr_is_loopback :: "tor_addr \<Rightarrow> bool" where
  "tor_addr_is_loopback (ADDR_INET6 a) =
     (in6_addr32 a 0 = 0 \<and> in6_addr32 a 1 = 0 \<and> in6_addr32 a 2 = 0 \<and> in6_addr32 a 3 = 1)"
| "tor_addr_is_loopback (ADDR_INET a) = (a AND 0xff000000 = 0x7f000000)"
| "tor_addr_is_loopback _ = False"

definition ipv4_is_internal :: "32 word \<Rightarrow> bool \<Rightarrow> bool" where
  "ipv4_is_internal iph4 for_listening =
     (if for_listening \<and> (iph4 = 0 \<or> iph4 AND 0xffc00000 = 0x64400000) then False
      else iph4 AND 0xff000000 = 0x0a000000 \<or> iph4 AND 0xff000000 = 0x00000000
        \<or> iph4 AND 0xff000000 = 0x7f000000 \<or> iph4 AND 0xffc00000 = 0x64400000
        \<or> iph4 AND 0xffff0000 = 0xa9fe0000 \<or> iph4 AND 0xfff00000 = 0xac100000
        \<or> iph4 AND 0xffff0000 = 0xc0a80000)"

definition ipv6_is_internal :: "bytes \<Rightarrow> bool \<Rightarrow> bool" where
  "ipv6_is_internal a for_listening =
     (let iph6 = in6_addr32 a
      in if for_listening \<and> iph6 0 = 0 \<and> iph6 1 = 0 \<and> iph6 2 = 0 \<and> iph6 3 = 0 then False
         else if iph6 0 AND 0xfe000000 = 0xfc000000 \<or> iph6 0 AND 0xffc00000 = 0xfe800000
               \<or> iph6 0 AND 0xffc00000 = 0xfec00000 then True
         else if iph6 0 = 0 \<and> iph6 1 = 0 \<and> iph6 2 = 0 \<and> iph6 3 AND 0xfffffffe = 0 then True
         else False)"

fun tor_addr_is_internal :: "tor_addr \<Rightarrow> bool \<Rightarrow> bool" where
  "tor_addr_is_internal (ADDR_INET a) for_listening = ipv4_is_internal a for_listening"
| "tor_addr_is_internal (ADDR_INET6 a) for_listening =
     (if tor_addr_is_v4 (ADDR_INET6 a) then ipv4_is_internal (in6_addr32 a 3) for_listening
      else ipv6_is_internal a for_listening)"
| "tor_addr_is_internal _ for_listening = True"

section \<open>Comparing\<close>

definition TRISTATE :: "'a :: linorder \<Rightarrow> 'a \<Rightarrow> int" where
  "TRISTATE a b = (if a < b then - 1 else if a = b then 0 else 1)"

text \<open>The sign of \<open>tor_memcmp\<close> on buffers of the same length.\<close>

fun tor_memcmp :: "bytes \<Rightarrow> bytes \<Rightarrow> int" where
  "tor_memcmp (a # as) (b # bs) = (if a = b then tor_memcmp as bs else if a < b then - 1 else 1)"
| "tor_memcmp [] [] = 0"
| "tor_memcmp [] (b # bs) = - 1"
| "tor_memcmp (a # as) [] = 1"

datatype tor_addr_comparison = CMP_EXACT | CMP_SEMANTIC

definition compare_ipv4 :: "32 word \<Rightarrow> 32 word \<Rightarrow> nat \<Rightarrow> int" where
  "compare_ipv4 a1 a2 mbits = TRISTATE (drop_bit (32 - mbits) a1) (drop_bit (32 - mbits) a2)"

definition compare_ipv6 :: "bytes \<Rightarrow> bytes \<Rightarrow> nat \<Rightarrow> int" where
  "compare_ipv6 a1 a2 mbits =
     (let bytes = mbits div 8; leftover_bits = mbits mod 8;
          r = tor_memcmp (take bytes a1) (take bytes a2)
      in if bytes \<noteq> 0 \<and> r \<noteq> 0 then r
         else if leftover_bits \<noteq> 0 then
           TRISTATE (drop_bit (8 - leftover_bits) (a1 ! bytes)) (drop_bit (8 - leftover_bits) (a2 ! bytes))
         else 0)"

text \<open>The comparison of mapped IPv4 addresses, and what the code does when there is none.\<close>

definition compare_semantic :: "tor_addr \<Rightarrow> tor_addr \<Rightarrow> nat \<Rightarrow> int" where
  "compare_semantic addr1 addr2 mbits =
     (let family1 = tor_addr_family addr1; family2 = tor_addr_family addr2;
          v_family1 = (if family1 = AF_INET6 \<and> tor_addr_is_v4 addr1 then AF_INET else family1);
          v_family2 = (if family2 = AF_INET6 \<and> tor_addr_is_v4 addr2 then AF_INET else family2);
          a1 = (if family1 = AF_INET6 then tor_addr_to_mapped_ipv4h addr1 else tor_addr_to_ipv4h addr1);
          a2 = (if family2 = AF_INET6 then tor_addr_to_mapped_ipv4h addr2 else tor_addr_to_ipv4h addr2)
      in if mbits = 0 then 0
         else if v_family1 = v_family2 then
           if family1 = AF_INET6 \<and> mbits \<le> 96 then 0
           else let mbits = (if family1 = AF_INET6 then mbits - 96 else mbits);
                    mbits = (if mbits > 32 then 32 else mbits)
                in compare_ipv4 a1 a2 mbits
         else TRISTATE (family_number family1) (family_number family2))"

fun tor_addr_compare_masked :: "tor_addr \<Rightarrow> tor_addr \<Rightarrow> nat \<Rightarrow> tor_addr_comparison \<Rightarrow> int" where
  "tor_addr_compare_masked ADDR_UNSPEC ADDR_UNSPEC mbits how = 0"
| "tor_addr_compare_masked (ADDR_INET a1) (ADDR_INET a2) mbits how =
     (if mbits = 0 then 0 else compare_ipv4 a1 a2 (if mbits > 32 then 32 else mbits))"
| "tor_addr_compare_masked (ADDR_INET6 a1) (ADDR_INET6 a2) mbits how =
     compare_ipv6 a1 a2 (if mbits > 128 then 128 else mbits)"
| "tor_addr_compare_masked (ADDR_UNIX p1) (ADDR_UNIX p2) mbits how = TRISTATE p1 p2"
| "tor_addr_compare_masked addr1 addr2 mbits CMP_EXACT =
     TRISTATE (family_number (tor_addr_family addr1)) (family_number (tor_addr_family addr2))"
| "tor_addr_compare_masked addr1 addr2 mbits CMP_SEMANTIC = compare_semantic addr1 addr2 mbits"

definition tor_addr_compare :: "tor_addr \<Rightarrow> tor_addr \<Rightarrow> tor_addr_comparison \<Rightarrow> int" where
  "tor_addr_compare addr1 addr2 how = tor_addr_compare_masked addr1 addr2 128 how"

section \<open>Networks\<close>

text \<open>Two addresses agree in their first \<open>m\<close> bits.\<close>

definition same_prefix :: "nat \<Rightarrow> bytes \<Rightarrow> bytes \<Rightarrow> bool" where
  "same_prefix m a b \<longleftrightarrow> take (m div 8) a = take (m div 8) b
     \<and> drop_bit (8 - m mod 8) (a ! (m div 8)) = drop_bit (8 - m mod 8) (b ! (m div 8))"

fun same_net :: "nat \<Rightarrow> tor_addr \<Rightarrow> tor_addr \<Rightarrow> bool" where
  "same_net m ADDR_UNSPEC ADDR_UNSPEC = True"
| "same_net m (ADDR_UNIX p) (ADDR_UNIX q) = (p = q)"
| "same_net m (ADDR_INET a) (ADDR_INET b) = (drop_bit (32 - m) a = drop_bit (32 - m) b)"
| "same_net m (ADDR_INET6 a) (ADDR_INET6 b) = same_prefix (min m 128) a b"
| "same_net m _ _ = False"

lemma TRISTATE_0: "TRISTATE a b = 0 \<longleftrightarrow> a = b" by (auto simp: TRISTATE_def)

lemma tor_memcmp_0: "tor_memcmp a b = 0 \<longleftrightarrow> a = b"
  by (induction a b rule: tor_memcmp.induct) auto

lemma drop_bit_8: "drop_bit 8 (x :: 8 word) = 0" by (rule bit_word_eqI) (simp add: bit_drop_bit_eq bit_imp_le_length)

lemma compare_ipv6_0: "compare_ipv6 a b m = 0 \<longleftrightarrow> same_prefix m a b"
  by (auto simp: compare_ipv6_def same_prefix_def Let_def tor_memcmp_0 TRISTATE_0 drop_bit_8)

lemma drop_bit_32: "drop_bit 32 (x :: 32 word) = 0" by (rule bit_word_eqI) (simp add: bit_drop_bit_eq bit_imp_le_length)

lemma compare_masked_inet:
  "tor_addr_compare_masked (ADDR_INET a) (ADDR_INET b) m CMP_EXACT = 0 \<longleftrightarrow> same_net m (ADDR_INET a) (ADDR_INET b)"
proof (cases "m = 0")
  case True
  then show ?thesis by (simp only: tor_addr_compare_masked.simps same_net.simps if_True diff_zero drop_bit_32 simp_thms)
next
  case False
  then have "32 - (if m > 32 then 32 else m) = 32 - m" by simp
  with False show ?thesis
    by (simp only: tor_addr_compare_masked.simps same_net.simps compare_ipv4_def TRISTATE_0 if_False)
qed

lemma compare_masked_inet6:
  "tor_addr_compare_masked (ADDR_INET6 a) (ADDR_INET6 b) m how = 0 \<longleftrightarrow> same_net m (ADDR_INET6 a) (ADDR_INET6 b)"
proof -
  have "(if m > 128 then 128 else m) = min m 128" by (simp add: min_def)
  then show ?thesis by (simp only: tor_addr_compare_masked.simps same_net.simps compare_ipv6_0)
qed

lemma compare_masked_other:
  "tor_addr_compare_masked ADDR_UNSPEC ADDR_UNSPEC m how = 0 \<longleftrightarrow> same_net m ADDR_UNSPEC ADDR_UNSPEC"
  "tor_addr_compare_masked (ADDR_UNIX p) (ADDR_UNIX q) m how = 0 \<longleftrightarrow> same_net m (ADDR_UNIX p) (ADDR_UNIX q)"
  by (simp_all add: TRISTATE_0)

lemma compare_masked_0: "tor_addr_compare_masked a b m CMP_EXACT = 0 \<longleftrightarrow> same_net m a b"
proof (cases "tor_addr_family a = tor_addr_family b")
  case True
  then show ?thesis
    by (cases a; cases b) (simp_all only: compare_masked_inet compare_masked_inet6 compare_masked_other
        tor_addr_family.simps sa_family.distinct)
next
  case False
  then show ?thesis by (cases a; cases b) (simp_all add: TRISTATE_0)
qed

lemma drop_bit_mono:
  assumes "drop_bit i a = drop_bit i (b :: 'a :: len word)" "i \<le> j"
  shows "drop_bit j a = drop_bit j b"
proof -
  have "drop_bit (j - i) (drop_bit i a) = drop_bit (j - i) (drop_bit i b)" using assms(1) by simp
  with assms(2) show ?thesis by simp
qed

lemma same_prefix_mono:
  assumes "same_prefix n a b" "m \<le> n"
  shows "same_prefix m a b"
proof (cases "m div 8 = n div 8")
  case True
  then have "m mod 8 \<le> n mod 8" using assms(2) by (metis add_le_cancel_left div_mult_mod_eq)
  then have "8 - n mod 8 \<le> 8 - m mod 8" by simp
  moreover have "drop_bit (8 - n mod 8) (a ! (n div 8)) = drop_bit (8 - n mod 8) (b ! (n div 8))"
    using assms(1) by (simp only: same_prefix_def)
  ultimately have "drop_bit (8 - m mod 8) (a ! (n div 8)) = drop_bit (8 - m mod 8) (b ! (n div 8))"
    by (rule drop_bit_mono [rotated])
  with assms(1) True show ?thesis by (simp only: same_prefix_def)
next
  case False
  then have l: "m div 8 < n div 8" using assms(2) div_le_mono [of m n 8] by linarith
  have t: "take (n div 8) a = take (n div 8) b" using assms(1) by (simp only: same_prefix_def)
  have "take (m div 8) (take (n div 8) a) = take (m div 8) (take (n div 8) b)" by (simp only: t)
  then have "take (m div 8) a = take (m div 8) b" using l by (simp add: min_def)
  moreover have "a ! (m div 8) = b ! (m div 8)" using l t by (metis nth_take)
  ultimately show ?thesis by (simp only: same_prefix_def)
qed

lemma same_net_refl: "same_net m a a" by (cases a) (simp_all add: same_prefix_def)

lemma same_net_sym: "same_net m a b \<Longrightarrow> same_net m b a"
  by (cases a; cases b) (auto simp: same_prefix_def)

lemma same_net_trans: "same_net m a b \<Longrightarrow> same_net m b c \<Longrightarrow> same_net m a c"
  by (cases a; cases b; cases c) (auto simp: same_prefix_def)

lemma same_net_mono: "same_net n a b \<Longrightarrow> m \<le> n \<Longrightarrow> same_net m a b"
  by (cases a; cases b) (auto elim!: same_prefix_mono drop_bit_mono)

lemma same_net_family: "same_net m a b \<Longrightarrow> tor_addr_family a = tor_addr_family b"
  by (cases a; cases b) auto

lemma same_net_0: "tor_addr_family a = tor_addr_family b \<Longrightarrow> tor_addr_family a \<noteq> AF_UNIX \<Longrightarrow> same_net 0 a b"
  by (cases a; cases b) (auto simp: same_prefix_def drop_bit_8 drop_bit_32)

end
