(* ===== verification/Policies.thy ===== *)
theory Policies
  imports Addresses
begin

text \<open>
  Exit policies, src/core/or/policies.c: the verdict of a policy on an address and a port, either of
  which may be unknown, the removal of redundant entries, and whether a policy rejects everything or
  allows exits in general. A policy is a list of entries; NULL is \<open>None\<close>.
\<close>

datatype addr_policy_action = ADDR_POLICY_ACCEPT | ADDR_POLICY_REJECT

text \<open>The reference count and the mark of the canonical copy are storage management.\<close>

record addr_policy =
  policy_type :: addr_policy_action
  is_private :: bool
  maskbits :: nat
  pol_addr :: tor_addr
  prt_min :: "16 word"
  prt_max :: "16 word"

datatype addr_policy_result =
  ADDR_POLICY_ACCEPTED | ADDR_POLICY_REJECTED | ADDR_POLICY_PROBABLY_ACCEPTED | ADDR_POLICY_PROBABLY_REJECTED

definition single_addr_policy_eq :: "addr_policy \<Rightarrow> addr_policy \<Rightarrow> bool" where
  "single_addr_policy_eq a b \<longleftrightarrow>
     policy_type a = policy_type b \<and> is_private a = is_private b
     \<and> tor_addr_compare (pol_addr a) (pol_addr b) CMP_EXACT = 0
     \<and> maskbits a = maskbits b \<and> prt_min a = prt_min b \<and> prt_max a = prt_max b"

definition addr_policies_eq :: "addr_policy list option \<Rightarrow> addr_policy list option \<Rightarrow> bool" where
  "addr_policies_eq a b =
     (let a = (case a of None \<Rightarrow> [] | Some a \<Rightarrow> a); b = (case b of None \<Rightarrow> [] | Some b \<Rightarrow> b)
      in length a = length b \<and> list_all (\<lambda>i. single_addr_policy_eq (a ! i) (b ! i)) [0..<length a])"

section \<open>Verdicts\<close>

fun compare_known_tor_addr_to_addr_policy :: "tor_addr \<Rightarrow> 16 word \<Rightarrow> addr_policy list \<Rightarrow> addr_policy_result" where
  "compare_known_tor_addr_to_addr_policy addr port [] = ADDR_POLICY_ACCEPTED"
| "compare_known_tor_addr_to_addr_policy addr port (tmpe # policy) =
     (if tor_addr_compare_masked addr (pol_addr tmpe) (maskbits tmpe) CMP_EXACT = 0
         \<and> port \<ge> prt_min tmpe \<and> port \<le> prt_max tmpe
      then (if policy_type tmpe = ADDR_POLICY_ACCEPT then ADDR_POLICY_ACCEPTED else ADDR_POLICY_REJECTED)
      else compare_known_tor_addr_to_addr_policy addr port policy)"

text \<open>The loops with an unknown port and with an unknown address have the two flags as arguments.\<close>

fun noport_loop :: "tor_addr \<Rightarrow> bool \<Rightarrow> bool \<Rightarrow> addr_policy list \<Rightarrow> addr_policy_result" where
  "noport_loop addr maybe_accept maybe_reject [] =
     (if maybe_reject then ADDR_POLICY_PROBABLY_ACCEPTED else ADDR_POLICY_ACCEPTED)"
| "noport_loop addr maybe_accept maybe_reject (tmpe # policy) =
     (if tor_addr_compare_masked addr (pol_addr tmpe) (maskbits tmpe) CMP_EXACT = 0 then
        if prt_min tmpe \<le> 1 \<and> prt_max tmpe \<ge> 65535 then
          if policy_type tmpe = ADDR_POLICY_ACCEPT
          then (if maybe_reject then ADDR_POLICY_PROBABLY_ACCEPTED else ADDR_POLICY_ACCEPTED)
          else (if maybe_accept then ADDR_POLICY_PROBABLY_REJECTED else ADDR_POLICY_REJECTED)
        else if policy_type tmpe = ADDR_POLICY_REJECT then noport_loop addr maybe_accept True policy
        else noport_loop addr True maybe_reject policy
      else noport_loop addr maybe_accept maybe_reject policy)"

definition compare_known_tor_addr_to_addr_policy_noport :: "tor_addr \<Rightarrow> addr_policy list \<Rightarrow> addr_policy_result" where
  "compare_known_tor_addr_to_addr_policy_noport addr policy = noport_loop addr False False policy"

fun noaddr_loop :: "16 word \<Rightarrow> bool \<Rightarrow> bool \<Rightarrow> addr_policy list \<Rightarrow> addr_policy_result" where
  "noaddr_loop port maybe_accept maybe_reject [] =
     (if maybe_reject then ADDR_POLICY_PROBABLY_ACCEPTED else ADDR_POLICY_ACCEPTED)"
| "noaddr_loop port maybe_accept maybe_reject (tmpe # policy) =
     (if prt_min tmpe \<le> port \<and> port \<le> prt_max tmpe then
        if maskbits tmpe = 0 then
          if policy_type tmpe = ADDR_POLICY_ACCEPT
          then (if maybe_reject then ADDR_POLICY_PROBABLY_ACCEPTED else ADDR_POLICY_ACCEPTED)
          else (if maybe_accept then ADDR_POLICY_PROBABLY_REJECTED else ADDR_POLICY_REJECTED)
        else if policy_type tmpe = ADDR_POLICY_REJECT then noaddr_loop port maybe_accept True policy
        else noaddr_loop port True maybe_reject policy
      else noaddr_loop port maybe_accept maybe_reject policy)"

definition compare_unknown_tor_addr_to_addr_policy :: "16 word \<Rightarrow> addr_policy list \<Rightarrow> addr_policy_result" where
  "compare_unknown_tor_addr_to_addr_policy port policy = noaddr_loop port False False policy"

definition compare_tor_addr_to_addr_policy :: "tor_addr option \<Rightarrow> 16 word \<Rightarrow> addr_policy list option \<Rightarrow> addr_policy_result" where
  "compare_tor_addr_to_addr_policy addr port policy =
     (case policy of
        None \<Rightarrow> ADDR_POLICY_ACCEPTED
      | Some policy \<Rightarrow>
          (case addr of
             Some addr \<Rightarrow>
               if tor_addr_is_null addr then
                 if port = 0 then ADDR_POLICY_REJECTED else compare_unknown_tor_addr_to_addr_policy port policy
               else if port = 0 then compare_known_tor_addr_to_addr_policy_noport addr policy
               else compare_known_tor_addr_to_addr_policy addr port policy
           | None \<Rightarrow>
               if port = 0 then ADDR_POLICY_REJECTED else compare_unknown_tor_addr_to_addr_policy port policy))"

section \<open>Removing redundant entries\<close>

definition addr_policy_covers :: "addr_policy \<Rightarrow> addr_policy \<Rightarrow> bool" where
  "addr_policy_covers a b =
     (if tor_addr_family (pol_addr a) \<noteq> tor_addr_family (pol_addr b) then False
      else if maskbits a > maskbits b then False
      else if tor_addr_compare_masked (pol_addr a) (pol_addr b) (maskbits a) CMP_EXACT \<noteq> 0 then False
      else prt_min a \<le> prt_min b \<and> prt_max a \<ge> prt_max b)"

definition addr_policy_intersects :: "addr_policy \<Rightarrow> addr_policy \<Rightarrow> bool" where
  "addr_policy_intersects a b =
     (let minbits = (if maskbits a < maskbits b then maskbits a else maskbits b)
      in if tor_addr_compare_masked (pol_addr a) (pol_addr b) minbits CMP_EXACT \<noteq> 0 then False
         else if prt_max a < prt_min b \<or> prt_max b < prt_min a then False
         else True)"

text \<open>
  Each step walks over the list by an index and deletes entries while keeping the order; here the
  entries from the index on are the argument. Step one: what follows a catch-all entry of its family.
\<close>

fun remove_unreachable :: "bool \<Rightarrow> bool \<Rightarrow> addr_policy list \<Rightarrow> addr_policy list" where
  "remove_unreachable kill_v4 kill_v6 [] = []"
| "remove_unreachable kill_v4 kill_v6 (ap # dest) =
     (let family = tor_addr_family (pol_addr ap)
      in if family = AF_INET \<and> kill_v4 \<or> family = AF_INET6 \<and> kill_v6
         then remove_unreachable kill_v4 kill_v6 dest
         else let catch_all = maskbits ap = 0 \<and> prt_min ap \<le> 1 \<and> prt_max ap \<ge> 65535
              in ap # remove_unreachable (kill_v4 \<or> catch_all \<and> family = AF_INET)
                        (kill_v6 \<or> catch_all \<and> family = AF_INET6) dest)"

text \<open>Step two: later entries that an entry covers.\<close>

function remove_covered :: "addr_policy list \<Rightarrow> addr_policy list" where
  "remove_covered [] = []"
| "remove_covered (ap # dest) = ap # remove_covered (filter (\<lambda>tmp. \<not> addr_policy_covers ap tmp) dest)"
  by pat_completeness auto
termination by (relation "measure length") (auto simp: le_imp_less_Suc)

text \<open>Step three: entries that a later entry of the same type covers, with no intersecting entry of the
  other type in between.\<close>

fun made_redundant :: "addr_policy \<Rightarrow> addr_policy list \<Rightarrow> bool" where
  "made_redundant ap [] = False"
| "made_redundant ap (tmp # dest) =
     (if policy_type ap \<noteq> policy_type tmp
      then if addr_policy_intersects ap tmp then False else made_redundant ap dest
      else if addr_policy_covers tmp ap then True else made_redundant ap dest)"

fun remove_redundant :: "addr_policy list \<Rightarrow> addr_policy list" where
  "remove_redundant [] = []"
| "remove_redundant (ap # dest) = (if made_redundant ap dest then remove_redundant dest else ap # remove_redundant dest)"

definition exit_policy_remove_redundancies :: "addr_policy list \<Rightarrow> addr_policy list" where
  "exit_policy_remove_redundancies dest = remove_redundant (remove_covered (remove_unreachable False False dest))"

section \<open>Rejecting everything, and general exits\<close>

fun reject_star_loop :: "addr_policy list \<Rightarrow> sa_family \<Rightarrow> bool \<Rightarrow> bool" where
  "reject_star_loop [] family default_reject = default_reject"
| "reject_star_loop (p # policy) family default_reject =
     (if policy_type p = ADDR_POLICY_ACCEPT
         \<and> (tor_addr_family (pol_addr p) = family \<or> tor_addr_family (pol_addr p) = AF_UNSPEC) then False
      else if policy_type p = ADDR_POLICY_REJECT \<and> prt_min p \<le> 1 \<and> prt_max p = 65535 \<and> maskbits p = 0
              \<and> (tor_addr_family (pol_addr p) = family \<or> tor_addr_family (pol_addr p) = AF_UNSPEC) then True
      else reject_star_loop policy family default_reject)"

definition policy_is_reject_star :: "addr_policy list option \<Rightarrow> sa_family \<Rightarrow> bool \<Rightarrow> bool" where
  "policy_is_reject_star policy family default_reject =
     (case policy of None \<Rightarrow> default_reject | Some policy \<Rightarrow> reject_star_loop policy family default_reject)"

text \<open>
  The inner loop over the /8 networks \<open>i\<close> to \<open>final\<close> that an entry touches: whether it returns 1,
  and the networks that are already rejected.
\<close>

function subnet_loop :: "addr_policy \<Rightarrow> bool \<Rightarrow> bool list \<Rightarrow> nat \<Rightarrow> nat \<Rightarrow> bool \<times> bool list" where
  "subnet_loop p dir_allow_private subnet_status i final =
     (if i \<le> final then
        if subnet_status ! i then subnet_loop p dir_allow_private subnet_status (i + 1) final
        else let addr = ADDR_INET (push_bit 24 (of_nat i))
             in if tor_addr_is_internal addr False \<and> \<not> dir_allow_private
                then subnet_loop p dir_allow_private subnet_status (i + 1) final
                else case policy_type p of
                       ADDR_POLICY_ACCEPT \<Rightarrow>
                         if maskbits p > 8 then subnet_loop p dir_allow_private subnet_status (i + 1) final
                         else (True, subnet_status)
                     | ADDR_POLICY_REJECT \<Rightarrow>
                         subnet_loop p dir_allow_private (subnet_status[i := True]) (i + 1) final
      else (False, subnet_status))"
  by pat_completeness auto
termination by (relation "measure (\<lambda>(p, d, s, i, final). final + 1 - i)") auto

declare subnet_loop.simps [simp del]

text \<open>A mask of more than 32 bits fails an assertion.\<close>

fun general_exit_loop :: "16 word \<Rightarrow> bool \<Rightarrow> bool list \<Rightarrow> addr_policy list \<Rightarrow> bool option" where
  "general_exit_loop port dir_allow_private subnet_status [] = Some False"
| "general_exit_loop port dir_allow_private subnet_status (p # policy) =
     (if tor_addr_family (pol_addr p) \<noteq> AF_INET then general_exit_loop port dir_allow_private subnet_status policy
      else if prt_min p > port \<or> prt_max p < port then general_exit_loop port dir_allow_private subnet_status policy
      else if maskbits p > 32 then None
      else
        let mask = (if maskbits p \<noteq> 0 then push_bit (32 - maskbits p) (- 1) else 0 :: 32 word);
            ip = tor_addr_to_ipv4h (pol_addr p)
        in case subnet_loop p dir_allow_private subnet_status (unat (drop_bit 24 (mask AND ip)))
                  (unat (drop_bit 24 (NOT ((mask AND ip) XOR mask)))) of
             (found, subnet_status) \<Rightarrow>
               if found then Some True else general_exit_loop port dir_allow_private subnet_status policy)"

definition exit_policy_is_general_exit_helper :: "bool \<Rightarrow> addr_policy list \<Rightarrow> 16 word \<Rightarrow> bool option" where
  "exit_policy_is_general_exit_helper dir_allow_private policy port =
     general_exit_loop port dir_allow_private (replicate 256 False) policy"

definition exit_policy_is_general_exit :: "bool \<Rightarrow> addr_policy list option \<Rightarrow> bool option" where
  "exit_policy_is_general_exit dir_allow_private policy =
     (case policy of
        None \<Rightarrow> Some False
      | Some policy \<Rightarrow>
          (case exit_policy_is_general_exit_helper dir_allow_private policy 80 of
             None \<Rightarrow> None
           | Some False \<Rightarrow> Some False
           | Some True \<Rightarrow> exit_policy_is_general_exit_helper dir_allow_private policy 443))"

end
