(* ===== verification/Policies_Correct.thy ===== *)
theory Policies_Correct
  imports Policies "HOL-Library.Sublist"
begin

text \<open>
  Exit policies: removing redundant entries changes no verdict, a definite verdict on an unknown port or
  address holds for all of them, with an exception that the code does not see, and a general
  exit accepts a whole /8 network.
\<close>

section \<open>The first entry that matches\<close>

definition hits :: "tor_addr \<Rightarrow> 16 word \<Rightarrow> addr_policy \<Rightarrow> bool" where
  "hits addr port e \<longleftrightarrow> same_net (maskbits e) addr (pol_addr e) \<and> prt_min e \<le> port \<and> port \<le> prt_max e"

fun verdict :: "addr_policy option \<Rightarrow> addr_policy_result" where
  "verdict None = ADDR_POLICY_ACCEPTED"
| "verdict (Some e) = (if policy_type e = ADDR_POLICY_ACCEPT then ADDR_POLICY_ACCEPTED else ADDR_POLICY_REJECTED)"

lemma known_verdict: "compare_known_tor_addr_to_addr_policy addr port policy = verdict (find (hits addr port) policy)"
  by (induction policy) (auto simp: hits_def compare_masked_0)

lemma covers_hits: "addr_policy_covers a b \<Longrightarrow> hits addr port b \<Longrightarrow> hits addr port a"
  unfolding addr_policy_covers_def hits_def
  by (auto simp: compare_masked_0 split: if_splits intro: same_net_trans [OF same_net_mono same_net_sym])

lemma hits_intersect: "hits addr port a \<Longrightarrow> hits addr port b \<Longrightarrow> addr_policy_intersects a b"
proof -
  assume h: "hits addr port a" "hits addr port b"
  let ?m = "if maskbits a < maskbits b then maskbits a else maskbits b"
  have "same_net ?m addr (pol_addr a)" "same_net ?m addr (pol_addr b)"
    using h same_net_mono [of "maskbits a" addr "pol_addr a" ?m] same_net_mono [of "maskbits b" addr "pol_addr b" ?m]
    by (auto simp: hits_def)
  then have "same_net ?m (pol_addr a) (pol_addr b)" by (blast intro: same_net_trans same_net_sym)
  moreover have "\<not> prt_max a < prt_min b" "\<not> prt_max b < prt_min a" using h by (auto simp: hits_def)
  ultimately show ?thesis by (simp add: addr_policy_intersects_def compare_masked_0)
qed

lemma port_bounds: "port \<noteq> 0 \<Longrightarrow> lo \<le> 1 \<Longrightarrow> 65535 \<le> hi \<Longrightarrow> lo \<le> port \<and> port \<le> (hi :: 16 word)"
proof
  assume p: "port \<noteq> 0" "lo \<le> 1" "65535 \<le> hi"
  have "1 \<le> port" using p(1) by (simp add: word_le_nat_alt unat_gt_0 Suc_le_eq)
  with p(2) show "lo \<le> port" by (rule order_trans)
  have "(65535 :: 16 word) = - 1" by simp
  then have "port \<le> 65535" using word_order.extremum [of port] by (simp only:)
  then show "port \<le> hi" using p(3) by (rule order_trans)
qed

section \<open>Removing redundant entries\<close>

lemma find_filter: "\<forall>x \<in> set xs. Q x \<longrightarrow> P x \<Longrightarrow> find Q (filter P xs) = find Q xs"
  by (induction xs) auto

lemma unreachable_find:
  assumes "port \<noteq> 0" "tor_addr_family addr = AF_INET \<Longrightarrow> \<not> k4" "tor_addr_family addr = AF_INET6 \<Longrightarrow> \<not> k6"
  shows "find (hits addr port) (remove_unreachable k4 k6 dest) = find (hits addr port) dest"
  using assms(2,3)
proof (induction dest arbitrary: k4 k6)
  case (Cons ap dest)
  let ?f = "tor_addr_family (pol_addr ap)"
  have fam: "hits addr port ap \<Longrightarrow> ?f = tor_addr_family addr" by (auto simp: hits_def dest: same_net_family)
  show ?case
  proof (cases "?f = AF_INET \<and> k4 \<or> ?f = AF_INET6 \<and> k6")
    case True
    then have "\<not> hits addr port ap" using fam Cons.prems by auto
    with True Cons.IH [OF Cons.prems] show ?thesis by (simp add: Let_def)
  next
    case False
    define all where "all \<longleftrightarrow> maskbits ap = 0 \<and> prt_min ap \<le> 1 \<and> prt_max ap \<ge> 65535"
    have step: "remove_unreachable k4 k6 (ap # dest) =
        ap # remove_unreachable (k4 \<or> all \<and> ?f = AF_INET) (k6 \<or> all \<and> ?f = AF_INET6) dest"
      using False by (simp add: Let_def all_def)
    show ?thesis
    proof (cases "hits addr port ap")
      case True
      then show ?thesis unfolding step by simp
    next
      case miss: False
      have "\<not> (all \<and> ?f = tor_addr_family addr \<and> ?f \<noteq> AF_UNIX)"
        using miss port_bounds [OF assms(1), of "prt_min ap" "prt_max ap"] same_net_0 [of addr "pol_addr ap"]
        unfolding hits_def all_def by metis
      then have "find (hits addr port) (remove_unreachable (k4 \<or> all \<and> ?f = AF_INET) (k6 \<or> all \<and> ?f = AF_INET6) dest)
          = find (hits addr port) dest"
        using Cons.prems by (intro Cons.IH) auto
      with miss show ?thesis unfolding step by simp
    qed
  qed
qed simp

lemma covered_find: "find (hits addr port) (remove_covered dest) = find (hits addr port) dest"
proof (induction dest rule: remove_covered.induct)
  case (2 ap dest)
  show ?case
  proof (cases "hits addr port ap")
    case False
    then have "find (hits addr port) (filter (\<lambda>tmp. \<not> addr_policy_covers ap tmp) dest) = find (hits addr port) dest"
      using covers_hits by (intro find_filter) blast
    with False 2 show ?thesis by simp
  qed simp
qed simp

lemma made_redundant_find:
  "made_redundant ap dest \<Longrightarrow> hits addr port ap \<Longrightarrow>
     \<exists>e. find (hits addr port) dest = Some e \<and> policy_type e = policy_type ap"
proof (induction ap dest rule: made_redundant.induct)
  case (2 ap tmp dest)
  then show ?case using hits_intersect [of addr port ap tmp] covers_hits [of tmp ap addr port]
    by (cases "hits addr port tmp") (auto split: if_splits)
qed simp

lemma redundant_verdict: "verdict (find (hits addr port) (remove_redundant dest)) = verdict (find (hits addr port) dest)"
proof (induction dest)
  case (Cons ap dest)
  then show ?case using made_redundant_find [of ap dest addr port] by auto
qed simp

lemma subseq_unreachable: "subseq (remove_unreachable k4 k6 dest) dest"
  by (induction k4 k6 dest rule: remove_unreachable.induct) (auto simp: Let_def)

lemma subseq_covered: "subseq (remove_covered dest) dest"
  by (induction dest rule: remove_covered.induct) (auto intro: subseq_order.trans)

lemma subseq_redundant: "subseq (remove_redundant dest) dest"
  by (induction dest) auto

section \<open>Unknown ports and addresses\<close>

lemma noport_sound:
  assumes "port \<noteq> 0"
  shows "(noport_loop addr ma mr policy = ADDR_POLICY_ACCEPTED \<longrightarrow>
       \<not> mr \<and> verdict (find (hits addr port) policy) = ADDR_POLICY_ACCEPTED)
    \<and> (noport_loop addr ma mr policy = ADDR_POLICY_REJECTED \<longrightarrow>
       \<not> ma \<and> verdict (find (hits addr port) policy) = ADDR_POLICY_REJECTED)"
proof (induction policy arbitrary: ma mr)
  case (Cons e policy)
  show ?case
  proof (cases "same_net (maskbits e) addr (pol_addr e)")
    case net: True
    show ?thesis
    proof (cases "prt_min e \<le> 1 \<and> 65535 \<le> prt_max e")
      case True
      then have "hits addr port e" using net port_bounds [OF assms, of "prt_min e" "prt_max e"] by (simp add: hits_def)
      with net True show ?thesis by (simp add: compare_masked_0)
    next
      case False
      with net Cons.IH [of ma True] Cons.IH [of True mr] show ?thesis
        by (cases "policy_type e") (auto simp: compare_masked_0)
    qed
  next
    case False
    then have "\<not> hits addr port e" by (simp add: hits_def)
    with False Cons.IH [of ma mr] show ?thesis by (auto simp: compare_masked_0)
  qed
qed simp

lemma noaddr_sound:
  assumes "\<forall>e \<in> set policy. maskbits e = 0 \<longrightarrow> tor_addr_family (pol_addr e) = tor_addr_family addr"
    and "tor_addr_family addr \<noteq> AF_UNIX"
  shows "(noaddr_loop port ma mr policy = ADDR_POLICY_ACCEPTED \<longrightarrow>
       \<not> mr \<and> verdict (find (hits addr port) policy) = ADDR_POLICY_ACCEPTED)
    \<and> (noaddr_loop port ma mr policy = ADDR_POLICY_REJECTED \<longrightarrow>
       \<not> ma \<and> verdict (find (hits addr port) policy) = ADDR_POLICY_REJECTED)"
  using assms(1)
proof (induction policy arbitrary: ma mr)
  case (Cons e policy)
  show ?case
  proof (cases "prt_min e \<le> port \<and> port \<le> prt_max e")
    case port: True
    show ?thesis
    proof (cases "maskbits e = 0")
      case True
      then have "hits addr port e" using port Cons.prems assms(2) same_net_0 [of addr "pol_addr e"] by (simp add: hits_def)
      with port True show ?thesis by simp
    next
      case False
      with port Cons.IH [of ma True] Cons.IH [of True mr] Cons.prems show ?thesis
        by (cases "policy_type e") auto
    qed
  next
    case False
    then have "\<not> hits addr port e" by (simp add: hits_def)
    with False Cons.IH [of ma mr] Cons.prems show ?thesis by auto
  qed
qed simp

section \<open>General exits\<close>

text \<open>The network of an entry, from its first to its last address.\<close>

definition mask_of :: "nat \<Rightarrow> 32 word" where
  "mask_of m = (if m \<noteq> 0 then push_bit (32 - m) (- 1) else 0)"

lemma bit_mask_of: "m \<le> 32 \<Longrightarrow> bit (mask_of m) i \<longleftrightarrow> 32 - m \<le> i \<and> i < 32"
  by (cases "m = 0") (auto simp: mask_of_def bit_push_bit_iff bit_mask_iff bit_not_iff)

lemma top_bits_eq:
  "drop_bit k a = drop_bit k (b :: 32 word) \<longleftrightarrow> (\<forall>i. k \<le> i \<and> i < 32 \<longrightarrow> bit a i = bit b i)"
proof
  assume e: "drop_bit k a = drop_bit k b"
  show "\<forall>i. k \<le> i \<and> i < 32 \<longrightarrow> bit a i = bit b i"
  proof (intro allI impI)
    fix i assume "k \<le> i \<and> i < 32"
    then have "bit (drop_bit k a) (i - k) = bit a i" "bit (drop_bit k b) (i - k) = bit b i"
      by (simp_all add: bit_drop_bit_eq)
    with e show "bit a i = bit b i" by simp
  qed
next
  assume a: "\<forall>i. k \<le> i \<and> i < 32 \<longrightarrow> bit a i = bit b i"
  show "drop_bit k a = drop_bit k b"
  proof (rule bit_word_eqI)
    fix i
    show "bit (drop_bit k a) i = bit (drop_bit k b) i"
      using a [rule_format, of "k + i"] bit_imp_le_length [of a "k + i"] bit_imp_le_length [of b "k + i"]
      by (auto simp: bit_drop_bit_eq)
  qed
qed

definition first_ip :: "nat \<Rightarrow> 32 word \<Rightarrow> 32 word" where "first_ip m ip = mask_of m AND ip"

definition last_ip :: "nat \<Rightarrow> 32 word \<Rightarrow> 32 word" where "last_ip m ip = NOT ((mask_of m AND ip) XOR mask_of m)"

lemma last_ip_fold: "NOT (first_ip m ip XOR mask_of m) = last_ip m ip"
  by (simp only: first_ip_def last_ip_def)

lemma ends_top_bits:
  assumes "m \<le> 32"
  shows "drop_bit (32 - m) (first_ip m ip) = drop_bit (32 - m) ip" "drop_bit (32 - m) (last_ip m ip) = drop_bit (32 - m) ip"
  unfolding top_bits_eq using assms
  by (simp_all add: first_ip_def last_ip_def bit_and_iff bit_xor_iff bit_not_iff bit_mask_of)

lemma network_between:
  assumes "m \<le> 32" "drop_bit (32 - m) a = drop_bit (32 - m) ip"
  shows "first_ip m ip \<le> a" "a \<le> last_ip m ip"
proof -
  note b = assms(2) [unfolded top_bits_eq, rule_format]
  have "a = first_ip m ip OR (NOT (mask_of m) AND a)"
    by (rule bit_word_eqI) (use assms(1) b in \<open>auto simp: first_ip_def bit_and_iff bit_or_iff bit_not_iff bit_mask_of\<close>)
  then show "first_ip m ip \<le> a" by (metis le_word_or2)
  have "last_ip m ip = a OR NOT (mask_of m)"
    by (rule bit_word_eqI)
      (use assms(1) b in \<open>auto simp: last_ip_def bit_and_iff bit_or_iff bit_xor_iff bit_not_iff bit_mask_of\<close>)
  then show "a \<le> last_ip m ip" by (metis le_word_or2)
qed

lemma unat_drop: "unat (drop_bit n (w :: 32 word)) = unat w div 2 ^ n"
  unfolding unsigned_drop_bit_eq using unsigned_less [of w, where 'a = nat]
  by (simp add: drop_bit_eq_div take_bit_nat_eq_self)

lemma in_network_subnet:
  assumes "m \<le> 32" "drop_bit (32 - m) a = drop_bit (32 - m) ip"
  shows "unat (drop_bit 24 (first_ip m ip)) \<le> unat (drop_bit 24 a)" "unat (drop_bit 24 a) \<le> unat (drop_bit 24 (last_ip m ip))"
  unfolding unat_drop using network_between [OF assms] by (auto simp: word_le_nat_alt intro: div_le_mono)

lemma subnet_in_network:
  assumes "m \<le> 8" "unat (drop_bit 24 (first_ip m ip)) \<le> unat (drop_bit 24 a)"
    "unat (drop_bit 24 a) \<le> unat (drop_bit 24 (last_ip m ip))"
  shows "drop_bit (32 - m) a = drop_bit (32 - m) ip"
proof -
  have d: "unat (drop_bit (32 - m) w) = unat (drop_bit 24 w) div 2 ^ (8 - m)" for w :: "32 word"
  proof -
    have "32 - m = 24 + (8 - m)" using assms(1) by simp
    then show ?thesis by (simp only: unat_drop power_add div_mult2_eq)
  qed
  have m: "m \<le> 32" using assms(1) by simp
  have "unat (drop_bit (32 - m) (first_ip m ip)) \<le> unat (drop_bit (32 - m) a)"
    "unat (drop_bit (32 - m) a) \<le> unat (drop_bit (32 - m) (last_ip m ip))"
    unfolding d using assms(2,3) by (auto intro: div_le_mono)
  then show ?thesis unfolding ends_top_bits [OF m] by (simp add: word_unat_eq_iff)
qed

text \<open>The loop over the /8 networks.\<close>

definition usable :: "bool \<Rightarrow> nat \<Rightarrow> bool" where
  "usable dir_allow_private i \<longleftrightarrow> dir_allow_private \<or> \<not> tor_addr_is_internal (ADDR_INET (push_bit 24 (of_nat i))) False"

lemma subnet_loop_accept:
  "policy_type p = ADDR_POLICY_ACCEPT \<Longrightarrow> snd (subnet_loop p d st i j) = st
   \<and> (fst (subnet_loop p d st i j) \<longrightarrow> maskbits p \<le> 8 \<and> (\<exists>k. i \<le> k \<and> k \<le> j \<and> \<not> st ! k \<and> usable d k))"
proof (induction p d st i j rule: subnet_loop.induct)
  case (1 p d st i j)
  note step = subnet_loop.simps [of p d st i j]
  show ?case
  proof (cases "i \<le> j \<and> \<not> st ! i \<and> usable d i \<and> maskbits p \<le> 8")
    case True
    then show ?thesis using "1.prems" by (auto simp: step Let_def usable_def)
  next
    case False
    show ?thesis
    proof (cases "i \<le> j")
      case i: True
      with False have e: "subnet_loop p d st i j = subnet_loop p d st (i + 1) j"
        using "1.prems" by (auto simp: step Let_def usable_def)
      have "snd (subnet_loop p d st (i + 1) j) = st \<and> (fst (subnet_loop p d st (i + 1) j) \<longrightarrow>
          maskbits p \<le> 8 \<and> (\<exists>k. i + 1 \<le> k \<and> k \<le> j \<and> \<not> st ! k \<and> usable d k))"
      proof (cases "st ! i")
        case True
        with i "1.IH"(1) "1.prems" show ?thesis by blast
      next
        case st: False
        show ?thesis
        proof (cases "usable d i")
          case True
          then have "\<not> (tor_addr_is_internal (ADDR_INET (push_bit 24 (of_nat i))) False \<and> \<not> d)"
            unfolding usable_def by blast
          moreover have "maskbits p > 8" using False i st True by simp
          ultimately show ?thesis using "1.IH"(3) [OF i st refl _ "1.prems"] "1.prems" by blast
        next
          case False
          then have "tor_addr_is_internal (ADDR_INET (push_bit 24 (of_nat i))) False \<and> \<not> d"
            unfolding usable_def by blast
          from "1.IH"(2) [OF i st refl this "1.prems"] show ?thesis .
        qed
      qed
      then show ?thesis unfolding e by (auto intro: Suc_leD)
    next
      case False
      then show ?thesis by (simp add: step)
    qed
  qed
qed

lemma subnet_loop_reject:
  "policy_type p = ADDR_POLICY_REJECT \<Longrightarrow> j < length st \<Longrightarrow> \<not> fst (subnet_loop p d st i j)
   \<and> length (snd (subnet_loop p d st i j)) = length st
   \<and> (\<forall>k. snd (subnet_loop p d st i j) ! k = (st ! k \<or> i \<le> k \<and> k \<le> j \<and> usable d k))"
proof (induction "j + 1 - i" arbitrary: st i)
  case 0
  then show ?case by (auto simp: subnet_loop.simps [of p d st i j])
next
  case (Suc n)
  then have i: "i \<le> j" by simp
  note step = subnet_loop.simps [of p d st i j]
  show ?case
  proof (cases "\<not> st ! i \<and> usable d i")
    case True
    then have e: "subnet_loop p d st i j = subnet_loop p d (st[i := True]) (i + 1) j"
      using i Suc.prems by (auto simp: step Let_def usable_def)
    have "n = j + 1 - (i + 1)" using Suc.hyps(2) by simp
    from Suc.hyps(1) [OF this Suc.prems(1), of "st[i := True]"] Suc.prems(2)
    have "\<not> fst (subnet_loop p d st i j)" "length (snd (subnet_loop p d st i j)) = length st"
      and r: "\<And>k. snd (subnet_loop p d st i j) ! k = (st[i := True] ! k \<or> i + 1 \<le> k \<and> k \<le> j \<and> usable d k)"
      unfolding e by simp_all
    moreover have "snd (subnet_loop p d st i j) ! k = (st ! k \<or> i \<le> k \<and> k \<le> j \<and> usable d k)" for k
    proof (cases "k = i")
      case k: True
      with True i Suc.prems(2) show ?thesis by (simp add: r)
    next
      case False
      then have "i + 1 \<le> k \<longleftrightarrow> i \<le> k" by auto
      with False show ?thesis by (simp add: r)
    qed
    ultimately show ?thesis by blast
  next
    case False
    then have e: "subnet_loop p d st i j = subnet_loop p d st (i + 1) j"
      using i Suc.prems by (auto simp: step Let_def usable_def)
    have "n = j + 1 - (i + 1)" using Suc.hyps(2) by simp
    from Suc.hyps(1) [OF this Suc.prems]
    have "\<not> fst (subnet_loop p d st i j)" "length (snd (subnet_loop p d st i j)) = length st"
      and r: "\<And>k. snd (subnet_loop p d st i j) ! k = (st ! k \<or> i + 1 \<le> k \<and> k \<le> j \<and> usable d k)"
      unfolding e by simp_all
    moreover have "snd (subnet_loop p d st i j) ! k = (st ! k \<or> i \<le> k \<and> k \<le> j \<and> usable d k)" for k
    proof (cases "k = i")
      case True
      with False show ?thesis by (auto simp: r)
    next
      case k: False
      then have "i + 1 \<le> k \<longleftrightarrow> i \<le> k" by auto
      then show ?thesis by (simp add: r)
    qed
    ultimately show ?thesis by blast
  qed
qed

lemma general_exit_sound:
  assumes "general_exit_loop port d st policy = Some True" "length st = 256"
  shows "\<exists>i < 256. \<not> st ! i \<and> usable d i
    \<and> (\<forall>a. unat (drop_bit 24 a) = i \<longrightarrow> verdict (find (hits (ADDR_INET a) port) policy) = ADDR_POLICY_ACCEPTED)"
  using assms
proof (induction policy arbitrary: st)
  case (Cons p policy)
  show ?case
  proof (cases "tor_addr_family (pol_addr p) = AF_INET \<and> \<not> (prt_min p > port \<or> prt_max p < port)")
    case False
    then have "\<not> hits (ADDR_INET a) port p" for a by (cases "pol_addr p") (auto simp: hits_def not_le)
    moreover have "general_exit_loop port d st policy = Some True" using False Cons.prems(1) by (auto split: if_splits)
    ultimately show ?thesis using Cons.IH [OF _ Cons.prems(2)] by simp
  next
    case True
    then obtain ip where ip: "pol_addr p = ADDR_INET ip" by (cases "pol_addr p") auto
    let ?lo = "unat (drop_bit 24 (first_ip (maskbits p) ip))" and ?hi = "unat (drop_bit 24 (last_ip (maskbits p) ip))"
    have m: "maskbits p \<le> 32" using True Cons.prems(1) by (auto split: if_splits)
    have c: "\<not> tor_addr_family (pol_addr p) \<noteq> AF_INET" "\<not> (prt_min p > port \<or> prt_max p < port)" "\<not> maskbits p > 32"
      using True m by auto
    have loop: "(case subnet_loop p d st ?lo ?hi of
        (found, st) \<Rightarrow> if found then Some True else general_exit_loop port d st policy) = Some True"
      using Cons.prems(1) unfolding general_exit_loop.simps if_not_P [OF c(1)] if_not_P [OF c(2)] if_not_P [OF c(3)] Let_def
        mask_of_def [symmetric] ip tor_addr_to_ipv4h.simps first_ip_def [symmetric] last_ip_fold by simp
    have hi: "?hi < 256" unfolding unat_drop using unsigned_less [of "last_ip (maskbits p) ip", where 'a = nat] by simp
    have hit: "hits (ADDR_INET a) port p \<longleftrightarrow> drop_bit (32 - maskbits p) a = drop_bit (32 - maskbits p) ip" for a
      using True ip by (auto simp: hits_def)
    show ?thesis
    proof (cases "policy_type p")
      case ADDR_POLICY_ACCEPT
      note accept = this
      from subnet_loop_accept [OF this, of d st ?lo ?hi] obtain found where
        s: "subnet_loop p d st ?lo ?hi = (found, st)"
        and f: "found \<Longrightarrow> maskbits p \<le> 8 \<and> (\<exists>k. ?lo \<le> k \<and> k \<le> ?hi \<and> \<not> st ! k \<and> usable d k)"
        by (cases "subnet_loop p d st ?lo ?hi") auto
      show ?thesis
      proof (cases found)
        case True
        with f obtain k where k: "maskbits p \<le> 8" "?lo \<le> k" "k \<le> ?hi" "\<not> st ! k" "usable d k" by blast
        have "hits (ADDR_INET a) port p" if "unat (drop_bit 24 a) = k" for a
          unfolding hit using k(1-3) that by (intro subnet_in_network) simp_all
        then show ?thesis using k hi accept by (intro exI [of _ k]) simp
      next
        case False
        then have "general_exit_loop port d st policy = Some True" using loop s by simp
        from Cons.IH [OF this Cons.prems(2)] accept show ?thesis by auto
      qed
    next
      case ADDR_POLICY_REJECT
      obtain found st' where s: "subnet_loop p d st ?lo ?hi = (found, st')" by (cases "subnet_loop p d st ?lo ?hi")
      have "?hi < length st" using hi Cons.prems(2) by simp
      from subnet_loop_reject [OF ADDR_POLICY_REJECT this, of d ?lo] s Cons.prems(2)
      have r: "\<not> found" "length st' = 256" "\<And>k. st' ! k = (st ! k \<or> ?lo \<le> k \<and> k \<le> ?hi \<and> usable d k)" by simp_all
      then have "general_exit_loop port d st' policy = Some True" using loop s by simp
      from Cons.IH [OF this r(2)] obtain i where i: "i < 256" "\<not> st' ! i" "usable d i"
        and v: "\<forall>a. unat (drop_bit 24 a) = i \<longrightarrow> verdict (find (hits (ADDR_INET a) port) policy) = ADDR_POLICY_ACCEPTED" by blast
      have "\<not> st ! i" "\<not> (?lo \<le> i \<and> i \<le> ?hi)" using i(2,3) unfolding r(3) by blast+
      moreover have "\<not> hits (ADDR_INET a) port p" if "unat (drop_bit 24 a) = i" for a
        using in_network_subnet [OF m, of a ip] that \<open>\<not> (?lo \<le> i \<and> i \<le> ?hi)\<close> unfolding hit by blast
      ultimately show ?thesis using i v by (intro exI [of _ i]) simp
    qed
  qed
qed simp

section \<open>Properties\<close>

text \<open>C17: Removing redundant entries from an exit policy leaves the verdict on every address and every
  port as it is, and only takes entries out.\<close>

theorem remove_redundancies_keeps_verdict:
  assumes "port \<noteq> 0"
  shows "compare_known_tor_addr_to_addr_policy addr port (exit_policy_remove_redundancies policy)
      = compare_known_tor_addr_to_addr_policy addr port policy
    \<and> subseq (exit_policy_remove_redundancies policy) policy"
proof
  show "compare_known_tor_addr_to_addr_policy addr port (exit_policy_remove_redundancies policy)
      = compare_known_tor_addr_to_addr_policy addr port policy"
    unfolding known_verdict exit_policy_remove_redundancies_def redundant_verdict covered_find
    using unreachable_find [OF assms, of addr False False policy] by simp
  show "subseq (exit_policy_remove_redundancies policy) policy"
    unfolding exit_policy_remove_redundancies_def
    using subseq_order.trans [OF subseq_redundant subseq_order.trans [OF subseq_covered subseq_unreachable]] .
qed

lemma remove_redundancies_keeps_verdict_witness:
  "let policy = [\<lparr>policy_type = ADDR_POLICY_REJECT, is_private = False, maskbits = 8, pol_addr = ADDR_INET 0x0a000000, prt_min = 1, prt_max = 65535\<rparr>,
                 \<lparr>policy_type = ADDR_POLICY_REJECT, is_private = False, maskbits = 16, pol_addr = ADDR_INET 0x0a010000, prt_min = 25, prt_max = 25\<rparr>,
                 \<lparr>policy_type = ADDR_POLICY_REJECT, is_private = False, maskbits = 0, pol_addr = ADDR_INET 0, prt_min = 1, prt_max = 65535\<rparr>]
   in compare_known_tor_addr_to_addr_policy (ADDR_INET 0x0a010203) 25 (exit_policy_remove_redundancies policy) = ADDR_POLICY_REJECTED
      \<and> length (exit_policy_remove_redundancies policy) < length policy"
proof -
  let ?e = "\<lambda>m a lo hi. \<lparr>policy_type = ADDR_POLICY_REJECT, is_private = False, maskbits = m, pol_addr = ADDR_INET a, prt_min = lo, prt_max = hi\<rparr>"
  let ?p = "[?e 8 0x0a000000 1 65535, ?e 16 0x0a010000 25 25, ?e 0 0 1 65535]"
  have "compare_known_tor_addr_to_addr_policy (ADDR_INET 0x0a010203) 25 ?p = ADDR_POLICY_REJECTED" by code_simp
  moreover have "length (exit_policy_remove_redundancies ?p) < length ?p" by code_simp
  ultimately show ?thesis
    using remove_redundancies_keeps_verdict [of 25 "ADDR_INET 0x0a010203" ?p] by (simp add: Let_def)
qed

text \<open>C18: When only the port is unknown, a definite verdict of a policy is its verdict on every port; when
  only the address is unknown, it is its verdict on every address of a family, provided that
  all entries for all addresses are of that family.\<close>

theorem definite_verdict_sound:
  assumes "port \<noteq> 0" "\<not> tor_addr_is_null addr" "r = ADDR_POLICY_ACCEPTED \<or> r = ADDR_POLICY_REJECTED"
  shows "(compare_tor_addr_to_addr_policy (Some addr) 0 (Some policy) = r
       \<longrightarrow> compare_tor_addr_to_addr_policy (Some addr) port (Some policy) = r)
    \<and> (compare_tor_addr_to_addr_policy None port (Some policy) = r
       \<and> (\<forall>e \<in> set policy. maskbits e = 0 \<longrightarrow> tor_addr_family (pol_addr e) = tor_addr_family addr)
       \<longrightarrow> compare_tor_addr_to_addr_policy (Some addr) port (Some policy) = r)"
proof -
  have "tor_addr_family addr \<noteq> AF_UNIX" using assms(2) by (cases addr) auto
  then show ?thesis
    using assms noport_sound [OF assms(1), of addr False False policy] noaddr_sound [of policy addr port False False]
    by (auto simp: compare_tor_addr_to_addr_policy_def known_verdict compare_known_tor_addr_to_addr_policy_noport_def
        compare_unknown_tor_addr_to_addr_policy_def)
qed

lemma definite_verdict_sound_witness:
  "compare_tor_addr_to_addr_policy (Some (ADDR_INET 0x01020304)) 80
     (Some [\<lparr>policy_type = ADDR_POLICY_REJECT, is_private = False, maskbits = 0, pol_addr = ADDR_INET 0, prt_min = 1, prt_max = 65535\<rparr>])
   = ADDR_POLICY_REJECTED"
proof -
  let ?p = "[\<lparr>policy_type = ADDR_POLICY_REJECT, is_private = False, maskbits = 0, pol_addr = ADDR_INET 0, prt_min = 1, prt_max = 65535\<rparr>]"
  have "compare_tor_addr_to_addr_policy None 80 (Some ?p) = ADDR_POLICY_REJECTED" by code_simp
  then show ?thesis
    using definite_verdict_sound [of 80 "ADDR_INET 0x01020304" ADDR_POLICY_REJECTED ?p] by simp
qed

text \<open>With entries of both families the verdict on an unknown address may be wrong: an entry for all IPv4
  addresses is taken to cover all addresses, and the policy is reported to reject a port that it
  accepts on IPv6 addresses.\<close>

theorem unknown_address_two_families:
  "let policy = [\<lparr>policy_type = ADDR_POLICY_REJECT, is_private = False, maskbits = 0, pol_addr = ADDR_INET 0, prt_min = 1, prt_max = 65535\<rparr>,
                 \<lparr>policy_type = ADDR_POLICY_ACCEPT, is_private = False, maskbits = 0, pol_addr = ADDR_INET6 (replicate 16 0), prt_min = 1, prt_max = 65535\<rparr>]
   in compare_tor_addr_to_addr_policy None 80 (Some policy) = ADDR_POLICY_REJECTED
      \<and> compare_tor_addr_to_addr_policy (Some (ADDR_INET6 ([0x20, 0x01] @ replicate 13 0 @ [1]))) 80 (Some policy) = ADDR_POLICY_ACCEPTED"
  by code_simp

text \<open>C19: A policy that is a general exit accepts each of the ports 80 and 443 on all addresses of some /8
  network.\<close>

theorem general_exit_accepts_subnet:
  assumes "exit_policy_is_general_exit dir_allow_private (Some policy) = Some True" "port = 80 \<or> port = 443"
  shows "\<exists>i < 256. \<forall>a. unat (drop_bit 24 a) = i
     \<longrightarrow> compare_known_tor_addr_to_addr_policy (ADDR_INET a) port policy = ADDR_POLICY_ACCEPTED"
proof -
  have "exit_policy_is_general_exit_helper dir_allow_private policy port = Some True"
    using assms by (auto simp: exit_policy_is_general_exit_def split: option.splits bool.splits)
  then show ?thesis using general_exit_sound [of port dir_allow_private "replicate 256 False" policy]
    by (auto simp: exit_policy_is_general_exit_helper_def known_verdict)
qed

lemma general_exit_accepts_subnet_witness:
  "\<exists>i < 256. \<forall>a. unat (drop_bit 24 a) = i \<longrightarrow> compare_known_tor_addr_to_addr_policy (ADDR_INET a) 443
     [\<lparr>policy_type = ADDR_POLICY_REJECT, is_private = False, maskbits = 8, pol_addr = ADDR_INET 0x01000000, prt_min = 1, prt_max = 65535\<rparr>,
      \<lparr>policy_type = ADDR_POLICY_ACCEPT, is_private = False, maskbits = 0, pol_addr = ADDR_INET 0, prt_min = 1, prt_max = 65535\<rparr>]
   = ADDR_POLICY_ACCEPTED"
proof (rule general_exit_accepts_subnet)
  show "exit_policy_is_general_exit False (Some
     [\<lparr>policy_type = ADDR_POLICY_REJECT, is_private = False, maskbits = 8, pol_addr = ADDR_INET 0x01000000, prt_min = 1, prt_max = 65535\<rparr>,
      \<lparr>policy_type = ADDR_POLICY_ACCEPT, is_private = False, maskbits = 0, pol_addr = ADDR_INET 0, prt_min = 1, prt_max = 65535\<rparr>]) = Some True"
    by code_simp
qed simp

end
