(* ===== verification/Policy_Summary.thy ===== *)
theory Policy_Summary
  imports Policies Parse_Int Smartlist "HOL-Library.Monad_Syntax"
begin

text \<open>
  Summaries of exit policies, src/core/or/policies.c: for each range of ports how many addresses a
  policy rejects, the list of accepted or rejected ports that goes into descriptors and the consensus,
  and the short policy that a client parses from it. \<open>None\<close> of a function that cannot fail in C is
  a failed assertion or an index out of range.
\<close>

section \<open>Summary items\<close>

record policy_summary_item =
  psi_prt_min :: "16 word"
  psi_prt_max :: "16 word"
  reject_count :: "64 word"
  psi_accepted :: bool

definition policy_summary_create :: "policy_summary_item list" where
  "policy_summary_create =
     smartlist_add [] \<lparr>psi_prt_min = 1, psi_prt_max = 65535, reject_count = 0, psi_accepted = False\<rparr>"

text \<open>The item as it is changed, and the new one.\<close>

definition policy_summary_item_split ::
    "policy_summary_item \<Rightarrow> 16 word \<Rightarrow> (policy_summary_item \<times> policy_summary_item) option" where
  "policy_summary_item_split old new_starts =
     (let nitem = \<lparr>psi_prt_min = new_starts, psi_prt_max = psi_prt_max old,
                   reject_count = reject_count old, psi_accepted = psi_accepted old\<rparr>;
          old = old\<lparr>psi_prt_max := new_starts - 1\<rparr>
      in if \<not> psi_prt_min old \<le> psi_prt_max old then None
         else if \<not> psi_prt_min nitem \<le> psi_prt_max nitem then None
         else Some (old, nitem))"

text \<open>\<open>while (AT(i)->prt_max < prt) i++;\<close>\<close>

function find_item :: "policy_summary_item list \<Rightarrow> 16 word \<Rightarrow> nat \<Rightarrow> nat option" where
  "find_item summary prt i =
     (if i < length summary then
        if psi_prt_max (summary ! i) < prt then find_item summary prt (i + 1) else Some i
      else None)"
  by pat_completeness auto
termination by (relation "measure (\<lambda>(s, p, i). length s - i)") auto

declare find_item.simps [simp del]

definition policy_summary_split ::
    "policy_summary_item list \<Rightarrow> 16 word \<Rightarrow> 16 word \<Rightarrow> (policy_summary_item list \<times> nat) option" where
  "policy_summary_split summary pmin pmax =
     do { i \<leftarrow> find_item summary pmin 0;
          (summary, i) \<leftarrow>
            (if psi_prt_min (summary ! i) \<noteq> pmin then
               do { (old, new_item) \<leftarrow> policy_summary_item_split (summary ! i) pmin;
                    summary \<leftarrow> smartlist_insert (summary[i := old]) (i + 1) new_item;
                    Some (summary, i + 1) }
             else Some (summary, i));
          let start_at_index = i;
          i \<leftarrow> find_item summary pmax i;
          if psi_prt_max (summary ! i) \<noteq> pmax then
            do { (old, new_item) \<leftarrow> policy_summary_item_split (summary ! i) (pmax + 1);
                 summary \<leftarrow> smartlist_insert (summary[i := old]) (i + 1) new_item;
                 Some (summary, start_at_index) }
          else Some (summary, start_at_index) }"

definition IPV4_BITS :: nat where "IPV4_BITS = 32"
definition IPV6_BITS :: nat where "IPV6_BITS = 128"
definition REJECT_CUTOFF_SCALE_IPV4 :: nat where "REJECT_CUTOFF_SCALE_IPV4 = 0"
definition REJECT_CUTOFF_SCALE_IPV6 :: nat where "REJECT_CUTOFF_SCALE_IPV6 = 64"
definition REJECT_CUTOFF_COUNT_IPV4 :: "64 word" where
  "REJECT_CUTOFF_COUNT_IPV4 = push_bit (IPV4_BITS - REJECT_CUTOFF_SCALE_IPV4 - 7) 1"
definition REJECT_CUTOFF_COUNT_IPV6 :: "64 word" where
  "REJECT_CUTOFF_COUNT_IPV6 = push_bit (IPV6_BITS - REJECT_CUTOFF_SCALE_IPV6 - 16) 1"

lemmas cutoff_defs = IPV4_BITS_def IPV6_BITS_def REJECT_CUTOFF_SCALE_IPV4_def REJECT_CUTOFF_SCALE_IPV6_def
  REJECT_CUTOFF_COUNT_IPV4_def REJECT_CUTOFF_COUNT_IPV6_def

text \<open>The loop that accepting and rejecting share, with its body; the final index is returned too.\<close>

function summary_loop ::
    "(policy_summary_item \<Rightarrow> policy_summary_item) \<Rightarrow> 16 word \<Rightarrow> policy_summary_item list \<Rightarrow> nat
     \<Rightarrow> policy_summary_item list \<times> nat" where
  "summary_loop body pmax summary i =
     (if i < length summary \<and> psi_prt_max (summary ! i) \<le> pmax
      then summary_loop body pmax (summary[i := body (summary ! i)]) (i + 1)
      else (summary, i))"
  by pat_completeness auto
termination by (relation "measure (\<lambda>(b, p, s, i). length s - i)") auto

declare summary_loop.simps [simp del]

definition accept_item :: "64 word \<Rightarrow> policy_summary_item \<Rightarrow> policy_summary_item" where
  "accept_item family_reject_count item =
     (if \<not> psi_accepted item \<and> reject_count item \<le> family_reject_count
      then item\<lparr>psi_accepted := True\<rparr> else item)"

definition policy_summary_accept ::
    "policy_summary_item list \<Rightarrow> 16 word \<Rightarrow> 16 word \<Rightarrow> sa_family \<Rightarrow> policy_summary_item list option" where
  "policy_summary_accept summary pmin pmax family =
     do { let family_reject_count =
            (if family = AF_INET then REJECT_CUTOFF_COUNT_IPV4 else REJECT_CUTOFF_COUNT_IPV6);
          (summary, i) \<leftarrow> policy_summary_split summary pmin pmax;
          let (summary, i) = summary_loop (accept_item family_reject_count) pmax summary i;
          if i < length summary \<or> pmax = 65535 then Some summary else None }"

abbreviation UINT64_MAX :: "64 word" where "UINT64_MAX \<equiv> - 1"

definition reject_item :: "64 word \<Rightarrow> policy_summary_item \<Rightarrow> policy_summary_item" where
  "reject_item cnt item =
     (if reject_count item \<le> UINT64_MAX - cnt
      then item\<lparr>reject_count := reject_count item + cnt\<rparr>
      else item\<lparr>reject_count := UINT64_MAX\<rparr>)"

text \<open>The number of addresses; nothing for a network that is too small to cnt.\<close>

definition rejected_count :: "nat \<Rightarrow> sa_family \<Rightarrow> 64 word option" where
  "rejected_count mbits family =
     (let addrbits = (if family = AF_INET then IPV4_BITS else IPV6_BITS);
          scale = (if family = AF_INET then REJECT_CUTOFF_SCALE_IPV4 else REJECT_CUTOFF_SCALE_IPV6)
      in if mbits > addrbits - scale then None
         else if addrbits - scale - mbits \<ge> 64 then Some UINT64_MAX
         else Some (push_bit (addrbits - scale - mbits) 1))"

definition policy_summary_reject ::
    "policy_summary_item list \<Rightarrow> nat \<Rightarrow> 16 word \<Rightarrow> 16 word \<Rightarrow> sa_family \<Rightarrow> policy_summary_item list option" where
  "policy_summary_reject summary mbits pmin pmax family =
     do { (summary, i) \<leftarrow> policy_summary_split summary pmin pmax;
          (case rejected_count mbits family of
             None \<Rightarrow> Some summary
           | Some cnt \<Rightarrow>
               do { let (summary, i) = summary_loop (reject_item cnt) pmax summary i;
                    if i < length summary \<or> pmax = 65535 then Some summary else None }) }"

text \<open>\<open>private_nets\<close> as \<open>tor_addr_parse_mask_ports\<close> reads them.\<close>

definition ipv6_net :: "bytes \<Rightarrow> tor_addr" where
  "ipv6_net net = ADDR_INET6 (net @ replicate (16 - length net) 0)"

definition private_nets :: "(tor_addr \<times> nat) list" where
  "private_nets =
     [(ADDR_INET 0x00000000, 8), (ADDR_INET 0xa9fe0000, 16), (ADDR_INET 0x7f000000, 8),
      (ADDR_INET 0xc0a80000, 16), (ADDR_INET 0x0a000000, 8), (ADDR_INET 0xac100000, 12),
      (ipv6_net [], 8), (ipv6_net [0xfc, 0], 7), (ipv6_net [0xfe, 0x80], 10),
      (ipv6_net [0xfe, 0xc0], 10), (ipv6_net [0xff, 0], 8), (ipv6_net [], 127)]"

definition is_private_net :: "addr_policy \<Rightarrow> bool" where
  "is_private_net p =
     list_ex (\<lambda>(addr, mbits). tor_addr_compare (pol_addr p) addr CMP_EXACT = 0 \<and> maskbits p = mbits) private_nets"

definition policy_summary_add_item ::
    "policy_summary_item list \<Rightarrow> addr_policy \<Rightarrow> policy_summary_item list option" where
  "policy_summary_add_item summary p =
     (if policy_type p = ADDR_POLICY_ACCEPT then
        if maskbits p = 0
        then policy_summary_accept summary (prt_min p) (prt_max p) (tor_addr_family (pol_addr p))
        else Some summary
      else if \<not> is_private_net p
        then policy_summary_reject summary (maskbits p) (prt_min p) (prt_max p) (tor_addr_family (pol_addr p))
        else Some summary)"

section \<open>The summary as a string\<close>

definition MAX_EXITPOLICY_SUMMARY_LEN :: nat where "MAX_EXITPOLICY_SUMMARY_LEN = 1000"

fun add_policy :: "sa_family \<Rightarrow> policy_summary_item list \<Rightarrow> addr_policy list \<Rightarrow> policy_summary_item list option" where
  "add_policy family summary [] = Some summary"
| "add_policy family summary (p # policy) =
     (if tor_addr_family (pol_addr p) \<noteq> family then add_policy family summary policy
      else do { summary \<leftarrow> policy_summary_add_item summary p; add_policy family summary policy })"

definition show_ports :: "nat \<Rightarrow> nat \<Rightarrow> string" where
  "show_ports start_prt end_prt =
     (if start_prt = end_prt then show_dec start_prt else show_dec start_prt @ ''-'' @ show_dec end_prt)"

text \<open>The loop that merges neighbouring items.\<close>

function ranges_of_summary ::
    "policy_summary_item list \<Rightarrow> nat \<Rightarrow> nat \<Rightarrow> string list \<Rightarrow> string list \<Rightarrow> (string list \<times> string list) option" where
  "ranges_of_summary summary i start_prt accepts rejects =
     (if \<not> i < length summary then None
      else let final = (i + 1 = length summary)
           in if final \<or> psi_accepted (summary ! i) \<noteq> psi_accepted (summary ! (i + 1)) then
                let buf = show_ports start_prt (unat (psi_prt_max (summary ! i)));
                    accepts = (if psi_accepted (summary ! i) then smartlist_add accepts buf else accepts);
                    rejects = (if psi_accepted (summary ! i) then rejects else smartlist_add rejects buf)
                in if final then Some (accepts, rejects)
                   else ranges_of_summary summary (i + 1) (unat (psi_prt_min (summary ! (i + 1)))) accepts rejects
              else ranges_of_summary summary (i + 1) start_prt accepts rejects)"
  by pat_completeness auto
termination by (relation "measure (\<lambda>(s, i, p, a, r). length s - i)") auto

declare ranges_of_summary.simps [simp del]

text \<open>The string up to its last comma at \<open>n\<close> or before.\<close>

fun cut_at_comma :: "string \<Rightarrow> nat \<Rightarrow> string option" where
  "cut_at_comma s 0 = (if take 1 s = '','' then Some [] else None)"
| "cut_at_comma s (Suc n) =
     (if length s \<le> Suc n then None else if s ! Suc n = CHR '','' then Some (take (Suc n) s) else cut_at_comma s n)"

definition shorter_summary :: "string list \<Rightarrow> string list \<Rightarrow> string option" where
  "shorter_summary accepts rejects =
     (if accepts = [] then Some ''reject 1-65535''
      else if rejects = [] then Some ''accept 1-65535''
      else let accepts_str = smartlist_join_strings2 accepts '','' False;
               rejects_str = smartlist_join_strings2 rejects '','' False
           in if length rejects_str > MAX_EXITPOLICY_SUMMARY_LEN - length ''reject'' - 1
                 \<and> length accepts_str > MAX_EXITPOLICY_SUMMARY_LEN - length ''accept'' - 1
              then do { s \<leftarrow> cut_at_comma accepts_str (MAX_EXITPOLICY_SUMMARY_LEN - length ''accept'' - 1);
                        Some (''accept '' @ s) }
              else if length rejects_str < length accepts_str then Some (''reject '' @ rejects_str)
              else Some (''accept '' @ accepts_str))"

definition policy_summarize :: "addr_policy list \<Rightarrow> sa_family \<Rightarrow> string option" where
  "policy_summarize policy family =
     do { summary \<leftarrow> add_policy family policy_summary_create policy;
          (accepts, rejects) \<leftarrow> ranges_of_summary summary 0 1 [] [];
          shorter_summary accepts rejects }"

section \<open>Short policies\<close>

record short_policy_entry =
  min_port :: "16 word"
  max_port :: "16 word"

record short_policy =
  is_accept :: bool
  sp_entries :: "short_policy_entry list"

lemma ulong_rest_len: "tor_parse_ulong s 10 lo hi True = (r, ok, out) \<Longrightarrow> length (the out) \<le> length s"
  and ulong_rest_less: "tor_parse_ulong s 10 lo hi True = (r, True, out) \<Longrightarrow> length (the out) < length s"
  using ulong_shorter by fastforce+

function parse_entries :: "string \<Rightarrow> short_policy_entry list \<Rightarrow> short_policy_entry list option" where
  "parse_entries summary es =
     (if summary = [] then Some es
      else if length es = MAX_EXITPOLICY_SUMMARY_LEN then None
      else case tor_parse_ulong summary 10 1 65535 True of (low, ok, out) \<Rightarrow>
        let nxt = the out in
        if \<not> ok then
          if \<not> TOR_ISDIGIT (hd summary) \<or> hd summary = CHR '','' then
            (case memchr nxt (CHR '','') of
               None \<Rightarrow> Some es
             | Some k \<Rightarrow> parse_entries (drop (k + 1) nxt) es)
          else None
        else
          (case nxt of
             [] \<Rightarrow> parse_entries [] (es @ [\<lparr>min_port = of_int low, max_port = of_int low\<rparr>])
           | c # rest \<Rightarrow>
               if c = CHR '','' then parse_entries rest (es @ [\<lparr>min_port = of_int low, max_port = of_int low\<rparr>])
               else if c = CHR ''-'' then
                 (case tor_parse_ulong rest 10 low 65535 True of (high, ok, out) \<Rightarrow>
                    let nxt = the out in
                    if \<not> ok then None
                    else if take 1 nxt = '','' then
                      parse_entries (drop 1 nxt) (es @ [\<lparr>min_port = of_int low, max_port = of_int high\<rparr>])
                    else if nxt \<noteq> [] then None
                    else parse_entries [] (es @ [\<lparr>min_port = of_int low, max_port = of_int high\<rparr>]))
               else None))"
  by pat_completeness auto
termination
proof (relation "measure (\<lambda>(s, es). length s)", goal_cases)
  case (2 summary es)
  then show ?case by (cases summary) (auto simp: less_Suc_eq_le dest!: sym [of _ "tor_parse_ulong _ _ _ _ _"] ulong_rest_len)
next
  case 4
  then show ?case
    by (auto dest!: sym [of _ "tor_parse_ulong _ _ _ _ _"] sym [of "_ # _" "the _"] ulong_rest_less)
next
  case 5
  then show ?case
    by (auto dest!: sym [of _ "tor_parse_ulong _ _ _ _ _"] sym [of "_ # _" "the _"] ulong_rest_less ulong_rest_len)
qed auto

declare parse_entries.simps [simp del]

definition parse_short_policy :: "string \<Rightarrow> short_policy option" where
  "parse_short_policy summary =
     do { (accept, summary) \<leftarrow>
            (if strcmpstart summary ''accept '' = 0 then Some (True, drop (length ''accept '') summary)
             else if strcmpstart summary ''reject '' = 0 then Some (False, drop (length ''reject '') summary)
             else None);
          es \<leftarrow> parse_entries summary [];
          if es = [] then None else Some \<lparr>is_accept = accept, sp_entries = es\<rparr> }"

definition show_entry :: "short_policy_entry \<Rightarrow> string" where
  "show_entry e =
     (if min_port e = max_port e then show_dec (unat (min_port e))
      else show_dec (unat (min_port e)) @ ''-'' @ show_dec (unat (max_port e)))"

text \<open>The pieces for the entries, with a comma after all but the last.\<close>

fun write_entries :: "string list \<Rightarrow> short_policy_entry list \<Rightarrow> string list" where
  "write_entries sl [] = sl"
| "write_entries sl [e] = smartlist_add sl (show_entry e)"
| "write_entries sl (e # f # es) = write_entries (smartlist_add (smartlist_add sl (show_entry e)) '','') (f # es)"

definition write_short_policy :: "short_policy \<Rightarrow> string" where
  "write_short_policy policy =
     (let sl = smartlist_add [] (if is_accept policy then ''accept '' else ''reject '')
      in smartlist_join_strings2 (write_entries sl (sp_entries policy)) [] False)"

text \<open>The address may be missing; a failed assertion is \<open>None\<close>. The option is an argument.\<close>

definition compare_tor_addr_to_short_policy ::
    "bool \<Rightarrow> tor_addr option \<Rightarrow> 16 word \<Rightarrow> short_policy \<Rightarrow> addr_policy_result option" where
  "compare_tor_addr_to_short_policy ClientRejectInternalAddresses addr port policy =
     (if port = 0 then None
      else let addr = (case addr of Some a \<Rightarrow> if tor_addr_is_null a then None else addr | None \<Rightarrow> None);
               internal = (case addr of None \<Rightarrow> False
                           | Some a \<Rightarrow> tor_addr_is_internal a False \<or> tor_addr_is_loopback a)
           in if ClientRejectInternalAddresses \<and> internal then Some ADDR_POLICY_REJECTED
              else let found_match = list_ex (\<lambda>e. min_port e \<le> port \<and> port \<le> max_port e) (sp_entries policy);
                       accept_ok = (if found_match then is_accept policy else \<not> is_accept policy)
                   in Some (if accept_ok then ADDR_POLICY_PROBABLY_ACCEPTED else ADDR_POLICY_REJECTED))"

definition short_policy_is_reject_star :: "short_policy \<Rightarrow> bool" where
  "short_policy_is_reject_star policy \<longleftrightarrow>
     \<not> is_accept policy \<and> length (sp_entries policy) = 1
     \<and> min_port (sp_entries policy ! 0) = 1 \<and> max_port (sp_entries policy ! 0) = 65535"

end
