(* ===== verification/Policy_Summary_Correct.thy ===== *)
theory Policy_Summary_Correct
  imports Policy_Summary
begin

text \<open>
  The items of a summary tile the ports 1 to 65535 and hold, for each port, how many addresses the
  policy rejects and whether it accepts the port; the string that is made of them is read back to a
  short policy that gives the same verdicts, or stricter ones when both lists of ports are too long.
\<close>

section \<open>Tilings\<close>

fun tiles :: "nat \<Rightarrow> policy_summary_item list \<Rightarrow> nat \<Rightarrow> bool" where
  "tiles a [] b \<longleftrightarrow> a = b"
| "tiles a (it # s) b \<longleftrightarrow>
     unat (psi_prt_min it) = a \<and> a \<le> unat (psi_prt_max it) \<and> tiles (Suc (unat (psi_prt_max it))) s b"

definition shows_state :: "policy_summary_item list \<Rightarrow> (16 word \<Rightarrow> 64 word \<times> bool) \<Rightarrow> bool" where
  "shows_state s f \<longleftrightarrow>
     (\<forall>it \<in> set s. \<forall>q. psi_prt_min it \<le> q \<longrightarrow> q \<le> psi_prt_max it \<longrightarrow> f q = (reject_count it, psi_accepted it))"

lemma tiles_append: "tiles a (xs @ ys) b \<longleftrightarrow> (\<exists>c. tiles a xs c \<and> tiles c ys b)"
  by (induction xs arbitrary: a) auto

lemma tiles_bounds:
  "tiles a s b \<Longrightarrow> a \<le> b \<and> (\<forall>it \<in> set s. a \<le> unat (psi_prt_min it)
     \<and> unat (psi_prt_min it) \<le> unat (psi_prt_max it) \<and> unat (psi_prt_max it) < b)"
  by (induction s arbitrary: a) fastforce+

lemma tiles_find:
  "tiles a s b \<Longrightarrow> a \<le> p \<Longrightarrow> p < b \<Longrightarrow>
   \<exists>xs it ys. s = xs @ it # ys \<and> tiles a xs (unat (psi_prt_min it)) \<and> unat (psi_prt_min it) \<le> p
     \<and> p \<le> unat (psi_prt_max it) \<and> tiles (Suc (unat (psi_prt_max it))) ys b"
proof (induction s arbitrary: a)
  case (Cons it s)
  show ?case
  proof (cases "p \<le> unat (psi_prt_max it)")
    case True
    with Cons.prems show ?thesis by (intro exI [of _ "[]"] exI [of _ it] exI [of _ s]) simp
  next
    case False
    with Cons.prems Cons.IH [of "Suc (unat (psi_prt_max it))"] obtain xs jt ys where
      "s = xs @ jt # ys" "tiles (Suc (unat (psi_prt_max it))) xs (unat (psi_prt_min jt))"
      "unat (psi_prt_min jt) \<le> p" "p \<le> unat (psi_prt_max jt)" "tiles (Suc (unat (psi_prt_max jt))) ys b" by auto
    with Cons.prems show ?thesis by (intro exI [of _ "it # xs"] exI [of _ jt] exI [of _ ys]) simp
  qed
qed simp

lemma find_item_skips:
  "\<forall>x \<in> set xs. psi_prt_max x < p \<Longrightarrow> p \<le> psi_prt_max it \<Longrightarrow>
   find_item (pre @ xs @ it # ys) p (length pre) = Some (length pre + length xs)"
proof (induction xs arbitrary: pre)
  case Nil
  then show ?case by (subst find_item.simps) (auto simp: nth_append linorder_not_less)
next
  case (Cons x xs)
  then show ?case
    using Cons.IH [of "pre @ [x]"] by (subst find_item.simps) (simp add: nth_append)
qed

lemma split_item:
  assumes "psi_prt_min it < p" "p \<le> psi_prt_max it"
  shows "policy_summary_item_split it p =
     Some (it\<lparr>psi_prt_max := p - 1\<rparr>,
           \<lparr>psi_prt_min = p, psi_prt_max = psi_prt_max it, reject_count = reject_count it, psi_accepted = psi_accepted it\<rparr>)"
    and "unat (p - 1) = unat p - 1"
proof -
  have "p \<noteq> 0" using assms(1) by (auto simp: word_less_nat_alt)
  then show u: "unat (p - 1) = unat p - 1" by (rule unat_minus_one)
  with assms show "policy_summary_item_split it p =
     Some (it\<lparr>psi_prt_max := p - 1\<rparr>,
           \<lparr>psi_prt_min = p, psi_prt_max = psi_prt_max it, reject_count = reject_count it, psi_accepted = psi_accepted it\<rparr>)"
    by (auto simp: policy_summary_item_split_def Let_def word_le_nat_alt word_less_nat_alt)
qed

text \<open>An item cut in two.\<close>

lemma cut_tiles:
  assumes "tiles a (xs @ it # ys) b" "psi_prt_min it < p" "p \<le> psi_prt_max it"
  defines "old \<equiv> it\<lparr>psi_prt_max := p - 1\<rparr>"
    and "nit \<equiv> \<lparr>psi_prt_min = p, psi_prt_max = psi_prt_max it, reject_count = reject_count it, psi_accepted = psi_accepted it\<rparr>"
  shows "tiles a (xs @ [old]) (unat p)" "tiles (unat p) (nit # ys) b"
    and "shows_state (xs @ it # ys) f \<Longrightarrow> shows_state (xs @ old # nit # ys) f"
proof -
  have u: "unat (p - 1) = unat p - 1" by (rule split_item(2) [OF assms(2,3)])
  have lt: "unat (psi_prt_min it) < unat p" "unat p \<le> unat (psi_prt_max it)"
    using assms(2,3) by (simp_all add: word_less_nat_alt word_le_nat_alt)
  obtain c where c: "tiles a xs c" "tiles c (it # ys) b" using assms(1) by (auto simp: tiles_append)
  have "tiles c [old] (unat p)" using c(2) lt u by (simp add: old_def)
  with c(1) show "tiles a (xs @ [old]) (unat p)" using tiles_append by blast
  show "tiles (unat p) (nit # ys) b" using c(2) lt u by (simp add: nit_def)
  have "q \<le> p - 1 \<Longrightarrow> q \<le> psi_prt_max it" "p \<le> q \<Longrightarrow> psi_prt_min it \<le> q" for q
    using lt u by (simp_all add: word_le_nat_alt)
  then show "shows_state (xs @ it # ys) f \<Longrightarrow> shows_state (xs @ old # nit # ys) f"
    by (auto simp: shows_state_def old_def nit_def)
qed

lemma insert_after: "smartlist_insert ((xs @ it # ys)[length xs := old]) (Suc (length xs)) nit = Some (xs @ old # nit # ys)"
  by (simp add: smartlist_insert_def smartlist_add_def)

text \<open>After splitting, the ports of a range are the tiles of a segment.\<close>

lemma split_ok:
  assumes "tiles 1 s 65536" "shows_state s f" "1 \<le> pmin" "pmin \<le> pmax"
  shows "\<exists>pre mid post. policy_summary_split s pmin pmax = Some (pre @ mid @ post, length pre)
     \<and> tiles 1 pre (unat pmin) \<and> tiles (unat pmin) mid (Suc (unat pmax)) \<and> tiles (Suc (unat pmax)) post 65536
     \<and> shows_state (pre @ mid @ post) f"
proof -
  have n: "1 \<le> unat pmin" "unat pmin \<le> unat pmax" "unat pmax < 65536" "unat pmin < 65536"
    using assms(3,4) unsigned_less [of pmax, where 'a = nat] unsigned_less [of pmin, where 'a = nat]
    by (simp_all add: word_le_nat_alt)
  obtain xs it ys where s: "s = xs @ it # ys" "tiles 1 xs (unat (psi_prt_min it))"
    "psi_prt_min it \<le> pmin" "pmin \<le> psi_prt_max it" "tiles (Suc (unat (psi_prt_max it))) ys 65536"
    using tiles_find [OF assms(1) n(1) n(4)] by (auto simp: word_le_nat_alt)
  have "\<forall>x \<in> set xs. psi_prt_max x < pmin"
    using tiles_bounds [OF s(2)] s(3) by (auto simp: word_le_nat_alt word_less_nat_alt)
  then have f1: "find_item s pmin 0 = Some (length xs)"
    using find_item_skips [of xs pmin it "[]" ys] s by simp
  let ?A = "if psi_prt_min (s ! length xs) \<noteq> pmin then
               do { (old, new_item) \<leftarrow> policy_summary_item_split (s ! length xs) pmin;
                    summary \<leftarrow> smartlist_insert (s[length xs := old]) (length xs + 1) new_item;
                    Some (summary, length xs + 1) }
             else Some (s, length xs)"
  have "\<exists>pre rest. ?A = Some (pre @ rest, length pre) \<and> tiles 1 pre (unat pmin) \<and> tiles (unat pmin) rest 65536
     \<and> shows_state (pre @ rest) f"
  proof (cases "psi_prt_min it = pmin")
    case True
    then show ?thesis using s assms(1,2) n by (intro exI [of _ xs] exI [of _ "it # ys"]) (auto simp: word_le_nat_alt)
  next
    case False
    then have lt: "psi_prt_min it < pmin" using s(3) by simp
    let ?old = "it\<lparr>psi_prt_max := pmin - 1\<rparr>"
    let ?new = "\<lparr>psi_prt_min = pmin, psi_prt_max = psi_prt_max it, reject_count = reject_count it, psi_accepted = psi_accepted it\<rparr>"
    have "?A = Some ((xs @ [?old]) @ (?new # ys), length (xs @ [?old]))"
      using False s(1) insert_after [of xs it ys ?old ?new] split_item(1) [OF lt s(4)] by simp
    with cut_tiles [OF assms(1) [unfolded s(1)] lt s(4)] assms(2) s(1) show ?thesis
      by (intro exI [of _ "xs @ [?old]"] exI [of _ "?new # ys"]) simp
  qed
  then obtain pre rest where A: "?A = Some (pre @ rest, length pre)" "tiles 1 pre (unat pmin)"
    "tiles (unat pmin) rest 65536" "shows_state (pre @ rest) f" by blast
  obtain zs jt ws where r: "rest = zs @ jt # ws" "tiles (unat pmin) zs (unat (psi_prt_min jt))"
    "psi_prt_min jt \<le> pmax" "pmax \<le> psi_prt_max jt" "tiles (Suc (unat (psi_prt_max jt))) ws 65536"
    using tiles_find [OF A(3) n(2,3)] by (auto simp: word_le_nat_alt)
  have "\<forall>x \<in> set zs. psi_prt_max x < pmax"
    using tiles_bounds [OF r(2)] r(3) by (auto simp: word_le_nat_alt word_less_nat_alt)
  then have f2: "find_item (pre @ rest) pmax (length pre) = Some (length (pre @ zs))"
    using find_item_skips [of zs pmax jt pre ws] r by simp
  have at: "(pre @ rest) ! length (pre @ zs) = jt" using r(1) by (simp add: nth_append)
  show ?thesis
  proof (cases "psi_prt_max jt = pmax")
    case True
    then have "policy_summary_split s pmin pmax = Some (pre @ (zs @ [jt]) @ ws, length pre)"
      unfolding policy_summary_split_def f1 using A(1) f2 at r(1) by simp
    moreover have "tiles (unat pmin) (zs @ [jt]) (Suc (unat pmax))"
      using r(2,3,4) True by (auto simp: tiles_append word_le_nat_alt)
    ultimately show ?thesis using A(2,4) r True by (intro exI [of _ pre] exI [of _ "zs @ [jt]"] exI [of _ ws]) simp
  next
    case False
    then have "pmax < psi_prt_max jt" using r(4) by simp
    then have p: "unat (pmax + 1) = Suc (unat pmax)" "psi_prt_min jt < pmax + 1" "pmax + 1 \<le> psi_prt_max jt"
      using r(3) unsigned_less [of "psi_prt_max jt", where 'a = nat]
      by (auto simp: word_less_nat_alt word_le_nat_alt unat_word_ariths)
    let ?old = "jt\<lparr>psi_prt_max := (pmax + 1) - 1\<rparr>"
    let ?new = "\<lparr>psi_prt_min = pmax + 1, psi_prt_max = psi_prt_max jt, reject_count = reject_count jt, psi_accepted = psi_accepted jt\<rparr>"
    have "policy_summary_split s pmin pmax = Some (pre @ (zs @ [?old]) @ (?new # ws), length pre)"
      unfolding policy_summary_split_def f1
      using A(1) f2 at r(1) False insert_after [of "pre @ zs" jt ws ?old ?new] split_item(1) [OF p(2,3)] by simp
    with cut_tiles(1,2) [OF A(3) [unfolded r(1)] p(2,3)] cut_tiles(3) [of _ "pre @ zs", OF _ p(2,3), of 1 ws 65536 f] A r(1) p(1)
    show ?thesis using tiles_append [of 1 pre rest 65536]
      by (intro exI [of _ pre] exI [of _ "zs @ [?old]"] exI [of _ "?new # ws"]) auto
  qed
qed

section \<open>Adding an entry\<close>

lemma summary_loop_segment:
  assumes "\<forall>x \<in> set mid. psi_prt_max x \<le> pmax" "post = [] \<or> pmax < psi_prt_max (hd post)"
  shows "summary_loop body pmax (pre @ mid @ post) (length pre) = (pre @ map body mid @ post, length pre + length mid)"
  using assms(1)
proof (induction mid arbitrary: pre)
  case Nil
  then show ?case using assms(2) by (subst summary_loop.simps) (cases post; auto simp: nth_append)
next
  case (Cons x mid)
  then show ?case using Cons.IH [of "pre @ [body x]"] by (subst summary_loop.simps) (simp add: nth_append)
qed

definition keeps_ports :: "(policy_summary_item \<Rightarrow> policy_summary_item) \<Rightarrow> bool" where
  "keeps_ports body \<longleftrightarrow> (\<forall>it. psi_prt_min (body it) = psi_prt_min it \<and> psi_prt_max (body it) = psi_prt_max it)"

lemma keeps_tiles: "keeps_ports body \<Longrightarrow> tiles a (map body s) b = tiles a s b"
  by (induction s arbitrary: a) (auto simp: keeps_ports_def)

lemma segment_ok:
  assumes "tiles 1 pre (unat pmin)" "tiles (unat pmin) mid (Suc (unat pmax))" "tiles (Suc (unat pmax)) post 65536"
    "shows_state (pre @ mid @ post) f" "keeps_ports body"
    "\<And>it. (reject_count (body it), psi_accepted (body it)) = upd (reject_count it, psi_accepted it)"
  shows "\<exists>s i. summary_loop body pmax (pre @ mid @ post) (length pre) = (s, i)
     \<and> (i < length s \<or> pmax = 65535) \<and> tiles 1 s 65536
     \<and> shows_state s (\<lambda>q. if pmin \<le> q \<and> q \<le> pmax then upd (f q) else f q)"
proof -
  have b1: "x \<in> set pre \<Longrightarrow> psi_prt_max x < pmin" for x
    using tiles_bounds [OF assms(1)] by (auto simp: word_less_nat_alt)
  have b2: "x \<in> set mid \<Longrightarrow> pmin \<le> psi_prt_min x \<and> psi_prt_max x \<le> pmax" for x
    using tiles_bounds [OF assms(2)] by (fastforce simp: word_le_nat_alt)
  have b3: "x \<in> set post \<Longrightarrow> pmax < psi_prt_min x \<and> pmax < psi_prt_max x" for x
    using tiles_bounds [OF assms(3)] by (fastforce simp: word_less_nat_alt)
  let ?s = "pre @ map body mid @ post"
  have "summary_loop body pmax (pre @ mid @ post) (length pre) = (?s, length pre + length mid)"
    using b2 b3 hd_in_set [of post] by (intro summary_loop_segment) blast+
  moreover have "length pre + length mid < length ?s \<or> pmax = 65535"
  proof (cases post)
    case Nil
    with assms(3) have "unat pmax = unat (65535 :: 16 word)" by simp
    then show ?thesis using word_unat_eq_iff [of pmax 65535] by blast
  qed simp
  moreover have "tiles 1 ?s 65536" using assms(1-3,5) by (auto simp: tiles_append keeps_tiles)
  moreover have "shows_state ?s (\<lambda>q. if pmin \<le> q \<and> q \<le> pmax then upd (f q) else f q)"
    unfolding shows_state_def
  proof (intro ballI allI impI)
    fix it q assume a: "it \<in> set ?s" "psi_prt_min it \<le> q" "q \<le> psi_prt_max it"
    from a(1) consider "it \<in> set pre" | jt where "jt \<in> set mid" "it = body jt" | "it \<in> set post" by auto
    then show "(if pmin \<le> q \<and> q \<le> pmax then upd (f q) else f q) = (reject_count it, psi_accepted it)"
    proof cases
      case 1
      then show ?thesis using b1 [OF 1] a assms(4) by (auto simp: shows_state_def)
    next
      case 2
      then have "f q = (reject_count jt, psi_accepted jt)" "pmin \<le> q" "q \<le> pmax"
        using assms(4,5) a b2 [OF 2(1)] by (auto simp: shows_state_def keeps_ports_def)
      then show ?thesis using 2(2) assms(6) by simp
    next
      case 3
      then show ?thesis using b3 [OF 3] a assms(4) by (auto simp: shows_state_def)
    qed
  qed
  ultimately show ?thesis by blast
qed

text \<open>The counting rule of the items: how many addresses an entry rejects, in IPv6 how many networks /64,
  and whether an entry accepts a port everywhere before too many are counted. What this says of the
  verdicts of the policy is the subject of \<open>Policy_Summary_Verdict\<close>.\<close>

definition networks :: "sa_family \<Rightarrow> nat \<Rightarrow> nat" where
  "networks family mbits = (if family = AF_INET then 2 ^ (32 - mbits) else if mbits \<le> 64 then 2 ^ (64 - mbits) else 0)"

definition concerns :: "sa_family \<Rightarrow> 16 word \<Rightarrow> addr_policy \<Rightarrow> bool" where
  "concerns family q p \<longleftrightarrow> tor_addr_family (pol_addr p) = family \<and> prt_min p \<le> q \<and> q \<le> prt_max p"

definition rejected_networks :: "sa_family \<Rightarrow> addr_policy list \<Rightarrow> 16 word \<Rightarrow> nat" where
  "rejected_networks family policy q =
     sum_list (map (\<lambda>p. networks family (maskbits p))
       (filter (\<lambda>p. concerns family q p \<and> policy_type p = ADDR_POLICY_REJECT \<and> \<not> is_private_net p) policy))"

definition reject_cutoff :: "sa_family \<Rightarrow> nat" where
  "reject_cutoff family = (if family = AF_INET then 2 ^ 25 else 2 ^ 48)"

definition port_accepted :: "sa_family \<Rightarrow> addr_policy list \<Rightarrow> 16 word \<Rightarrow> bool" where
  "port_accepted family policy q \<longleftrightarrow>
     (\<exists>i < length policy. concerns family q (policy ! i) \<and> policy_type (policy ! i) = ADDR_POLICY_ACCEPT
        \<and> maskbits (policy ! i) = 0 \<and> rejected_networks family (take i policy) q \<le> reject_cutoff family)"

definition entry_ok :: "addr_policy \<Rightarrow> bool" where
  "entry_ok p \<longleftrightarrow> 1 \<le> prt_min p \<and> prt_min p \<le> prt_max p
     \<and> (tor_addr_family (pol_addr p) = AF_INET \<longrightarrow> maskbits p \<le> 32)"

text \<open>The state of a port after the entries so far; the counter saturates.\<close>

definition sat64 :: "nat \<Rightarrow> 64 word" where
  "sat64 n = of_nat (min (2 ^ 64 - 1) n)"

definition port_state :: "sa_family \<Rightarrow> addr_policy list \<Rightarrow> 16 word \<Rightarrow> 64 word \<times> bool" where
  "port_state family policy q =
     (sat64 (rejected_networks family policy q), port_accepted family policy q)"

lemma rejected_snoc:
  "rejected_networks family (policy @ [p]) q = rejected_networks family policy q
     + (if concerns family q p \<and> policy_type p = ADDR_POLICY_REJECT \<and> \<not> is_private_net p
        then networks family (maskbits p) else 0)"
  by (simp add: rejected_networks_def)

lemma ex_less_snoc:
  "(\<exists>i < length (xs @ [x]). P ((xs @ [x]) ! i) (take i (xs @ [x]))) \<longleftrightarrow>
   (\<exists>i < length xs. P (xs ! i) (take i xs)) \<or> P x xs"
proof -
  have "i < length xs \<Longrightarrow> (xs @ [x]) ! i = xs ! i \<and> take i (xs @ [x]) = take i xs" for i by (simp add: nth_append)
  moreover have "(xs @ [x]) ! length xs = x" "take (length xs) (xs @ [x]) = xs" by simp_all
  ultimately show ?thesis unfolding length_append_singleton by (metis less_Suc_eq)
qed

lemma accepted_snoc:
  "port_accepted family (policy @ [p]) q \<longleftrightarrow> port_accepted family policy q
     \<or> concerns family q p \<and> policy_type p = ADDR_POLICY_ACCEPT \<and> maskbits p = 0
       \<and> rejected_networks family policy q \<le> reject_cutoff family"
  unfolding port_accepted_def
  by (rule ex_less_snoc [where P = "\<lambda>e l. concerns family q e \<and> policy_type e = ADDR_POLICY_ACCEPT \<and> maskbits e = 0
        \<and> rejected_networks family l q \<le> reject_cutoff family"])

lemma unat_of_nat_64: "a < 2 ^ 64 \<Longrightarrow> unat (of_nat a :: 64 word) = a"
  unfolding unat_of_nat by (rule mod_less) simp

lemma of_nat_le_64: "a < 2 ^ 64 \<Longrightarrow> b < 2 ^ 64 \<Longrightarrow> (of_nat a :: 64 word) \<le> of_nat b \<longleftrightarrow> a \<le> b"
  unfolding word_le_nat_alt by (simp only: unat_of_nat_64)

lemma saturating_add:
  "(if sat64 m \<le> UINT64_MAX - sat64 n then sat64 m + sat64 n else UINT64_MAX) = sat64 (m + n)"
proof -
  define M :: nat where "M = 2 ^ 64 - 1"
  define c where "c = min M n"
  have M: "M < 2 ^ 64" "c \<le> M" by (simp_all add: M_def c_def)
  have mx: "UINT64_MAX = of_nat M" by (simp add: M_def)
  have d: "of_nat M - of_nat c = (of_nat (M - c) :: 64 word)" using M(2) by (simp only: of_nat_diff)
  have le: "(of_nat (min M m) :: 64 word) \<le> of_nat (M - c) \<longleftrightarrow> min M m \<le> M - c"
    using M by (intro of_nat_le_64) linarith+
  have "min M m + c = min M (m + c)" if "min M m \<le> M - c" using that M(2) by linarith
  moreover have "min M (m + c) = M" if "\<not> min M m \<le> M - c" using that by linarith
  ultimately have "(if (of_nat (min M m) :: 64 word) \<le> of_nat (M - c)
      then of_nat (min M m) + of_nat c else of_nat M) = (of_nat (min M (m + c)) :: 64 word)"
    unfolding le by (metis of_nat_add)
  moreover have "min M (m + c) = min M (m + n)" unfolding c_def by linarith
  ultimately show ?thesis unfolding sat64_def mx M_def [symmetric] c_def [symmetric] d by simp
qed

lemma keeps_bodies: "keeps_ports (accept_item c)" "keeps_ports (reject_item c)"
  by (simp_all add: keeps_ports_def accept_item_def reject_item_def)

lemma reject_cutoff_word:
  "(if family = AF_INET then REJECT_CUTOFF_COUNT_IPV4 else REJECT_CUTOFF_COUNT_IPV6) = of_nat (reject_cutoff family)"
  by (simp add: cutoff_defs reject_cutoff_def push_bit_eq_mult)

lemma below_cutoff:
  "sat64 r \<le> of_nat (reject_cutoff family) \<longleftrightarrow> r \<le> reject_cutoff family"
proof -
  have c: "reject_cutoff family < 2 ^ 64 - 1" by (simp add: reject_cutoff_def)
  have "(of_nat (min (2 ^ 64 - 1) r) :: 64 word) \<le> of_nat (reject_cutoff family) \<longleftrightarrow> min (2 ^ 64 - 1) r \<le> reject_cutoff family"
    using c by (intro of_nat_le_64) linarith+
  with c show ?thesis unfolding sat64_def by linarith
qed

lemma accepts_ok:
  assumes "tiles 1 s 65536" "shows_state s (port_state family policy)" "entry_ok p"
    "tor_addr_family (pol_addr p) = family" "policy_type p = ADDR_POLICY_ACCEPT" "maskbits p = 0"
  shows "\<exists>s'. policy_summary_accept s (prt_min p) (prt_max p) family = Some s' \<and> tiles 1 s' 65536
     \<and> shows_state s' (port_state family (policy @ [p]))"
proof -
  let ?c = "of_nat (reject_cutoff family) :: 64 word"
  let ?upd = "\<lambda>(c, a). (c, a \<or> c \<le> ?c)"
  obtain pre mid post where s: "policy_summary_split s (prt_min p) (prt_max p) = Some (pre @ mid @ post, length pre)"
    "tiles 1 pre (unat (prt_min p))" "tiles (unat (prt_min p)) mid (Suc (unat (prt_max p)))"
    "tiles (Suc (unat (prt_max p))) post 65536" "shows_state (pre @ mid @ post) (port_state family policy)"
    using split_ok [OF assms(1,2)] assms(3) unfolding entry_ok_def by blast
  have "(reject_count (accept_item ?c it), psi_accepted (accept_item ?c it)) = ?upd (reject_count it, psi_accepted it)" for it
    by (simp add: accept_item_def)
  from segment_ok [OF s(2-5) keeps_bodies(1) this] obtain s' i where
    l: "summary_loop (accept_item ?c) (prt_max p) (pre @ mid @ post) (length pre) = (s', i)" "i < length s' \<or> prt_max p = 65535"
    "tiles 1 s' 65536"
    "shows_state s' (\<lambda>q. if prt_min p \<le> q \<and> q \<le> prt_max p then ?upd (port_state family policy q) else port_state family policy q)"
    by blast
  have "(\<lambda>q. if prt_min p \<le> q \<and> q \<le> prt_max p then ?upd (port_state family policy q) else port_state family policy q)
      = port_state family (policy @ [p])"
    using assms(4-6) below_cutoff
    by (intro ext) (auto simp: port_state_def accepted_snoc rejected_snoc concerns_def)
  with l s(1) show ?thesis unfolding policy_summary_accept_def reject_cutoff_word by auto
qed

lemma rejected_count_networks:
  assumes "family = AF_INET \<longrightarrow> mbits \<le> 32"
  shows "rejected_count mbits family =
    (if networks family mbits = 0 then None else Some (sat64 (networks family mbits)))"
proof (cases "family = AF_INET")
  case True
  have "(2 :: nat) ^ (32 - mbits) \<le> 2 ^ 32" by (rule power_increasing) simp_all
  then have "min (2 ^ 64 - 1) ((2 :: nat) ^ (32 - mbits)) = 2 ^ (32 - mbits)" by simp
  then show ?thesis using True assms
    by (simp add: rejected_count_def networks_def cutoff_defs push_bit_eq_mult Let_def sat64_def)
next
  case False
  show ?thesis
  proof (cases "mbits = 0")
    case True
    with False show ?thesis by (simp add: rejected_count_def networks_def cutoff_defs sat64_def)
  next
    case nz: False
    have "(2 :: nat) ^ (64 - mbits) \<le> 2 ^ 63" using nz by (intro power_increasing) simp_all
    then have "min (2 ^ 64 - 1) ((2 :: nat) ^ (64 - mbits)) = 2 ^ (64 - mbits)" by simp
    with False nz show ?thesis
      by (auto simp: rejected_count_def networks_def cutoff_defs push_bit_eq_mult Let_def sat64_def)
  qed
qed

lemma rejects_ok:
  assumes "tiles 1 s 65536" "shows_state s (port_state family policy)" "entry_ok p"
    "tor_addr_family (pol_addr p) = family" "policy_type p = ADDR_POLICY_REJECT" "\<not> is_private_net p"
  shows "\<exists>s'. policy_summary_reject s (maskbits p) (prt_min p) (prt_max p) family = Some s' \<and> tiles 1 s' 65536
     \<and> shows_state s' (port_state family (policy @ [p]))"
proof -
  let ?n = "networks family (maskbits p)"
  let ?c = "sat64 ?n"
  let ?upd = "\<lambda>(c, a). (if c \<le> UINT64_MAX - ?c then c + ?c else UINT64_MAX, a)"
  obtain pre mid post where s: "policy_summary_split s (prt_min p) (prt_max p) = Some (pre @ mid @ post, length pre)"
    "tiles 1 pre (unat (prt_min p))" "tiles (unat (prt_min p)) mid (Suc (unat (prt_max p)))"
    "tiles (Suc (unat (prt_max p))) post 65536" "shows_state (pre @ mid @ post) (port_state family policy)"
    using split_ok [OF assms(1,2)] assms(3) unfolding entry_ok_def by blast
  have cnt: "rejected_count (maskbits p) family = (if ?n = 0 then None else Some ?c)"
    using assms(3,4) by (intro rejected_count_networks) (simp add: entry_ok_def)
  show ?thesis
  proof (cases "?n = 0")
    case True
    then have "port_state family (policy @ [p]) = port_state family policy"
      using assms(4,5) by (intro ext) (simp add: port_state_def accepted_snoc rejected_snoc)
    with True s cnt show ?thesis by (auto simp: policy_summary_reject_def tiles_append)
  next
    case False
    have "(reject_count (reject_item ?c it), psi_accepted (reject_item ?c it)) = ?upd (reject_count it, psi_accepted it)" for it
      by (simp add: reject_item_def)
    from segment_ok [OF s(2-5) keeps_bodies(2) this] obtain s' i where
      l: "summary_loop (reject_item ?c) (prt_max p) (pre @ mid @ post) (length pre) = (s', i)" "i < length s' \<or> prt_max p = 65535"
      "tiles 1 s' 65536"
      "shows_state s' (\<lambda>q. if prt_min p \<le> q \<and> q \<le> prt_max p then ?upd (port_state family policy q) else port_state family policy q)"
      by blast
    have "(\<lambda>q. if prt_min p \<le> q \<and> q \<le> prt_max p then ?upd (port_state family policy q) else port_state family policy q)
        = port_state family (policy @ [p])"
      using assms(4-6) saturating_add by (intro ext) (simp add: port_state_def accepted_snoc rejected_snoc concerns_def)
    with l s(1) False cnt show ?thesis by (auto simp: policy_summary_reject_def)
  qed
qed

lemma add_item_ok:
  assumes "tiles 1 s 65536" "shows_state s (port_state family policy)" "entry_ok p" "tor_addr_family (pol_addr p) = family"
  shows "\<exists>s'. policy_summary_add_item s p = Some s' \<and> tiles 1 s' 65536 \<and> shows_state s' (port_state family (policy @ [p]))"
proof -
  have same: "port_state family (policy @ [p]) = port_state family policy"
    if "policy_type p = ADDR_POLICY_ACCEPT \<and> maskbits p \<noteq> 0 \<or> policy_type p = ADDR_POLICY_REJECT \<and> is_private_net p"
    using that by (intro ext) (auto simp: port_state_def accepted_snoc rejected_snoc)
  show ?thesis
  proof (cases "policy_type p")
    case ADDR_POLICY_ACCEPT
    with accepts_ok [OF assms] same assms show ?thesis
      by (cases "maskbits p = 0") (simp_all add: policy_summary_add_item_def)
  next
    case ADDR_POLICY_REJECT
    with rejects_ok [OF assms] same assms show ?thesis
      by (cases "is_private_net p") (simp_all add: policy_summary_add_item_def)
  qed
qed

lemma port_state_other: "tor_addr_family (pol_addr p) \<noteq> family \<Longrightarrow> port_state family (policy @ [p]) = port_state family policy"
  by (intro ext) (simp add: port_state_def accepted_snoc rejected_snoc concerns_def)

lemma add_policy_ok:
  "list_all entry_ok policy \<Longrightarrow> tiles 1 s 65536 \<Longrightarrow> shows_state s (port_state family before) \<Longrightarrow>
   \<exists>s'. add_policy family s policy = Some s' \<and> tiles 1 s' 65536 \<and> shows_state s' (port_state family (before @ policy))"
proof (induction policy arbitrary: s before)
  case (Cons p policy)
  show ?case
  proof (cases "tor_addr_family (pol_addr p) = family")
    case True
    with Cons.prems add_item_ok [of s family before p] obtain s' where
      "policy_summary_add_item s p = Some s'" "tiles 1 s' 65536" "shows_state s' (port_state family (before @ [p]))" by auto
    with Cons.IH [of s' "before @ [p]"] Cons.prems True show ?thesis by auto
  next
    case False
    with Cons.IH [of s "before @ [p]"] Cons.prems port_state_other [OF False, of before] show ?thesis by auto
  qed
qed simp

lemma create_ok: "tiles 1 policy_summary_create 65536" "shows_state policy_summary_create (port_state family [])"
  by (simp_all add: policy_summary_create_def smartlist_add_def shows_state_def port_state_def
      sat64_def rejected_networks_def port_accepted_def)

section \<open>The lists of ports\<close>

definition in_ranges :: "(nat \<times> nat) list \<Rightarrow> nat \<Rightarrow> bool" where
  "in_ranges rs q \<longleftrightarrow> (\<exists>r \<in> set rs. fst r \<le> q \<and> q \<le> snd r)"

definition range_ok :: "nat \<times> nat \<Rightarrow> bool" where
  "range_ok r \<longleftrightarrow> 1 \<le> fst r \<and> fst r \<le> snd r \<and> snd r \<le> 65535"

definition show_pair :: "nat \<times> nat \<Rightarrow> string" where
  "show_pair r = show_ports (fst r) (snd r)"

lemma in_ranges_simps [simp]: "in_ranges [] q = False"
  "in_ranges (r # rs) q \<longleftrightarrow> fst r \<le> q \<and> q \<le> snd r \<or> in_ranges rs q"
  by (auto simp: in_ranges_def)

lemma in_ranges_from: "in_ranges rs q \<Longrightarrow> \<forall>r \<in> set rs. start \<le> fst r \<Longrightarrow> start \<le> q"
  by (auto simp: in_ranges_def)

text \<open>Ranges in order, with a port between any two: the one list of fewest ranges for its ports.\<close>

fun canonical :: "(nat \<times> nat) list \<Rightarrow> bool" where
  "canonical [] \<longleftrightarrow> True"
| "canonical (r # rs) \<longleftrightarrow> range_ok r \<and> (case rs of [] \<Rightarrow> True | r' # _ \<Rightarrow> Suc (snd r) < fst r') \<and> canonical rs"

lemma canonical_ranges: "canonical rs \<Longrightarrow> \<forall>r \<in> set rs. range_ok r"
  by (induction rs) auto

text \<open>What the loop adds from an item on, when the ports from \<open>start\<close> to the item have its verdict.\<close>

definition ranges_from ::
    "(16 word \<Rightarrow> 64 word \<times> bool) \<Rightarrow> nat \<Rightarrow> (nat \<times> nat) list \<Rightarrow> (nat \<times> nat) list \<Rightarrow> bool" where
  "ranges_from f start ra rr \<longleftrightarrow>
     canonical ra \<and> canonical rr \<and> (\<forall>r \<in> set (ra @ rr). start \<le> fst r)
     \<and> (\<forall>q. start \<le> unat q \<longrightarrow> in_ranges ra (unat q) = snd (f q) \<and> in_ranges rr (unat q) = (\<not> snd (f q)))"

lemma canonical_add:
  assumes "canonical rs" "range_ok (start, e)" "\<forall>r \<in> set rs. Suc e \<le> fst r" "\<not> in_ranges rs (Suc e)"
  shows "canonical ((start, e) # rs)"
proof (cases rs)
  case (Cons r rs')
  with assms have "fst r \<noteq> Suc e" by (auto simp: range_ok_def)
  with Cons assms show ?thesis by auto
qed (use assms in simp)

lemma ranges_from_step:
  assumes "ranges_from f (Suc e) ra rr" "start \<le> e" "1 \<le> start" "e \<le> 65535"
    "\<forall>q. start \<le> unat q \<longrightarrow> unat q \<le> e \<longrightarrow> snd (f q) = a"
    "\<forall>q. unat q = Suc e \<longrightarrow> snd (f q) = (\<not> a)"
  shows "ranges_from f start (if a then (start, e) # ra else ra) (if a then rr else (start, e) # rr)"
proof -
  have n: "\<not> in_ranges ra q" "\<not> in_ranges rr q" if "q \<le> e" for q
    using assms(1) that in_ranges_from [of ra q "Suc e"] in_ranges_from [of rr q "Suc e"]
    by (auto simp: ranges_from_def)
  have c: "canonical ra" "canonical rr" "\<forall>r \<in> set ra. Suc e \<le> fst r" "\<forall>r \<in> set rr. Suc e \<le> fst r"
    using assms(1) by (auto simp: ranges_from_def)
  have o: "range_ok (start, e)" using assms(2-4) by (simp add: range_ok_def)
  have g: "\<not> in_ranges (if a then ra else rr) (Suc e)"
  proof (cases "e = 65535")
    case True
    then have "\<not> in_ranges ra (Suc e)" "\<not> in_ranges rr (Suc e)"
      using canonical_ranges [OF c(1)] canonical_ranges [OF c(2)] by (auto simp: in_ranges_def range_ok_def)
    then show ?thesis by simp
  next
    case False
    then have u: "unat (of_nat (Suc e) :: 16 word) = Suc e" using assms(4) unfolding unat_of_nat by (intro mod_less) simp
    with assms(6) have "snd (f (of_nat (Suc e))) = (\<not> a)" by blast
    moreover have "in_ranges ra (Suc e) = snd (f (of_nat (Suc e)))" "in_ranges rr (Suc e) = (\<not> snd (f (of_nat (Suc e))))"
      using assms(1) u unfolding ranges_from_def by (metis order_refl)+
    ultimately show ?thesis by simp
  qed
  show ?thesis unfolding ranges_from_def
  proof (intro conjI allI impI)
    show "canonical (if a then (start, e) # ra else ra)" "canonical (if a then rr else (start, e) # rr)"
      using canonical_add [OF c(1) o c(3)] canonical_add [OF c(2) o c(4)] c(1,2) g by (simp_all split: if_splits)
    show "\<forall>r \<in> set ((if a then (start, e) # ra else ra) @ (if a then rr else (start, e) # rr)). start \<le> fst r"
      using c(3,4) assms(2) by (auto dest: bspec intro: order_trans [of start "Suc e"])
  next
    fix q :: "16 word" assume q: "start \<le> unat q"
    show "in_ranges (if a then (start, e) # ra else ra) (unat q) = snd (f q)"
      using assms(1,5) q n [of "unat q"] by (cases "unat q \<le> e") (auto simp: ranges_from_def)
    show "in_ranges (if a then rr else (start, e) # rr) (unat q) = (\<not> snd (f q))"
      using assms(1,5) q n [of "unat q"] by (cases "unat q \<le> e") (auto simp: ranges_from_def)
  qed
qed

lemma ranges_of_summary_ok:
  assumes "tiles (unat (psi_prt_min it)) (it # rest) 65536" "shows_state (it # rest) f"
    "1 \<le> start" "start \<le> unat (psi_prt_min it)"
    "\<forall>q. start \<le> unat q \<longrightarrow> unat q < unat (psi_prt_min it) \<longrightarrow> snd (f q) = psi_accepted it"
  shows "\<exists>ra rr. ranges_of_summary (pre @ it # rest) (length pre) start acc rej
      = Some (acc @ map show_pair ra, rej @ map show_pair rr) \<and> ranges_from f start ra rr"
  using assms
proof (induction rest arbitrary: it pre start acc rej)
  case Nil
  let ?e = "unat (psi_prt_max it)"
  have e: "?e = 65535" using Nil.prems(1) by simp
  have own: "\<forall>q. start \<le> unat q \<longrightarrow> unat q \<le> ?e \<longrightarrow> snd (f q) = psi_accepted it"
    using Nil.prems(2,5) by (auto simp: shows_state_def word_le_nat_alt linorder_not_less [symmetric])
  have "ranges_from f (Suc ?e) [] []"
  proof -
    have "\<not> Suc 65535 \<le> unat q" for q :: "16 word" using unsigned_less [of q, where 'a = nat] by simp
    with e show ?thesis by (simp add: ranges_from_def)
  qed
  moreover have "\<forall>q. unat q = Suc ?e \<longrightarrow> snd (f q) = (\<not> psi_accepted it)"
  proof (intro allI impI)
    fix q :: "16 word" assume "unat q = Suc ?e"
    with e unsigned_less [of q, where 'a = nat] show "snd (f q) = (\<not> psi_accepted it)" by simp
  qed
  ultimately show ?case using ranges_from_step [OF _ _ _ _ own] Nil.prems(1,3,4) e
    by (subst ranges_of_summary.simps)
       (intro exI [of _ "if psi_accepted it then [(start, ?e)] else []"] exI [of _ "if psi_accepted it then [] else [(start, ?e)]"],
        auto simp: smartlist_add_def show_pair_def Let_def)
next
  case (Cons jt rest)
  let ?e = "unat (psi_prt_max it)"
  have t: "unat (psi_prt_min jt) = Suc ?e" "start \<le> ?e" "?e \<le> 65535"
    "tiles (unat (psi_prt_min jt)) (jt # rest) 65536" "shows_state (jt # rest) f"
    using Cons.prems tiles_bounds [OF Cons.prems(1)] by (auto simp: shows_state_def)
  have own: "\<forall>q. start \<le> unat q \<longrightarrow> unat q \<le> ?e \<longrightarrow> snd (f q) = psi_accepted it"
    using Cons.prems(2,5) by (auto simp: shows_state_def word_le_nat_alt linorder_not_less [symmetric])
  show ?case
  proof (cases "psi_accepted it = psi_accepted jt")
    case True
    have "\<exists>ra rr. ranges_of_summary ((pre @ [it]) @ jt # rest) (length (pre @ [it])) start acc rej
        = Some (acc @ map show_pair ra, rej @ map show_pair rr) \<and> ranges_from f start ra rr"
      using t own True Cons.prems(3) by (intro Cons.IH) auto
    with True show ?thesis by (subst ranges_of_summary.simps) (simp add: nth_append Let_def)
  next
    case False
    let ?buf = "show_ports start ?e"
    let ?acc = "if psi_accepted it then acc @ [?buf] else acc" and ?rej = "if psi_accepted it then rej else rej @ [?buf]"
    have "\<exists>ra rr. ranges_of_summary ((pre @ [it]) @ jt # rest) (length (pre @ [it])) (unat (psi_prt_min jt)) ?acc ?rej
        = Some (?acc @ map show_pair ra, ?rej @ map show_pair rr) \<and> ranges_from f (unat (psi_prt_min jt)) ra rr"
      using t by (intro Cons.IH) auto
    then obtain ra rr where r: "ranges_of_summary ((pre @ [it]) @ jt # rest) (length (pre @ [it])) (unat (psi_prt_min jt)) ?acc ?rej
        = Some (?acc @ map show_pair ra, ?rej @ map show_pair rr)" "ranges_from f (Suc ?e) ra rr"
      using t(1) by auto
    have "ranges_of_summary (pre @ it # jt # rest) (length pre) start acc rej
        = Some (?acc @ map show_pair ra, ?rej @ map show_pair rr)"
      using False r(1)
      by (subst ranges_of_summary.simps) (cases "psi_accepted jt"; simp add: nth_append smartlist_add_def Let_def)
    moreover have "\<forall>q. unat q = Suc ?e \<longrightarrow> snd (f q) = (\<not> psi_accepted it)"
      using t(1,4,5) False by (auto simp: shows_state_def word_le_nat_alt)
    ultimately show ?thesis using ranges_from_step [OF r(2) t(2) Cons.prems(3) t(3) own]
      by (intro exI [of _ "if psi_accepted it then (start, ?e) # ra else ra"] exI [of _ "if psi_accepted it then rr else (start, ?e) # rr"])
         (simp add: show_pair_def)
  qed
qed

section \<open>The string\<close>

definition port_list :: "(nat \<times> nat) list \<Rightarrow> string" where
  "port_list rs = join_loop [] (map show_pair rs) '',''"

lemma port_list_Cons: "port_list (r # rs) = show_pair r @ (if rs = [] then [] else CHR '','' # port_list rs)"
  using join_loop_Cons [of "map show_pair rs" "show_pair r" "'',''"] by (cases "rs = []") (simp_all add: port_list_def)

lemma show_pair_chars: "c \<in> set (show_pair r) \<Longrightarrow> c \<noteq> CHR '',''"
  using show_dec_digits digit_not_special(2)
  by (fastforce simp: show_pair_def show_ports_def split: if_splits)

lemma show_pair_length: "range_ok r \<Longrightarrow> 1 \<le> length (show_pair r) \<and> length (show_pair r) \<le> 11"
proof -
  assume "range_ok r"
  then have "length (show_dec (fst r)) \<le> 5" "length (show_dec (snd r)) \<le> 5"
    by (auto simp: range_ok_def intro!: show_dec_length)
  moreover have "1 \<le> length (show_dec (fst r))" using show_dec_nonempty [of "fst r"] by (cases "show_dec (fst r)") auto
  ultimately show ?thesis by (auto simp: show_pair_def show_ports_def)
qed

lemma port_list_length: "\<forall>r \<in> set rs. range_ok r \<Longrightarrow> length rs \<le> length (port_list rs)"
proof (induction rs)
  case (Cons r rs)
  then show ?case using show_pair_length [of r] by (simp add: port_list_Cons)
qed simp

text \<open>A comma of the string ends the list of the ranges before it.\<close>

lemma comma_in_list:
  "k < length (port_list rs) \<Longrightarrow> port_list rs ! k = CHR '','' \<Longrightarrow>
   \<exists>r1 r2. rs = r1 @ r2 \<and> r1 \<noteq> [] \<and> r2 \<noteq> [] \<and> port_list rs = take k (port_list rs) @ CHR '','' # port_list r2
     \<and> take k (port_list rs) = port_list r1"
proof (induction rs arbitrary: k)
  case Nil
  then show ?case by (simp add: port_list_def)
next
  case (Cons r rs)
  let ?w = "show_pair r"
  have k: "length ?w \<le> k"
  proof (rule ccontr)
    assume "\<not> length ?w \<le> k"
    then have "?w ! k = CHR '',''" "k < length ?w" using Cons.prems(2) by (simp_all add: port_list_Cons nth_append)
    then show False using show_pair_chars nth_mem by blast
  qed
  then have rs: "rs \<noteq> []" using Cons.prems(1) by (auto simp: port_list_Cons)
  then have l: "port_list (r # rs) = ?w @ CHR '','' # port_list rs" by (simp add: port_list_Cons)
  show ?case
  proof (cases "k = length ?w")
    case True
    then show ?thesis using rs unfolding l by (intro exI [of _ "[r]"] exI [of _ rs]) (simp add: port_list_Cons)
  next
    case False
    define j where "j = k - Suc (length ?w)"
    have kj: "k = Suc (length ?w + j)" using False k by (simp add: j_def)
    have "j < length (port_list rs)" "port_list rs ! j = CHR '',''"
      using Cons.prems unfolding l kj by (simp_all add: nth_append)
    from Cons.IH [OF this] obtain r1 r2 where r: "rs = r1 @ r2" "r1 \<noteq> []" "r2 \<noteq> []"
      "port_list rs = take j (port_list rs) @ CHR '','' # port_list r2" "take j (port_list rs) = port_list r1" by blast
    have t: "take k (?w @ CHR '','' # port_list rs) = ?w @ CHR '','' # port_list r1"
      unfolding kj using r(5) by simp
    then show ?thesis using r unfolding l
      by (intro exI [of _ "r # r1"] exI [of _ r2]) (simp add: port_list_Cons)
  qed
qed

lemma cut_at_comma_Some:
  "cut_at_comma s n = Some t \<Longrightarrow> n < length s \<Longrightarrow>
   \<exists>k \<le> n. s ! k = CHR '','' \<and> t = take k s \<and> (\<forall>j. k < j \<longrightarrow> j \<le> n \<longrightarrow> s ! j \<noteq> CHR '','')"
proof (induction n)
  case 0
  then show ?case by (cases s) (auto split: if_splits)
next
  case (Suc n)
  show ?case
  proof (cases "s ! Suc n = CHR '',''")
    case True
    with Suc.prems show ?thesis by (intro exI [of _ "Suc n"]) (auto split: if_splits)
  next
    case False
    with Suc obtain k where "k \<le> n" "s ! k = CHR '',''" "t = take k s" "\<forall>j. k < j \<longrightarrow> j \<le> n \<longrightarrow> s ! j \<noteq> CHR '',''"
      by (auto split: if_splits)
    with False show ?thesis by (intro exI [of _ k]) (auto simp: le_Suc_eq)
  qed
qed

lemma cut_at_comma_None: "cut_at_comma s n = None \<Longrightarrow> n < length s \<Longrightarrow> k \<le> n \<Longrightarrow> s ! k \<noteq> CHR '',''"
proof (induction n)
  case 0
  then show ?case by (cases s) (auto split: if_splits)
next
  case (Suc n)
  then show ?case by (cases "k = Suc n") (auto split: if_splits)
qed

text \<open>A list that is too long is cut after a range, at most 11 characters before the limit.\<close>

lemma cut_list:
  assumes "\<forall>r \<in> set rs. range_ok r" "993 < length (port_list rs)"
  shows "\<exists>r1 r2. rs = r1 @ r2 \<and> r1 \<noteq> [] \<and> cut_at_comma (port_list rs) 993 = Some (port_list r1)
     \<and> 982 \<le> length (port_list r1) \<and> length (port_list r1) \<le> 993"
proof -
  have first: "\<exists>k. k \<le> length (show_pair r) \<and> port_list (r # r2) ! k = CHR '',''" if "r2 \<noteq> []" for r r2
    using that by (intro exI [of _ "length (show_pair r)"]) (simp add: port_list_Cons nth_append)
  obtain r rest where rs: "rs = r # rest" using assms(2) by (cases rs) (auto simp: port_list_def)
  have ne: "rest \<noteq> []"
  proof
    assume "rest = []"
    then have "length (port_list rs) \<le> 11" using rs assms(1) show_pair_length [of r] by (simp add: port_list_Cons)
    with assms(2) show False by simp
  qed
  obtain k0 where "k0 \<le> length (show_pair r)" "port_list rs ! k0 = CHR '',''" using first [OF ne] rs by blast
  then have "cut_at_comma (port_list rs) 993 \<noteq> None"
    using cut_at_comma_None [of "port_list rs" 993 k0] assms rs show_pair_length [of r] by fastforce
  then obtain t k where t: "cut_at_comma (port_list rs) 993 = Some t" "k \<le> 993" "port_list rs ! k = CHR '',''"
    "t = take k (port_list rs)" "\<forall>j. k < j \<longrightarrow> j \<le> 993 \<longrightarrow> port_list rs ! j \<noteq> CHR '',''"
    using cut_at_comma_Some [OF _ assms(2)] by blast
  have k: "k < length (port_list rs)" using t(2) assms(2) by simp
  obtain r1 r2 where r: "rs = r1 @ r2" "r1 \<noteq> []" "r2 \<noteq> []"
    "port_list rs = take k (port_list rs) @ CHR '','' # port_list r2" "take k (port_list rs) = port_list r1"
    using comma_in_list [OF k t(3)] by blast
  have lk: "length (port_list r1) = k" using r(5) k by (metis length_take min_absorb2 less_imp_le)
  obtain r' r2' where r2: "r2 = r' # r2'" using r(3) by (cases r2) auto
  have w: "length (show_pair r') \<le> 11" using assms(1) r(1) r2 show_pair_length [of r'] by simp
  have s: "port_list rs = port_list r1 @ CHR '','' # port_list r2" using r(4,5) by simp
  have "982 \<le> k"
  proof (cases r2')
    case Nil
    then have "length (port_list rs) \<le> k + 12" using w unfolding s r2 by (simp add: port_list_Cons lk)
    with assms(2) show ?thesis by simp
  next
    case (Cons r'' r3)
    obtain i where i: "i \<le> length (show_pair r')" "port_list r2 ! i = CHR '',''" using first [of r2' r'] Cons r2 by blast
    have "port_list rs ! (Suc (k + i)) = CHR '',''" using i(2) unfolding s by (simp add: nth_append lk)
    then have "\<not> Suc (k + i) \<le> 993" using t(5) by auto
    with i(1) w show ?thesis by simp
  qed
  with t(1,2,4) r lk show ?thesis by auto
qed

section \<open>Reading the string\<close>

definition entry_of :: "nat \<times> nat \<Rightarrow> short_policy_entry" where
  "entry_of r = \<lparr>min_port = of_nat (fst r), max_port = of_nat (snd r)\<rparr>"

lemma show_dec_Cons: "\<exists>c t. show_dec n = c # t \<and> TOR_ISDIGIT c"
  using show_dec_nonempty [of n] show_dec_digits [of _ n] by (cases "show_dec n") auto

lemma parse_pair:
  assumes "range_ok r" "rest = [] \<or> (\<exists>t. rest = CHR '','' # t)" "length es < 1000"
  shows "parse_entries (show_pair r @ rest) es = parse_entries (drop 1 rest) (es @ [entry_of r])"
proof -
  have d: "rest = [] \<or> \<not> TOR_ISDIGIT (hd rest)" "\<not> TOR_ISDIGIT (hd (CHR ''-'' # t))" for t
    using assms(2) digit_not_special(2) by (auto simp: TOR_ISDIGIT_def)
  have low: "tor_parse_ulong (show_dec (fst r) @ u) 10 1 65535 True = (int (fst r), True, Some u)"
    if "u = [] \<or> \<not> TOR_ISDIGIT (hd u)" for u
    using ulong_show [OF that, of "fst r"] assms(1) by (simp add: range_ok_def)
  have high: "tor_parse_ulong (show_dec (snd r) @ rest) 10 (int (fst r)) 65535 True = (int (snd r), True, Some rest)"
    using ulong_show [OF d(1), of "snd r"] assms(1) by (simp add: range_ok_def)
  have ne: "show_dec n @ u \<noteq> []" for n u using show_dec_nonempty [of n] by simp
  have cap: "length es \<noteq> MAX_EXITPOLICY_SUMMARY_LEN" using assms(3) by (simp add: MAX_EXITPOLICY_SUMMARY_LEN_def)
  show ?thesis
  proof (cases "fst r = snd r")
    case True
    then show ?thesis using assms(2) low [OF d(1)] ne cap
      by (subst parse_entries.simps) (auto simp: show_pair_def show_ports_def entry_of_def Let_def)
  next
    case False
    have "tor_parse_ulong (show_dec (fst r) @ CHR ''-'' # show_dec (snd r) @ rest) 10 1 65535 True
        = (int (fst r), True, Some (CHR ''-'' # show_dec (snd r) @ rest))" by (rule low) (use d(2) in simp)
    with False show ?thesis using assms(2) high ne cap
      by (subst parse_entries.simps) (auto simp: show_pair_def show_ports_def entry_of_def Let_def)
  qed
qed

lemma parse_port_list:
  "\<forall>r \<in> set rs. range_ok r \<Longrightarrow> length es + length rs \<le> 1000 \<Longrightarrow> parse_entries (port_list rs) es = Some (es @ map entry_of rs)"
proof (induction rs arbitrary: es)
  case Nil
  then show ?case by (subst parse_entries.simps) (simp add: port_list_def)
next
  case (Cons r rs)
  let ?rest = "if rs = [] then [] else CHR '','' # port_list rs"
  have "drop 1 ?rest = port_list rs" by (simp add: port_list_def)
  with parse_pair [of r ?rest es] Cons.IH [of "es @ [entry_of r]"] Cons.prems show ?case by (simp add: port_list_Cons)
qed

lemma parse_keyword:
  "parse_short_policy (''accept '' @ s) = (case parse_entries s [] of None \<Rightarrow> None
     | Some es \<Rightarrow> if es = [] then None else Some \<lparr>is_accept = True, sp_entries = es\<rparr>)"
  "parse_short_policy (''reject '' @ s) = (case parse_entries s [] of None \<Rightarrow> None
     | Some es \<Rightarrow> if es = [] then None else Some \<lparr>is_accept = False, sp_entries = es\<rparr>)"
  by (simp_all add: parse_short_policy_def strcmpstart_0 split: option.splits)

lemma parse_summary_string:
  assumes "\<forall>r \<in> set rs. range_ok r" "rs \<noteq> []" "length (port_list rs) \<le> 1000"
  shows "parse_short_policy (''accept '' @ port_list rs) = Some \<lparr>is_accept = True, sp_entries = map entry_of rs\<rparr>"
    and "parse_short_policy (''reject '' @ port_list rs) = Some \<lparr>is_accept = False, sp_entries = map entry_of rs\<rparr>"
  using parse_port_list [OF assms(1), of "[]"] port_list_length [OF assms(1)] assms(2,3)
  unfolding parse_keyword by simp_all

lemma entry_matches:
  "range_ok r \<Longrightarrow> min_port (entry_of r) \<le> q \<and> q \<le> max_port (entry_of r) \<longleftrightarrow> fst r \<le> unat q \<and> unat q \<le> snd r"
proof -
  assume r: "range_ok r"
  have u: "unat (of_nat n :: 16 word) = n" if "n \<le> 65535" for n
    using that unfolding unat_of_nat by (intro mod_less) simp
  from r show ?thesis by (simp add: range_ok_def entry_of_def word_le_nat_alt u)
qed

lemma verdict_of_ranges:
  assumes "\<forall>r \<in> set rs. range_ok r" "q \<noteq> 0"
  shows "compare_tor_addr_to_short_policy cri None q \<lparr>is_accept = a, sp_entries = map entry_of rs\<rparr>
     = Some (if in_ranges rs (unat q) = a then ADDR_POLICY_PROBABLY_ACCEPTED else ADDR_POLICY_REJECTED)"
proof -
  have "list_ex (\<lambda>e. min_port e \<le> q \<and> q \<le> max_port e) (map entry_of rs) \<longleftrightarrow> in_ranges rs (unat q)"
    using assms(1) entry_matches by (auto simp: list_ex_iff in_ranges_def)
  with assms(2) show ?thesis by (auto simp: compare_tor_addr_to_short_policy_def Let_def)
qed

section \<open>The summary of a policy\<close>

text \<open>The ranges of the accepted and of the rejected ports behind the string.\<close>

lemma policy_ranges:
  assumes "list_all entry_ok policy"
  obtains ra rr where
    "policy_summarize policy family = shorter_summary (map show_pair ra) (map show_pair rr)"
    "canonical ra" "canonical rr"
    "\<And>q. q \<noteq> 0 \<Longrightarrow> in_ranges ra (unat q) = port_accepted family policy q"
    "\<And>q. q \<noteq> 0 \<Longrightarrow> in_ranges rr (unat q) = (\<not> port_accepted family policy q)"
proof -
  from add_policy_ok [OF assms create_ok, of family] obtain s where
    s: "add_policy family policy_summary_create policy = Some s" "tiles 1 s 65536" "shows_state s (port_state family policy)" by auto
  obtain it rest where it: "s = it # rest" "unat (psi_prt_min it) = 1" using s(2) by (cases s) auto
  have "\<exists>ra rr. ranges_of_summary ([] @ it # rest) (length ([] :: policy_summary_item list)) 1 [] []
      = Some ([] @ map show_pair ra, [] @ map show_pair rr) \<and> ranges_from (port_state family policy) 1 ra rr"
    using s it by (intro ranges_of_summary_ok) auto
  then obtain ra rr where r: "ranges_of_summary s 0 1 [] [] = Some (map show_pair ra, map show_pair rr)"
    "ranges_from (port_state family policy) 1 ra rr" using it(1) by auto
  show ?thesis
  proof (rule that)
    show "policy_summarize policy family = shorter_summary (map show_pair ra) (map show_pair rr)"
      using s(1) r(1) by (simp add: policy_summarize_def)
    show "canonical ra" "canonical rr" using r(2) by (simp_all add: ranges_from_def)
  next
    fix q :: "16 word" assume "q \<noteq> 0"
    then have "1 \<le> unat q" by (simp add: Suc_le_eq unat_gt_0)
    with r(2) show "in_ranges ra (unat q) = port_accepted family policy q"
      "in_ranges rr (unat q) = (\<not> port_accepted family policy q)"
      by (simp_all add: ranges_from_def port_state_def)
  qed
qed

text \<open>What string is chosen: one of the two lists in full, or the accepted ports cut.\<close>

lemma shorter_summary_cases:
  assumes "\<forall>r \<in> set (ra @ rr). range_ok r"
  obtains (none) "ra = []" "shorter_summary (map show_pair ra) (map show_pair rr) = Some (''reject '' @ port_list [(1, 65535)])"
  | (all) "ra \<noteq> []" "rr = []" "shorter_summary (map show_pair ra) (map show_pair rr) = Some (''accept '' @ port_list [(1, 65535)])"
  | (accept) "ra \<noteq> []" "shorter_summary (map show_pair ra) (map show_pair rr) = Some (''accept '' @ port_list ra)"
      "length (port_list ra) \<le> 993"
  | (reject) "rr \<noteq> []" "shorter_summary (map show_pair ra) (map show_pair rr) = Some (''reject '' @ port_list rr)"
      "length (port_list rr) \<le> 993"
  | (cut) r1 r2 where "ra = r1 @ r2" "r1 \<noteq> []"
      "shorter_summary (map show_pair ra) (map show_pair rr) = Some (''accept '' @ port_list r1)"
      "982 \<le> length (port_list r1)" "length (port_list r1) \<le> 993"
      "993 < length (port_list ra)" "993 < length (port_list rr)"
proof -
  have "show_dec 1 = ''1''" "show_dec 65535 = ''65535''"
    by (simp_all add: digit_char_def char_of_def bit_Suc_0_iff show_dec.simps [of 1] show_dec.simps [of 65535] show_dec.simps [of 6553]
        show_dec.simps [of 655] show_dec.simps [of 65] show_dec.simps [of 6] show_dec.simps [of "Suc 0"])
  then have one: "''1-65535'' = port_list [(1, 65535)]" by (simp add: port_list_def show_pair_def show_ports_def)
  have f: "shorter_summary (map show_pair ra) (map show_pair rr) =
      (if ra = [] then Some (''reject '' @ port_list [(1, 65535)])
       else if rr = [] then Some (''accept '' @ port_list [(1, 65535)])
       else if length (port_list rr) > 993 \<and> length (port_list ra) > 993
       then do { s \<leftarrow> cut_at_comma (port_list ra) 993; Some (''accept '' @ s) }
       else if length (port_list rr) < length (port_list ra) then Some (''reject '' @ port_list rr)
       else Some (''accept '' @ port_list ra))"
    unfolding one [symmetric]
    by (simp add: shorter_summary_def smartlist_join_strings2_def port_list_def MAX_EXITPOLICY_SUMMARY_LEN_def Let_def)
  consider "ra = []" | "ra \<noteq> []" "rr = []"
    | "ra \<noteq> []" "rr \<noteq> []" "length (port_list rr) > 993" "length (port_list ra) > 993"
    | "ra \<noteq> []" "rr \<noteq> []" "\<not> (length (port_list rr) > 993 \<and> length (port_list ra) > 993)"
      "length (port_list rr) < length (port_list ra)"
    | "ra \<noteq> []" "rr \<noteq> []" "\<not> (length (port_list rr) > 993 \<and> length (port_list ra) > 993)"
      "\<not> length (port_list rr) < length (port_list ra)" by blast
  then show ?thesis
  proof cases
    case 1
    then show ?thesis using f by (intro none) simp_all
  next
    case 2
    then show ?thesis using f by (intro all) simp_all
  next
    case 3
    with cut_list [of ra] assms obtain r1 r2 where "ra = r1 @ r2" "r1 \<noteq> []"
      "cut_at_comma (port_list ra) 993 = Some (port_list r1)" "982 \<le> length (port_list r1)" "length (port_list r1) \<le> 993" by auto
    with 3 show ?thesis using f by (intro cut [of r1 r2]) simp_all
  next
    case 4
    then show ?thesis using f by (intro reject) simp_all
  next
    case 5
    then show ?thesis using f by (intro accept) (auto split: if_splits)
  qed
qed

text \<open>What the client makes of the string.\<close>

lemma summary_read_back:
  assumes "\<forall>r \<in> set ra. range_ok r" "\<forall>r \<in> set rr. range_ok r"
    and "\<forall>q :: 16 word. q \<noteq> 0 \<longrightarrow> in_ranges rr (unat q) = (\<not> in_ranges ra (unat q))"
  shows "\<exists>s sp. shorter_summary (map show_pair ra) (map show_pair rr) = Some s \<and> length s \<le> 1000
     \<and> parse_short_policy s = Some sp
     \<and> (\<forall>q. q \<noteq> 0 \<longrightarrow> compare_tor_addr_to_short_policy cri None q sp = Some ADDR_POLICY_PROBABLY_ACCEPTED
            \<longrightarrow> in_ranges ra (unat q))
     \<and> (if 993 < length (port_list ra) \<and> 993 < length (port_list rr)
        then \<exists>r1 r2. ra = r1 @ r2 \<and> 982 \<le> length (port_list r1) \<and> sp = \<lparr>is_accept = True, sp_entries = map entry_of r1\<rparr>
        else \<forall>q. q \<noteq> 0 \<longrightarrow> compare_tor_addr_to_short_policy cri None q sp
               = Some (if in_ranges ra (unat q) then ADDR_POLICY_PROBABLY_ACCEPTED else ADDR_POLICY_REJECTED))"
proof -
  have ok: "\<forall>r \<in> set [(1, 65535)]. range_ok r" by (simp add: range_ok_def)
  have all: "\<forall>r \<in> set (ra @ rr). range_ok r" using assms(1,2) by auto
  have full: "in_ranges [(1, 65535)] (unat q)" if "q \<noteq> 0" for q :: "16 word"
    using that unsigned_less [of q, where 'a = nat] by (simp add: Suc_le_eq unat_gt_0)
  have star: "length (port_list [(1, 65535)]) \<le> 11" using show_pair_length [of "(1, 65535)"] ok by (simp add: port_list_Cons)
  note v = verdict_of_ranges and p = parse_summary_string
  show ?thesis
  proof (rule shorter_summary_cases [OF all])
    assume "ra = []" "shorter_summary (map show_pair ra) (map show_pair rr) = Some (''reject '' @ port_list [(1, 65535)])"
    with p(2) [OF ok] v [OF ok] full star show ?thesis by (simp add: port_list_def)
  next
    assume "rr = []" "shorter_summary (map show_pair ra) (map show_pair rr) = Some (''accept '' @ port_list [(1, 65535)])"
    with p(1) [OF ok] v [OF ok] full star assms(3) show ?thesis by (simp add: port_list_def)
  next
    assume "ra \<noteq> []" "shorter_summary (map show_pair ra) (map show_pair rr) = Some (''accept '' @ port_list ra)"
      "length (port_list ra) \<le> 993"
    with p(1) [OF assms(1)] v [OF assms(1)] show ?thesis by simp
  next
    assume "rr \<noteq> []" "shorter_summary (map show_pair ra) (map show_pair rr) = Some (''reject '' @ port_list rr)"
      "length (port_list rr) \<le> 993"
    with p(2) [OF assms(2)] v [OF assms(2)] assms(3) show ?thesis by simp
  next
    fix r1 r2 assume c: "ra = r1 @ r2" "r1 \<noteq> []"
      "shorter_summary (map show_pair ra) (map show_pair rr) = Some (''accept '' @ port_list r1)"
      "982 \<le> length (port_list r1)" "length (port_list r1) \<le> 993"
      "993 < length (port_list ra)" "993 < length (port_list rr)"
    have ok1: "\<forall>r \<in> set r1. range_ok r" using assms(1) c(1) by simp
    have "in_ranges r1 (unat q) \<Longrightarrow> in_ranges ra (unat q)" for q :: "16 word"
      using c(1) by (auto simp: in_ranges_def)
    then have "\<forall>q. q \<noteq> 0 \<longrightarrow> compare_tor_addr_to_short_policy cri None q \<lparr>is_accept = True, sp_entries = map entry_of r1\<rparr>
        = Some ADDR_POLICY_PROBABLY_ACCEPTED \<longrightarrow> in_ranges ra (unat q)"
      using v [OF ok1] by simp
    moreover have "\<exists>r1' r2'. ra = r1' @ r2' \<and> 982 \<le> length (port_list r1')
        \<and> \<lparr>is_accept = True, sp_entries = map entry_of r1\<rparr> = \<lparr>is_accept = True, sp_entries = map entry_of r1'\<rparr>"
      using c(1,4) by blast
    moreover have "length (''accept '' @ port_list r1) \<le> 1000" using c(5) by simp
    moreover have "parse_short_policy (''accept '' @ port_list r1) = Some \<lparr>is_accept = True, sp_entries = map entry_of r1\<rparr>"
      using p(1) [OF ok1 c(2)] c(5) by simp
    ultimately show ?thesis using c(3,6,7)
      by (intro exI [of _ "''accept '' @ port_list r1"] exI [of _ "\<lparr>is_accept = True, sp_entries = map entry_of r1\<rparr>"] conjI)
         (simp_all only: simp_thms if_True)
  qed
qed

section \<open>Writing a short policy\<close>

lemma write_entries_join:
  "join_loop [] (write_entries sl (map entry_of rs)) [] = join_loop [] sl [] @ (if rs = [] then [] else port_list rs)"
  if "\<forall>r \<in> set rs. range_ok r"
  using that
proof (induction rs arbitrary: sl)
  case (Cons r rs)
  have snoc: "join_loop [] (xs @ [x]) [] = join_loop [] xs [] @ x" for xs :: "string list" and x
  proof (induction xs)
    case (Cons y xs)
    then show ?case using join_loop_Cons [of "xs @ [x]" y "[]"] join_loop_Cons [of xs y "[]"] by (cases "xs = []") simp_all
  qed simp
  have u: "unat (of_nat n :: 16 word) = n" if "n \<le> 65535" for n
    using that unfolding unat_of_nat by (intro mod_less) simp
  have "show_entry (entry_of r) = show_pair r"
  proof -
    have "fst r \<le> 65535" "snd r \<le> 65535" using Cons.prems by (auto simp: range_ok_def)
    then show ?thesis by (simp add: show_entry_def entry_of_def show_pair_def show_ports_def u word_unat_eq_iff)
  qed
  then show ?case using Cons
    by (cases rs) (simp_all add: smartlist_add_def snoc port_list_Cons del: append_assoc)
qed simp

text \<open>C40: What is written for a short policy with at least one and at most 1000 entries, all of proper port
  ranges, the parser reads back to the same policy.\<close>

theorem short_policy_roundtrip:
  assumes "sp_entries sp \<noteq> []" "length (sp_entries sp) \<le> 1000"
    "\<forall>e \<in> set (sp_entries sp). 1 \<le> min_port e \<and> min_port e \<le> max_port e"
  shows "parse_short_policy (write_short_policy sp) = Some sp"
proof -
  define rs where "rs = map (\<lambda>e. (unat (min_port e), unat (max_port e))) (sp_entries sp)"
  have ok: "\<forall>r \<in> set rs. range_ok r"
  proof
    fix r assume "r \<in> set rs"
    then obtain e where e: "e \<in> set (sp_entries sp)" "r = (unat (min_port e), unat (max_port e))" by (auto simp: rs_def)
    have "unat (max_port e) < 65536" using unsigned_less [of "max_port e", where 'a = nat] by simp
    with e assms(3) show "range_ok r" by (auto simp: range_ok_def word_le_nat_alt)
  qed
  have "entry_of (unat (min_port e), unat (max_port e)) = e" for e by (cases e) (simp add: entry_of_def)
  then have es: "sp_entries sp = map entry_of rs" by (simp add: rs_def comp_def)
  have ne: "rs \<noteq> []" "length rs \<le> 1000" using assms(1,2) by (simp_all add: rs_def)
  have w: "write_short_policy sp = (if is_accept sp then ''accept '' else ''reject '') @ port_list rs"
    using write_entries_join [OF ok] ne(1)
    by (simp add: write_short_policy_def smartlist_join_strings2_def smartlist_add_def es Let_def)
  show ?thesis
    using parse_port_list [OF ok, of "[]"] ne es unfolding w
    by (cases "is_accept sp") (simp_all add: parse_keyword del: append.simps)
qed

lemma short_policy_roundtrip_witness:
  "parse_short_policy (write_short_policy \<lparr>is_accept = True, sp_entries = [\<lparr>min_port = 80, max_port = 80\<rparr>, \<lparr>min_port = 443, max_port = 500\<rparr>]\<rparr>)
   = Some \<lparr>is_accept = True, sp_entries = [\<lparr>min_port = 80, max_port = 80\<rparr>, \<lparr>min_port = 443, max_port = 500\<rparr>]\<rparr>"
  by (rule short_policy_roundtrip) simp_all

text \<open>Entries for the same addresses count each time: a block that is listed once or twice leaves the port
  accepted, the same block listed three times does not.\<close>

lemma overlap_counted_repeatedly:
  assumes "block = \<lparr>policy_type = ADDR_POLICY_REJECT, is_private = False, maskbits = 8, pol_addr = ADDR_INET 0x08000000,
                    prt_min = 80, prt_max = 80\<rparr>"
    "rest = \<lparr>policy_type = ADDR_POLICY_ACCEPT, is_private = False, maskbits = 0, pol_addr = ADDR_INET 0, prt_min = 1, prt_max = 65535\<rparr>"
  shows "port_accepted AF_INET (replicate n block @ [rest]) 80 \<longleftrightarrow> n \<le> 2"
proof -
  have p: "\<not> is_private_net block"
    by (simp add: assms(1) is_private_net_def private_nets_def tor_addr_compare_def compare_ipv4_def TRISTATE_def ipv6_net_def)
  have c: "concerns AF_INET 80 block" "concerns AF_INET 80 rest" by (simp_all add: assms concerns_def)
  have "rejected_networks AF_INET (replicate n block) 80 = n * 2 ^ 24"
    using p c(1) by (induction n) (simp_all add: rejected_networks_def assms(1) networks_def)
  moreover have "\<not> port_accepted AF_INET (replicate n block) 80" by (simp add: port_accepted_def assms(1))
  ultimately show ?thesis using c(2) by (auto simp: accepted_snoc assms(2) reject_cutoff_def)
qed

end
