(* ===== verification/Policy_Summary_Verdict.thy ===== *)
theory Policy_Summary_Verdict
  imports Policy_Summary_Correct Policies_Correct
begin

text \<open>
  What the summary of an exit policy for IPv4 says of the policy's own verdicts: how many addresses the
  policy rejects on a port that the summary accepts, or refuses to.
\<close>

section \<open>The addresses of an entry\<close>





section \<open>Rejected addresses\<close>

















section \<open>Properties\<close>




end
