(* ===== verification/Spec2Isabelle.thy ===== *)
theory Spec2Isabelle
  imports Tor_Prelude Smartlist Pqueue Consdiff Base64 Token_Bucket Utf8 Sendme_Link Conflux_Link Conflux_Choice Onion_Circuit Buffer_Search Link_Cells Protover_Correct Versions_Correct Policies_Correct Policy_Summary_Verdict
begin

text \<open>
  A verification library for the core logic of Tor: the queues and codecs under a connection, the cells
  and their encryption, flow control on a circuit, conflux, and the directory's consensus diffs, with the
  container, string and encoding helpers that they use. All paths are under src/src/.

  What the program does with these parts. A relay or a client reads bytes from its connections into
  chunked buffers (lib/buf) at the rate that token buckets allow, cuts them into cells
  (core/or/connection_or.c), takes a layer of encryption off each relay cell or puts one on
  (core/crypto), decodes the relay message inside (core/or/relay_msg.c), and counts it against the
  circuit's window (core/or/sendme.c, core/or/congestion_control_common.c). A conflux set
  (core/or/conflux.c) spreads the messages over several circuits. The directory side compares
  consensuses and sends the differences as ed scripts (feature/dircommon/consdiff.c), and agrees on
  subprotocol versions (core/or/protover.c).

  \<^bold>\<open>Conventions.\<close> A struct is a record, an enum or tagged union a datatype, an unsigned integer a word of
  its width, a signed one an integer with the wrap-around or the range check written out; \<open>size_t\<close> is a
  natural number where no operation of the source wraps. A \<open>char *\<close> is a string, a pointer into
  one is the rest of the string from there or an offset, a byte buffer with a length is a list of 8-bit
  words. A list by pointers is a list; a pointer to an element of it is its position. Static variables are
  arguments that are returned updated. An error return is \<open>None\<close>, \<open>False\<close> or a negative number as in
  the source; a fatal assertion or undefined behaviour is an outer \<open>None\<close>, so a theorem that says
  \<open>Some\<close> of an operation also says that no assertion fails. Logging, freeing and allocation failure are
  left out throughout.

  \<^bold>\<open>Helpers.\<close>
  \<^item> \<open>Tor_Prelude\<close>: integer limits, decimal numbers as printed and read, fields of lists
    (collection \<open>decimal_simps\<close>). \<open>Octets\<close>: bytes in the middle of a buffer, integers in network order
    (collection \<open>octets\<close>).
  \<^item> \<open>Smartlist\<close>: lib/smartlist_core/smartlist_core.c. \<open>Pqueue\<close>: the binary heap of
    lib/container/smartlist.c with the index stored in each item. Locale \<open>priority_queue\<close> is what its
    clients rely on; locale \<open>comparison\<close> is a comparison function of a total preorder, and a sublocale relation proves the heap
    to be such a queue; conflux interprets it with its own comparison. Adding and popping sort;
    removing from the middle loses the heap property exactly in the case that the theorem names.
  \<^item> \<open>Util_String\<close>, \<open>Parse_Int\<close>, \<open>Utf8\<close>, \<open>Binascii\<close>, \<open>Base64\<close>: lib/string, lib/smartlist_core/smartlist_split.c
    and lib/encoding/binascii.c, with the round trips and the sizes of the buffers.
  \<^item> \<open>Net_Params\<close>: \<open>networkstatus_get_param\<close> of feature/nodelist/networkstatus.c.
  \<^item> \<open>Token_Bucket\<close>: lib/evloop/token_bucket.c; the overflow-avoiding arithmetic against
    \<open>min burst (level + rate * elapsed)\<close>, and the bound on what passes in a run of steps.

  \<^bold>\<open>Buffers and cells on a connection.\<close>
  \<^item> \<open>Buffers\<close> models lib/buf/buffers.c and lib/net/buffers_net.c chunk by chunk; the system calls are
    arguments (how many bytes were read or written, and which). \<open>Buffer_Queue\<close>: \<open>buf_holds\<close> is the
    abstraction to a string of bytes with the invariant of the chunks and of the allocation counter; one
    lemma per operation, and the refinement of sequences of operations. \<open>Buffer_Search\<close>:
    \<open>buf_find_string_offset\<close>, and the case of an empty chunk in which it reads unused storage.
  \<^item> \<open>Framing\<close>: messages over two buffers and a byte stream that is cut arbitrarily. Locale \<open>framing\<close>
    is the contract of a codec. \<open>Link_Cells\<close> models the packing and fetching of cells
    (core/or/connection_or.c, core/proto/proto_cell.c) and the commands of the extended OR port
    (core/proto/proto_ext_or.c) and interprets the locale for both (\<open>cells\<close>, \<open>ext_or\<close>).

  \<^bold>\<open>Relay cells and onion encryption.\<close>
  \<^item> \<open>Relay_Msg\<close>: core/or/relay_msg.c, both formats of a relay cell.
  \<^item> \<open>Tor1_Crypto\<close>, \<open>Cgo_Crypto\<close>, \<open>Relay_Crypto\<close>: core/crypto/relay_crypto_tor1.c, relay_crypto_cgo.c and
    relay_crypto.c with the stream cipher and digest objects of lib/crypt_ops. The record \<open>primitives\<close> has
    the functions of the crypto library: AES and its inverse under a key, SHA-1, SHA3-256, and the field
    multiplication of polyval, and whether the build uses OpenSSL's SHA3, in which case a digest object
    holds only the address of its state; \<open>primitives_ok\<close> is what the proofs need of them (the lengths
    of their results, and that decryption undoes encryption), and the witnesses instantiate it.
  \<^item> \<open>Onion\<close>: locale \<open>onion_direction\<close> is what one layer of either kind promises to its two ends;
    interpreted for cells away from the client (\<open>outward\<close>) and towards it (\<open>inward\<close>).
    \<open>Onion_Circuit\<close> composes codec, client and relays. A relay may recognize a
    cell on its way by accident, when its digest field matches; the code cannot exclude it, and the theorems
    name it as the one other outcome.

  \<^bold>\<open>Flow control.\<close>
  \<^item> \<open>Circuit_State\<close>: the fields of \<open>circuit_t\<close>, \<open>crypt_path_t\<close> and \<open>congestion_control_t\<close>
    that flow control uses (collection \<open>word_nat\<close>). \<open>Congestion_Control\<close> and \<open>Congestion_Vegas\<close>: the
    estimators and the algorithm of core/or/congestion_control_common.c and congestion_control_vegas.c.
    \<open>Congestion_Correct\<close>: each estimate stays between the measurements. \<open>Congestion_Flow\<close>: one
    circuit as a step relation from a new object, its invariant with the steps that cannot fail, the
    ranges of a new object's parameters, those under which its window closes for good, and the
    wrap-around and the division by zero that the invariant leaves possible.
  \<^item> \<open>Sendme\<close>: core/or/sendme.c and trunnel/sendme_cell.c at circuit level. \<open>Sendme_Flow\<close>: locales
    \<open>sendme_window\<close> and \<open>sendme_window_opens\<close>, the contract of a window that acknowledges in
    increments, interpreted for the fixed windows (\<open>fixed\<close>) and for congestion control (\<open>cc\<close>).
    \<open>Sendme_Link\<close>: both ends with the cells between them; the invariant and the
    properties of \<open>fixed\<close> and \<open>cc\<close> rest on the locale.
  \<^item> \<open>Conflux\<close>: core/or/conflux.c with the parts of conflux_util.c, conflux_params.c and conflux_cell.c that
    it calls, circuits in a store. \<open>Conflux_Choice\<close>: the choice of a leg, against what the
    comments promise. \<open>Conflux_Link\<close>: both ends of a set with the legs between them refine one queue of messages.

  \<^bold>\<open>Exit policies.\<close>
  \<^item> \<open>Addresses\<close>: comparison of addresses under a mask and the classes of addresses of lib/net/address.c.
    \<open>Policies\<close>: the verdicts of core/or/policies.c with a known or unknown address and port, the removal of
    redundant entries, general exits. \<open>Policies_Correct\<close>: every verdict against the first entry that
    matches.
  \<^item> \<open>Policy_Summary\<close>: the summaries that relays publish and clients parse, from the same file.
    \<open>Policy_Summary_Correct\<close>: the items of a summary tile the ports and hold the state of each port, and
    the client reads back the lists of ports that they make. \<open>Policy_Summary_Verdict\<close>: what a port's place
    in these lists says of the addresses that the policy itself rejects on it.

  \<^bold>\<open>Directory.\<close>
  \<^item> \<open>Consdiff_Lines\<close>, \<open>Consdiff_Changes\<close>, \<open>Consdiff_Ed\<close>, \<open>Consdiff\<close>: feature/dircommon/consdiff.c from lines to
    the digested document; SHA3-256 is an argument. \<open>Lcs\<close> is the textbook specification of a longest common
    subsequence that \<open>Consdiff_Changes_Correct\<close> compares the table computation to; \<open>Consdiff_Ed_Correct\<close>
    proves that applying a generated script gives the target.
  \<^item> \<open>Protover\<close>: core/or/protover.c, with the lists of supported, recommended and required versions of this
    program. \<open>Protover_Correct\<close>: the encoder against the parser, the vote against a count of the lists, the
    missing versions against the supported ones. \<open>Versions\<close>: core/or/versions.c. \<open>Versions_Correct\<close>: the
    comparison is a lexicographic order, the status of a version is the documented one but for a case that
    is named there, and the cache of protocol summaries is transparent.

  \<^bold>\<open>Termination and bounds.\<close> Loops are structural recursion or \<open>function\<close> with a measure. The two loops
  that do not always end, \<open>sendme_circuit_consider_sending\<close> (it does not for an increment of zero) and the
  loop that takes cells off a buffer, are \<open>partial_function (option)\<close>, and their theorems
  say that they return. No fuel is used. Sums of lengths, which the C code keeps in \<open>size_t\<close> or \<open>int\<close>, are
  bounded in the invariants (\<open>BUF_MAX_LEN\<close>, \<open>INT32_MAX\<close>); counters of words wrap as in C.

  \<^bold>\<open>Not modelled.\<close> The event loop, sockets, threads and processes; configuration, the control port and
  logging; TLS, key exchange and the other cryptography of lib/crypt_ops, whose strength is outside what
  such a development can say; directory parsing, voting and serving beyond the above; hidden services;
  guard and path selection; building circuits, channels and their scheduler; streams and SOCKS; the
  windows of streams and the XON/XOFF flow control of edge connections; the handshake of links and
  of conflux sets; generated parsers (trunnel) except the SENDME and conflux cells. The manifest has the
  reason for each.
\<close>

end
